(* ===== verification/Prelude.thy ===== *)
theory Prelude
  imports Main "HOL-Library.Word"
begin

text \<open>
  Shared vocabulary of the development: Rust results as sums, saturating and checked
  unsigned arithmetic, byte strings with the operations of \<open>str\<close> and \<open>[u8]\<close> the sources
  use, UTF-8 well-formedness, decimal printing and parsing, and the interface of a
  deterministic state machine whose operations keep an invariant.

  A Rust \<open>&str\<close> or \<open>&[u8]\<close> is a \<^typ>\<open>string\<close>, the list of its bytes: \<open>len()\<close> is
  \<^const>\<open>length\<close> and byte offsets are list positions.
\<close>

named_theorems arith_defs \<open>definitions of the machine arithmetic\<close>
named_theorems str_defs \<open>definitions of the string primitives\<close>

type_synonym ('e, 'a) result = "'e + 'a"

abbreviation Err :: "'e \<Rightarrow> ('e, 'a) result" where "Err \<equiv> Inl"
abbreviation Ok :: "'a \<Rightarrow> ('e, 'a) result" where "Ok \<equiv> Inr"

section \<open>Unsigned arithmetic\<close>

text \<open>Unsigned integers are naturals bounded by the maximum of their width.\<close>

definition u8_max :: nat where [arith_defs]: "u8_max = 255"
definition u16_max :: nat where [arith_defs]: "u16_max = 65535"
definition u32_max :: nat where [arith_defs]: "u32_max = 4294967295"
definition u64_max :: nat where [arith_defs]: "u64_max = 18446744073709551615"

definition sat_add :: "nat \<Rightarrow> nat \<Rightarrow> nat \<Rightarrow> nat" where
  [arith_defs]: "sat_add m a b = min m (a + b)"

definition checked_add :: "nat \<Rightarrow> nat \<Rightarrow> nat \<Rightarrow> nat option" where
  [arith_defs]: "checked_add m a b = (if a + b \<le> m then Some (a + b) else None)"

lemma sat_add_le [simp]: "sat_add m a b \<le> m"
  by (simp add: sat_add_def)

lemma sat_add_ge: "a \<le> m \<Longrightarrow> a \<le> sat_add m a b"
  by (simp add: sat_add_def)

lemma sat_add_mono: "b \<le> c \<Longrightarrow> sat_add m a b \<le> sat_add m a c"
  by (auto simp: sat_add_def min_def)

lemma sat_add_assoc: "sat_add m (sat_add m a b) c = sat_add m a (b + c)"
  by (simp add: sat_add_def)

lemma sat_add_eq: "a + b \<le> m \<Longrightarrow> sat_add m a b = a + b"
  by (simp add: sat_add_def)

lemma checked_add_Some_iff: "checked_add m a b = Some c \<longleftrightarrow> c = a + b \<and> a + b \<le> m"
  by (auto simp: checked_add_def)

section \<open>State machines\<close>

text \<open>
  A component whose operations are events: \<open>step\<close> runs one of them. What every operation
  keeps, every run keeps.
\<close>

locale state_machine =
  fixes step :: "'s \<Rightarrow> 'e \<Rightarrow> 's"
    and inv :: "'s \<Rightarrow> bool"
  assumes step_inv: "inv s \<Longrightarrow> inv (step s e)"
begin

lemma run_inv: "inv s \<Longrightarrow> inv (foldl step s es)"
  by (induction es arbitrary: s) (simp_all add: step_inv)

lemma run_append: "foldl step s (es @ fs) = foldl step (foldl step s es) fs"
  by simp

end

section \<open>Incremental consumers\<close>

text \<open>
  A consumer that can be fed its input in pieces: feeding two pieces is feeding their
  concatenation. The result then depends on the input only, not on how it was cut.
\<close>

locale incremental =
  fixes feed :: "'s \<Rightarrow> 'b list \<Rightarrow> 's"
  assumes feed_Nil: "feed s [] = s"
    and feed_append: "feed s (xs @ ys) = feed (feed s xs) ys"
begin

lemma feed_chunks: "foldl feed s cs = feed s (concat cs)"
  by (induction cs arbitrary: s) (simp_all add: feed_Nil feed_append)

lemma chunking_irrelevant: "concat cs = concat ds \<Longrightarrow> foldl feed s cs = foldl feed s ds"
  by (simp add: feed_chunks)

end

end
