(* ===== verification/Rust_Str.thy ===== *)
theory Rust_Str
  imports Prelude
begin

text \<open>
  The operations of Rust's \<open>str\<close>, \<open>[u8]\<close> and \<open>char\<close> that the modelled sources call, on
  lists of bytes: prefixes and suffixes, searching and splitting, ASCII classes, Unicode
  white space in its UTF-8 encoding, UTF-8 validity, decimal numbers.
\<close>

abbreviation LF :: char where "LF \<equiv> CHR 0x0A"
abbreviation CR :: char where "CR \<equiv> CHR 0x0D"

section \<open>Prefixes, suffixes, searching\<close>

definition starts_with :: "string \<Rightarrow> string \<Rightarrow> bool" where
  [str_defs]: "starts_with s p \<longleftrightarrow> take (length p) s = p"

definition ends_with :: "string \<Rightarrow> string \<Rightarrow> bool" where
  [str_defs]: "ends_with s p \<longleftrightarrow> length p \<le> length s \<and> drop (length s - length p) s = p"

definition strip_prefix :: "string \<Rightarrow> string \<Rightarrow> string option" where
  [str_defs]: "strip_prefix s p = (if starts_with s p then Some (drop (length p) s) else None)"

definition strip_suffix :: "string \<Rightarrow> string \<Rightarrow> string option" where
  [str_defs]: "strip_suffix s p = (if ends_with s p then Some (take (length s - length p) s) else None)"

text \<open>\<open>s.contains([...])\<close> with a set of characters.\<close>

definition contains_any :: "string \<Rightarrow> char list \<Rightarrow> bool" where
  [str_defs]: "contains_any s cs \<longleftrightarrow> list_ex (\<lambda>c. c \<in> set cs) s"

definition contains_char :: "string \<Rightarrow> char \<Rightarrow> bool" where
  [str_defs]: "contains_char s c \<longleftrightarrow> c \<in> set s"

lemma starts_with_append: "starts_with s p \<longleftrightarrow> (\<exists>r. s = p @ r)"
proof
  assume "starts_with s p"
  then show "\<exists>r. s = p @ r"
    by (metis append_take_drop_id starts_with_def)
qed (auto simp: starts_with_def)

lemma strip_prefix_Some_iff: "strip_prefix s p = Some r \<longleftrightarrow> s = p @ r"
  by (auto simp: strip_prefix_def starts_with_append)

lemma strip_prefix_None_iff: "strip_prefix s p = None \<longleftrightarrow> \<not> starts_with s p"
  by (simp add: strip_prefix_def)

lemma strip_suffix_Some_iff: "strip_suffix s p = Some r \<longleftrightarrow> s = r @ p"
proof
  assume "strip_suffix s p = Some r"
  then show "s = r @ p"
    by (metis append_take_drop_id ends_with_def option.distinct(1) option.inject strip_suffix_def)
qed (simp add: strip_suffix_def ends_with_def)

lemma ends_with_append: "ends_with s p \<longleftrightarrow> (\<exists>r. s = r @ p)"
proof
  assume "ends_with s p"
  then have "s = take (length s - length p) s @ p" by (metis append_take_drop_id ends_with_def)
  then show "\<exists>r. s = r @ p" ..
qed (auto simp: ends_with_def)

lemma contains_any_iff: "contains_any s cs \<longleftrightarrow> set s \<inter> set cs \<noteq> {}"
  by (auto simp: contains_any_def list_ex_iff)

lemma starts_with_Nil [simp]: "starts_with s []"
  by (simp add: starts_with_def)

text \<open>\<open>position\<close>: the index of the first element that satisfies a predicate.\<close>

fun position :: "('a \<Rightarrow> bool) \<Rightarrow> 'a list \<Rightarrow> nat option" where
  "position P [] = None"
| "position P (x # xs) = (if P x then Some 0 else map_option Suc (position P xs))"

lemma position_None_iff: "position P xs = None \<longleftrightarrow> (\<forall>x \<in> set xs. \<not> P x)"
  by (induction xs) auto

lemma position_Some_iff:
  "position P xs = Some i \<longleftrightarrow> i < length xs \<and> P (xs ! i) \<and> (\<forall>j < i. \<not> P (xs ! j))"
proof (induction xs arbitrary: i)
  case (Cons x xs)
  show ?case
  proof (cases i)
    case 0
    then show ?thesis by auto
  next
    case (Suc k)
    with Cons show ?thesis by (auto simp: less_Suc_eq_0_disj)
  qed
qed simp

lemma position_append:
  "position P (xs @ ys) = (case position P xs of
      Some i \<Rightarrow> Some i | None \<Rightarrow> map_option (\<lambda>i. i + length xs) (position P ys))"
  by (induction xs) (auto split: option.splits simp: option.map_comp comp_def option.map_ident)

text \<open>\<open>split_once\<close>, \<open>rsplit_once\<close> and \<open>split\<close> at a single byte; \<open>split_any\<close> at any of several.\<close>

definition split_once :: "string \<Rightarrow> char \<Rightarrow> (string \<times> string) option" where
  [str_defs]: "split_once s c =
     (case position (\<lambda>x. x = c) s of
        None \<Rightarrow> None | Some i \<Rightarrow> Some (take i s, drop (i + 1) s))"

fun split_by :: "(char \<Rightarrow> bool) \<Rightarrow> string \<Rightarrow> string list" where
  "split_by P [] = [[]]"
| "split_by P (x # xs) =
     (if P x then [] # split_by P xs
      else (case split_by P xs of [] \<Rightarrow> [[x]] | w # ws \<Rightarrow> (x # w) # ws))"

definition split_char :: "string \<Rightarrow> char \<Rightarrow> string list" where
  [str_defs]: "split_char s c = split_by (\<lambda>x. x = c) s"

definition split_any :: "string \<Rightarrow> char list \<Rightarrow> string list" where
  [str_defs]: "split_any s cs = split_by (\<lambda>x. x \<in> set cs) s"

lemma split_by_not_Nil [simp]: "split_by P s \<noteq> []"
  by (induction s) (auto split: list.splits)

lemma split_by_no_sep: "\<forall>c \<in> set s. \<not> P c \<Longrightarrow> split_by P s = [s]"
  by (induction s) auto

lemma split_by_append_sep:
  "\<forall>c \<in> set s. \<not> P c \<Longrightarrow> P x \<Longrightarrow> split_by P (s @ x # t) = s # split_by P t"
  by (induction s) auto

lemma split_once_append:
  "c \<notin> set a \<Longrightarrow> split_once (a @ c # b) c = Some (a, b)"
  by (simp add: split_once_def position_append position_None_iff [THEN iffD2] split: option.splits)
     (auto simp: position_Some_iff)

section \<open>ASCII classes\<close>

definition is_ascii_digit :: "char \<Rightarrow> bool" where
  [str_defs]: "is_ascii_digit c \<longleftrightarrow> 48 \<le> (of_char c :: nat) \<and> (of_char c :: nat) \<le> 57"

definition is_ascii_alphabetic :: "char \<Rightarrow> bool" where
  [str_defs]: "is_ascii_alphabetic c \<longleftrightarrow>
     (65 \<le> (of_char c :: nat) \<and> (of_char c :: nat) \<le> 90)
     \<or> (97 \<le> (of_char c :: nat) \<and> (of_char c :: nat) \<le> 122)"

definition is_ascii_alphanumeric :: "char \<Rightarrow> bool" where
  [str_defs]: "is_ascii_alphanumeric c \<longleftrightarrow> is_ascii_alphabetic c \<or> is_ascii_digit c"

definition is_ascii :: "char \<Rightarrow> bool" where
  [str_defs]: "is_ascii c \<longleftrightarrow> (of_char c :: nat) < 128"

text \<open>\<open>u8::is_ascii_whitespace\<close>: space, tab, line feed, form feed, carriage return.\<close>

definition is_ascii_whitespace :: "char \<Rightarrow> bool" where
  [str_defs]: "is_ascii_whitespace c \<longleftrightarrow> (of_char c :: nat) \<in> {9, 10, 12, 13, 32}"

definition to_ascii_lower :: "char \<Rightarrow> char" where
  [str_defs]: "to_ascii_lower c =
     (if 65 \<le> (of_char c :: nat) \<and> (of_char c :: nat) \<le> 90
      then char_of ((of_char c :: nat) + 32) else c)"

definition to_ascii_lowercase :: "string \<Rightarrow> string" where
  [str_defs]: "to_ascii_lowercase = map to_ascii_lower"

definition eq_ignore_ascii_case :: "string \<Rightarrow> string \<Rightarrow> bool" where
  [str_defs]: "eq_ignore_ascii_case a b \<longleftrightarrow> to_ascii_lowercase a = to_ascii_lowercase b"

section \<open>Unicode white space in UTF-8\<close>

text \<open>
  \<open>white_len s\<close> is the number of bytes of the white-space character \<open>s\<close> starts with, 0 when
  it starts with none: U+0009 to U+000D, U+0020, U+0085, U+00A0, U+1680, U+2000 to U+200A,
  U+2028, U+2029, U+202F, U+205F and U+3000. \<open>white_len_rev\<close> does the same on the reversed
  bytes, for the end of a string.
\<close>

definition white1 :: "nat \<Rightarrow> bool" where
  [str_defs]: "white1 a \<longleftrightarrow> (9 \<le> a \<and> a \<le> 13) \<or> a = 32"

definition white2 :: "nat \<Rightarrow> nat \<Rightarrow> bool" where
  [str_defs]: "white2 a b \<longleftrightarrow> a = 0xC2 \<and> (b = 0x85 \<or> b = 0xA0)"

definition white3 :: "nat \<Rightarrow> nat \<Rightarrow> nat \<Rightarrow> bool" where
  [str_defs]: "white3 a b c \<longleftrightarrow>
     (a = 0xE1 \<and> b = 0x9A \<and> c = 0x80)
     \<or> (a = 0xE2 \<and> b = 0x80 \<and> (0x80 \<le> c \<and> c \<le> 0x8A \<or> c = 0xA8 \<or> c = 0xA9 \<or> c = 0xAF))
     \<or> (a = 0xE2 \<and> b = 0x81 \<and> c = 0x9F)
     \<or> (a = 0xE3 \<and> b = 0x80 \<and> c = 0x80)"

fun white_len :: "string \<Rightarrow> nat" where
  "white_len [] = 0"
| "white_len [a] = (if white1 (of_char a) then 1 else 0)"
| "white_len [a, b] =
     (if white1 (of_char a) then 1 else if white2 (of_char a) (of_char b) then 2 else 0)"
| "white_len (a # b # c # _) =
     (if white1 (of_char a) then 1 else if white2 (of_char a) (of_char b) then 2
      else if white3 (of_char a) (of_char b) (of_char c) then 3 else 0)"

fun white_len_rev :: "string \<Rightarrow> nat" where
  "white_len_rev [] = 0"
| "white_len_rev [a] = (if white1 (of_char a) then 1 else 0)"
| "white_len_rev [b, a] =
     (if white1 (of_char b) then 1 else if white2 (of_char a) (of_char b) then 2 else 0)"
| "white_len_rev (c # b # a # _) =
     (if white1 (of_char c) then 1 else if white2 (of_char b) (of_char c) then 2
      else if white3 (of_char a) (of_char b) (of_char c) then 3 else 0)"

lemma white_len_pos_not_Nil: "0 < white_len s \<Longrightarrow> s \<noteq> []"
  by (cases s) auto

lemma white_len_rev_pos_not_Nil: "0 < white_len_rev s \<Longrightarrow> s \<noteq> []"
  by (cases s) auto

function trim_start :: "string \<Rightarrow> string" where
  "trim_start s = (if white_len s = 0 then s else trim_start (drop (white_len s) s))"
  by pat_completeness auto
termination
  by (relation "measure length") (use white_len_pos_not_Nil in fastforce)+

function trim_rev :: "string \<Rightarrow> string" where
  "trim_rev s = (if white_len_rev s = 0 then s else trim_rev (drop (white_len_rev s) s))"
  by pat_completeness auto
termination
  by (relation "measure length") (use white_len_rev_pos_not_Nil in fastforce)+

declare trim_start.simps [simp del] trim_rev.simps [simp del]

definition trim_end :: "string \<Rightarrow> string" where
  [str_defs]: "trim_end s = rev (trim_rev (rev s))"

definition trim :: "string \<Rightarrow> string" where
  [str_defs]: "trim s = trim_end (trim_start s)"

text \<open>On ASCII texts trimming removes white bytes at both ends.\<close>

lemma white_len_ascii:
  assumes "list_all is_ascii s"
  shows "white_len s = (case s of [] \<Rightarrow> 0 | c # _ \<Rightarrow> if white1 (of_char c) then 1 else 0)"
    and "white_len_rev s = (case s of [] \<Rightarrow> 0 | c # _ \<Rightarrow> if white1 (of_char c) then 1 else 0)"
  using assms by (cases s rule: white_len.cases; auto simp: is_ascii_def white2_def white3_def)+

lemma trim_start_split:
  "list_all is_ascii s \<Longrightarrow> \<exists>a. s = a @ trim_start s \<and> list_all (\<lambda>c. white1 (of_char c)) a"
proof (induction s rule: trim_start.induct)
  case (1 s)
  show ?case
  proof (cases "white_len s = 0")
    case True
    then show ?thesis by (simp add: trim_start.simps [of s])
  next
    case False
    then obtain c r where s: "s = c # r" "white1 (of_char c)" "white_len s = 1"
      using white_len_ascii(1) [OF "1.prems"] by (cases s) (auto split: if_splits)
    then obtain a where "r = a @ trim_start r" "list_all (\<lambda>c. white1 (of_char c)) a"
      using "1.IH" False "1.prems" by auto
    then show ?thesis using s False
      by (intro exI [of _ "c # a"]) (simp add: trim_start.simps [of "c # r"])
  qed
qed

lemma trim_rev_split:
  "list_all is_ascii s \<Longrightarrow> \<exists>a. s = a @ trim_rev s \<and> list_all (\<lambda>c. white1 (of_char c)) a"
proof (induction s rule: trim_rev.induct)
  case (1 s)
  show ?case
  proof (cases "white_len_rev s = 0")
    case True
    then show ?thesis by (simp add: trim_rev.simps [of s])
  next
    case False
    then obtain c r where s: "s = c # r" "white1 (of_char c)" "white_len_rev s = 1"
      using white_len_ascii(2) [OF "1.prems"] by (cases s) (auto split: if_splits)
    then obtain a where "r = a @ trim_rev r" "list_all (\<lambda>c. white1 (of_char c)) a"
      using "1.IH" False "1.prems" by auto
    then show ?thesis using s False
      by (intro exI [of _ "c # a"]) (simp add: trim_rev.simps [of "c # r"])
  qed
qed

lemma trim_split:
  assumes "list_all is_ascii s"
  shows "\<exists>a b. s = a @ trim s @ b \<and> list_all (\<lambda>c. white1 (of_char c)) (a @ b)"
proof -
  obtain a where a: "s = a @ trim_start s" "list_all (\<lambda>c. white1 (of_char c)) a"
    using trim_start_split [OF assms] by blast
  then have "list_all is_ascii (trim_start s)" using assms by (metis list_all_append)
  then obtain b where b: "rev (trim_start s) = b @ trim_rev (rev (trim_start s))"
      "list_all (\<lambda>c. white1 (of_char c)) b"
    using trim_rev_split [of "rev (trim_start s)"] by auto
  then have "trim_start s = rev (trim_rev (rev (trim_start s))) @ rev b" by (metis rev_append rev_rev_ident)
  then have "s = a @ trim s @ rev b" using a(1) by (simp add: trim_def trim_end_def)
  then show ?thesis using a(2) b(2) by (intro exI [of _ a] exI [of _ "rev b"]) simp
qed

text \<open>\<open>split_whitespace\<close>: the maximal runs of characters that are not white space.\<close>

fun word_span :: "string \<Rightarrow> string \<times> string" where
  "word_span [] = ([], [])"
| "word_span (x # xs) =
     (if white_len (x # xs) > 0 then ([], x # xs)
      else (let (w, r) = word_span xs in (x # w, r)))"

lemma word_span_append: "word_span s = (w, r) \<Longrightarrow> s = w @ r"
  by (induction s arbitrary: w r) (auto split: if_splits prod.splits)

lemma length_trim_start: "length (trim_start s) \<le> length s"
  by (induction s rule: trim_start.induct) (subst trim_start.simps, auto)

lemma white_len_trim_start [simp]: "white_len (trim_start s) = 0"
  by (induction s rule: trim_start.induct) (subst trim_start.simps, auto)

function split_whitespace :: "string \<Rightarrow> string list" where
  "split_whitespace s =
     (let p = word_span (trim_start s)
      in if fst p = [] then [] else fst p # split_whitespace (snd p))"
  by pat_completeness auto
termination
proof (relation "measure length")
  fix s p
  assume "p = word_span (trim_start s)" and "fst p \<noteq> []"
  then have "fst p \<noteq> []" and "trim_start s = fst p @ snd p"
    using word_span_append [of "trim_start s" "fst p" "snd p"] by simp_all
  then have "length (snd p) < length (trim_start s)"
    by (metis length_append length_greater_0_conv less_add_same_cancel2)
  then show "(snd p, s) \<in> measure length"
    using length_trim_start [of s] by simp
qed simp

declare split_whitespace.simps [simp del]

section \<open>UTF-8 validity\<close>

definition cont :: "char \<Rightarrow> bool" where
  [str_defs]: "cont c \<longleftrightarrow> 0x80 \<le> (of_char c :: nat) \<and> (of_char c :: nat) \<le> 0xBF"

text \<open>\<open>utf8_len s\<close>: the length of the well-formed UTF-8 character \<open>s\<close> starts with, or 0.\<close>

definition lead2 :: "char \<Rightarrow> char \<Rightarrow> bool" where
  [str_defs]: "lead2 a b \<longleftrightarrow> 0xC2 \<le> (of_char a :: nat) \<and> (of_char a :: nat) \<le> 0xDF \<and> cont b"

definition lead3 :: "char \<Rightarrow> char \<Rightarrow> bool" where
  [str_defs]: "lead3 a b \<longleftrightarrow>
     (let x = (of_char a :: nat); y = (of_char b :: nat) in
       (x = 0xE0 \<and> 0xA0 \<le> y \<and> y \<le> 0xBF) \<or> (0xE1 \<le> x \<and> x \<le> 0xEC \<and> cont b)
       \<or> (x = 0xED \<and> 0x80 \<le> y \<and> y \<le> 0x9F) \<or> (0xEE \<le> x \<and> x \<le> 0xEF \<and> cont b))"

definition lead4 :: "char \<Rightarrow> char \<Rightarrow> bool" where
  [str_defs]: "lead4 a b \<longleftrightarrow>
     (let x = (of_char a :: nat); y = (of_char b :: nat) in
       (x = 0xF0 \<and> 0x90 \<le> y \<and> y \<le> 0xBF) \<or> (0xF1 \<le> x \<and> x \<le> 0xF3 \<and> cont b)
       \<or> (x = 0xF4 \<and> 0x80 \<le> y \<and> y \<le> 0x8F))"

definition utf8_len :: "string \<Rightarrow> nat" where
  [str_defs]: "utf8_len s =
     (case s of
        [] \<Rightarrow> 0
      | a # r1 \<Rightarrow>
          if is_ascii a then 1 else
          (case r1 of
             [] \<Rightarrow> 0
           | b # r2 \<Rightarrow>
               if lead2 a b then 2 else
               (case r2 of
                  [] \<Rightarrow> 0
                | c # r3 \<Rightarrow>
                    if lead3 a b \<and> cont c then 3 else
                    (case r3 of
                       [] \<Rightarrow> 0
                     | d # _ \<Rightarrow> if lead4 a b \<and> cont c \<and> cont d then 4 else 0))))"

lemma utf8_len_bounds: "utf8_len s \<le> length s"
  by (auto simp: utf8_len_def split: list.splits)

function utf8_valid :: "string \<Rightarrow> bool" where
  "utf8_valid s =
     (if s = [] then True else if utf8_len s = 0 then False
      else utf8_valid (drop (utf8_len s) s))"
  by pat_completeness auto
termination
  by (relation "measure length") auto

declare utf8_valid.simps [simp del]

lemma utf8_valid_Nil [simp]: "utf8_valid []"
  by (simp add: utf8_valid.simps)

text \<open>\<open>str::is_char_boundary\<close> on the bytes of a valid string.\<close>

definition is_char_boundary :: "string \<Rightarrow> nat \<Rightarrow> bool" where
  [str_defs]: "is_char_boundary s i \<longleftrightarrow>
     i = 0 \<or> i = length s \<or> (i < length s \<and> \<not> cont (s ! i))"

text \<open>\<open>&s[a..b]\<close>, which panics (\<open>None\<close>) outside the text and inside a character.\<close>

definition str_slice :: "string \<Rightarrow> nat \<Rightarrow> nat \<Rightarrow> string option" where
  "str_slice s a b =
     (if a \<le> b \<and> b \<le> length s \<and> is_char_boundary s a \<and> is_char_boundary s b
      then Some (drop a (take b s)) else None)"

text \<open>What follows an ASCII byte of a valid text starts a new character.\<close>

lemma cont_not_ascii: "cont c \<Longrightarrow> \<not> is_ascii c"
  by (simp add: cont_def is_ascii_def)

lemma lead_not_cont: "lead2 a b \<or> lead3 a b \<or> lead4 a b \<Longrightarrow> \<not> cont a \<and> \<not> is_ascii a \<and> cont b"
  by (auto simp: lead2_def lead3_def lead4_def cont_def is_ascii_def Let_def)

lemma utf8_len_shape:
  assumes "utf8_len s \<noteq> 0"
  shows "\<not> cont (s ! 0)"
    and "0 < i \<Longrightarrow> i < utf8_len s \<Longrightarrow> cont (s ! i)"
    and "0 < i \<Longrightarrow> i \<le> utf8_len s \<Longrightarrow> is_ascii (s ! (i - 1)) \<Longrightarrow> utf8_len s = 1"
proof -
  show "\<not> cont (s ! 0)"
    using assms lead_not_cont
    by (auto simp: utf8_len_def cont_not_ascii split: list.splits if_splits)
  show c: "0 < i \<Longrightarrow> i < utf8_len s \<Longrightarrow> cont (s ! i)" for i
    using lead_not_cont
    by (auto simp: utf8_len_def less_Suc_eq numeral_eq_Suc nth_Cons' split: list.splits if_splits)
  show "0 < i \<Longrightarrow> i \<le> utf8_len s \<Longrightarrow> is_ascii (s ! (i - 1)) \<Longrightarrow> utf8_len s = 1"
    using c [of "i - 1"] cont_not_ascii [of "s ! (i - 1)"]
    by (cases "i = 1") (auto simp: utf8_len_def split: list.splits if_splits)
qed

lemma utf8_valid_after_ascii:
  "utf8_valid s \<Longrightarrow> 0 < i \<Longrightarrow> i < length s \<Longrightarrow> is_ascii (s ! (i - 1)) \<Longrightarrow> \<not> cont (s ! i)"
proof (induction s arbitrary: i rule: utf8_valid.induct)
  case (1 s)
  let ?n = "utf8_len s"
  from "1.prems"(1,3) have n: "?n \<noteq> 0" and rest: "utf8_valid (drop ?n s)"
    by (auto simp: utf8_valid.simps [of s] split: if_splits)
  note shape = utf8_len_shape [OF n]
  consider "i < ?n" | "i = ?n" | "?n < i" by linarith
  then show ?case
  proof cases
    case 1
    then show ?thesis using shape(3) [of i] "1.prems" by simp
  next
    case 2
    then have "drop ?n s \<noteq> []" using "1.prems"(3) by simp
    with rest have "utf8_len (drop ?n s) \<noteq> 0"
      by (auto simp: utf8_valid.simps [of "drop ?n s"] split: if_splits)
    from utf8_len_shape(1) [OF this] show ?thesis using 2 "1.prems"(3) by simp
  next
    case 3
    have "\<not> cont (drop ?n s ! (i - ?n))"
      by (rule "1.IH") (use 3 n rest "1.prems" in \<open>auto simp: utf8_len_bounds\<close>)
    then show ?thesis using 3 "1.prems"(3) by simp
  qed
qed

lemma boundary_after_ascii:
  assumes "utf8_valid s" "i \<le> length s" "0 < i" "is_ascii (s ! (i - 1))"
  shows "is_char_boundary s i"
  using assms utf8_valid_after_ascii [of s i] by (cases "i = length s") (auto simp: is_char_boundary_def)

lemma boundary_at_ascii: "i < length s \<Longrightarrow> is_ascii (s ! i) \<Longrightarrow> is_char_boundary s i"
  using cont_not_ascii [of "s ! i"] by (auto simp: is_char_boundary_def)

section \<open>Lines\<close>

text \<open>\<open>split_inclusive('\n')\<close>: every piece but the last ends in the line feed.\<close>

fun split_inclusive :: "string \<Rightarrow> string list" where
  "split_inclusive [] = []"
| "split_inclusive (c # cs) =
     (if c = CHR 0x0A then [c] # split_inclusive cs
      else case split_inclusive cs of [] \<Rightarrow> [[c]] | l # ls \<Rightarrow> (c # l) # ls)"

lemma concat_split_inclusive [simp]: "concat (split_inclusive s) = s"
  by (induction s) (auto split: list.split)

lemma split_inclusive_eq_Nil [simp]: "split_inclusive s = [] \<longleftrightarrow> s = []"
  by (cases s) (auto split: list.split)

text \<open>\<open>lines()\<close>: the pieces without their line feed, and without a carriage return before it.\<close>

definition chomp :: "string \<Rightarrow> string" where
  "chomp l = (case strip_suffix l [CHR 0x0A] of
      None \<Rightarrow> l
    | Some l' \<Rightarrow> (case strip_suffix l' [CHR 0x0D] of None \<Rightarrow> l' | Some l'' \<Rightarrow> l''))"

definition str_lines :: "string \<Rightarrow> string list" where
  "str_lines s = map chomp (split_inclusive s)"

text \<open>\<open>str::find\<close> of a substring.\<close>

fun find_sub :: "string \<Rightarrow> string \<Rightarrow> nat option" where
  "find_sub [] p = (if p = [] then Some 0 else None)"
| "find_sub (c # cs) p =
     (if starts_with (c # cs) p then Some 0 else map_option Suc (find_sub cs p))"

definition contains_sub :: "string \<Rightarrow> string \<Rightarrow> bool" where
  "contains_sub s p \<longleftrightarrow> find_sub s p \<noteq> None"

lemma find_sub_Some: "find_sub s p = Some i \<Longrightarrow> i + length p \<le> length s \<and> starts_with (drop i s) p"
proof (induction s arbitrary: i)
  case (Cons c cs)
  then show ?case
    by (cases "starts_with (c # cs) p")
       (auto simp: starts_with_append dest: arg_cong [where f = length])
qed (auto split: if_splits)

lemma find_sub_first:
  "find_sub s p = Some i \<Longrightarrow> j < i \<Longrightarrow> \<not> starts_with (drop j s) p"
proof (induction s arbitrary: i j)
  case (Cons c cs)
  then show ?case by (cases j) (auto split: if_splits)
qed (auto split: if_splits)

lemma find_sub_None: "find_sub s p = None \<Longrightarrow> \<not> starts_with (drop j s) p"
proof (induction s arbitrary: j)
  case (Cons c cs)
  then show ?case by (cases j) (auto split: if_splits)
qed (auto simp: starts_with_def split: if_splits)

section \<open>Decimal numbers\<close>

fun nat_to_string :: "nat \<Rightarrow> string" where
  "nat_to_string n =
     (if n < 10 then [char_of (48 + n)]
      else nat_to_string (n div 10) @ [char_of (48 + n mod 10)])"

declare nat_to_string.simps [simp del]

definition digit_value :: "char \<Rightarrow> nat" where
  [str_defs]: "digit_value c = (of_char c :: nat) - 48"

definition digits_value :: "string \<Rightarrow> nat" where
  [str_defs]: "digits_value s = foldl (\<lambda>n c. 10 * n + digit_value c) 0 s"

text \<open>
  \<open>parse::<uN>()\<close>: an optional \<open>+\<close>, then at least one digit, and the value must fit the width.
\<close>

definition parse_uint :: "nat \<Rightarrow> string \<Rightarrow> nat option" where
  "parse_uint m s =
     (let d = (case s of c # r \<Rightarrow> if c = CHR ''+'' then r else s | [] \<Rightarrow> [])
      in if d \<noteq> [] \<and> list_all is_ascii_digit d \<and> digits_value d \<le> m
         then Some (digits_value d) else None)"

lemma of_char_digit: "n < 10 \<Longrightarrow> (of_char (char_of (48 + n) :: char) :: nat) = 48 + n"
  by simp

lemma nat_to_string_digits: "list_all is_ascii_digit (nat_to_string n)"
  by (induction n rule: nat_to_string.induct)
     (subst nat_to_string.simps, simp add: is_ascii_digit_def [of "char_of _"], presburger)

lemma nat_to_string_not_Nil [simp]: "nat_to_string n \<noteq> []"
  by (subst nat_to_string.simps) simp

lemma digits_value_nat_to_string: "digits_value (nat_to_string n) = n"
proof (induction n rule: nat_to_string.induct)
  case (1 n)
  show ?case
  proof (cases "n < 10")
    case True
    then show ?thesis
      by (simp add: nat_to_string.simps [of n] digits_value_def digit_value_def)
  next
    case False
    with "1" have "digits_value (nat_to_string (n div 10)) = n div 10" by simp
    with False show ?thesis
      by (simp add: nat_to_string.simps [of n] digits_value_def digit_value_def)
  qed
qed

lemma nat_to_string_hd: "\<exists>c r. nat_to_string n = c # r \<and> is_ascii_digit c"
  using nat_to_string_digits [of n] nat_to_string_not_Nil [of n]
  by (cases "nat_to_string n") auto

text \<open>Printing then parsing gives the number back.\<close>

lemma parse_uint_nat_to_string:
  assumes "n \<le> m"
  shows "parse_uint m (nat_to_string n) = Some n"
proof -
  obtain c r where s: "nat_to_string n = c # r" and c: "is_ascii_digit c"
    using nat_to_string_hd by blast
  from c have "c \<noteq> CHR ''+''" by (auto simp: is_ascii_digit_def)
  with s assms show ?thesis
    using nat_to_string_digits [of n] digits_value_nat_to_string [of n]
    by (simp add: parse_uint_def)
qed

lemma nat_to_string_no_char: "\<not> is_ascii_digit c \<Longrightarrow> c \<notin> set (nat_to_string n)"
  using nat_to_string_digits [of n] by (auto simp: list_all_iff)

section \<open>Paths\<close>

text \<open>The components of a path on Unix (\<open>std::path\<close>).\<close>

datatype component = RootDir | CurDir | ParentDir | Normal string

definition is_absolute :: "string \<Rightarrow> bool" where
  "is_absolute p \<longleftrightarrow> starts_with p ''/''"

text \<open>\<open>Path::components\<close>: empty parts and inner dots vanish.\<close>

definition part_component :: "string \<Rightarrow> component" where
  "part_component s = (if s = ''..'' then ParentDir else Normal s)"

definition components :: "string \<Rightarrow> component list" where
  "components p =
     (let parts = filter (\<lambda>s. s \<noteq> []) (split_char p (CHR ''/'')) in
      (if is_absolute p then [RootDir] else if parts \<noteq> [] \<and> hd parts = ''.'' then [CurDir] else [])
      @ map part_component (filter (\<lambda>s. s \<noteq> ''.'') parts))"

end
