(* ===== verification/Loop_Guard.thy ===== *)
theory Loop_Guard
  imports Prelude
begin

text \<open>
  The loop guard of a run (\<^verbatim>\<open>crates/qq-core/src/runtime/loop_guard.rs\<close>): it refuses a call
  that has just produced the same outcome too often in a row, and reports no progress after
  512 consecutive attempts that showed nothing new. What is new is judged against the
  fingerprints of the current and the previous window of 256 attempts.

  SHA-256 (crate \<open>sha2\<close>) is the parameter \<open>sha256\<close> of the operations that hash.
\<close>

section \<open>State\<close>

type_synonym digest = string

definition WINDOW_ATTEMPTS :: nat where "WINDOW_ATTEMPTS = 256"
definition QUIET_LIMIT :: nat where "QUIET_LIMIT = 512"

datatype call_key = CallKey digest

fun key_bytes :: "call_key \<Rightarrow> digest" where
  "key_bytes (CallKey d) = d"

text \<open>The eight little-endian bytes of a \<open>u64\<close>.\<close>

primrec le_bytes :: "nat \<Rightarrow> nat \<Rightarrow> string" where
  "le_bytes 0 n = []"
| "le_bytes (Suc k) n = char_of (n mod 256) # le_bytes k (n div 256)"

definition CallKey_new :: "(string \<Rightarrow> digest) \<Rightarrow> string \<Rightarrow> string \<Rightarrow> call_key" where
  "CallKey_new sha256 tool canonical_arguments =
     CallKey (sha256 (''qq-loop-call-v1'' @ [CHR 0x00] @ le_bytes 8 (length tool) @ tool
       @ canonical_arguments))"

record executed_triple =
  et_call :: call_key
  et_fingerprint :: digest
  et_is_error :: bool
  et_repeats :: nat

record loop_guard =
  current :: "digest list"
  previous :: "digest list"
  window_attempts :: nat
  quiet :: nat
  eligible :: nat
  last_triple :: "executed_triple option"

definition LoopGuard_default :: loop_guard where
  "LoopGuard_default =
     \<lparr>current = [], previous = [], window_attempts = 0, quiet = 0, eligible = 0,
      last_triple = None\<rparr>"

section \<open>Operations\<close>

definition reject :: "loop_guard \<Rightarrow> call_key \<Rightarrow> bool" where
  "reject g call =
     (case last_triple g of
        None \<Rightarrow> False
      | Some l \<Rightarrow> et_call l = call \<and> et_repeats l \<ge> (if et_is_error l then 2 else 4))"

definition no_progress :: "loop_guard \<Rightarrow> bool" where
  "no_progress g \<longleftrightarrow> quiet g \<ge> QUIET_LIMIT"

text \<open>\<open>window_attempts\<close> is a \<open>u16\<close> and never passes 256; \<open>eligible\<close> is a saturating \<open>u64\<close>.\<close>

definition advance_window :: "loop_guard \<Rightarrow> loop_guard" where
  "advance_window g =
     (let g1 = (if window_attempts g = WINDOW_ATTEMPTS
                then g\<lparr>previous := current g, current := [], window_attempts := 0\<rparr>
                else g)
      in g1\<lparr>window_attempts := window_attempts g1 + 1,
            eligible := sat_add u64_max (eligible g1) 1\<rparr>)"

definition fingerprint :: "(string \<Rightarrow> digest) \<Rightarrow> call_key \<Rightarrow> digest \<Rightarrow> bool \<Rightarrow> digest" where
  "fingerprint sha256 call result_digest is_error =
     sha256 (''qq-loop-result-v1'' @ [CHR 0x00] @ key_bytes call
       @ [if is_error then CHR 0x01 else CHR 0x00] @ result_digest)"

text \<open>The body of \<open>executed_digest\<close> after the window has advanced and the hash is known.\<close>

definition record_execution :: "call_key \<Rightarrow> digest \<Rightarrow> bool \<Rightarrow> loop_guard \<Rightarrow> loop_guard" where
  "record_execution call fp is_error g =
     (let in_current = fp \<in> set (current g);
          novel = (\<not> in_current \<and> fp \<notin> set (previous g));
          g1 = (if in_current then g else g\<lparr>current := current g @ [fp]\<rparr>);
          repeats = (case last_triple g1 of
                       Some l \<Rightarrow> if et_fingerprint l = fp
                                 then sat_add u16_max (et_repeats l) 1 else 1
                     | None \<Rightarrow> 1);
          g2 = g1\<lparr>last_triple := Some \<lparr>et_call = call, et_fingerprint = fp,
                     et_is_error = is_error, et_repeats = repeats\<rparr>\<rparr>
      in if novel then g2\<lparr>quiet := 0\<rparr>
         else g2\<lparr>quiet := sat_add u16_max (quiet g2) 1\<rparr>)"

definition executed_digest ::
  "(string \<Rightarrow> digest) \<Rightarrow> call_key \<Rightarrow> digest \<Rightarrow> bool \<Rightarrow> loop_guard \<Rightarrow> bool \<times> loop_guard" where
  "executed_digest sha256 call result_digest is_error g =
     (let g' = record_execution call (fingerprint sha256 call result_digest is_error) is_error
                 (advance_window g)
      in (no_progress g', g'))"

definition unexecuted :: "loop_guard \<Rightarrow> bool \<times> loop_guard" where
  "unexecuted g =
     (let g1 = advance_window g;
          g2 = g1\<lparr>quiet := sat_add u16_max (quiet g1) 1\<rparr>
      in (no_progress g2, g2))"

definition unobserved :: "loop_guard \<Rightarrow> bool \<times> loop_guard" where
  "unobserved g = unexecuted (g\<lparr>last_triple := None\<rparr>)"

definition mutation :: "loop_guard \<Rightarrow> loop_guard" where
  "mutation g =
     g\<lparr>current := [], previous := [], window_attempts := 0, quiet := 0, last_triple := None\<rparr>"

definition spontaneous_text :: "loop_guard \<Rightarrow> loop_guard" where
  "spontaneous_text g = g\<lparr>quiet := 0\<rparr>"

definition quiet_attempts :: "loop_guard \<Rightarrow> nat" where
  "quiet_attempts g = quiet g"

definition eligible_attempts :: "loop_guard \<Rightarrow> nat" where
  "eligible_attempts g = eligible g"

definition retained_triples :: "loop_guard \<Rightarrow> nat" where
  "retained_triples g = length (current g) + length (previous g)"

text \<open>The operations as the events of a run.\<close>

datatype guard_event =
    Executed call_key digest bool
  | Unexecuted
  | Unobserved
  | Mutation
  | SpontaneousText

fun guard_step :: "(string \<Rightarrow> digest) \<Rightarrow> loop_guard \<Rightarrow> guard_event \<Rightarrow> loop_guard" where
  "guard_step sha g (Executed call result is_error) = snd (executed_digest sha call result is_error g)"
| "guard_step sha g Unexecuted = snd (unexecuted g)"
| "guard_step sha g Unobserved = snd (unobserved g)"
| "guard_step sha g Mutation = mutation g"
| "guard_step sha g SpontaneousText = spontaneous_text g"

definition guard_run :: "(string \<Rightarrow> digest) \<Rightarrow> loop_guard \<Rightarrow> guard_event list \<Rightarrow> loop_guard" where
  "guard_run sha = foldl (guard_step sha)"

lemmas guard_ops =
  executed_digest_def unexecuted_def unobserved_def mutation_def spontaneous_text_def
  record_execution_def advance_window_def Let_def

section \<open>The windows stay bounded\<close>

definition guard_inv :: "loop_guard \<Rightarrow> bool" where
  "guard_inv g \<longleftrightarrow>
     length (current g) \<le> window_attempts g \<and> window_attempts g \<le> WINDOW_ATTEMPTS
     \<and> length (previous g) \<le> WINDOW_ATTEMPTS
     \<and> distinct (current g) \<and> distinct (previous g)
     \<and> quiet g \<le> u16_max \<and> eligible g \<le> u64_max"

lemma guard_inv_default: "guard_inv LoopGuard_default"
  by (simp add: guard_inv_def LoopGuard_default_def WINDOW_ATTEMPTS_def)

lemma guard_inv_advance:
  assumes "guard_inv g"
  shows "guard_inv (advance_window g)"
    and "length (current (advance_window g)) < window_attempts (advance_window g)"
  using assms by (auto simp: guard_inv_def advance_window_def Let_def WINDOW_ATTEMPTS_def)

lemma guard_inv_record:
  assumes "guard_inv g" and "length (current g) < window_attempts g"
  shows "guard_inv (record_execution call fp is_error g)"
  using assms by (auto simp: guard_inv_def record_execution_def Let_def)

lemma guard_inv_unexecuted: "guard_inv g \<Longrightarrow> guard_inv (snd (unexecuted g))"
  by (auto simp: unexecuted_def Let_def guard_inv_def dest: guard_inv_advance)
     (auto simp: guard_inv_def advance_window_def Let_def WINDOW_ATTEMPTS_def)

lemma guard_step_inv: "guard_inv g \<Longrightarrow> guard_inv (guard_step sha g e)"
proof (cases e)
  case (Executed call result is_error)
  assume "guard_inv g"
  with Executed show ?thesis
    by (simp add: executed_digest_def Let_def guard_inv_record guard_inv_advance)
qed (auto simp: guard_inv_unexecuted unobserved_def mutation_def spontaneous_text_def
        intro!: guard_inv_unexecuted, auto simp: guard_inv_def)

interpretation lg: state_machine "guard_step sha" guard_inv for sha
  by unfold_locales (rule guard_step_inv)

section \<open>Retention: an outcome is remembered for 256 attempts\<close>

fun is_attempt :: "guard_event \<Rightarrow> bool" where
  "is_attempt (Executed _ _ _) = True"
| "is_attempt Unexecuted = True"
| "is_attempt Unobserved = True"
| "is_attempt _ = False"

definition retained :: "loop_guard \<Rightarrow> digest \<Rightarrow> bool" where
  "retained g fp \<longleftrightarrow> fp \<in> set (current g) \<or> fp \<in> set (previous g)"

text \<open>\<open>retained_for k g fp\<close>: the windows keep \<open>fp\<close> for at least \<open>k\<close> more attempts.\<close>

definition retained_for :: "nat \<Rightarrow> loop_guard \<Rightarrow> digest \<Rightarrow> bool" where
  "retained_for k g fp \<longleftrightarrow>
     window_attempts g \<le> WINDOW_ATTEMPTS \<and>
     (fp \<in> set (current g) \<and> k + window_attempts g \<le> 2 * WINDOW_ATTEMPTS
      \<or> fp \<in> set (previous g) \<and> k + window_attempts g \<le> WINDOW_ATTEMPTS)"

lemma retained_for_retained: "retained_for k g fp \<Longrightarrow> retained g fp"
  by (auto simp: retained_for_def retained_def)

lemma retained_for_mono: "retained_for k g fp \<Longrightarrow> j \<le> k \<Longrightarrow> retained_for j g fp"
  by (auto simp: retained_for_def)

lemma retained_for_advance: "retained_for (Suc k) g fp \<Longrightarrow> retained_for k (advance_window g) fp"
  by (auto simp: retained_for_def advance_window_def Let_def WINDOW_ATTEMPTS_def)

lemma retained_for_record:
  "retained_for k g fp \<Longrightarrow> retained_for k (record_execution call fp' is_error g) fp"
  by (auto simp: retained_for_def record_execution_def Let_def)

lemma retained_for_new:
  "guard_inv g \<Longrightarrow> retained_for WINDOW_ATTEMPTS (record_execution call fp is_error g) fp"
  by (auto simp: retained_for_def record_execution_def Let_def guard_inv_def)

lemma advance_window_unobserved:
  "advance_window (g\<lparr>last_triple := l\<rparr>) = (advance_window g)\<lparr>last_triple := l\<rparr>"
  by (simp add: advance_window_def Let_def)

lemma retained_for_step:
  assumes "is_attempt e" and "retained_for (Suc k) g fp"
  shows "retained_for k (guard_step sha g e) fp"
proof -
  have adv: "retained_for k (advance_window g) fp"
    using assms(2) by (rule retained_for_advance)
  show ?thesis
  proof (cases e)
    case Executed
    with adv show ?thesis
      by (simp add: executed_digest_def Let_def retained_for_record)
  next
    case Unexecuted
    with adv show ?thesis
      by (simp add: unexecuted_def Let_def retained_for_def)
  next
    case Unobserved
    with adv show ?thesis
      by (simp add: unobserved_def unexecuted_def Let_def retained_for_def
          advance_window_unobserved)
  qed (use assms in simp_all)
qed

section \<open>Quiet attempts\<close>

lemma quiet_advance [simp]: "quiet (advance_window g) = quiet g"
  by (simp add: advance_window_def Let_def)

lemma quiet_record:
  "quiet (record_execution call fp is_error g) =
     (if retained g fp then sat_add u16_max (quiet g) 1 else 0)"
  by (simp add: record_execution_def retained_def Let_def)

definition event_fp :: "(string \<Rightarrow> digest) \<Rightarrow> guard_event \<Rightarrow> digest" where
  "event_fp sha e = (case e of Executed c d b \<Rightarrow> fingerprint sha c d b | _ \<Rightarrow> [])"

fun is_executed :: "guard_event \<Rightarrow> bool" where
  "is_executed (Executed _ _ _) = True"
| "is_executed _ = False"

lemma is_executed_attempt: "is_executed e \<Longrightarrow> is_attempt e"
  by (cases e) simp_all

lemma quiet_executed_step:
  assumes "is_executed e" and "retained_for 1 g (event_fp sha e)"
  shows "quiet (guard_step sha g e) = sat_add u16_max (quiet g) 1"
proof -
  from assms(2) have "retained (advance_window g) (event_fp sha e)"
    by (metis One_nat_def retained_for_advance retained_for_retained)
  with assms(1) show ?thesis
    by (cases e) (simp_all add: executed_digest_def Let_def quiet_record event_fp_def)
qed

lemma executed_step_retained:
  assumes "guard_inv g" and "is_executed e"
  shows "retained_for WINDOW_ATTEMPTS (guard_step sha g e) (event_fp sha e)"
  using assms by (cases e) (simp_all add: executed_digest_def Let_def event_fp_def
      retained_for_new guard_inv_advance)

text \<open>After \<open>n\<close> executions the outcome of each of the last 256 is still retained.\<close>

lemma run_retained:
  assumes "\<forall>e \<in> set es. is_executed e" and "i < length es" and "length es \<le> i + WINDOW_ATTEMPTS"
  shows "retained_for (i + 1 + WINDOW_ATTEMPTS - length es)
           (guard_run sha LoopGuard_default es) (event_fp sha (es ! i))"
  using assms
proof (induction es rule: rev_induct)
  case Nil
  then show ?case by simp
next
  case (snoc e es)
  let ?g = "guard_run sha LoopGuard_default es"
  have inv: "guard_inv ?g"
    unfolding guard_run_def by (rule lg.run_inv) (rule guard_inv_default)
  have step: "guard_run sha LoopGuard_default (es @ [e]) = guard_step sha ?g e"
    by (simp add: guard_run_def)
  show ?case
  proof (cases "i < length es")
    case True
    with snoc have "retained_for (i + 1 + WINDOW_ATTEMPTS - length es) ?g (event_fp sha (es ! i))"
      by simp
    moreover have "i + 1 + WINDOW_ATTEMPTS - length es
        = Suc (i + 1 + WINDOW_ATTEMPTS - length (es @ [e]))"
      using snoc.prems True by simp
    ultimately show ?thesis
      using True snoc.prems is_executed_attempt
      by (simp only: step nth_append_left) (rule retained_for_step, simp_all)
  next
    case False
    with snoc.prems have "i = length es" by simp
    with snoc.prems inv show ?thesis
      by (simp add: step executed_step_retained)
  qed
qed

lemma periodic_quiet:
  assumes "\<forall>e \<in> set es. is_executed e" and "0 < p" "p \<le> WINDOW_ATTEMPTS"
    and "\<And>i. p \<le> i \<Longrightarrow> i < length es \<Longrightarrow> event_fp sha (es ! i) = event_fp sha (es ! (i - p))"
    and "p \<le> length es"
  shows "min u16_max (length es - p) \<le> quiet (guard_run sha LoopGuard_default es)"
  using assms(1,4,5)
proof (induction es rule: rev_induct)
  case Nil
  then show ?case by simp
next
  case (snoc e es)
  let ?g = "guard_run sha LoopGuard_default es"
  have step: "guard_run sha LoopGuard_default (es @ [e]) = guard_step sha ?g e"
    by (simp add: guard_run_def)
  show ?case
  proof (cases "p \<le> length es")
    case True
    have IH: "min u16_max (length es - p) \<le> quiet ?g"
    proof (rule snoc.IH)
      show "\<forall>e \<in> set es. is_executed e" using snoc.prems(1) by simp
      show "event_fp sha (es ! i) = event_fp sha (es ! (i - p))" if "p \<le> i" "i < length es" for i
        using snoc.prems(2) [OF that(1)] that by (simp add: nth_append less_imp_diff_less)
    qed (rule True)
    have "(es @ [e]) ! (length es - p) = es ! (length es - p)"
      using True assms(2) by (intro nth_append_left) simp
    then have "event_fp sha e = event_fp sha (es ! (length es - p))"
      using snoc.prems(2) [OF True] by (metis length_append_singleton lessI nth_append_length)
    moreover have "retained_for (length es - p + 1 + WINDOW_ATTEMPTS - length es) ?g
        (event_fp sha (es ! (length es - p)))"
      using snoc.prems True assms(2,3) by (intro run_retained) auto
    ultimately have "retained_for 1 ?g (event_fp sha e)"
      using True assms(2,3) by (auto intro: retained_for_mono)
    then have "quiet (guard_step sha ?g e) = sat_add u16_max (quiet ?g) 1"
      using snoc.prems by (intro quiet_executed_step) simp_all
    with IH True show ?thesis
      by (simp add: step sat_add_def)
  next
    case False
    with snoc.prems show ?thesis by simp
  qed
qed

section \<open>Properties\<close>

text \<open>C1 (bounds). Whatever happens in a run, the guard keeps at most two windows of 256
  distinct fingerprints, and its counters stay within their machine widths.\<close>

theorem loop_guard_bounded:
  "retained_triples (guard_run sha LoopGuard_default es) \<le> 2 * WINDOW_ATTEMPTS
   \<and> window_attempts (guard_run sha LoopGuard_default es) \<le> WINDOW_ATTEMPTS
   \<and> quiet_attempts (guard_run sha LoopGuard_default es) \<le> u16_max
   \<and> eligible_attempts (guard_run sha LoopGuard_default es) \<le> u64_max"
proof -
  have "guard_inv (guard_run sha LoopGuard_default es)"
    unfolding guard_run_def by (rule lg.run_inv) (rule guard_inv_default)
  then show ?thesis
    by (simp add: guard_inv_def retained_triples_def quiet_attempts_def eligible_attempts_def)
qed

text \<open>C2 (liveness). A run that repeats a cycle of at most 256 calls with stable outcomes is
  reported as making no progress once 512 calls past the first cycle have run, whatever the
  calls are.\<close>

theorem periodic_loop_detected:
  assumes "\<forall>e \<in> set es. is_executed e" and "0 < p" and "p \<le> WINDOW_ATTEMPTS"
    and "\<forall>i < length es. p \<le> i \<longrightarrow> es ! i = es ! (i - p)"
    and "p + QUIET_LIMIT \<le> length es"
  shows "no_progress (guard_run sha LoopGuard_default es)"
proof -
  have "min u16_max (length es - p) \<le> quiet (guard_run sha LoopGuard_default es)"
    using assms by (intro periodic_quiet) simp_all
  with assms(5) show ?thesis
    by (simp add: no_progress_def QUIET_LIMIT_def u16_max_def)
qed

lemma last_triple_advance [simp]: "last_triple (advance_window g) = last_triple g"
  by (simp add: advance_window_def Let_def)

lemma last_triple_executed:
  "last_triple (guard_step sha g (Executed call result is_error)) =
     Some \<lparr>et_call = call, et_fingerprint = fingerprint sha call result is_error,
       et_is_error = is_error,
       et_repeats = (case last_triple g of
           Some l \<Rightarrow> if et_fingerprint l = fingerprint sha call result is_error
                     then sat_add u16_max (et_repeats l) 1 else 1
         | None \<Rightarrow> 1)\<rparr>"
  by (simp add: executed_digest_def record_execution_def Let_def split: option.split)

lemma repeated_repeats:
  assumes "0 < n" and "last_triple g = None"
  shows "last_triple (guard_run sha g (replicate n (Executed call result is_error))) =
    Some \<lparr>et_call = call, et_fingerprint = fingerprint sha call result is_error,
          et_is_error = is_error, et_repeats = min u16_max n\<rparr>"
  using assms(1)
proof (induction n rule: nat_induct_non_zero)
  case 1
  show ?case using assms(2)
    by (simp add: guard_run_def last_triple_executed u16_max_def del: guard_step.simps)
next
  case (Suc n)
  have "guard_run sha g (replicate (Suc n) (Executed call result is_error)) =
      guard_step sha (guard_run sha g (replicate n (Executed call result is_error)))
        (Executed call result is_error)"
    unfolding guard_run_def replicate_append_same [symmetric] replicate_Suc by simp
  with Suc show ?case
    by (simp only: last_triple_executed) (simp add: sat_add_def)
qed

text \<open>From any point where no outcome is on record, a call that ran \<open>n\<close>
  times in a row with the same outcome is refused exactly when \<open>n\<close> reached two errors or
  four successes, and no other call is refused.\<close>

lemma repeated_outcome_refused:
  assumes "0 < n" and "last_triple g = None"
  shows "reject (guard_run sha g (replicate n (Executed call result is_error))) call'
     \<longleftrightarrow> call' = call \<and> (if is_error then 2 else 4) \<le> n"
  using repeated_repeats [OF assms, of sha call result is_error]
  by (auto simp: reject_def u16_max_def)

lemma repeated_outcome_refused_witness:
  "reject (guard_run (\<lambda>x. x) LoopGuard_default
      (replicate 2 (Executed (CallKey ''k'') ''exit status 1'' True))) (CallKey ''k'')
   \<and> \<not> reject (guard_run (\<lambda>x. x) LoopGuard_default
      (replicate 3 (Executed (CallKey ''k'') ''ok'' False))) (CallKey ''k'')"
  using repeated_outcome_refused [of 2 LoopGuard_default "\<lambda>x. x" "CallKey ''k''" "''exit status 1''"
      True "CallKey ''k''"]
    repeated_outcome_refused [of 3 LoopGuard_default "\<lambda>x. x" "CallKey ''k''" "''ok''"
      False "CallKey ''k''"]
  by (simp add: LoopGuard_default_def)

theorem periodic_loop_detected_witness:
  "no_progress (guard_run (\<lambda>x. x) LoopGuard_default
     (replicate 513 (Executed (CallKey ''k'') ''same'' False)))"
  by (rule periodic_loop_detected [where p = 1])
     (simp_all add: WINDOW_ATTEMPTS_def QUIET_LIMIT_def)

end
