(* ===== verification/Sse.thy ===== *)
theory Sse
  imports Rust_Str
begin

text \<open>
  The server-sent-event decoder of the provider adapters
  (\<^verbatim>\<open>crates/qq-provider/src/sse.rs\<close>). It scans each received chunk for line ends, keeps the
  line a chunk boundary splits in \<open>partial\<close>, and appends each finished event to a vector.

  An operation returns the decoder, the events and the result: the Rust methods mutate both
  in place and may fail after some events were already pushed. A byte-at-a-time decoder is
  the specification, and the chunked one refines it.
\<close>

section \<open>Data\<close>

datatype provider_error = Protocol string

datatype utf8_error_message = Static string | WithSource string

text \<open>
  The \<open>Display\<close> text of \<open>FromUtf8Error\<close>: how many bytes are valid, and the length of the bad
  sequence unless the input just ends too early.
\<close>

function valid_up_to :: "string \<Rightarrow> nat" where
  "valid_up_to s =
     (if s = [] \<or> utf8_len s = 0 then 0
      else utf8_len s + valid_up_to (drop (utf8_len s) s))"
  by pat_completeness auto
termination
  by (relation "measure length") auto

declare valid_up_to.simps [simp del]

definition error_len :: "string \<Rightarrow> nat option" where
  "error_len s =
     (let lead = (case s of [] \<Rightarrow> 0 | a # _ \<Rightarrow> (of_char a :: nat))
      in case s of
           [] \<Rightarrow> None
         | a # r1 \<Rightarrow>
             if lead < 0xC2 \<or> lead > 0xF4 then Some 1
             else case r1 of
               [] \<Rightarrow> None
             | b # r2 \<Rightarrow>
                 if lead \<le> 0xDF \<or> (lead \<le> 0xEF \<and> \<not> lead3 a b) \<or> (lead > 0xEF \<and> \<not> lead4 a b)
                 then Some 1
                 else case r2 of
                   [] \<Rightarrow> None
                 | c # r3 \<Rightarrow>
                     if lead \<le> 0xEF \<or> \<not> cont c then Some 2
                     else case r3 of [] \<Rightarrow> None | d # _ \<Rightarrow> Some 3)"

definition utf8_error_text :: "string \<Rightarrow> string" where
  "utf8_error_text s =
     (let n = valid_up_to s in
      case error_len (drop n s) of
        Some k \<Rightarrow> ''invalid utf-8 sequence of '' @ nat_to_string k @ '' bytes from index ''
                   @ nat_to_string n
      | None \<Rightarrow> ''incomplete utf-8 byte sequence from index '' @ nat_to_string n)"

fun into_provider_error :: "utf8_error_message \<Rightarrow> string \<Rightarrow> provider_error" where
  "into_provider_error (Static message) source = Protocol message"
| "into_provider_error (WithSource message) source =
     Protocol (message @ '': '' @ utf8_error_text source)"

datatype sse_mode = DataOnly | Named utf8_error_message

record sse_event =
  ev_name :: "string option"
  ev_data :: string

record sse_decoder =
  partial :: string
  data_buf :: string
  event_name :: "string option"
  event_bytes :: nat
  max_event_bytes :: nat
  skip_line_feed :: bool
  at_start :: bool
  mode :: sse_mode
  size_overflow :: string
  size_limit :: string
  data_utf8 :: utf8_error_message

type_synonym sse_result = "sse_decoder \<times> sse_event list \<times> (provider_error, unit) result"

definition SseDecoder_new ::
  "nat \<Rightarrow> sse_mode \<Rightarrow> string \<Rightarrow> string \<Rightarrow> utf8_error_message \<Rightarrow> sse_decoder" where
  "SseDecoder_new max_bytes m overflow limit dutf8 =
     \<lparr>partial = [], data_buf = [], event_name = None, event_bytes = 0,
      max_event_bytes = max_bytes, skip_line_feed = False, at_start = True, mode = m,
      size_overflow = overflow, size_limit = limit, data_utf8 = dutf8\<rparr>"

definition SseDecoder_data_only ::
  "nat \<Rightarrow> string \<Rightarrow> string \<Rightarrow> utf8_error_message \<Rightarrow> sse_decoder" where
  "SseDecoder_data_only max_bytes overflow limit dutf8 =
     SseDecoder_new max_bytes DataOnly overflow limit dutf8"

definition SseDecoder_named ::
  "nat \<Rightarrow> string \<Rightarrow> string \<Rightarrow> utf8_error_message \<Rightarrow> utf8_error_message \<Rightarrow> sse_decoder" where
  "SseDecoder_named max_bytes overflow limit dutf8 nutf8 =
     SseDecoder_new max_bytes (Named nutf8) overflow limit dutf8"

section \<open>Operations\<close>


abbreviation line_end :: "char \<Rightarrow> bool" where "line_end b \<equiv> b = LF \<or> b = CR"

definition BOM :: string where "BOM = [CHR 0xEF, CHR 0xBB, CHR 0xBF]"

text \<open>\<open>usize\<close> is 64 bits wide.\<close>

definition count_bytes ::
  "sse_decoder \<Rightarrow> nat \<Rightarrow> sse_decoder \<times> (provider_error, unit) result" where
  "count_bytes d n =
     (case checked_add u64_max (event_bytes d) n of
        None \<Rightarrow> (d, Err (Protocol (size_overflow d)))
      | Some bytes \<Rightarrow>
          let d' = d\<lparr>event_bytes := bytes\<rparr>
          in if bytes > max_event_bytes d' then (d', Err (Protocol (size_limit d')))
             else (d', Ok ()))"

text \<open>The field name and value of a line that is neither empty nor a comment.\<close>

definition split_field :: "string \<Rightarrow> string \<times> string" where
  "split_field l =
     (case position (\<lambda>b. b = CHR '':'') l of
        Some colon \<Rightarrow>
          let value = drop (colon + 1) l
          in (take colon l, case strip_prefix value '' '' of Some v \<Rightarrow> v | None \<Rightarrow> value)
      | None \<Rightarrow> (l, []))"

definition sse_line :: "sse_decoder \<Rightarrow> string \<Rightarrow> sse_event list \<Rightarrow> sse_result" where
  "sse_line d l events =
     (if l = [] then
        let name = event_name d;
            d1 = d\<lparr>event_bytes := 0, event_name := None\<rparr>
        in if data_buf d1 = [] then (d1, events, Ok ())
           else let bytes = butlast (data_buf d1);
                    d2 = d1\<lparr>data_buf := []\<rparr>
                in if utf8_valid bytes
                   then (d2, events @ [\<lparr>ev_name = name, ev_data = bytes\<rparr>], Ok ())
                   else (d2, events, Err (into_provider_error (data_utf8 d2) bytes))
      else if hd l = CHR '':'' then (d, events, Ok ())
      else let (field, value) = split_field l
           in if field = ''event'' then
                (case mode d of
                   Named error_message \<Rightarrow>
                     if utf8_valid value
                     then (d\<lparr>event_name := Some value\<rparr>, events, Ok ())
                     else (d, events, Err (into_provider_error error_message value))
                 | DataOnly \<Rightarrow> (d, events, Ok ()))
              else if field = ''data'' then
                (d\<lparr>data_buf := data_buf d @ value @ [LF]\<rparr>, events, Ok ())
              else (d, events, Ok ()))"

text \<open>The end of a line: its beginning may be in \<open>partial\<close>, left there by earlier chunks.\<close>

definition finish_line :: "sse_decoder \<Rightarrow> string \<Rightarrow> sse_event list \<Rightarrow> sse_result" where
  "finish_line d line_tail events =
     (if partial d = [] then sse_line d line_tail events
      else let (d3, ev, r) = sse_line (d\<lparr>partial := []\<rparr>) (partial d @ line_tail) events
           in (d3\<lparr>partial := []\<rparr>, ev, r))"

text \<open>The \<open>while !bytes.is_empty()\<close> loop of \<open>push_into\<close>.\<close>

function scan :: "sse_decoder \<Rightarrow> string \<Rightarrow> sse_event list \<Rightarrow> sse_result" where
  "scan d bytes events =
     (if bytes = [] then (d, events, Ok ())
      else case position line_end bytes of
        None \<Rightarrow>
          (case count_bytes d (length bytes) of
             (d1, Inl e) \<Rightarrow> (d1, events, Err e)
           | (d1, Inr _) \<Rightarrow> (d1\<lparr>partial := partial d1 @ bytes\<rparr>, events, Ok ()))
      | Some fin \<Rightarrow>
          (case count_bytes d fin of
             (d1, Inl e) \<Rightarrow> (d1, events, Err e)
           | (d1, Inr _) \<Rightarrow>
               let line_tail = take fin bytes;
                   rest0 = drop (fin + 1) bytes;
                   cr = (bytes ! fin = CR);
                   rest = (if cr \<and> rest0 \<noteq> [] \<and> hd rest0 = LF then tl rest0 else rest0);
                   d2 = (if cr \<and> rest0 = [] then d1\<lparr>skip_line_feed := True\<rparr> else d1)
               in case finish_line d2 line_tail events of
                    (d4, ev, Inl e) \<Rightarrow> (d4, ev, Err e)
                  | (d4, ev, Inr _) \<Rightarrow> scan d4 rest ev))"
  by pat_completeness auto
termination
  by (relation "measure (\<lambda>(d, bytes, events). length bytes)") auto

declare scan.simps [simp del]

text \<open>\<open>push_into\<close> once the start of the stream is behind.\<close>

definition push_body :: "sse_decoder \<Rightarrow> string \<Rightarrow> sse_event list \<Rightarrow> sse_result" where
  "push_body d bytes events =
     (if skip_line_feed d
      then scan (d\<lparr>skip_line_feed := False\<rparr>)
             (case bytes of c # rest \<Rightarrow> if c = LF then rest else bytes | [] \<Rightarrow> []) events
      else scan d bytes events)"

definition push_into :: "sse_decoder \<Rightarrow> string \<Rightarrow> sse_event list \<Rightarrow> sse_result" where
  "push_into d bytes events =
     (if at_start d then
        let take_n = min (3 - length (partial d)) (length bytes);
            held = partial d @ take take_n bytes;
            rest = drop take_n bytes;
            d1 = d\<lparr>partial := held\<rparr>
        in if starts_with BOM held then
             if length held < 3 then (d1, events, Ok ())
             else push_body (d1\<lparr>partial := [], at_start := False\<rparr>) rest events
           else (case push_body (d1\<lparr>at_start := False, partial := []\<rparr>) held events of
                   (d2, ev, Inl e) \<Rightarrow> (d2, ev, Err e)
                 | (d2, ev, Inr _) \<Rightarrow> push_body d2 rest ev)
      else push_body d bytes events)"

text \<open>The stream loop (\<^verbatim>\<open>exchange.rs\<close>) pushes chunk after chunk and stops at the first error.\<close>

fun push_all :: "sse_decoder \<Rightarrow> string list \<Rightarrow> sse_event list \<Rightarrow> sse_result" where
  "push_all d [] events = (d, events, Ok ())"
| "push_all d (c # cs) events =
     (case push_into d c events of
        (d1, ev, Inl e) \<Rightarrow> (d1, ev, Err e)
      | (d1, ev, Inr _) \<Rightarrow> push_all d1 cs ev)"

section \<open>Specification: one byte at a time\<close>

definition byte_step :: "sse_decoder \<Rightarrow> char \<Rightarrow> sse_event list \<Rightarrow> sse_result" where
  "byte_step d c events =
     (if skip_line_feed d \<and> c = LF then (d\<lparr>skip_line_feed := False\<rparr>, events, Ok ())
      else let d0 = d\<lparr>skip_line_feed := False\<rparr> in
        if line_end c then
          let (d1, ev, r) = sse_line (d0\<lparr>partial := []\<rparr>) (partial d0) events
          in (d1\<lparr>skip_line_feed := (c = CR)\<rparr>, ev, r)
        else (case count_bytes d0 1 of
                (d1, Inl e) \<Rightarrow> (d1, events, Err e)
              | (d1, Inr _) \<Rightarrow> (d1\<lparr>partial := partial d1 @ [c]\<rparr>, events, Ok ())))"

fun byte_run :: "sse_decoder \<Rightarrow> string \<Rightarrow> sse_event list \<Rightarrow> sse_result" where
  "byte_run d [] events = (d, events, Ok ())"
| "byte_run d (c # cs) events =
     (case byte_step d c events of
        (d1, ev, Inl e) \<Rightarrow> (d1, ev, Err e)
      | (d1, ev, Inr _) \<Rightarrow> byte_run d1 cs ev)"

text \<open>
  Two runs agree when they have the same events and the same result, and the same decoder
  unless they failed (after an error the stream is over).
\<close>

definition sse_sim :: "sse_result \<Rightarrow> sse_result \<Rightarrow> bool" where
  "sse_sim x y \<longleftrightarrow> snd x = snd y \<and> (snd (snd x) = Ok () \<longrightarrow> fst x = fst y)"

lemma sse_sim_refl [simp]: "sse_sim x x"
  by (simp add: sse_sim_def)

lemma sse_sim_trans: "sse_sim x y \<Longrightarrow> sse_sim y z \<Longrightarrow> sse_sim x z"
  by (simp add: sse_sim_def)

lemma sse_sim_sym: "sse_sim x y \<Longrightarrow> sse_sim y x"
  by (simp add: sse_sim_def)

text \<open>\<open>fits d n\<close>: the event so far is within its limit, and \<open>n\<close> more bytes cannot overflow.\<close>

definition fits :: "sse_decoder \<Rightarrow> nat \<Rightarrow> bool" where
  "fits d n \<longleftrightarrow> event_bytes d \<le> max_event_bytes d \<and> max_event_bytes d + n \<le> u64_max"

lemma fits_mono: "fits d n \<Longrightarrow> m \<le> n \<Longrightarrow> fits d m"
  by (simp add: fits_def)

lemma count_bytes_fits:
  assumes "fits d n"
  shows "count_bytes d n =
    (d\<lparr>event_bytes := event_bytes d + n\<rparr>,
     if event_bytes d + n \<le> max_event_bytes d then Ok () else Err (Protocol (size_limit d)))"
  using assms by (simp add: fits_def count_bytes_def checked_add_def)

lemma byte_run_append:
  "byte_run d (xs @ ys) ev =
     (case byte_run d xs ev of
        (d1, ev1, Inl e) \<Rightarrow> (d1, ev1, Err e)
      | (d1, ev1, Inr _) \<Rightarrow> byte_run d1 ys ev1)"
  by (induction xs arbitrary: d ev) (auto split: prod.splits sum.splits)

section \<open>A line does not look at the framing state\<close>

lemmas sse_line_splits = prod.splits sum.splits sse_mode.splits if_splits

lemma sse_line_frame:
  "sse_line (d\<lparr>partial := p, skip_line_feed := b\<rparr>) l ev =
     (let (d', ev', r) = sse_line d l ev
      in (d'\<lparr>partial := p, skip_line_feed := b\<rparr>, ev', r))"
  by (simp add: sse_line_def Let_def split: prod.splits sse_mode.splits)

lemma sse_line_partial:
  "sse_line (d\<lparr>partial := p\<rparr>) l ev =
     (let (d', ev', r) = sse_line d l ev in (d'\<lparr>partial := p\<rparr>, ev', r))"
  by (simp add: sse_line_def Let_def split: prod.splits sse_mode.splits)

lemma sse_line_skip:
  "sse_line (d\<lparr>skip_line_feed := b\<rparr>) l ev =
     (let (d', ev', r) = sse_line d l ev in (d'\<lparr>skip_line_feed := b\<rparr>, ev', r))"
  by (simp add: sse_line_def Let_def split: prod.splits sse_mode.splits)

lemma sse_line_keeps:
  assumes "sse_line d l ev = (d', ev', r)"
  shows "partial d' = partial d" "skip_line_feed d' = skip_line_feed d"
    "max_event_bytes d' = max_event_bytes d" "event_bytes d' \<le> event_bytes d"
    "at_start d' = at_start d" "size_limit d' = size_limit d"
  using assms by (auto simp: sse_line_def Let_def split: sse_line_splits)

lemma sse_line_bound:
  "sse_line d l ev = (d', ev', r) \<Longrightarrow> event_bytes d \<le> max_event_bytes d \<Longrightarrow>
     event_bytes d' \<le> max_event_bytes d'"
  using sse_line_keeps(3,4) by (metis le_trans)

section \<open>Refinement: a chunk is its bytes\<close>

lemma byte_run_segment_ok:
  assumes "\<forall>c \<in> set seg. \<not> line_end c" and "fits d (length seg)" and "\<not> skip_line_feed d"
    and "event_bytes d + length seg \<le> max_event_bytes d"
  shows "byte_run d seg ev =
    (d\<lparr>event_bytes := event_bytes d + length seg, partial := partial d @ seg\<rparr>, ev, Ok ())"
  using assms
proof (induction seg arbitrary: d)
  case Nil
  then show ?case by simp
next
  case (Cons c seg)
  let ?d = "d\<lparr>event_bytes := event_bytes d + 1, partial := partial d @ [c]\<rparr>"
  have same: "d\<lparr>skip_line_feed := False\<rparr> = d" using Cons.prems(3) by simp
  have "byte_step d c ev = (?d, ev, Ok ())"
    using Cons.prems count_bytes_fits [OF fits_mono, of d "length (c # seg)" 1]
    by (simp add: byte_step_def same)
  moreover have "byte_run ?d seg ev =
      (?d\<lparr>event_bytes := event_bytes ?d + length seg, partial := partial ?d @ seg\<rparr>, ev, Ok ())"
    using Cons.prems by (intro Cons.IH) (auto simp: fits_def)
  ultimately show ?case by simp
qed

lemma byte_run_segment_err:
  assumes "\<forall>c \<in> set seg. \<not> line_end c" and "fits d (length seg)" and "\<not> skip_line_feed d"
    and "max_event_bytes d < event_bytes d + length seg"
  shows "snd (byte_run d (seg @ rest) ev) = (ev, Err (Protocol (size_limit d)))"
  using assms
proof (induction seg arbitrary: d)
  case Nil
  then show ?case by (simp add: fits_def)
next
  case (Cons c seg)
  let ?d = "d\<lparr>event_bytes := event_bytes d + 1, partial := partial d @ [c]\<rparr>"
  have same: "d\<lparr>skip_line_feed := False\<rparr> = d" using Cons.prems(3) by simp
  note count = count_bytes_fits [OF fits_mono, OF Cons.prems(2), of 1]
  show ?case
  proof (cases "event_bytes d + 1 \<le> max_event_bytes d")
    case True
    then have "byte_step d c ev = (?d, ev, Ok ())"
      using Cons.prems(1) count by (simp add: byte_step_def same)
    moreover have "snd (byte_run ?d (seg @ rest) ev) = (ev, Err (Protocol (size_limit ?d)))"
      using Cons.prems True by (intro Cons.IH) (auto simp: fits_def)
    ultimately show ?thesis by simp
  next
    case False
    then have "snd (byte_step d c ev) = (ev, Err (Protocol (size_limit d)))"
      using Cons.prems(1) count by (simp add: byte_step_def same)
    then show ?thesis by (auto split: prod.splits sum.splits)
  qed
qed

text \<open>The state after the skip flag is consumed by a byte that is no line feed.\<close>

lemma byte_run_skip_clear:
  assumes "bytes \<noteq> []" and "hd bytes \<noteq> LF"
  shows "byte_run (d\<lparr>skip_line_feed := True\<rparr>) bytes ev = byte_run (d\<lparr>skip_line_feed := False\<rparr>) bytes ev"
  using assms by (cases bytes) (simp_all add: byte_step_def Let_def)

text \<open>One line of a chunk: what the loop does up to its terminator.\<close>

definition line_rest :: "char \<Rightarrow> string \<Rightarrow> string" where
  "line_rest t rest0 = (if t = CR \<and> rest0 \<noteq> [] \<and> hd rest0 = LF then tl rest0 else rest0)"

lemma skip_partial_commute:
  "d\<lparr>skip_line_feed := b, partial := p\<rparr> = d\<lparr>partial := p, skip_line_feed := b\<rparr>"
  by (cases d) simp

lemma start_partial_commute:
  "d\<lparr>at_start := b, partial := p\<rparr> = d\<lparr>partial := p, at_start := b\<rparr>"
  by (cases d) simp

lemma finish_line_eq:
  "finish_line d tail ev = sse_line (d\<lparr>partial := []\<rparr>) (partial d @ tail) ev"
proof (cases "partial d = []")
  case True
  then have same: "d\<lparr>partial := []\<rparr> = d" by simp
  show ?thesis unfolding finish_line_def same using True by simp
next
  case False
  obtain d3 ev3 r where l: "sse_line (d\<lparr>partial := []\<rparr>) (partial d @ tail) ev = (d3, ev3, r)"
    by (metis prod_cases3)
  then have "d3\<lparr>partial := []\<rparr> = d3" using sse_line_keeps(1) [OF l] by simp
  with False l show ?thesis by (simp add: finish_line_def)
qed

lemma finish_line_skip:
  "finish_line (d\<lparr>skip_line_feed := b\<rparr>) tail ev =
     (let (d', ev', r) = finish_line d tail ev in (d'\<lparr>skip_line_feed := b\<rparr>, ev', r))"
  by (simp add: finish_line_eq skip_partial_commute sse_line_skip)

lemma scan_line:
  assumes seg: "\<forall>c \<in> set seg. \<not> line_end c" and t: "line_end t"
    and fit: "fits d (length seg)" and ok: "event_bytes d + length seg \<le> max_event_bytes d"
    and line: "sse_line (d\<lparr>event_bytes := event_bytes d + length seg, partial := []\<rparr>)
                 (partial d @ seg) ev = (d4, ev4, r)"
  shows "scan d (seg @ t # rest0) ev =
    (let d5 = (if t = CR \<and> rest0 = [] then d4\<lparr>skip_line_feed := True\<rparr> else d4)
     in case r of Inl e \<Rightarrow> (d5, ev4, Err e) | Inr _ \<Rightarrow> scan d5 (line_rest t rest0) ev4)"
proof -
  let ?d1 = "d\<lparr>event_bytes := event_bytes d + length seg\<rparr>"
  have pos: "position line_end (seg @ t # rest0) = Some (length seg)"
    using seg t by (simp add: position_append position_None_iff [THEN iffD2])
  have cnt: "count_bytes d (length seg) = (?d1, Ok ())"
    using count_bytes_fits [OF fit] ok by simp
  have fl: "finish_line ?d1 seg ev = (d4, ev4, r)"
    using line by (simp add: finish_line_eq)
  have "scan d (seg @ t # rest0) ev =
      (case finish_line (if t = CR \<and> rest0 = [] then ?d1\<lparr>skip_line_feed := True\<rparr> else ?d1) seg ev of
         (d4, ev, Inl e) \<Rightarrow> (d4, ev, Err e)
       | (d4, ev, Inr _) \<Rightarrow> scan d4 (line_rest t rest0) ev)"
    by (subst scan.simps) (simp add: pos cnt line_rest_def Let_def split del: if_split)
  moreover have "finish_line (if t = CR \<and> rest0 = [] then ?d1\<lparr>skip_line_feed := True\<rparr> else ?d1) seg ev
      = (if t = CR \<and> rest0 = [] then d4\<lparr>skip_line_feed := True\<rparr> else d4, ev4, r)"
    using fl finish_line_skip [where d = ?d1 and b = True] by auto
  ultimately show ?thesis
    by (cases r) simp_all
qed

lemma scan_over_limit:
  assumes "\<forall>c \<in> set seg. \<not> line_end c" and "seg @ rest \<noteq> []"
    and "rest = [] \<or> line_end (hd rest)"
    and "fits d (length seg)" and "max_event_bytes d < event_bytes d + length seg"
  shows "snd (scan d (seg @ rest) ev) = (ev, Err (Protocol (size_limit d)))"
proof -
  have "count_bytes d (length seg) =
      (d\<lparr>event_bytes := event_bytes d + length seg\<rparr>, Err (Protocol (size_limit d)))"
    using count_bytes_fits [OF assms(4)] assms(5) by simp
  moreover have "position line_end (seg @ rest) = (if rest = [] then None else Some (length seg))"
    using assms(1,3) by (cases rest) (auto simp: position_append position_None_iff [THEN iffD2])
  ultimately show ?thesis
    using assms(2) by (subst scan.simps) simp
qed

lemma first_line_split:
  obtains seg rest where "bytes = seg @ rest" and "\<forall>c \<in> set seg. \<not> line_end c"
    and "rest = [] \<or> line_end (hd rest)"
proof
  show "bytes = takeWhile (\<lambda>c. \<not> line_end c) bytes @ dropWhile (\<lambda>c. \<not> line_end c) bytes"
    by simp
  show "\<forall>c \<in> set (takeWhile (\<lambda>c. \<not> line_end c) bytes). \<not> line_end c"
    using set_takeWhileD by fast
  show "dropWhile (\<lambda>c. \<not> line_end c) bytes = [] \<or> line_end (hd (dropWhile (\<lambda>c. \<not> line_end c) bytes))"
    using hd_dropWhile [of "\<lambda>c. \<not> line_end c" bytes] by blast
qed

lemma scan_refines:
  assumes "fits d (length bytes)" and "\<not> skip_line_feed d"
  shows "sse_sim (scan d bytes ev) (byte_run d bytes ev)"
  using assms
proof (induction "length bytes" arbitrary: d bytes ev rule: less_induct)
  case less
  obtain seg rest where b: "bytes = seg @ rest" and seg: "\<forall>c \<in> set seg. \<not> line_end c"
    and rest: "rest = [] \<or> line_end (hd rest)"
    by (rule first_line_split)
  have fit: "fits d (length seg)"
    using less.prems(1) b by (auto intro: fits_mono)
  let ?d1 = "d\<lparr>event_bytes := event_bytes d + length seg, partial := partial d @ seg\<rparr>"
  consider (empty) "bytes = []"
    | (over) "bytes \<noteq> []" "max_event_bytes d < event_bytes d + length seg"
    | (tail) "bytes \<noteq> []" "event_bytes d + length seg \<le> max_event_bytes d" "rest = []"
    | (line) t rest0 where "event_bytes d + length seg \<le> max_event_bytes d" "rest = t # rest0"
    by (cases rest; cases "event_bytes d + length seg \<le> max_event_bytes d") (use b in auto)
  then show ?case
  proof cases
    case empty
    then show ?thesis by (simp add: scan.simps)
  next
    case over
    then show ?thesis
      using scan_over_limit [OF seg _ rest fit] byte_run_segment_err [OF seg fit less.prems(2)] b
      by (simp add: sse_sim_def)
  next
    case tail
    then show ?thesis
      using byte_run_segment_ok [OF seg fit less.prems(2)] count_bytes_fits [OF fit] seg b
      by (subst scan.simps) (simp add: position_None_iff [THEN iffD2])
  next
    case line
    then have t: "line_end t" using rest by simp
    obtain d4 ev4 r where l: "sse_line (d\<lparr>event_bytes := event_bytes d + length seg, partial := []\<rparr>)
        (partial d @ seg) ev = (d4, ev4, r)"
      by (metis prod_cases3)
    note keep = sse_line_keeps [OF l]
    have d4: "\<not> skip_line_feed d4" "fits d4 (length rest0)"
      using keep less.prems b line by (auto simp: fits_def)
    note sc = scan_line [OF seg t fit line(1) l, of rest0]
    have by0: "byte_run d bytes ev = byte_run ?d1 (t # rest0) ev"
      using byte_run_segment_ok [OF seg fit less.prems(2) line(1), of ev]
      by (simp add: b line(2) byte_run_append)
    have st: "byte_step ?d1 t ev = (d4\<lparr>skip_line_feed := (t = CR)\<rparr>, ev4, r)"
    proof -
      have same1: "?d1\<lparr>skip_line_feed := False\<rparr> = ?d1"
        using less.prems(2) by simp
      from t less.prems(2) l show ?thesis
        unfolding byte_step_def same1 Let_def by simp
    qed
    show ?thesis
    proof (cases r)
      case (Inl e)
      then have "snd (scan d bytes ev) = (ev4, Err e)"
        by (simp add: sc b line(2) Let_def)
      moreover have "snd (byte_run d bytes ev) = (ev4, Err e)"
        using Inl by (simp add: by0 st)
      ultimately show ?thesis by (simp add: sse_sim_def)
    next
      case (Inr u)
      let ?d5 = "if t = CR \<and> rest0 = [] then d4\<lparr>skip_line_feed := True\<rparr> else d4"
      have s1: "scan d bytes ev = scan ?d5 (line_rest t rest0) ev4"
        by (simp add: sc b line(2) Inr Let_def)
      have s2: "byte_run d bytes ev = byte_run (d4\<lparr>skip_line_feed := (t = CR)\<rparr>) rest0 ev4"
        by (simp add: by0 st Inr)
      have IH: "sse_sim (scan d4 x ev4) (byte_run d4 x ev4)" if "length x \<le> length rest0" for x
        using d4 that b line(2) by (intro less.hyps) (auto intro: fits_mono)
      have same: "d4\<lparr>skip_line_feed := False\<rparr> = d4" using d4(1) by simp
      show ?thesis
      proof (cases "t = CR \<and> rest0 \<noteq> []")
        case False
        with same IH [of rest0] t show ?thesis
          by (auto simp: s1 s2 line_rest_def scan.simps [of _ "[]"])
      next
        case True
        show ?thesis
        proof (cases "hd rest0 = LF")
          case True
          with \<open>t = CR \<and> rest0 \<noteq> []\<close> obtain x where "rest0 = LF # x"
            by (cases rest0) auto
          with \<open>t = CR \<and> rest0 \<noteq> []\<close> same IH [of x] show ?thesis
            by (simp add: s1 s2 line_rest_def byte_step_def)
        next
          case False
          with True same IH [of rest0] byte_run_skip_clear [of rest0 d4 ev4] show ?thesis
            by (simp add: s1 s2 line_rest_def)
        qed
      qed
    qed
  qed
qed

lemma push_body_refines:
  assumes "fits d (length bytes)" and "bytes \<noteq> []"
  shows "sse_sim (push_body d bytes ev) (byte_run d bytes ev)"
proof (cases "skip_line_feed d")
  case False
  then show ?thesis using scan_refines [OF assms(1)] by (simp add: push_body_def)
next
  case True
  then have d: "d = d\<lparr>skip_line_feed := True\<rparr>" by simp
  obtain c cs where b: "bytes = c # cs" using assms(2) by (cases bytes) auto
  let ?d = "d\<lparr>skip_line_feed := False\<rparr>"
  have fit: "fits ?d (length bytes)" using assms(1) by (simp add: fits_def)
  show ?thesis
  proof (cases "c = LF")
    case True
    with \<open>skip_line_feed d\<close> b show ?thesis
      using scan_refines [of ?d cs ev] fit
      by (simp add: push_body_def byte_step_def fits_def)
  next
    case False
    then have "byte_run d bytes ev = byte_run ?d bytes ev"
      using byte_run_skip_clear [of bytes d ev] b d by simp
    with False \<open>skip_line_feed d\<close> b show ?thesis
      using scan_refines [OF fit, of ev] by (simp add: push_body_def)
  qed
qed

section \<open>Streams of chunks\<close>

lemma byte_step_keeps:
  assumes "byte_step d c ev = (d', ev', r)"
  shows "at_start d' = at_start d" "max_event_bytes d' = max_event_bytes d"
    "r = Ok () \<Longrightarrow> event_bytes d \<le> max_event_bytes d \<Longrightarrow> event_bytes d' \<le> max_event_bytes d'"
  using assms
  by (auto simp: byte_step_def count_bytes_def checked_add_def Let_def
      split: if_splits prod.splits dest: sse_line_keeps sse_line_bound)

lemma byte_run_keeps:
  assumes "byte_run d bs ev = (d', ev', Ok ())"
  shows "at_start d' = at_start d" "max_event_bytes d' = max_event_bytes d"
    "event_bytes d \<le> max_event_bytes d \<Longrightarrow> event_bytes d' \<le> max_event_bytes d'"
  using assms
proof (induction bs arbitrary: d ev)
  case (Cons c bs)
  {
    case 1 then show ?case
      using Cons.IH(1) byte_step_keeps(1) by (fastforce split: prod.splits sum.splits)
  next
    case 2 then show ?case
      using Cons.IH(2) byte_step_keeps(2) by (fastforce split: prod.splits sum.splits)
  next
    case 3
    then obtain d1 ev1 where st: "byte_step d c ev = (d1, ev1, Ok ())"
      and run: "byte_run d1 bs ev1 = (d', ev', Ok ())"
      by (auto split: prod.splits sum.splits)
    from 3 byte_step_keeps(3) [OF st] have "event_bytes d1 \<le> max_event_bytes d1" by simp
    then show ?case using Cons.IH(3) run by blast
  }
qed simp_all

text \<open>The byte-wise decoder as an incremental consumer: an error absorbs the rest.\<close>

fun feed_bytes :: "sse_result \<Rightarrow> string \<Rightarrow> sse_result" where
  "feed_bytes (d, ev, Inl e) bs = (d, ev, Err e)"
| "feed_bytes (d, ev, Inr u) bs = byte_run d bs ev"

interpretation bytewise: incremental feed_bytes
proof
  show "feed_bytes s [] = s" for s
    by (cases s; cases "snd (snd s)") auto
  show "feed_bytes s (xs @ ys) = feed_bytes (feed_bytes s xs) ys" for s xs ys
    by (cases s; cases "snd (snd s)") (auto simp: byte_run_append split: prod.splits sum.splits)
qed

lemma sse_sim_cases:
  assumes "sse_sim x y"
  obtains (err) d d' ev e where "x = (d, ev, Err e)" "y = (d', ev, Err e)"
    | (ok) d ev where "x = (d, ev, Ok ())" "y = (d, ev, Ok ())"
  using assms by (cases x; cases y; cases "snd (snd x)") (auto simp: sse_sim_def)

lemma push_all_refines:
  assumes "\<not> at_start d" and "\<forall>c \<in> set cs. c \<noteq> []" and "fits d (length (concat cs))"
  shows "sse_sim (push_all d cs ev) (byte_run d (concat cs) ev)"
  using assms
proof (induction cs arbitrary: d ev)
  case (Cons c cs)
  have "sse_sim (push_into d c ev) (byte_run d c ev)"
    using Cons.prems push_body_refines [of d c ev]
    by (auto simp: push_into_def fits_def)
  then show ?case
  proof (cases rule: sse_sim_cases)
    case (err d1 d2 ev1 e)
    then show ?thesis by (simp add: byte_run_append sse_sim_def)
  next
    case (ok d1 ev1)
    have "\<not> at_start d1" "fits d1 (length (concat cs))"
      using Cons.prems byte_run_keeps [OF ok(2)] by (auto simp: fits_def)
    with Cons.IH Cons.prems ok show ?thesis
      by (simp add: byte_run_append)
  qed
qed simp

definition strip_bom :: "string \<Rightarrow> string" where
  "strip_bom s = (if starts_with s BOM then drop 3 s else s)"

text \<open>A decoder that has seen nothing yet.\<close>

definition fresh :: "sse_decoder \<Rightarrow> bool" where
  "fresh d \<longleftrightarrow> at_start d \<and> partial d = [] \<and> event_bytes d \<le> max_event_bytes d"

lemma push_into_start:
  assumes "fresh d" and "4 \<le> length c" and "fits d (length c)"
  shows "sse_sim (push_into d c ev) (byte_run (d\<lparr>at_start := False\<rparr>) (strip_bom c) ev)"
proof -
  let ?d = "d\<lparr>at_start := False, partial := []\<rparr>"
  have d: "?d = d\<lparr>at_start := False\<rparr>" using assms(1) by (simp add: fresh_def)
  have len: "length (take 3 c) = 3" using assms(2) by simp
  have bom: "starts_with BOM (take 3 c) \<longleftrightarrow> starts_with c BOM"
    using len by (auto simp: starts_with_def BOM_def numeral_3_eq_3)
  show ?thesis
  proof (cases "starts_with c BOM")
    case True
    then have "push_into d c ev = push_body ?d (drop 3 c) ev"
      using assms bom by (simp add: push_into_def fresh_def start_partial_commute)
    moreover have "sse_sim (push_body ?d (drop 3 c) ev) (byte_run ?d (drop 3 c) ev)"
      using assms by (intro push_body_refines) (auto simp: fits_def)
    ultimately show ?thesis using True d by (simp add: strip_bom_def)
  next
    case False
    then have p: "push_into d c ev =
        (case push_body ?d (take 3 c) ev of
           (d2, ev, Inl e) \<Rightarrow> (d2, ev, Err e)
         | (d2, ev, Inr _) \<Rightarrow> push_body d2 (drop 3 c) ev)"
      using assms bom by (simp add: push_into_def fresh_def)
    have q: "byte_run ?d c ev = feed_bytes (byte_run ?d (take 3 c) ev) (drop 3 c)"
      using bytewise.feed_append [of "(?d, ev, Ok ())" "take 3 c" "drop 3 c"] by simp
    have "sse_sim (push_body ?d (take 3 c) ev) (byte_run ?d (take 3 c) ev)"
      using assms by (intro push_body_refines) (auto simp: fits_def)
    then have "sse_sim (push_into d c ev) (byte_run ?d c ev)"
    proof (cases rule: sse_sim_cases)
      case (err d1 d2 ev1 e)
      then show ?thesis by (simp add: p q sse_sim_def)
    next
      case (ok d1 ev1)
      have "fits d1 (length (drop 3 c))"
        using assms byte_run_keeps [OF ok(2)] by (auto simp: fits_def)
      with ok assms(2) show ?thesis
        using push_body_refines [of d1 "drop 3 c" ev1] by (simp add: p q)
    qed
    with False d show ?thesis by (simp add: strip_bom_def)
  qed
qed

lemma push_all_start:
  assumes "fresh d" and "4 \<le> length c" and "\<forall>x \<in> set cs. x \<noteq> []"
    and "fits d (length (concat (c # cs)))"
  shows "sse_sim (push_all d (c # cs) ev)
           (byte_run (d\<lparr>at_start := False\<rparr>) (strip_bom (concat (c # cs))) ev)"
proof -
  have bom: "strip_bom (concat (c # cs)) = strip_bom c @ concat cs"
    using assms(2) by (auto simp: strip_bom_def starts_with_def BOM_def numeral_3_eq_3)
  have "sse_sim (push_into d c ev) (byte_run (d\<lparr>at_start := False\<rparr>) (strip_bom c) ev)"
    using assms by (intro push_into_start) (auto intro: fits_mono)
  then show ?thesis
  proof (cases rule: sse_sim_cases)
    case (err d1 d2 ev1 e)
    then show ?thesis by (simp only: bom byte_run_append) (simp add: sse_sim_def)
  next
    case (ok d1 ev1)
    have "\<not> at_start d1" "fits d1 (length (concat cs))"
      using assms byte_run_keeps [OF ok(2)] by (auto simp: fits_def)
    with assms(3) ok show ?thesis
      using push_all_refines [of d1 cs ev1] by (simp only: bom byte_run_append) simp
  qed
qed

section \<open>Bounded memory\<close>

text \<open>What an unfinished event may hold is counted, so the limit bounds the buffers.\<close>

definition sse_inv :: "sse_decoder \<Rightarrow> bool" where
  "sse_inv d \<longleftrightarrow>
     length (partial d) + length (data_buf d) \<le> event_bytes d
     \<and> event_bytes d \<le> max_event_bytes d"

lemma split_field_length:
  assumes "split_field l = (field, val)"
  shows "length field + length val \<le> length l"
proof (cases "position (\<lambda>b. b = CHR '':'') l")
  case None
  with assms show ?thesis by (auto simp: split_field_def)
next
  case (Some i)
  have len: "length v \<le> length s" if "strip_prefix s p = Some v" for s p v :: string
    using that by (simp add: strip_prefix_Some_iff)
  have "i < length l" using Some by (simp add: position_Some_iff)
  moreover have "field = take i l" and "length val \<le> length (drop (i + 1) l)"
    using Some assms len [of "drop (Suc i) l" "'' ''" val]
    by (auto simp: split_field_def Let_def split: option.splits)
  ultimately show ?thesis by simp
qed

lemma sse_line_inv:
  assumes "sse_line d l ev = (d', ev', r)"
    and "length l + length (data_buf d) \<le> event_bytes d"
  shows "length (data_buf d') \<le> event_bytes d'"
proof -
  obtain field val where fv: "split_field l = (field, val)" by (cases "split_field l")
  show ?thesis
    using assms split_field_length [OF fv] fv
    by (auto simp: sse_line_def Let_def split: if_splits sse_mode.splits)
qed

lemma byte_step_sse_inv:
  assumes "byte_step d c ev = (d', ev', Ok ())" and "sse_inv d"
  shows "sse_inv d'"
proof -
  let ?d0 = "d\<lparr>skip_line_feed := False\<rparr>"
  consider (skip) "skip_line_feed d \<and> c = LF"
    | (line) "\<not> (skip_line_feed d \<and> c = LF)" "line_end c"
    | (byte) "\<not> (skip_line_feed d \<and> c = LF)" "\<not> line_end c" by blast
  then show ?thesis
  proof cases
    case skip
    with assms show ?thesis by (auto simp: byte_step_def sse_inv_def)
  next
    case line
    obtain d1 ev1 r1 where l: "sse_line (?d0\<lparr>partial := []\<rparr>) (partial ?d0) ev = (d1, ev1, r1)"
      by (metis prod_cases3)
    then have "d' = d1\<lparr>skip_line_feed := (c = CR)\<rparr>"
      using assms(1) line by (auto simp: byte_step_def Let_def)
    moreover have "length (data_buf d1) \<le> event_bytes d1"
      using sse_line_inv [OF l] assms(2) by (simp add: sse_inv_def)
    moreover have "event_bytes d1 \<le> max_event_bytes d1" and "partial d1 = []"
      using sse_line_bound [OF l] sse_line_keeps(1) [OF l] assms(2) by (simp_all add: sse_inv_def)
    ultimately show ?thesis by (simp add: sse_inv_def)
  next
    case byte
    with assms show ?thesis
      by (auto simp: byte_step_def Let_def count_bytes_def checked_add_def sse_inv_def
          split: if_splits)
  qed
qed

lemma byte_run_sse_inv:
  "byte_run d bs ev = (d', ev', Ok ()) \<Longrightarrow> sse_inv d \<Longrightarrow> sse_inv d'"
proof (induction bs arbitrary: d ev)
  case (Cons c bs)
  then obtain d1 ev1 where "byte_step d c ev = (d1, ev1, Ok ())"
    and "byte_run d1 bs ev1 = (d', ev', Ok ())"
    by (auto split: prod.splits sum.splits)
  with Cons show ?case using byte_step_sse_inv by blast
qed simp

section \<open>Properties\<close>



text \<open>After any accepted stream the unfinished line and the collected data
  together hold no more bytes than the event limit.\<close>

lemma sse_memory_bounded:
  assumes "fresh d" and "data_buf d = []" and "4 \<le> length c" and "\<forall>x \<in> set cs. x \<noteq> []"
    and "max_event_bytes d + length (concat (c # cs)) \<le> u64_max"
    and "push_all d (c # cs) ev = (d', ev', Ok ())"
  shows "length (partial d') + length (data_buf d') \<le> max_event_bytes d"
proof -
  let ?d = "d\<lparr>at_start := False\<rparr>"
  have "fits d (length (concat (c # cs)))"
    using assms(1,5) by (simp add: fits_def fresh_def)
  then have "sse_sim (d', ev', Ok ()) (byte_run ?d (strip_bom (concat (c # cs))) ev)"
    using push_all_start [OF assms(1,3,4), of ev] assms(6) by simp
  then have run: "byte_run ?d (strip_bom (concat (c # cs))) ev = (d', ev', Ok ())"
    by (auto simp: sse_sim_def prod_eq_iff)
  have "sse_inv ?d" using assms(1,2) by (simp add: sse_inv_def fresh_def)
  then have "sse_inv d'" using byte_run_sse_inv [OF run] by simp
  with byte_run_keeps(2) [OF run] show ?thesis by (simp add: sse_inv_def)
qed

lemma sse_memory_bounded_witness:
  "length (partial (fst (push_all (SseDecoder_data_only 16 ''o'' ''l'' (Static ''u''))
      [''data: abcdef''] []))) \<le> 16"
proof -
  let ?d = "SseDecoder_data_only 16 ''o'' ''l'' (Static ''u'')"
  have "push_all ?d [''data: abcdef''] [] =
      (?d\<lparr>at_start := False, partial := ''data: abcdef'', event_bytes := 12\<rparr>, [], Ok ())"
    by (simp add: SseDecoder_data_only_def SseDecoder_new_def push_into_def push_body_def
        scan.simps count_bytes_def checked_add_def u64_max_def starts_with_def BOM_def)
  then show ?thesis
    using sse_memory_bounded [of ?d "''data: abcdef''" "[]" "[]"]
    by (simp add: fresh_def SseDecoder_data_only_def SseDecoder_new_def u64_max_def)
qed

section \<open>Round trip\<close>

text \<open>The wire form of an event: an optional name, its data line by line, an empty line.\<close>

definition encode_data :: "string list \<Rightarrow> string" where
  "encode_data ls = concat (map (\<lambda>l. ''data: '' @ l @ [LF]) ls)"

definition encode_event :: "string option \<Rightarrow> string list \<Rightarrow> string" where
  "encode_event name ls =
     (case name of None \<Rightarrow> [] | Some n \<Rightarrow> ''event: '' @ n @ [LF]) @ encode_data ls @ [LF]"

fun join_lines :: "string list \<Rightarrow> string" where
  "join_lines [] = []"
| "join_lines [l] = l"
| "join_lines (l # m # ls) = l @ LF # join_lines (m # ls)"

lemma butlast_data_lines: "ls \<noteq> [] \<Longrightarrow> butlast (concat (map (\<lambda>l. l @ [LF]) ls)) = join_lines ls"
proof (induction ls rule: join_lines.induct)
  case (3 l m ls)
  have "concat (map (\<lambda>l. l @ [LF]) (m # ls)) \<noteq> []" by simp
  then show ?case using 3 by (simp add: butlast_append)
qed simp_all

declare byte_run.simps(2) [simp del]

text \<open>A decoder between two events.\<close>

definition idle :: "sse_decoder \<Rightarrow> bool" where
  "idle d \<longleftrightarrow> \<not> at_start d \<and> \<not> skip_line_feed d \<and> partial d = [] \<and> data_buf d = []
     \<and> event_name d = None \<and> event_bytes d = 0"

lemma byte_run_line:
  assumes "\<not> skip_line_feed d" and "partial d = []" and "\<forall>c \<in> set l. \<not> line_end c"
    and "event_bytes d + length l \<le> max_event_bytes d" and "max_event_bytes d + length l \<le> u64_max"
  shows "byte_run d (l @ LF # rest) ev =
    feed_bytes (sse_line (d\<lparr>event_bytes := event_bytes d + length l\<rparr>) l ev) rest"
proof -
  let ?d = "d\<lparr>event_bytes := event_bytes d + length l\<rparr>"
  obtain d1 ev1 r where l: "sse_line ?d l ev = (d1, ev1, r)" by (metis prod_cases3)
  have "byte_run d l ev = (?d\<lparr>partial := l\<rparr>, ev, Ok ())"
    using byte_run_segment_ok [of l d ev] assms by (simp add: fits_def)
  moreover have "byte_step (?d\<lparr>partial := l\<rparr>) LF ev = (d1, ev1, r)"
  proof -
    have same: "(?d\<lparr>partial := l\<rparr>)\<lparr>skip_line_feed := False\<rparr> = ?d\<lparr>partial := l\<rparr>"
      and "(?d\<lparr>partial := l\<rparr>)\<lparr>partial := []\<rparr> = ?d"
      and "d1\<lparr>skip_line_feed := False\<rparr> = d1"
      using assms(1,2) sse_line_keeps(2) [OF l] by simp_all
    then show ?thesis
      unfolding byte_step_def same Let_def using l assms(1) by simp
  qed
  ultimately show ?thesis
    using l by (cases r) (simp_all add: byte_run_append byte_run.simps)
qed

lemma sse_line_data:
  "sse_line d (''data: '' @ l) ev = (d\<lparr>data_buf := data_buf d @ l @ [LF]\<rparr>, ev, Ok ())"
  by (simp add: sse_line_def split_field_def strip_prefix_def starts_with_def)

lemma sse_line_event:
  "mode d = Named m \<Longrightarrow> utf8_valid n \<Longrightarrow>
     sse_line d (''event: '' @ n) ev = (d\<lparr>event_name := Some n\<rparr>, ev, Ok ())"
  by (simp add: sse_line_def split_field_def strip_prefix_def starts_with_def)

lemma byte_run_data:
  assumes "\<not> skip_line_feed d" and "partial d = []" and "\<forall>l \<in> set ls. \<forall>c \<in> set l. \<not> line_end c"
    and "event_bytes d + length (encode_data ls) \<le> max_event_bytes d"
    and "max_event_bytes d + length (encode_data ls) \<le> u64_max"
  obtains n where "n \<le> event_bytes d + length (encode_data ls)"
    and "byte_run d (encode_data ls @ rest) ev =
      byte_run (d\<lparr>event_bytes := n, data_buf := data_buf d @ concat (map (\<lambda>l. l @ [LF]) ls)\<rparr>) rest ev"
  using assms
proof (induction ls arbitrary: d thesis)
  case Nil
  show ?case by (rule Nil.prems(1) [of "event_bytes d"]) (simp_all add: encode_data_def)
next
  case (Cons l ls)
  let ?l = "''data: '' @ l"
  let ?d = "d\<lparr>event_bytes := event_bytes d + length ?l, data_buf := data_buf d @ l @ [LF]\<rparr>"
  have enc: "encode_data (l # ls) = ?l @ LF # encode_data ls" by (simp add: encode_data_def)
  have "\<forall>c \<in> set ?l. \<not> line_end c" using Cons.prems(4) by auto
  then have step: "byte_run d (encode_data (l # ls) @ rest) ev = byte_run ?d (encode_data ls @ rest) ev"
    using byte_run_line [of d ?l "encode_data ls @ rest" ev] Cons.prems
      sse_line_data [of "d\<lparr>event_bytes := event_bytes d + length ?l\<rparr>" l ev]
    by (simp add: enc)
  obtain n where n: "n \<le> event_bytes ?d + length (encode_data ls)"
    and r: "byte_run ?d (encode_data ls @ rest) ev = byte_run (?d\<lparr>event_bytes := n,
      data_buf := data_buf ?d @ concat (map (\<lambda>l. l @ [LF]) ls)\<rparr>) rest ev"
    using Cons.prems by (rule_tac Cons.IH [of ?d]) (auto simp: enc)
  show ?case
  proof (rule Cons.prems(1))
    show "n \<le> event_bytes d + length (encode_data (l # ls))" using n by (simp add: enc)
    show "byte_run d (encode_data (l # ls) @ rest) ev =
      byte_run (d\<lparr>event_bytes := n,
        data_buf := data_buf d @ concat (map (\<lambda>l. l @ [LF]) (l # ls))\<rparr>) rest ev"
      unfolding step r by simp
  qed
qed

lemma byte_run_blank:
  assumes "\<not> skip_line_feed d" and "partial d = []" and "max_event_bytes d \<le> u64_max"
    and "event_bytes d \<le> max_event_bytes d"
    and "data_buf d \<noteq> []" and "utf8_valid (butlast (data_buf d))"
  shows "byte_run d [LF] ev =
    (d\<lparr>event_bytes := 0, event_name := None, data_buf := []\<rparr>,
     ev @ [\<lparr>ev_name = event_name d, ev_data = butlast (data_buf d)\<rparr>], Ok ())"
  using byte_run_line [of d "[]" "[]" ev] assms by (simp add: sse_line_def)

text \<open>C6 (round trip). An event written in its wire form is decoded to exactly that event,
  whatever its name and lines (without line ends inside), and the decoder is ready for the
  next one.\<close>

theorem sse_roundtrip:
  assumes "idle d" and "mode d = Named m" and "ls \<noteq> []"
    and "\<forall>l \<in> set ls. \<forall>c \<in> set l. c \<noteq> LF \<and> c \<noteq> CR"
    and "\<forall>n. name = Some n \<longrightarrow> utf8_valid n \<and> (\<forall>c \<in> set n. c \<noteq> LF \<and> c \<noteq> CR)"
    and "utf8_valid (join_lines ls)"
    and "length (encode_event name ls) \<le> max_event_bytes d"
    and "max_event_bytes d + length (encode_event name ls) \<le> u64_max"
  shows "push_into d (encode_event name ls) ev =
    (d, ev @ [\<lparr>ev_name = name, ev_data = join_lines ls\<rparr>], Ok ())"
proof -
  let ?body = "encode_data ls @ [LF]"
  obtain d1 where r1: "byte_run d (encode_event name ls) ev = byte_run d1 ?body ev"
    and d1: "d1 = d\<lparr>event_name := name, event_bytes := event_bytes d1\<rparr>"
    and n1: "event_bytes d1 + length ?body \<le> max_event_bytes d"
  proof (cases name)
    case None
    show ?thesis
      by (rule that [of d]) (use None assms in \<open>simp_all add: encode_event_def idle_def\<close>)
  next
    case (Some n)
    let ?l = "''event: '' @ n" and ?d1 = "d\<lparr>event_name := Some n, event_bytes := length n + 7\<rparr>"
    have "byte_run d (?l @ LF # ?body) ev = feed_bytes (sse_line (d\<lparr>event_bytes := length ?l\<rparr>) ?l ev) ?body"
      using byte_run_line [of d ?l ?body ev] Some assms by (auto simp: idle_def encode_event_def)
    moreover have "sse_line (d\<lparr>event_bytes := length ?l\<rparr>) ?l ev = (?d1, ev, Ok ())"
      using sse_line_event [of "d\<lparr>event_bytes := length ?l\<rparr>" m n ev] Some assms(2,5)
      by (cases d) simp
    ultimately show ?thesis
      using Some assms by (intro that [of ?d1]) (simp_all add: encode_event_def)
  qed
  have st: "\<not> skip_line_feed d1" "partial d1 = []" "data_buf d1 = []"
      "max_event_bytes d1 = max_event_bytes d" "event_name d1 = name"
    using assms(1) by (subst d1, simp add: idle_def)+
  have len: "length ?body \<le> length (encode_event name ls)" by (simp add: encode_event_def)
  obtain n where n: "n \<le> event_bytes d1 + length (encode_data ls)"
    and r2: "byte_run d1 ?body ev =
      byte_run (d1\<lparr>event_bytes := n, data_buf := concat (map (\<lambda>l. l @ [LF]) ls)\<rparr>) [LF] ev"
    using byte_run_data [of d1 ls "[LF]" ev] st n1 len assms(4,8) by auto
  have data: "concat (map (\<lambda>l. l @ [LF]) ls) \<noteq> []" using assms(3) by (cases ls) auto
  let ?d2 = "d1\<lparr>event_bytes := n, data_buf := concat (map (\<lambda>l. l @ [LF]) ls)\<rparr>"
  have "byte_run ?d2 [LF] ev =
      (?d2\<lparr>event_bytes := 0, event_name := None, data_buf := []\<rparr>,
       ev @ [\<lparr>ev_name = name, ev_data = join_lines ls\<rparr>], Ok ())"
    using byte_run_blank [of ?d2 ev] st n n1 assms(3,6,8) butlast_data_lines [of ls] data by simp
  moreover have "?d2\<lparr>event_bytes := 0, event_name := None, data_buf := []\<rparr> = d"
    using assms(1) by (subst d1, cases d) (simp add: idle_def)
  ultimately have "byte_run d (encode_event name ls) ev =
      (d, ev @ [\<lparr>ev_name = name, ev_data = join_lines ls\<rparr>], Ok ())"
    by (simp only: r1 r2)
  moreover have "sse_sim (push_into d (encode_event name ls) ev) (byte_run d (encode_event name ls) ev)"
    using push_body_refines [of d "encode_event name ls" ev] assms
    by (simp add: push_into_def idle_def fits_def encode_event_def)
  ultimately show ?thesis
    by (auto simp: sse_sim_def prod_eq_iff)
qed

theorem sse_roundtrip_witness:
  "push_into ((SseDecoder_named 64 ''o'' ''l'' (Static ''u'') (Static ''n''))\<lparr>at_start := False\<rparr>)
     (encode_event (Some ''ping'') [''a'', ''b'']) [] =
   ((SseDecoder_named 64 ''o'' ''l'' (Static ''u'') (Static ''n''))\<lparr>at_start := False\<rparr>,
    [\<lparr>ev_name = Some ''ping'', ev_data = ''a'' @ [LF] @ ''b''\<rparr>], Ok ())"
  using sse_roundtrip [where name = "Some ''ping''" and ls = "[''a'', ''b'']" and ev = "[]"
      and d = "(SseDecoder_named 64 ''o'' ''l'' (Static ''u'') (Static ''n''))\<lparr>at_start := False\<rparr>"
      and m = "Static ''n''"]
  by (simp add: idle_def SseDecoder_named_def SseDecoder_new_def encode_event_def encode_data_def
      u64_max_def utf8_valid.simps utf8_len_def is_ascii_def)

text \<open>
  The non-empty chunks of C4 are needed. An empty chunk consumes the pending-line-feed flag
  without a line feed, so a \<open>CR LF\<close> pair that an empty chunk splits is read as two line ends
  and dispatches the event early.
\<close>

theorem empty_chunk_splits_event:
  "map ev_data (fst (snd (push_all (SseDecoder_data_only 64 ''o'' ''l'' (Static ''u''))
      [''data: a'' @ [CR], [], [LF] @ ''data: b'' @ [LF, LF]] []))) = [''a'', ''b'']
   \<and> map ev_data (fst (snd (push_all (SseDecoder_data_only 64 ''o'' ''l'' (Static ''u''))
      [''data: a'' @ [CR], [LF] @ ''data: b'' @ [LF, LF]] []))) = [''a'' @ [LF] @ ''b'']"
  by (simp add: SseDecoder_data_only_def SseDecoder_new_def push_into_def push_body_def
      scan.simps count_bytes_def checked_add_def u64_max_def starts_with_def BOM_def
      finish_line_def sse_line_def split_field_def strip_prefix_def utf8_valid.simps
      utf8_len_def is_ascii_def Let_def)

end
