(* ===== verification/Budget.thy ===== *)
theory Budget
  imports Rust_Str
begin

text \<open>
  Run budgets (\<^verbatim>\<open>crates/qq-core/src/runtime/budget.rs\<close>), the price of a turn
  (\<open>run_cost\<close> in \<^verbatim>\<open>sessions/snapshots.rs\<close>) and the wire types they use
  (\<^verbatim>\<open>crates/qq-protocol/src/sessions.rs\<close>).

  A \<open>tokio\<close> instant is a natural number of nanoseconds, a duration of milliseconds is scaled
  to it. Counters keep the widths of the source through \<^const>\<open>sat_add\<close> and
  \<^const>\<open>checked_add\<close>.
\<close>

section \<open>Wire types\<close>

type_synonym instant = nat

datatype budget_limit_kind =
    Duration | ModelTurns | ToolCalls | TotalTokens | Cost | CostUnknown
  | InputTokens | OutputTokens | TokensUnknown | ToolOutputBytes

record run_limits =
  max_duration_ms :: "nat option"
  max_model_turns :: "nat option"
  max_tool_calls :: "nat option"
  max_total_tokens :: "nat option"
  max_cost_usd_nanos :: "nat option"
  max_input_tokens :: "nat option"
  max_output_tokens :: "nat option"
  max_tool_output_bytes :: "nat option"
  max_children :: "nat option"
  max_concurrent_children :: "nat option"

record token_usage =
  u_input_tokens :: nat
  u_cache_read_input_tokens :: nat
  u_cache_write_input_tokens :: nat
  u_output_tokens :: nat
  u_reasoning_tokens :: "nat option"

record model_pricing_tier =
  above_input_tokens :: nat
  tier_input_rate :: nat
  tier_output_rate :: nat
  tier_cache_read_rate :: "nat option"
  tier_cache_write_rate :: "nat option"

record model_pricing =
  input_rate :: nat
  output_rate :: nat
  cache_read_rate :: "nat option"
  cache_write_rate :: "nat option"
  context_tier :: "model_pricing_tier option"
  provenance :: string

record budget_exhaustion =
  be_limit :: budget_limit_kind
  be_final_response :: bool
  be_message :: string

definition RunLimits_is_empty :: "run_limits \<Rightarrow> bool" where
  "RunLimits_is_empty l \<longleftrightarrow>
     max_duration_ms l = None \<and> max_model_turns l = None \<and> max_tool_calls l = None
     \<and> max_total_tokens l = None \<and> max_cost_usd_nanos l = None \<and> max_input_tokens l = None
     \<and> max_output_tokens l = None \<and> max_tool_output_bytes l = None \<and> max_children l = None
     \<and> max_concurrent_children l = None"

section \<open>The price of a turn\<close>

definition u128_max :: nat where [arith_defs]: "u128_max = 2 ^ 128 - 1"

definition checked_mul :: "nat \<Rightarrow> nat \<Rightarrow> nat \<Rightarrow> nat option" where
  [arith_defs]: "checked_mul m a b = (if a * b \<le> m then Some (a * b) else None)"

definition run_cost :: "token_usage \<Rightarrow> model_pricing \<Rightarrow> nat option" where
  "run_cost usage pricing =
     Option.bind (checked_add u64_max (u_input_tokens usage) (u_cache_read_input_tokens usage)) (\<lambda>x.
     Option.bind (checked_add u64_max x (u_cache_write_input_tokens usage)) (\<lambda>total_input.
     let tier = (case context_tier pricing of
                   Some t \<Rightarrow> if total_input > above_input_tokens t then Some t else None
                 | None \<Rightarrow> None);
         in_rate = (case tier of Some t \<Rightarrow> tier_input_rate t | None \<Rightarrow> input_rate pricing);
         out_rate = (case tier of Some t \<Rightarrow> tier_output_rate t | None \<Rightarrow> output_rate pricing);
         read_price = (case Option.bind tier tier_cache_read_rate of
                         Some r \<Rightarrow> Some r | None \<Rightarrow> cache_read_rate pricing);
         write_price = (case Option.bind tier tier_cache_write_rate of
                          Some r \<Rightarrow> Some r | None \<Rightarrow> cache_write_rate pricing)
     in Option.bind (if u_cache_read_input_tokens usage = 0 then Some 0 else read_price) (\<lambda>read_rate.
        Option.bind (if u_cache_write_input_tokens usage = 0 then Some 0 else write_price) (\<lambda>write_rate.
        Option.bind (checked_mul u128_max (u_input_tokens usage) in_rate) (\<lambda>a.
        Option.bind (checked_mul u128_max (u_output_tokens usage) out_rate) (\<lambda>b.
        Option.bind (checked_add u128_max a b) (\<lambda>ab.
        Option.bind (checked_mul u128_max (u_cache_read_input_tokens usage) read_rate) (\<lambda>c.
        Option.bind (checked_add u128_max ab c) (\<lambda>abc.
        Option.bind (checked_mul u128_max (u_cache_write_input_tokens usage) write_rate) (\<lambda>d.
        Option.bind (checked_add u128_max abc d) (\<lambda>cost.
        if cost \<le> u64_max then Some cost else None)))))))))))"

section \<open>The meter\<close>

definition nanos_per_ms :: nat where "nanos_per_ms = 1000000"

record budget_meter =
  limits :: run_limits
  pricing :: "model_pricing option"
  started :: instant
  turns :: nat
  tool_calls :: nat
  tokens :: "nat option"
  input_tokens :: "nat option"
  output_tokens :: "nat option"
  tool_output_bytes :: nat
  cost_usd_nanos :: "nat option"
  final_response_requested :: "budget_limit_kind option"

datatype budget_decision =
    Continue
  | FinalResponse budget_limit_kind
  | Exhausted budget_exhaustion

definition BudgetMeter_new :: "run_limits \<Rightarrow> model_pricing option \<Rightarrow> instant \<Rightarrow> budget_meter" where
  "BudgetMeter_new l p now =
     \<lparr>limits = l, pricing = p, started = now, turns = 0, tool_calls = 0, tokens = Some 0,
      input_tokens = Some 0, output_tokens = Some 0, tool_output_bytes = 0,
      cost_usd_nanos = Some 0, final_response_requested = None\<rparr>"

definition deadline :: "budget_meter \<Rightarrow> instant option" where
  "deadline m = map_option (\<lambda>ms. started m + ms * nanos_per_ms) (max_duration_ms (limits m))"

text \<open>Whole milliseconds left, at least one, as a \<open>u64\<close>.\<close>

definition left_ms :: "nat \<Rightarrow> nat" where
  "left_ms nanos = max (min (nanos div nanos_per_ms) u64_max) 1"

definition usage_input :: "token_usage \<Rightarrow> nat" where
  "usage_input usage =
     sat_add u64_max (sat_add u64_max (u_input_tokens usage) (u_cache_read_input_tokens usage))
       (u_cache_write_input_tokens usage)"

text \<open>The token counters after a usage report; none at all makes them unknown for good.\<close>

definition charge_tokens :: "token_usage option \<Rightarrow> budget_meter \<Rightarrow> budget_meter" where
  "charge_tokens usage m =
     (case usage of
        Some u \<Rightarrow>
          m\<lparr>tokens := map_option (\<lambda>t. sat_add u64_max (sat_add u64_max t (usage_input u))
                        (u_output_tokens u)) (tokens m),
            input_tokens := map_option (\<lambda>t. sat_add u64_max t (usage_input u)) (input_tokens m),
            output_tokens := map_option (\<lambda>t. sat_add u64_max t (u_output_tokens u))
                               (output_tokens m)\<rparr>
      | None \<Rightarrow> m\<lparr>tokens := None, input_tokens := None, output_tokens := None\<rparr>)"

definition charge_turn :: "token_usage option \<Rightarrow> budget_meter \<Rightarrow> budget_meter" where
  "charge_turn usage m =
     (let m1 = charge_tokens usage (m\<lparr>turns := sat_add u32_max (turns m) 1\<rparr>)
      in m1\<lparr>cost_usd_nanos :=
           (case usage of
              Some u \<Rightarrow>
                Option.bind (cost_usd_nanos m1) (\<lambda>spent.
                Option.bind (pricing m1) (\<lambda>p.
                Option.bind (run_cost u p) (\<lambda>cost. checked_add u64_max spent cost)))
            | None \<Rightarrow> None)\<rparr>)"

definition charge_tool_output :: "nat \<Rightarrow> budget_meter \<Rightarrow> budget_meter" where
  "charge_tool_output bytes m =
     m\<lparr>tool_output_bytes := sat_add u64_max (tool_output_bytes m) (min bytes u64_max)\<rparr>"

definition charge_tool_calls :: "nat \<Rightarrow> budget_meter \<Rightarrow> budget_meter" where
  "charge_tool_calls count m =
     m\<lparr>tool_calls := sat_add u32_max (tool_calls m) (min count u32_max)\<rparr>"

definition charge_child :: "token_usage option \<Rightarrow> nat option \<Rightarrow> budget_meter \<Rightarrow> budget_meter" where
  "charge_child usage cost m =
     charge_tokens usage
       (m\<lparr>cost_usd_nanos :=
            (case (cost_usd_nanos m, cost) of
               (Some spent, Some c) \<Rightarrow> checked_add u64_max spent c
             | _ \<Rightarrow> None)\<rparr>)"

definition remaining_tokens ::
  "nat option \<Rightarrow> nat option \<Rightarrow> budget_limit_kind \<Rightarrow> (budget_limit_kind, nat option) result" where
  "remaining_tokens limit spent kind =
     (case limit of
        Some l \<Rightarrow> (case spent of
                     Some s \<Rightarrow> if s < l then Ok (Some (l - s)) else Err kind
                   | None \<Rightarrow> Err TokensUnknown)
      | None \<Rightarrow> Ok None)"

definition remaining :: "budget_meter \<Rightarrow> instant \<Rightarrow> (budget_limit_kind, run_limits) result" where
  "remaining m now =
     (let l = limits m;
          dur = (case deadline m of
                   Some dl \<Rightarrow> if dl - now = 0 then Err Duration else Ok (Some (left_ms (dl - now)))
                 | None \<Rightarrow> Ok None);
          cost = (case max_cost_usd_nanos l of
                    Some lim \<Rightarrow> (case cost_usd_nanos m of
                        Some spent \<Rightarrow> if spent < lim then Ok (Some (lim - spent)) else Err Cost
                      | None \<Rightarrow> Err CostUnknown)
                  | None \<Rightarrow> Ok None)
      in case dur of Inl e \<Rightarrow> Err e | Inr d \<Rightarrow>
        (case cost of Inl e \<Rightarrow> Err e | Inr c \<Rightarrow>
        (case remaining_tokens (max_total_tokens l) (tokens m) TotalTokens of
           Inl e \<Rightarrow> Err e | Inr total_left \<Rightarrow>
        (case remaining_tokens (max_input_tokens l) (input_tokens m) InputTokens of
           Inl e \<Rightarrow> Err e | Inr input_left \<Rightarrow>
        (case remaining_tokens (max_output_tokens l) (output_tokens m) OutputTokens of
           Inl e \<Rightarrow> Err e | Inr output_left \<Rightarrow>
           Ok \<lparr>max_duration_ms = d, max_model_turns = None, max_tool_calls = None,
               max_total_tokens = total_left, max_cost_usd_nanos = c,
               max_input_tokens = input_left, max_output_tokens = output_left,
               max_tool_output_bytes = None, max_children = None,
               max_concurrent_children = None\<rparr>)))))"

record child_budget_t =
  cb_limits :: run_limits
  cb_deadline :: "instant option"

definition child_budget ::
  "budget_meter \<Rightarrow> instant \<Rightarrow> (budget_limit_kind, child_budget_t) result" where
  "child_budget m now =
     (case remaining m now of
        Inl e \<Rightarrow> Err e
      | Inr l \<Rightarrow> Ok \<lparr>cb_limits = l, cb_deadline = deadline m\<rparr>)"

definition limits_at :: "child_budget_t \<Rightarrow> instant \<Rightarrow> (budget_limit_kind, run_limits) result" where
  "limits_at b now =
     (case cb_deadline b of
        Some dl \<Rightarrow> if dl - now = 0 then Err Duration
                   else Ok ((cb_limits b)\<lparr>max_duration_ms := Some (left_ms (dl - now))\<rparr>)
      | None \<Rightarrow> Ok (cb_limits b))"

text \<open>\<open>is_some_and\<close> of a limit against a counter.\<close>

definition over :: "nat option \<Rightarrow> nat option \<Rightarrow> bool" where
  "over limit spent = (case (limit, spent) of (Some l, Some s) \<Rightarrow> s > l | _ \<Rightarrow> False)"

definition exceeded :: "budget_meter \<Rightarrow> instant \<Rightarrow> budget_limit_kind option" where
  "exceeded m now =
     (let l = limits m in
      if (case deadline m of Some dl \<Rightarrow> now \<ge> dl | None \<Rightarrow> False) then Some Duration
      else if max_cost_usd_nanos l \<noteq> None \<and> cost_usd_nanos m = None then Some CostUnknown
      else if over (max_cost_usd_nanos l) (cost_usd_nanos m) then Some Cost
      else if (max_total_tokens l \<noteq> None \<or> max_input_tokens l \<noteq> None \<or> max_output_tokens l \<noteq> None)
              \<and> tokens m = None then Some TokensUnknown
      else if over (max_total_tokens l) (tokens m) then Some TotalTokens
      else if over (max_input_tokens l) (input_tokens m) then Some InputTokens
      else if over (max_output_tokens l) (output_tokens m) then Some OutputTokens
      else if over (max_tool_output_bytes l) (Some (tool_output_bytes m)) then Some ToolOutputBytes
      else if over (max_tool_calls l) (Some (tool_calls m)) then Some ToolCalls
      else if over (max_model_turns l) (Some (turns m)) then Some ModelTurns
      else None)"

abbreviation or_default :: "nat option \<Rightarrow> nat" where
  "or_default x \<equiv> (case x of Some n \<Rightarrow> n | None \<Rightarrow> 0)"

fun exhaustion_message :: "budget_meter \<Rightarrow> budget_limit_kind \<Rightarrow> instant \<Rightarrow> string" where
  "exhaustion_message m Duration now =
     ''the run exceeded its '' @ nat_to_string (or_default (max_duration_ms (limits m)))
     @ '' ms wall-clock budget after '' @ nat_to_string ((now - started m) div nanos_per_ms) @ '' ms''"
| "exhaustion_message m ModelTurns now =
     ''the run exhausted its '' @ nat_to_string (or_default (max_model_turns (limits m)))
     @ '' model turn budget''"
| "exhaustion_message m ToolCalls now =
     ''the run exhausted its '' @ nat_to_string (or_default (max_tool_calls (limits m)))
     @ '' tool call budget after '' @ nat_to_string (tool_calls m) @ '' calls''"
| "exhaustion_message m TotalTokens now =
     ''the run's '' @ nat_to_string (or_default (tokens m)) @ '' total tokens exceeded its ''
     @ nat_to_string (or_default (max_total_tokens (limits m))) @ '' token budget''"
| "exhaustion_message m InputTokens now =
     ''the run's '' @ nat_to_string (or_default (input_tokens m)) @ '' input tokens exceeded its ''
     @ nat_to_string (or_default (max_input_tokens (limits m))) @ '' input token budget''"
| "exhaustion_message m OutputTokens now =
     ''the run's '' @ nat_to_string (or_default (output_tokens m)) @ '' output tokens exceeded its ''
     @ nat_to_string (or_default (max_output_tokens (limits m))) @ '' output token budget''"
| "exhaustion_message m TokensUnknown now =
     ''the run's token usage became unknown, so its token budget could not be enforced''"
| "exhaustion_message m ToolOutputBytes now =
     ''the run's '' @ nat_to_string (tool_output_bytes m) @ '' bytes of tool output exceeded its ''
     @ nat_to_string (or_default (max_tool_output_bytes (limits m))) @ '' byte budget''"
| "exhaustion_message m Cost now =
     ''the run's estimated cost exceeded its budget ('' @ nat_to_string (or_default (cost_usd_nanos m))
     @ '' > '' @ nat_to_string (or_default (max_cost_usd_nanos (limits m))) @ '' USD nanos)''"
| "exhaustion_message m CostUnknown now =
     ''the run's cost became unknown, so its hard cost budget could not be enforced''"

definition exhaustion :: "budget_meter \<Rightarrow> budget_limit_kind \<Rightarrow> bool \<Rightarrow> instant \<Rightarrow> budget_exhaustion" where
  "exhaustion m kind final now =
     \<lparr>be_limit = kind, be_final_response = final, be_message = exhaustion_message m kind now\<rparr>"

fun affordable :: "budget_limit_kind \<Rightarrow> bool" where
  "affordable Duration = False"
| "affordable CostUnknown = False"
| "affordable TokensUnknown = False"
| "affordable _ = True"

definition settle ::
  "budget_meter \<Rightarrow> budget_limit_kind \<Rightarrow> instant \<Rightarrow> budget_decision \<times> budget_meter" where
  "settle m kind now =
     (if \<not> affordable kind
         \<or> (case max_model_turns (limits m) of Some l \<Rightarrow> turns m \<ge> l | None \<Rightarrow> False)
      then (Exhausted (exhaustion m kind False now), m)
      else (FinalResponse kind, m\<lparr>final_response_requested := Some kind\<rparr>))"

definition before_turn ::
  "budget_meter \<Rightarrow> instant \<Rightarrow> nat \<Rightarrow> budget_decision \<times> budget_meter" where
  "before_turn m now next_turn_tools =
     (case final_response_requested m of
        Some spent \<Rightarrow>
          let kind = (case exceeded m now of Some k \<Rightarrow> k | None \<Rightarrow> spent)
          in (Exhausted (exhaustion m kind True now), m)
      | None \<Rightarrow>
          (case exceeded m now of
             Some kind \<Rightarrow> settle m kind now
           | None \<Rightarrow>
               let turns_spent = (case max_model_turns (limits m) of
                                    Some l \<Rightarrow> sat_add u32_max (turns m) 1 \<ge> l | None \<Rightarrow> False);
                   tools_spent = (case max_tool_calls (limits m) of
                                    Some l \<Rightarrow> sat_add u32_max (tool_calls m)
                                                (min next_turn_tools u32_max) > l
                                  | None \<Rightarrow> False)
               in if turns_spent then settle m ModelTurns now
                  else if tools_spent then settle m ToolCalls now
                  else (Continue, m)))"

section \<open>The turn loop around the meter\<close>

text \<open>
  The part of the run loop (\<^verbatim>\<open>runtime/run_loop.rs\<close>) that drives the meter: \<open>before_turn\<close>
  decides, a turn is charged with its usage, its tool calls, the output of its tools and the
  spend of its children. The turn of a final response offers no tools, and after it the code
  asks \<open>before_turn\<close> again and marks every answer but \<open>Exhausted\<close> as \<open>unreachable!\<close>.
\<close>

record turn_input =
  ti_now :: instant
  ti_tools :: nat
  ti_usage :: "token_usage option"
  ti_calls :: nat
  ti_outputs :: "nat list"
  ti_children :: "(token_usage option \<times> nat option) list"

datatype run_end = Running | Stopped budget_exhaustion | Unreachable

definition charge_full_turn :: "turn_input \<Rightarrow> budget_meter \<Rightarrow> budget_meter" where
  "charge_full_turn t m =
     fold charge_tool_output (ti_outputs t)
       (fold (\<lambda>(u, c). charge_child u c) (ti_children t)
         (charge_tool_calls (ti_calls t) (charge_turn (ti_usage t) m)))"

fun drive :: "budget_meter \<Rightarrow> turn_input list \<Rightarrow> budget_meter \<times> run_end" where
  "drive m [] = (m, Running)"
| "drive m (t # ts) =
     (case before_turn m (ti_now t) (ti_tools t) of
        (Exhausted x, m1) \<Rightarrow> (m1, Stopped x)
      | (FinalResponse k, m1) \<Rightarrow>
          (case before_turn (charge_tool_calls 0 (charge_turn (ti_usage t) m1)) (ti_now t) 0 of
             (Exhausted x, m2) \<Rightarrow> (m2, Stopped x)
           | (_, m2) \<Rightarrow> (m2, Unreachable))
      | (Continue, m1) \<Rightarrow> drive (charge_full_turn t m1) ts)"

section \<open>What a charge leaves alone\<close>

lemmas charge_defs =
  charge_tokens_def charge_turn_def charge_child_def charge_tool_calls_def charge_tool_output_def
  Let_def

lemma charge_tokens_frame [simp]:
  "limits (charge_tokens u m) = limits m" "started (charge_tokens u m) = started m"
  "turns (charge_tokens u m) = turns m" "tool_calls (charge_tokens u m) = tool_calls m"
  "tool_output_bytes (charge_tokens u m) = tool_output_bytes m"
  "pricing (charge_tokens u m) = pricing m" "cost_usd_nanos (charge_tokens u m) = cost_usd_nanos m"
  "final_response_requested (charge_tokens u m) = final_response_requested m"
  by (simp_all add: charge_tokens_def split: option.split)

lemma charge_turn_frame [simp]:
  "limits (charge_turn u m) = limits m" "started (charge_turn u m) = started m"
  "turns (charge_turn u m) = sat_add u32_max (turns m) 1" "tool_calls (charge_turn u m) = tool_calls m"
  "tool_output_bytes (charge_turn u m) = tool_output_bytes m"
  "final_response_requested (charge_turn u m) = final_response_requested m"
  by (simp_all add: charge_turn_def Let_def)

lemma charge_child_frame [simp]:
  "limits (charge_child u c m) = limits m" "started (charge_child u c m) = started m"
  "turns (charge_child u c m) = turns m" "tool_calls (charge_child u c m) = tool_calls m"
  "tool_output_bytes (charge_child u c m) = tool_output_bytes m"
  "final_response_requested (charge_child u c m) = final_response_requested m"
  by (simp_all add: charge_child_def)

lemma charge_tool_calls_frame [simp]:
  "limits (charge_tool_calls n m) = limits m" "started (charge_tool_calls n m) = started m"
  "turns (charge_tool_calls n m) = turns m" "tokens (charge_tool_calls n m) = tokens m"
  "final_response_requested (charge_tool_calls n m) = final_response_requested m"
  by (simp_all add: charge_tool_calls_def)

lemma charge_tool_output_frame [simp]:
  "limits (charge_tool_output n m) = limits m" "turns (charge_tool_output n m) = turns m"
  "tool_calls (charge_tool_output n m) = tool_calls m"
  "final_response_requested (charge_tool_output n m) = final_response_requested m"
  by (simp_all add: charge_tool_output_def)

lemma fold_keeps:
  assumes "\<And>x m. P (f x m) = P m"
  shows "P (fold f xs m) = P m"
  by (induction xs arbitrary: m) (simp_all add: assms)

lemma fold_tool_output_frame [simp]:
  "limits (fold charge_tool_output xs m) = limits m"
  "turns (fold charge_tool_output xs m) = turns m"
  "tool_calls (fold charge_tool_output xs m) = tool_calls m"
  by (rule fold_keeps, simp)+

lemma fold_children_frame [simp]:
  "limits (fold (\<lambda>(u, c). charge_child u c) xs m) = limits m"
  "turns (fold (\<lambda>(u, c). charge_child u c) xs m) = turns m"
  "tool_calls (fold (\<lambda>(u, c). charge_child u c) xs m) = tool_calls m"
  by (rule fold_keeps, simp add: split_def)+

lemma charge_full_turn_frame [simp]:
  "limits (charge_full_turn t m) = limits m"
  "turns (charge_full_turn t m) = sat_add u32_max (turns m) 1"
  "tool_calls (charge_full_turn t m) = sat_add u32_max (tool_calls m) (min (ti_calls t) u32_max)"
  by (simp_all add: charge_full_turn_def) (simp add: charge_tool_calls_def)

lemma settle_cases:
  assumes "settle m kind now = (dec, m')"
  obtains (stop) "dec = Exhausted (exhaustion m kind False now)" "m' = m"
    | (final) "dec = FinalResponse kind" "m' = m\<lparr>final_response_requested := Some kind\<rparr>"
        "case max_model_turns (limits m) of Some l \<Rightarrow> turns m < l | None \<Rightarrow> True"
proof (cases "\<not> affordable kind
    \<or> (case max_model_turns (limits m) of Some l \<Rightarrow> turns m \<ge> l | None \<Rightarrow> False)")
  case True
  show ?thesis by (rule stop) (use True assms in \<open>auto simp: settle_def\<close>)
next
  case False
  show ?thesis
    by (rule final) (use False assms in \<open>auto simp: settle_def split: option.splits\<close>)
qed

text \<open>The three outcomes of \<open>before_turn\<close> and what each guarantees.\<close>

lemma before_turn_cases:
  assumes "before_turn m now tools = (dec, m')"
  obtains (stop) x where "dec = Exhausted x" "m' = m"
    | (final) kind where "dec = FinalResponse kind"
        "m' = m\<lparr>final_response_requested := Some kind\<rparr>"
        "case max_model_turns (limits m) of Some l \<Rightarrow> turns m < l | None \<Rightarrow> True"
    | (go) "dec = Continue" "m' = m" "exceeded m now = None" "final_response_requested m = None"
        "case max_model_turns (limits m) of Some l \<Rightarrow> sat_add u32_max (turns m) 1 < l | None \<Rightarrow> True"
        "case max_tool_calls (limits m) of
           Some l \<Rightarrow> sat_add u32_max (tool_calls m) (min tools u32_max) \<le> l | None \<Rightarrow> True"
proof (cases "final_response_requested m")
  case (Some k)
  with assms have "m' = m" and "\<exists>x. dec = Exhausted x"
    by (auto simp: before_turn_def Let_def)
  then show ?thesis using stop by blast
next
  case None
  show ?thesis
  proof (cases "exceeded m now")
    case (Some k)
    with None assms have "settle m k now = (dec, m')" by (simp add: before_turn_def)
    then show ?thesis by (cases rule: settle_cases) (fact stop final)+
  next
    case none: None
    let ?turns = "case max_model_turns (limits m) of
        Some l \<Rightarrow> sat_add u32_max (turns m) 1 \<ge> l | None \<Rightarrow> False"
    let ?tools = "case max_tool_calls (limits m) of
        Some l \<Rightarrow> sat_add u32_max (tool_calls m) (min tools u32_max) > l | None \<Rightarrow> False"
    have dec: "(dec, m') = (if ?turns then settle m ModelTurns now
        else if ?tools then settle m ToolCalls now else (Continue, m))"
      using assms None none by (simp add: before_turn_def Let_def)
    have settled: thesis if "settle m k now = (dec, m')" for k
      using that by (cases rule: settle_cases) (fact stop final)+
    show ?thesis
    proof (cases "?turns \<or> ?tools")
      case True
      with dec show ?thesis using settled by (metis (no_types))
    next
      case False
      show ?thesis
        by (rule go) (use False dec None none in \<open>simp_all split: option.splits\<close>)
    qed
  qed
qed

section \<open>The meter as a state machine of charges\<close>

datatype charge =
    ChargeTurn "token_usage option"
  | ChargeToolOutput nat
  | ChargeToolCalls nat
  | ChargeChild "token_usage option" "nat option"

fun charge_step :: "budget_meter \<Rightarrow> charge \<Rightarrow> budget_meter" where
  "charge_step m (ChargeTurn u) = charge_turn u m"
| "charge_step m (ChargeToolOutput n) = charge_tool_output n m"
| "charge_step m (ChargeToolCalls n) = charge_tool_calls n m"
| "charge_step m (ChargeChild u c) = charge_child u c m"

text \<open>Counters are within their widths, and the token counters are known together.\<close>

definition meter_ok :: "budget_meter \<Rightarrow> bool" where
  "meter_ok m \<longleftrightarrow>
     turns m \<le> u32_max \<and> tool_calls m \<le> u32_max \<and> tool_output_bytes m \<le> u64_max
     \<and> (\<forall>t. tokens m = Some t \<longrightarrow> t \<le> u64_max)
     \<and> (\<forall>t. input_tokens m = Some t \<longrightarrow> t \<le> u64_max)
     \<and> (\<forall>t. output_tokens m = Some t \<longrightarrow> t \<le> u64_max)
     \<and> (\<forall>t. cost_usd_nanos m = Some t \<longrightarrow> t \<le> u64_max)
     \<and> (tokens m = None \<longleftrightarrow> input_tokens m = None)
     \<and> (tokens m = None \<longleftrightarrow> output_tokens m = None)"

lemma meter_ok_new: "meter_ok (BudgetMeter_new l p now)"
  by (simp add: meter_ok_def BudgetMeter_new_def)

lemma meter_ok_charge_tokens: "meter_ok m \<Longrightarrow> meter_ok (charge_tokens u m)"
  by (cases u) (auto simp: meter_ok_def charge_tokens_def)

lemma meter_ok_cost:
  "meter_ok m \<Longrightarrow> (\<forall>t. c = Some t \<longrightarrow> t \<le> u64_max) \<Longrightarrow> meter_ok (m\<lparr>cost_usd_nanos := c\<rparr>)"
  by (auto simp: meter_ok_def)

lemma charge_step_ok: "meter_ok m \<Longrightarrow> meter_ok (charge_step m c)"
proof (cases c)
  case (ChargeTurn u)
  assume "meter_ok m"
  then have "meter_ok (charge_tokens u (m\<lparr>turns := sat_add u32_max (turns m) 1\<rparr>))"
    by (intro meter_ok_charge_tokens) (auto simp: meter_ok_def)
  then show ?thesis unfolding ChargeTurn charge_step.simps charge_turn_def Let_def
    by (rule meter_ok_cost) (auto simp: checked_add_Some_iff bind_eq_Some_conv split: option.splits)
next
  case (ChargeChild u k)
  assume "meter_ok m"
  then show ?thesis unfolding ChargeChild charge_step.simps charge_child_def
    by (intro meter_ok_charge_tokens meter_ok_cost)
       (auto simp: checked_add_Some_iff split: option.splits)
qed (auto simp: meter_ok_def charge_tool_output_def charge_tool_calls_def)

interpretation meter: state_machine charge_step meter_ok
  by unfold_locales (rule charge_step_ok)

lemma charge_step_frame [simp]:
  "limits (charge_step m c) = limits m" "deadline (charge_step m c) = deadline m"
  by (cases c; simp add: deadline_def charge_tool_output_def)+

text \<open>A counter option only grows; growing past knowing it makes it \<open>None\<close>.\<close>

definition grows :: "nat option \<Rightarrow> nat option \<Rightarrow> bool" where
  "grows a b \<longleftrightarrow> (\<forall>y. b = Some y \<longrightarrow> (\<exists>x. a = Some x \<and> x \<le> y))"

lemma grows_over: "grows a b \<Longrightarrow> over l a \<Longrightarrow> b \<noteq> None \<Longrightarrow> over l b"
  by (fastforce simp: grows_def over_def split: option.splits)

lemma grows_refl [simp]: "grows a a"
  by (simp add: grows_def)

lemma charge_step_grows:
  assumes "meter_ok m"
  shows "grows (tokens m) (tokens (charge_step m c))"
    "grows (input_tokens m) (input_tokens (charge_step m c))"
    "grows (output_tokens m) (output_tokens (charge_step m c))"
    "grows (cost_usd_nanos m) (cost_usd_nanos (charge_step m c))"
    "turns m \<le> turns (charge_step m c)" "tool_calls m \<le> tool_calls (charge_step m c)"
    "tool_output_bytes m \<le> tool_output_bytes (charge_step m c)"
  using assms
  by (cases c; auto simp: meter_ok_def charge_defs grows_def sat_add_def checked_add_Some_iff
      bind_eq_Some_conv split: option.splits)+

lemma exceeded_None_iff:
  "exceeded m now = None \<longleftrightarrow>
     (case deadline m of Some dl \<Rightarrow> now < dl | None \<Rightarrow> True)
     \<and> (max_cost_usd_nanos (limits m) = None \<or> cost_usd_nanos m \<noteq> None)
     \<and> \<not> over (max_cost_usd_nanos (limits m)) (cost_usd_nanos m)
     \<and> (max_total_tokens (limits m) = None \<and> max_input_tokens (limits m) = None
        \<and> max_output_tokens (limits m) = None \<or> tokens m \<noteq> None)
     \<and> \<not> over (max_total_tokens (limits m)) (tokens m)
     \<and> \<not> over (max_input_tokens (limits m)) (input_tokens m)
     \<and> \<not> over (max_output_tokens (limits m)) (output_tokens m)
     \<and> \<not> over (max_tool_output_bytes (limits m)) (Some (tool_output_bytes m))
     \<and> \<not> over (max_tool_calls (limits m)) (Some (tool_calls m))
     \<and> \<not> over (max_model_turns (limits m)) (Some (turns m))"
  by (auto simp: exceeded_def Let_def split: option.splits)

lemma over_le: "over l (Some x) \<Longrightarrow> x \<le> y \<Longrightarrow> over l (Some y)"
  by (auto simp: over_def split: option.splits)

lemma over_None [simp]: "\<not> over None s" "\<not> over l None"
  by (simp_all add: over_def split: option.split)

lemma charge_step_exceeded:
  assumes "meter_ok m" and "exceeded (charge_step m c) now' = None" and "now \<le> now'"
  shows "exceeded m now = None"
proof -
  let ?m = "charge_step m c"
  note g = charge_step_grows [OF assms(1), of c]
  have ok: "meter_ok ?m" using assms(1) by (rule charge_step_ok)
  note e = assms(2) [unfolded exceeded_None_iff charge_step_frame]
  have known: "a \<noteq> None" if "grows a b" "b \<noteq> None" for a b
    using that by (auto simp: grows_def)
  have no: "\<not> over l a" if "grows a b" "\<not> over l b" "l = None \<or> b \<noteq> None" for l a b
    using that grows_over [of a b l] over_None(1) [of a] by blast
  have tok: "tokens ?m \<noteq> None \<Longrightarrow> input_tokens ?m \<noteq> None \<and> output_tokens ?m \<noteq> None"
    using ok by (auto simp: meter_ok_def)
  show ?thesis
    unfolding exceeded_None_iff
  proof (intro conjI)
    show "case deadline m of Some dl \<Rightarrow> now < dl | None \<Rightarrow> True"
      using e assms(3) by (auto split: option.splits)
    show "max_cost_usd_nanos (limits m) = None \<or> cost_usd_nanos m \<noteq> None"
      using e known [OF g(4)] by blast
    show "\<not> over (max_cost_usd_nanos (limits m)) (cost_usd_nanos m)"
      using e by (intro no [OF g(4)]) blast+
    show "max_total_tokens (limits m) = None \<and> max_input_tokens (limits m) = None
        \<and> max_output_tokens (limits m) = None \<or> tokens m \<noteq> None"
      using e known [OF g(1)] by blast
    show "\<not> over (max_total_tokens (limits m)) (tokens m)"
      using e by (intro no [OF g(1)]) blast+
    show "\<not> over (max_input_tokens (limits m)) (input_tokens m)"
      using e tok by (intro no [OF g(2)]) blast+
    show "\<not> over (max_output_tokens (limits m)) (output_tokens m)"
      using e tok by (intro no [OF g(3)]) blast+
  qed (use e g(5-7) over_le in blast)+
qed

section \<open>Properties\<close>

text \<open>A run never takes more model turns than \<open>max_model_turns\<close> allows, the turn
  of the final response included.\<close>

lemma turn_limit_respected:
  assumes "max_model_turns (limits m) = Some l" and "turns m \<le> l"
  shows "turns (fst (drive m ts)) \<le> l"
  using assms
proof (induction ts arbitrary: m)
  case (Cons t ts)
  obtain dec m1 where b: "before_turn m (ti_now t) (ti_tools t) = (dec, m1)" by fastforce
  from b show ?case
  proof (cases rule: before_turn_cases)
    case (stop x)
    with b Cons.prems show ?thesis by simp
  next
    case (final kind)
    let ?m = "charge_tool_calls 0 (charge_turn (ti_usage t) m1)"
    obtain dec2 m2 where b2: "before_turn ?m (ti_now t) 0 = (dec2, m2)" by fastforce
    then have "turns m2 = turns ?m" by (cases rule: before_turn_cases) auto
    moreover have "turns ?m \<le> l" using final Cons.prems by (simp add: sat_add_def)
    ultimately show ?thesis using b b2 final by (simp split: budget_decision.split)
  next
    case go
    with b Cons.prems show ?thesis
      using Cons.IH [of "charge_full_turn t m1"] by simp
  qed
qed simp

text \<open>When each turn makes at most the number of tool calls it announced, the
  accepted tool calls of a run never pass \<open>max_tool_calls\<close>.\<close>

lemma tool_call_limit_respected:
  assumes "max_tool_calls (limits m) = Some l" and "tool_calls m \<le> l"
    and "\<forall>t \<in> set ts. ti_calls t \<le> ti_tools t"
  shows "tool_calls (fst (drive m ts)) \<le> l"
  using assms
proof (induction ts arbitrary: m)
  case (Cons t ts)
  obtain dec m1 where b: "before_turn m (ti_now t) (ti_tools t) = (dec, m1)" by fastforce
  from b show ?case
  proof (cases rule: before_turn_cases)
    case (stop x)
    with b Cons.prems show ?thesis by simp
  next
    case (final kind)
    let ?m = "charge_tool_calls 0 (charge_turn (ti_usage t) m1)"
    obtain dec2 m2 where b2: "before_turn ?m (ti_now t) 0 = (dec2, m2)" by fastforce
    then have "tool_calls m2 = tool_calls ?m" by (cases rule: before_turn_cases) auto
    moreover have "tool_calls ?m \<le> l"
      using final Cons.prems by (simp add: charge_tool_calls_def sat_add_def)
    ultimately show ?thesis using b b2 final by (simp split: budget_decision.split)
  next
    case go
    have "sat_add u32_max (tool_calls m) (min (ti_calls t) u32_max)
        \<le> sat_add u32_max (tool_calls m) (min (ti_tools t) u32_max)"
      using Cons.prems(3) by (intro sat_add_mono) (simp add: min.coboundedI1)
    with go Cons.prems have "tool_calls (charge_full_turn t m1) \<le> l" by simp
    with b go Cons.prems show ?thesis
      using Cons.IH [of "charge_full_turn t m1"] by simp
  qed
qed simp

text \<open>The \<open>unreachable!\<close> arms of the run loop are unreachable: after a final
  response was requested, \<open>before_turn\<close> always settles the run.\<close>

lemma final_response_settles: "snd (drive m ts) \<noteq> Unreachable"
proof (induction ts arbitrary: m)
  case (Cons t ts)
  obtain dec m1 where b: "before_turn m (ti_now t) (ti_tools t) = (dec, m1)" by fastforce
  from b show ?case
  proof (cases rule: before_turn_cases)
    case (final kind)
    let ?m = "charge_tool_calls 0 (charge_turn (ti_usage t) m1)"
    have "final_response_requested ?m = Some kind" using final by simp
    with b final show ?thesis by (simp add: before_turn_def Let_def)
  qed (use b Cons.IH in simp_all)
qed simp

lemma exceeded_run:
  "meter_ok m \<Longrightarrow> exceeded (foldl charge_step m ds) now' = None \<Longrightarrow> now \<le> now' \<Longrightarrow>
     exceeded m now = None"
proof (induction ds arbitrary: m now)
  case Nil
  then have "exceeded m now' = None" by simp
  with Nil.prems(3) show ?case by (auto simp: exceeded_None_iff split: option.splits)
next
  case (Cons d ds)
  have "exceeded (charge_step m d) now' = None"
    using Cons.prems by (rule_tac Cons.IH) (simp_all add: charge_step_ok)
  with Cons.prems(1,3) show ?case by (blast intro: charge_step_exceeded)
qed

text \<open>A budget that is exceeded stays exceeded: no later charge and no later
  time brings a run back under its limits, even when counters saturate or become unknown.\<close>

lemma exceeded_persists:
  assumes "exceeded (foldl charge_step (BudgetMeter_new l p t0) cs) now \<noteq> None" and "now \<le> now'"
  shows "exceeded (foldl charge_step (BudgetMeter_new l p t0) (cs @ ds)) now' \<noteq> None"
proof
  let ?m = "foldl charge_step (BudgetMeter_new l p t0) cs"
  assume "exceeded (foldl charge_step (BudgetMeter_new l p t0) (cs @ ds)) now' = None"
  then have "exceeded (foldl charge_step ?m ds) now' = None"
    by (simp only: meter.run_append)
  moreover have "meter_ok ?m" by (rule meter.run_inv) (rule meter_ok_new)
  ultimately have "exceeded ?m now = None" using assms(2) by (rule_tac exceeded_run)
  with assms(1) show False by simp
qed

text \<open>C11 (refinement). The price of a turn is the exact sum of its four products at the rates
  of the tier its input falls in; the guarded 128-bit steps never change it, and the result
  is unknown only when a needed cache rate is missing or a total does not fit 64 bits.\<close>

definition tier_for :: "model_pricing \<Rightarrow> nat \<Rightarrow> model_pricing_tier option" where
  "tier_for p n = (case context_tier p of
     Some t \<Rightarrow> if n > above_input_tokens t then Some t else None | None \<Rightarrow> None)"

definition or_else :: "'a option \<Rightarrow> 'a option \<Rightarrow> 'a option" where
  "or_else a b = (case a of Some x \<Rightarrow> Some x | None \<Rightarrow> b)"

definition exact_cost :: "token_usage \<Rightarrow> model_pricing \<Rightarrow> nat option" where
  "exact_cost u p =
     (let n = u_input_tokens u + u_cache_read_input_tokens u + u_cache_write_input_tokens u;
          t = tier_for p n;
          i = (case t of Some x \<Rightarrow> tier_input_rate x | None \<Rightarrow> input_rate p);
          out = (case t of Some x \<Rightarrow> tier_output_rate x | None \<Rightarrow> output_rate p);
          r = or_else (Option.bind t tier_cache_read_rate) (cache_read_rate p);
          w = or_else (Option.bind t tier_cache_write_rate) (cache_write_rate p);
          cost = u_input_tokens u * i + u_output_tokens u * out
            + u_cache_read_input_tokens u * or_default r
            + u_cache_write_input_tokens u * or_default w
      in if n \<le> u64_max \<and> (u_cache_read_input_tokens u = 0 \<or> r \<noteq> None)
            \<and> (u_cache_write_input_tokens u = 0 \<or> w \<noteq> None) \<and> cost \<le> u64_max
         then Some cost else None)"

lemma checked_sum:
  "Option.bind (checked_mul u128_max a1 b1) (\<lambda>a.
   Option.bind (checked_mul u128_max a2 b2) (\<lambda>b.
   Option.bind (checked_add u128_max a b) (\<lambda>ab.
   Option.bind (checked_mul u128_max a3 b3) (\<lambda>c.
   Option.bind (checked_add u128_max ab c) (\<lambda>abc.
   Option.bind (checked_mul u128_max a4 b4) (\<lambda>d.
   Option.bind (checked_add u128_max abc d) (\<lambda>cost.
     if cost \<le> u64_max then Some cost else None))))))) =
   (let cost = a1 * b1 + a2 * b2 + a3 * b3 + a4 * b4 in if cost \<le> u64_max then Some cost else None)"
proof -
  have le: "u64_max \<le> u128_max" by (simp add: u64_max_def u128_max_def)
  show ?thesis
  proof (cases "a1 * b1 + a2 * b2 + a3 * b3 + a4 * b4 \<le> u64_max")
    case True
    then have "a1 * b1 \<le> u128_max" "a2 * b2 \<le> u128_max" "a3 * b3 \<le> u128_max" "a4 * b4 \<le> u128_max"
      "a1 * b1 + a2 * b2 \<le> u128_max" "a1 * b1 + a2 * b2 + a3 * b3 \<le> u128_max"
      "a1 * b1 + a2 * b2 + a3 * b3 + a4 * b4 \<le> u128_max"
      using le by linarith+
    with True show ?thesis by (simp add: checked_mul_def checked_add_def)
  next
    case False
    then show ?thesis by (simp add: checked_mul_def checked_add_def)
  qed
qed

lemma bind_rates:
  "Option.bind (if cr = 0 then Some 0 else r) (\<lambda>rr. Option.bind (if cw = 0 then Some 0 else w) (\<lambda>wr.
     let cost = x + cr * rr + cw * wr in if cost \<le> m then Some cost else None)) =
   (if (cr = 0 \<or> r \<noteq> None) \<and> (cw = 0 \<or> w \<noteq> None) \<and> x + cr * or_default r + cw * or_default w \<le> m
    then Some (x + cr * or_default r + cw * or_default w) else None)" for cr cw x m :: nat
  by (cases "cr = 0"; cases "cw = 0"; cases r; cases w) (simp_all add: Let_def)

theorem run_cost_exact: "run_cost u p = exact_cost u p"
proof -
  let ?n1 = "u_input_tokens u + u_cache_read_input_tokens u"
  let ?n = "?n1 + u_cache_write_input_tokens u"
  show ?thesis
  proof (cases "?n \<le> u64_max")
    case False
    then show ?thesis by (simp add: run_cost_def exact_cost_def checked_add_def Let_def)
  next
    case True
    then have n: "checked_add u64_max (u_input_tokens u) (u_cache_read_input_tokens u) = Some ?n1"
      "checked_add u64_max ?n1 (u_cache_write_input_tokens u) = Some ?n"
      by (simp_all add: checked_add_def)
    show ?thesis
      unfolding run_cost_def checked_sum n bind.bind_lunit tier_for_def [symmetric]
        or_else_def [symmetric] Let_def [of "tier_for _ _"] Let_def [of "case _ of None \<Rightarrow> _ | Some _ \<Rightarrow> _"]
        Let_def [of "or_else _ _"] bind_rates
      using True by (simp add: exact_cost_def Let_def)
  qed
qed

lemma remaining_Ok:
  assumes "remaining m now = Ok grant"
  shows "case deadline m of Some d \<Rightarrow> now < d | None \<Rightarrow> True"
    "case max_cost_usd_nanos (limits m) of
       Some l \<Rightarrow> (\<exists>s. cost_usd_nanos m = Some s \<and> s < l \<and> max_cost_usd_nanos grant = Some (l - s))
     | None \<Rightarrow> True"
    "remaining_tokens (max_total_tokens (limits m)) (tokens m) TotalTokens = Ok (max_total_tokens grant)"
    "remaining_tokens (max_input_tokens (limits m)) (input_tokens m) InputTokens = Ok (max_input_tokens grant)"
    "remaining_tokens (max_output_tokens (limits m)) (output_tokens m) OutputTokens = Ok (max_output_tokens grant)"
  using assms by (auto simp: remaining_def Let_def split: sum.splits option.splits if_splits)

lemma remaining_tokens_spend:
  assumes "remaining_tokens limit spent kind = Ok left" and "\<forall>x. left = Some x \<longrightarrow> k \<le> x"
  shows "limit = None \<or> (\<exists>s. spent = Some s \<and> \<not> over limit (Some (sat_add u64_max s k)))"
  using assms by (auto simp: remaining_tokens_def over_def sat_add_def split: option.splits if_splits)

text \<open>Delegation keeps the budget: a child that spends no more than the limits
  \<open>remaining\<close> granted it leaves its parent within every token, cost and time limit.\<close>

lemma child_spend_within_budget:
  assumes "meter_ok m" and "remaining m now = Ok grant"
    and "\<forall>x. max_total_tokens grant = Some x \<longrightarrow> usage_input u + u_output_tokens u \<le> x"
    and "\<forall>x. max_input_tokens grant = Some x \<longrightarrow> usage_input u \<le> x"
    and "\<forall>x. max_output_tokens grant = Some x \<longrightarrow> u_output_tokens u \<le> x"
    and "\<forall>x. max_cost_usd_nanos grant = Some x \<longrightarrow> c \<le> x"
    and "\<forall>x. max_cost_usd_nanos (limits m) = Some x \<longrightarrow> x \<le> u64_max"
  shows "exceeded (charge_child (Some u) (Some c) m) now
     \<in> {None, Some ToolOutputBytes, Some ToolCalls, Some ModelTurns}"
proof -
  let ?m = "charge_child (Some u) (Some c) m"
  have dl: "deadline ?m = deadline m" by (simp add: deadline_def)
  note grant = remaining_Ok [OF assms(2)]
  have time: "case deadline m of Some d \<Rightarrow> now < d | None \<Rightarrow> True" by (rule grant(1))
  have "cost_usd_nanos ?m = (case cost_usd_nanos m of Some s \<Rightarrow> checked_add u64_max s c | None \<Rightarrow> None)"
    by (simp add: charge_child_def split: option.split)
  with grant(2) assms(6,7) have cost: "max_cost_usd_nanos (limits m) = None \<or>
      (\<exists>s. cost_usd_nanos ?m = Some s \<and> \<not> over (max_cost_usd_nanos (limits m)) (Some s))"
    by (auto simp: checked_add_def over_def split: option.splits)
  have tot: "max_total_tokens (limits m) = None \<or>
      (\<exists>s. tokens ?m = Some s \<and> \<not> over (max_total_tokens (limits m)) (Some s))"
    using remaining_tokens_spend [OF grant(3) assms(3)]
    by (auto simp: charge_child_def charge_tokens_def sat_add_assoc)
  have inp: "max_input_tokens (limits m) = None \<or>
      (\<exists>s. input_tokens ?m = Some s \<and> \<not> over (max_input_tokens (limits m)) (Some s))"
    using remaining_tokens_spend [OF grant(4) assms(4)]
    by (auto simp: charge_child_def charge_tokens_def)
  have out: "max_output_tokens (limits m) = None \<or>
      (\<exists>s. output_tokens ?m = Some s \<and> \<not> over (max_output_tokens (limits m)) (Some s))"
    using remaining_tokens_spend [OF grant(5) assms(5)]
    by (auto simp: charge_child_def charge_tokens_def)
  have "meter_ok ?m" using assms(1) charge_step_ok [of m "ChargeChild (Some u) (Some c)"] by simp
  then have known: "tokens ?m = None \<longleftrightarrow> input_tokens ?m = None" "tokens ?m = None \<longleftrightarrow> output_tokens ?m = None"
    by (auto simp: meter_ok_def)
  have "\<not> (case deadline ?m of Some d \<Rightarrow> now \<ge> d | None \<Rightarrow> False)"
    using time dl by (auto split: option.splits)
  moreover have "\<not> (max_cost_usd_nanos (limits m) \<noteq> None \<and> cost_usd_nanos ?m = None)"
    "\<not> over (max_cost_usd_nanos (limits m)) (cost_usd_nanos ?m)"
    using cost by auto
  moreover have "\<not> ((max_total_tokens (limits m) \<noteq> None \<or> max_input_tokens (limits m) \<noteq> None
      \<or> max_output_tokens (limits m) \<noteq> None) \<and> tokens ?m = None)"
    using tot inp out known by auto
  moreover have "\<not> over (max_total_tokens (limits m)) (tokens ?m)"
    "\<not> over (max_input_tokens (limits m)) (input_tokens ?m)"
    "\<not> over (max_output_tokens (limits m)) (output_tokens ?m)"
    using tot inp out by auto
  ultimately show ?thesis
    unfolding exceeded_def Let_def charge_child_frame by (simp only: if_False) simp
qed

section \<open>Witnesses\<close>

definition unlimited :: run_limits where
  "unlimited = \<lparr>max_duration_ms = None, max_model_turns = None, max_tool_calls = None,
     max_total_tokens = None, max_cost_usd_nanos = None, max_input_tokens = None,
     max_output_tokens = None, max_tool_output_bytes = None, max_children = None,
     max_concurrent_children = None\<rparr>"

definition plain_turn :: turn_input where
  "plain_turn = \<lparr>ti_now = 0, ti_tools = 2, ti_usage = Some \<lparr>u_input_tokens = 10,
     u_cache_read_input_tokens = 0, u_cache_write_input_tokens = 0, u_output_tokens = 5,
     u_reasoning_tokens = None\<rparr>, ti_calls = 2, ti_outputs = [7], ti_children = []\<rparr>"

lemma turn_limit_respected_witness:
  "turns (fst (drive (BudgetMeter_new (unlimited\<lparr>max_model_turns := Some 3\<rparr>) None 0)
     (replicate 9 plain_turn))) \<le> 3"
  by (rule turn_limit_respected) (simp_all add: BudgetMeter_new_def)

lemma tool_call_limit_respected_witness:
  "tool_calls (fst (drive (BudgetMeter_new (unlimited\<lparr>max_tool_calls := Some 5\<rparr>) None 0)
     (replicate 9 plain_turn))) \<le> 5"
  by (rule tool_call_limit_respected) (simp_all add: BudgetMeter_new_def plain_turn_def)

lemma exceeded_persists_witness:
  "exceeded (foldl charge_step (BudgetMeter_new (unlimited\<lparr>max_total_tokens := Some 9\<rparr>) None 0)
     ([ChargeTurn (ti_usage plain_turn)] @ [ChargeTurn None])) 5 \<noteq> None"
  by (rule exceeded_persists [where now = 3])
     (simp_all add: BudgetMeter_new_def unlimited_def plain_turn_def exceeded_def deadline_def
       charge_turn_def charge_tokens_def usage_input_def over_def arith_defs)

lemma child_spend_within_budget_witness:
  "exceeded (charge_child (ti_usage plain_turn) (Some 4)
     (BudgetMeter_new (unlimited\<lparr>max_total_tokens := Some 20, max_cost_usd_nanos := Some 9\<rparr>) None 0)) 7
     \<in> {None, Some ToolOutputBytes, Some ToolCalls, Some ModelTurns}"
proof -
  let ?m = "BudgetMeter_new (unlimited\<lparr>max_total_tokens := Some 20, max_cost_usd_nanos := Some 9\<rparr>) None 0"
  have "remaining ?m 7 = Ok (unlimited\<lparr>max_total_tokens := Some 20, max_cost_usd_nanos := Some 9\<rparr>)"
    by (simp add: remaining_def remaining_tokens_def BudgetMeter_new_def unlimited_def deadline_def)
  from child_spend_within_budget [OF meter_ok_new this, where c = 4 and u = "the (ti_usage plain_turn)"]
  show ?thesis
    by (simp add: plain_turn_def unlimited_def usage_input_def BudgetMeter_new_def arith_defs)
qed

end
