(* ===== verification/Stall.thy ===== *)
theory Stall
  imports Prelude
begin

text \<open>
  The stall scope of a run (\<^verbatim>\<open>crates/qq-core/src/runtime/progress.rs\<close>): how many settled tool
  calls have passed since the last real work, when the agent is made to report, and when a
  sub-agent that reported three times without work is made to give its final answer.

  The last section adds the part of the turn loop (\<^verbatim>\<open>runtime/run_loop.rs\<close>) that asks \<open>due\<close>
  before a turn and calls \<open>reported\<close> and \<open>settled\<close> after it.
\<close>

section \<open>The scope\<close>

definition STALL_REPORT_CALLS :: nat where "STALL_REPORT_CALLS = 64"
definition MAX_CHILD_REPORTS_WITHOUT_WORK :: nat where "MAX_CHILD_REPORTS_WITHOUT_WORK = 3"

lemmas stall_consts = STALL_REPORT_CALLS_def MAX_CHILD_REPORTS_WITHOUT_WORK_def

datatype report_due = NoReport | Report | FinalAnswer

datatype stall_policy = Root | Subagent | Exempt

datatype turn_notice = NoticeReport | StallReport | RootStallReport | NoticeFinalAnswer | Continuation

record stall_scope =
  policy :: stall_policy
  calls_since_progress :: nat
  reports_without_work :: nat

definition StallScope_new :: "stall_policy \<Rightarrow> stall_scope" where
  "StallScope_new p = \<lparr>policy = p, calls_since_progress = 0, reports_without_work = 0\<rparr>"

fun notice_of_policy :: "stall_policy \<Rightarrow> turn_notice" where
  "notice_of_policy Root = RootStallReport"
| "notice_of_policy Subagent = StallReport"
| "notice_of_policy Exempt = StallReport"

definition stall_report_notice :: "stall_scope \<Rightarrow> turn_notice" where
  "stall_report_notice s = notice_of_policy (policy s)"

definition progress :: "stall_scope \<Rightarrow> stall_scope" where
  "progress s = s\<lparr>calls_since_progress := 0, reports_without_work := 0\<rparr>"

definition settled :: "bool \<Rightarrow> stall_scope \<Rightarrow> stall_scope" where
  "settled work s =
     (if work then progress s
      else s\<lparr>calls_since_progress := sat_add u32_max (calls_since_progress s) 1\<rparr>)"

definition due :: "stall_scope \<Rightarrow> bool \<Rightarrow> report_due" where
  "due s slice_checkpoint =
     (let report = slice_checkpoint
            \<or> (policy s \<noteq> Exempt \<and> calls_since_progress s \<ge> STALL_REPORT_CALLS)
      in if \<not> report then NoReport
         else if policy s = Subagent \<and> reports_without_work s \<ge> MAX_CHILD_REPORTS_WITHOUT_WORK
         then FinalAnswer
         else Report)"

definition reported :: "stall_scope \<Rightarrow> stall_scope" where
  "reported s = s\<lparr>calls_since_progress := 0,
                 reports_without_work := sat_add u8_max (reports_without_work s) 1\<rparr>"

section \<open>The report decision of a turn\<close>

text \<open>
  The decision before a turn: a budget that allows one last response asks for no report, a
  notice already placed in this slice is asked for again, and otherwise the scope decides.
\<close>

definition turn_report_due ::
  "bool \<Rightarrow> turn_notice option \<Rightarrow> bool \<Rightarrow> stall_scope \<Rightarrow> report_due" where
  "turn_report_due budget_final_turn placed slice_checkpoint s =
     (if budget_final_turn then NoReport
      else case placed of
        Some NoticeFinalAnswer \<Rightarrow> FinalAnswer
      | Some NoticeReport \<Rightarrow> Report
      | Some StallReport \<Rightarrow> Report
      | Some RootStallReport \<Rightarrow> Report
      | Some Continuation \<Rightarrow> due s slice_checkpoint
      | None \<Rightarrow> due s slice_checkpoint)"

text \<open>The notice put before the model's turn, and the one then remembered as placed.\<close>

definition turn_notice_for ::
  "bool \<Rightarrow> turn_notice option \<Rightarrow> bool \<Rightarrow> bool \<Rightarrow> stall_scope
   \<Rightarrow> turn_notice option \<times> turn_notice option" where
  "turn_notice_for budget_final_turn placed slice_checkpoint continuing s =
     (let r = turn_report_due budget_final_turn placed slice_checkpoint s;
          slice_report = (case placed of Some p \<Rightarrow> p = NoticeReport | None \<Rightarrow> slice_checkpoint)
      in if r \<noteq> NoReport \<and> placed = None then
           let n = (if r = FinalAnswer then NoticeFinalAnswer
                    else if slice_report then NoticeReport
                    else stall_report_notice s)
           in (Some n, Some n)
         else if continuing \<and> \<not> budget_final_turn \<and> r \<noteq> FinalAnswer then (Some Continuation, placed)
         else (None, placed))"

section \<open>Events of a scope\<close>

datatype stall_event = Settled bool | Progressed | Reported

fun stall_step :: "stall_scope \<Rightarrow> stall_event \<Rightarrow> stall_scope" where
  "stall_step s (Settled w) = settled w s"
| "stall_step s Progressed = progress s"
| "stall_step s Reported = reported s"

fun is_work :: "stall_event \<Rightarrow> bool" where
  "is_work (Settled w) = w"
| "is_work Progressed = True"
| "is_work Reported = False"

lemmas stall_defs = settled_def progress_def reported_def StallScope_new_def

lemma stall_step_frame [simp]: "policy (stall_step s e) = policy s"
  by (cases e) (simp_all add: stall_defs)

lemma stall_run_policy [simp]: "policy (foldl stall_step s es) = policy s"
  by (induction es arbitrary: s) simp_all

text \<open>The events since the last work, and what the two counters say of them.\<close>

definition idle_tail :: "stall_event list \<Rightarrow> stall_event list" where
  "idle_tail es = rev (takeWhile (\<lambda>e. \<not> is_work e) (rev es))"

lemma idle_tail_snoc [simp]:
  "idle_tail (es @ [e]) = (if is_work e then [] else idle_tail es @ [e])"
  by (simp add: idle_tail_def)

definition reports_in :: "stall_event list \<Rightarrow> nat" where
  "reports_in es = length (filter (\<lambda>e. e = Reported) es)"

definition calls_in :: "stall_event list \<Rightarrow> nat" where
  "calls_in es = length (takeWhile (\<lambda>e. e \<noteq> Reported) (rev es))"

lemma stall_counters:
  "reports_without_work (foldl stall_step (StallScope_new p) es) = min u8_max (reports_in (idle_tail es))
   \<and> calls_since_progress (foldl stall_step (StallScope_new p) es) = min u32_max (calls_in (idle_tail es))"
proof (induction es rule: rev_induct)
  case Nil
  then show ?case by (simp add: stall_defs idle_tail_def reports_in_def calls_in_def)
next
  case (snoc e es)
  then show ?case
    by (cases e) (auto simp: stall_defs reports_in_def calls_in_def sat_add_def arith_defs)
qed

text \<open>Over every sequence of settled calls, progress and reports, a final
  answer is demanded exactly from a sub-agent that has reported at least three times since its
  last work and is due again, by 64 calls since the last report or by a slice checkpoint; a
  root run and an exempt run are never ended for a stall.\<close>

lemma final_answer_iff:
  "due (foldl stall_step (StallScope_new p) es) checkpoint = FinalAnswer \<longleftrightarrow>
   p = Subagent \<and> reports_in (idle_tail es) \<ge> 3 \<and> (checkpoint \<or> calls_in (idle_tail es) \<ge> 64)"
  using stall_counters [of p es]
  by (auto simp: due_def Let_def stall_consts StallScope_new_def arith_defs)

section \<open>The loop around the scope\<close>

text \<open>
  One turn of the run as the scope sees it: whether the slice is full, and for each of its
  settled calls whether it was work. A turn that reports calls \<open>reported\<close> when the model's
  message has arrived and settles its calls after that; a turn asked for the final answer ends
  the run.
\<close>

record stall_turn =
  st_checkpoint :: bool
  st_calls :: "bool list"

fun stall_drive :: "stall_scope \<Rightarrow> stall_turn list \<Rightarrow> stall_scope \<times> bool" where
  "stall_drive s [] = (s, False)"
| "stall_drive s (t # ts) =
     (case due s (st_checkpoint t) of
        FinalAnswer \<Rightarrow> (s, True)
      | Report \<Rightarrow> stall_drive (fold settled (st_calls t) (reported s)) ts
      | NoReport \<Rightarrow> stall_drive (fold settled (st_calls t) s) ts)"

definition stall_fuel :: "stall_scope \<Rightarrow> nat" where
  "stall_fuel s = (3 - reports_without_work s) * 65 + (64 - calls_since_progress s)"

lemma fold_settled_idle:
  "\<forall>w \<in> set ws. \<not> w \<Longrightarrow> calls_since_progress s \<le> u32_max \<Longrightarrow>
   fold settled ws s = s\<lparr>calls_since_progress := sat_add u32_max (calls_since_progress s) (length ws)\<rparr>"
  by (induction ws arbitrary: s) (auto simp: settled_def sat_add_def)

lemma stall_fuel_settled:
  assumes "\<forall>w \<in> set ws. \<not> w" and "ws \<noteq> []" and "calls_since_progress s < 64"
  shows "stall_fuel (fold settled ws s) < stall_fuel s"
proof -
  have "calls_since_progress s < sat_add u32_max (calls_since_progress s) (length ws)"
    using assms(2,3) by (cases ws) (simp_all add: sat_add_def arith_defs)
  moreover have "calls_since_progress s \<le> u32_max" using assms(3) by (simp add: arith_defs)
  ultimately show ?thesis
    using assms(3) by (simp add: fold_settled_idle [OF assms(1)] stall_fuel_def)
qed

lemma stall_fuel_reported:
  assumes "\<forall>w \<in> set ws. \<not> w" and "reports_without_work s < 3"
  shows "stall_fuel (fold settled ws (reported s)) < stall_fuel s"
proof -
  have "stall_fuel (fold settled ws (reported s)) \<le> (3 - (reports_without_work s + 1)) * 65 + 64"
    using assms(2)
    by (simp add: fold_settled_idle [OF assms(1)] stall_fuel_def reported_def sat_add_def u8_max_def)
  also have "\<dots> < (3 - reports_without_work s) * 65" using assms(2) by simp
  also have "\<dots> \<le> stall_fuel s" by (simp add: stall_fuel_def)
  finally show ?thesis .
qed

lemma policy_fold_settled [simp]: "policy (fold settled ws s) = policy s"
  by (induction ws arbitrary: s) (simp_all add: stall_defs)

lemma policy_reported [simp]: "policy (reported s) = policy s"
  by (simp add: reported_def)

lemma stall_drive_ends:
  assumes "policy s = Subagent" and "\<forall>t \<in> set ts. st_calls t \<noteq> [] \<and> True \<notin> set (st_calls t)"
    and "stall_fuel s < length ts"
  shows "snd (stall_drive s ts)"
  using assms
proof (induction ts arbitrary: s)
  case Nil
  then show ?case by simp
next
  case (Cons t ts)
  have idle: "\<forall>w \<in> set (st_calls t). \<not> w" "st_calls t \<noteq> []" using Cons.prems(2) by auto
  show ?case
  proof (cases "due s (st_checkpoint t)")
    case FinalAnswer
    then show ?thesis by simp
  next
    case Report
    then have "reports_without_work s < 3"
      using Cons.prems(1) by (auto simp: due_def Let_def stall_consts split: if_splits)
    from stall_fuel_reported [OF idle(1) this] show ?thesis
      using Report Cons by simp
  next
    case NoReport
    then have "calls_since_progress s < 64"
      using Cons.prems(1) by (auto simp: due_def Let_def stall_consts split: if_splits)
    from stall_fuel_settled [OF idle this] show ?thesis
      using NoReport Cons by simp
  qed
qed

text \<open>A sub-agent whose turns keep calling tools without doing any work is made
  to give its final answer within 260 turns.\<close>

lemma stalled_subagent_answers:
  assumes "\<forall>t \<in> set ts. st_calls t \<noteq> [] \<and> True \<notin> set (st_calls t)" and "length ts \<ge> 260"
  shows "snd (stall_drive (StallScope_new Subagent) ts)"
  by (rule stall_drive_ends) (use assms in \<open>simp_all add: StallScope_new_def stall_fuel_def\<close>)

lemma stalled_subagent_answers_witness:
  "snd (stall_drive (StallScope_new Subagent)
     (replicate 260 \<lparr>st_checkpoint = False, st_calls = [False]\<rparr>))"
  by (rule stalled_subagent_answers) simp_all

end
