(* ===== verification/Tool_Output.thy ===== *)
theory Tool_Output
  imports Rust_Str
begin

text \<open>
  Bounded tool output (\<^verbatim>\<open>crates/qq-core/src/tools/output.rs\<close>): what a tool returned is cut to
  a budget of JSON-escaped bytes, of lines and of bytes per line, keeping a head and a tail
  around one marker, and all results of a turn share one byte budget.

  Texts are byte lists; the offsets the code slices at are byte offsets. Subtractions on
  \<open>usize\<close> are natural subtractions here, and lemmas show that they never go below zero.
\<close>

section \<open>Bounds\<close>

definition MAX_MODEL_TEXT_BYTES :: nat where "MAX_MODEL_TEXT_BYTES = 128 * 1024"
definition MAX_MODEL_TEXT_LINES :: nat where "MAX_MODEL_TEXT_LINES = 4000"
definition MAX_LINE_BYTES :: nat where "MAX_LINE_BYTES = 2000"
definition MIN_MODEL_TEXT_BYTES :: nat where "MIN_MODEL_TEXT_BYTES = 4 * 1024"
definition MAX_TURN_TOOL_OUTPUT_BYTES :: nat where "MAX_TURN_TOOL_OUTPUT_BYTES = 96 * 1024"
definition DEFAULT_HEAD_RATIO :: nat where "DEFAULT_HEAD_RATIO = 50"
definition MARKER_RESERVE_BYTES :: nat where "MARKER_RESERVE_BYTES = 224"
definition MAX_SPILL_ITEM_BYTES :: nat where "MAX_SPILL_ITEM_BYTES = 8 * 1024 * 1024"
definition MAX_STUB_HEADER_BYTES :: nat where "MAX_STUB_HEADER_BYTES = 512"
definition CLIP_SUFFIX_RESERVE_BYTES :: nat where "CLIP_SUFFIX_RESERVE_BYTES = 16"

text \<open>The UTF-8 bytes of the horizontal ellipsis.\<close>

definition ELLIPSIS :: string where "ELLIPSIS = [CHR 0xE2, CHR 0x80, CHR 0xA6]"

definition NOT_STORED :: string where
  "NOT_STORED = ''; not stored]'' @ ELLIPSIS @ [CHR 0x0A]"

definition MARKER_PREFIX :: string where "MARKER_PREFIX = ELLIPSIS @ ''[qq: ''"

record bounds =
  max_bytes :: nat
  max_lines :: nat
  max_line_bytes :: nat
  head_ratio :: nat

definition Bounds_DEFAULT :: bounds where
  "Bounds_DEFAULT =
     \<lparr>max_bytes = MAX_MODEL_TEXT_BYTES, max_lines = MAX_MODEL_TEXT_LINES,
      max_line_bytes = MAX_LINE_BYTES, head_ratio = DEFAULT_HEAD_RATIO\<rparr>"

definition Bounds_new :: "nat \<Rightarrow> nat \<Rightarrow> bounds" where
  "Bounds_new mb ml =
     \<lparr>max_bytes = (if mb > MAX_MODEL_TEXT_BYTES then MAX_MODEL_TEXT_BYTES
                   else if mb < MIN_MODEL_TEXT_BYTES then MIN_MODEL_TEXT_BYTES else mb),
      max_lines = (if ml > MAX_MODEL_TEXT_LINES then MAX_MODEL_TEXT_LINES
                   else if ml = 0 then 1 else ml),
      max_line_bytes = MAX_LINE_BYTES, head_ratio = DEFAULT_HEAD_RATIO\<rparr>"

definition with_max_bytes :: "bounds \<Rightarrow> nat \<Rightarrow> bounds" where
  "with_max_bytes b mb = b\<lparr>max_bytes := mb\<rparr>"

record bounded_text =
  bt_text :: string
  omitted_bytes :: nat
  omitted_lines :: nat
  clipped_lines :: nat
  omitted_from_line :: nat

definition truncated :: "bounded_text \<Rightarrow> bool" where
  "truncated t \<longleftrightarrow> omitted_bytes t > 0 \<or> clipped_lines t > 0"

section \<open>The escaped size of a text\<close>

definition escaped_byte_len :: "char \<Rightarrow> nat" where
  "escaped_byte_len c =
     (let b = (of_char c :: nat) in
      if b \<in> {0x08, 0x09, 0x0A, 0x0C, 0x0D, 0x22, 0x5C} then 2 else if b < 0x20 then 6 else 1)"

definition escaped_len :: "string \<Rightarrow> nat" where
  "escaped_len s = sum_list (map escaped_byte_len s)"

lemma escaped_len_simps [simp]:
  "escaped_len [] = 0"
  "escaped_len (c # s) = escaped_byte_len c + escaped_len s"
  "escaped_len (s @ t) = escaped_len s + escaped_len t"
  by (simp_all add: escaped_len_def)

lemma escaped_byte_len_bounds: "1 \<le> escaped_byte_len c" "escaped_byte_len c \<le> 6"
  by (simp_all add: escaped_byte_len_def Let_def)

lemma escaped_len_bounds: "length s \<le> escaped_len s" "escaped_len s \<le> 6 * length s"
proof (induction s)
  case (Cons c s)
  { case 1 then show ?case using Cons escaped_byte_len_bounds [of c] by simp }
  { case 2 then show ?case using Cons escaped_byte_len_bounds [of c] by simp }
qed simp_all

lemma escaped_len_concat: "escaped_len (concat ls) = sum_list (map escaped_len ls)"
  by (induction ls) simp_all

section \<open>Does a text exceed its bounds?\<close>

fun exceeds_lines :: "bounds \<Rightarrow> nat \<Rightarrow> nat \<Rightarrow> string list \<Rightarrow> bool" where
  "exceeds_lines b n escaped [] = False"
| "exceeds_lines b n escaped (line # ls) =
     (let n = n + 1 in
      if n > max_lines b
         \<or> length line - (if ends_with line [CHR 0x0A] then 1 else 0) > max_line_bytes b then True
      else let escaped = escaped + escaped_len line in
           if escaped > max_bytes b then True else exceeds_lines b n escaped ls)"

definition exceeds :: "string \<Rightarrow> bounds \<Rightarrow> bool" where
  "exceeds s b =
     (if length s > max_bytes b then True
      else if min u64_max (length s * 6) \<le> max_bytes b \<and> length s \<le> max_line_bytes b
              \<and> length s \<le> max_lines b then False
      else exceeds_lines b 0 0 (split_inclusive s))"

section \<open>Lines within a budget\<close>

text \<open>How many bytes of a line fit the escaped budget.\<close>

fun clip_scan :: "nat \<Rightarrow> nat \<Rightarrow> nat \<Rightarrow> string \<Rightarrow> nat" where
  "clip_scan budget escaped fin [] = fin"
| "clip_scan budget escaped fin (c # cs) =
     (let escaped = escaped + escaped_byte_len c
      in if escaped > budget then fin else clip_scan budget escaped (fin + 1) cs)"

fun char_floor :: "string \<Rightarrow> nat \<Rightarrow> nat" where
  "char_floor s 0 = 0"
| "char_floor s (Suc n) = (if is_char_boundary s (Suc n) then Suc n else char_floor s n)"

text \<open>\<open>push_line\<close> gives the text it appended to, the escaped cost and whether it clipped.\<close>

definition push_line :: "string \<Rightarrow> string \<Rightarrow> nat \<Rightarrow> nat \<Rightarrow> (string \<times> nat \<times> bool) option" where
  "push_line out line mlb escaped_budget =
     (let (content, newline) = (case strip_suffix line [CHR 0x0A] of
            Some content \<Rightarrow> (content, [CHR 0x0A]) | None \<Rightarrow> (line, []))
      in if length content \<le> mlb \<and> escaped_len line \<le> escaped_budget
         then Some (out @ line, escaped_len line, False)
         else let content_budget = escaped_budget - CLIP_SUFFIX_RESERVE_BYTES;
                  fin = char_floor content (clip_scan content_budget 0 0 (take mlb content))
              in if fin = 0 then None
                 else let out' = out @ take fin content @ ELLIPSIS @ ''+''
                            @ nat_to_string (length content - fin) @ newline
                      in Some (out', escaped_len (drop (length out) out'), True))"

definition count_lines :: "string \<Rightarrow> nat" where
  "count_lines s = length (filter (\<lambda>c. c = CHR 0x0A) s)
     + (if s \<noteq> [] \<and> \<not> ends_with s [CHR 0x0A] then 1 else 0)"

text \<open>\<open>rfind('\n')\<close> on the bytes.\<close>

definition rfind_newline :: "string \<Rightarrow> nat option" where
  "rfind_newline s = map_option (\<lambda>i. length s - 1 - i) (position (\<lambda>c. c = CHR 0x0A) (rev s))"

definition last_line_start :: "string \<Rightarrow> nat" where
  "last_line_start s =
     (let body = (case strip_suffix s [CHR 0x0A] of Some t \<Rightarrow> t | None \<Rightarrow> s)
      in case rfind_newline body of None \<Rightarrow> 0 | Some i \<Rightarrow> i + 1)"

text \<open>Thousands separators.\<close>

fun group_digits :: "string \<Rightarrow> bool \<Rightarrow> string" where
  "group_digits [] first = []"
| "group_digits (d # ds) first =
     (if \<not> first \<and> (length ds + 1) mod 3 = 0 then CHR '','' # d # group_digits ds False
      else d # group_digits ds False)"

definition push_grouped :: "string \<Rightarrow> nat \<Rightarrow> string" where
  "push_grouped out n = out @ group_digits (nat_to_string n) True"

definition push_marker :: "string \<Rightarrow> nat \<Rightarrow> nat \<Rightarrow> string option \<Rightarrow> string" where
  "push_marker out omitted_b omitted_l note =
     (let out = (if out \<noteq> [] \<and> \<not> ends_with out [CHR 0x0A] then out @ [CHR 0x0A] else out);
          out = push_grouped (out @ MARKER_PREFIX) omitted_b @ '' bytes / '';
          out = push_grouped out omitted_l @ '' lines omitted'';
          out = (case note of Some n \<Rightarrow> out @ ''; '' @ n | None \<Rightarrow> out)
      in out @ NOT_STORED)"

section \<open>Head, marker and tail\<close>

record head_state =
  hs_text :: string
  hs_end :: nat
  hs_bytes :: nat
  hs_lines :: nat
  hs_clipped :: nat

fun head_loop :: "bounds \<Rightarrow> nat \<Rightarrow> head_state \<Rightarrow> string list \<Rightarrow> head_state" where
  "head_loop b budget h [] = h"
| "head_loop b budget h (line # ls) =
     (case push_line (hs_text h) line (max_line_bytes b) (budget - hs_bytes h) of
        None \<Rightarrow> h
      | Some (out, cost, clipped) \<Rightarrow>
          head_loop b budget
            \<lparr>hs_text = out, hs_end = hs_end h + length line, hs_bytes = hs_bytes h + cost,
             hs_lines = hs_lines h + 1, hs_clipped = hs_clipped h + of_bool clipped\<rparr> ls)"

lemma last_line_start_less:
  assumes "s \<noteq> []"
  shows "last_line_start s < length s"
proof (cases "strip_suffix s [CHR 0x0A]")
  case (Some t)
  then have "s = t @ [CHR 0x0A]" by (simp add: strip_suffix_Some_iff)
  then show ?thesis
    using Some position_Some_iff [of "\<lambda>c. c = CHR 0x0A" "rev t"]
    by (auto simp: last_line_start_def rfind_newline_def split: option.splits)
next
  case None
  have "last s \<noteq> CHR 0x0A"
  proof
    assume "last s = CHR 0x0A"
    then have "s = butlast s @ [CHR 0x0A]" using assms by (metis append_butlast_last_id)
    then show False using None strip_suffix_Some_iff [of s "[CHR 0x0A]" "butlast s"] by simp
  qed
  then have "rev s ! 0 \<noteq> CHR 0x0A" using assms by (simp add: rev_nth last_conv_nth)
  then have "0 < i \<and> i < length s" if "position (\<lambda>c. c = CHR 0x0A) (rev s) = Some i" for i
    using that position_Some_iff [of "\<lambda>c. c = CHR 0x0A" "rev s" i]
    by (metis (mono_tags, lifting) gr0I length_rev)
  then show ?thesis
    using None assms
    by (cases "position (\<lambda>c. c = CHR 0x0A) (rev s)")
       (auto simp: last_line_start_def rfind_newline_def)
qed

text \<open>
  The lines kept at the end, the last one first, each with the budget it was granted. The
  code starts with \<open>tail_start\<close> at the length of the text and only lowers it, so the guard
  \<open>tail_start \<le> length s\<close> is always true; it makes the recursion total on all arguments.
\<close>

function tail_loop ::
  "bounds \<Rightarrow> string \<Rightarrow> nat \<Rightarrow> nat \<Rightarrow> nat \<Rightarrow> nat \<Rightarrow> nat \<Rightarrow> (string \<times> nat) list \<Rightarrow> nat
   \<Rightarrow> nat \<times> (string \<times> nat) list \<times> nat \<times> nat" where
  "tail_loop b s head_end bytes_budget lines_budget tail_start tail_bytes tail_lines clipped =
     (if tail_start > head_end \<and> tail_start \<le> length s \<and> length tail_lines < lines_budget then
        let line_start = head_end + last_line_start (take (tail_start - head_end) (drop head_end s));
            line = take (tail_start - line_start) (drop line_start s);
            budget = bytes_budget - tail_bytes
        in case push_line [] line (max_line_bytes b) budget of
             None \<Rightarrow> (tail_start, tail_lines, tail_bytes, clipped)
           | Some (_, cost, cl) \<Rightarrow>
               tail_loop b s head_end bytes_budget lines_budget line_start (tail_bytes + cost)
                 (tail_lines @ [(line, budget)]) (clipped + of_bool cl)
      else (tail_start, tail_lines, tail_bytes, clipped))"
  by pat_completeness auto
termination
proof (relation "measure (\<lambda>(b, s, he, bb, lb, ts, tb, tl, cl). ts - he)", goal_cases)
  case (2 b s he bb lb ts tb tl cl ls line budget x a p y z)
  have "last_line_start (take (ts - he) (drop he s)) < length (take (ts - he) (drop he s))"
    by (rule last_line_start_less) (use 2(1) in simp)
  then show ?case using 2(1,2) by simp
qed simp

declare tail_loop.simps [simp del]

fun push_tail :: "nat \<Rightarrow> string \<Rightarrow> (string \<times> nat) list \<Rightarrow> string" where
  "push_tail mlb out [] = out"
| "push_tail mlb out ((line, budget) # ls) =
     push_tail mlb (case push_line out line mlb budget of Some (out', _) \<Rightarrow> out' | None \<Rightarrow> out) ls"

definition bound_text :: "string \<Rightarrow> bounds \<Rightarrow> string option \<Rightarrow> bounded_text" where
  "bound_text s b note =
     (if \<not> exceeds s b then
        \<lparr>bt_text = s, omitted_bytes = 0, omitted_lines = 0, clipped_lines = 0, omitted_from_line = 0\<rparr>
      else
        let ratio = min (head_ratio b) 100;
            budget_bytes = max_bytes b - MARKER_RESERVE_BYTES;
            head_bytes_budget = budget_bytes * ratio div 100;
            tail_bytes_budget = budget_bytes - head_bytes_budget;
            head_lines_budget = max_lines b * ratio div 100;
            tail_lines_budget = max_lines b - head_lines_budget;
            h = head_loop b head_bytes_budget
                  \<lparr>hs_text = [], hs_end = 0, hs_bytes = 0, hs_lines = 0, hs_clipped = 0\<rparr>
                  (take head_lines_budget (split_inclusive s));
            (tail_start, tail_lines, tail_bytes, clipped) =
              tail_loop b s (hs_end h) tail_bytes_budget tail_lines_budget (length s) 0 []
                (hs_clipped h);
            omitted = tail_start - hs_end h;
            omitted_l = (if omitted = 0 then 0
                         else count_lines (take omitted (drop (hs_end h) s)));
            out = (if omitted = 0 then hs_text h
                   else push_marker (hs_text h) omitted omitted_l note)
        in \<lparr>bt_text = push_tail (max_line_bytes b) out (rev tail_lines), omitted_bytes = omitted,
            omitted_lines = omitted_l, clipped_lines = clipped,
            omitted_from_line = (if omitted = 0 then 0 else hs_lines h + 1)\<rparr>)"

section \<open>The size test\<close>

definition line_len :: "string \<Rightarrow> nat" where
  "line_len l = length l - (if ends_with l [CHR 0x0A] then 1 else 0)"

lemma exceeds_lines_iff:
  "exceeds_lines b n e ls \<longleftrightarrow> ls \<noteq> [] \<and>
     (n + length ls > max_lines b \<or> (\<exists>l \<in> set ls. line_len l > max_line_bytes b)
      \<or> e + escaped_len (concat ls) > max_bytes b)"
proof (induction ls arbitrary: n e)
  case (Cons l ls)
  show ?case
    by (cases "ls = []") (auto simp: Cons.IH Let_def line_len_def add.assoc)
qed simp

lemma length_split_inclusive: "length (split_inclusive s) \<le> length s"
  by (induction s) (auto split: list.splits)

lemma length_in_concat: "l \<in> set ls \<Longrightarrow> length l \<le> length (concat ls)"
  by (induction ls) auto

lemma split_inclusive_line: "l \<in> set (split_inclusive s) \<Longrightarrow> length l \<le> length s"
  using length_in_concat [of l "split_inclusive s"] by simp

lemma exceeds_spec:
  assumes "6 * length s \<le> u64_max"
  shows "exceeds s b \<longleftrightarrow>
     escaped_len s > max_bytes b \<or> length (split_inclusive s) > max_lines b
     \<or> (\<exists>l \<in> set (split_inclusive s). line_len l > max_line_bytes b)"
proof (cases "length s > max_bytes b")
  case True
  then show ?thesis using escaped_len_bounds(1) [of s] by (simp add: exceeds_def)
next
  case False
  show ?thesis
  proof (cases "6 * length s \<le> max_bytes b \<and> length s \<le> max_line_bytes b \<and> length s \<le> max_lines b")
    case True
    have "line_len l \<le> max_line_bytes b" if "l \<in> set (split_inclusive s)" for l
      using split_inclusive_line [OF that] True by (auto simp: line_len_def)
    then show ?thesis
      using True False assms escaped_len_bounds(2) [of s] length_split_inclusive [of s]
      by (auto simp: exceeds_def not_less mult.commute)
  next
    case False': False
    have "exceeds s b = exceeds_lines b 0 0 (split_inclusive s)"
      using False False' assms by (auto simp: exceeds_def mult.commute min_def)
    then show ?thesis using False by (auto simp: exceeds_lines_iff)
  qed
qed

text \<open>The size test with its two shortcuts answers exactly whether the text
  has more escaped bytes, more lines or a longer line than the bounds allow.\<close>

lemma exceeds_iff:
  assumes "6 * length s \<le> u64_max"
  shows "exceeds s b \<longleftrightarrow>
     escaped_len s > max_bytes b \<or> length (split_inclusive s) > max_lines b
     \<or> (\<exists>l \<in> set (split_inclusive s). line_len l > max_line_bytes b)"
  using assms by (rule exceeds_spec)

lemma exceeds_iff_witness:
  "exceeds ''ab'' \<lparr>max_bytes = 9, max_lines = 1, max_line_bytes = 1, head_ratio = 50\<rparr>"
  using exceeds_iff [of "''ab''" "\<lparr>max_bytes = 9, max_lines = 1, max_line_bytes = 1, head_ratio = 50\<rparr>"]
  by (simp add: arith_defs line_len_def ends_with_def)

section \<open>The cost of a line\<close>

lemma clip_scan_fits:
  "e \<le> budget \<Longrightarrow> fin \<le> clip_scan budget e fin cs \<and>
     clip_scan budget e fin cs \<le> fin + length cs \<and>
     e + escaped_len (take (clip_scan budget e fin cs - fin) cs) \<le> budget"
proof (induction cs arbitrary: e fin)
  case (Cons c cs)
  show ?case
  proof (cases "e + escaped_byte_len c \<le> budget")
    case True
    let ?r = "clip_scan budget (e + escaped_byte_len c) (fin + 1) cs"
    note IH = Cons.IH [OF True, of "fin + 1"]
    then have "take (?r - fin) (c # cs) = c # take (?r - (fin + 1)) cs"
      by (simp add: take_Cons')
    with IH True show ?thesis by (simp add: Let_def)
  qed (use Cons.prems in \<open>simp add: Let_def\<close>)
qed simp

lemma char_floor_le: "char_floor s n \<le> n"
  by (induction n) auto

lemma char_floor_boundary: "is_char_boundary s (char_floor s n)"
  by (induction n) (auto simp: is_char_boundary_def)

lemma escaped_len_take_mono: "k \<le> n \<Longrightarrow> escaped_len (take k s) \<le> escaped_len (take n s)"
  by (metis escaped_len_simps(3) le_add1 le_add_diff_inverse take_add)

lemma length_nat_to_string: "n < 10 ^ k \<Longrightarrow> 0 < k \<Longrightarrow> length (nat_to_string n) \<le> k"
proof (induction k arbitrary: n)
  case (Suc k)
  show ?case
  proof (cases "n < 10")
    case False
    with Suc.prems have "n div 10 < 10 ^ k" and "0 < k" by (auto intro: gr0I)
    from Suc.IH [OF this] False show ?thesis by (simp add: nat_to_string.simps [of n])
  qed (simp add: nat_to_string.simps [of n])
qed simp

lemma escaped_digit: "is_ascii_digit c \<Longrightarrow> escaped_byte_len c = 1"
  by (auto simp: is_ascii_digit_def escaped_byte_len_def Let_def)

lemma escaped_len_digits: "list_all is_ascii_digit s \<Longrightarrow> escaped_len s = length s"
  by (induction s) (auto simp: escaped_digit)

lemma escaped_nat_to_string: "n < 10 ^ 10 \<Longrightarrow> escaped_len (nat_to_string n) \<le> 10"
  using length_nat_to_string [of n 10] escaped_len_digits [OF nat_to_string_digits [of n]] by simp

text \<open>What \<open>push_line\<close> appends, independent of what it appends to.\<close>

definition line_text :: "string \<Rightarrow> nat \<Rightarrow> nat \<Rightarrow> (string \<times> bool) option" where
  "line_text line mlb budget = map_option (\<lambda>(out, _, cl). (out, cl)) (push_line [] line mlb budget)"

lemma push_line_eq:
  "push_line out line mlb budget =
     map_option (\<lambda>(app, cl). (out @ app, escaped_len app, cl)) (line_text line mlb budget)"
  by (auto simp: push_line_def line_text_def Let_def split: option.split)

lemma line_text_fits:
  assumes "line_text line mlb budget = Some (app, cl)" and "length line < 10 ^ 10"
  shows "escaped_len app \<le> budget" and "\<not> cl \<longrightarrow> app = line"
proof -
  obtain content newline where split: "(case strip_suffix line [CHR 0x0A] of
      Some c \<Rightarrow> (c, [CHR 0x0A]) | None \<Rightarrow> (line, [])) = (content, newline)"
    by (metis surj_pair)
  then have len: "length content \<le> length line" and nl: "escaped_len newline \<le> 2"
    by (auto simp: strip_suffix_Some_iff escaped_byte_len_def split: option.splits)
  define cb where "cb = budget - CLIP_SUFFIX_RESERVE_BYTES"
  define scan where "scan = clip_scan cb 0 0 (take mlb content)"
  define fin where "fin = char_floor content scan"
  have whole: "app = line \<and> escaped_len line \<le> budget"
    if "length content \<le> mlb \<and> escaped_len line \<le> budget"
    using that assms(1) split by (simp add: line_text_def push_line_def)
  have clip: "fin \<noteq> 0 \<and> cl \<and> app = take fin content @ ELLIPSIS @ ''+''
      @ nat_to_string (length content - fin) @ newline"
    if "\<not> (length content \<le> mlb \<and> escaped_len line \<le> budget)"
    using that assms(1) split
    by (auto simp: line_text_def push_line_def Let_def cb_def scan_def fin_def split: if_splits)
  have fin: "fin \<le> scan" by (simp add: fin_def char_floor_le)
  have scan: "scan \<le> length (take mlb content)" "escaped_len (take scan (take mlb content)) \<le> cb"
    using clip_scan_fits [of 0 cb 0 "take mlb content"]
    unfolding scan_def [symmetric] add_0 diff_zero by blast+
  then have "take scan (take mlb content) = take scan content" by (simp add: min_absorb1)
  with scan(2) escaped_len_take_mono [OF fin, of content]
  have body: "escaped_len (take fin content) \<le> cb" by simp
  have "fin \<le> length content" using fin scan(1) by simp
  then have "fin \<le> cb" using body escaped_len_bounds(1) [of "take fin content"] by simp
  then have cb: "cb + 16 = budget" if "fin \<noteq> 0"
    using that by (simp add: cb_def CLIP_SUFFIX_RESERVE_BYTES_def)
  have digits: "escaped_len (nat_to_string (length content - fin)) \<le> 10"
    by (rule escaped_nat_to_string) (use assms(2) len in simp)
  have "escaped_len ELLIPSIS + escaped_len ''+'' = 4"
    by (simp add: ELLIPSIS_def escaped_byte_len_def)
  then have "escaped_len app \<le> cb + 16"
    if "\<not> (length content \<le> mlb \<and> escaped_len line \<le> budget)"
    using clip [OF that] body digits nl by simp
  with cb clip whole show "escaped_len app \<le> budget" by metis
  show "\<not> cl \<longrightarrow> app = line" using whole clip by blast
qed

section \<open>The head\<close>

lemma push_line_Some:
  assumes "push_line out line mlb budget = Some (out', cost, cl)" and "length line < 10 ^ 10"
  obtains app where "line_text line mlb budget = Some (app, cl)" "out' = out @ app"
    "cost = escaped_len app" "cost \<le> budget" "\<not> cl \<longrightarrow> app = line"
  using assms line_text_fits by (auto simp: push_line_eq)

text \<open>
  A head built by the loop: its cost is counted and within the budget, and it covers the
  first lines of the text, in full when none was clipped.
\<close>

definition head_ok :: "nat \<Rightarrow> string \<Rightarrow> head_state \<Rightarrow> bool" where
  "head_ok budget covered h \<longleftrightarrow>
     escaped_len (hs_text h) = hs_bytes h \<and> hs_bytes h \<le> budget \<and> hs_end h = length covered
     \<and> (hs_clipped h = 0 \<longrightarrow> hs_text h = covered)"

lemma head_loop_ok:
  "head_ok budget covered h \<Longrightarrow> \<forall>l \<in> set ls. length l < 10 ^ 10 \<Longrightarrow>
   \<exists>k. head_ok budget (covered @ concat (take k ls)) (head_loop b budget h ls)"
proof (induction ls arbitrary: h covered)
  case Nil
  then show ?case by simp
next
  case (Cons line ls)
  show ?case
  proof (cases "push_line (hs_text h) line (max_line_bytes b) (budget - hs_bytes h)")
    case None
    then show ?thesis using Cons.prems(1) by (intro exI [of _ 0]) simp
  next
    case (Some r)
    obtain out cost cl where r: "r = (out, cost, cl)" by (metis surj_pair)
    let ?h = "\<lparr>hs_text = out, hs_end = hs_end h + length line, hs_bytes = hs_bytes h + cost,
               hs_lines = hs_lines h + 1, hs_clipped = hs_clipped h + of_bool cl\<rparr>"
    obtain app where "out = hs_text h @ app" "cost = escaped_len app" "cost \<le> budget - hs_bytes h"
      "\<not> cl \<longrightarrow> app = line"
      using Some Cons.prems(2) unfolding r by (auto elim: push_line_Some)
    then have "head_ok budget (covered @ line) ?h"
      using Cons.prems(1) by (auto simp: head_ok_def)
    from Cons.IH [OF this] Cons.prems(2) obtain k where
      "head_ok budget ((covered @ line) @ concat (take k ls)) (head_loop b budget ?h ls)" by auto
    then show ?thesis using Some r by (intro exI [of _ "Suc k"]) simp
  qed
qed

section \<open>The tail\<close>

definition kept_text :: "nat \<Rightarrow> string \<times> nat \<Rightarrow> string" where
  "kept_text mlb = (\<lambda>(line, budget). case line_text line mlb budget of Some (app, _) \<Rightarrow> app | None \<Rightarrow> [])"

lemma push_tail_eq: "push_tail mlb out ls = out @ concat (map (kept_text mlb) ls)"
  by (induction ls arbitrary: out) (auto simp: push_line_eq kept_text_def split: option.split)

definition tail_ok ::
  "bounds \<Rightarrow> string \<Rightarrow> nat \<Rightarrow> nat \<Rightarrow> nat \<Rightarrow> nat \<times> (string \<times> nat) list \<times> nat \<times> nat \<Rightarrow> bool" where
  "tail_ok b s head_end budget c0 = (\<lambda>(tail_start, tail_lines, tail_bytes, clipped).
     c0 \<le> clipped \<and> head_end \<le> tail_start \<and> tail_start \<le> length s
     \<and> escaped_len (concat (map (kept_text (max_line_bytes b)) (rev tail_lines))) = tail_bytes
     \<and> tail_bytes \<le> budget
     \<and> (clipped = 0 \<longrightarrow>
          concat (map (kept_text (max_line_bytes b)) (rev tail_lines)) = drop tail_start s))"

lemma drop_line_start:
  assumes "ls \<le> ts" and "ts \<le> length s"
  shows "drop ls s = take (ts - ls) (drop ls s) @ drop ts s"
  using assms by (metis append_take_drop_id drop_drop le_add_diff_inverse2)

lemma tail_loop_ok:
  "tail_ok b s he bb c0 (ts, kept, tb, cl) \<Longrightarrow> length s < 10 ^ 10 \<Longrightarrow>
   tail_ok b s he bb c0 (tail_loop b s he bb lb ts tb kept cl)"
proof (induction b s he bb lb ts tb kept cl rule: tail_loop.induct)
  case (1 b s he bb lb ts tb kept cl)
  define ls where "ls = he + last_line_start (take (ts - he) (drop he s))"
  define line where "line = take (ts - ls) (drop ls s)"
  define budget where "budget = bb - tb"
  show ?case
  proof (cases "ts > he \<and> ts \<le> length s \<and> length kept < lb \<and>
      push_line [] line (max_line_bytes b) budget \<noteq> None")
    case False
    then have "tail_loop b s he bb lb ts tb kept cl = (ts, kept, tb, cl)"
      by (subst tail_loop.simps) (auto simp: ls_def line_def budget_def Let_def split: option.split)
    then show ?thesis using "1.prems"(1) by simp
  next
    case True
    then obtain out cost c where push: "push_line [] line (max_line_bytes b) budget = Some (out, cost, c)"
      by auto
    have eq: "tail_loop b s he bb lb ts tb kept cl =
        tail_loop b s he bb lb ls (tb + cost) (kept @ [(line, budget)]) (cl + of_bool c)"
      using True push
      by (subst tail_loop.simps) (simp add: ls_def [symmetric] line_def [symmetric] budget_def Let_def)
    have "last_line_start (take (ts - he) (drop he s)) < length (take (ts - he) (drop he s))"
      by (rule last_line_start_less) (use True in simp)
    then have ls: "he \<le> ls" "ls < ts" using True by (auto simp: ls_def)
    have "length line < 10 ^ 10" using "1.prems"(2) by (simp add: line_def)
    then obtain app where app: "line_text line (max_line_bytes b) budget = Some (app, c)"
      "cost = escaped_len app" "cost \<le> budget" "\<not> c \<longrightarrow> app = line"
      using push by (auto elim: push_line_Some)
    have "drop ls s = line @ drop ts s"
      unfolding line_def using ls True by (intro drop_line_start) simp_all
    then have "tail_ok b s he bb c0 (ls, kept @ [(line, budget)], tb + cost, cl + of_bool c)"
      using "1.prems"(1) ls app by (auto simp: tail_ok_def kept_text_def budget_def)
    from "1.IH" [OF _ ls_def line_def budget_def push refl refl this "1.prems"(2)] True
    show ?thesis unfolding eq by simp
  qed
qed

section \<open>The marker\<close>

lemma escaped_group_digits: "escaped_len (group_digits ds f) \<le> 2 * escaped_len ds"
proof (induction ds arbitrary: f)
  case (Cons d ds)
  have "escaped_byte_len CHR '','' = 1" by (simp add: escaped_byte_len_def)
  then show ?case using Cons [of False] escaped_byte_len_bounds(1) [of d] by simp
qed simp

lemma escaped_push_grouped:
  "n < 10 ^ 10 \<Longrightarrow> escaped_len (push_grouped out n) \<le> escaped_len out + 20"
  using escaped_group_digits [of "nat_to_string n" True] escaped_nat_to_string [of n]
  by (simp add: push_grouped_def)

definition note_len :: "string option \<Rightarrow> nat" where
  "note_len note = (case note of None \<Rightarrow> 0 | Some n \<Rightarrow> 2 + escaped_len n)"

lemma escaped_push_marker:
  assumes "ob < 10 ^ 10" and "ol < 10 ^ 10"
  shows "escaped_len (push_marker out ob ol note) \<le> escaped_len out + 91 + note_len note"
proof -
  define o1 where "o1 = (if out \<noteq> [] \<and> \<not> ends_with out [CHR 0x0A] then out @ [CHR 0x0A] else out)"
  define o2 where "o2 = push_grouped (o1 @ MARKER_PREFIX) ob @ '' bytes / ''"
  define o3 where "o3 = push_grouped o2 ol @ '' lines omitted''"
  have "push_marker out ob ol note = (case note of Some n \<Rightarrow> o3 @ ''; '' @ n | None \<Rightarrow> o3) @ NOT_STORED"
    by (simp add: push_marker_def o1_def o2_def o3_def Let_def cong: option.case_cong)
  then have "escaped_len (push_marker out ob ol note) = escaped_len o3 + note_len note + 18"
    by (simp add: note_len_def NOT_STORED_def ELLIPSIS_def escaped_byte_len_def split: option.split)
  moreover have "escaped_len o1 \<le> escaped_len out + 2" by (simp add: o1_def escaped_byte_len_def)
  moreover have "escaped_len o2 \<le> escaped_len o1 + 37"
    using escaped_push_grouped [OF assms(1), of "o1 @ MARKER_PREFIX"]
    by (simp add: o2_def MARKER_PREFIX_def ELLIPSIS_def escaped_byte_len_def)
  moreover have "escaped_len o3 \<le> escaped_len o2 + 34"
    using escaped_push_grouped [OF assms(2), of o2] by (simp add: o3_def escaped_byte_len_def)
  ultimately show ?thesis by simp
qed

lemma count_lines_le: "count_lines s \<le> length s"
proof (cases "s = [] \<or> ends_with s [CHR 0x0A]")
  case True
  then show ?thesis by (auto simp: count_lines_def)
next
  case False
  then have "last s \<noteq> CHR 0x0A"
    by (metis append_butlast_last_id ends_with_def strip_suffix_Some_iff strip_suffix_def option.distinct(1))
  then have "length (filter (\<lambda>c. c = CHR 0x0A) s) < length s"
    using False by (intro length_filter_less [of "last s"]) auto
  then show ?thesis by (simp add: count_lines_def)
qed

section \<open>Bounded texts\<close>

text \<open>
  What \<open>bound_text\<close> puts together when the text exceeds the bounds: a head, the omitted
  middle and a tail of the text, with the two budgets of the kept parts.
\<close>

lemma bound_text_parts:
  assumes "exceeds s b" and "length s < 10 ^ 10"
  obtains he ts H T where "he \<le> ts" "ts \<le> length s"
    "bt_text (bound_text s b note) = (if ts = he then H else
       push_marker H (ts - he) (count_lines (take (ts - he) (drop he s))) note) @ T"
    "escaped_len H + escaped_len T \<le> max_bytes b - MARKER_RESERVE_BYTES"
    "omitted_bytes (bound_text s b note) = ts - he"
    "omitted_lines (bound_text s b note) = (if ts = he then 0 else count_lines (take (ts - he) (drop he s)))"
    "clipped_lines (bound_text s b note) = 0 \<longrightarrow> H = take he s \<and> T = drop ts s"
proof -
  define ratio where "ratio = min (head_ratio b) 100"
  define hb where "hb = (max_bytes b - MARKER_RESERVE_BYTES) * ratio div 100"
  define tb where "tb = max_bytes b - MARKER_RESERVE_BYTES - hb"
  define hl where "hl = max_lines b * ratio div 100"
  define h where "h = head_loop b hb
      \<lparr>hs_text = [], hs_end = 0, hs_bytes = 0, hs_lines = 0, hs_clipped = 0\<rparr>
      (take hl (split_inclusive s))"
  have "ratio \<le> 100" by (simp add: ratio_def)
  then have "hb \<le> (max_bytes b - MARKER_RESERVE_BYTES) * 100 div 100"
    unfolding hb_def by (intro div_le_mono mult_le_mono2)
  then have budgets: "hb + tb = max_bytes b - MARKER_RESERVE_BYTES" by (simp add: tb_def)
  have "\<forall>l \<in> set (take hl (split_inclusive s)). length l < 10 ^ 10"
    using split_inclusive_line assms(2) by (fastforce dest: in_set_takeD)
  then obtain k where "head_ok hb ([] @ concat (take k (take hl (split_inclusive s)))) h"
    using head_loop_ok [of hb "[]" "\<lparr>hs_text = [], hs_end = 0, hs_bytes = 0, hs_lines = 0, hs_clipped = 0\<rparr>"]
    unfolding h_def by (fastforce simp: head_ok_def [of _ "[]"])
  moreover define kept where "kept = concat (take k (take hl (split_inclusive s)))"
  ultimately have head: "head_ok hb kept h" by simp
  have "s = kept @ concat (drop k (take hl (split_inclusive s)) @ drop hl (split_inclusive s))"
    unfolding kept_def concat_append [symmetric] append_assoc [symmetric] append_take_drop_id by simp
  then have kept: "kept = take (hs_end h) s" "hs_end h \<le> length s"
    using head by (metis append_eq_conv_conj head_ok_def, metis head_ok_def length_append le_add1)
  obtain ts tl' tbytes cl where loop: "tail_loop b s (hs_end h) tb (max_lines b - hl) (length s) 0 []
      (hs_clipped h) = (ts, tl', tbytes, cl)" by (metis surj_pair)
  have "tail_ok b s (hs_end h) tb (hs_clipped h) (ts, tl', tbytes, cl)"
    unfolding loop [symmetric] by (rule tail_loop_ok) (use kept assms(2) in \<open>simp_all add: tail_ok_def\<close>)
  moreover define T where "T = concat (map (kept_text (max_line_bytes b)) (rev tl'))"
  ultimately have tail: "cl = 0 \<longrightarrow> hs_clipped h = 0" "hs_end h \<le> ts" "ts \<le> length s" "escaped_len T \<le> tb" "cl = 0 \<longrightarrow> T = drop ts s"
    by (auto simp: tail_ok_def)
  have eq: "bound_text s b note =
      \<lparr>bt_text = (if ts = hs_end h then hs_text h else push_marker (hs_text h) (ts - hs_end h)
           (count_lines (take (ts - hs_end h) (drop (hs_end h) s))) note) @ T,
       omitted_bytes = ts - hs_end h,
       omitted_lines = (if ts = hs_end h then 0
           else count_lines (take (ts - hs_end h) (drop (hs_end h) s))),
       clipped_lines = cl, omitted_from_line = (if ts = hs_end h then 0 else hs_lines h + 1)\<rparr>"
    unfolding bound_text_def Let_def ratio_def [symmetric] hb_def [symmetric] tb_def [symmetric]
      hl_def [symmetric] h_def [symmetric] loop prod.case push_tail_eq T_def [symmetric]
    using assms(1) tail(2) by auto
  show ?thesis
    by (rule that [of "hs_end h" ts "hs_text h" T])
       (use tail head kept budgets in \<open>auto simp: eq head_ok_def\<close>)
qed

text \<open>C16 (bounds). A bounded text never has more escaped bytes than its bounds allow, the marker
  and its note included, whenever the bounds leave room for the marker and the text is shorter
  than ten billion bytes: the final debug assertion of \<open>bound_text\<close> always holds.\<close>

theorem bound_text_fits:
  assumes "MARKER_RESERVE_BYTES \<le> max_bytes b" and "length s < 10 ^ 10" and "note_len note \<le> 133"
  shows "escaped_len (bt_text (bound_text s b note)) \<le> max_bytes b"
proof (cases "exceeds s b")
  case False
  moreover have "6 * length s \<le> u64_max" using assms(2) by (simp add: arith_defs)
  ultimately show ?thesis using exceeds_spec [of s b] by (simp add: bound_text_def)
next
  case True
  obtain he ts H T where p: "he \<le> ts" "ts \<le> length s"
    "bt_text (bound_text s b note) = (if ts = he then H else
       push_marker H (ts - he) (count_lines (take (ts - he) (drop he s))) note) @ T"
    "escaped_len H + escaped_len T \<le> max_bytes b - MARKER_RESERVE_BYTES"
    "omitted_bytes (bound_text s b note) = ts - he"
    "omitted_lines (bound_text s b note) =
       (if ts = he then 0 else count_lines (take (ts - he) (drop he s)))"
    "clipped_lines (bound_text s b note) = 0 \<longrightarrow> H = take he s \<and> T = drop ts s"
    by (rule bound_text_parts [OF True assms(2)])
  have "count_lines (take (ts - he) (drop he s)) < 10 ^ 10"
    using count_lines_le [of "take (ts - he) (drop he s)"] assms(2) p(2) by simp
  moreover have "ts - he < 10 ^ 10" using assms(2) p(2) by simp
  ultimately have "escaped_len (push_marker H (ts - he) (count_lines (take (ts - he) (drop he s))) note)
      \<le> escaped_len H + 91 + note_len note" by (rule_tac escaped_push_marker)
  then show ?thesis using p(3,4) assms(1,3) by (auto simp: MARKER_RESERVE_BYTES_def)
qed

theorem bound_text_fits_witness:
  "escaped_len (bt_text (bound_text (replicate 9000 CHR ''x'') (Bounds_new 4096 10) None)) \<le> 4096"
  using bound_text_fits [of "Bounds_new 4096 10" "replicate 9000 CHR ''x''" None]
  by (simp add: Bounds_new_def MARKER_RESERVE_BYTES_def note_len_def MAX_MODEL_TEXT_BYTES_def
      MIN_MODEL_TEXT_BYTES_def)

text \<open>When no line was clipped, a bounded text is the text itself with one middle
  part replaced by a marker that states exactly how many bytes and lines that part had.\<close>

lemma bound_text_accounts:
  assumes "length s < 10 ^ 10" and "clipped_lines (bound_text s b note) = 0"
  shows "\<exists>H M T. s = H @ M @ T \<and> omitted_bytes (bound_text s b note) = length M
     \<and> omitted_lines (bound_text s b note) = count_lines M
     \<and> bt_text (bound_text s b note) =
         (if M = [] then H else push_marker H (length M) (count_lines M) note) @ T"
proof (cases "exceeds s b")
  case False
  then show ?thesis
    by (intro exI [of _ s] exI [of _ "[]"]) (simp add: bound_text_def count_lines_def)
next
  case True
  obtain he ts H T where p: "he \<le> ts" "ts \<le> length s"
    "bt_text (bound_text s b note) = (if ts = he then H else
       push_marker H (ts - he) (count_lines (take (ts - he) (drop he s))) note) @ T"
    "escaped_len H + escaped_len T \<le> max_bytes b - MARKER_RESERVE_BYTES"
    "omitted_bytes (bound_text s b note) = ts - he"
    "omitted_lines (bound_text s b note) =
       (if ts = he then 0 else count_lines (take (ts - he) (drop he s)))"
    "clipped_lines (bound_text s b note) = 0 \<longrightarrow> H = take he s \<and> T = drop ts s"
    by (rule bound_text_parts [OF True assms(1)])
  define M where "M = take (ts - he) (drop he s)"
  have ends: "H = take he s" "T = drop ts s" using p(7) assms(2) by simp_all
  have "drop he s = M @ drop ts s" unfolding M_def by (rule drop_line_start) (use p in simp_all)
  then have whole: "s = H @ M @ T" unfolding ends by (metis append_take_drop_id)
  have len: "length M = ts - he" using p(1,2) by (simp add: M_def)
  then have "M = [] \<longleftrightarrow> ts = he" using p(1) by auto
  then have txt_eq: "bt_text (bound_text s b note) =
      (if M = [] then H else push_marker H (length M) (count_lines M) note) @ T"
    and lines: "omitted_lines (bound_text s b note) = count_lines M"
    using p(3,6) len unfolding M_def [symmetric] by (auto simp: count_lines_def)
  show ?thesis using whole p(5) len txt_eq lines by metis
qed

lemma bound_text_accounts_witness:
  "\<exists>H M T. ''a'' = H @ M @ T
     \<and> omitted_bytes (bound_text ''a'' (Bounds_new 4096 10) None) = length M
     \<and> omitted_lines (bound_text ''a'' (Bounds_new 4096 10) None) = count_lines M
     \<and> bt_text (bound_text ''a'' (Bounds_new 4096 10) None) =
         (if M = [] then H else push_marker H (length M) (count_lines M) None) @ T"
  by (rule bound_text_accounts)
     (simp_all add: bound_text_def exceeds_def Bounds_new_def MAX_MODEL_TEXT_BYTES_def arith_defs
       MIN_MODEL_TEXT_BYTES_def MAX_MODEL_TEXT_LINES_def MAX_LINE_BYTES_def)

end
