(* ===== verification/Ids.thy ===== *)
theory Ids
  imports Rust_Str
begin

text \<open>
  The identifiers of the wire protocol (\<^verbatim>\<open>crates/qq-protocol/src/ids.rs\<close>): sixteen bytes,
  written as 32 lowercase hexadecimal digits. The six identifier types share one parser and
  one printer.
\<close>

unbundle bit_operations_syntax

definition ID_BYTES :: nat where "ID_BYTES = 16"
definition ID_HEX_BYTES :: nat where "ID_HEX_BYTES = ID_BYTES * 2"

datatype id_error = InvalidLength | InvalidCharacter | RandomnessUnavailable

type_synonym byte = "8 word"

fun id_error_message :: "id_error \<Rightarrow> string" where
  "id_error_message InvalidLength = ''identifier must contain 32 hexadecimal characters''"
| "id_error_message InvalidCharacter = ''identifier must use lowercase hexadecimal characters''"
| "id_error_message RandomnessUnavailable = ''secure randomness is unavailable''"

definition hex_nibble :: "char \<Rightarrow> (id_error, byte) result" where
  "hex_nibble c =
     (let b = (of_char c :: nat) in
      if 48 \<le> b \<and> b \<le> 57 then Ok (of_nat b - 48)
      else if 97 \<le> b \<and> b \<le> 102 then Ok (of_nat b - 97 + 10)
      else Err InvalidCharacter)"

text \<open>The pairs of digits in order; the first bad digit ends the loop.\<close>

fun parse_pairs :: "string \<Rightarrow> (id_error, byte list) result" where
  "parse_pairs (a # b # rest) =
     (case hex_nibble a of
        Inl e \<Rightarrow> Err e
      | Inr hi \<Rightarrow>
          (case hex_nibble b of
             Inl e \<Rightarrow> Err e
           | Inr lo \<Rightarrow>
               (case parse_pairs rest of
                  Inl e \<Rightarrow> Err e
                | Inr bs \<Rightarrow> Ok ((push_bit 4 hi OR lo) # bs))))"
| "parse_pairs _ = Ok []"

definition parse_id :: "string \<Rightarrow> (id_error, byte list) result" where
  "parse_id v = (if length v \<noteq> ID_HEX_BYTES then Err InvalidLength else parse_pairs v)"

definition HEX :: string where "HEX = ''0123456789abcdef''"

definition write_id :: "byte list \<Rightarrow> string" where
  "write_id bs = concat (map (\<lambda>b. [HEX ! unat (drop_bit 4 b), HEX ! unat (b AND 0x0F)]) bs)"

lemma hex_digits: "n < 16 \<Longrightarrow> hex_nibble (HEX ! n) = Ok (of_nat n)"
  by (simp add: numeral_eq_Suc less_Suc_eq) (auto simp: HEX_def hex_nibble_def)

lemma hex_nibble_Ok: "hex_nibble c = Ok w \<Longrightarrow> unat w < 16 \<and> HEX ! unat w = c"
proof -
  assume ok: "hex_nibble c = Ok w"
  define b where "b = (of_char c :: nat)"
  have "b \<in> {48..57} \<or> b \<in> {97..102}"
    using ok by (auto simp: hex_nibble_def b_def Let_def split: if_splits)
  then have "b \<in> {48,49,50,51,52,53,54,55,56,57,97,98,99,100,101,102}" by simp presburger
  also have "\<dots> = of_char ` set HEX" by (simp add: HEX_def)
  finally have "c \<in> set HEX" by (auto simp: b_def)
  moreover have "length HEX = 16" by (simp add: HEX_def)
  ultimately obtain n where n: "n < 16" "c = HEX ! n" by (metis in_set_conv_nth)
  with ok have "w = of_nat n" by (simp add: hex_digits)
  with n show ?thesis by (simp add: unat_of_nat)
qed

lemma nibbles_lt: "unat (drop_bit 4 b) < 16" "unat (b AND 0x0F) < 16" for b :: byte
proof -
  have "unat b < 256" using unsigned_less [of b] by simp
  then show "unat (drop_bit 4 b) < 16" unfolding unat_drop_bit_eq drop_bit_nat_def by simp
  have "b AND 0x0F \<le> 0x0F" by (rule word_and_le1)
  then show "unat (b AND 0x0F) < 16" by (simp add: word_le_nat_alt)
qed

lemma nibbles_join: "push_bit 4 (drop_bit 4 b) OR (b AND 0x0F) = b" for b :: byte
proof -
  have m: "(0x0F :: byte) = mask 4" by (simp add: mask_eq_exp_minus_1)
  show ?thesis unfolding m
    by (rule bit_eqI) (auto simp: bit_simps)
qed

lemma nibbles_split:
  fixes hi lo :: byte
  assumes "unat hi < 16" and "unat lo < 16"
  shows "drop_bit 4 (push_bit 4 hi OR lo) = hi" and "(push_bit 4 hi OR lo) AND 0x0F = lo"
proof -
  have m: "(0x0F :: byte) = mask 4" by (simp add: mask_eq_exp_minus_1)
  have t: "take_bit 4 x = x" if "unat x < 16" for x :: byte
    using that by (simp add: word_unat_eq_iff unsigned_take_bit_eq take_bit_nat_eq_self)
  have nb: "\<not> bit x n" if "unat x < 16" "4 \<le> n" for x :: byte and n
    using t [OF that(1)] that(2) by (metis bit_take_bit_iff not_le)
  show "drop_bit 4 (push_bit 4 hi OR lo) = hi"
    by (rule bit_eqI) (use nb [OF assms(1)] nb [OF assms(2)] in \<open>auto simp: bit_simps not_le [symmetric]\<close>)
  show "(push_bit 4 hi OR lo) AND 0x0F = lo"
    unfolding m by (rule bit_eqI) (use nb [OF assms(2)] in \<open>auto simp: bit_simps not_less [symmetric]\<close>)
qed

lemma parse_write: "parse_pairs (write_id bs) = Ok bs"
  by (induction bs) (simp_all add: write_id_def hex_digits nibbles_lt nibbles_join)

lemma length_write: "length (write_id bs) = 2 * length bs"
  by (induction bs) (simp_all add: write_id_def)

lemma parse_pairs_Ok: "parse_pairs v = Ok bs \<Longrightarrow> even (length v) \<Longrightarrow> v = write_id bs"
proof (induction v arbitrary: bs rule: parse_pairs.induct)
  case (1 a b rest)
  then obtain hi lo r where *: "hex_nibble a = Ok hi" "hex_nibble b = Ok lo" "parse_pairs rest = Ok r"
    "bs = (push_bit 4 hi OR lo) # r" by (auto split: sum.splits)
  with "1.IH" [OF *(1,2) *(3)] "1.prems"(2) have "rest = write_id r" by simp
  moreover have "[HEX ! unat (drop_bit 4 (push_bit 4 hi OR lo)), HEX ! unat ((push_bit 4 hi OR lo) AND 0x0F)]
      = [a, b]"
    using hex_nibble_Ok [OF *(1)] hex_nibble_Ok [OF *(2)] by (metis nibbles_split)
  ultimately show ?case unfolding *(4) write_id_def list.map concat.simps by simp
qed (simp_all add: write_id_def)

text \<open>Printing and parsing identifiers are inverse to each other: a text is
  accepted exactly when it is the printed form of the sixteen bytes it parses to.\<close>

lemma id_roundtrip: "parse_id v = Ok bs \<longleftrightarrow> length bs = 16 \<and> v = write_id bs"
proof
  assume "parse_id v = Ok bs"
  then have "length v = 32" "parse_pairs v = Ok bs"
    by (auto simp: parse_id_def ID_HEX_BYTES_def ID_BYTES_def split: if_splits)
  then show "length bs = 16 \<and> v = write_id bs"
    using parse_pairs_Ok [of v bs] length_write [of bs] by auto
qed (simp add: parse_id_def ID_HEX_BYTES_def ID_BYTES_def length_write parse_write)

end
