(* ===== verification/Turn_Output.thy ===== *)
theory Turn_Output
  imports Tool_Output Ids
begin

text \<open>
  The rest of \<^verbatim>\<open>crates/qq-core/src/tools/output.rs\<close>: result headers, the rewriting of a
  truncation marker once the full output is stored, and the byte budget that all results of a
  turn share. SHA-256 is a parameter.
\<close>

section \<open>Headers\<close>

definition Header_new :: "string \<Rightarrow> string option \<Rightarrow> string" where
  "Header_new tool subject = tool @ (case subject of Some s \<Rightarrow> '' '' @ s | None \<Rightarrow> [])"

definition Header_field :: "string \<Rightarrow> string \<Rightarrow> string \<Rightarrow> string" where
  "Header_field h key v = h @ '' '' @ key @ ''='' @ v"

definition Header_token :: "string \<Rightarrow> string \<Rightarrow> string" where
  "Header_token h t = h @ '' '' @ t"

definition Header_into_line :: "string \<Rightarrow> string" where
  "Header_into_line h = h @ [CHR 0x0A]"

definition SEARCH_RESERVATION_BYTES :: nat where
  "SEARCH_RESERVATION_BYTES = max_bytes (Bounds_new (12 * 1024) 4000)"

definition header_line :: "string \<Rightarrow> string \<Rightarrow> string option" where
  "header_line tool content =
     (case str_lines content of
        [] \<Rightarrow> None
      | first # _ \<Rightarrow>
          (case strip_prefix first tool of
             None \<Rightarrow> None
           | Some rest \<Rightarrow>
               let limit = (if tool = ''search'' then SEARCH_RESERVATION_BYTES else MAX_STUB_HEADER_BYTES)
               in if starts_with rest '' '' \<and> length first \<le> limit then Some first else None))"

section \<open>Naming the stored output in the marker\<close>

function spill_loop :: "string \<Rightarrow> string \<Rightarrow> nat option \<Rightarrow> nat \<Rightarrow> string \<times> bool" where
  "spill_loop content handle offset search_from =
     (if search_from > length content then (content, False) else
      case find_sub (drop search_from content) MARKER_PREFIX of
        None \<Rightarrow> (content, False)
      | Some relative \<Rightarrow>
          let start = search_from + relative in
          if start \<noteq> 0 \<and> content ! (start - 1) \<noteq> CHR 0x0A
          then spill_loop content handle offset (start + length MARKER_PREFIX)
          else
            let fin = (case position (\<lambda>c. c = CHR 0x0A) (drop start content) of
                         None \<Rightarrow> length content | Some i \<Rightarrow> start + i + 1)
            in if ends_with (take (fin - start) (drop start content)) NOT_STORED then
                 (take (fin - length NOT_STORED) content
                  @ ''; full output '' @ handle
                  @ (case offset of Some o' \<Rightarrow> ''; read_tool_result offset='' @ nat_to_string o' | None \<Rightarrow> [])
                  @ '']'' @ ELLIPSIS @ [CHR 0x0A]
                  @ drop fin content, True)
               else spill_loop content handle offset fin)"
  by pat_completeness auto
termination
proof (relation "measure (\<lambda>(t, h, o', from). length t + 1 - from)", goal_cases)
  case (2 content handle offset sf relative start)
  then show ?case using find_sub_Some [OF 2(2)] by (simp add: MARKER_PREFIX_def)
next
  case (3 content handle offset sf relative start fin)
  have "relative + length MARKER_PREFIX \<le> length content - sf" using find_sub_Some [OF 3(2)] by simp
  then have "start < length content" using 3(1,3) by (simp add: MARKER_PREFIX_def)
  then have "sf < fin" using 3(3,5) by (auto split: option.splits)
  then show ?case using 3(1) by simp
qed simp

declare spill_loop.simps [simp del]

definition finalize_spill_marker :: "string \<Rightarrow> string option \<Rightarrow> nat option \<Rightarrow> string \<times> bool" where
  "finalize_spill_marker content handle offset =
     (case handle of None \<Rightarrow> (content, False) | Some h \<Rightarrow> spill_loop content h offset 0)"

section \<open>The budget of a turn\<close>

datatype result_recall = RecallNone | Spill string | StoredResult string "byte list"

definition content_hash :: "(string \<Rightarrow> byte list) \<Rightarrow> string \<Rightarrow> string" where
  "content_hash sha256 bytes = write_id (sha256 bytes)"

definition result_handle :: "string \<Rightarrow> byte list \<Rightarrow> string \<Rightarrow> string" where
  "result_handle tool call digest =
     ''t:'' @ tool @ '':'' @ take 8 (write_id call) @ '':'' @ take 8 digest"

definition result_reserve_bytes :: "string \<Rightarrow> nat" where
  "result_reserve_bytes tool = 384 + length tool"

definition complete_search_page :: "string \<Rightarrow> string \<Rightarrow> bool" where
  "complete_search_page tool content \<longleftrightarrow>
     tool = ''search'' \<and> starts_with content ''search '' \<and> length content \<le> SEARCH_RESERVATION_BYTES"

record turn_output_budget =
  tob_remaining :: nat
  tob_protected :: nat
  tob_replies :: nat

fun protect_pages :: "nat \<Rightarrow> nat \<Rightarrow> (string \<times> string) list \<Rightarrow> nat" where
  "protect_pages space prot [] = prot"
| "protect_pages space prot ((tool, content) # rs) =
     (if complete_search_page tool content \<and> length content \<le> space
      then protect_pages (space - length content) (prot + length content) rs
      else protect_pages space prot rs)"

definition for_results :: "(string \<times> string) list \<Rightarrow> turn_output_budget" where
  "for_results results =
     (let replies = foldl (\<lambda>bytes (tool, _). sat_add u64_max bytes (result_reserve_bytes tool)) 0 results;
          space = MAX_TURN_TOOL_OUTPUT_BYTES - replies
      in \<lparr>tob_remaining = MAX_TURN_TOOL_OUTPUT_BYTES, tob_protected = protect_pages space 0 results,
          tob_replies = replies\<rparr>)"

definition reserve_instructions :: "nat \<Rightarrow> turn_output_budget \<Rightarrow> turn_output_budget" where
  "reserve_instructions bytes t =
     (let rem = tob_remaining t - bytes
      in t\<lparr>tob_remaining := rem, tob_protected := min (tob_protected t) (rem - tob_replies t)\<rparr>)"

definition stored_handle :: "(string \<Rightarrow> byte list) \<Rightarrow> result_recall \<Rightarrow> string \<Rightarrow> string option" where
  "stored_handle sha256 recall content =
     (case recall of
        StoredResult tool call \<Rightarrow> Some (result_handle tool call (content_hash sha256 content))
      | _ \<Rightarrow> None)"

definition recall_reserve :: "result_recall \<Rightarrow> string option \<Rightarrow> nat" where
  "recall_reserve recall stored =
     (case recall of
        RecallNone \<Rightarrow> 0
      | Spill handle \<Rightarrow> escaped_len handle + 64
      | StoredResult _ _ \<Rightarrow> (case stored of None \<Rightarrow> 0 | Some handle \<Rightarrow> escaped_len handle + 64))"

text \<open>The marker of a text cut by the turn budget, rewritten when the full text can be recalled.\<close>

definition name_recall :: "result_recall \<Rightarrow> string option \<Rightarrow> bounded_text \<Rightarrow> string" where
  "name_recall recall stored bounded =
     (if omitted_bytes bounded > 0 then
        (case recall of
           RecallNone \<Rightarrow> bt_text bounded
         | Spill handle \<Rightarrow> fst (finalize_spill_marker (bt_text bounded) (Some handle) None)
         | StoredResult _ _ \<Rightarrow>
             fst (finalize_spill_marker (bt_text bounded) stored (Some (omitted_from_line bounded))))
      else bt_text bounded)"

definition cut_notice :: "nat \<Rightarrow> string" where
  "cut_notice allowed = (let n = ''turn output budget reached'' in take (min (length n) allowed) n)"

text \<open>A result within the bytes it is allowed: untouched when it fits, else bounded, and a bare
  notice when not even a marker would fit or the rewritten text is still too long.\<close>

definition admit_within ::
  "(string \<Rightarrow> byte list) \<Rightarrow> nat \<Rightarrow> string \<Rightarrow> result_recall \<Rightarrow> string \<times> bool" where
  "admit_within sha256 allowed content recall =
     (if length content > allowed then
        let stored = stored_handle sha256 recall content;
            bounded_bytes = allowed - recall_reserve recall stored
        in if bounded_bytes < MARKER_RESERVE_BYTES then (cut_notice allowed, True)
           else let bounded = bound_text content (with_max_bytes Bounds_DEFAULT bounded_bytes)
                                (Some ''turn budget reached'');
                    out = name_recall recall stored bounded
                in if length out > allowed then (cut_notice allowed, True)
                   else (out, truncated bounded)
      else (content, False))"

text \<open>\<open>admit\<close> gives the budget, the text to show and whether it was cut.\<close>

definition admit ::
  "(string \<Rightarrow> byte list) \<Rightarrow> turn_output_budget \<Rightarrow> string \<Rightarrow> string \<Rightarrow> result_recall
   \<Rightarrow> turn_output_budget \<times> string \<times> bool" where
  "admit sha256 t tool content recall =
     (let t = t\<lparr>tob_replies := tob_replies t - result_reserve_bytes tool\<rparr> in
      if complete_search_page tool content \<and> length content \<le> tob_protected t
      then (t\<lparr>tob_protected := tob_protected t - length content,
              tob_remaining := tob_remaining t - length content\<rparr>, content, False)
      else
        let allowed = tob_remaining t - tob_protected t - tob_replies t in
        if allowed = 0 then (t, [], content \<noteq> [])
        else let (out, was_cut) = admit_within sha256 allowed content recall
             in (t\<lparr>tob_remaining := tob_remaining t - length out\<rparr>, out, was_cut))"

text \<open>The results of a turn are admitted in order.\<close>

fun admit_all ::
  "(string \<Rightarrow> byte list) \<Rightarrow> turn_output_budget \<Rightarrow> (string \<times> string \<times> result_recall) list
   \<Rightarrow> (string \<times> bool) list" where
  "admit_all sha256 t [] = []"
| "admit_all sha256 t ((tool, content, recall) # rs) =
     (case admit sha256 t tool content recall of (t', out, was_cut) \<Rightarrow> (out, was_cut) # admit_all sha256 t' rs)"

record legacy_turn_output_budget =
  ltob_remaining :: nat

definition LegacyTurnOutputBudget_new :: legacy_turn_output_budget where
  "LegacyTurnOutputBudget_new = \<lparr>ltob_remaining = MAX_TURN_TOOL_OUTPUT_BYTES\<rparr>"

definition legacy_admit ::
  "(string \<Rightarrow> byte list) \<Rightarrow> legacy_turn_output_budget \<Rightarrow> string \<Rightarrow> result_recall
   \<Rightarrow> legacy_turn_output_budget \<times> string \<times> bool" where
  "legacy_admit sha256 t content recall =
     (let allowed = max (ltob_remaining t) MIN_MODEL_TEXT_BYTES;
          (out, was_cut) =
            (if length content > allowed then
               let stored = stored_handle sha256 recall content;
                   bounded = bound_text content (with_max_bytes Bounds_DEFAULT allowed)
                               (Some ''turn budget reached'')
               in (name_recall recall stored bounded, truncated bounded)
             else (content, False))
      in (t\<lparr>ltob_remaining := ltob_remaining t - length out\<rparr>, out, was_cut))"

section \<open>The cap of a turn\<close>

lemma cut_notice_le: "length (cut_notice n) \<le> n"
  by (simp add: cut_notice_def Let_def)

lemma admit_within_le: "length (fst (admit_within sha256 n content recall)) \<le> n"
  using cut_notice_le [of n] by (simp add: admit_within_def Let_def)

lemma admit_spends:
  assumes "admit sha256 t tool content recall = (t', out, was_cut)" and "tob_protected t \<le> tob_remaining t"
  shows "length out \<le> tob_remaining t" "tob_remaining t' = tob_remaining t - length out"
    "tob_protected t' \<le> tob_remaining t'" "tob_replies t' = tob_replies t - result_reserve_bytes tool"
    "tob_protected t + (tob_replies t - result_reserve_bytes tool) \<le> tob_remaining t
     \<Longrightarrow> tob_protected t' + tob_replies t' \<le> tob_remaining t'"
proof -
  let ?allowed = "tob_remaining t - tob_protected t - (tob_replies t - result_reserve_bytes tool)"
  consider
    (page) "length content \<le> tob_protected t" "out = content" "tob_protected t' = tob_protected t - length content"
  | (plain) "length out \<le> ?allowed" "tob_protected t' = tob_protected t"
    using assms(1) admit_within_le [of sha256 ?allowed content recall]
    by (auto simp: admit_def Let_def split: if_splits prod.splits)
  note shape = this
  have rest: "tob_remaining t' = tob_remaining t - length out"
    "tob_replies t' = tob_replies t - result_reserve_bytes tool"
    using assms(1) by (auto simp: admit_def Let_def split: if_splits prod.splits)
  then show "tob_remaining t' = tob_remaining t - length out"
    "tob_replies t' = tob_replies t - result_reserve_bytes tool" by simp_all
  from shape show "length out \<le> tob_remaining t" using assms(2) by cases auto
  from shape show "tob_protected t' \<le> tob_remaining t'" using assms(2) rest by cases auto
  from shape show "tob_protected t' + tob_replies t' \<le> tob_remaining t'"
    if "tob_protected t + (tob_replies t - result_reserve_bytes tool) \<le> tob_remaining t"
    using that rest by cases auto
qed

lemma admit_all_capped:
  "tob_protected t \<le> tob_remaining t \<Longrightarrow>
   sum_list (map (length \<circ> fst) (admit_all sha256 t rs)) \<le> tob_remaining t"
proof (induction rs arbitrary: t)
  case (Cons r rs)
  obtain tool content recall where r: "r = (tool, content, recall)" by (metis surj_pair)
  obtain t' out c where a: "admit sha256 t tool content recall = (t', out, c)" by (metis surj_pair)
  note s = admit_spends [OF a Cons.prems]
  from Cons.IH [OF s(3)] s(1,2) show ?case by (simp add: r a)
qed simp

lemma protect_pages_le: "protect_pages space prot rs \<le> prot + space"
proof (induction rs arbitrary: space prot)
  case (Cons r rs)
  obtain tool content where r: "r = (tool, content)" by (metis surj_pair)
  show ?case
    using Cons [of space prot] Cons [of "space - length content" "prot + length content"]
    by (auto simp: r)
qed simp

lemma reserve_ok:
  "tob_protected (reserve_instructions n (for_results results)) \<le> MAX_TURN_TOOL_OUTPUT_BYTES - n"
  "tob_remaining (reserve_instructions n (for_results results)) = MAX_TURN_TOOL_OUTPUT_BYTES - n"
  "tob_replies (reserve_instructions n (for_results results)) = tob_replies (for_results results)"
  "tob_replies (for_results results) \<le> MAX_TURN_TOOL_OUTPUT_BYTES - n \<Longrightarrow>
   tob_protected (reserve_instructions n (for_results results)) + tob_replies (for_results results)
     \<le> MAX_TURN_TOOL_OUTPUT_BYTES - n"
  by (auto simp: reserve_instructions_def for_results_def Let_def)

text \<open>C19 (bounds). However many results a turn has and however large they are, what is shown of
  them together with the instructions added to the turn is at most 96 KiB; the two unchecked
  subtractions of \<open>admit\<close> never go below zero.\<close>

theorem turn_output_capped:
  "sum_list (map (length \<circ> fst) (admit_all sha256 (reserve_instructions n (for_results results)) rs))
     \<le> MAX_TURN_TOOL_OUTPUT_BYTES - n"
  using admit_all_capped [of "reserve_instructions n (for_results results)" sha256 rs]
    reserve_ok(1,2) [where n = n and results = results] by simp

section \<open>The reserve of a result\<close>

definition reserves :: "(string \<times> string \<times> result_recall) list \<Rightarrow> nat" where
  "reserves rs = sum_list (map (\<lambda>(tool, _). result_reserve_bytes tool) rs)"

lemma reserves_simps [simp]:
  "reserves [] = 0" "reserves ((tool, x) # rs) = result_reserve_bytes tool + reserves rs"
  by (simp_all add: reserves_def)

lemma admit_within_reserve:
  assumes "tob_protected t + tob_replies t \<le> tob_remaining t"
    and "result_reserve_bytes tool \<le> tob_replies t" and "length content \<le> result_reserve_bytes tool"
  shows "snd (admit sha256 t tool content recall) = (content, False)"
proof -
  have "length content \<le> tob_remaining t - tob_protected t - (tob_replies t - result_reserve_bytes tool)"
    "0 < tob_remaining t - tob_protected t - (tob_replies t - result_reserve_bytes tool)"
    using assms by (simp_all add: result_reserve_bytes_def)
  then show ?thesis by (auto simp: admit_def admit_within_def Let_def)
qed

lemma admit_all_within_reserve:
  "tob_protected t + tob_replies t \<le> tob_remaining t \<Longrightarrow> reserves rs \<le> tob_replies t \<Longrightarrow>
   i < length rs \<Longrightarrow> rs ! i = (tool, content, recall) \<Longrightarrow> length content \<le> result_reserve_bytes tool \<Longrightarrow>
   admit_all sha256 t rs ! i = (content, False)"
proof (induction rs arbitrary: t i)
  case (Cons r rs)
  obtain tool0 txt0 recall0 where r: "r = (tool0, txt0, recall0)" by (metis surj_pair)
  obtain t' out c where a: "admit sha256 t tool0 txt0 recall0 = (t', out, c)" by (metis surj_pair)
  have le: "tob_protected t \<le> tob_remaining t" using Cons.prems(1) by simp
  note s = admit_spends [OF a le]
  show ?case
  proof (cases i)
    case 0
    then have "snd (admit sha256 t tool content recall) = (content, False)"
      using Cons.prems r by (intro admit_within_reserve) auto
    then show ?thesis using 0 Cons.prems(4) r a by simp
  next
    case (Suc j)
    have "tob_protected t' + tob_replies t' \<le> tob_remaining t'"
      by (rule s(5)) (use Cons.prems(1) in simp)
    moreover have "reserves rs \<le> tob_replies t'" using Cons.prems(2) s(4) by (simp add: r)
    ultimately have "admit_all sha256 t' rs ! j = (content, False)"
      using Cons.prems Suc by (intro Cons.IH) simp_all
    then show ?thesis using Suc by (simp add: r a)
  qed
qed simp

lemma foldl_reserves:
  "foldl (\<lambda>bytes (tool, _). sat_add u64_max bytes (result_reserve_bytes tool)) b
     (map (\<lambda>(tool, content, _). (tool, content)) rs) = min u64_max (b + reserves rs)" if "b \<le> u64_max"
  using that by (induction rs arbitrary: b) (auto simp: sat_add_def min_def)

lemma reserves_filter: "reserves (filter P rs) \<le> reserves rs"
  by (induction rs) (auto simp: reserves_def)

text \<open>As long as the reserves of all results and the instructions fit the budget
  of the turn, no result that fits its own reserve of 384 bytes and the tool's name is ever cut,
  whatever the results before it took.\<close>

lemma turn_reserve_kept:
  assumes "reserves results + n \<le> MAX_TURN_TOOL_OUTPUT_BYTES"
    and "i < length (filter P results)" and "filter P results ! i = (tool, content, recall)"
    and "length content \<le> result_reserve_bytes tool"
  shows "admit_all sha256 (reserve_instructions n
           (for_results (map (\<lambda>(tool, content, _). (tool, content)) results))) (filter P results) ! i
         = (content, False)"
proof (rule admit_all_within_reserve [OF _ _ assms(2-4)])
  let ?b = "for_results (map (\<lambda>(tool, content, _). (tool, content)) results)"
  have r: "tob_replies ?b = reserves results"
    using assms(1) foldl_reserves [of 0 results]
    by (simp add: for_results_def Let_def MAX_TURN_TOOL_OUTPUT_BYTES_def arith_defs)
  then show "tob_protected (reserve_instructions n ?b) + tob_replies (reserve_instructions n ?b)
      \<le> tob_remaining (reserve_instructions n ?b)"
    using reserve_ok(2-4) [where n = n and results = "map (\<lambda>(tool, content, _). (tool, content)) results"]
      assms(1) by simp
  show "reserves (filter P results) \<le> tob_replies (reserve_instructions n ?b)"
    using r reserve_ok(3) reserves_filter [of P results] by simp
qed

lemma turn_reserve_kept_witness:
  "admit_all (\<lambda>_. []) (reserve_instructions 0
     (for_results (map (\<lambda>(tool, content, _). (tool, content)) [(''a'', ''x'', RecallNone), (''b'', ''y'', RecallNone)])))
     (filter (\<lambda>_. True) [(''a'', ''x'', RecallNone), (''b'', ''y'', RecallNone)]) ! 1 = (''y'', False)"
  by (rule turn_reserve_kept [where tool = "''b''" and recall = RecallNone])
     (simp_all add: result_reserve_bytes_def MAX_TURN_TOOL_OUTPUT_BYTES_def)

section \<open>A text that imitates the marker\<close>

text \<open>
  The marker is looked for from the start of the text, so a line of the output itself that has
  the marker's shape is rewritten and the real marker keeps saying that nothing is stored.
\<close>

theorem imitated_marker_rewritten:
  "let fake = push_marker [] 1 1 None; real = push_marker [] 2 2 None
   in finalize_spill_marker (fake @ real) (Some ''h'') None =
      (take (length fake - length NOT_STORED) fake @ ''; full output h]'' @ ELLIPSIS @ [CHR 0x0A] @ real,
       True)"
  by code_simp

end
