(* ===== verification/Secrets.thy ===== *)
theory Secrets
  imports Tool_Output
begin

text \<open>
  Masking of secrets in tool output (\<^verbatim>\<open>crates/qq-core/src/tools/output.rs\<close>, from
  \<open>is_token_byte\<close> to \<open>mask_secrets\<close>): a detector per position, two tables that skip positions
  where no secret can start, and the rewriting of a text. Texts are byte lists.
\<close>

unbundle bit_operations_syntax

section \<open>The detector\<close>

definition is_token_byte :: "char \<Rightarrow> bool" where
  "is_token_byte c \<longleftrightarrow> is_ascii_alphanumeric c \<or> c = CHR ''_'' \<or> c = CHR ''-''"

definition is_word_byte :: "char \<Rightarrow> bool" where
  "is_word_byte c \<longleftrightarrow> is_ascii_alphanumeric c \<or> c = CHR ''_''"

definition is_ascii_uppercase :: "char \<Rightarrow> bool" where
  "is_ascii_uppercase c \<longleftrightarrow> 65 \<le> (of_char c :: nat) \<and> (of_char c :: nat) \<le> 90"

text \<open>The end of the run of bytes that satisfy \<open>P\<close> from an offset on.\<close>

definition run_end :: "(char \<Rightarrow> bool) \<Rightarrow> string \<Rightarrow> nat \<Rightarrow> nat" where
  "run_end P bytes from =
     (case position (\<lambda>c. \<not> P c) (drop from bytes) of None \<Rightarrow> length bytes | Some i \<Rightarrow> from + i)"

definition token_run :: "string \<Rightarrow> nat \<Rightarrow> nat" where
  "token_run bytes from = run_end is_token_byte bytes from"

datatype secret_kind =
  AwsKey | GithubToken | ApiKey | SlackToken | Bearer | Credential | UrlCredentials

fun label :: "secret_kind \<Rightarrow> string" where
  "label AwsKey = ''aws_key''"
| "label GithubToken = ''github_token''"
| "label ApiKey = ''api_key''"
| "label SlackToken = ''slack_token''"
| "label Bearer = ''bearer''"
| "label Credential = ''credential''"
| "label UrlCredentials = ''url_credentials''"

definition CREDENTIAL_KEY_WORDS :: "string list" where
  "CREDENTIAL_KEY_WORDS =
     [''password'', ''passwd'', ''secret'', ''token'', ''api_key'', ''apikey'', ''private_key'', ''access_key'']"

definition key_names_credential :: "string \<Rightarrow> bool" where
  "key_names_credential key \<longleftrightarrow>
     list_ex (\<lambda>word. length key \<ge> length word \<and>
       list_ex (\<lambda>i. eq_ignore_ascii_case (take (length word) (drop i key)) word)
         [0..<length key - length word + 1]) CREDENTIAL_KEY_WORDS"

record hit =
  hit_start :: nat
  hit_end :: nat
  hit_kind :: secret_kind

definition rposition :: "('a \<Rightarrow> bool) \<Rightarrow> 'a list \<Rightarrow> nat option" where
  "rposition P xs = map_option (\<lambda>i. length xs - 1 - i) (position P (rev xs))"

abbreviation hit_of :: "nat \<Rightarrow> nat \<Rightarrow> secret_kind \<Rightarrow> hit option" where
  "hit_of s e k \<equiv> Some \<lparr>hit_start = s, hit_end = e, hit_kind = k\<rparr>"

definition detect_aws :: "string \<Rightarrow> nat \<Rightarrow> hit option" where
  "detect_aws bytes at =
     (let rest = drop at bytes in
      if take 4 rest \<in> set [''AKIA'', ''ASIA'', ''AIDA'', ''AGPA'', ''AROA'', ''ANPA'']
         \<and> list_all (\<lambda>c. is_ascii_uppercase c \<or> is_ascii_digit c) (take 16 (drop 4 rest))
         \<and> (length rest \<le> 20 \<or> \<not> is_word_byte (rest ! 20))
      then hit_of at (at + 20) AwsKey else None)"

definition detect_github :: "string \<Rightarrow> nat \<Rightarrow> hit option" where
  "detect_github bytes at =
     (let rest = drop at bytes;
          end1 = run_end is_ascii_alphanumeric rest 4;
          end2 = run_end is_word_byte rest 11
      in if length rest \<ge> 40 \<and> rest ! 1 = CHR ''h'' \<and> rest ! 2 \<in> set ''pousr'' \<and> rest ! 3 = CHR ''_''
            \<and> end1 - 4 \<ge> 36
         then hit_of at (at + end1) GithubToken
         else if starts_with rest ''github_pat_'' \<and> end2 - 11 \<ge> 22
         then hit_of at (at + end2) GithubToken
         else None)"

definition detect_api_key :: "string \<Rightarrow> nat \<Rightarrow> hit option" where
  "detect_api_key bytes at =
     (let rest = drop at bytes in
      case (if starts_with rest ''sk-'' then Some 3
            else if starts_with rest ''sk_live_'' \<or> starts_with rest ''pk_live_'' then Some 8
            else None) of
        None \<Rightarrow> None
      | Some prefix_len \<Rightarrow>
          let fin = token_run bytes (at + prefix_len)
          in if fin - at \<ge> 16 then hit_of at fin ApiKey else None)"

definition detect_slack :: "string \<Rightarrow> nat \<Rightarrow> hit option" where
  "detect_slack bytes at =
     (let rest = drop at bytes in
      if starts_with rest ''xox'' \<and> (rest ! 3 = CHR ''b'' \<or> rest ! 3 = CHR ''p'') \<and> rest ! 4 = CHR ''-''
      then let fin = token_run bytes (at + 5)
           in if fin - at \<ge> 16 then hit_of at fin SlackToken else None
      else None)"

definition detect_bearer :: "string \<Rightarrow> nat \<Rightarrow> hit option" where
  "detect_bearer bytes at =
     (let start = at + 7;
          fin = run_end (\<lambda>c. is_token_byte c \<or> c = CHR ''.'' \<or> c = CHR ''='') bytes start
      in if fin - start \<ge> 8 then hit_of start fin Bearer else None)"

definition detect_credential :: "string \<Rightarrow> nat \<Rightarrow> hit option" where
  "detect_credential bytes at =
     (let key_start = (case rposition (\<lambda>c. \<not> is_word_byte c) (take at bytes) of
            None \<Rightarrow> 0 | Some i \<Rightarrow> i + 1);
          key = drop key_start (take at bytes)
      in if key = [] \<or> \<not> key_names_credential key then None
         else
           let quote = (if at + 1 < length bytes \<and> bytes ! (at + 1) \<in> {CHR 0x22, CHR 0x27}
                        then Some (bytes ! (at + 1)) else None);
               start = (if quote = None then at + 1 else at + 2);
               fin = run_end (\<lambda>c. \<not> (is_ascii_whitespace c \<or> quote = Some c)) bytes start;
               v = drop start (take fin bytes);
               exempt = length v < 8 \<or> v ! 0 = CHR ''$'' \<or> list_all is_ascii_digit v
                        \<or> starts_with v ''[masked:''
           in if \<not> exempt then hit_of start fin Credential else None)"

definition detect_url :: "string \<Rightarrow> nat \<Rightarrow> hit option" where
  "detect_url bytes at =
     (let start = at + 3;
          fin = run_end (\<lambda>c. \<not> (is_ascii_whitespace c \<or> c = CHR ''/'')) bytes start;
          authority = drop start (take fin bytes)
      in case position (\<lambda>c. c = CHR ''@'') authority of
           None \<Rightarrow> None
         | Some user_end \<Rightarrow>
             if CHR '':'' \<in> set (take user_end authority)
             then hit_of start (start + user_end) UrlCredentials else None)"

text \<open>\<open>detect\<close> is called at offsets inside the text.\<close>

definition detect :: "string \<Rightarrow> nat \<Rightarrow> hit option" where
  "detect bytes at =
     (let rest = drop at bytes;
          c = bytes ! at;
          boundary_before = (at = 0 \<or> \<not> is_word_byte (bytes ! (at - 1)))
      in if c = CHR ''A'' \<and> boundary_before \<and> length rest \<ge> 20 then detect_aws bytes at
         else if c = CHR ''g'' \<and> boundary_before then detect_github bytes at
         else if (c = CHR ''s'' \<or> c = CHR ''p'') \<and> boundary_before then detect_api_key bytes at
         else if c = CHR ''x'' \<and> boundary_before \<and> length rest \<ge> 5 then detect_slack bytes at
         else if c = CHR ''B'' \<and> boundary_before \<and> starts_with rest ''Bearer '' then detect_bearer bytes at
         else if c = CHR ''='' then detect_credential bytes at
         else if c = CHR '':'' \<and> starts_with rest ''://'' then detect_url bytes at
         else None)"

section \<open>The tables\<close>

type_synonym bitset = "64 word list"

definition set_pair :: "bitset \<Rightarrow> nat \<Rightarrow> bitset" where
  "set_pair bits pair = bits[pair div 64 := bits ! (pair div 64) OR push_bit (pair mod 64) 1]"

definition pair_code :: "char \<Rightarrow> char \<Rightarrow> nat" where
  "pair_code a b = of_char a * 256 + of_char b"

definition digraphs :: "string list" where
  "digraphs = ['':/'', ''AK'', ''AS'', ''AI'', ''AG'', ''AR'', ''AN'', ''gh'', ''gi'', ''sk'', ''pk'', ''xo'', ''Be'']"

definition START_PAIRS :: bitset where
  "START_PAIRS =
     foldl set_pair
       (foldl set_pair (replicate 1024 0)
         (map (\<lambda>second. of_char (CHR ''='') * 256 + second) [0..<256]))
       (map (\<lambda>d. pair_code (d ! 0) (d ! 1)) digraphs)"

definition could_start :: "string \<Rightarrow> nat \<Rightarrow> bool" where
  "could_start bytes at =
     (if at + 1 < length bytes then
        let pair = pair_code (bytes ! at) (bytes ! (at + 1))
        in START_PAIRS ! (pair div 64) AND push_bit (pair mod 64) 1 \<noteq> 0
      else False)"

definition FIRST :: "bool list" where
  "FIRST = foldl (\<lambda>t c. t[of_char c := True]) (replicate 256 False) ''=:AgspxB''"

definition is_first :: "char \<Rightarrow> bool" where
  "is_first c = FIRST ! of_char c"

function next_hit :: "string \<Rightarrow> nat \<Rightarrow> nat \<Rightarrow> hit option" where
  "next_hit bytes index copied =
     (if index + 1 < length bytes then
        (case position is_first (drop index bytes) of
           None \<Rightarrow> None
         | Some k \<Rightarrow>
             let i = index + k in
             case (if could_start bytes i then detect bytes i else None) of
               Some h \<Rightarrow> if hit_start h \<ge> copied then Some h else next_hit bytes (i + 1) copied
             | None \<Rightarrow> next_hit bytes (i + 1) copied)
      else None)"
  by pat_completeness auto
termination
  by (relation "measure (\<lambda>(bytes, index, copied). length bytes - index)") auto

declare next_hit.simps [simp del]

text \<open>
  The detector at every offset, without the tables: the specification of \<open>next_hit\<close>, and what
  the termination of the masking loop rests on.
\<close>

function first_secret :: "string \<Rightarrow> nat \<Rightarrow> nat \<Rightarrow> hit option" where
  "first_secret bytes i copied =
     (if i < length bytes then
        (case detect bytes i of
           Some h \<Rightarrow> if hit_start h \<ge> copied then Some h else first_secret bytes (i + 1) copied
         | None \<Rightarrow> first_secret bytes (i + 1) copied)
      else None)"
  by pat_completeness auto
termination
  by (relation "measure (\<lambda>(bytes, i, copied). length bytes - i)") auto

declare first_secret.simps [simp del]

section \<open>What the tables contain\<close>

definition has_pair :: "bitset \<Rightarrow> nat \<Rightarrow> bool" where
  "has_pair bits pair \<longleftrightarrow> bits ! (pair div 64) AND push_bit (pair mod 64) 1 \<noteq> 0"

lemma has_pair_bit: "has_pair bits pair \<longleftrightarrow> bit (bits ! (pair div 64)) (pair mod 64)"
  by (simp add: has_pair_def push_bit_of_1 and_exp_eq_0_iff_not_bit)

lemma length_set_pairs [simp]: "length (foldl set_pair bits ps) = length bits"
  by (induction ps arbitrary: bits) (simp_all add: set_pair_def)

lemma has_pair_set_pair:
  assumes "length bits = 1024" and "p < 65536" and "q < 65536"
  shows "has_pair (set_pair bits p) q \<longleftrightarrow> q = p \<or> has_pair bits q"
proof (cases "q div 64 = p div 64")
  case True
  then have "q = p \<longleftrightarrow> q mod 64 = p mod 64" by (metis div_mult_mod_eq)
  then show ?thesis
    using True assms by (auto simp: has_pair_bit set_pair_def push_bit_of_1 bit_simps)
next
  case False
  then show ?thesis by (auto simp: has_pair_bit set_pair_def)
qed

lemma has_pair_foldl:
  "length bits = 1024 \<Longrightarrow> \<forall>p \<in> set ps. p < 65536 \<Longrightarrow> q < 65536 \<Longrightarrow>
   has_pair (foldl set_pair bits ps) q \<longleftrightarrow> q \<in> set ps \<or> has_pair bits q"
proof (induction ps arbitrary: bits)
  case (Cons p ps)
  have "length (set_pair bits p) = 1024" using Cons.prems(1) by (simp add: set_pair_def)
  from Cons.IH [OF this] show ?case using Cons.prems by (auto simp: has_pair_set_pair)
qed simp

lemma of_char_lt: "(of_char c :: nat) < 256"
  by (cases c) (simp add: of_char_def)

lemma pair_code_lt: "pair_code a b < 65536"
proof -
  have "(of_char a :: nat) \<le> 255" using of_char_lt [of a] by linarith
  then have "of_char a * 256 \<le> (255 * 256 :: nat)" by (rule mult_le_mono1)
  then show ?thesis unfolding pair_code_def using of_char_lt [of b] by linarith
qed

lemma pair_code_inj: "pair_code a b = pair_code c d \<longleftrightarrow> a = c \<and> b = d"
proof
  assume eq: "pair_code a b = pair_code c d"
  then have "pair_code a b div 256 = pair_code c d div 256" "pair_code a b mod 256 = pair_code c d mod 256"
    by simp_all
  then show "a = c \<and> b = d" using of_char_lt [of b] of_char_lt [of d] by (simp add: pair_code_def)
qed simp

lemma has_pair_start_pairs:
  "has_pair START_PAIRS (pair_code a b) \<longleftrightarrow> a = CHR ''='' \<or> [a, b] \<in> set digraphs"
proof -
  let ?eqs = "map (\<lambda>second. of_char (CHR ''='') * 256 + second) [0..<256]"
  let ?ds = "map (\<lambda>d. pair_code (d ! 0) (d ! 1)) digraphs"
  have "pair_code a b \<in> set ?eqs \<longleftrightarrow> a = CHR ''=''"
  proof
    assume "pair_code a b \<in> set ?eqs"
    then have "15616 \<le> pair_code a b" "pair_code a b < 15872" by auto
    then have "pair_code a b div 256 = 61" by linarith
    then have "of_char a = (61 :: nat)" using of_char_lt [of b] by (simp add: pair_code_def)
    also have "\<dots> = of_char (CHR ''='')" by simp
    finally show "a = CHR ''=''" by (simp only: of_char_eq_iff)
  next
    assume "a = CHR ''=''"
    then show "pair_code a b \<in> set ?eqs" using of_char_lt [of b] by (auto simp: pair_code_def)
  qed
  moreover have "pair_code a b \<in> set ?ds \<longleftrightarrow> [a, b] \<in> set digraphs"
    by (auto simp: pair_code_inj digraphs_def)
  moreover have "has_pair START_PAIRS (pair_code a b) \<longleftrightarrow>
      pair_code a b \<in> set ?ds \<or> pair_code a b \<in> set ?eqs \<or> has_pair (replicate 1024 0) (pair_code a b)"
    unfolding START_PAIRS_def using pair_code_lt
    by (subst has_pair_foldl, simp, auto simp: has_pair_foldl)
  moreover have "\<not> has_pair (replicate 1024 0) (pair_code a b)"
    using pair_code_lt [of a b] by (simp add: has_pair_bit)
  ultimately show ?thesis by blast
qed

lemma could_start_iff:
  "could_start bytes at \<longleftrightarrow> at + 1 < length bytes \<and>
     (bytes ! at = CHR ''='' \<or> [bytes ! at, bytes ! (at + 1)] \<in> set digraphs)"
  using has_pair_start_pairs [of "bytes ! at" "bytes ! (at + 1)"]
  by (simp add: could_start_def has_pair_def Let_def)

lemma first_table:
  "length t = 256 \<Longrightarrow>
   foldl (\<lambda>t c. t[of_char c := True]) t cs ! of_char d \<longleftrightarrow> d \<in> set cs \<or> t ! of_char d"
proof (induction cs arbitrary: t)
  case (Cons c cs)
  then show ?case using of_char_lt [of d] by (auto simp: nth_list_update)
qed simp

lemma is_first_iff: "is_first c \<longleftrightarrow> c \<in> set ''=:AgspxB''"
  using first_table [of "replicate 256 False" "''=:AgspxB''" c] of_char_lt [of c]
  by (simp add: is_first_def FIRST_def)

section \<open>Where a hit lies\<close>

lemma run_end_props:
  assumes "from \<le> length bytes"
  shows "from \<le> run_end P bytes from" "run_end P bytes from \<le> length bytes"
    and "from \<le> i \<Longrightarrow> i < run_end P bytes from \<Longrightarrow> P (bytes ! i)"
    and "run_end P bytes from < length bytes \<Longrightarrow> \<not> P (bytes ! run_end P bytes from)"
proof -
  show "from \<le> run_end P bytes from" "run_end P bytes from \<le> length bytes"
    "run_end P bytes from < length bytes \<Longrightarrow> \<not> P (bytes ! run_end P bytes from)"
    using assms position_Some_iff [of "\<lambda>c. \<not> P c" "drop from bytes"]
    by (auto simp: run_end_def split: option.split)
  show "P (bytes ! i)" if i: "from \<le> i" "i < run_end P bytes from"
  proof (cases "position (\<lambda>c. \<not> P c) (drop from bytes)")
    case None
    then have "\<forall>x \<in> set (drop from bytes). P x" by (simp add: position_None_iff)
    moreover have "bytes ! i = drop from bytes ! (i - from)" "i - from < length (drop from bytes)"
      using i None assms by (simp_all add: run_end_def)
    ultimately show ?thesis by (metis nth_mem)
  next
    case (Some k)
    then have "\<forall>j < k. P (drop from bytes ! j)" by (simp add: position_Some_iff)
    moreover have "i - from < k" using i Some by (simp add: run_end_def)
    ultimately have "P (drop from bytes ! (i - from))" by blast
    then show ?thesis using i assms by simp
  qed
qed

text \<open>An offset next to an ASCII byte, or at the end of the text.\<close>

definition ascii_edge :: "string \<Rightarrow> nat \<Rightarrow> bool" where
  "ascii_edge bytes i \<longleftrightarrow>
     i = length bytes \<or> i < length bytes \<and> is_ascii (bytes ! i)
     \<or> 0 < i \<and> i \<le> length bytes \<and> is_ascii (bytes ! (i - 1))"

lemma ascii_edge_boundary: "utf8_valid bytes \<Longrightarrow> ascii_edge bytes i \<Longrightarrow> is_char_boundary bytes i"
  using boundary_at_ascii [of i bytes] boundary_after_ascii [of bytes i]
  by (auto simp: ascii_edge_def is_char_boundary_def)

lemma ascii_classes:
  "is_ascii_alphanumeric c \<Longrightarrow> is_ascii c" "is_word_byte c \<Longrightarrow> is_ascii c" "is_token_byte c \<Longrightarrow> is_ascii c"
  "is_ascii_whitespace c \<Longrightarrow> is_ascii c" "is_ascii_uppercase c \<or> is_ascii_digit c \<Longrightarrow> is_ascii c"
  by (auto simp: is_ascii_alphanumeric_def is_ascii_alphabetic_def is_ascii_digit_def is_ascii_def
      is_word_byte_def is_token_byte_def is_ascii_whitespace_def is_ascii_uppercase_def)

lemma run_end_edge:
  assumes "from < run_end P bytes from" and "from \<le> length bytes" and "\<And>c. P c \<Longrightarrow> is_ascii c"
  shows "ascii_edge bytes (run_end P bytes from)"
  using run_end_props(2) [OF assms(2), of P] assms(1,3)
    run_end_props(3) [OF assms(2), of "run_end P bytes from - 1" P]
  by (simp add: ascii_edge_def)

lemma run_stop_edge:
  assumes "from \<le> length bytes" and "\<And>c. \<not> P c \<Longrightarrow> is_ascii c"
  shows "ascii_edge bytes (run_end P bytes from)"
  using run_end_props(2,4) [OF assms(1), of P] assms(2)
  by (cases "run_end P bytes from = length bytes") (auto simp: ascii_edge_def)

definition hit_ok :: "string \<Rightarrow> nat \<Rightarrow> hit \<Rightarrow> bool" where
  "hit_ok bytes at h \<longleftrightarrow>
     at \<le> hit_start h \<and> hit_start h < hit_end h \<and> hit_end h \<le> length bytes
     \<and> ascii_edge bytes (hit_start h) \<and> ascii_edge bytes (hit_end h)"

lemma starts_with_nth: "starts_with s p \<Longrightarrow> i < length p \<Longrightarrow> s ! i = p ! i \<and> length p \<le> length s"
  by (auto simp: starts_with_append nth_append)

lemma prefix_at:
  assumes "starts_with (drop at bytes) p" and "at \<le> length bytes"
  shows "at + length p \<le> length bytes" and "i < length p \<Longrightarrow> bytes ! (at + i) = p ! i"
proof -
  obtain r where r: "drop at bytes = p @ r" using assms(1) by (auto simp: starts_with_append)
  then have "length bytes - at = length p + length r" by (metis length_append length_drop)
  then show "at + length p \<le> length bytes" using assms(2) by simp
  assume "i < length p"
  then have "drop at bytes ! i = p ! i" using r by (simp add: nth_append)
  then show "bytes ! (at + i) = p ! i" using assms(2) by simp
qed

lemma ascii_const [simp]:
  "is_ascii CHR ''A''" "is_ascii CHR ''g''" "is_ascii CHR ''s''" "is_ascii CHR ''p''" "is_ascii CHR ''x''"
  "is_ascii CHR '' ''" "is_ascii CHR ''=''" "is_ascii CHR ''/''" "is_ascii CHR ''@''" "is_ascii CHR ''.''"
  "is_ascii CHR 0x22" "is_ascii CHR 0x27"
  by (simp_all add: is_ascii_def)

lemma detect_aws_ok:
  assumes "detect_aws bytes at = Some h" and "at + 20 \<le> length bytes" and "is_ascii (bytes ! at)"
  shows "hit_ok bytes at h" and "bytes ! (at + 1) \<in> set ''KSIGRN''"
proof -
  let ?rest = "drop at bytes"
  have pre: "take 4 ?rest \<in> set [''AKIA'', ''ASIA'', ''AIDA'', ''AGPA'', ''AROA'', ''ANPA'']"
    and all: "list_all (\<lambda>c. is_ascii_uppercase c \<or> is_ascii_digit c) (take 16 (drop 4 ?rest))"
    and h: "h = \<lparr>hit_start = at, hit_end = at + 20, hit_kind = AwsKey\<rparr>"
    using assms(1) by (auto simp: detect_aws_def Let_def split: if_splits)
  have "take 4 ?rest ! 1 = bytes ! (at + 1)" using assms(2) by simp
  moreover have "take 4 ?rest ! 1 \<in> set ''KSIGRN''"
    using pre by (auto simp del: nth_take)
  ultimately show "bytes ! (at + 1) \<in> set ''KSIGRN''" by simp
  have "bytes ! (at + 19) = take 16 (drop 4 ?rest) ! 15" "15 < length (take 16 (drop 4 ?rest))"
    using assms(2) by (simp_all add: add.commute)
  then have "bytes ! (at + 19) \<in> set (take 16 (drop 4 ?rest))" by (metis nth_mem)
  then have "is_ascii (bytes ! (at + 19))" using all ascii_classes(5) by (auto simp: list_all_iff)
  then show "hit_ok bytes at h" using assms(2,3)
    by (simp add: hit_ok_def h ascii_edge_def add.commute)
qed

lemma detect_github_ok:
  assumes "detect_github bytes at = Some h" and "at < length bytes" and "is_ascii (bytes ! at)"
  shows "hit_ok bytes at h" and "at + 1 < length bytes" and "bytes ! (at + 1) \<in> set ''hi''"
proof -
  let ?rest = "drop at bytes"
  consider (short) "length ?rest \<ge> 40" "?rest ! 1 = CHR ''h''" "run_end is_ascii_alphanumeric ?rest 4 - 4 \<ge> 36"
      "h = \<lparr>hit_start = at, hit_end = at + run_end is_ascii_alphanumeric ?rest 4, hit_kind = GithubToken\<rparr>"
    | (pat) "starts_with ?rest ''github_pat_''" "run_end is_word_byte ?rest 11 - 11 \<ge> 22"
      "h = \<lparr>hit_start = at, hit_end = at + run_end is_word_byte ?rest 11, hit_kind = GithubToken\<rparr>"
    using assms(1) by (auto simp: detect_github_def Let_def split: if_splits)
  note shape = this
  have edge: "ascii_edge bytes (at + e)" if "ascii_edge ?rest e" "0 < e" for e
    using that assms(2) by (auto simp: ascii_edge_def add.commute)
  from shape show "hit_ok bytes at h"
  proof cases
    case short
    have "ascii_edge ?rest (run_end is_ascii_alphanumeric ?rest 4)"
      by (rule run_end_edge) (use short ascii_classes(1) in auto)
    then have "ascii_edge bytes (hit_end h)" using short edge by simp
    then show ?thesis using short assms(2,3) run_end_props(2) [of 4 ?rest is_ascii_alphanumeric]
      by (auto simp: hit_ok_def ascii_edge_def [of _ at])
  next
    case pat
    have len: "11 \<le> length ?rest" using prefix_at(1) [OF pat(1)] assms(2) by simp
    have "ascii_edge ?rest (run_end is_word_byte ?rest 11)"
      by (rule run_end_edge) (use pat len ascii_classes(2) in auto)
    then have "ascii_edge bytes (hit_end h)" using pat edge by simp
    then show ?thesis using pat assms(2,3) len run_end_props(2) [of 11 ?rest is_word_byte]
      by (auto simp: hit_ok_def ascii_edge_def [of _ at])
  qed
  from shape show "at + 1 < length bytes"
    by cases (use prefix_at(1) [of at bytes "''github_pat_''"] assms(2) in auto)
  from shape show "bytes ! (at + 1) \<in> set ''hi''"
  proof cases
    case short
    then show ?thesis using assms(2) by simp
  next
    case pat
    then show ?thesis using prefix_at(2) [of at bytes "''github_pat_''" 1] assms(2) by simp
  qed
qed

lemma token_run_ok:
  assumes "at + n \<le> length bytes" and "n < 16" and "16 \<le> token_run bytes (at + n) - at"
  shows "ascii_edge bytes (token_run bytes (at + n))" "at < token_run bytes (at + n)"
    "token_run bytes (at + n) \<le> length bytes"
proof -
  show "token_run bytes (at + n) \<le> length bytes" "at < token_run bytes (at + n)"
    using run_end_props(2) [OF assms(1), of is_token_byte] assms(3) by (simp_all add: token_run_def)
  show "ascii_edge bytes (token_run bytes (at + n))" unfolding token_run_def
    by (rule run_end_edge) (use assms ascii_classes(3) in \<open>auto simp: token_run_def\<close>)
qed

lemma detect_api_key_ok:
  assumes "detect_api_key bytes at = Some h" and "at < length bytes" and "is_ascii (bytes ! at)"
  shows "hit_ok bytes at h" and "at + 1 < length bytes" and "bytes ! (at + 1) = CHR ''k''"
    and "bytes ! at \<in> set ''sp''"
proof -
  obtain p where p: "starts_with (drop at bytes) p" "p \<in> set [''sk-'', ''sk_live_'', ''pk_live_'']"
    and r: "16 \<le> token_run bytes (at + length p) - at"
    and h: "h = \<lparr>hit_start = at, hit_end = token_run bytes (at + length p), hit_kind = ApiKey\<rparr>"
  proof -
    consider "starts_with (drop at bytes) ''sk-''" | "\<not> starts_with (drop at bytes) ''sk-''"
        "starts_with (drop at bytes) ''sk_live_''" | "\<not> starts_with (drop at bytes) ''sk-''"
        "starts_with (drop at bytes) ''pk_live_''"
      using assms(1) by (auto simp: detect_api_key_def Let_def split: if_splits)
    then show ?thesis
      using that [of "''sk-''"] that [of "''sk_live_''"] that [of "''pk_live_''"] assms(1)
      by cases (auto simp: detect_api_key_def Let_def numeral_eq_Suc split: if_splits)
  qed
  have l: "2 < length p" "length p < 16" using p(2) by auto
  have le: "at + length p \<le> length bytes" using prefix_at(1) [OF p(1)] assms(2) by simp
  show "hit_ok bytes at h"
    using token_run_ok [OF le l(2) r] assms(2,3) by (simp add: hit_ok_def h ascii_edge_def [of _ at])
  show "at + 1 < length bytes" using le l by simp
  show "bytes ! (at + 1) = CHR ''k''" "bytes ! at \<in> set ''sp''"
    using prefix_at(2) [OF p(1), of 0] prefix_at(2) [OF p(1), of 1] assms(2) l p(2) by auto
qed

lemma detect_slack_ok:
  assumes "detect_slack bytes at = Some h" and "at + 5 \<le> length bytes" and "is_ascii (bytes ! at)"
  shows "hit_ok bytes at h" and "bytes ! (at + 1) = CHR ''o''"
proof -
  have p: "starts_with (drop at bytes) ''xox''" and r: "16 \<le> token_run bytes (at + 5) - at"
    and h: "h = \<lparr>hit_start = at, hit_end = token_run bytes (at + 5), hit_kind = SlackToken\<rparr>"
    using assms(1) by (auto simp: detect_slack_def Let_def split: if_splits)
  show "hit_ok bytes at h"
    using token_run_ok [OF assms(2) _ r] assms(2,3) by (simp add: hit_ok_def h ascii_edge_def [of _ at])
  show "bytes ! (at + 1) = CHR ''o''" using prefix_at(2) [OF p, of 1] assms(2) by simp
qed

lemma detect_bearer_ok:
  assumes "detect_bearer bytes at = Some h" and p: "starts_with (drop at bytes) ''Bearer ''"
    and "at < length bytes"
  shows "hit_ok bytes at h" and "at + 1 < length bytes" and "bytes ! (at + 1) = CHR ''e''"
proof -
  let ?P = "\<lambda>c. is_token_byte c \<or> c = CHR ''.'' \<or> c = CHR ''=''"
  have r: "8 \<le> run_end ?P bytes (at + 7) - (at + 7)"
    and h: "h = \<lparr>hit_start = at + 7, hit_end = run_end ?P bytes (at + 7), hit_kind = Bearer\<rparr>"
    using assms(1) by (auto simp: detect_bearer_def Let_def split: if_splits)
  have le: "at + 7 \<le> length bytes" using prefix_at(1) [OF p] assms(3) by simp
  have "bytes ! (at + 6) = CHR '' ''" using prefix_at(2) [OF p, of 6] assms(3) by simp
  then have "ascii_edge bytes (at + 7)" using le by (simp add: ascii_edge_def add.commute)
  moreover have "ascii_edge bytes (run_end ?P bytes (at + 7))"
    by (rule run_end_edge) (use r le ascii_classes(3) in auto)
  ultimately show "hit_ok bytes at h"
    using r run_end_props(2) [OF le, of ?P] by (simp add: hit_ok_def h)
  show "at + 1 < length bytes" using le by simp
  show "bytes ! (at + 1) = CHR ''e''" using prefix_at(2) [OF p, of 1] assms(3) by simp
qed

lemma detect_credential_ok:
  assumes "detect_credential bytes at = Some h" and "at < length bytes" and "is_ascii (bytes ! at)"
  shows "hit_ok bytes at h" and "at < hit_start h"
proof -
  define quote where "quote = (if at + 1 < length bytes \<and> bytes ! (at + 1) \<in> {CHR 0x22, CHR 0x27}
                        then Some (bytes ! (at + 1)) else None)"
  define start where "start = (if quote = None then at + 1 else at + 2)"
  define P where "P = (\<lambda>c. \<not> (is_ascii_whitespace c \<or> quote = Some c))"
  have h: "h = \<lparr>hit_start = start, hit_end = run_end P bytes start, hit_kind = Credential\<rparr>"
    and v: "8 \<le> length (drop start (take (run_end P bytes start) bytes))"
    using assms(1)
    unfolding detect_credential_def Let_def quote_def [symmetric] start_def [symmetric] P_def [symmetric]
    by (auto split: if_splits)
  have q: "is_ascii c" if "quote = Some c" for c using that by (auto simp: quote_def split: if_splits)
  have le: "start \<le> length bytes" using assms(2) by (auto simp: start_def quote_def split: if_splits)
  have "ascii_edge bytes start"
    using assms(2,3) by (auto simp: start_def quote_def ascii_edge_def)
  moreover have "ascii_edge bytes (run_end P bytes start)"
    by (rule run_stop_edge [OF le]) (use ascii_classes(4) q in \<open>auto simp: P_def\<close>)
  ultimately show "hit_ok bytes at h"
    using v run_end_props(2) [OF le, of P] by (auto simp: hit_ok_def h start_def)
  show "at < hit_start h" by (simp add: h start_def)
qed

lemma detect_url_ok:
  assumes "detect_url bytes at = Some h" and p: "starts_with (drop at bytes) ''://''"
    and "at < length bytes"
  shows "hit_ok bytes at h" and "at + 1 < length bytes" and "bytes ! (at + 1) = CHR ''/''"
proof -
  let ?P = "\<lambda>c. \<not> (is_ascii_whitespace c \<or> c = CHR ''/'')"
  let ?fin = "run_end ?P bytes (at + 3)"
  let ?auth = "drop (at + 3) (take ?fin bytes)"
  obtain u where u: "position (\<lambda>c. c = CHR ''@'') ?auth = Some u" "CHR '':'' \<in> set (take u ?auth)"
    and h: "h = \<lparr>hit_start = at + 3, hit_end = at + 3 + u, hit_kind = UrlCredentials\<rparr>"
    using assms(1) by (auto simp: detect_url_def Let_def split: option.splits if_splits)
  have le: "at + 3 \<le> length bytes" using prefix_at(1) [OF p] assms(3) by simp
  have "bytes ! (at + 2) = CHR ''/''" using prefix_at(2) [OF p, of 2] assms(3) by simp
  then have "ascii_edge bytes (at + 3)" using le by (simp add: ascii_edge_def add.commute)
  moreover have "u < length ?auth" "?auth ! u = CHR ''@''" using u(1) by (auto simp: position_Some_iff)
  then have at_sign: "at + 3 + u < length bytes" "bytes ! (at + 3 + u) = CHR ''@''"
    using run_end_props(2) [OF le, of ?P] by (auto simp: add.assoc)
  then have "ascii_edge bytes (at + 3 + u)" by (simp add: ascii_edge_def)
  moreover have "0 < u" using u(2) by (cases u) auto
  ultimately show "hit_ok bytes at h" using at_sign by (simp add: hit_ok_def h)
  show "at + 1 < length bytes" using le by simp
  show "bytes ! (at + 1) = CHR ''/''" using prefix_at(2) [OF p, of 1] assms(3) by simp
qed

lemma detect_ok:
  assumes "detect bytes at = Some h" and "at < length bytes"
  shows "hit_ok bytes at h" and "is_first (bytes ! at)" and "could_start bytes at"
proof -
  let ?c = "bytes ! at"
  consider (aws) "?c = CHR ''A''" "at + 20 \<le> length bytes" "detect_aws bytes at = Some h"
    | (github) "?c = CHR ''g''" "detect_github bytes at = Some h"
    | (api) "?c = CHR ''s'' \<or> ?c = CHR ''p''" "detect_api_key bytes at = Some h"
    | (slack) "?c = CHR ''x''" "at + 5 \<le> length bytes" "detect_slack bytes at = Some h"
    | (bearer) "?c = CHR ''B''" "starts_with (drop at bytes) ''Bearer ''" "detect_bearer bytes at = Some h"
    | (cred) "?c = CHR ''=''" "detect_credential bytes at = Some h"
    | (url) "?c = CHR '':''" "starts_with (drop at bytes) ''://''" "detect_url bytes at = Some h"
    using assms unfolding detect_def Let_def by (auto split: if_splits)
  then have "hit_ok bytes at h \<and> is_first ?c \<and> could_start bytes at"
  proof cases
    case aws
    then show ?thesis using detect_aws_ok [OF aws(3,2)]
      by (auto simp: is_first_iff could_start_iff digraphs_def)
  next
    case github
    then show ?thesis using detect_github_ok [OF github(2) assms(2)]
      by (auto simp: is_first_iff could_start_iff digraphs_def)
  next
    case api
    then have "is_ascii ?c" by auto
    then show ?thesis using api(1) detect_api_key_ok [OF api(2) assms(2)]
      by (auto simp: is_first_iff could_start_iff digraphs_def)
  next
    case slack
    then show ?thesis using detect_slack_ok [OF slack(3,2)]
      by (auto simp: is_first_iff could_start_iff digraphs_def)
  next
    case bearer
    then show ?thesis using detect_bearer_ok [OF bearer(3,2) assms(2)]
      by (auto simp: is_first_iff could_start_iff digraphs_def)
  next
    case cred
    then show ?thesis using detect_credential_ok [OF cred(2) assms(2)]
      by (auto simp: is_first_iff could_start_iff hit_ok_def)
  next
    case url
    then show ?thesis using detect_url_ok [OF url(3,2) assms(2)]
      by (auto simp: is_first_iff could_start_iff digraphs_def)
  qed
  then show "hit_ok bytes at h" "is_first (bytes ! at)" "could_start bytes at" by simp_all
qed

section \<open>The tables skip nothing\<close>

lemma not_first_no_hit: "j < length bytes \<Longrightarrow> \<not> is_first (bytes ! j) \<Longrightarrow> detect bytes j = None"
  using detect_ok(2) [of bytes j] by (cases "detect bytes j") auto

lemma first_secret_skip:
  "i \<le> k \<Longrightarrow> k \<le> length bytes \<Longrightarrow> \<forall>j. i \<le> j \<longrightarrow> j < k \<longrightarrow> detect bytes j = None \<Longrightarrow>
   first_secret bytes i copied = first_secret bytes k copied"
proof (induction "k - i" arbitrary: i)
  case (Suc n)
  have "detect bytes i = None" using Suc.prems Suc.hyps(2) by simp
  then have "first_secret bytes i copied = first_secret bytes (i + 1) copied"
    using Suc.prems(2) Suc.hyps(2) by (subst first_secret.simps) auto
  also have "\<dots> = first_secret bytes k copied"
    by (rule Suc.hyps(1)) (use Suc.prems Suc.hyps(2) in simp_all)
  finally show ?case .
qed simp

lemma first_secret_end: "length bytes \<le> i + 1 \<Longrightarrow> first_secret bytes i copied = None"
proof -
  assume le: "length bytes \<le> i + 1"
  have "detect bytes i = None" if "i < length bytes"
  proof (rule ccontr)
    assume "detect bytes i \<noteq> None"
    then obtain h where "detect bytes i = Some h" by auto
    from detect_ok(3) [OF this that] le show False by (simp add: could_start_iff)
  qed
  then show ?thesis
    using le first_secret.simps [of bytes "i + 1" copied]
    by (subst first_secret.simps) auto
qed

lemma next_hit_spec: "next_hit bytes i copied = first_secret bytes i copied"
proof (induction bytes i copied rule: next_hit.induct)
  case (1 bytes i copied)
  show ?case
  proof (cases "i + 1 < length bytes")
    case False
    then show ?thesis by (simp add: next_hit.simps [of bytes i] first_secret_end)
  next
    case True
    show ?thesis
    proof (cases "position is_first (drop i bytes)")
      case None
      then have "\<not> is_first (bytes ! j)" if "i \<le> j" "j < length bytes" for j
        using that nth_mem [of "j - i" "drop i bytes"] by (simp add: position_None_iff)
      then have "first_secret bytes i copied = first_secret bytes (length bytes) copied"
        using True not_first_no_hit by (intro first_secret_skip) simp_all
      then show ?thesis using True None
        by (simp add: next_hit.simps [of bytes i] first_secret.simps [of bytes "length bytes"])
    next
      case (Some k)
      then have k: "k < length (drop i bytes)" "\<forall>j < k. \<not> is_first (drop i bytes ! j)"
        by (auto simp: position_Some_iff)
      then have lt: "i + k < length bytes" by simp
      have no: "detect bytes j = None" if j: "i \<le> j" "j < i + k" for j
      proof (rule not_first_no_hit)
        have "\<not> is_first (drop i bytes ! (j - i))" using k(2) j by simp
        then show "j < length bytes" "\<not> is_first (bytes ! j)" using j k(1) by simp_all
      qed
      have "first_secret bytes i copied = first_secret bytes (i + k) copied"
        using no k(1) by (intro first_secret_skip) auto
      moreover have "next_hit bytes i copied = first_secret bytes (i + k) copied"
      proof (cases "detect bytes (i + k)")
        case None
        then show ?thesis using True Some lt "1.IH"(1) [OF True Some refl]
          by (simp add: next_hit.simps [of bytes i] first_secret.simps [of bytes "i + k"] Let_def)
      next
        case h: (Some h)
        moreover have "could_start bytes (i + k)" using detect_ok(3) [OF h] k(1) by simp
        ultimately show ?thesis using True Some lt "1.IH"(2) [OF True Some refl]
          by (simp add: next_hit.simps [of bytes i] first_secret.simps [of bytes "i + k"] Let_def)
      qed
      ultimately show ?thesis by simp
    qed
  qed
qed

lemma first_secret_Some:
  "first_secret bytes i copied = Some h \<Longrightarrow>
   \<exists>j. i \<le> j \<and> j < length bytes \<and> detect bytes j = Some h \<and> copied \<le> hit_start h"
proof (induction bytes i copied rule: first_secret.induct)
  case (1 bytes i copied)
  show ?case
    using "1.prems" "1.IH"
    by (subst (asm) first_secret.simps)
       (auto split: if_splits option.splits dest: Suc_leD)
qed

lemma next_hit_ok:
  assumes "next_hit bytes i copied = Some h"
  shows "\<exists>j \<ge> i. hit_ok bytes j h" and "copied \<le> hit_start h" and "i < length bytes"
  using first_secret_Some [OF assms [unfolded next_hit_spec]] detect_ok(1) by fastforce+

lemma next_hit_advances:
  assumes "next_hit bytes c c = Some h"
  shows "c \<le> hit_start h" "hit_start h < hit_end h" "hit_end h \<le> length bytes" "c < length bytes"
    "ascii_edge bytes (hit_start h)" "ascii_edge bytes (hit_end h)"
  using next_hit_ok [OF assms] by (auto simp: hit_ok_def)

section \<open>Masking\<close>

text \<open>Slicing a text at a wrong offset panics: the results are optional, with \<open>None\<close> the panic.\<close>

definition placeholder :: "hit \<Rightarrow> string" where
  "placeholder h = ''[masked:'' @ label (hit_kind h) @ '']''"

function mask_loop :: "string \<Rightarrow> string \<Rightarrow> nat \<Rightarrow> hit \<Rightarrow> string option" where
  "mask_loop s out copied h =
     (case str_slice s copied (hit_start h) of
        None \<Rightarrow> None
      | Some piece \<Rightarrow>
          let out = out @ piece @ placeholder h;
              copied = hit_end h
          in case next_hit s (hit_end h) copied of
               Some next \<Rightarrow> mask_loop s out copied next
             | None \<Rightarrow> map_option (\<lambda>rest. out @ rest) (str_slice s copied (length s)))"
  by pat_completeness auto
termination
proof (relation "measure (\<lambda>(s, out, copied, h). length s - hit_end h)", goal_cases)
  case (2 s out copied h piece out' copied' n)
  then show ?case using next_hit_advances [of s "hit_end h" n] by simp
qed simp

declare mask_loop.simps [simp del]

definition mask_secrets :: "string \<Rightarrow> string option" where
  "mask_secrets s = (case next_hit s 0 0 of None \<Rightarrow> Some s | Some h \<Rightarrow> mask_loop s [] 0 h)"

function masked_len_loop :: "string \<Rightarrow> nat \<Rightarrow> nat \<Rightarrow> nat option" where
  "masked_len_loop s copied cost =
     (case next_hit s copied copied of
        Some h \<Rightarrow>
          (case str_slice s copied (hit_start h) of
             None \<Rightarrow> None
           | Some piece \<Rightarrow> masked_len_loop s (hit_end h)
               (cost + (escaped_len piece + 9 + length (label (hit_kind h)))))
      | None \<Rightarrow> map_option (\<lambda>rest. cost + escaped_len rest) (str_slice s copied (length s)))"
  by pat_completeness auto
termination
proof (relation "measure (\<lambda>(s, copied, cost). length s - copied)", goal_cases)
  case (2 s copied cost h piece)
  then show ?case using next_hit_advances [of s copied h] by simp
qed simp

declare masked_len_loop.simps [simp del]

definition masked_escaped_len :: "string \<Rightarrow> nat option" where
  "masked_escaped_len s = masked_len_loop s 0 0"

text \<open>The specification: from left to right, the first secret the detector finds is replaced.\<close>

function mask_spec :: "string \<Rightarrow> nat \<Rightarrow> string" where
  "mask_spec s copied =
     (case first_secret s copied copied of
        None \<Rightarrow> drop copied s
      | Some h \<Rightarrow> drop copied (take (hit_start h) s) @ placeholder h @ mask_spec s (hit_end h))"
  by pat_completeness auto
termination
proof (relation "measure (\<lambda>(s, copied). length s - copied)", goal_cases)
  case (2 s copied h)
  then show ?case using next_hit_advances [of s copied h] by (simp add: next_hit_spec)
qed simp

declare mask_spec.simps [simp del]

lemma slice_ok:
  assumes "utf8_valid s" and "is_char_boundary s c" and "next_hit s c c = Some h"
  shows "str_slice s c (hit_start h) = Some (drop c (take (hit_start h) s))"
    and "is_char_boundary s (hit_end h)"
  using assms next_hit_advances [OF assms(3)] ascii_edge_boundary [OF assms(1)]
  by (simp_all add: str_slice_def)

lemma slice_rest: "is_char_boundary s c \<Longrightarrow> c \<le> length s \<Longrightarrow> str_slice s c (length s) = Some (drop c s)"
  by (simp add: str_slice_def is_char_boundary_def [of s "length s"])

lemma mask_loop_spec:
  "utf8_valid s \<Longrightarrow> is_char_boundary s c \<Longrightarrow> next_hit s c c = Some h \<Longrightarrow>
   mask_loop s out c h = Some (out @ mask_spec s c)"
proof (induction s out c h rule: mask_loop.induct)
  case (1 s out c h)
  note ok = slice_ok [OF "1.prems"]
  have spec: "mask_spec s c = drop c (take (hit_start h) s) @ placeholder h @ mask_spec s (hit_end h)"
    using "1.prems"(3) by (simp add: mask_spec.simps [of s c] next_hit_spec)
  show ?case
  proof (cases "next_hit s (hit_end h) (hit_end h)")
    case None
    then show ?thesis
      using ok slice_rest next_hit_advances(3) [OF "1.prems"(3)]
      by (simp add: mask_loop.simps [of s] spec Let_def mask_spec.simps [of s "hit_end h"] next_hit_spec)
  next
    case (Some n)
    from "1.IH" [OF ok(1) refl refl Some "1.prems"(1) ok(2) Some] ok(1) Some show ?thesis
      by (simp add: mask_loop.simps [of s out] spec)
  qed
qed

text \<open>C21 (equivalence). On valid UTF-8 masking never panics, and with its two lookup tables it
  replaces exactly the secrets that the detector, run at every byte offset from left to right,
  finds.\<close>

theorem mask_secrets_spec:
  assumes "utf8_valid s"
  shows "mask_secrets s = Some (mask_spec s 0)"
proof (cases "next_hit s 0 0")
  case None
  then show ?thesis by (simp add: mask_secrets_def mask_spec.simps next_hit_spec)
next
  case (Some h)
  then show ?thesis using mask_loop_spec [OF assms _ Some, of "[]"]
    by (simp add: mask_secrets_def is_char_boundary_def)
qed

theorem mask_secrets_spec_witness: "mask_secrets ''TOKEN=abcdefgh1'' = Some (mask_spec ''TOKEN=abcdefgh1'' 0)"
  by (rule mask_secrets_spec) (simp add: utf8_valid.simps utf8_len_def is_ascii_def)

lemma escaped_placeholder: "escaped_len (placeholder h) = 9 + length (label (hit_kind h))"
  by (cases "hit_kind h") (simp_all add: placeholder_def escaped_byte_len_def)

lemma masked_len_loop_spec:
  "utf8_valid s \<Longrightarrow> is_char_boundary s c \<Longrightarrow> c \<le> length s \<Longrightarrow>
   masked_len_loop s c cost = Some (cost + escaped_len (mask_spec s c))"
proof (induction s c cost rule: masked_len_loop.induct)
  case (1 s c cost)
  show ?case
  proof (cases "next_hit s c c")
    case None
    then show ?thesis using slice_rest [OF "1.prems"(2,3)]
      by (simp add: masked_len_loop.simps [of s c] mask_spec.simps [of s c] next_hit_spec)
  next
    case (Some h)
    note ok = slice_ok [OF "1.prems"(1,2) Some]
    from "1.IH" [OF Some ok(1) "1.prems"(1) ok(2) next_hit_advances(3) [OF Some]] ok(1) Some
    show ?thesis
      by (simp add: masked_len_loop.simps [of s c] mask_spec.simps [of s c] escaped_placeholder
          next_hit_spec [symmetric])
  qed
qed

text \<open>The escaped size that is computed without building the masked text is the
  escaped size of the masked text.\<close>

lemma masked_escaped_len_correct:
  assumes "utf8_valid s"
  shows "masked_escaped_len s = Some (escaped_len (mask_spec s 0))"
  using masked_len_loop_spec [OF assms, of 0 0] by (simp add: masked_escaped_len_def is_char_boundary_def)

lemma masked_escaped_len_correct_witness:
  "masked_escaped_len ''a=b'' = Some (escaped_len (mask_spec ''a=b'' 0))"
  by (rule masked_escaped_len_correct) (simp add: utf8_valid.simps utf8_len_def is_ascii_def)

end
