(* ===== verification/Network.thy ===== *)
theory Network
  imports Rust_Str
begin

text \<open>
  Which hosts and addresses the fetch tool may reach (\<^verbatim>\<open>crates/qq-core/src/tools/network.rs\<close>)
  and which host entries a configuration may hold (\<open>validate_host\<close> in
  \<^verbatim>\<open>crates/qq-config/src/document.rs\<close>).

  Addresses are words of their width. The \<open>url\<close> crate appears as the record of what the code
  reads of a parsed URL; the CIDR test of the \<open>ipnet\<close> crate is a parameter whose documented law
  is the locale \<open>cidr_tests\<close>. The address types of the standard library are modelled.
\<close>

unbundle bit_operations_syntax

section \<open>Addresses\<close>

type_synonym ipv4 = "32 word"
type_synonym ipv6 = "128 word"

datatype ip_addr = V4 ipv4 | V6 ipv6

definition Ipv4Addr_new :: "nat \<Rightarrow> nat \<Rightarrow> nat \<Rightarrow> nat \<Rightarrow> ipv4" where
  "Ipv4Addr_new a b c d = of_nat (((a * 256 + b) * 256 + c) * 256 + d)"

definition octets :: "ipv4 \<Rightarrow> nat list" where
  "octets a = map (\<lambda>i. unat (drop_bit (8 * i) a AND 0xFF)) [3, 2, 1, 0]"

definition segments :: "ipv6 \<Rightarrow> nat list" where
  "segments a = map (\<lambda>i. unat (drop_bit (16 * i) a AND 0xFFFF)) [7, 6, 5, 4, 3, 2, 1, 0]"

definition Ipv6Addr_new :: "nat list \<Rightarrow> ipv6" where
  "Ipv6Addr_new segs = foldl (\<lambda>w s. push_bit 16 w OR of_nat s) 0 segs"

definition to_ipv4_mapped :: "ipv6 \<Rightarrow> ipv4 option" where
  "to_ipv4_mapped a = (if drop_bit 32 a = 0xFFFF then Some (ucast a) else None)"

definition is_loopback4 :: "ipv4 \<Rightarrow> bool" where
  "is_loopback4 a \<longleftrightarrow> octets a ! 0 = 127"

definition is_private4 :: "ipv4 \<Rightarrow> bool" where
  "is_private4 a \<longleftrightarrow>
     octets a ! 0 = 10 \<or> octets a ! 0 = 172 \<and> 16 \<le> octets a ! 1 \<and> octets a ! 1 \<le> 31
     \<or> octets a ! 0 = 192 \<and> octets a ! 1 = 168"

definition is_loopback6 :: "ipv6 \<Rightarrow> bool" where
  "is_loopback6 a \<longleftrightarrow> a = 1"

section \<open>Policy and refusals\<close>

record network_policy =
  deny_hosts :: "string list"
  allow_private_for_tests :: bool

definition NetworkPolicy_default :: network_policy where
  "NetworkPolicy_default = \<lparr>deny_hosts = [], allow_private_for_tests = False\<rparr>"

datatype host_refusal =
    Scheme
  | NoHost
  | ManagedDeny string
  | PrivateName string
  | Metadata string
  | PrivateAddress string ip_addr
  | Unresolved string

datatype url_host = Domain string | HostV4 ipv4 | HostV6 ipv6

text \<open>What the code reads of a parsed URL: \<open>scheme()\<close>, \<open>host()\<close>, \<open>host_str()\<close>,
  \<open>port_or_known_default()\<close> and \<open>as_str()\<close>.\<close>

record url =
  url_scheme :: string
  url_host :: "url_host option"
  url_host_str :: "string option"
  url_port :: "nat option"
  url_text :: string

section \<open>Host names\<close>

definition host_grant_matches :: "string \<Rightarrow> string \<Rightarrow> bool" where
  "host_grant_matches grant host =
     (case strip_prefix grant ''*.'' of
        Some suffix \<Rightarrow>
          (case strip_suffix host suffix of
             Some head \<Rightarrow> length head > 1 \<and> ends_with head ''.''
           | None \<Rightarrow> False)
      | None \<Rightarrow> eq_ignore_ascii_case grant host)"

definition PRIVATE_SUFFIXES :: "string list" where
  "PRIVATE_SUFFIXES = [''.local'', ''.internal'', ''.localhost'', ''.home.arpa'', ''.lan'']"

definition METADATA_HOSTS :: "string list" where
  "METADATA_HOSTS =
     [''metadata.google.internal'', ''metadata'', ''instance-data'', ''instance-data.ec2.internal'']"

text \<open>\<open>trim_end_matches('.')\<close>.\<close>

definition trim_end_dots :: "string \<Rightarrow> string" where
  "trim_end_dots s = rev (dropWhile (\<lambda>c. c = CHR ''.'') (rev s))"

section \<open>Addresses that are refused\<close>

definition REFUSED_V4 :: "(ipv4 \<times> nat) list" where
  "REFUSED_V4 =
     [(Ipv4Addr_new 0 0 0 0, 8), (Ipv4Addr_new 10 0 0 0, 8), (Ipv4Addr_new 100 64 0 0, 10),
      (Ipv4Addr_new 127 0 0 0, 8), (Ipv4Addr_new 169 254 0 0, 16), (Ipv4Addr_new 172 16 0 0, 12),
      (Ipv4Addr_new 192 0 0 0, 24), (Ipv4Addr_new 192 0 2 0, 24), (Ipv4Addr_new 192 168 0 0, 16),
      (Ipv4Addr_new 198 18 0 0, 15), (Ipv4Addr_new 198 51 100 0, 24), (Ipv4Addr_new 203 0 113 0, 24),
      (Ipv4Addr_new 224 0 0 0, 4), (Ipv4Addr_new 240 0 0 0, 4)]"

definition REFUSED_V6 :: "(ipv6 \<times> nat) list" where
  "REFUSED_V6 =
     [(Ipv6Addr_new [0, 0, 0, 0, 0, 0, 0, 0], 127), (Ipv6Addr_new [0x100, 0, 0, 0, 0, 0, 0, 0], 64),
      (Ipv6Addr_new [0x2001, 0xdb8, 0, 0, 0, 0, 0, 0], 32), (Ipv6Addr_new [0xfc00, 0, 0, 0, 0, 0, 0, 0], 7),
      (Ipv6Addr_new [0xfe80, 0, 0, 0, 0, 0, 0, 0], 10), (Ipv6Addr_new [0xff00, 0, 0, 0, 0, 0, 0, 0], 8)]"

text \<open>The CIDR tests of the \<open>ipnet\<close> crate: does the network (address, prefix length) contain an
  address?\<close>

type_synonym cidr4 = "ipv4 \<Rightarrow> nat \<Rightarrow> ipv4 \<Rightarrow> bool"
type_synonym cidr6 = "ipv6 \<Rightarrow> nat \<Rightarrow> ipv6 \<Rightarrow> bool"

definition is_private_v4 :: "cidr4 \<Rightarrow> ipv4 \<Rightarrow> bool" where
  "is_private_v4 contains4 a = list_ex (\<lambda>(net, len). contains4 net len a) REFUSED_V4"

definition is_private_v6 :: "cidr4 \<Rightarrow> cidr6 \<Rightarrow> ipv6 \<Rightarrow> bool" where
  "is_private_v6 contains4 contains6 addr \<longleftrightarrow>
     list_ex (\<lambda>(net, len). contains6 net len addr) REFUSED_V6
     \<or> (segments addr ! 0 = 0x64 \<and> segments addr ! 1 = 0xff9b \<and>
        (let a = segments addr ! 6; b = segments addr ! 7
         in is_private_v4 contains4
              (Ipv4Addr_new (a div 256) (a mod 256) (b div 256) (b mod 256))))"

definition is_loopback_or_private_for_tests :: "ip_addr \<Rightarrow> bool" where
  "is_loopback_or_private_for_tests addr =
     (case addr of V4 v4 \<Rightarrow> is_loopback4 v4 \<or> is_private4 v4 | V6 v6 \<Rightarrow> is_loopback6 v6)"

definition refused_address :: "cidr4 \<Rightarrow> cidr6 \<Rightarrow> ip_addr \<Rightarrow> bool" where
  "refused_address contains4 contains6 addr =
     (case addr of
        V4 v4 \<Rightarrow> is_private_v4 contains4 v4
      | V6 v6 \<Rightarrow> (case to_ipv4_mapped v6 of
                    Some v4 \<Rightarrow> is_private_v4 contains4 v4
                  | None \<Rightarrow> is_private_v6 contains4 contains6 v6))"

definition check_address ::
  "cidr4 \<Rightarrow> cidr6 \<Rightarrow> string \<Rightarrow> ip_addr \<Rightarrow> network_policy \<Rightarrow> (host_refusal, unit) result" where
  "check_address contains4 contains6 host addr policy =
     (if refused_address contains4 contains6 addr
         \<and> \<not> (allow_private_for_tests policy \<and> is_loopback_or_private_for_tests addr)
      then Err (PrivateAddress host addr)
      else Ok ())"

section \<open>Printing addresses\<close>

definition ipv4_to_string :: "ipv4 \<Rightarrow> string" where
  "ipv4_to_string a =
     (let o' = octets a in nat_to_string (o' ! 0) @ ''.'' @ nat_to_string (o' ! 1) @ ''.''
        @ nat_to_string (o' ! 2) @ ''.'' @ nat_to_string (o' ! 3))"

definition hex_digit :: "nat \<Rightarrow> char" where
  "hex_digit n = ''0123456789abcdef'' ! n"

fun hex_string :: "nat \<Rightarrow> string" where
  "hex_string n = (if n < 16 then [hex_digit n] else hex_string (n div 16) @ [hex_digit (n mod 16)])"

declare hex_string.simps [simp del]

fun colon_join :: "nat list \<Rightarrow> string" where
  "colon_join [] = []"
| "colon_join [s] = hex_string s"
| "colon_join (s # ss) = hex_string s @ '':'' @ colon_join ss"

text \<open>The longest run of zero segments, the first one among equals: (start, length).\<close>

fun zero_runs :: "nat list \<Rightarrow> nat \<Rightarrow> nat \<times> nat \<Rightarrow> nat \<times> nat \<Rightarrow> nat \<times> nat" where
  "zero_runs [] i current longest = longest"
| "zero_runs (s # ss) i (start, len) longest =
     (if s = 0 then
        let current = (if len = 0 then (i, 1) else (start, len + 1))
        in zero_runs ss (i + 1) current (if snd current > snd longest then current else longest)
      else zero_runs ss (i + 1) (0, 0) longest)"

definition ipv6_to_string :: "ipv6 \<Rightarrow> string" where
  "ipv6_to_string a =
     (case to_ipv4_mapped a of
        Some v4 \<Rightarrow> ''::ffff:'' @ ipv4_to_string v4
      | None \<Rightarrow>
          let segs = segments a;
              (start, len) = zero_runs segs 0 (0, 0) (0, 0)
          in if len > 1 then colon_join (take start segs) @ ''::'' @ colon_join (drop (start + len) segs)
             else colon_join segs)"

section \<open>The host of a URL\<close>

definition check_host_name ::
  "cidr4 \<Rightarrow> cidr6 \<Rightarrow> url \<Rightarrow> network_policy \<Rightarrow> (host_refusal, string) result" where
  "check_host_name contains4 contains6 u policy =
     (if url_scheme u \<notin> {''http'', ''https''} then Err Scheme
      else
        let host_str = (case url_host_str u of Some s \<Rightarrow> s | None \<Rightarrow> [])
        in case url_host u of
             None \<Rightarrow> Err NoHost
           | Some (HostV4 a) \<Rightarrow>
               (case check_address contains4 contains6 host_str (V4 a) policy of
                  Inl e \<Rightarrow> Err e | Inr _ \<Rightarrow> Ok (ipv4_to_string a))
           | Some (HostV6 a) \<Rightarrow>
               (case check_address contains4 contains6 host_str (V6 a) policy of
                  Inl e \<Rightarrow> Err e | Inr _ \<Rightarrow> Ok (ipv6_to_string a))
           | Some (Domain name) \<Rightarrow>
               let host = to_ascii_lowercase (trim_end_dots name) in
               if host = [] then Err NoHost
               else if list_ex (\<lambda>denied. host_grant_matches denied host) (deny_hosts policy)
               then Err (ManagedDeny host)
               else if host \<in> set METADATA_HOSTS then Err (Metadata host)
               else if \<not> allow_private_for_tests policy
                       \<and> (host = ''localhost'' \<or> list_ex (\<lambda>s. ends_with host s) PRIVATE_SUFFIXES
                          \<or> \<not> contains_char host (CHR ''.''))
               then Err (PrivateName host)
               else Ok host)"

section \<open>Hosts in the configuration\<close>

definition MAX_HOST_BYTES :: nat where "MAX_HOST_BYTES = 253"

datatype host_error = HostLength | HostWildcard | HostLabel | HostIsAddress

definition valid_label :: "string \<Rightarrow> bool" where
  "valid_label l \<longleftrightarrow>
     l \<noteq> [] \<and> length l \<le> 63 \<and> \<not> starts_with l ''-'' \<and> \<not> ends_with l ''-''
     \<and> list_all (\<lambda>c. (97 \<le> (of_char c :: nat) \<and> (of_char c :: nat) \<le> 122) \<or> is_ascii_digit c
          \<or> c = CHR ''-'') l"

definition validate_host :: "string \<Rightarrow> (host_error, unit) result" where
  "validate_host host =
     (if host = [] \<or> length host > MAX_HOST_BYTES then Err HostLength
      else
        let name = (case strip_prefix host ''*.'' of Some n \<Rightarrow> n | None \<Rightarrow> host) in
        if name = [] \<or> contains_char name (CHR ''*'') then Err HostWildcard
        else
          let labels = split_char name (CHR ''.'') in
          if \<not> list_all valid_label labels then Err HostLabel
          else if list_all (list_all is_ascii_digit) labels then Err HostIsAddress
          else Ok ())"

section \<open>The documented law of the CIDR tests\<close>

definition quad :: "nat \<Rightarrow> nat \<Rightarrow> nat \<Rightarrow> nat \<Rightarrow> nat" where
  "quad a b c d = ((a * 256 + b) * 256 + c) * 256 + d"

lemma div_eq_range:
  fixes n d lo :: nat
  assumes "0 < d" and "d dvd lo"
  shows "n div d = lo div d \<longleftrightarrow> lo \<le> n \<and> n \<le> lo + d - 1"
proof -
  obtain q where q: "lo = d * q" using assms(2) by blast
  have "n div d = q \<longleftrightarrow> d * q \<le> n \<and> n < d * q + d"
    using assms(1) div_nat_eqI [of d q n] dividend_less_times_div [of d n] times_div_less_eq_dividend [of d n]
    by (auto simp: mult.commute)
  then show ?thesis using assms(1) by (auto simp: q)
qed


text \<open>A network contains the addresses that agree with it on the first \<open>len\<close> bits.\<close>

locale cidr_tests =
  fixes contains4 :: cidr4 and contains6 :: cidr6
  assumes law4: "len \<le> 32 \<Longrightarrow> contains4 net len a \<longleftrightarrow> drop_bit (32 - len) net = drop_bit (32 - len) a"
    and law6: "len \<le> 128 \<Longrightarrow> contains6 net6 len b \<longleftrightarrow> drop_bit (128 - len) net6 = drop_bit (128 - len) b"
begin

lemma contains4_iff:
  assumes "len \<le> 32" and "n < 2 ^ 32"
  shows "contains4 (of_nat n) len a \<longleftrightarrow> unat a div 2 ^ (32 - len) = n div 2 ^ (32 - len)"
proof -
  have "unat (of_nat n :: ipv4) = n" using assms(2) by (simp add: unat_of_nat)
  then show ?thesis
    by (simp add: law4 [OF assms(1)] word_unat_eq_iff unat_drop_bit_eq drop_bit_nat_def eq_commute)
qed

lemma contains4_range:
  assumes "len \<le> 32" and "a < 256" "b < 256" "c < 256" "d < 256" and "2 ^ (32 - len) dvd quad a b c d"
  shows "contains4 (Ipv4Addr_new a b c d) len x \<longleftrightarrow>
     quad a b c d \<le> unat x \<and> unat x \<le> quad a b c d + 2 ^ (32 - len) - 1"
proof -
  have "quad a b c d < 2 ^ 32" using assms(2-5) by (simp add: quad_def)
  from contains4_iff [OF assms(1) this, of x] show ?thesis
    unfolding Ipv4Addr_new_def quad_def [symmetric] using assms(6) by (simp add: div_eq_range)
qed

end

text \<open>A concrete pair of tests that obeys the law.\<close>

definition prefix_contains4 :: cidr4 where
  "prefix_contains4 net len a \<longleftrightarrow> drop_bit (32 - len) net = drop_bit (32 - len) a"

definition prefix_contains6 :: cidr6 where
  "prefix_contains6 net len a \<longleftrightarrow> drop_bit (128 - len) net = drop_bit (128 - len) a"

interpretation prefix: cidr_tests prefix_contains4 prefix_contains6
  by unfold_locales (simp_all add: prefix_contains4_def prefix_contains6_def)

section \<open>The refused IPv4 ranges\<close>

text \<open>The special-purpose ranges, first and last address.\<close>

definition special_v4_ranges :: "(nat \<times> nat) list" where
  "special_v4_ranges =
     [(quad 0 0 0 0, quad 0 255 255 255), (quad 10 0 0 0, quad 10 255 255 255),
      (quad 100 64 0 0, quad 100 127 255 255), (quad 127 0 0 0, quad 127 255 255 255),
      (quad 169 254 0 0, quad 169 254 255 255), (quad 172 16 0 0, quad 172 31 255 255),
      (quad 192 0 0 0, quad 192 0 0 255), (quad 192 0 2 0, quad 192 0 2 255),
      (quad 192 168 0 0, quad 192 168 255 255), (quad 198 18 0 0, quad 198 19 255 255),
      (quad 198 51 100 0, quad 198 51 100 255), (quad 203 0 113 0, quad 203 0 113 255),
      (quad 224 0 0 0, quad 239 255 255 255), (quad 240 0 0 0, quad 255 255 255 255)]"

lemma private_v4_spec:
  assumes "cidr_tests contains4 contains6"
  shows "is_private_v4 contains4 a \<longleftrightarrow>
     list_ex (\<lambda>(lo, hi). lo \<le> unat a \<and> unat a \<le> hi) special_v4_ranges"
  unfolding is_private_v4_def REFUSED_V4_def special_v4_ranges_def
  by (simp add: cidr_tests.contains4_range [OF assms] quad_def)

text \<open>An IPv4 address is refused exactly when it lies in one of the
  special-purpose ranges, given that the network test compares the first bits.\<close>

lemma private_v4_iff:
  assumes "cidr_tests contains4 contains6"
  shows "is_private_v4 contains4 a \<longleftrightarrow>
     list_ex (\<lambda>(lo, hi). lo \<le> unat a \<and> unat a \<le> hi) special_v4_ranges"
  using assms by (rule private_v4_spec)

lemma private_v4_iff_witness: "is_private_v4 prefix_contains4 (Ipv4Addr_new 172 31 255 1)"
  unfolding private_v4_iff [OF prefix.cidr_tests_axioms]
  by (simp add: special_v4_ranges_def Ipv4Addr_new_def quad_def unat_of_nat)

section \<open>IPv4 addresses inside IPv6 addresses\<close>

lemma segment_nat: "unat (drop_bit (16 * i) a AND 0xFFFF) = unat a div 2 ^ (16 * i) mod 65536" for a :: ipv6
proof -
  have m: "(0xFFFF :: ipv6) = mask 16" by (simp add: mask_eq_exp_minus_1)
  show ?thesis
    unfolding m take_bit_eq_mask [symmetric] unsigned_take_bit_eq unat_drop_bit_eq drop_bit_nat_def
      take_bit_nat_def by simp
qed

lemma low_bits_nat: "unat (ucast a :: ipv4) = unat a mod 2 ^ 32" for a :: ipv6
  by (simp add: unsigned_ucast_eq take_bit_eq_mod)

lemma embedded_quad:
  "Ipv4Addr_new (segments w ! 6 div 256) (segments w ! 6 mod 256) (segments w ! 7 div 256)
     (segments w ! 7 mod 256) = ucast w"
proof -
  define n where "n = unat w"
  have 6: "segments w ! 6 = n div 65536 mod 65536" using segment_nat [of 1 w] by (simp add: segments_def n_def)
  have 7: "segments w ! 7 = n mod 65536" using segment_nat [of 0 w] by (simp add: segments_def n_def)
  have "((n div 65536 mod 65536 div 256 * 256 + n div 65536 mod 65536 mod 256) * 256
      + n mod 65536 div 256) * 256 + n mod 65536 mod 256
      = (n div 65536 mod 65536) * 65536 + n mod 65536"
    by (simp add: algebra_simps)
  also have "\<dots> = n mod 4294967296" using mod_mult2_eq [of n 65536 65536] by simp
  finally show ?thesis
    unfolding 6 7 Ipv4Addr_new_def
    by (simp add: word_unat_eq_iff low_bits_nat unat_of_nat n_def)
qed

lemma nat64_segments:
  assumes "drop_bit 96 w = (0x64FF9B :: ipv6)"
  shows "segments w ! 0 = 0x64" and "segments w ! 1 = 0xff9b" and "drop_bit 32 w \<noteq> 0xFFFF"
proof -
  have n: "unat w div 2 ^ 96 = 0x64FF9B"
    using arg_cong [OF assms, of unat] by (simp add: unat_drop_bit_eq drop_bit_nat_def)
  have "unat w div 2 ^ 112 = unat w div 2 ^ 96 div 2 ^ 16" by (simp add: div_mult2_eq [symmetric])
  then show "segments w ! 0 = 0x64" using n segment_nat [of 7 w] by (simp add: segments_def)
  show "segments w ! 1 = 0xff9b" using n segment_nat [of 6 w] by (simp add: segments_def)
  show "drop_bit 32 w \<noteq> 0xFFFF"
  proof
    assume "drop_bit 32 w = 0xFFFF"
    then have "unat w div 2 ^ 32 = 0xFFFF"
      unfolding word_unat_eq_iff unat_drop_bit_eq drop_bit_nat_def by simp
    moreover have "unat w div 2 ^ 96 = unat w div 2 ^ 32 div 2 ^ 64" by (simp add: div_mult2_eq [symmetric])
    ultimately show False using n by simp
  qed
qed

lemma embedded_refused:
  assumes "is_private_v4 contains4 (ucast w)" and "\<not> allow_private_for_tests policy"
    and "drop_bit 32 w = 0xFFFF \<or> drop_bit 96 w = 0x64FF9B"
  shows "check_address contains4 contains6 host (V6 w) policy = Err (PrivateAddress host (V6 w))"
proof (cases "drop_bit 32 w = 0xFFFF")
  case True
  then show ?thesis using assms(1,2)
    by (simp add: check_address_def refused_address_def to_ipv4_mapped_def)
next
  case False
  then have "drop_bit 96 w = 0x64FF9B" using assms(3) by simp
  from nat64_segments [OF this] have "is_private_v6 contains4 contains6 w"
    using assms(1) embedded_quad [of w] by (simp add: is_private_v6_def Let_def)
  then show ?thesis using assms(2) False
    by (simp add: check_address_def refused_address_def to_ipv4_mapped_def)
qed

lemma checked_address_public:
  assumes "cidr_tests contains4 contains6" and "\<not> allow_private_for_tests policy"
    and "check_address contains4 contains6 host addr policy = Ok ()"
  shows "case addr of
      V4 a \<Rightarrow> \<not> list_ex (\<lambda>(lo, hi). lo \<le> unat a \<and> unat a \<le> hi) special_v4_ranges
    | V6 w \<Rightarrow> drop_bit 32 w = 0xFFFF \<or> drop_bit 96 w = 0x64FF9B \<longrightarrow>
        \<not> list_ex (\<lambda>(lo, hi). lo \<le> unat (ucast w :: ipv4) \<and> unat (ucast w :: ipv4) \<le> hi) special_v4_ranges"
proof (cases addr)
  case (V4 a)
  then show ?thesis using assms(2,3) unfolding private_v4_spec [OF assms(1), symmetric]
    by (simp add: check_address_def refused_address_def split: if_splits)
next
  case (V6 w)
  then show ?thesis
    using assms(2,3) embedded_refused [of contains4 w policy contains6 host]
    unfolding private_v4_spec [OF assms(1), symmetric] by auto
qed

text \<open>A private IPv4 address cannot be reached through an IPv6 address that carries
  it: neither as an IPv4-mapped address nor under the NAT64 prefix 64:ff9b.\<close>

lemma embedded_v4_refused:
  assumes "is_private_v4 contains4 (ucast w)" and "\<not> allow_private_for_tests policy"
    and "drop_bit 32 w = 0xFFFF \<or> drop_bit 96 w = 0x64FF9B"
  shows "check_address contains4 contains6 host (V6 w) policy = Err (PrivateAddress host (V6 w))"
  using assms by (rule embedded_refused)

lemma embedded_v4_refused_witness:
  "check_address prefix_contains4 prefix_contains6 ''h'' (V6 0x64FF9B00000000000000007F000001)
     NetworkPolicy_default = Err (PrivateAddress ''h'' (V6 0x64FF9B00000000000000007F000001))"
proof (rule embedded_v4_refused)
  show "is_private_v4 prefix_contains4 (ucast (0x64FF9B00000000000000007F000001 :: ipv6))"
    by (simp add: private_v4_spec [OF prefix.cidr_tests_axioms] special_v4_ranges_def quad_def)
qed (simp_all add: NetworkPolicy_default_def)

section \<open>Denied hosts\<close>

text \<open>What a deny entry means: a name denies itself and \<open>*.\<close> before a name denies every name below
  it, both in any case.\<close>

definition denies :: "string \<Rightarrow> string \<Rightarrow> bool" where
  "denies entry host \<longleftrightarrow>
     (case strip_prefix entry ''*.'' of
        Some name \<Rightarrow> \<exists>pre. pre \<noteq> [] \<and> to_ascii_lowercase host = pre @ ''.'' @ to_ascii_lowercase name
      | None \<Rightarrow> to_ascii_lowercase host = to_ascii_lowercase entry)"

lemma lower_idem [simp]: "to_ascii_lower (to_ascii_lower c) = to_ascii_lower c"
  by (auto simp: to_ascii_lower_def)

lemma lowercase_idem [simp]: "to_ascii_lowercase (to_ascii_lowercase s) = to_ascii_lowercase s"
  by (simp add: to_ascii_lowercase_def)

lemma split_by_chars: "c \<in> set s \<Longrightarrow> P c \<or> (\<exists>l \<in> set (split_by P s). c \<in> set l)"
  by (induction s) (auto split: list.splits)

lemma valid_label_lower: "valid_label l \<Longrightarrow> c \<in> set l \<Longrightarrow> to_ascii_lower c = c"
  by (auto simp: valid_label_def list_all_iff to_ascii_lower_def is_ascii_digit_def)

lemma validated_name_lower:
  assumes "validate_host d = Ok ()"
  shows "to_ascii_lowercase (case strip_prefix d ''*.'' of Some n \<Rightarrow> n | None \<Rightarrow> d)
     = (case strip_prefix d ''*.'' of Some n \<Rightarrow> n | None \<Rightarrow> d)"
proof -
  let ?name = "case strip_prefix d ''*.'' of Some n \<Rightarrow> n | None \<Rightarrow> d"
  have dot: "to_ascii_lower (CHR ''.'') = CHR ''.''" by (simp add: to_ascii_lower_def)
  have "list_all valid_label (split_char ?name (CHR ''.''))"
    using assms by (auto simp: validate_host_def Let_def split: if_splits)
  then have "to_ascii_lower c = c" if "c \<in> set ?name" for c
    using split_by_chars [OF that, of "\<lambda>x. x = CHR ''.''"] valid_label_lower
    dot by (auto simp: split_char_def list_all_iff)
  then show ?thesis unfolding to_ascii_lowercase_def by (rule map_idI)
qed

lemma grant_matches_iff:
  assumes "validate_host d = Ok ()" and "to_ascii_lowercase host = host"
  shows "host_grant_matches d host \<longleftrightarrow> denies d host"
proof (cases "strip_prefix d ''*.''")
  case None
  then show ?thesis by (auto simp: host_grant_matches_def denies_def eq_ignore_ascii_case_def)
next
  case (Some n)
  then have low: "to_ascii_lowercase n = n" using validated_name_lower [OF assms(1)] by simp
  have "(case strip_suffix host n of Some head \<Rightarrow> length head > 1 \<and> ends_with head ''.'' | None \<Rightarrow> False)
      \<longleftrightarrow> (\<exists>pre. pre \<noteq> [] \<and> host = pre @ ''.'' @ n)"
  proof
    assume "case strip_suffix host n of Some head \<Rightarrow> length head > 1 \<and> ends_with head ''.'' | None \<Rightarrow> False"
    then obtain head where h: "host = head @ n" "length head > 1" "ends_with head ''.''"
      by (auto simp: strip_suffix_Some_iff split: option.splits)
    then obtain pre where "head = pre @ ''.''" by (auto simp: ends_with_append)
    with h show "\<exists>pre. pre \<noteq> [] \<and> host = pre @ ''.'' @ n" by auto
  next
    assume "\<exists>pre. pre \<noteq> [] \<and> host = pre @ ''.'' @ n"
    then obtain pre where "pre \<noteq> []" "host = (pre @ ''.'') @ n" by auto
    moreover from this(2) have "strip_suffix host n = Some (pre @ ''.'')" by (simp add: strip_suffix_Some_iff)
    ultimately show "case strip_suffix host n of Some head \<Rightarrow> length head > 1 \<and> ends_with head ''.'' | None \<Rightarrow> False"
      by (simp add: ends_with_def)
  qed
  then show ?thesis using Some low assms(2) by (simp add: host_grant_matches_def denies_def)
qed

text \<open>When the policy's deny entries passed configuration validation, a URL whose host
  name is denied by one of them, in whatever case it is written and with trailing dots, never
  passes the host check; neither does a metadata host or a private name.\<close>

lemma checked_host_allowed:
  assumes "check_host_name contains4 contains6 u policy = Ok host" and "url_host u = Some (Domain name)"
    and "\<forall>d \<in> set (deny_hosts policy). validate_host d = Ok ()"
  shows "host = to_ascii_lowercase (trim_end_dots name)
     \<and> (\<forall>d \<in> set (deny_hosts policy). \<not> denies d (trim_end_dots name))
     \<and> host \<notin> set METADATA_HOSTS
     \<and> (\<not> allow_private_for_tests policy \<longrightarrow>
          CHR ''.'' \<in> set host \<and> (\<forall>s \<in> set PRIVATE_SUFFIXES. \<not> ends_with host s))"
proof -
  have h: "host = to_ascii_lowercase (trim_end_dots name)"
    and deny: "\<not> list_ex (\<lambda>d. host_grant_matches d host) (deny_hosts policy)"
    and rest: "host \<notin> set METADATA_HOSTS" "\<not> allow_private_for_tests policy \<longrightarrow>
          CHR ''.'' \<in> set host \<and> (\<forall>s \<in> set PRIVATE_SUFFIXES. \<not> ends_with host s)"
    using assms(1,2)
    by (auto simp: check_host_name_def Let_def list_ex_iff contains_char_def split: if_splits)
  have "denies d (trim_end_dots name) = denies d host" for d
    by (simp add: denies_def h split: option.split)
  moreover have "\<not> denies d host" if "d \<in> set (deny_hosts policy)" for d
    using deny that grant_matches_iff [of d host] assms(3) h by (auto simp: list_ex_iff)
  ultimately show ?thesis using h rest by simp
qed

lemma checked_host_allowed_witness: "\<not> denies ''*.evil.com'' ''Docs.RS''"
proof -
  let ?u = "\<lparr>url_scheme = ''https'', url_host = Some (Domain ''Docs.RS.''), url_host_str = None,
             url_port = None, url_text = []\<rparr>"
  let ?p = "\<lparr>deny_hosts = [''*.evil.com''], allow_private_for_tests = False\<rparr>"
  have "check_host_name prefix_contains4 prefix_contains6 ?u ?p = Ok ''docs.rs''" by code_simp
  moreover have "validate_host ''*.evil.com'' = Ok ()" by code_simp
  ultimately show ?thesis
    using checked_host_allowed [of prefix_contains4 prefix_contains6 ?u ?p "''docs.rs''" "''Docs.RS.''"]
    by (simp add: trim_end_dots_def)
qed

end
