(* ===== verification/Shell_Read.thy ===== *)
theory Shell_Read
  imports Rust_Str
begin

text \<open>
  Which shell commands are reads (\<^verbatim>\<open>crates/qq-core/src/approval.rs\<close>, from \<open>exec_command_line\<close> to
  \<open>read_only_argv\<close>): a command that passes is recorded as one that
  cannot change files. The flag
  \<open>windows\<close> is the build target.
\<close>

section \<open>The command line of an exec call\<close>

definition quote_plain :: "char \<Rightarrow> bool" where
  "quote_plain b \<longleftrightarrow> is_ascii_alphanumeric b \<or> b \<in> set ''-_./=:@%+,''"

definition single_quote :: char where "single_quote = CHR 0x27"
definition double_quote :: char where "double_quote = CHR 0x22"
definition backslash :: char where "backslash = CHR 0x5C"

lemmas quote_defs = single_quote_def double_quote_def backslash_def

fun replace_quotes :: "string \<Rightarrow> string" where
  "replace_quotes [] = []"
| "replace_quotes (c # cs) =
     (if c = single_quote then [single_quote, backslash, single_quote, single_quote] else [c])
     @ replace_quotes cs"

definition quote_word :: "string \<Rightarrow> string" where
  "quote_word w =
     (if w \<noteq> [] \<and> list_all quote_plain w then w
      else single_quote # replace_quotes w @ [single_quote])"

definition exec_command_line :: "string \<Rightarrow> string list \<Rightarrow> string" where
  "exec_command_line program args = quote_word program @ concat (map (\<lambda>a. '' '' @ quote_word a) args)"

section \<open>Sed scripts\<close>

fun sed_field :: "char \<Rightarrow> string \<Rightarrow> string option" where
  "sed_field d [] = None"
| "sed_field d (c # cs) =
     (if c = d then Some cs
      else if c = backslash then (case cs of [] \<Rightarrow> None | _ # r \<Rightarrow> sed_field d r)
      else sed_field d cs)"

abbreviation skip_ws :: "string \<Rightarrow> string" where
  "skip_ws \<equiv> dropWhile is_ascii_whitespace"

datatype sed_addr = NoAddress | BadAddress | Address string

definition sed_address :: "string \<Rightarrow> sed_addr" where
  "sed_address s =
     (case s of
        [] \<Rightarrow> NoAddress
      | c # cs \<Rightarrow>
          if is_ascii_digit c then Address (dropWhile is_ascii_digit s)
          else if c = CHR ''$'' then Address cs
          else if c = CHR ''/'' then (case sed_field (CHR ''/'') cs of None \<Rightarrow> BadAddress | Some r \<Rightarrow> Address r)
          else NoAddress)"

definition sed_addresses :: "string \<Rightarrow> string option" where
  "sed_addresses s =
     (case sed_address s of
        NoAddress \<Rightarrow> Some s
      | BadAddress \<Rightarrow> None
      | Address r \<Rightarrow>
          (case skip_ws r of
             c # cs \<Rightarrow>
               if c = CHR '','' then
                 (case sed_address (skip_ws cs) of Address r2 \<Rightarrow> Some (skip_ws r2) | _ \<Rightarrow> None)
               else Some (c # cs)
           | [] \<Rightarrow> Some []))"

text \<open>The flags of a substitution, up to white space or \<open>;\<close>.\<close>

fun sed_flags :: "string \<Rightarrow> string option" where
  "sed_flags [] = Some []"
| "sed_flags (c # cs) =
     (if c = CHR '';'' \<or> is_ascii_whitespace c then Some (c # cs)
      else if c \<in> set ''pgiImM'' \<or> is_ascii_digit c then sed_flags cs
      else None)"

definition sed_command :: "string \<Rightarrow> string option" where
  "sed_command s =
     (case s of
        [] \<Rightarrow> None
      | c # cs \<Rightarrow>
          if c = CHR ''p'' \<or> c = CHR ''='' then Some cs
          else if c = CHR ''l'' then Some (dropWhile is_ascii_digit (skip_ws cs))
          else if c = CHR ''s'' then
            (case cs of
               [] \<Rightarrow> None
             | d # r \<Rightarrow>
                 if \<not> is_ascii d \<or> is_ascii_whitespace d \<or> d = backslash then None
                 else (case sed_field d r of
                         None \<Rightarrow> None
                       | Some r1 \<Rightarrow> (case sed_field d r1 of None \<Rightarrow> None | Some r2 \<Rightarrow> sed_flags r2)))
          else None)"

lemma length_skip: "length (dropWhile P s) \<le> length s"
  by (induction s) auto

lemma sed_field_shorter: "sed_field d s = Some r \<Longrightarrow> length r < length s"
proof (induction d s rule: sed_field.induct)
  case (2 d c cs)
  then show ?case by (fastforce split: if_splits list.splits)
qed simp

lemma sed_address_shorter: "sed_address s = Address r \<Longrightarrow> length r < length s"
  using length_skip [of is_ascii_digit "tl s"] sed_field_shorter
  by (fastforce simp: sed_address_def split: list.splits if_splits option.splits)

lemma sed_addresses_le: "sed_addresses s = Some r \<Longrightarrow> length r \<le> length s"
proof (cases "sed_address s")
  case (Address t)
  assume r: "sed_addresses s = Some r"
  have t: "length t < length s" by (rule sed_address_shorter) (rule Address)
  have skip: "length (skip_ws t) \<le> length t" by (rule length_skip)
  show ?thesis
  proof (cases "skip_ws t")
    case Nil
    then show ?thesis using r Address by (simp add: sed_addresses_def del: dropWhile_eq_Nil_conv)
  next
    case (Cons c cs)
    show ?thesis
    proof (cases "c = CHR '',''")
      case False
      then show ?thesis using r Address Cons skip t by (simp add: sed_addresses_def)
    next
      case True
      then obtain u where "sed_address (skip_ws cs) = Address u" "r = skip_ws u"
        using r Address Cons by (auto simp: sed_addresses_def split: sed_addr.splits)
      then show ?thesis
        using sed_address_shorter [of "skip_ws cs" u] length_skip [of is_ascii_whitespace cs]
          length_skip [of is_ascii_whitespace u] Cons skip t by simp
    qed
  qed
qed (auto simp: sed_addresses_def)

lemma sed_flags_le: "sed_flags s = Some r \<Longrightarrow> length r \<le> length s"
  by (induction s) (auto split: if_splits)

lemma sed_command_shorter: "sed_command s = Some r \<Longrightarrow> length r < length s"
proof (cases s)
  case (Cons c cs)
  assume r: "sed_command s = Some r"
  consider "r = cs" | "r = dropWhile is_ascii_digit (skip_ws cs)"
    | d t r1 r2 where "cs = d # t" "sed_field d t = Some r1" "sed_field d r1 = Some r2" "sed_flags r2 = Some r"
    using r Cons by (auto simp: sed_command_def split: if_splits list.splits option.splits)
  then show ?thesis
  proof cases
    case 2
    then show ?thesis
      using Cons length_skip [of is_ascii_digit "skip_ws cs"] length_skip [of is_ascii_whitespace cs] by simp
  next
    case 3
    then show ?thesis
      using Cons sed_field_shorter [of d t r1] sed_field_shorter [of d r1 r2] sed_flags_le [of r2 r] by simp
  qed (simp add: Cons)
qed (simp add: sed_command_def)

function sed_script :: "bool \<Rightarrow> string \<Rightarrow> bool" where
  "sed_script seen s =
     (let s1 = skip_ws s in
      if s1 = [] then seen
      else case sed_addresses s1 of
        None \<Rightarrow> False
      | Some s2 \<Rightarrow>
          (case sed_command s2 of
             None \<Rightarrow> False
           | Some s3 \<Rightarrow>
               (case skip_ws s3 of
                  [] \<Rightarrow> True
                | c # cs \<Rightarrow> if c = CHR '';'' then sed_script True cs else False)))"
  by pat_completeness auto
termination
proof (relation "measure (length \<circ> snd)", goal_cases)
  case (2 seen s s1 s2 s3 c cs)
  have "length s1 \<le> length s" unfolding 2(1) by (rule length_skip)
  moreover have "length s2 \<le> length s1" by (rule sed_addresses_le) (rule 2(3))
  moreover have "length s3 < length s2" by (rule sed_command_shorter) (rule 2(4))
  moreover have "length (c # cs) \<le> length s3" unfolding 2(5) [symmetric] by (rule length_skip)
  ultimately show ?case by simp
qed simp

declare sed_script.simps [simp del]

definition read_only_sed_script :: "string \<Rightarrow> bool" where
  "read_only_sed_script script = sed_script False script"

section \<open>Listing branches\<close>

fun branch_loop :: "bool \<Rightarrow> bool \<Rightarrow> bool \<Rightarrow> string list \<Rightarrow> bool" where
  "branch_loop list_mode expect_value patterns [] \<longleftrightarrow> list_mode \<or> \<not> patterns"
| "branch_loop list_mode expect_value patterns (arg # args) \<longleftrightarrow>
     (if expect_value then branch_loop list_mode False patterns args
      else if arg = ''--list'' then branch_loop True False patterns args
      else if arg \<in> set [''-a'', ''--all'', ''-r'', ''--remotes'', ''-v'', ''-vv'', ''--verbose'', ''-q'',
                ''--quiet'', ''-i'', ''--ignore-case'', ''--color'', ''--no-color'', ''--column'',
                ''--no-column'', ''--no-abbrev'', ''--show-current'']
        then branch_loop list_mode False patterns args
      else if arg \<in> set [''--merged'', ''--no-merged'', ''--contains'', ''--no-contains'', ''--points-at'']
        then branch_loop True True patterns args
      else if arg \<in> set [''--sort'', ''--format''] then branch_loop list_mode True patterns args
      else if starts_with arg ''--sort='' \<or> starts_with arg ''--format=''
        then branch_loop list_mode False patterns args
      else if list_ex (starts_with arg) [''--merged='', ''--no-merged='', ''--contains='', ''--no-contains='',
                ''--points-at='']
        then branch_loop True False patterns args
      else if list_ex (starts_with arg) [''--abbrev='', ''--color='', ''--column='']
        then branch_loop list_mode False patterns args
      else if starts_with arg ''-'' then False
      else branch_loop list_mode False True args)"

definition branch_lists :: "string list \<Rightarrow> bool" where
  "branch_lists args = branch_loop False False False args"

section \<open>Programs that only read\<close>

text \<open>\<open>slice::strip_prefix\<close> on argument lists.\<close>

definition strip_args :: "string list \<Rightarrow> string list \<Rightarrow> string list option" where
  "strip_args args p = (if take (length p) args = p then Some (drop (length p) args) else None)"

definition all_digits :: "string \<Rightarrow> bool" where
  "all_digits n \<longleftrightarrow> n \<noteq> [] \<and> list_all is_ascii_digit n"

definition log_arg :: "string \<Rightarrow> bool" where
  "log_arg arg \<longleftrightarrow>
     \<not> starts_with arg ''-''
     \<or> arg \<in> set [''--all'', ''--branches'', ''--tags'', ''--remotes'', ''--first-parent'', ''--no-merges'',
          ''--reverse'']
     \<or> (case strip_prefix arg ''--max-count='' of Some n \<Rightarrow> all_digits n | None \<Rightarrow> False)
     \<or> (case strip_prefix arg ''-'' of Some n \<Rightarrow> all_digits n | None \<Rightarrow> False)"

text \<open>Everything after \<open>--\<close> is a path.\<close>

fun log_args :: "string list \<Rightarrow> bool" where
  "log_args [] = True"
| "log_args (arg # args) = (if arg = ''--'' then True else log_arg arg \<and> log_args args)"

definition LOG_PREFIX :: "string list" where
  "LOG_PREFIX = [''--no-ext-diff'', ''--no-textconv'', ''--no-patch'', ''--diff-merges=off'',
     ''--no-show-signature'', ''--format=oneline'']"

definition read_only_git :: "string list \<Rightarrow> bool" where
  "read_only_git args =
     (case (case args of
              first # _ \<Rightarrow> if first = ''-C'' then (if length args < 2 then None else Some (drop 2 args))
                           else Some args
            | [] \<Rightarrow> Some args) of
        None \<Rightarrow> False
      | Some args1 \<Rightarrow>
          (case strip_args args1 [''--no-lazy-fetch'', ''-c'', ''core.fsmonitor=false''] of
             None \<Rightarrow> False
           | Some [] \<Rightarrow> False
           | Some (subcommand # rest) \<Rightarrow>
               if subcommand = ''branch'' then
                 ''--sort=refname'' \<in> set rest
                 \<and> \<not> list_ex (\<lambda>arg. starts_with arg ''--format''
                       \<or> starts_with arg ''--sort'' \<and> arg \<noteq> ''--sort=refname'') rest
                 \<and> branch_lists rest
               else if subcommand = ''log'' \<or> subcommand = ''show'' then
                 (case strip_args rest LOG_PREFIX of None \<Rightarrow> False | Some r \<Rightarrow> log_args r)
               else if subcommand = ''rev-parse'' then
                 rest \<in> set [[''HEAD''], [''--short'', ''HEAD''], [''--show-toplevel''], [''--git-dir''],
                    [''--show-prefix''], [''--is-inside-work-tree'']]
               else if subcommand = ''worktree'' then rest \<in> set [[''list''], [''list'', ''--porcelain'']]
               else False))"

fun uniq_loop :: "nat \<Rightarrow> bool \<Rightarrow> bool \<Rightarrow> bool \<Rightarrow> string list \<Rightarrow> bool" where
  "uniq_loop operands stdout skip options [] \<longleftrightarrow> operands \<le> 1 \<or> (operands = 2 \<and> stdout)"
| "uniq_loop operands stdout skip options (arg # args) \<longleftrightarrow>
     (if skip then uniq_loop operands stdout False options args
      else if options \<and> arg = ''--'' then uniq_loop operands stdout False False args
      else if options \<and> arg \<in> set [''-f'', ''-s'', ''-w'', ''--skip-fields'', ''--skip-chars'', ''--check-chars'']
        then uniq_loop operands stdout True options args
      else if \<not> options \<or> \<not> starts_with arg ''-'' \<or> arg = ''-''
        then uniq_loop (operands + 1) (arg = ''-'') False options args
      else uniq_loop operands stdout False options args)"

fun sed_loop :: "bool \<Rightarrow> bool \<Rightarrow> bool \<Rightarrow> string list \<Rightarrow> bool" where
  "sed_loop quiet script expect_script [] \<longleftrightarrow> quiet \<and> script \<and> \<not> expect_script"
| "sed_loop quiet script expect_script (arg # args) \<longleftrightarrow>
     (if expect_script \<or> (\<not> script \<and> \<not> starts_with arg ''-'') then
        (if read_only_sed_script arg then sed_loop quiet True False args else False)
      else if starts_with arg ''-'' then
        (if arg \<in> set [''-n'', ''--quiet'', ''--silent''] then sed_loop True script expect_script args
         else if arg \<in> set [''-e'', ''--expression''] then sed_loop quiet script True args
         else if starts_with arg ''--expression='' then
           (if read_only_sed_script (drop 13 arg) then sed_loop quiet True expect_script args else False)
         else if arg \<in> set [''-E'', ''-r'', ''--regexp-extended''] then sed_loop quiet script expect_script args
         else if \<not> starts_with arg ''--'' \<and> length arg > 1 \<and> list_all (\<lambda>f. f \<in> set ''nEr'') (drop 1 arg)
           then sed_loop (quiet \<or> contains_char arg (CHR ''n'')) script expect_script args
         else False)
      else sed_loop quiet script expect_script args)"

definition short_with :: "string \<Rightarrow> string \<Rightarrow> bool" where
  "short_with cs arg \<longleftrightarrow> starts_with arg ''-'' \<and> \<not> starts_with arg ''--'' \<and> contains_any arg cs"

definition read_only_argv :: "string \<Rightarrow> string list \<Rightarrow> bool" where
  "read_only_argv program args =
     (if program = ''git'' then read_only_git args
      else if program = ''find'' then
        \<not> list_ex (\<lambda>arg. arg = ''-delete'' \<or> arg = ''-fls''
            \<or> list_ex (starts_with arg) [''-exec'', ''-ok'', ''-fprint'']) args
      else if program = ''uniq'' then uniq_loop 0 False False True args
      else if program = ''sed'' then sed_loop False False False args
      else if program = ''tree'' then
        \<not> list_ex (\<lambda>arg. short_with ''oR'' arg \<or> starts_with arg ''--out'') args
      else if program = ''fd'' then
        \<not> list_ex (\<lambda>arg. short_with ''xXl'' arg \<or> starts_with arg ''--exec'' \<or> starts_with arg ''--list'') args
      else if program = ''rg'' then
        args \<noteq> [] \<and> hd args = ''--no-config''
        \<and> \<not> list_ex (\<lambda>arg. starts_with arg ''--pre'' \<or> starts_with arg ''--hostname-bin''
              \<or> starts_with arg ''--search-zip'' \<or> short_with ''z'' arg) args
      else if program = ''file'' then
        \<not> list_ex (\<lambda>arg. short_with ''CzZp'' arg
            \<or> (let option = hd (split_char arg (CHR ''=''))
               in length option > 2
                  \<and> list_ex (\<lambda>name. starts_with name option)
                      [''--compile'', ''--uncompress'', ''--uncompress-noreport'', ''--preserve-date''])) args
      else program \<in> set [''ls'', ''cat'', ''head'', ''tail'', ''wc'', ''grep'', ''pwd'', ''echo'', ''which'',
             ''stat'', ''du'', ''df'', ''nl'', ''cut''])"

section \<open>Command lines that only read\<close>

definition MAX_CLASSIFIED_BYTES :: nat where "MAX_CLASSIFIED_BYTES = 16 * 1024"

text \<open>One word of a segment: quoted as a whole by one pair of quotes, or without any quote; bare
  words may hold no pattern characters.\<close>

definition read_word :: "string \<Rightarrow> string option" where
  "read_word word =
     (let quoted = (word \<noteq> [] \<and> (hd word = single_quote \<or> hd word = double_quote) \<and> last word = hd word);
          w = (if quoted then butlast (tl word) else word)
      in if (\<not> quoted \<and> contains_any w [single_quote, double_quote])
            \<or> (quoted \<and> hd word \<in> set w) \<or> (\<not> quoted \<and> contains_any w ''*?[]~'')
         then None else Some w)"

text \<open>The loop over the bytes of a segment and one final space: \<open>start\<close> is where the current word
  begins, \<open>quote\<close> the open quote, \<open>argv\<close> the words so far (at most 128).\<close>

fun reads_scan ::
  "string \<Rightarrow> string \<Rightarrow> nat \<Rightarrow> nat option \<Rightarrow> char option \<Rightarrow> string list \<Rightarrow> (string list \<times> char option) option" where
  "reads_scan segment [] index start quote argv = Some (argv, quote)"
| "reads_scan segment (b # bs) index start quote argv =
     (case quote of
        Some d \<Rightarrow> reads_scan segment bs (index + 1) start (if b = d then None else Some d) argv
      | None \<Rightarrow>
          if b = single_quote \<or> b = double_quote then
            reads_scan segment bs (index + 1) (Some (case start of Some i \<Rightarrow> i | None \<Rightarrow> index)) (Some b) argv
          else if is_ascii_whitespace b then
            (case start of
               None \<Rightarrow> reads_scan segment bs (index + 1) None None argv
             | Some begin \<Rightarrow>
                 if length argv = 128 then None
                 else (case read_word (take (index - begin) (drop begin segment)) of
                         None \<Rightarrow> None
                       | Some w \<Rightarrow> reads_scan segment bs (index + 1) None None (argv @ [w])))
          else reads_scan segment bs (index + 1) (Some (case start of Some i \<Rightarrow> i | None \<Rightarrow> index)) None argv)"

definition segment_reads :: "string \<Rightarrow> bool \<Rightarrow> char option \<Rightarrow> bool" where
  "segment_reads segment first connector =
     (case reads_scan segment (segment @ '' '') 0 None None [] of
        None \<Rightarrow> False
      | Some (argv, quote) \<Rightarrow>
          if quote \<noteq> None \<or> argv = [] then False
          else if first \<and> hd argv = ''cd'' then
            length argv = 2 \<and> (connector = Some (CHR ''&'') \<or> connector = Some (CHR '';''))
            \<and> \<not> contains_any segment [single_quote, double_quote]
            \<and> \<not> contains_any (argv ! 1) ''*?[]!~''
            \<and> \<not> starts_with (argv ! 1) ''-''
          else read_only_argv (hd argv) (tl argv))"

text \<open>The loop over the bytes of the command. The source's \<open>last_connector\<close> 0 is \<open>None\<close>.\<close>

function command_scan ::
  "string \<Rightarrow> nat \<Rightarrow> nat \<Rightarrow> char option \<Rightarrow> bool \<Rightarrow> char option \<Rightarrow> bool" where
  "command_scan command start index quote first last_connector =
     (if index < length command then
        let b = command ! index in
        case quote of
          Some d \<Rightarrow>
            if b = d then command_scan command start (index + 1) None first last_connector
            else if d = double_quote \<and> b \<in> set [CHR ''$'', CHR 0x60, backslash] then False
            else command_scan command start (index + 1) quote first last_connector
        | None \<Rightarrow>
            if b \<in> set (''><$(){}#'' @ [CHR 0x60, backslash]) then False
            else if b = single_quote \<or> b = double_quote then
              command_scan command start (index + 1) (Some b) first last_connector
            else if b \<in> set ''|;&'' then
              (let doubled = (index + 1 < length command \<and> command ! (index + 1) = b) in
               if b = CHR ''&'' \<and> \<not> doubled then False
               else if \<not> segment_reads (trim (take (index - start) (drop start command))) first (Some b)
               then False
               else let index' = (if b \<noteq> CHR '';'' \<and> doubled then index + 1 else index)
                    in command_scan command (index' + 1) (index' + 1) None False (Some b))
            else command_scan command start (index + 1) None first last_connector
      else
        quote = None \<and>
        (let rest = trim (drop start command) in
         if rest = [] then last_connector = Some (CHR '';'')
         else segment_reads rest first None))"
  by pat_completeness auto
termination
  by (relation "measure (\<lambda>(command, start, index, quote, first, last). length command - index)")
     (auto simp: Let_def)

declare command_scan.simps [simp del]

definition read_only_shell_command :: "bool \<Rightarrow> string \<Rightarrow> bool" where
  "read_only_shell_command windows command =
     (if length command > MAX_CLASSIFIED_BYTES \<or> contains_any command [CHR 0x0A, CHR 0x0D]
         \<or> (windows \<and> contains_any command [single_quote, CHR ''^'', CHR ''%'', CHR ''!''])
      then False
      else let command = trim command
           in if command = [] then True else command_scan command 0 0 None True None)"

end
