(* ===== verification/Posix_Shell.thy ===== *)
theory Posix_Shell
  imports Shell_Read
begin

text \<open>
  A reference for the command lines of \<open>Shell_Read\<close>: how a POSIX shell splits the simple subset
  of its language (words, quotes, backslash, the connectors \<open>;\<close>, \<open>|\<close>, \<open>||\<close>, \<open>&&\<close>) into the
  argument lists it runs. Everything outside the subset (expansions, redirections, grouping,
  comments, patterns, background jobs) makes the reference give up with \<open>None\<close>.

  Against it: the command line built for an exec call is split back into its arguments, and a
  command accepted as a read consists of reads only.
\<close>

section \<open>The reference tokenizer\<close>

definition sh_special :: "char \<Rightarrow> bool" where
  "sh_special c \<longleftrightarrow> c \<in> set (''><$(){}#'' @ [CHR 0x60, CHR 0x0A])"

definition sh_pattern :: "char \<Rightarrow> bool" where
  "sh_pattern c \<longleftrightarrow> c \<in> set ''*?[]~''"

definition sh_blank :: "char \<Rightarrow> bool" where
  "sh_blank c \<longleftrightarrow> c = CHR '' '' \<or> c = CHR 0x09"

definition is_quote :: "char \<Rightarrow> bool" where
  "is_quote c \<longleftrightarrow> c = single_quote \<or> c = double_quote"

definition is_connector :: "char \<Rightarrow> bool" where
  "is_connector c \<longleftrightarrow> c \<in> set ''|;&''"

abbreviation word_of :: "string option \<Rightarrow> string" where
  "word_of w \<equiv> (case w of None \<Rightarrow> [] | Some x \<Rightarrow> x)"

text \<open>The end of a word; a word with a bare pattern character is outside the subset.\<close>

definition close_word :: "string option \<Rightarrow> bool \<Rightarrow> string list \<Rightarrow> string list option" where
  "close_word w pat ws = (case w of None \<Rightarrow> Some ws | Some x \<Rightarrow> if pat then None else Some (ws @ [x]))"

function sh ::
  "char option \<Rightarrow> string option \<Rightarrow> bool \<Rightarrow> string list \<Rightarrow> string \<Rightarrow> string list list option" where
  "sh q w pat ws [] =
     (if q = None then map_option (\<lambda>argv. [argv]) (close_word w pat ws) else None)"
| "sh (Some d) w pat ws (c # cs) =
     (if c = d then sh None (Some (word_of w)) pat ws cs
      else if d = double_quote \<and> c \<in> set [CHR ''$'', CHR 0x60, backslash] then None
      else sh (Some d) (Some (word_of w @ [c])) pat ws cs)"
| "sh None w pat ws (c # cs) =
     (if sh_special c then None
      else if c = backslash then
        (case cs of
           [] \<Rightarrow> None
         | x # r \<Rightarrow> if x = CHR 0x0A then None else sh None (Some (word_of w @ [x])) pat ws r)
      else if is_quote c then sh (Some c) (Some (word_of w)) pat ws cs
      else if sh_blank c then
        (case close_word w pat ws of None \<Rightarrow> None | Some ws' \<Rightarrow> sh None None False ws' cs)
      else if is_connector c then
        (let doubled = (cs \<noteq> [] \<and> hd cs = c) in
         if c = CHR ''&'' \<and> \<not> doubled then None
         else case close_word w pat ws of
                None \<Rightarrow> None
              | Some argv \<Rightarrow>
                  map_option (\<lambda>segs. argv # segs)
                    (sh None None False [] (if c \<noteq> CHR '';'' \<and> doubled then tl cs else cs)))
      else sh None (Some (word_of w @ [c])) (pat \<or> sh_pattern c) ws cs)"
  by pat_completeness auto
termination
  by (relation "measure (\<lambda>(q, w, pat, ws, s). length s)") auto

lemma sh_ordinary:
  assumes "\<not> sh_special c" "c \<noteq> backslash" "\<not> is_quote c" "\<not> sh_blank c" "\<not> is_connector c"
  shows "sh None w pat ws (c # cs) = sh None (Some (word_of w @ [c])) (pat \<or> sh_pattern c) ws cs"
  using assms by simp

declare sh.simps(3) [simp del]

lemma char_classes [simp]:
  "is_quote single_quote" "is_quote double_quote" "\<not> sh_special single_quote" "\<not> sh_special double_quote"
  "single_quote \<noteq> backslash" "double_quote \<noteq> backslash" "single_quote \<noteq> double_quote"
  "\<not> sh_special backslash" "single_quote \<noteq> CHR 0x0A" "\<not> is_quote backslash"
  by (simp_all add: is_quote_def sh_special_def quote_defs)

lemma is_quote_char: "is_quote c \<Longrightarrow> \<not> sh_special c \<and> c \<noteq> backslash"
  by (auto simp: is_quote_def)

lemma blank_char: "sh_blank c \<Longrightarrow> \<not> sh_special c \<and> c \<noteq> backslash \<and> \<not> is_quote c \<and> \<not> is_connector c"
  by (auto simp: is_quote_def sh_blank_def sh_special_def is_connector_def quote_defs)

lemma connector_char: "is_connector c \<Longrightarrow> \<not> sh_special c \<and> c \<noteq> backslash \<and> \<not> is_quote c \<and> \<not> sh_blank c"
  by (auto simp: is_quote_def sh_blank_def sh_special_def is_connector_def quote_defs)

lemma sh_quote: "is_quote c \<Longrightarrow> sh None w pat ws (c # cs) = sh (Some c) (Some (word_of w)) pat ws cs"
  by (simp add: sh.simps(3) is_quote_char)

lemma sh_skip_blank:
  "sh_blank c \<Longrightarrow> sh None w pat ws (c # cs) =
     (case close_word w pat ws of None \<Rightarrow> None | Some ws' \<Rightarrow> sh None None False ws' cs)"
  by (simp add: sh.simps(3) blank_char)

lemma sh_escape: "x \<noteq> CHR 0x0A \<Longrightarrow>
   sh None w pat ws (backslash # x # r) = sh None (Some (word_of w @ [x])) pat ws r"
  by (simp add: sh.simps(3))

definition sh_split :: "string \<Rightarrow> string list list option" where
  "sh_split s = sh None None False [] s"

section \<open>The command line of an exec call\<close>

lemma plain_char:
  assumes "quote_plain c"
  shows "\<not> sh_special c" "c \<noteq> backslash" "\<not> is_quote c" "\<not> sh_blank c" "\<not> is_connector c" "\<not> sh_pattern c"
  using assms
  by (auto simp: quote_plain_def is_connector_def sh_special_def sh_blank_def sh_pattern_def is_quote_def quote_defs
      is_ascii_alphanumeric_def is_ascii_alphabetic_def is_ascii_digit_def)

lemma sh_plain:
  "list_all quote_plain w \<Longrightarrow> sh None (Some acc) pat ws (w @ rest) = sh None (Some (acc @ w)) pat ws rest"
proof (induction w arbitrary: acc)
  case (Cons c w)
  have c: "quote_plain c" using Cons.prems by simp
  from Cons.IH [of "acc @ [c]"] Cons.prems show ?case
    by (simp add: sh_ordinary [OF plain_char(1-5) [OF c]] plain_char(6) [OF c])
qed simp

lemma sh_replaced:
  "sh (Some single_quote) (Some acc) pat ws (replace_quotes w @ single_quote # rest)
   = sh None (Some (acc @ w)) pat ws rest"
  by (induction w arbitrary: acc) (simp_all add: sh_quote sh_escape)

lemma sh_quote_word:
  "sh None None False ws (quote_word w @ rest) = sh None (Some w) False ws rest"
proof (cases "w \<noteq> [] \<and> list_all quote_plain w")
  case True
  then obtain c r where w: "w = c # r" and c: "quote_plain c" and r: "list_all quote_plain r"
    by (cases w) auto
  have "sh None None False ws (w @ rest) = sh None (Some [c]) False ws (r @ rest)"
    by (simp add: w sh_ordinary [OF plain_char(1-5) [OF c]] plain_char(6) [OF c])
  also have "\<dots> = sh None (Some w) False ws rest" using sh_plain [OF r] by (simp add: w)
  finally show ?thesis using True by (simp add: quote_word_def)
next
  case False
  then have "quote_word w = single_quote # replace_quotes w @ [single_quote]"
    unfolding quote_word_def by (rule if_not_P)
  then show ?thesis using sh_replaced [of "[]" False ws w rest] by (simp add: sh_quote)
qed

lemma sh_exec_args:
  "sh None (Some p) False ws (concat (map (\<lambda>a. '' '' @ quote_word a) args)) = Some [ws @ p # args]"
proof (induction args arbitrary: p ws)
  case Nil
  show ?case by (simp add: close_word_def)
next
  case (Cons a args)
  have "sh None (Some p) False ws (concat (map (\<lambda>a. '' '' @ quote_word a) (a # args))) =
      sh None None False (ws @ [p]) (quote_word a @ concat (map (\<lambda>a. '' '' @ quote_word a) args))"
    by (simp add: close_word_def sh_skip_blank sh_blank_def)
  then show ?case using Cons by (simp add: sh_quote_word)
qed


section \<open>The word scanner reads words as the shell does\<close>

text \<open>The effect of the bytes of a word on the open quote, the unquoted text and the pattern flag.\<close>

fun word_step :: "char option \<times> string \<times> bool \<Rightarrow> char \<Rightarrow> char option \<times> string \<times> bool" where
  "word_step (Some d, acc, g) c = (if c = d then (None, acc, g) else (Some d, acc @ [c], g))"
| "word_step (None, acc, g) c =
     (if is_quote c then (Some c, acc, g) else (None, acc @ [c], g \<or> sh_pattern c))"

definition dequote :: "string \<Rightarrow> char option \<times> string \<times> bool" where
  "dequote raw = foldl word_step (None, [], False) raw"

lemma dequote_snoc: "dequote (raw @ [c]) = word_step (dequote raw) c"
  by (simp add: dequote_def)

lemma dequote_quoted: "d \<notin> set x \<Longrightarrow> foldl word_step (Some d, acc, g) x = (Some d, acc @ x, g)"
  by (induction x arbitrary: acc) auto

lemma dequote_bare:
  "\<forall>c \<in> set x. \<not> is_quote c \<and> \<not> sh_pattern c \<Longrightarrow> foldl word_step (None, acc, g) x = (None, acc @ x, g)"
  by (induction x arbitrary: acc) auto

lemma read_word_dequote:
  assumes "read_word raw = Some x" and "dequote raw = (None, y, g)"
  shows "y = x \<and> \<not> g"
proof (cases "raw \<noteq> [] \<and> is_quote (hd raw) \<and> last raw = hd raw")
  case True
  then obtain d m where raw: "raw = d # m" and d: "is_quote d" "last raw = d" by (cases raw) auto
  have "m \<noteq> []" using assms(2) raw d(1) by (auto simp: dequote_def)
  then obtain x' where m: "m = x' @ [d]" using d(2) raw by (metis append_butlast_last_id last.simps)
  then have x: "x = x'" "d \<notin> set x'"
    using assms(1) True raw by (auto simp: read_word_def Let_def is_quote_def split: if_splits)
  have "dequote raw = (None, x', False)"
    using x(2) d(1) by (simp add: dequote_def raw m dequote_quoted)
  then show ?thesis using assms(2) x(1) by simp
next
  case False
  then have bare: "x = raw" "\<forall>c \<in> set raw. \<not> is_quote c \<and> \<not> sh_pattern c"
    using assms(1)
    by (auto simp: read_word_def Let_def is_quote_def sh_pattern_def contains_any_iff split: if_splits)
  then show ?thesis using assms(2) dequote_bare [of raw "[]" False] by (simp add: dequote_def)
qed

text \<open>Bytes that the outer loop lets pass, from an open quote on, and the quote after them.\<close>

definition outer_bad :: "char \<Rightarrow> bool" where
  "outer_bad c \<longleftrightarrow> c \<in> set (''><$(){}#'' @ [CHR 0x60, backslash])"

definition inner_bad :: "char \<Rightarrow> char \<Rightarrow> bool" where
  "inner_bad d c \<longleftrightarrow> d = double_quote \<and> c \<in> set [CHR ''$'', CHR 0x60, backslash]"

fun plain :: "char option \<Rightarrow> string \<Rightarrow> bool" where
  "plain q [] = True"
| "plain (Some d) (c # cs) = (if c = d then plain None cs else \<not> inner_bad d c \<and> plain (Some d) cs)"
| "plain None (c # cs) =
     (\<not> outer_bad c \<and> \<not> is_connector c \<and> plain (if is_quote c then Some c else None) cs)"

fun quote_step :: "char option \<Rightarrow> char \<Rightarrow> char option" where
  "quote_step (Some d) c = (if c = d then None else Some d)"
| "quote_step None c = (if is_quote c then Some c else None)"

abbreviation quote_after :: "char option \<Rightarrow> string \<Rightarrow> char option" where
  "quote_after \<equiv> foldl quote_step"

lemma plain_append: "plain q (x @ y) \<longleftrightarrow> plain q x \<and> plain (quote_after q x) y"
  by (induction q x rule: plain.induct) auto

text \<open>A byte that both sides see alike: ASCII, and white only when it is a blank of the shell.\<close>

definition sane :: "char \<Rightarrow> bool" where
  "sane c \<longleftrightarrow> is_ascii c \<and> (white1 (of_char c) \<longrightarrow> sh_blank c)"

lemma sane_white: "sane c \<Longrightarrow> is_ascii_whitespace c \<Longrightarrow> sh_blank c"
  by (auto simp: sane_def is_ascii_whitespace_def white1_def)

lemma blank_white: "sh_blank c \<Longrightarrow> is_ascii_whitespace c"
  by (auto simp: sh_blank_def is_ascii_whitespace_def)

lemma sane_special: "sane c \<Longrightarrow> \<not> outer_bad c \<Longrightarrow> \<not> sh_special c \<and> c \<noteq> backslash"
proof -
  assume "sane c" and bad: "\<not> outer_bad c"
  then have "c \<noteq> CHR 0x0A" by (auto simp: sane_def white1_def sh_blank_def)
  then show ?thesis using bad by (auto simp: outer_bad_def sh_special_def)
qed

text \<open>The scan at the end of \<open>pre\<close>, a part of the segment, and the state of the shell there.\<close>

definition word_state :: "string \<Rightarrow> nat option \<Rightarrow> char option \<Rightarrow> string option \<Rightarrow> bool \<Rightarrow> bool" where
  "word_state pre start quote w g \<longleftrightarrow>
     (case start of
        None \<Rightarrow> quote = None \<and> w = None \<and> \<not> g
      | Some b \<Rightarrow> b \<le> length pre \<and> (\<exists>acc. w = Some acc \<and> dequote (drop b pre) = (quote, acc, g)))"

lemma word_state_step:
  assumes "word_state pre start quote w g" and "word_step (quote, word_of w, g) c = (q', acc', g')"
  shows "word_state (pre @ [c]) (Some (case start of Some i \<Rightarrow> i | None \<Rightarrow> length pre)) q' (Some acc') g'"
proof (cases start)
  case None
  then show ?thesis using assms by (simp add: word_state_def dequote_def)
next
  case (Some b)
  then obtain acc where "b \<le> length pre" "w = Some acc" "dequote (drop b pre) = (quote, acc, g)"
    using assms(1) by (auto simp: word_state_def)
  then show ?thesis using Some assms(2) by (simp add: word_state_def dequote_snoc)
qed

lemma word_state_quoted: "word_state pre start (Some d) w g \<Longrightarrow> \<exists>b acc. start = Some b \<and> w = Some acc"
  by (auto simp: word_state_def split: option.splits)

lemma word_step_quote: "(\<forall>d. q = Some d \<longrightarrow> is_quote d) \<Longrightarrow> word_step (q, acc, g) c = (Some d, r) \<Longrightarrow> is_quote d"
  by (cases q) (auto split: if_splits)

lemma dequote_quote: "dequote raw = (Some d, r) \<Longrightarrow> is_quote d"
proof (induction raw arbitrary: d r rule: rev_induct)
  case (snoc c raw)
  obtain q acc g where "dequote raw = (q, acc, g)" by (metis prod_cases3)
  then show ?case using snoc word_step_quote [of q acc g c d r] by (auto simp: dequote_snoc)
qed (simp add: dequote_def)

lemma word_state_is_quote: "word_state pre start (Some d) w g \<Longrightarrow> is_quote d"
  using dequote_quote by (auto simp: word_state_def split: option.splits)

lemma word_state_empty: "word_state pre None None None False"
  by (simp add: word_state_def)

lemma word_state_close:
  assumes "word_state pre (Some b) None w g"
    and "read_word (take (length pre - b) (drop b (pre @ rest))) = Some x"
  shows "close_word w g argv = Some (argv @ [x])"
proof -
  obtain acc where b: "b \<le> length pre" and w: "w = Some acc" and deq: "dequote (drop b pre) = (None, acc, g)"
    using assms(1) by (auto simp: word_state_def)
  have "take (length pre - b) (drop b (pre @ rest)) = drop b pre" using b by simp
  then have "acc = x \<and> \<not> g" using read_word_dequote [OF _ deq] assms(2) by simp
  then show ?thesis by (simp add: w close_word_def)
qed

lemma sh_step_quoted:
  assumes "plain (Some d) (c # cs)" and "word_step (Some d, acc, g) c = (q', acc', g')"
  shows "sh (Some d) (Some acc) g ws (c # rest) = sh q' (Some acc') g' ws rest"
  using assms by (auto simp: inner_bad_def split: if_splits)

lemma sh_step_bare:
  assumes "plain None (c # cs)" and "sane c" and "\<not> sh_blank c"
    and "word_step (None, word_of w, g) c = (q', acc', g')"
  shows "sh None w g ws (c # rest) = sh q' (Some acc') g' ws rest"
proof (cases "is_quote c")
  case True
  then show ?thesis using assms(4) by (simp add: sh_quote)
next
  case False
  have "\<not> sh_special c \<and> c \<noteq> backslash" using assms(1,2) sane_special by simp
  then show ?thesis using False assms(1,3,4) sh_ordinary [of c w g ws rest] by simp
qed

lemma plain_step:
  "plain q (c # cs) \<Longrightarrow> word_step (q, acc, g) c = (q', acc', g') \<Longrightarrow> plain q' cs"
  by (cases q) (auto split: if_splits)

lemma reads_scan_word:
  assumes "quote = None \<Longrightarrow> \<not> is_ascii_whitespace c" and "word_step (quote, acc, g) c = (q', acc', g')"
    and "quote \<noteq> None \<Longrightarrow> start \<noteq> None"
  shows "reads_scan seg (c # cs) index start quote argv =
    reads_scan seg cs (index + 1) (Some (case start of Some i \<Rightarrow> i | None \<Rightarrow> index)) q' argv"
  using assms by (cases quote) (auto simp: is_quote_def split: if_splits)

text \<open>A segment the scanner reads as \<open>argv'\<close> is read as \<open>argv'\<close> by the shell.\<close>

lemma reads_scan_sh:
  assumes "reads_scan (pre @ bs) (bs @ '' '') (length pre) start quote argv = Some (argv', None)"
    and "word_state pre start quote w g" and "plain quote bs" and "list_all sane bs"
  shows "\<exists>w' g' ws'. (\<forall>rest. sh quote w g argv (bs @ rest) = sh None w' g' ws' rest)
    \<and> close_word w' g' ws' = Some argv'"
  using assms
proof (induction bs arbitrary: pre start quote w g argv)
  case Nil
  then have q: "quote = None"
    using word_state_is_quote by (cases quote) (fastforce simp: is_quote_def quote_defs split: if_splits)+
  show ?case
  proof (cases start)
    case None
    then have "argv' = argv" "w = None" "\<not> g" using Nil.prems(1,2) q
      by (auto simp: word_state_def is_ascii_whitespace_def quote_defs)
    moreover have "close_word None False argv = Some argv" by (simp add: close_word_def)
    ultimately show ?thesis using q by auto
  next
    case (Some b)
    then obtain x where "read_word (take (length pre - b) (drop b pre)) = Some x" "argv' = argv @ [x]"
      using Nil q by (auto simp: is_ascii_whitespace_def quote_defs split: if_splits option.splits)
    then show ?thesis using word_state_close [of pre b w g "[]" x argv] Nil.prems(2) Some q by auto
  qed
next
  case (Cons c cs)
  have sane: "sane c" "list_all sane cs" using Cons.prems(4) by simp_all
  show ?case
  proof (cases "quote = None \<and> is_ascii_whitespace c")
    case True
    then have blank: "sh_blank c" using sane sane_white by simp
    have nq: "\<not> (c = single_quote \<or> c = double_quote)" using blank_char [OF blank] by (simp add: is_quote_def)
    obtain argv1 where argv1: "close_word w g argv = Some argv1"
      and scan: "reads_scan (pre @ c # cs) (cs @ '' '') (length pre + 1) None None argv1 = Some (argv', None)"
    proof (cases start)
      case None
      then show ?thesis using that [of argv] Cons.prems(1,2) True nq
        by (simp add: word_state_def close_word_def)
    next
      case (Some b)
      then obtain x where x: "read_word (take (length pre - b) (drop b (pre @ c # cs))) = Some x"
        and sc: "reads_scan (pre @ c # cs) (cs @ '' '') (length pre + 1) None None (argv @ [x]) = Some (argv', None)"
        using Cons.prems(1) True nq by (simp split: if_splits option.splits)
      show ?thesis
      proof (rule that [OF _ sc])
        show "close_word w g argv = Some (argv @ [x])"
          by (rule word_state_close [OF _ x]) (use Cons.prems(2) Some True in simp)
      qed
    qed
    have "plain None cs" using Cons.prems(3) True nq by (simp add: is_quote_def split: if_splits)
    then have "\<exists>w' g' ws'. (\<forall>rest. sh None None False argv1 (cs @ rest) = sh None w' g' ws' rest)
        \<and> close_word w' g' ws' = Some argv'"
      using Cons.IH [of "pre @ [c]" None None argv1 None False] scan sane(2) word_state_empty by simp
    then show ?thesis using True argv1 by (simp add: sh_skip_blank [OF blank])
  next
    case False
    obtain q' acc' g' where ws: "word_step (quote, word_of w, g) c = (q', acc', g')" by (metis prod_cases3)
    have scan: "reads_scan (pre @ c # cs) (cs @ '' '') (length pre + 1)
        (Some (case start of Some i \<Rightarrow> i | None \<Rightarrow> length pre)) q' argv = Some (argv', None)"
      using reads_scan_word [OF _ ws, of start "pre @ c # cs" "cs @ '' ''" "length pre" argv] False
        Cons.prems(1) word_state_quoted Cons.prems(2) by (cases quote) fastforce+
    have sh: "sh quote w g argv (c # rest) = sh q' (Some acc') g' argv rest" for rest
    proof (cases quote)
      case None
      then show ?thesis
        using sh_step_bare [OF _ sane(1)] Cons.prems(3) False blank_white ws by metis
    next
      case (Some d)
      obtain acc where "w = Some acc" using word_state_quoted Cons.prems(2) Some by blast
      then show ?thesis using sh_step_quoted Cons.prems(3) ws Some by simp
    qed
    have "\<exists>w' g'' ws'. (\<forall>rest. sh q' (Some acc') g' argv (cs @ rest) = sh None w' g'' ws' rest)
        \<and> close_word w' g'' ws' = Some argv'"
      using Cons.IH [OF _ word_state_step [OF Cons.prems(2) ws] plain_step [OF Cons.prems(3) ws] sane(2)] scan
      by simp
    then show ?thesis by (simp add: sh)
  qed
qed

section \<open>Commands accepted as reads\<close>

lemma blanks_of_white:
  "list_all sane s \<Longrightarrow> list_all (\<lambda>c. white1 (of_char c)) s \<Longrightarrow> list_all sh_blank s"
  by (induction s) (auto simp: sane_def)

lemma trim_blanks:
  assumes "list_all sane s"
  obtains a b where "s = a @ trim s @ b" "list_all sh_blank a" "list_all sh_blank b"
proof -
  have "list_all is_ascii s" using assms by (induction s) (auto simp: sane_def)
  then obtain a b where ab: "s = a @ trim s @ b" "list_all (\<lambda>c. white1 (of_char c)) (a @ b)"
    using trim_split by blast
  have "list_all sane a" "list_all sane b" using assms ab(1) by (metis list_all_append)+
  then show thesis using that [OF ab(1)] ab(2) blanks_of_white by simp
qed

lemma sh_blanks: "list_all sh_blank a \<Longrightarrow> sh None None False ws (a @ rest) = sh None None False ws rest"
  by (induction a) (simp_all add: sh_skip_blank close_word_def)

lemma plain_blanks: "list_all sh_blank a \<Longrightarrow> plain None (a @ x) \<longleftrightarrow> plain None x"
  by (induction a) (auto simp: sh_blank_def is_quote_def outer_bad_def is_connector_def quote_defs)

lemma sh_close_blanks:
  assumes "close_word w g ws = Some argv" and "list_all sh_blank b"
  obtains w' g' ws' where "\<forall>rest. sh None w g ws (b @ rest) = sh None w' g' ws' rest"
    "close_word w' g' ws' = Some argv"
proof (cases b)
  case Nil
  then show ?thesis using that [of w g ws] assms(1) by simp
next
  case (Cons c cs)
  then have "\<forall>rest. sh None w g ws (b @ rest) = sh None None False argv rest"
    using assms by (simp add: sh_skip_blank sh_blanks)
  then show ?thesis using that [of None False argv] by (simp add: close_word_def)
qed

text \<open>What an accepted simple command is: a read, or a change of directory at the very start.\<close>

definition reads_argv :: "bool \<Rightarrow> string list \<Rightarrow> bool" where
  "reads_argv first argv \<longleftrightarrow>
     argv \<noteq> [] \<and> (first \<and> hd argv = ''cd'' \<and> length argv = 2 \<or> read_only_argv (hd argv) (tl argv))"

lemma segment_reads_argv:
  "segment_reads seg first conn \<Longrightarrow>
     \<exists>argv. reads_scan seg (seg @ '' '') 0 None None [] = Some (argv, None) \<and> reads_argv first argv"
  by (auto simp: segment_reads_def reads_argv_def split: option.splits if_splits prod.splits)

lemma segment_sh:
  assumes "segment_reads (trim raw) first conn" and "plain None raw" and "list_all sane raw"
  obtains w' g' ws' argv where "\<forall>rest. sh None None False [] (raw @ rest) = sh None w' g' ws' rest"
    "close_word w' g' ws' = Some argv" "reads_argv first argv"
proof -
  obtain a b where ab: "raw = a @ trim raw @ b" "list_all sh_blank a" "list_all sh_blank b"
    using trim_blanks [OF assms(3)] .
  obtain argv where scan: "reads_scan (trim raw) (trim raw @ '' '') 0 None None [] = Some (argv, None)"
    and ok: "reads_argv first argv" using segment_reads_argv [OF assms(1)] by blast
  have "plain None (a @ trim raw @ b)" using assms(2) ab(1) by simp
  then have pl: "plain None (trim raw)" using plain_blanks [OF ab(2)] plain_append by blast
  have sane: "list_all sane (trim raw)" using assms(3) ab(1) by (metis list_all_append)
  obtain w g ws where sh: "\<forall>rest. sh None None False [] (trim raw @ rest) = sh None w g ws rest"
    and close: "close_word w g ws = Some argv"
    using reads_scan_sh [of "[]" "trim raw" None None "[]" argv None False] scan pl sane word_state_empty
    by auto
  obtain w' g' ws' where sh': "\<forall>rest. sh None w g ws (b @ rest) = sh None w' g' ws' rest"
    "close_word w' g' ws' = Some argv" using sh_close_blanks [OF close ab(3)] .
  have "sh None None False [] (raw @ rest) = sh None w' g' ws' rest" for rest
  proof -
    have "raw @ rest = a @ trim raw @ b @ rest" using ab(1) by (metis append.assoc)
    moreover have "sh None None False [] (a @ trim raw @ b @ rest) = sh None w' g' ws' rest"
      using sh sh' sh_blanks [OF ab(2)] by simp
    ultimately show ?thesis by (simp only:)
  qed
  then show thesis using that sh'(2) ok by blast
qed

fun segs_read :: "bool \<Rightarrow> string list list \<Rightarrow> bool" where
  "segs_read first [] = True"
| "segs_read first (argv # segs) = ((argv = [] \<and> segs = [] \<or> reads_argv first argv) \<and> segs_read False segs)"

text \<open>One step of the outer loop: a byte of the current segment, or a connector.\<close>

lemma command_scan_step:
  assumes "command_scan cmd start index quote first lastc" and "index < length cmd" and "cmd ! index = c"
    and "quote \<noteq> None \<or> \<not> is_connector c"
  shows "plain quote [c] \<and> command_scan cmd start (index + 1) (quote_step quote c) first lastc"
proof (cases quote)
  case None
  have "\<not> outer_bad c" using assms(1-3) None
    by (auto simp: command_scan.simps [of cmd start index None] outer_bad_def Let_def split: if_splits)
  moreover have "command_scan cmd start (index + 1) (quote_step quote c) first lastc"
    using assms None
    by (auto simp: command_scan.simps [of cmd start index None] Let_def is_quote_def is_connector_def
        split: if_splits)
  ultimately show ?thesis using assms(4) None by simp
next
  case (Some d)
  then show ?thesis using assms(1-3)
    by (auto simp: command_scan.simps [of cmd start index "Some d"] Let_def inner_bad_def split: if_splits)
qed

lemma command_scan_connector:
  assumes "command_scan cmd start index None first lastc" and "index < length cmd" and "cmd ! index = c"
    and "is_connector c" and "doubled = (index + 1 < length cmd \<and> cmd ! (index + 1) = c)"
  shows "(c = CHR ''&'' \<longrightarrow> doubled)"
    and "segment_reads (trim (take (index - start) (drop start cmd))) first (Some c)"
    and "command_scan cmd ((if c \<noteq> CHR '';'' \<and> doubled then index + 1 else index) + 1)
           ((if c \<noteq> CHR '';'' \<and> doubled then index + 1 else index) + 1) None False (Some c)"
proof -
  have c: "\<not> (c \<in> set (''><$(){}#'' @ [CHR 0x60, backslash]))" "\<not> (c = single_quote \<or> c = double_quote)"
    "c \<in> set ''|;&''"
    using assms(4) by (auto simp: is_connector_def quote_defs)
  note scan = assms(1) [unfolded command_scan.simps [of cmd start index None], simplified assms(2,3) if_True Let_def
      option.case if_not_P [OF c(1)] if_not_P [OF c(2)] if_P [OF c(3)], folded assms(5)]
  show "c = CHR ''&'' \<longrightarrow> doubled" using scan by argo
  show "segment_reads (trim (take (index - start) (drop start cmd))) first (Some c)"
    using scan by argo
  show "command_scan cmd ((if c \<noteq> CHR '';'' \<and> doubled then index + 1 else index) + 1)
           ((if c \<noteq> CHR '';'' \<and> doubled then index + 1 else index) + 1) None False (Some c)"
    using scan by argo
qed

lemma sh_connector:
  assumes "is_connector c" and "c = CHR ''&'' \<longrightarrow> cs \<noteq> [] \<and> hd cs = c"
    and "close_word w g ws = Some argv"
  shows "sh None w g ws (c # cs) = map_option (\<lambda>segs. argv # segs)
    (sh None None False [] (if c \<noteq> CHR '';'' \<and> cs \<noteq> [] \<and> hd cs = c then tl cs else cs))"
  using assms connector_char [OF assms(1)] by (cases "c = CHR ''&''") (simp_all add: sh.simps(3) Let_def)

lemma sh_trailing_blanks:
  "sh q w g ws s = Some segs \<Longrightarrow> list_all sh_blank b \<Longrightarrow> sh q w g ws (s @ b) = Some segs"
proof (induction q w g ws s arbitrary: segs rule: sh.induct)
  case (1 q w g ws)
  then obtain argv where argv: "q = None" "close_word w g ws = Some argv" "segs = [argv]"
    by (auto split: if_splits)
  obtain w' g' ws' where "\<forall>rest. sh None w g ws (b @ rest) = sh None w' g' ws' rest"
    "close_word w' g' ws' = Some argv" using sh_close_blanks [OF argv(2) 1(2)] .
  then have "sh None w g ws (b @ []) = Some [argv]" by (simp del: append_Nil2)
  then show ?case using argv by simp
next
  case (2 d w g ws c cs)
  then show ?case by (auto split: if_splits)
next
  case (3 w g ws c cs)
  have sp: "\<not> sh_special c" using 3(6) by (auto simp: sh.simps(3))
  have bhd: "b = [] \<or> sh_blank (hd b)" using 3(7) by (cases b) auto
  consider (esc) "c = backslash" | (quote) "is_quote c" | (blank) "sh_blank c" | (conn) "is_connector c"
    | (ord) "c \<noteq> backslash" "\<not> is_quote c" "\<not> sh_blank c" "\<not> is_connector c" by blast
  then show ?case
  proof cases
    case esc
    then show ?thesis using 3(1) 3(6,7) by (auto simp: sh.simps(3) split: list.splits if_splits)
  next
    case quote
    then show ?thesis using 3(2) [OF sp] 3(6,7) is_quote_char by (simp add: sh_quote)
  next
    case blank
    then show ?thesis using 3(3) [OF sp] 3(6,7) blank_char by (auto simp: sh_skip_blank split: option.splits)
  next
    case conn
    let ?dbl = "cs \<noteq> [] \<and> hd cs = c"
    note nc = connector_char [OF conn]
    have amp: "c = CHR ''&'' \<longrightarrow> ?dbl" and cl: "close_word w g ws \<noteq> None"
      using 3(6) conn nc by (auto simp: sh.simps(3) Let_def split: if_splits option.splits)
    then obtain argv where argv: "close_word w g ws = Some argv" by auto
    have dbl: "(cs @ b \<noteq> [] \<and> hd (cs @ b) = c) = ?dbl" using bhd nc by (cases cs; cases b) auto
    obtain segs' where segs': "segs = argv # segs'"
      "sh None None False [] (if c \<noteq> CHR '';'' \<and> ?dbl then tl cs else cs) = Some segs'"
      using 3(6) sh_connector [OF conn amp argv] by auto
    have tl_b: "tl (cs @ b) = tl cs @ b" if ?dbl using that by simp
    have "sh None None False [] ((if c \<noteq> CHR '';'' \<and> ?dbl then tl cs else cs) @ b) = Some segs'"
      using 3(4) [OF sp _ _ _ conn refl _ argv segs'(2) 3(7)] nc amp by auto
    then have "sh None None False [] (if c \<noteq> CHR '';'' \<and> ?dbl then tl (cs @ b) else cs @ b) = Some segs'"
      using tl_b by (cases "c \<noteq> CHR '';'' \<and> ?dbl") auto
    then show ?thesis using sh_connector [OF conn _ argv, of "cs @ b"] amp dbl segs'(1) by simp
  next
    case ord
    then show ?thesis using 3(5) [OF sp] 3(6,7) sh_ordinary [OF sp ord] by simp
  qed
qed

lemma command_scan_sh:
  assumes "command_scan (pre @ raw @ post) (length pre) (length pre + length raw) (quote_after None raw) first lastc"
    and "plain None raw" and "list_all sane (raw @ post)"
  shows "\<exists>segs. sh None None False [] (raw @ post) = Some segs \<and> segs_read first segs"
  using assms
proof (induction "length post" arbitrary: pre raw post first lastc rule: less_induct)
  case less
  note scan = less.prems(1) and pl = less.prems(2) and sane = less.prems(3)
  have sane_raw: "list_all sane raw" using sane by simp
  show ?case
  proof (cases post)
    case Nil
    then have fin: "if trim raw = [] then lastc = Some (CHR '';'') else segment_reads (trim raw) first None"
      using scan by (simp add: command_scan.simps [of "pre @ raw"] Let_def split: if_splits)
    show ?thesis
    proof (cases "trim raw = []")
      case True
      then obtain a b where "raw = a @ b" "list_all sh_blank (a @ b)"
        using trim_blanks [OF sane_raw] by (metis append_Nil list_all_append)
      then have "sh None None False [] (raw @ []) = Some [[]]"
        using sh_blanks [of raw "[]" "[]"] by (simp add: close_word_def)
      then show ?thesis using Nil by simp
    next
      case False
      then have "segment_reads (trim raw) first None" using fin by simp
      then obtain w g ws argv where sh: "\<forall>rest. sh None None False [] (raw @ rest) = sh None w g ws rest"
        and close: "close_word w g ws = Some argv" and ok: "reads_argv first argv"
        using segment_sh [OF _ pl sane_raw] by blast
      have "sh None None False [] (raw @ []) = Some [argv]" using sh close by (simp del: append_Nil2)
      then show ?thesis using Nil ok by simp
    qed
  next
    case (Cons c cs)
    let ?cmd = "pre @ raw @ c # cs" and ?index = "length pre + length raw"
    have here: "?index < length ?cmd" "?cmd ! ?index = c" by (simp_all add: nth_append)
    show ?thesis
    proof (cases "quote_after None raw \<noteq> None \<or> \<not> is_connector c")
      case True
      have "plain (quote_after None raw) [c]"
        and "command_scan ?cmd (length pre) (?index + 1) (quote_step (quote_after None raw) c) first lastc"
        using command_scan_step [OF _ here True] scan Cons by blast+
      then show ?thesis
        using less.hyps [of cs pre "raw @ [c]" first lastc] pl sane Cons by (simp add: plain_append)
    next
      case False
      then have conn: "is_connector c" and q: "quote_after None raw = None" by simp_all
      define dbl where "dbl = (?index + 1 < length ?cmd \<and> ?cmd ! (?index + 1) = c)"
      have dbl: "dbl = (cs \<noteq> [] \<and> hd cs = c)"
        unfolding dbl_def by (cases cs) (auto simp: nth_append)
      have scan': "command_scan ?cmd (length pre) ?index None first lastc" using scan Cons q by simp
      note steps = command_scan_connector [OF scan' here conn dbl_def]
      have "take (?index - length pre) (drop (length pre) ?cmd) = raw" by simp
      then have "segment_reads (trim raw) first (Some c)" using steps(2) by simp
      then obtain w g ws argv where sh: "\<forall>rest. sh None None False [] (raw @ rest) = sh None w g ws rest"
        and close: "close_word w g ws = Some argv" and ok: "reads_argv first argv"
        using segment_sh [OF _ pl sane_raw] by blast
      define x where "x = (if c \<noteq> CHR '';'' \<and> dbl then [c, c] else [c])"
      define next_cs where "next_cs = (if c \<noteq> CHR '';'' \<and> dbl then tl cs else cs)"
      have split: "c # cs = x @ next_cs" using dbl by (cases cs) (auto simp: x_def next_cs_def)
      have "command_scan ((pre @ raw @ x) @ [] @ next_cs) (length (pre @ raw @ x))
          (length (pre @ raw @ x) + length []) (quote_after None []) False (Some c)"
        using steps(3) by (cases "c \<noteq> CHR '';'' \<and> dbl") (auto simp: split x_def)
      moreover have "length next_cs < length post" unfolding Cons next_cs_def by (cases cs) simp_all
      moreover have "list_all sane next_cs"
        using sane unfolding Cons split by simp
      ultimately obtain segs where "sh None None False [] ([] @ next_cs) = Some segs" "segs_read False segs"
        using less.hyps [of next_cs "pre @ raw @ x" "[]" False "Some c"] by auto
      then have "sh None w g ws (c # cs) = Some (argv # segs)"
        using sh_connector [OF conn _ close, of cs] steps(1) dbl by (simp add: next_cs_def)
      then show ?thesis using sh Cons ok \<open>segs_read False segs\<close> by simp
    qed
  qed
qed



end
