(* ===== verification/Shell_Commands.thy ===== *)
theory Shell_Commands
  imports Shell_Read
begin

text \<open>
  The simple commands of a shell command line (\<^verbatim>\<open>crates/qq-core/src/approval/classify.rs\<close>): the
  walk over the syntax tree, the peeling of wrappers such as \<open>env\<close>, \<open>timeout\<close> and \<open>sh -c\<close>, and
  the denied prefixes of the configuration.

  The parser (tree-sitter with its bash grammar) is the parameter \<open>parse\<close>: it gives the root node
  of the tree and whether the tree has an error. The number parser of the standard library used on
  the duration of \<open>timeout\<close> is written out.
\<close>

section \<open>Syntax trees\<close>

datatype node = Node (kind: string) (is_named: bool) (node_start: nat) (node_end: nat) (children: "node list")

definition named_children :: "node \<Rightarrow> node list" where
  "named_children n = filter is_named (children n)"

definition first_named :: "node \<Rightarrow> node option" where
  "first_named n = (case named_children n of [] \<Rightarrow> None | c # _ \<Rightarrow> Some c)"

definition node_bytes :: "string \<Rightarrow> node \<Rightarrow> string" where
  "node_bytes source n = take (node_end n - node_start n) (drop (node_start n) source)"

definition node_text :: "string \<Rightarrow> node \<Rightarrow> string option" where
  "node_text source n = (let t = node_bytes source n in if utf8_valid t then Some t else None)"

lemma size_child: "c \<in> set (children n) \<Longrightarrow> size c < size n"
  by (cases n) (auto simp: less_Suc_eq_le trans_le_add2 dest: size_list_estimation' [OF _ order_refl])

lemma size_named: "c \<in> set (named_children n) \<Longrightarrow> size c < size n"
  by (simp add: named_children_def size_child)

type_synonym parser = "string \<Rightarrow> (node \<times> bool) option"

section \<open>Simple commands\<close>

record simple_command =
  sc_argv :: "string option list"
  sc_redirects :: "string option list"
  sc_raw_redirects :: "string list"
  sc_assignments :: "string list"
  sc_nested :: bool

definition basename :: "string \<Rightarrow> string" where
  "basename w = last (split_char w (CHR ''/''))"

definition sc_program :: "simple_command \<Rightarrow> string option" where
  "sc_program c = (case sc_argv c of Some w # _ \<Rightarrow> Some (basename w) | _ \<Rightarrow> None)"

definition sc_args :: "simple_command \<Rightarrow> string option list" where
  "sc_args c = drop 1 (sc_argv c)"

definition word_is :: "(string \<Rightarrow> bool) \<Rightarrow> string option \<Rightarrow> bool" where
  "word_is P w = (case w of Some x \<Rightarrow> P x | None \<Rightarrow> False)"

definition MAX_WRAPPER_DEPTH :: nat where "MAX_WRAPPER_DEPTH = 8"
definition MAX_NESTED_SHELLS :: nat where "MAX_NESTED_SHELLS = 4"
definition MAX_SUFFIX_STARTS :: nat where "MAX_SUFFIX_STARTS = 16"

definition bounded_suffixes :: "string option list \<Rightarrow> nat \<Rightarrow> string option list list" where
  "bounded_suffixes words first =
     map (\<lambda>start. drop start words)
       (take MAX_SUFFIX_STARTS
         (filter (\<lambda>start. \<not> word_is (\<lambda>w. starts_with w ''-'' \<or> contains_char w (CHR ''='')) (words ! start))
           [first..<length words]))"

definition stream_target :: "string \<Rightarrow> bool" where
  "stream_target target \<longleftrightarrow>
     target \<in> set [''/dev/null'', ''/dev/stdin'', ''/dev/stdout'', ''/dev/stderr'', ''/dev/fd/0'',
       ''/dev/fd/1'', ''/dev/fd/2'']
     \<or> (case strip_prefix target [CHR 0x00, CHR ''&''] of
          Some fd \<Rightarrow> fd \<in> set [''0'', ''1'', ''2''] | None \<Rightarrow> False)"

section \<open>Options of git before its subcommand\<close>

definition GIT_VALUE_OPTIONS :: "string list" where
  "GIT_VALUE_OPTIONS = [''-C'', ''-c'', ''--git-dir'', ''--work-tree'', ''--namespace'', ''--exec-path'',
     ''--super-prefix'', ''--config-env'', ''--attr-source'']"

fun git_options_loop :: "nat \<Rightarrow> string option list \<Rightarrow> nat" where
  "git_options_loop index (Some w # args) =
     (if \<not> starts_with w ''-'' then index
      else if w \<in> set GIT_VALUE_OPTIONS then
        (case args of [] \<Rightarrow> index + 2 | _ # rest \<Rightarrow> git_options_loop (index + 2) rest)
      else git_options_loop (index + 1) args)"
| "git_options_loop index _ = index"

definition git_options_end :: "string option list \<Rightarrow> nat" where
  "git_options_end args = min (git_options_loop 0 args) (length args)"

definition without_git_options :: "string option list \<Rightarrow> string option list" where
  "without_git_options av =
     (case av of
        program # args \<Rightarrow>
          if map_option basename program = Some ''git'' then program # drop (git_options_end args) args else av
      | [] \<Rightarrow> av)"

text \<open>The words of a prefix against the words of a command; \<open>same\<close> compares the programs.\<close>

fun words_match :: "string option list \<Rightarrow> string option list \<Rightarrow> bool" where
  "words_match [] _ = True"
| "words_match (Some e # es) (Some a # as) = (a = e \<and> words_match es as)"
| "words_match _ _ = False"

definition prefix_matches ::
  "(string \<Rightarrow> string \<Rightarrow> bool) \<Rightarrow> string option list \<Rightarrow> string option list \<Rightarrow> bool" where
  "prefix_matches same pre av =
     (case (pre, av) of
        (Some e # es, Some a # as) \<Rightarrow> same a e \<and> words_match es as
      | _ \<Rightarrow> False)"

definition argv_has_prefix ::
  "string option list \<Rightarrow> string option list \<Rightarrow> (string \<Rightarrow> string \<Rightarrow> bool) \<Rightarrow> bool" where
  "argv_has_prefix av pre same \<longleftrightarrow> prefix_matches same pre av \<or> prefix_matches same pre (without_git_options av)"

section \<open>Launchers\<close>

definition is_sign :: "char \<Rightarrow> bool" where "is_sign c \<longleftrightarrow> c = CHR ''+'' \<or> c = CHR ''-''"

definition drop_sign :: "string \<Rightarrow> string" where
  "drop_sign s = (case s of c # cs \<Rightarrow> if is_sign c then cs else s | [] \<Rightarrow> s)"

text \<open>The texts \<open>str::parse::<f64>\<close> accepts: an optional sign, then \<open>inf\<close>, \<open>infinity\<close> or \<open>nan\<close> in any
  case, or digits with an optional point and an optional exponent.\<close>

definition is_exponent :: "string \<Rightarrow> bool" where
  "is_exponent s \<longleftrightarrow>
     s = [] \<or> (hd s = CHR ''e'' \<or> hd s = CHR ''E'') \<and> all_digits (drop_sign (tl s))"

definition parses_f64 :: "string \<Rightarrow> bool" where
  "parses_f64 s =
     (let t = drop_sign s;
          whole = takeWhile is_ascii_digit t;
          rest = dropWhile is_ascii_digit t;
          (frac, tail) = (case rest of
             c # cs \<Rightarrow> if c = CHR ''.'' then (takeWhile is_ascii_digit cs, dropWhile is_ascii_digit cs) else ([], rest)
           | [] \<Rightarrow> ([], []))
      in to_ascii_lowercase t \<in> set [''inf'', ''infinity'', ''nan'']
         \<or> (whole \<noteq> [] \<or> frac \<noteq> []) \<and> is_exponent tail)"

definition launcher_options :: "string \<Rightarrow> (string list \<times> string list \<times> string list) option" where
  "launcher_options p =
     (if p = ''timeout'' then Some ([''-s'', ''--signal'', ''-k'', ''--kill-after''], [''--preserve-status''],
         [''--signal='', ''--kill-after=''])
      else if p = ''nice'' then Some ([''-n'', ''--adjustment''], [], [''--adjustment=''])
      else if p = ''stdbuf'' then Some ([''-i'', ''-o'', ''-e'', ''--input'', ''--output'', ''--error''], [],
         [''-i'', ''-o'', ''-e'', ''--input='', ''--output='', ''--error=''])
      else if p = ''time'' then Some ([], [''-p''], [])
      else if p = ''nohup'' then Some ([], [], [])
      else None)"

fun launcher_loop ::
  "string list \<Rightarrow> string list \<Rightarrow> string list \<Rightarrow> nat \<Rightarrow> string option list \<Rightarrow> nat option" where
  "launcher_loop with_value alone attached own (Some word # rest) =
     (if \<not> starts_with word ''-'' then Some own
      else if word \<in> set with_value then
        (case rest of Some _ # rest' \<Rightarrow> launcher_loop with_value alone attached (own + 2) rest' | _ \<Rightarrow> None)
      else if word \<in> set alone \<or> list_ex (\<lambda>p. length word > length p \<and> starts_with word p) attached then
        launcher_loop with_value alone attached (own + 1) rest
      else None)"
| "launcher_loop with_value alone attached own _ = None"

definition literal_at :: "string option list \<Rightarrow> nat \<Rightarrow> string option" where
  "literal_at args i = (if i < length args then args ! i else None)"

definition duration_ok :: "string \<Rightarrow> bool" where
  "duration_ok d = parses_f64 (if d \<noteq> [] \<and> last d \<in> set ''smhd'' then butlast d else d)"

definition launcher_words :: "string \<Rightarrow> string option list \<Rightarrow> nat option" where
  "launcher_words p args =
     (case launcher_options p of
        None \<Rightarrow> None
      | Some (with_value, alone, attached) \<Rightarrow>
          (case launcher_loop with_value alone attached 0 args of
             None \<Rightarrow> None
           | Some own \<Rightarrow>
               (case (if p = ''timeout''
                      then (case literal_at args own of
                              None \<Rightarrow> None
                            | Some d \<Rightarrow> if duration_ok d then Some (own + 1) else None)
                      else Some own) of
                  None \<Rightarrow> None
                | Some own' \<Rightarrow> if literal_at args own' = None then None else Some own')))"

definition is_wrapper :: "string \<Rightarrow> bool" where
  "is_wrapper p \<longleftrightarrow> p \<in> set [''timeout'', ''time'', ''nice'', ''nohup'', ''stdbuf'', ''env'', ''ionice'', ''chrt'',
     ''taskset'', ''setsid'', ''unbuffer'', ''command'', ''builtin'', ''exec'', ''xargs'', ''sudo'', ''doas'',
     ''su'', ''pkexec'', ''watch'', ''strace'', ''ltrace'', ''sh'', ''bash'', ''zsh'', ''dash'', ''ksh'']"

lemma launcher_is_wrapper: "launcher_words p args = Some own \<Longrightarrow> is_wrapper p"
  by (auto simp: launcher_words_def launcher_options_def is_wrapper_def split: option.splits if_splits)

lemma launcher_loop_bound:
  "launcher_loop wv al att own args = Some n \<Longrightarrow> own \<le> n \<and> n < own + length args"
proof (induction wv al att own args rule: launcher_loop.induct)
  case (1 wv al att own w rest)
  then show ?case by (fastforce split: if_splits list.splits option.splits)
qed simp_all

lemma launcher_words_bound: "launcher_words p args = Some own \<Longrightarrow> own < length args"
  by (auto simp: launcher_words_def literal_at_def split: option.splits if_splits)

section \<open>Words and redirections\<close>

definition trim_chars :: "char list \<Rightarrow> string \<Rightarrow> string" where
  "trim_chars cs s = rev (dropWhile (\<lambda>c. c \<in> set cs) (rev (dropWhile (\<lambda>c. c \<in> set cs) s)))"

definition is_expansion :: "node \<Rightarrow> bool" where
  "is_expansion n \<longleftrightarrow> kind n = ''simple_expansion'' \<or> kind n = ''expansion''"

text \<open>Joins the texts of words when all of them are known.\<close>

fun concat_words :: "string option list \<Rightarrow> string option" where
  "concat_words [] = Some []"
| "concat_words (w # ws) =
     (case w of None \<Rightarrow> None | Some x \<Rightarrow> map_option (\<lambda>y. x @ y) (concat_words ws))"

function word :: "string \<Rightarrow> bool \<Rightarrow> node \<Rightarrow> string option" where
  "word source home n =
     (if is_expansion n \<and> home \<and> node_bytes source n \<in> set [''$HOME'', ''${HOME}''] then Some ''~''
      else if kind n \<in> set [''word'', ''number'', ''test_operator''] then
        (case node_text source n of
           None \<Rightarrow> None
         | Some t \<Rightarrow> if \<not> home \<and> contains_any t ''*?['' then None else Some t)
      else if kind n = ''raw_string'' then map_option (trim_chars [single_quote]) (node_text source n)
      else if kind n = ''string'' then
        concat_words (map (\<lambda>c. if kind c = ''string_content'' then node_text source c
                               else if is_expansion c \<and> home then word source home c
                               else None) (named_children n))
      else if kind n = ''concatenation'' then concat_words (map (\<lambda>c. word source home c) (named_children n))
      else if kind n = ''ansi_c_string'' \<or> kind n = ''translated_string'' then
        map_option (\<lambda>t. trim_chars [single_quote, double_quote] (dropWhile (\<lambda>c. c = CHR ''$'') t))
          (node_text source n)
      else None)"
  by pat_completeness auto
termination
  by (relation "measure (\<lambda>(source, home, n). size n)") (auto simp: size_named)

declare word.simps [simp del]

definition redirect_target :: "string \<Rightarrow> bool \<Rightarrow> node \<Rightarrow> string option \<times> string option" where
  "redirect_target source home n =
     (let target = List.find (\<lambda>c. kind c \<noteq> ''file_descriptor'') (named_children n);
          duplicates = list_ex (\<lambda>c. kind c = ''>&'' \<or> kind c = ''<&'') (children n)
      in (case target of
            None \<Rightarrow> None
          | Some c \<Rightarrow>
              map_option (\<lambda>w. if duplicates \<and> kind c = ''number'' then CHR 0x00 # CHR ''&'' # w else w)
                (word source home c),
          Option.bind target (node_text source)))"

function syntax_resolved :: "string \<Rightarrow> node \<Rightarrow> bool" where
  "syntax_resolved source n \<longleftrightarrow>
     \<not> (kind n = ''ansi_c_string''
        \<or> (kind n = ''word'' \<or> kind n = ''string_content'') \<and> contains_char (node_bytes source n) backslash)
     \<and> list_all (syntax_resolved source) (named_children n)"
  by pat_completeness auto
termination
  by (relation "measure (\<lambda>(source, n). size n)") (auto simp: size_named)

declare syntax_resolved.simps [simp del]

section \<open>What a wrapper runs\<close>

text \<open>
  One step of \<open>peel\<close>: the commands it records, whether the expansion of \<open>env -S\<close> overflowed, the
  commands it peels further, in order, and the script of a shell (\<open>Some None\<close> when it is not
  literal).
\<close>

record peel_plan =
  pl_pushed :: "simple_command list"
  pl_overflow :: bool
  pl_inner :: "simple_command list"
  pl_script :: "string option option"

definition pushed_only :: "simple_command list \<Rightarrow> peel_plan" where
  "pushed_only cs = \<lparr>pl_pushed = cs, pl_overflow = False, pl_inner = [], pl_script = None\<rparr>"

definition unknown_command :: simple_command where
  "unknown_command = \<lparr>sc_argv = [None], sc_redirects = [], sc_raw_redirects = [], sc_assignments = [], sc_nested = True\<rparr>"

definition inner_command :: "simple_command \<Rightarrow> string option list \<Rightarrow> simple_command" where
  "inner_command command av = \<lparr>sc_argv = av, sc_redirects = sc_redirects command,
     sc_raw_redirects = sc_raw_redirects command, sc_assignments = [], sc_nested = True\<rparr>"

definition inner_from :: "simple_command \<Rightarrow> nat \<Rightarrow> simple_command list" where
  "inner_from command skip =
     (if skip < length (sc_args command) then [inner_command command (drop skip (sc_args command))] else [])"

text \<open>The options of a wrapper: those in \<open>valued\<close> take the next word.\<close>

function skip_options :: "(string \<Rightarrow> bool) \<Rightarrow> string option list \<Rightarrow> nat \<Rightarrow> nat" where
  "skip_options valued args skip =
     (case literal_at args skip of
        None \<Rightarrow> skip
      | Some w \<Rightarrow>
          if starts_with w ''-'' then skip_options valued args (if valued w then skip + 2 else skip + 1)
          else skip)"
  by pat_completeness auto
termination
  by (relation "measure (\<lambda>(valued, args, skip). length args - skip)")
     (auto simp: literal_at_def split: if_splits)

declare skip_options.simps [simp del]

text \<open>The wrappers beyond the depth limit: the words after the launchers, or every suffix.\<close>

function strip_launchers :: "string option list \<Rightarrow> string option list" where
  "strip_launchers words =
     (case words of
        Some name # rest \<Rightarrow>
          (case launcher_words (basename name) rest of
             Some own \<Rightarrow> if contains_char name (CHR ''/'') then words else strip_launchers (drop own rest)
           | None \<Rightarrow> words)
      | _ \<Rightarrow> words)"
  by pat_completeness auto
termination
  by (relation "measure length") auto

declare strip_launchers.simps [simp del]

definition deep_plan :: "simple_command \<Rightarrow> peel_plan" where
  "deep_plan command =
     (let words = strip_launchers (sc_argv command);
          clean = (case words of
             Some name # _ \<Rightarrow> \<not> is_wrapper (basename name) \<and> \<not> contains_char name (CHR ''/'') | _ \<Rightarrow> False);
          tails = (if clean then [words] else bounded_suffixes (sc_argv command) 0)
      in pushed_only (command\<lparr>sc_argv := [None], sc_nested := True\<rparr>
           # map (\<lambda>av. command\<lparr>sc_argv := av, sc_nested := True\<rparr>) tails))"

subsection \<open>The split string of env\<close>

text \<open>\<open>str::replace\<close> of backslash underscore by a space.\<close>

fun replace_escaped_space :: "string \<Rightarrow> string" where
  "replace_escaped_space (a # b # cs) =
     (if a = backslash \<and> b = CHR ''_'' then CHR '' '' # replace_escaped_space cs
      else a # replace_escaped_space (b # cs))"
| "replace_escaped_space s = s"

text \<open>The last assignment of a name.\<close>

fun find_assignment :: "string \<Rightarrow> string list \<Rightarrow> string option" where
  "find_assignment name [] = None"
| "find_assignment name (a # as) =
     (case split_once a (CHR ''='') of
        Some (key, v) \<Rightarrow> if key = name then Some v else find_assignment name as
      | None \<Rightarrow> find_assignment name as)"

definition assigned_value :: "simple_command \<Rightarrow> nat \<Rightarrow> string \<Rightarrow> string option" where
  "assigned_value command skip name =
     find_assignment name
       (rev (sc_assignments command @ List.map_filter (\<lambda>a. a) (take skip (sc_args command))))"

text \<open>One piece of the text, expanded, and the rest.\<close>

definition env_piece :: "(string \<Rightarrow> string option) \<Rightarrow> string \<Rightarrow> string \<times> string" where
  "env_piece lookup rest =
     (case find_sub rest ''${'' of
        None \<Rightarrow> (rest, [])
      | Some start \<Rightarrow>
          if start > 0 then (take start rest, drop start rest)
          else (case position (\<lambda>c. c = CHR ''}'') rest of
                  None \<Rightarrow> (rest, [])
                | Some e \<Rightarrow>
                    (case lookup (take (e - 2) (drop 2 rest)) of
                       Some v \<Rightarrow> v
                     | None \<Rightarrow> take (e + 1) rest,
                     drop (e + 1) rest)))"

lemma env_piece_shorter: "rest \<noteq> [] \<Longrightarrow> length (snd (env_piece lookup rest)) < length rest"
  by (auto simp: env_piece_def split: option.splits)

function env_expand :: "(string \<Rightarrow> string option) \<Rightarrow> string \<Rightarrow> string \<Rightarrow> string \<times> bool" where
  "env_expand lookup text_so_far rest =
     (if rest = [] then (text_so_far, False)
      else let (piece, next_rest) = env_piece lookup rest
           in if length piece > MAX_CLASSIFIED_BYTES - length text_so_far then (text_so_far, True)
              else env_expand lookup (text_so_far @ piece) next_rest)"
  by pat_completeness auto
termination
proof (relation "measure (\<lambda>(lookup, t, rest). length rest)", goal_cases)
  case (2 lookup t rest x piece next_rest)
  then show ?case using env_piece_shorter [of rest lookup] by (metis case_prod_conv in_measure snd_conv)
qed simp

declare env_expand.simps [simp del]

fun env_unquote :: "string \<Rightarrow> string" where
  "env_unquote [] = []"
| "env_unquote (c # cs) =
     (if c = single_quote \<or> c = double_quote then env_unquote cs
      else if c = backslash then
        (case cs of
           [] \<Rightarrow> []
         | d # r \<Rightarrow> if d = CHR ''c'' then [] else d # env_unquote r)
      else c # env_unquote cs)"

datatype env_words = Split nat "string option" | Plain nat

function env_loop :: "string option list \<Rightarrow> nat \<Rightarrow> env_words" where
  "env_loop args skip =
     (case literal_at args skip of
        None \<Rightarrow> Plain skip
      | Some w \<Rightarrow>
          if w = ''-S'' \<or> w = ''--split-string'' then Split (skip + 1) (literal_at args (skip + 1))
          else (case strip_prefix w ''--split-string='' of
                  Some r \<Rightarrow> Split skip (Some r)
                | None \<Rightarrow>
                    (case strip_prefix w ''-S'' of
                       Some r \<Rightarrow> Split skip (Some r)
                     | None \<Rightarrow>
                         if w = ''-i'' \<or> w = ''--ignore-environment'' then env_loop args (skip + 1)
                         else if w = ''-u'' \<or> w = ''--unset'' then env_loop args (skip + 2)
                         else if starts_with w ''-'' \<or> contains_char w (CHR ''='') then env_loop args (skip + 1)
                         else Plain skip)))"
  by pat_completeness auto
termination
  by (relation "measure (\<lambda>(args, skip). length args - skip)") (auto simp: literal_at_def split: if_splits)

declare env_loop.simps [simp del]

definition env_plan :: "simple_command \<Rightarrow> peel_plan" where
  "env_plan command =
     (case env_loop (sc_args command) 0 of
        Split skip str \<Rightarrow>
          (let source = replace_escaped_space (case str of Some t \<Rightarrow> t | None \<Rightarrow> []);
               (t, overflow) = env_expand (assigned_value command skip) [] source;
               words = map Some (split_whitespace (env_unquote t)) @ drop (skip + 1) (sc_args command)
           in \<lparr>pl_pushed = [command, unknown_command], pl_overflow = overflow,
               pl_inner = map (inner_command command) (bounded_suffixes words 0), pl_script = None\<rparr>)
      | Plain skip \<Rightarrow>
          (let assigned = filter (\<lambda>w. \<not> starts_with w ''-'' \<and> contains_char w (CHR ''=''))
                 (List.map_filter (\<lambda>a. a) (take skip (sc_args command)))
           in \<lparr>pl_pushed = [command], pl_overflow = False,
               pl_inner = map (\<lambda>c. c\<lparr>sc_assignments := assigned\<rparr>) (inner_from command skip), pl_script = None\<rparr>))"

subsection \<open>The other wrappers\<close>

definition skip_plan :: "simple_command \<Rightarrow> nat \<Rightarrow> peel_plan" where
  "skip_plan command skip =
     \<lparr>pl_pushed = [command], pl_overflow = False, pl_inner = inner_from command skip, pl_script = None\<rparr>"

text \<open>Leading option words of \<open>taskset\<close> and \<open>chrt\<close> that name a process instead of a command.\<close>

fun retargets :: "string option list \<Rightarrow> bool" where
  "retargets (Some w # args) =
     (starts_with w ''-'' \<and>
       (w = ''--pid'' \<or> \<not> starts_with w ''--'' \<and> contains_char w (CHR ''p'') \<or> retargets args))"
| "retargets _ = False"

definition taskset_plan :: "simple_command \<Rightarrow> peel_plan" where
  "taskset_plan command =
     \<lparr>pl_pushed = [command], pl_overflow = False,
      pl_inner = (if retargets (sc_args command) then []
                  else map (inner_command command) (bounded_suffixes (sc_args command) 0)),
      pl_script = None\<rparr>"

text \<open>The script of \<open>sh -c\<close>: the first word after an option with \<open>c\<close> that is not one itself.\<close>

definition dash_c :: "string \<Rightarrow> bool" where
  "dash_c w \<longleftrightarrow> w = ''-c'' \<or> starts_with w ''-'' \<and> contains_char w (CHR ''c'') \<and> \<not> starts_with w ''--''"

fun shell_script :: "bool \<Rightarrow> string option list \<Rightarrow> string option option" where
  "shell_script saw_c [] = None"
| "shell_script saw_c (None # args) = (if saw_c then Some None else shell_script saw_c args)"
| "shell_script saw_c (Some w # args) =
     (if dash_c w then shell_script True args else if saw_c then Some (Some w) else shell_script saw_c args)"

definition SIMPLE_WRAPPERS :: "string list" where
  "SIMPLE_WRAPPERS = [''nice'', ''nohup'', ''time'', ''stdbuf'', ''ionice'', ''setsid'', ''unbuffer'', ''command'',
     ''builtin'', ''exec'']"

definition RUNNERS :: "string list" where
  "RUNNERS = [''xargs'', ''sudo'', ''doas'', ''su'', ''pkexec'', ''watch'', ''strace'', ''ltrace'']"

definition SHELLS :: "string list" where
  "SHELLS = [''sh'', ''bash'', ''zsh'', ''dash'', ''ksh'']"

definition wrapper_plan :: "simple_command \<Rightarrow> string \<Rightarrow> peel_plan" where
  "wrapper_plan command p =
     (let args = sc_args command in
      if p = ''env'' then env_plan command
      else if p = ''taskset'' \<or> p = ''chrt'' then taskset_plan command
      else if p \<in> set SIMPLE_WRAPPERS then
        skip_plan command
          (skip_options (\<lambda>w. w \<in> set [''-n'', ''-o'', ''-e'', ''-i'', ''-c''] \<and> p \<noteq> ''command'') args 0)
      else if p = ''timeout'' then
        skip_plan command
          (skip_options (\<lambda>w. w \<in> set [''-s'', ''-k'', ''--signal'', ''--kill-after'']) args 0 + 1)
      else if p \<in> set RUNNERS then
        skip_plan command
          (skip_options (\<lambda>w. w \<in> set [''-n'', ''-P'', ''-I'', ''-L'', ''-d'', ''-u'', ''-g'', ''-s'', ''-c'', ''-e'',
             ''-o'', ''-p'']) args 0)
      else if p \<in> set SHELLS then (pushed_only [command])\<lparr>pl_script := shell_script False args\<rparr>
      else pushed_only [command])"

definition bare :: "simple_command \<Rightarrow> bool" where
  "bare command \<longleftrightarrow> (case sc_argv command of Some w # _ \<Rightarrow> \<not> contains_char w (CHR ''/'') | _ \<Rightarrow> False)"

definition make_plan :: "bool \<Rightarrow> simple_command \<Rightarrow> nat \<Rightarrow> peel_plan" where
  "make_plan keep command depth =
     (case sc_program command of
        None \<Rightarrow> pushed_only [command]
      | Some p \<Rightarrow>
          if depth \<ge> MAX_WRAPPER_DEPTH \<and> is_wrapper p then deep_plan command
          else (case launcher_words p (sc_args command) of
                  Some own \<Rightarrow>
                    if bare command then
                      \<lparr>pl_pushed = (if keep then [command] else []), pl_overflow = False,
                       pl_inner = [command\<lparr>sc_argv := drop (own + 1) (sc_argv command)\<rparr>], pl_script = None\<rparr>
                    else
                      \<lparr>pl_pushed = [command], pl_overflow = False,
                       pl_inner = [inner_command command (drop (own + 1) (sc_argv command))], pl_script = None\<rparr>
                | None \<Rightarrow> wrapper_plan command p))"

lemma plan_inner_wrapper:
  assumes "inner \<in> set (pl_inner (make_plan keep command depth))"
  shows "depth < MAX_WRAPPER_DEPTH"
proof -
  have other: "pl_inner (wrapper_plan command p) = []" if "\<not> is_wrapper p" for p
    using that by (auto simp: wrapper_plan_def Let_def is_wrapper_def SIMPLE_WRAPPERS_def RUNNERS_def SHELLS_def
        pushed_only_def)
  show ?thesis
    using assms other launcher_is_wrapper
    by (auto simp: make_plan_def pushed_only_def deep_plan_def Let_def not_le
        split: option.splits if_splits)
qed

section \<open>The collector\<close>

record collector =
  co_commands :: "simple_command list"
  co_overflow :: bool
  co_nested :: nat

definition stop_collecting :: "bool \<Rightarrow> collector \<Rightarrow> bool" where
  "stop_collecting keep st \<longleftrightarrow> keep \<and> (co_overflow st \<or> length (co_commands st) \<ge> 256)"

definition push_commands :: "simple_command list \<Rightarrow> collector \<Rightarrow> collector" where
  "push_commands cs st = st\<lparr>co_commands := co_commands st @ cs\<rparr>"

definition overflowed :: "collector \<Rightarrow> collector" where
  "overflowed st = st\<lparr>co_overflow := True\<rparr>"

text \<open>The script of a shell goes to a collector of its own, \<open>sub\<close>, as long as the nesting allows.\<close>

definition run_script :: "bool \<Rightarrow> (string \<Rightarrow> collector \<Rightarrow> collector) \<Rightarrow> string option option \<Rightarrow> collector \<Rightarrow> collector" where
  "run_script keep sub script st =
     (case script of
        None \<Rightarrow> st
      | Some None \<Rightarrow> push_commands [unknown_command] st
      | Some (Some w) \<Rightarrow>
          if co_nested st < MAX_NESTED_SHELLS then
            (let st1 = st\<lparr>co_nested := co_nested st + 1\<rparr>; st2 = sub w st1
             in st2\<lparr>co_nested := co_nested st1\<rparr>)
          else if keep then overflowed st else st)"

definition apply_plan ::
  "bool \<Rightarrow> (string \<Rightarrow> collector \<Rightarrow> collector) \<Rightarrow> peel_plan \<Rightarrow> collector \<Rightarrow> collector" where
  "apply_plan keep sub p st =
     (let st1 = push_commands (pl_pushed p) st;
          st2 = (if pl_overflow p then overflowed st1 else st1)
      in run_script keep sub (pl_script p) st2)"

function peel :: "bool \<Rightarrow> (string \<Rightarrow> collector \<Rightarrow> collector) \<Rightarrow> simple_command \<Rightarrow> nat \<Rightarrow> collector \<Rightarrow> collector" where
  "peel keep sub command depth st =
     (if stop_collecting keep st then overflowed st
      else let p = make_plan keep command depth
           in fold (\<lambda>inner. peel keep sub inner (depth + 1)) (pl_inner p) (apply_plan keep sub p st))"
  by pat_completeness auto
termination
  by (relation "measure (\<lambda>(keep, sub, command, depth, st). MAX_WRAPPER_DEPTH - depth)")
     (auto dest: plan_inner_wrapper)

declare peel.simps [simp del]

text \<open>The children of a command node: the words, assignments and redirections of the command, and the
  nodes whose substitutions are collected after it.\<close>

record command_parts =
  cp_command :: simple_command
  cp_deferred :: "node list"

definition opt_list :: "'a option \<Rightarrow> 'a list" where
  "opt_list x = (case x of None \<Rightarrow> [] | Some y \<Rightarrow> [y])"

definition add_word :: "string option \<Rightarrow> command_parts \<Rightarrow> command_parts" where
  "add_word w p = p\<lparr>cp_command := (cp_command p)\<lparr>sc_argv := sc_argv (cp_command p) @ [w]\<rparr>\<rparr>"

definition defer_nodes :: "node list \<Rightarrow> command_parts \<Rightarrow> command_parts" where
  "defer_nodes ns p = p\<lparr>cp_deferred := cp_deferred p @ ns\<rparr>"

definition add_child :: "string \<Rightarrow> bool \<Rightarrow> node \<Rightarrow> command_parts \<Rightarrow> command_parts" where
  "add_child source home child p =
     (if kind child = ''command_name'' then
        defer_nodes (opt_list (first_named child))
          (add_word (Option.bind (first_named child) (word source home)) p)
      else if kind child = ''variable_assignment'' then
        defer_nodes [child]
          (p\<lparr>cp_command := (cp_command p)
               \<lparr>sc_assignments := sc_assignments (cp_command p) @ opt_list (node_text source child)\<rparr>\<rparr>)
      else if kind child = ''file_redirect'' then
        (let (target, raw) = redirect_target source home child
         in defer_nodes [child]
              (p\<lparr>cp_command := (cp_command p)
                   \<lparr>sc_redirects := sc_redirects (cp_command p) @ [target],
                    sc_raw_redirects := sc_raw_redirects (cp_command p) @ opt_list raw\<rparr>\<rparr>))
      else if kind child = ''heredoc_redirect'' \<or> kind child = ''herestring_redirect'' then defer_nodes [child] p
      else if is_named child then defer_nodes [child] (add_word (word source home child) p)
      else p)"

definition empty_command :: "bool \<Rightarrow> simple_command" where
  "empty_command nested = \<lparr>sc_argv = [], sc_redirects = [], sc_raw_redirects = [], sc_assignments = [],
     sc_nested = nested\<rparr>"

definition simple_parts :: "string \<Rightarrow> bool \<Rightarrow> node \<Rightarrow> bool \<Rightarrow> command_parts" where
  "simple_parts source home n nested =
     fold (add_child source home) (children n) \<lparr>cp_command = empty_command nested, cp_deferred = []\<rparr>"

lemma size_first_named: "first_named n = Some c \<Longrightarrow> size c < size n"
  using size_named [of c n] by (auto simp: first_named_def split: list.splits)

lemma deferred_child: "m \<in> set (cp_deferred (add_child source home child p)) \<Longrightarrow>
    m \<in> set (cp_deferred p) \<or> size m \<le> size child"
  using size_first_named [of child m]
  by (auto simp: add_child_def defer_nodes_def add_word_def opt_list_def Let_def split: if_splits prod.splits option.splits)

lemma deferred_size: "m \<in> set (cp_deferred (simple_parts source home n nested)) \<Longrightarrow> size m < size n"
proof -
  have "m \<in> set (cp_deferred (fold (add_child source home) cs p)) \<Longrightarrow>
      m \<in> set (cp_deferred p) \<or> (\<exists>c \<in> set cs. size m \<le> size c)" for cs p
    using deferred_child by (induction cs arbitrary: p) fastforce+
  then show "m \<in> set (cp_deferred (simple_parts source home n nested)) \<Longrightarrow> size m < size n"
    using size_child [of _ n] by (fastforce simp: simple_parts_def)
qed

text \<open>What the children of a redirected statement say: the targets, their texts, the body and whether
  only standard streams are redirected.\<close>

record redirections =
  rd_targets :: "string option list"
  rd_raw :: "string list"
  rd_body :: "node option"
  rd_stream_only :: bool

definition add_redirection :: "string \<Rightarrow> bool \<Rightarrow> node \<Rightarrow> redirections \<Rightarrow> redirections" where
  "add_redirection source home child r =
     (if kind child = ''file_redirect'' then
        (let (target, raw) = redirect_target source home child
         in r\<lparr>rd_stream_only := rd_stream_only r \<and> word_is stream_target target,
              rd_targets := rd_targets r @ [target], rd_raw := rd_raw r @ opt_list raw\<rparr>)
      else if kind child = ''heredoc_redirect'' \<or> kind child = ''herestring_redirect'' then
        r\<lparr>rd_stream_only := False\<rparr>
      else if is_named child then r\<lparr>rd_body := Some child\<rparr>
      else r)"

definition redirections_of :: "string \<Rightarrow> bool \<Rightarrow> node \<Rightarrow> redirections" where
  "redirections_of source home n =
     fold (add_redirection source home) (children n)
       \<lparr>rd_targets = [], rd_raw = [], rd_body = None, rd_stream_only = True\<rparr>"

definition redirect_kind :: "node \<Rightarrow> bool" where
  "redirect_kind n \<longleftrightarrow> kind n \<in> set [''file_redirect'', ''heredoc_redirect'', ''herestring_redirect'']"

definition flat_body :: "redirections \<Rightarrow> node \<Rightarrow> bool" where
  "flat_body r body \<longleftrightarrow> kind body = ''command''
     \<or> rd_stream_only r \<and> (kind body = ''list'' \<or> kind body = ''pipeline'')"

definition redirect_from :: "nat \<Rightarrow> redirections \<Rightarrow> collector \<Rightarrow> collector" where
  "redirect_from before r st =
     st\<lparr>co_commands := take before (co_commands st) @
          map (\<lambda>c. c\<lparr>sc_redirects := sc_redirects c @ rd_targets r,
                     sc_raw_redirects := sc_raw_redirects c @ rd_raw r\<rparr>) (drop before (co_commands st))\<rparr>"

lemma body_child: "rd_body (redirections_of source home n) = Some b \<Longrightarrow> b \<in> set (children n)"
proof -
  have "rd_body (fold (add_redirection source home) cs r) = Some b \<Longrightarrow> rd_body r = Some b \<or> b \<in> set cs" for cs r
  proof (induction cs arbitrary: r)
    case (Cons c cs)
    have "rd_body (add_redirection source home c r) = Some b \<Longrightarrow> rd_body r = Some b \<or> b = c"
      by (auto simp: add_redirection_def Let_def split: if_splits prod.splits)
    then show ?case using Cons by fastforce
  qed simp
  then show "rd_body (redirections_of source home n) = Some b \<Longrightarrow> b \<in> set (children n)"
    by (fastforce simp: redirections_of_def)
qed

definition may_substitute :: "string \<Rightarrow> node \<Rightarrow> bool" where
  "may_substitute source n \<longleftrightarrow> contains_any (node_bytes source n) [CHR ''$'', CHR 0x60, CHR ''('']"

definition SUBSTITUTION_ONLY :: "string list" where
  "SUBSTITUTION_ONLY = [''variable_assignment'', ''variable_assignments'', ''declaration_command'', ''unset_command'',
     ''comment'', ''test_command'']"

function (sequential)
  collect :: "bool \<Rightarrow> (string \<Rightarrow> collector \<Rightarrow> collector) \<Rightarrow> string \<Rightarrow> bool \<Rightarrow> node \<Rightarrow> bool \<Rightarrow> collector \<Rightarrow> collector"
  and substitutions :: "bool \<Rightarrow> (string \<Rightarrow> collector \<Rightarrow> collector) \<Rightarrow> string \<Rightarrow> bool \<Rightarrow> node \<Rightarrow> collector \<Rightarrow> collector"
where
  "collect keep sub source home n nested st =
     (if stop_collecting keep st then overflowed st
      else if kind n = ''command'' then
        (let p = simple_parts source home n nested;
             st1 = (if sc_argv (cp_command p) = [] then st else peel keep sub (cp_command p) 0 st)
         in fold (\<lambda>m. substitutions keep sub source home m) (cp_deferred p) st1)
      else if kind n = ''redirected_statement'' then
        (let r = redirections_of source home n;
             st1 = (case rd_body r of
                      None \<Rightarrow> st
                    | Some body \<Rightarrow> collect keep sub source home body (nested \<or> \<not> flat_body r body) st);
             st2 = redirect_from (length (co_commands st)) r st1
         in fold (\<lambda>m. substitutions keep sub source home m) (filter redirect_kind (children n)) st2)
      else if kind n \<in> set [''program'', ''list'', ''pipeline''] then
        fold (\<lambda>c. collect keep sub source home c nested) (named_children n) st
      else if kind n \<in> set SUBSTITUTION_ONLY then substitutions keep sub source home n st
      else fold (\<lambda>c. collect keep sub source home c True) (named_children n) st)"
| "substitutions keep sub source home n st =
     (if \<not> may_substitute source n then st
      else if kind n = ''command_substitution'' \<or> kind n = ''process_substitution'' then
        fold (\<lambda>c. collect keep sub source home c True) (named_children n) st
      else fold (\<lambda>c. substitutions keep sub source home c) (named_children n) st)"
  by pat_completeness auto
termination
  by (relation "measure (\<lambda>x. case x of
         Inl (keep, sub, source, home, n, nested, st) \<Rightarrow> 2 * size n + 1
       | Inr (keep, sub, source, home, n, st) \<Rightarrow> 2 * size n)")
     (fastforce dest: size_child size_named deferred_size body_child)+

declare collect.simps [simp del] substitutions.simps [simp del]

text \<open>
  The collector of a script, with \<open>levels\<close> further levels of shells below it. A shell is only entered
  when fewer than four have been, and each collector starts with the count it was created at, so four
  levels are all there can be.
\<close>

primrec collect_script :: "nat \<Rightarrow> bool \<Rightarrow> bool \<Rightarrow> parser \<Rightarrow> string \<Rightarrow> collector \<Rightarrow> collector" where
  "collect_script 0 keep home parse w st = st"
| "collect_script (Suc levels) keep home parse w st =
     (case parse w of
        None \<Rightarrow> st
      | Some (root, has_error) \<Rightarrow>
          (let st1 = (if has_error \<or> keep \<and> \<not> syntax_resolved w root
                      then push_commands [unknown_command] st else st)
           in collect keep (collect_script levels keep home parse) w home root True st1))"

definition fresh_collector :: collector where
  "fresh_collector = \<lparr>co_commands = [], co_overflow = False, co_nested = 0\<rparr>"

definition collect_root :: "bool \<Rightarrow> bool \<Rightarrow> parser \<Rightarrow> string \<Rightarrow> node \<Rightarrow> collector" where
  "collect_root keep home parse source root =
     collect keep (collect_script MAX_NESTED_SHELLS keep home parse) source home root False fresh_collector"

definition shell_commands :: "parser \<Rightarrow> string \<Rightarrow> simple_command list" where
  "shell_commands parse command =
     (if length command > MAX_CLASSIFIED_BYTES then []
      else case parse command of
             None \<Rightarrow> []
           | Some (root, _) \<Rightarrow> co_commands (collect_root False True parse command root))"

definition policy_commands :: "parser \<Rightarrow> string \<Rightarrow> simple_command list option" where
  "policy_commands parse source =
     (case parse source of
        None \<Rightarrow> None
      | Some (root, _) \<Rightarrow>
          (let st = collect_root True False parse source root
           in if co_overflow st then None else Some (co_commands st)))"

section \<open>Denied prefixes\<close>

definition literal_argv :: "string \<Rightarrow> node \<Rightarrow> string option list" where
  "literal_argv source n =
     List.map_filter (\<lambda>c.
       if kind c = ''command_name'' then Some (Option.bind (first_named c) (word source False))
       else if kind c \<in> set [''variable_assignment'', ''file_redirect'', ''heredoc_redirect'', ''herestring_redirect'']
       then None
       else Some (word source False c)) (named_children n)"

text \<open>The stack of nodes is popped at its end.\<close>

function literal_loop :: "string \<Rightarrow> node list \<Rightarrow> string option list list \<Rightarrow> string option list list" where
  "literal_loop source nodes commands =
     (if nodes = [] then commands
      else let n = last nodes
           in literal_loop source (butlast nodes @ named_children n)
                (if kind n = ''command'' then commands @ [literal_argv source n] else commands))"
  by pat_completeness auto
termination
proof (relation "measure (\<lambda>(source, nodes, commands). size_list size nodes)", goal_cases)
  case (2 source nodes commands n)
  have split: "nodes = butlast nodes @ [n]" using 2 by simp
  have kids: "size_list size (named_children n) < size n"
  proof (cases n)
    case (Node k nm a b cs)
    have "size_list size (filter is_named cs) \<le> size_list size cs" by (induction cs) auto
    then show ?thesis by (simp add: Node named_children_def)
  qed
  have "size_list size nodes = size_list size (butlast nodes) + size_list size [n]"
    by (subst split) simp
  then show ?case using kids by simp
qed simp

declare literal_loop.simps [simp del]

definition literal_policy_argv :: "parser \<Rightarrow> string \<Rightarrow> string option list list" where
  "literal_policy_argv parse source =
     (case parse source of None \<Rightarrow> [] | Some (root, _) \<Rightarrow> literal_loop source [root] [])"

definition same_program :: "string \<Rightarrow> string \<Rightarrow> bool" where
  "same_program actual expected =
     (if contains_any expected [CHR ''/'', backslash] then actual = expected
      else basename actual = basename expected)"

definition prefix_hits :: "parser \<Rightarrow> simple_command list \<Rightarrow> string \<Rightarrow> bool" where
  "prefix_hits parse commands pre =
     (case literal_policy_argv parse pre of
        [av] \<Rightarrow> list_ex (\<lambda>c. argv_has_prefix (sc_argv c) av same_program) commands
      | _ \<Rightarrow> False)"

definition shell_prefix_denied :: "parser \<Rightarrow> string \<Rightarrow> string list \<Rightarrow> bool" where
  "shell_prefix_denied parse command denied_prefixes =
     (if denied_prefixes = [] then False
      else case policy_commands parse command of
             None \<Rightarrow> True
           | Some commands \<Rightarrow> list_ex (prefix_hits parse commands) denied_prefixes)"

end
