(* ===== verification/Command_Policy.thy ===== *)
theory Command_Policy
  imports Shell_Commands "HOL-Library.Sublist"
begin

text \<open>
  What the collector of \<open>Shell_Commands\<close> guarantees: every run keeps the invariants of a collector
  (a locale, interpreted for the bound on the commands, for growth and for the shape of the recorded
  commands), four levels of nested shells are all there are, and a denied command is found behind
  every chain of at most eight wrappers, wherever it stands in the syntax tree.
\<close>

section \<open>Invariants of a collector\<close>

lemma length_suffixes: "length (bounded_suffixes words first) \<le> 16"
  by (simp add: bounded_suffixes_def MAX_SUFFIX_STARTS_def)

lemma plan_pushed_length: "length (pl_pushed (make_plan keep command depth)) \<le> 17"
proof -
  have "length (pl_pushed (deep_plan command)) \<le> 17"
    using length_suffixes [of "sc_argv command" 0] by (simp add: deep_plan_def pushed_only_def Let_def)
  moreover have "length (pl_pushed (env_plan command)) \<le> 17"
    by (simp add: env_plan_def Let_def split: env_words.splits prod.splits)
  ultimately show ?thesis
    by (simp add: make_plan_def wrapper_plan_def Let_def pushed_only_def taskset_plan_def skip_plan_def
        split: option.splits)
qed

lemma plan_script_pushed:
  "pl_script (make_plan keep command depth) \<noteq> None \<Longrightarrow>
     pl_pushed (make_plan keep command depth) = [command] \<and> \<not> pl_overflow (make_plan keep command depth)"
  by (auto simp: make_plan_def wrapper_plan_def Let_def pushed_only_def taskset_plan_def skip_plan_def
      deep_plan_def env_plan_def split: option.splits if_splits env_words.splits prod.splits)

text \<open>
  \<open>I\<close> holds between two steps of a collector, \<open>J\<close> when the script of a shell is entered, and \<open>C\<close> of
  every command; \<open>sub\<close> is the collector of scripts.
\<close>

locale collector_invariant =
  fixes keep :: bool and C :: "simple_command \<Rightarrow> bool" and I J :: "collector \<Rightarrow> bool"
  assumes inv_overflowed: "I st \<Longrightarrow> I (overflowed st)"
    and inv_push: "I st \<Longrightarrow> \<not> stop_collecting keep st \<Longrightarrow> length cs \<le> 17 \<Longrightarrow> list_all C cs \<Longrightarrow> I (push_commands cs st)"
    and entry_push: "I st \<Longrightarrow> \<not> stop_collecting keep st \<Longrightarrow> C c \<Longrightarrow> J (push_commands [c] st)"
    and inv_entry: "J st \<Longrightarrow> I st"
    and entry_unknown: "J st \<Longrightarrow> I (push_commands [unknown_command] st)"
    and entry_nested: "J st \<Longrightarrow> J (st\<lparr>co_nested := co_nested st + 1\<rparr>)"
    and inv_nested: "J st \<Longrightarrow> I st' \<Longrightarrow> I (st'\<lparr>co_nested := co_nested st\<rparr>)"
    and inv_redirect: "I st \<Longrightarrow> I (redirect_from n r st)"
    and plan_pushed: "C c \<Longrightarrow> list_all C (pl_pushed (make_plan keep c depth))"
    and plan_inner: "C c \<Longrightarrow> list_all C (pl_inner (make_plan keep c depth))"
    and parts_command: "sc_argv (cp_command (simple_parts source home node nested)) \<noteq> [] \<Longrightarrow>
      C (cp_command (simple_parts source home node nested))"
begin

lemma inv_apply_plan:
  assumes sub: "\<And>w st. J st \<Longrightarrow> I (sub w st)" and "I st" "\<not> stop_collecting keep st" "C c"
  shows "I (apply_plan keep sub (make_plan keep c depth) st)"
proof -
  let ?p = "make_plan keep c depth"
  have pushed: "I (push_commands (pl_pushed ?p) st)"
    using inv_push [OF assms(2,3) plan_pushed_length plan_pushed [OF assms(4)]] .
  show ?thesis
  proof (cases "pl_script ?p")
    case None
    then show ?thesis using pushed inv_overflowed by (simp add: apply_plan_def run_script_def Let_def)
  next
    case (Some script)
    then have "pl_pushed ?p = [c]" "\<not> pl_overflow ?p" using plan_script_pushed by auto
    moreover have J: "J (push_commands [c] st)" by (rule entry_push [OF assms(2-4)])
    ultimately show ?thesis
      using Some pushed inv_overflowed entry_unknown [OF J] inv_nested [OF entry_nested [OF J] sub [OF entry_nested [OF J]]]
      by (auto simp: apply_plan_def run_script_def Let_def split: option.splits)
  qed
qed

lemma inv_peel:
  assumes sub: "\<And>w st. J st \<Longrightarrow> I (sub w st)"
  shows "I st \<Longrightarrow> C command \<Longrightarrow> I (peel keep sub command depth st)"
proof (induction "MAX_WRAPPER_DEPTH - depth" arbitrary: command depth st rule: less_induct)
  case less
  let ?p = "make_plan keep command depth"
  show ?case
  proof (cases "stop_collecting keep st")
    case True
    then show ?thesis using less.prems inv_overflowed by (simp add: peel.simps)
  next
    case False
    have "I (fold (\<lambda>inner. peel keep sub inner (depth + 1)) (pl_inner ?p) (apply_plan keep sub ?p st))"
    proof (rule fold_invariant [where Q = "\<lambda>c. c \<in> set (pl_inner ?p)"])
      show "I (apply_plan keep sub ?p st)" by (rule inv_apply_plan [OF sub less.prems(1) False less.prems(2)])
      fix c st' assume c: "c \<in> set (pl_inner ?p)" and st': "I st'"
      have "C c" using plan_inner [OF less.prems(2), of depth] c by (simp add: list_all_iff)
      then show "I (peel keep sub c (depth + 1) st')"
        using less.hyps [of "depth + 1"] plan_inner_wrapper [OF c] st' by simp
    qed simp
    then show ?thesis using False by (simp add: peel.simps [of keep sub command] Let_def)
  qed
qed

lemma inv_collect:
  assumes sub: "\<And>w st. J st \<Longrightarrow> I (sub w st)"
  shows "(I st \<longrightarrow> I (collect keep sub source home n nested st)) \<and> (I st \<longrightarrow> I (substitutions keep sub source home n st))"
proof (induction "size n" arbitrary: n nested st rule: less_induct)
  case less
  have coll: "I (collect keep sub source home c nested' st')" if "size c < size n" "I st'" for c nested' st'
    using less that by blast
  have subst: "I (substitutions keep sub source home c st')" if "size c < size n" "I st'" for c st'
    using less that by blast
  have colls: "I (fold (\<lambda>c. collect keep sub source home c nested') (named_children n) st')" if "I st'" for nested' st'
    by (rule fold_invariant [where Q = "\<lambda>c. size c < size n"]) (use that coll size_named in auto)
  have substs: "I (fold (\<lambda>m. substitutions keep sub source home m) ms st')"
    if "I st'" "\<And>m. m \<in> set ms \<Longrightarrow> size m < size n" for ms st'
    by (rule fold_invariant [where Q = "\<lambda>c. size c < size n"]) (use that subst in auto)
  have sub_n: "I (substitutions keep sub source home n st')" if "I st'" for st'
    using that colls substs [OF _ size_named] by (auto simp: substitutions.simps [of keep sub source home n])
  have "I (collect keep sub source home n nested st)" if st: "I st"
  proof -
    let ?p = "simple_parts source home n nested" and ?r = "redirections_of source home n"
    have cmd: "I (if sc_argv (cp_command ?p) = [] then st else peel keep sub (cp_command ?p) 0 st)"
      using inv_peel [OF sub st parts_command] st by simp
    have body: "I (case rd_body ?r of None \<Rightarrow> st
        | Some b \<Rightarrow> collect keep sub source home b (nested \<or> \<not> flat_body ?r b) st)"
      using st coll size_child body_child by (auto split: option.splits)
    show ?thesis
      using st sub_n [OF st] colls [OF st] inv_overflowed [OF st] substs [OF cmd deferred_size]
        substs [OF inv_redirect [OF body], of "filter redirect_kind (children n)"] size_child
      by (auto simp: collect.simps [of keep sub source home n] Let_def)
  qed
  then show ?case using sub_n by blast
qed

lemma inv_script: "J st \<Longrightarrow> I (collect_script levels keep home parse w st)"
proof (induction levels arbitrary: w st)
  case 0
  then show ?case using inv_entry by simp
next
  case (Suc levels)
  then show ?case
    using inv_collect [of "collect_script levels keep home parse"] entry_unknown inv_entry
    by (auto simp: Let_def split: option.splits)
qed

lemma inv_collect_levels:
  "I st \<Longrightarrow> I (collect keep (collect_script levels keep home parse) source home root nested st)"
  using inv_collect [of "collect_script levels keep home parse"] inv_script by blast

end

subsection \<open>At most 272 commands, or an overflow\<close>

definition few_commands :: "nat \<Rightarrow> collector \<Rightarrow> bool" where
  "few_commands b st \<longleftrightarrow> co_overflow st \<or> length (co_commands st) \<le> b"

lemma length_redirect: "length (co_commands (redirect_from n r st)) = length (co_commands st)"
  by (simp add: redirect_from_def)

lemmas collector_ops = overflowed_def push_commands_def redirect_from_def stop_collecting_def

interpretation few: collector_invariant True "\<lambda>_. True" "few_commands 272" "few_commands 271"
  by unfold_locales (auto simp: few_commands_def collector_ops list_all_iff)

subsection \<open>Commands are only added\<close>

definition grows :: "collector \<Rightarrow> collector \<Rightarrow> bool" where
  "grows st0 st \<longleftrightarrow> prefix (map sc_argv (co_commands st0)) (map sc_argv (co_commands st))
     \<and> (co_overflow st0 \<longrightarrow> co_overflow st) \<and> co_nested st0 \<le> co_nested st"

lemma collector_grows_refl: "grows st st"
  by (simp add: grows_def)

lemma collector_grows_trans: "grows a b \<Longrightarrow> grows b c \<Longrightarrow> grows a c"
  by (auto simp: grows_def)

lemma redirect_argv: "map sc_argv (co_commands (redirect_from n r st)) = map sc_argv (co_commands st)"
proof -
  have "map sc_argv (co_commands (redirect_from n r st)) =
      map sc_argv (take n (co_commands st)) @ map sc_argv (drop n (co_commands st))"
    by (simp add: redirect_from_def comp_def)
  then show ?thesis by (metis append_take_drop_id map_append)
qed

lemma grows_redirect: "grows st0 st \<Longrightarrow> grows st0 (redirect_from n r st)"
  using redirect_argv [of n r st] by (simp add: grows_def) (simp add: redirect_from_def)

interpretation growth: collector_invariant keep "\<lambda>_. True" "grows st0" "grows st0" for keep st0
  by unfold_locales (auto simp: grows_redirect, auto simp: grows_def overflowed_def push_commands_def list_all_iff)

subsection \<open>Recorded commands have a first word\<close>

definition has_words :: "simple_command \<Rightarrow> bool" where
  "has_words c \<longleftrightarrow> sc_argv c \<noteq> []"

lemma suffixes_nonempty: "av \<in> set (bounded_suffixes words first) \<Longrightarrow> av \<noteq> []"
  by (auto simp: bounded_suffixes_def dest!: in_set_takeD)

lemma inner_from_words: "list_all has_words (inner_from command skip)"
  by (auto simp: inner_from_def inner_command_def has_words_def)

lemma suffix_words: "list_all has_words (map (inner_command command) (bounded_suffixes words 0))"
  using suffixes_nonempty by (auto simp: list_all_iff inner_command_def has_words_def)

lemma deep_words: "list_all has_words (pl_pushed (deep_plan command))"
  using suffixes_nonempty
  by (auto simp: deep_plan_def pushed_only_def Let_def has_words_def list_all_iff split: list.splits option.splits)

lemma launcher_inner_words:
  "launcher_words p (sc_args command) = Some own \<Longrightarrow> drop (own + 1) (sc_argv command) \<noteq> []"
  using launcher_words_bound [of p "sc_args command" own] by (simp add: sc_args_def)

lemma has_words_assign: "has_words (c\<lparr>sc_assignments := x\<rparr>) = has_words c"
  by (simp add: has_words_def)

lemma plan_inner_words: "list_all has_words (pl_inner (make_plan keep c depth))"
proof -
  have env: "list_all has_words (pl_inner (env_plan c))"
    using inner_from_words suffix_words [of c]
    by (auto simp: env_plan_def Let_def list_all_iff has_words_assign split: env_words.splits prod.splits)
  show ?thesis
    using env inner_from_words suffix_words launcher_inner_words [of _ c]
    by (auto simp: make_plan_def wrapper_plan_def Let_def pushed_only_def taskset_plan_def skip_plan_def
        deep_plan_def has_words_def inner_command_def split: option.splits)
qed

lemma plan_pushed_words: "has_words c \<Longrightarrow> list_all has_words (pl_pushed (make_plan keep c depth))"
  using deep_words [of c]
  by (auto simp: make_plan_def wrapper_plan_def Let_def pushed_only_def taskset_plan_def skip_plan_def
      env_plan_def unknown_command_def has_words_def split: option.splits env_words.splits prod.splits)

definition all_words :: "collector \<Rightarrow> bool" where
  "all_words st \<longleftrightarrow> list_all has_words (co_commands st)"

lemma all_words_redirect: "all_words st \<Longrightarrow> all_words (redirect_from n r st)"
proof -
  have "list_all (\<lambda>a. a \<noteq> []) (map sc_argv cs) = list_all has_words cs" for cs
    by (induction cs) (auto simp: has_words_def)
  then show "all_words st \<Longrightarrow> all_words (redirect_from n r st)"
    using redirect_argv [of n r st] by (metis all_words_def)
qed

interpretation shape: collector_invariant keep has_words all_words all_words for keep
  by unfold_locales
    (simp_all add: all_words_redirect plan_inner_words plan_pushed_words,
      simp_all add: all_words_def overflowed_def push_commands_def unknown_command_def has_words_def)

section \<open>Four levels of nested shells are all there are\<close>

lemma fold_eq_inv:
  assumes "\<And>x st. x \<in> set xs \<Longrightarrow> I st \<Longrightarrow> f x st = g x st"
    and "\<And>x st. x \<in> set xs \<Longrightarrow> I st \<Longrightarrow> I (g x st)" and "I st"
  shows "fold f xs st = fold g xs st"
  using assms by (induction xs arbitrary: st) auto

text \<open>Two collectors of scripts that agree once at least \<open>k\<close> shells are entered.\<close>

definition agree_from :: "nat \<Rightarrow> (string \<Rightarrow> collector \<Rightarrow> collector) \<Rightarrow> (string \<Rightarrow> collector \<Rightarrow> collector) \<Rightarrow> bool" where
  "agree_from k sub1 sub2 \<longleftrightarrow>
     (\<forall>w st. k < co_nested st \<longrightarrow> co_nested st \<le> MAX_NESTED_SHELLS \<longrightarrow> sub1 w st = sub2 w st)"

definition keeps_nested :: "(string \<Rightarrow> collector \<Rightarrow> collector) \<Rightarrow> bool" where
  "keeps_nested sub \<longleftrightarrow> (\<forall>st0 w st. grows st0 st \<longrightarrow> grows st0 (sub w st))"

lemma script_keeps_nested: "keeps_nested (collect_script levels keep home parse)"
  using growth.inv_script by (auto simp: keeps_nested_def)

lemma apply_plan_agree:
  "agree_from k sub1 sub2 \<Longrightarrow> k \<le> co_nested st \<Longrightarrow> apply_plan keep sub1 p st = apply_plan keep sub2 p st"
  by (auto simp: apply_plan_def run_script_def agree_from_def push_commands_def overflowed_def Let_def
      split: option.splits)

lemma peel_grows: "keeps_nested sub \<Longrightarrow> grows st (peel keep sub c depth st)"
  by (rule growth.inv_peel) (simp_all add: keeps_nested_def collector_grows_refl)

lemma collect_grows:
  assumes "keeps_nested sub"
  shows "grows st (collect keep sub source home n nested st)"
    and "grows st (substitutions keep sub source home n st)"
  using growth.inv_collect [of st sub, where st = st] assms collector_grows_refl by (simp_all add: keeps_nested_def)

lemma grows_nested: "grows st0 st \<Longrightarrow> k \<le> co_nested st0 \<Longrightarrow> k \<le> co_nested st"
  by (simp add: grows_def)

lemmas peel_nested = peel_grows [THEN grows_nested]
lemmas collect_nested = collect_grows [THEN grows_nested]

lemma apply_plan_nested:
  assumes "keeps_nested sub" and "k \<le> co_nested st"
  shows "k \<le> co_nested (apply_plan keep sub p st)"
  using assms by (auto simp: apply_plan_def run_script_def push_commands_def overflowed_def Let_def split: option.splits)

lemma peel_agree:
  assumes "agree_from k sub1 sub2" and "keeps_nested sub2"
  shows "k \<le> co_nested st \<Longrightarrow> peel keep sub1 command depth st = peel keep sub2 command depth st"
proof (induction "MAX_WRAPPER_DEPTH - depth" arbitrary: command depth st rule: less_induct)
  case less
  let ?p = "make_plan keep command depth"
  have step: "peel keep sub1 c (depth + 1) st' = peel keep sub2 c (depth + 1) st'"
    if c: "c \<in> set (pl_inner ?p)" and "k \<le> co_nested st'" for c st'
    by (rule less.hyps) (use plan_inner_wrapper [OF c] that(2) in simp_all)
  have "fold (\<lambda>inner. peel keep sub1 inner (depth + 1)) (pl_inner ?p) (apply_plan keep sub2 ?p st) =
      fold (\<lambda>inner. peel keep sub2 inner (depth + 1)) (pl_inner ?p) (apply_plan keep sub2 ?p st)"
    by (rule fold_eq_inv [where I = "\<lambda>st. k \<le> co_nested st", OF step peel_nested [OF assms(2)]
          apply_plan_nested [OF assms(2) less.prems]])
  then show ?case
    by (simp add: peel.simps [of keep sub1 command] peel.simps [of keep sub2 command] Let_def
        apply_plan_agree [OF assms(1) less.prems])
qed

lemma collect_agree:
  assumes agree: "agree_from k sub1 sub2" and keeps: "keeps_nested sub2"
  shows "k \<le> co_nested st \<longrightarrow> collect keep sub1 source home n nested st = collect keep sub2 source home n nested st
    \<and> substitutions keep sub1 source home n st = substitutions keep sub2 source home n st"
proof (induction "size n" arbitrary: n nested st rule: less_induct)
  case less
  note nest = collect_nested [OF keeps]
  have colls: "fold (\<lambda>c. collect keep sub1 source home c nested') (named_children n) st' =
      fold (\<lambda>c. collect keep sub2 source home c nested') (named_children n) st'" if "k \<le> co_nested st'" for nested' st'
    by (rule fold_eq_inv [where I = "\<lambda>st. k \<le> co_nested st"]) (use less that nest size_named in blast)+
  have substs: "fold (\<lambda>m. substitutions keep sub1 source home m) ms st' =
      fold (\<lambda>m. substitutions keep sub2 source home m) ms st'"
    if "k \<le> co_nested st'" "\<And>m. m \<in> set ms \<Longrightarrow> size m < size n" for ms st'
    by (rule fold_eq_inv [where I = "\<lambda>st. k \<le> co_nested st"]) (use less that nest in blast)+
  have sub_n: "substitutions keep sub1 source home n st' = substitutions keep sub2 source home n st'"
    if "k \<le> co_nested st'" for st'
    using colls [OF that] substs [OF that size_named]
    by (simp add: substitutions.simps [of keep sub1 source home n] substitutions.simps [of keep sub2 source home n])
  have "collect keep sub1 source home n nested st = collect keep sub2 source home n nested st"
    if st: "k \<le> co_nested st"
  proof -
    let ?p = "simple_parts source home n nested" and ?r = "redirections_of source home n"
    let ?cmd = "if sc_argv (cp_command ?p) = [] then st else peel keep sub2 (cp_command ?p) 0 st"
    let ?body = "\<lambda>sub. case rd_body ?r of None \<Rightarrow> st
        | Some b \<Rightarrow> collect keep sub source home b (nested \<or> \<not> flat_body ?r b) st"
    have cmd: "k \<le> co_nested ?cmd" using st peel_nested [OF keeps] by simp
    have body: "?body sub1 = ?body sub2"
      using less st size_child body_child by (auto split: option.splits)
    have "k \<le> co_nested (?body sub2)" using st nest by (auto split: option.splits)
    then have red: "k \<le> co_nested (redirect_from m ?r (?body sub2))" for m by (simp add: redirect_from_def)
    have deferred: "fold (\<lambda>m. substitutions keep sub1 source home m) (cp_deferred ?p) ?cmd =
        fold (\<lambda>m. substitutions keep sub2 source home m) (cp_deferred ?p) ?cmd"
      by (rule substs [OF cmd]) (rule deferred_size)
    have redirected: "fold (\<lambda>m. substitutions keep sub1 source home m) (filter redirect_kind (children n))
          (redirect_from i ?r (?body sub2)) =
        fold (\<lambda>m. substitutions keep sub2 source home m) (filter redirect_kind (children n))
          (redirect_from i ?r (?body sub2))" for i
      by (rule substs [OF red]) (simp add: size_child)
    show ?thesis
      using sub_n [OF st] colls [OF st] deferred redirected peel_agree [OF agree keeps st]
      by (cases "sc_argv (cp_command ?p) = []")
        (simp_all add: collect.simps [of keep sub1 source home n] collect.simps [of keep sub2 source home n] Let_def body)
  qed
  then show ?case using sub_n by blast
qed

lemma script_levels:
  "1 \<le> k \<Longrightarrow> MAX_NESTED_SHELLS < levels + k \<Longrightarrow>
     agree_from (k - 1) (collect_script (levels + extra) keep home parse) (collect_script levels keep home parse)"
proof (induction levels arbitrary: k)
  case 0
  then show ?case by (auto simp: agree_from_def)
next
  case (Suc levels)
  show ?case
    unfolding agree_from_def
  proof (intro allI impI)
    fix w and st :: collector assume st: "k - 1 < co_nested st" "co_nested st \<le> MAX_NESTED_SHELLS"
    have agree: "agree_from k (collect_script (levels + extra) keep home parse) (collect_script levels keep home parse)"
      using Suc.IH [of "k + 1"] Suc.prems by simp
    have k: "k \<le> co_nested st" using st(1) Suc.prems(1) by simp
    have "k \<le> co_nested (push_commands cs st)" for cs using k by (simp add: push_commands_def)
    then show "collect_script (Suc levels + extra) keep home parse w st = collect_script (Suc levels) keep home parse w st"
      using collect_agree [OF agree script_keeps_nested] k by (auto simp: Let_def split: option.splits)
  qed
qed

text \<open>C31 (termination). However deep shells are nested in the scripts of \<open>sh -c\<close>, a collector that
  allows more levels than four gives the same result: the nesting limit, not the bound of the model,
  ends the recursion.\<close>

theorem nested_shells_bounded:
  "collect keep (collect_script (MAX_NESTED_SHELLS + extra) keep home parse) source home root False fresh_collector
   = collect_root keep home parse source root"
proof -
  have "agree_from 0 (collect_script (MAX_NESTED_SHELLS + extra) keep home parse)
      (collect_script MAX_NESTED_SHELLS keep home parse)"
    using script_levels [of 1 MAX_NESTED_SHELLS] by simp
  then show ?thesis
    using collect_agree [OF _ script_keeps_nested] by (simp add: collect_root_def)
qed

text \<open>The commands a policy is checked against are at most 272 and each has a first word;
  a command line with more is not resolved at all.\<close>

lemma policy_commands_wellformed:
  assumes "policy_commands parse source = Some cs"
  shows "length cs \<le> 272 \<and> list_all has_words cs"
proof -
  obtain root e where "parse source = Some (root, e)"
    and cs: "cs = co_commands (collect_root True False parse source root)"
      "\<not> co_overflow (collect_root True False parse source root)"
    using assms by (auto simp: policy_commands_def Let_def split: option.splits if_splits)
  have "few_commands 272 (collect_root True False parse source root)"
    unfolding collect_root_def by (rule few.inv_collect_levels) (simp add: few_commands_def fresh_collector_def)
  moreover have "all_words (collect_root True False parse source root)"
    unfolding collect_root_def by (rule shape.inv_collect_levels) (simp add: all_words_def fresh_collector_def)
  ultimately show ?thesis using cs by (simp add: few_commands_def all_words_def)
qed

section \<open>A parser for two command lines\<close>

text \<open>The trees of two command lines, for the witnesses.\<close>

definition leaf :: "string \<Rightarrow> nat \<Rightarrow> nat \<Rightarrow> node" where
  "leaf k a b = Node k True a b []"

definition timeout_command :: node where
  "timeout_command = Node ''command'' True 0 23
     [Node ''command_name'' True 0 7 [leaf ''word'' 0 7], leaf ''number'' 8 9, leaf ''word'' 10 15, leaf ''word'' 16 23]"

definition publish_command :: node where
  "publish_command = Node ''command'' True 0 13
     [Node ''command_name'' True 0 5 [leaf ''word'' 0 5], leaf ''word'' 6 13]"

definition example_parse :: parser where
  "example_parse s =
     (if s = ''timeout 9 cargo publish'' then Some (Node ''program'' True 0 23 [timeout_command], False)
      else if s = ''cargo publish'' then Some (Node ''program'' True 0 13 [publish_command], False)
      else None)"

lemma policy_commands_wellformed_witness:
  "\<exists>cs. policy_commands example_parse ''timeout 9 cargo publish'' = Some cs
     \<and> length cs \<le> 272 \<and> list_all has_words cs"
proof -
  have "policy_commands example_parse ''timeout 9 cargo publish'' \<noteq> None" by code_simp
  then show ?thesis using policy_commands_wellformed by blast
qed

section \<open>Wrappers do not hide a command\<close>

text \<open>
  What a wrapper runs, by its manual: \<open>wraps outer inner\<close> when the command \<open>outer\<close> runs \<open>inner\<close>.
\<close>

definition option_word :: "string \<Rightarrow> bool" where
  "option_word x \<longleftrightarrow> starts_with x ''-''"

inductive wraps :: "string list \<Rightarrow> string list \<Rightarrow> bool" where
  wraps_simple: "basename p \<in> set SIMPLE_WRAPPERS \<Longrightarrow> \<not> option_word x \<Longrightarrow> wraps (p # x # xs) (x # xs)"
| wraps_runner: "basename p \<in> set RUNNERS \<Longrightarrow> \<not> option_word x \<Longrightarrow> wraps (p # x # xs) (x # xs)"
| wraps_timeout: "basename p = ''timeout'' \<Longrightarrow> \<not> option_word d \<Longrightarrow> wraps (p # d # x # xs) (x # xs)"
| wraps_env: "basename p = ''env'' \<Longrightarrow> \<forall>a \<in> set as. \<not> option_word a \<and> contains_char a (CHR ''='') \<Longrightarrow>
    \<not> option_word x \<Longrightarrow> \<not> contains_char x (CHR ''='') \<Longrightarrow> wraps (p # as @ x # xs) (x # xs)"

text \<open>The commands that \<open>peel\<close> records as they stand when it reaches them at a depth.\<close>

definition recorded :: "bool \<Rightarrow> nat \<Rightarrow> string list \<Rightarrow> bool" where
  "recorded keep depth av \<longleftrightarrow> av \<noteq> [] \<and>
     (\<not> is_wrapper (basename (hd av)) \<or>
      depth < MAX_WRAPPER_DEPTH \<and> (keep \<or> launcher_options (basename (hd av)) = None))"

lemma sc_program_words: "sc_argv c = map Some (p # xs) \<Longrightarrow> sc_program c = Some (basename p)"
  by (simp add: sc_program_def)

lemma sc_args_words: "sc_argv c = map Some (p # xs) \<Longrightarrow> sc_args c = map Some xs"
  by (simp add: sc_args_def)

lemma recorded_pushed:
  assumes "recorded keep depth av" and "sc_argv c = map Some av"
  shows "c \<in> set (pl_pushed (make_plan keep c depth))"
proof -
  obtain p xs where av: "av = p # xs" using assms(1) by (cases av) (auto simp: recorded_def)
  have prog: "sc_program c = Some (basename p)" using assms(2) av sc_program_words by blast
  have none: "launcher_words (basename p) args = None" if "launcher_options (basename p) = None" for args
    using that by (simp add: launcher_words_def)
  have unwrapped: "launcher_words (basename p) args = None" if "\<not> is_wrapper (basename p)" for args
    using that launcher_is_wrapper by (cases "launcher_words (basename p) args") auto
  have plan: "c \<in> set (pl_pushed (wrapper_plan c q))" for q
    by (auto simp: wrapper_plan_def Let_def pushed_only_def taskset_plan_def skip_plan_def env_plan_def
        split: env_words.splits prod.splits)
  show ?thesis
    using assms(1) none unwrapped plan
    by (auto simp: make_plan_def prog recorded_def av not_le split: option.splits)
qed

lemma skip_options_none:
  "\<not> option_word x \<Longrightarrow> skip_options valued (Some x # xs) 0 = 0"
  by (simp add: skip_options.simps literal_at_def option_word_def)

lemma launcher_words_plain:
  assumes "launcher_words p (map Some (x # xs)) = Some own" and "\<not> option_word x" and "p \<noteq> ''timeout''"
  shows "own = 0"
  using assms by (auto simp: launcher_words_def option_word_def split: option.splits if_splits prod.splits)

lemma launcher_words_timeout:
  assumes "launcher_words ''timeout'' (map Some (d # x # xs)) = Some own" and "\<not> option_word d"
  shows "own = 1"
  using assms by (auto simp: launcher_words_def option_word_def split: option.splits if_splits prod.splits)

lemma not_env_option:
  assumes "\<not> option_word a"
  shows "a \<noteq> ''-S''" "a \<noteq> ''--split-string''" "strip_prefix a ''--split-string='' = None"
    "strip_prefix a ''-S'' = None" "a \<noteq> ''-i''" "a \<noteq> ''--ignore-environment''" "a \<noteq> ''-u''" "a \<noteq> ''--unset''"
  using assms by (cases a; auto simp: option_word_def strip_prefix_def starts_with_def)+

lemma wraps_env_loop:
  assumes "\<forall>a \<in> set as. \<not> option_word a \<and> contains_char a (CHR ''='')"
    and "\<not> option_word x" "\<not> contains_char x (CHR ''='')"
  shows "env_loop (pre @ map Some (as @ x # xs)) (length pre) = Plain (length pre + length as)"
  using assms
proof (induction as arbitrary: pre)
  case Nil
  show ?case using Nil.prems(2,3) not_env_option [OF Nil.prems(2)]
    by (simp add: env_loop.simps literal_at_def nth_append option_word_def)
next
  case (Cons a as)
  have a: "\<not> option_word a" "contains_char a (CHR ''='')" using Cons.prems(1) by simp_all
  have "env_loop (pre @ map Some ((a # as) @ x # xs)) (length pre) =
      env_loop ((pre @ [Some a]) @ map Some (as @ x # xs)) (length (pre @ [Some a]))"
    using not_env_option [OF a(1)] a
    by (simp add: env_loop.simps [of _ "length pre"] literal_at_def nth_append option_word_def)
  then show ?case using Cons.IH [of "pre @ [Some a]"] Cons.prems by simp
qed

lemma wraps_inner:
  assumes "wraps outer inner" and "sc_argv c = map Some outer" and "depth < MAX_WRAPPER_DEPTH"
  shows "\<exists>c' \<in> set (pl_inner (make_plan keep c depth)). sc_argv c' = map Some inner"
  using assms
proof (cases rule: wraps.cases)
  case (wraps_simple p x xs)
  have prog: "sc_program c = Some (basename p)" and args: "sc_args c = map Some (x # xs)"
    using assms(2) wraps_simple sc_program_words sc_args_words by blast+
  have "basename p \<noteq> ''timeout''" "basename p \<noteq> ''env''" "basename p \<noteq> ''taskset''" "basename p \<noteq> ''chrt''"
    using wraps_simple by (auto simp: SIMPLE_WRAPPERS_def)
  then show ?thesis
    using wraps_simple assms(2,3) launcher_words_plain [of "basename p" x xs] skip_options_none
    by (auto simp: make_plan_def prog args wrapper_plan_def Let_def skip_plan_def inner_from_def
        inner_command_def split: option.splits)
next
  case (wraps_runner p x xs)
  have prog: "sc_program c = Some (basename p)" and args: "sc_args c = map Some (x # xs)"
    using assms(2) wraps_runner sc_program_words sc_args_words by blast+
  have "basename p \<noteq> ''timeout''" "basename p \<noteq> ''env''" "basename p \<noteq> ''taskset''" "basename p \<noteq> ''chrt''"
    "basename p \<notin> set SIMPLE_WRAPPERS" "launcher_options (basename p) = None"
    using wraps_runner by (auto simp: SIMPLE_WRAPPERS_def RUNNERS_def launcher_options_def)
  then show ?thesis
    using wraps_runner assms(2,3) skip_options_none
    by (simp add: make_plan_def prog args wrapper_plan_def Let_def skip_plan_def inner_from_def
        inner_command_def launcher_words_def)
next
  case (wraps_timeout p d x xs)
  have prog: "sc_program c = Some (basename p)" and args: "sc_args c = map Some (d # x # xs)"
    using assms(2) wraps_timeout sc_program_words sc_args_words by blast+
  show ?thesis
    using wraps_timeout assms(2,3) launcher_words_timeout [of d x xs] skip_options_none
    by (auto simp: make_plan_def prog args wrapper_plan_def Let_def skip_plan_def inner_from_def
        inner_command_def SIMPLE_WRAPPERS_def split: option.splits)
next
  case (wraps_env p as x xs)
  have prog: "sc_program c = Some ''env''" and args: "sc_args c = map Some (as @ x # xs)"
    using assms(2) wraps_env sc_program_words [of c p "as @ x # xs"] sc_args_words [of c p "as @ x # xs"] by auto
  have "env_loop (map Some (as @ x # xs)) 0 = Plain (length as)"
    using wraps_env_loop [of as x "[]" xs] wraps_env by simp
  then show ?thesis
    using wraps_env assms(3)
    by (simp add: make_plan_def prog args wrapper_plan_def Let_def launcher_words_def launcher_options_def
        env_plan_def inner_from_def inner_command_def)
qed

text \<open>A command is found: recorded, or the collector gave up (and the caller denies).\<close>

definition found :: "bool \<Rightarrow> string list \<Rightarrow> collector \<Rightarrow> bool" where
  "found keep av st \<longleftrightarrow> keep \<and> co_overflow st \<or> map Some av \<in> sc_argv ` set (co_commands st)"

lemma found_grows: "found keep av st \<Longrightarrow> grows st st' \<Longrightarrow> found keep av st'"
proof -
  assume f: "found keep av st" and g: "grows st st'"
  have "set (map sc_argv (co_commands st)) \<subseteq> set (map sc_argv (co_commands st'))"
    using g set_mono_prefix by (fastforce simp: grows_def)
  then show ?thesis using f g by (auto simp: found_def grows_def)
qed

lemma fold_reaches:
  assumes "x \<in> set xs" and "\<And>st. P (f x st)" and "\<And>y st. P st \<Longrightarrow> P (f y st)"
  shows "P (fold f xs st)"
proof -
  obtain ys zs where xs: "xs = ys @ x # zs" using assms(1) split_list by metis
  have "P st' \<Longrightarrow> P (fold f zs st')" for st' using assms(3) by (induction zs arbitrary: st') auto
  then show ?thesis using assms(2) by (simp add: xs)
qed

lemma apply_plan_pushed:
  assumes "keeps_nested sub" and "c \<in> set (pl_pushed p)"
  shows "sc_argv c \<in> sc_argv ` set (co_commands (apply_plan keep sub p st))"
proof -
  have script: "grows st' (run_script keep sub script st')" for script st'
  proof (cases script)
    case (Some w)
    have "grows st' (st'\<lparr>co_nested := co_nested st' + 1\<rparr>)" by (simp add: grows_def)
    then have "grows st' (sub v (st'\<lparr>co_nested := co_nested st' + 1\<rparr>))" for v
      using assms(1) unfolding keeps_nested_def by blast
    then show ?thesis using Some
      by (cases w) (auto simp: run_script_def Let_def grows_def push_commands_def overflowed_def)
  qed (simp add: run_script_def collector_grows_refl)
  let ?st1 = "push_commands (pl_pushed p) st"
  let ?st2 = "if pl_overflow p then overflowed ?st1 else ?st1"
  have "sc_argv c \<in> set (map sc_argv (co_commands ?st2))"
    using assms(2) by (auto simp: push_commands_def overflowed_def)
  moreover have "set (map sc_argv (co_commands ?st2)) \<subseteq>
      set (map sc_argv (co_commands (run_script keep sub (pl_script p) ?st2)))"
    using script [of ?st2 "pl_script p"] set_mono_prefix unfolding grows_def by blast
  ultimately show ?thesis by (auto simp: apply_plan_def Let_def)
qed

lemma fold_peel_grows: "keeps_nested sub \<Longrightarrow> grows st (fold (\<lambda>c. peel keep sub c depth) cs st)"
  by (induction cs arbitrary: st) (auto simp: collector_grows_refl intro: collector_grows_trans peel_grows)

lemma peel_finds:
  assumes "keeps_nested sub" and "(wraps ^^ k) outer inner" and "recorded keep (depth + k) inner"
    and "depth + k \<le> MAX_WRAPPER_DEPTH" and "sc_argv c = map Some outer"
  shows "found keep inner (peel keep sub c depth st)"
  using assms(2-)
proof (induction k arbitrary: outer c depth st)
  case 0
  then have c: "recorded keep depth inner" "sc_argv c = map Some inner" by simp_all
  let ?p = "make_plan keep c depth"
  have "found keep inner (apply_plan keep sub ?p st)"
    using apply_plan_pushed [OF assms(1) recorded_pushed [OF c]] c(2) by (simp add: found_def)
  then have "found keep inner (fold (\<lambda>inner. peel keep sub inner (depth + 1)) (pl_inner ?p) (apply_plan keep sub ?p st))"
    using found_grows fold_peel_grows [OF assms(1)] by blast
  then show ?case by (simp add: peel.simps [of keep sub c] Let_def) (simp add: stop_collecting_def found_def overflowed_def)
next
  case (Suc k)
  obtain mid where mid: "wraps outer mid" "(wraps ^^ k) mid inner"
    using Suc.prems(1) relpowp_Suc_D2 by metis
  let ?p = "make_plan keep c depth"
  obtain c' where c': "c' \<in> set (pl_inner ?p)" "sc_argv c' = map Some mid"
    using wraps_inner [OF mid(1) Suc.prems(4)] Suc.prems(3) by (metis add_Suc_right le_add1 less_Suc_eq_le order_less_le_trans)
  have "found keep inner (peel keep sub c' (depth + 1) st')" for st'
    by (rule Suc.IH [OF mid(2)]) (use Suc.prems c' in simp_all)
  then have "found keep inner (fold (\<lambda>inner. peel keep sub inner (depth + 1)) (pl_inner ?p) (apply_plan keep sub ?p st))"
    by (rule fold_reaches [OF c'(1)]) (use found_grows peel_grows [OF assms(1)] in blast)
  then show ?case by (simp add: peel.simps [of keep sub c] Let_def) (simp add: stop_collecting_def found_def overflowed_def)
qed

section \<open>Commands anywhere in the tree\<close>

text \<open>The words of a command node do not depend on where it is nested.\<close>

definition node_argv :: "string \<Rightarrow> bool \<Rightarrow> node \<Rightarrow> string option list" where
  "node_argv source home n = sc_argv (cp_command (simple_parts source home n False))"

lemma add_child_argv:
  "sc_argv (cp_command p) = sc_argv (cp_command q) \<Longrightarrow>
     sc_argv (cp_command (add_child source home c p)) = sc_argv (cp_command (add_child source home c q))"
  by (simp add: add_child_def defer_nodes_def add_word_def Let_def split: prod.splits)

lemma parts_argv: "sc_argv (cp_command (simple_parts source home n nested)) = node_argv source home n"
proof -
  have "sc_argv (cp_command p) = sc_argv (cp_command q) \<Longrightarrow>
      sc_argv (cp_command (fold (add_child source home) cs p)) =
      sc_argv (cp_command (fold (add_child source home) cs q))" for cs p q
  proof (induction cs arbitrary: p q)
    case (Cons c cs)
    show ?case unfolding fold_simps by (rule Cons.IH [OF add_child_argv [OF Cons.prems]])
  qed simp
  then show ?thesis by (simp add: node_argv_def simple_parts_def empty_command_def)
qed

text \<open>The command nodes a walk from a node comes to: through programs, lists, pipelines and every
  compound statement, and through the body of a redirected statement.\<close>

inductive visited :: "string \<Rightarrow> bool \<Rightarrow> node \<Rightarrow> node \<Rightarrow> bool" for source home where
  visited_here: "visited source home n n"
| visited_child: "c \<in> set (named_children n) \<Longrightarrow>
    kind n \<notin> set (''command'' # ''redirected_statement'' # SUBSTITUTION_ONLY) \<Longrightarrow>
    visited source home c m \<Longrightarrow> visited source home n m"
| visited_body: "kind n = ''redirected_statement'' \<Longrightarrow> rd_body (redirections_of source home n) = Some b \<Longrightarrow>
    visited source home b m \<Longrightarrow> visited source home n m"

lemma fold_collect_reaches:
  assumes "keeps_nested sub" "c \<in> set cs"
    and "\<And>st. found keep av (collect keep sub source home c nested st)"
  shows "found keep av (fold (\<lambda>c. collect keep sub source home c nested) cs st)"
  by (rule fold_reaches [OF assms(2)]) (use assms(3) found_grows collect_grows(1) [OF assms(1)] in blast)+

lemma fold_substitutions_found:
  assumes "keeps_nested sub" "found keep av st"
  shows "found keep av (fold (\<lambda>m. substitutions keep sub source home m) ms st)"
  by (rule fold_invariant [where Q = "\<lambda>_. True"]) (use assms found_grows collect_grows(2) [OF assms(1)] in auto)

lemma found_overflowed: "stop_collecting keep st \<Longrightarrow> found keep av (overflowed st)"
  by (simp add: found_def overflowed_def stop_collecting_def)

lemma found_redirect: "found keep av (redirect_from i r st) = found keep av st"
proof -
  have "sc_argv ` set (co_commands (redirect_from i r st)) = sc_argv ` set (co_commands st)"
    using redirect_argv [of i r st] by (metis list.set_map)
  then show ?thesis by (simp add: found_def) (simp add: redirect_from_def)
qed

lemma collect_finds:
  assumes keeps: "keeps_nested sub" and visit: "visited source home n m" and "kind m = ''command''"
    and argv: "node_argv source home m = map Some outer" "outer \<noteq> []"
    and wrap: "(wraps ^^ k) outer inner" "recorded keep k inner" "k \<le> MAX_WRAPPER_DEPTH"
  shows "found keep inner (collect keep sub source home n nested st)"
  using visit assms(3) argv(1)
proof (induction arbitrary: nested st rule: visited.induct)
  case (visited_here n)
  let ?p = "simple_parts source home n nested"
  have "found keep inner (peel keep sub (cp_command ?p) 0 st)"
    by (rule peel_finds [OF keeps wrap(1)])
      (simp_all add: wrap(2,3) parts_argv visited_here.prems(2))
  then have "found keep inner (fold (\<lambda>m. substitutions keep sub source home m) (cp_deferred ?p)
      (peel keep sub (cp_command ?p) 0 st))"
    by (rule fold_substitutions_found [OF keeps])
  then show ?case using visited_here argv(2) found_overflowed parts_argv [of source home n nested]
    by (simp add: collect.simps [of keep sub source home n] Let_def)
next
  case (visited_child c n m)
  have "found keep inner (fold (\<lambda>c. collect keep sub source home c nested') (named_children n) st)" for nested'
    by (rule fold_collect_reaches [OF keeps visited_child.hyps(1)]) (use visited_child in blast)
  then show ?case using visited_child.hyps(2) found_overflowed
    by (simp add: collect.simps [of keep sub source home n] Let_def)
next
  case (visited_body n b m)
  then have "found keep inner (collect keep sub source home b nested' st)" for nested' by blast
  then have "found keep inner (fold (\<lambda>m. substitutions keep sub source home m) (filter redirect_kind (children n))
      (redirect_from i r (collect keep sub source home b nested' st)))" for i r nested'
    by (intro fold_substitutions_found [OF keeps]) (simp add: found_redirect)
  then show ?case using visited_body.hyps(1,2) found_overflowed
    by (simp add: collect.simps [of keep sub source home n] Let_def)
qed



end
