(* ===== verification/Stops.thy ===== *)
theory Stops
  imports Command_Policy
begin

text \<open>
  The fixed stops (\<^verbatim>\<open>crates/qq-core/src/approval/stops.rs\<close>): commands that never run below the mode
  \<open>Full\<close>. Paths are those of Unix; the environment variables are the parameter \<open>env\<close>.
\<close>

section \<open>The stops and their denials\<close>

datatype stop = ForcePush | RemoveRoot | PrivilegeEscalation | DiskWrite | PowerState | CredentialRead

fun stop_name :: "stop \<Rightarrow> string" where
  "stop_name ForcePush = ''force_push''"
| "stop_name RemoveRoot = ''remove_root''"
| "stop_name PrivilegeEscalation = ''privilege_escalation''"
| "stop_name DiskWrite = ''disk_write''"
| "stop_name PowerState = ''power_state''"
| "stop_name CredentialRead = ''credential_read''"

fun stop_reason :: "stop \<Rightarrow> string" where
  "stop_reason ForcePush = ''force-pushing or deleting remote refs is not allowed''"
| "stop_reason RemoveRoot = ''removing, moving or recursively changing '' @ [CHR 0x60] @ ''/'' @ [CHR 0x60] @
     '', the home directory, or a directory directly under either is not allowed''"
| "stop_reason PrivilegeEscalation = ''sudo, doas, su and pkexec are not allowed''"
| "stop_reason DiskWrite = ''formatting or writing to a disk device is not allowed''"
| "stop_reason PowerState = ''shutting down or rebooting the machine is not allowed''"
| "stop_reason CredentialRead = ''the command names a credential file (~/.ssh, ~/.aws, ~/.gnupg, ~/.netrc, gh, docker or kube config, or QQ'' @ [CHR 0x27] @ ''s credential store)''"

fun stop_alternative :: "stop \<Rightarrow> string" where
  "stop_alternative ForcePush = ''push without force, or ask the user to do it''"
| "stop_alternative RemoveRoot = ''act only on paths inside the workspace''"
| "stop_alternative PrivilegeEscalation = ''run without elevated rights, or ask the user to run it''"
| "stop_alternative DiskWrite = ''ask the user to do it''"
| "stop_alternative PowerState = ''ask the user to do it''"
| "stop_alternative CredentialRead = ''work without reading credentials, or ask the user''"

definition stop_result :: "stop \<Rightarrow> string" where
  "stop_result s = ''permission_denied: fixed_stop: '' @ stop_reason s @ ''; '' @ stop_alternative s @
     ''. Do not retry it in another form.''"

section \<open>Paths\<close>

definition path_join :: "string \<Rightarrow> string \<Rightarrow> string" where
  "path_join base rest =
     (if is_absolute rest then rest
      else base @ (if base = [] \<or> last base = CHR ''/'' then [] else ''/'') @ rest)"

definition path_pop :: "component list \<Rightarrow> component list" where
  "path_pop cs = (if cs = [] \<or> cs = [RootDir] then cs else butlast cs)"

definition path_starts_with :: "component list \<Rightarrow> component list \<Rightarrow> bool" where
  "path_starts_with cs base \<longleftrightarrow> take (length base) cs = base"

fun resolve :: "component list \<Rightarrow> component list \<Rightarrow> component list" where
  "resolve out [] = out"
| "resolve out (ParentDir # cs) = resolve (path_pop out) cs"
| "resolve out (CurDir # cs) = resolve out cs"
| "resolve out (RootDir # cs) = resolve [RootDir] cs"
| "resolve out (Normal s # cs) = resolve (out @ [Normal s]) cs"

definition expand :: "string \<Rightarrow> string \<Rightarrow> component list option" where
  "expand w home =
     map_option (\<lambda>p. resolve [] (components p))
       (if w = ''~'' then Some home
        else case strip_prefix w ''~/'' of
               Some rest \<Rightarrow> Some (path_join home rest)
             | None \<Rightarrow> if starts_with w ''/'' then Some w else None)"

definition top_level :: "string \<Rightarrow> string \<Rightarrow> bool" where
  "top_level operand home =
     (case expand operand home of
        None \<Rightarrow> False
      | Some path \<Rightarrow>
          path = [RootDir] \<or> path = components home
          \<or> path \<noteq> [] \<and> path \<noteq> [RootDir] \<and> (butlast path = [RootDir] \<or> butlast path = components home))"

definition CREDENTIALS :: "string list" where
  "CREDENTIALS = [''.ssh'', ''.aws'', ''.gnupg'', ''.netrc'', ''.config/gh'', ''.docker/config.json'', ''.kube'',
     ''.git-credentials'']"

definition QQ_CREDENTIAL_FILES :: "string list" where
  "QQ_CREDENTIAL_FILES = [''auth.ron'', ''credentials.ron'', ''windows-credentials'']"

definition credential_path :: "string \<Rightarrow> string list \<Rightarrow> component list \<Rightarrow> bool" where
  "credential_path home qq path \<longleftrightarrow>
     list_ex (\<lambda>entry. path_starts_with path (components (path_join home entry))) CREDENTIALS
     \<or> list_ex (\<lambda>dir. path = components dir
          \<or> list_ex (\<lambda>file. path_starts_with path (components (path_join dir file))) QQ_CREDENTIAL_FILES) qq"

definition names_credentials :: "string \<Rightarrow> string \<Rightarrow> string list \<Rightarrow> bool" where
  "names_credentials w home qq \<longleftrightarrow>
     list_ex (\<lambda>x. case expand x home of None \<Rightarrow> False | Some path \<Rightarrow> credential_path home qq path)
       (w # (case split_once w (CHR ''='') of Some (_, v) \<Rightarrow> [v] | None \<Rightarrow> []))"

definition home_dir :: "(string \<Rightarrow> string option) \<Rightarrow> string" where
  "home_dir env =
     (case env ''HOME'' of
        Some h \<Rightarrow> if is_absolute h then h else CHR ''/'' # CHR 0x00 # ''home''
      | None \<Rightarrow> CHR ''/'' # CHR 0x00 # ''home'')"

definition env_dir :: "(string \<Rightarrow> string option) \<Rightarrow> string \<times> string \<Rightarrow> string list" where
  "env_dir env x =
     (case env (fst x) of
        Some root \<Rightarrow> if is_absolute root then [path_join root (snd x)] else []
      | None \<Rightarrow> [])"

definition credential_dirs :: "(string \<Rightarrow> string option) \<Rightarrow> string \<Rightarrow> string list" where
  "credential_dirs env home =
     [path_join home ''.local/share/qq'', path_join home ''Library/Application Support/dev.qq.qq'',
      path_join home ''AppData/Roaming/qq/qq/data'']
     @ concat (map (env_dir env) [(''QQ_HOME'', ''data''), (''XDG_DATA_HOME'', ''qq'')])"

section \<open>Operands\<close>

definition disk_device :: "string \<Rightarrow> bool" where
  "disk_device target \<longleftrightarrow>
     list_ex (starts_with target) [''/dev/sd'', ''/dev/hd'', ''/dev/vd'', ''/dev/xvd'', ''/dev/nvme'', ''/dev/mmcblk'',
       ''/dev/disk'', ''/dev/rdisk'', ''/dev/mapper/'']
     \<or> target \<in> set [''/dev/mem'', ''/dev/kmem'', ''/dev/port'']"

definition recursive :: "string list \<Rightarrow> char list \<Rightarrow> bool" where
  "recursive args flags =
     list_ex (\<lambda>arg. arg = ''--recursive''
         \<or> starts_with arg ''-'' \<and> \<not> starts_with arg ''--'' \<and> contains_any arg flags)
       (takeWhile (\<lambda>arg. arg \<noteq> ''--'') args)"

fun operands_from :: "bool \<Rightarrow> string list \<Rightarrow> string list" where
  "operands_from ended [] = []"
| "operands_from ended (arg # args) =
     (if ended \<or> \<not> starts_with arg ''-'' then arg # operands_from ended args
      else operands_from (arg = ''--'') args)"

definition operands :: "string list \<Rightarrow> string list" where
  "operands args = operands_from False args"

fun copy_loop :: "string option \<Rightarrow> string list \<Rightarrow> bool \<Rightarrow> string list \<Rightarrow> string option \<times> string list" where
  "copy_loop target rest options [] = (target, rest)"
| "copy_loop target rest options (arg # args) =
     (if \<not> options \<or> \<not> starts_with arg ''-'' then copy_loop target (rest @ [arg]) options args
      else if arg = ''--'' then copy_loop target rest False args
      else if arg = ''-t'' \<or> arg = ''--target-directory'' then
        (case args of [] \<Rightarrow> (None, rest) | dir # args' \<Rightarrow> copy_loop (Some dir) rest options args')
      else (case strip_prefix arg ''--target-directory='' of
              Some dir \<Rightarrow> copy_loop (Some dir) rest options args
            | None \<Rightarrow>
                (case strip_prefix arg ''-t'' of
                   Some dir \<Rightarrow> copy_loop (if starts_with dir ''-'' then target else Some dir) rest options args
                 | None \<Rightarrow> copy_loop target rest options args)))"

definition copy_operands :: "string list \<Rightarrow> string list \<times> string list" where
  "copy_operands args =
     (case copy_loop None [] True args of
        (Some target, rest) \<Rightarrow> (rest, [target])
      | (None, rest) \<Rightarrow> if rest = [] then ([], []) else (butlast rest, [last rest]))"

section \<open>Force pushes\<close>

datatype push_option = ForceLike | Valued | Flag

definition PUSH_LONG_OPTIONS :: "(string \<times> push_option \<times> bool) list" where
  "PUSH_LONG_OPTIONS =
     [(''verbose'', Flag, True), (''quiet'', Flag, True), (''repo'', Valued, True), (''all'', Flag, True),
      (''branches'', Flag, True), (''mirror'', ForceLike, True), (''delete'', ForceLike, True), (''tags'', Flag, True),
      (''dry-run'', Flag, True), (''porcelain'', Flag, True), (''force'', ForceLike, True),
      (''force-with-lease'', ForceLike, True), (''force-if-includes'', Flag, True),
      (''recurse-submodules'', Valued, True), (''thin'', Flag, True), (''receive-pack'', Valued, True),
      (''exec'', Valued, True), (''set-upstream'', Flag, True), (''progress'', Flag, True), (''prune'', ForceLike, True),
      (''no-verify'', Flag, False), (''verify'', Flag, False), (''follow-tags'', Flag, True), (''signed'', Flag, True),
      (''atomic'', Flag, True), (''push-option'', Valued, True), (''ipv4'', Flag, False), (''ipv6'', Flag, False)]"

definition push_options :: "(string \<times> push_option) list" where
  "push_options = concat (map (\<lambda>(option, k, negatable).
     (option, k) # (if negatable then [(''no-'' @ option, Flag)] else [])) PUSH_LONG_OPTIONS)"

definition push_long_option :: "string \<Rightarrow> push_option" where
  "push_long_option name =
     (case List.find (\<lambda>(option, _). option = name) push_options of
        Some (_, k) \<Rightarrow> k
      | None \<Rightarrow>
          (let candidates = map snd (filter (\<lambda>(option, _). name \<noteq> [] \<and> starts_with option name) push_options)
           in if ForceLike \<in> set candidates then ForceLike
              else if candidates = [Valued] then Valued else Flag))"

text \<open>The letters of a short option: \<open>None\<close> when one forces, otherwise whether the next word is the
  value of a final \<open>o\<close>.\<close>

fun short_flags :: "string \<Rightarrow> bool option" where
  "short_flags [] = Some False"
| "short_flags (flag # flags) =
     (if flag = CHR ''f'' \<or> flag = CHR ''d'' then None
      else if flag = CHR ''o'' then Some (flags = [])
      else short_flags flags)"

fun push_loop :: "nat \<Rightarrow> bool \<Rightarrow> bool \<Rightarrow> string option list \<Rightarrow> bool" where
  "push_loop positional options skip [] = False"
| "push_loop positional options skip (None # args) =
     push_loop (if skip then positional else positional + 1) options False args"
| "push_loop positional options skip (Some arg # args) =
     (if skip then push_loop positional options False args
      else if options \<and> arg = ''--'' then push_loop positional False False args
      else if options \<and> starts_with arg ''--'' then
        (let (name, inline) = (case split_once arg (CHR ''='') of Some (n, _) \<Rightarrow> (n, True) | None \<Rightarrow> (arg, False))
         in case push_long_option (drop 2 name) of
              ForceLike \<Rightarrow> True
            | Valued \<Rightarrow> push_loop positional options (\<not> inline) args
            | Flag \<Rightarrow> push_loop positional options False args)
      else if options \<and> length arg > 1 \<and> starts_with arg ''-'' then
        (case short_flags (drop 1 arg) of
           None \<Rightarrow> True
         | Some v \<Rightarrow> push_loop positional options v args)
      else if positional + 1 \<ge> 2 \<and> (starts_with arg ''+'' \<or> starts_with arg '':'') then True
      else push_loop (positional + 1) options False args)"

definition force_push :: "string option list \<Rightarrow> bool" where
  "force_push args =
     (let index = git_options_end args
      in literal_at args index = Some ''push'' \<and> push_loop 0 True False (drop (index + 1) args))"

section \<open>The judgement of a command\<close>

definition literals :: "string option list \<Rightarrow> string list" where
  "literals ws = List.map_filter (\<lambda>w. w) ws"

definition judge_program :: "simple_command \<Rightarrow> string \<Rightarrow> string \<Rightarrow> stop option" where
  "judge_program command home p =
     (let args = literals (sc_args command) in
      if p \<in> set [''sudo'', ''doas'', ''su'', ''pkexec''] then Some PrivilegeEscalation
      else if p \<in> set [''mkfs'', ''fdisk'', ''sfdisk'', ''gdisk'', ''parted'', ''wipefs''] \<or> starts_with p ''mkfs.''
        then Some DiskWrite
      else if p = ''dd'' \<and> list_ex (\<lambda>arg. word_is disk_device (strip_prefix arg ''of='')) args then Some DiskWrite
      else if p \<in> set [''shutdown'', ''reboot'', ''halt'', ''poweroff''] then Some PowerState
      else if p = ''systemctl'' \<and> list_ex (\<lambda>arg. arg \<in> set [''poweroff'', ''reboot'', ''halt'', ''kexec'']) args
        then Some PowerState
      else if p = ''git'' \<and> force_push (sc_args command) then Some ForcePush
      else if p = ''rm'' \<and> recursive args ''rR'' \<and> list_ex (\<lambda>op. top_level op home) (operands args)
        then Some RemoveRoot
      else if p = ''mv'' \<and> list_ex (\<lambda>op. top_level op home) (fst (copy_operands args)) then Some RemoveRoot
      else if (p = ''cp'' \<or> p = ''install'') \<and> list_ex disk_device (snd (copy_operands args)) then Some DiskWrite
      else if p = ''tee'' \<and> list_ex disk_device (operands args) then Some DiskWrite
      else if p \<in> set [''chmod'', ''chown'', ''chgrp''] \<and> recursive args ''R''
          \<and> list_ex (\<lambda>op. top_level op home) (operands args)
        then Some RemoveRoot
      else None)"

definition judge :: "simple_command \<Rightarrow> string \<Rightarrow> string list \<Rightarrow> stop option" where
  "judge command home credentials =
     (if list_ex (\<lambda>w. names_credentials w home credentials)
           (literals (sc_argv command) @ literals (sc_redirects command))
      then Some CredentialRead
      else if list_ex disk_device (literals (sc_redirects command)) then Some DiskWrite
      else case sc_program command of None \<Rightarrow> None | Some p \<Rightarrow> judge_program command home p)"

fun find_map :: "('a \<Rightarrow> 'b option) \<Rightarrow> 'a list \<Rightarrow> 'b option" where
  "find_map f [] = None"
| "find_map f (x # xs) = (case f x of Some y \<Rightarrow> Some y | None \<Rightarrow> find_map f xs)"

definition fixed_stop :: "(string \<Rightarrow> string option) \<Rightarrow> parser \<Rightarrow> string \<Rightarrow> stop option" where
  "fixed_stop env parse command =
     (let home = home_dir env; credentials = credential_dirs env home
      in find_map (\<lambda>simple. judge simple home credentials) (shell_commands parse command))"

lemma find_map_None: "find_map f xs = None \<longleftrightarrow> (\<forall>x \<in> set xs. f x = None)"
  by (induction xs) (auto split: option.splits)

section \<open>Abbreviated options\<close>

definition force_names :: "string list" where
  "force_names = map fst (filter (\<lambda>(_, k). k = ForceLike) push_options)"

definition other_names :: "string list" where
  "other_names = map fst (filter (\<lambda>(_, k). k \<noteq> ForceLike) push_options)"

lemma push_names_disjoint: "name \<in> set force_names \<Longrightarrow> name \<notin> set other_names"
proof -
  have "list_all (\<lambda>n. n \<notin> set other_names) force_names" by code_simp
  then show "name \<in> set force_names \<Longrightarrow> name \<notin> set other_names" by (simp add: list_all_iff)
qed

lemma push_option_names:
  "(name, k) \<in> set push_options \<Longrightarrow> name \<in> set (if k = ForceLike then force_names else other_names)"
  by (force simp: force_names_def other_names_def)

lemma force_nonempty: "name \<in> set force_names \<Longrightarrow> name \<noteq> []"
proof -
  have "list_all (\<lambda>n. n \<noteq> []) force_names" by code_simp
  then show "name \<in> set force_names \<Longrightarrow> name \<noteq> []" by (auto simp: list_all_iff)
qed

lemma starts_with_refl: "starts_with s s"
  by (simp add: starts_with_def)

lemma push_long_option_force:
  "push_long_option name = ForceLike \<longleftrightarrow>
     name \<noteq> [] \<and> (\<exists>option \<in> set force_names. starts_with option name) \<and> name \<notin> set other_names"
proof (cases "List.find (\<lambda>(option, _). option = name) push_options")
  case None
  then have "(name, k) \<notin> set push_options" for k by (auto simp: find_None_iff)
  then have other: "name \<notin> set other_names" by (force simp: other_names_def)
  have "ForceLike \<in> set (map snd (filter (\<lambda>(option, _). name \<noteq> [] \<and> starts_with option name) push_options)) \<longleftrightarrow>
      name \<noteq> [] \<and> (\<exists>option \<in> set force_names. starts_with option name)"
    by (force simp: force_names_def)
  then show ?thesis using None other by (auto simp: push_long_option_def Let_def)
next
  case (Some x)
  obtain k where x: "x = (name, k)" and k: "(name, k) \<in> set push_options"
  proof -
    have "x \<in> set push_options \<and> (case x of (option, _) \<Rightarrow> option = name)"
      using Some by (metis find_Some_iff nth_mem)
    then show ?thesis using that by (cases x) auto
  qed
  have val: "push_long_option name = k" using Some x by (simp add: push_long_option_def)
  show ?thesis
  proof (cases "k = ForceLike")
    case True
    then have "name \<in> set force_names" using push_option_names [OF k] by simp
    then show ?thesis using val True push_names_disjoint force_nonempty starts_with_refl by blast
  next
    case False
    then have "name \<in> set other_names" using push_option_names [OF k] by simp
    then show ?thesis using val False by simp
  qed
qed

lemma split_once_plain: "c \<notin> set n \<Longrightarrow> split_once n c = None"
  using position_None_iff [of "\<lambda>x. x = c" n] by (auto simp: split_once_def)

text \<open>
  The words git reads as a force or a deletion: a long option, spelled out or abbreviated, with or
  without a value, and a group of short options with \<open>f\<close> or \<open>d\<close> before any \<open>o\<close>.
\<close>

definition forcing_long :: "string \<Rightarrow> string \<Rightarrow> bool" where
  "forcing_long name assigned \<longleftrightarrow> name \<noteq> [] \<and> CHR ''='' \<notin> set name \<and> (assigned = [] \<or> hd assigned = CHR ''='')
     \<and> (\<exists>option \<in> set force_names. starts_with option name) \<and> name \<notin> set other_names"

definition forcing_word :: "string \<Rightarrow> bool" where
  "forcing_word w \<longleftrightarrow>
     (\<exists>name assigned. w = ''--'' @ name @ assigned \<and> forcing_long name assigned)
     \<or> (\<exists>a f b. w = CHR ''-'' # a @ f # b \<and> (f = CHR ''f'' \<or> f = CHR ''d'') \<and> set a \<inter> set ''-o'' = {})"

lemma short_flags_force:
  "f = CHR ''f'' \<or> f = CHR ''d'' \<Longrightarrow> CHR ''o'' \<notin> set a \<Longrightarrow> short_flags (a @ f # b) = None"
  by (induction a) auto

lemma push_loop_forcing:
  assumes "forcing_word w"
  shows "push_loop positional True False (Some w # args)"
proof -
  consider (long) name assigned where "w = ''--'' @ name @ assigned" "forcing_long name assigned"
    | (short) a f b where "w = CHR ''-'' # a @ f # b" "f = CHR ''f'' \<or> f = CHR ''d''" "set a \<inter> set ''-o'' = {}"
    using assms unfolding forcing_word_def by blast
  then show ?thesis
  proof cases
    case (long name assigned)
    note w = long(1) and f = long(2)
    have name: "CHR ''='' \<notin> set (''--'' @ name)" "name \<noteq> []" using f by (auto simp: forcing_long_def)
    have force: "push_long_option name = ForceLike"
      using f push_long_option_force by (simp add: forcing_long_def)
    have split: "(case split_once w (CHR ''='') of Some (n, _) \<Rightarrow> (n, True) | None \<Rightarrow> (w, False)) = (''--'' @ name, assigned \<noteq> [])"
    proof (cases assigned)
      case Nil
      then show ?thesis using split_once_plain [OF name(1)] w by simp
    next
      case (Cons c v)
      then have "w = (''--'' @ name) @ CHR ''='' # v" using f w by (simp add: forcing_long_def)
      then show ?thesis using split_once_append [OF name(1)] Cons by simp
    qed
    have "starts_with w ''--''" "w \<noteq> ''--''" using w name(2) by (auto simp: starts_with_def)
    then show ?thesis by (simp add: split force)
  next
    case (short a f b)
    note w = short(1) and f = short(2) and a = short(3)
    have "\<not> starts_with w ''--''" "w \<noteq> ''--''"
      using w f a by (cases a; auto simp: starts_with_def)+
    moreover have "length w > 1" "starts_with w ''-''" "short_flags (drop 1 w) = None"
      using w short_flags_force [OF f] a by (auto simp: starts_with_def)
    ultimately show ?thesis by simp
  qed
qed

lemma push_loop_positional:
  "\<forall>w \<in> set pre. \<not> option_word w \<Longrightarrow> (\<And>n. push_loop n True False rest) \<Longrightarrow>
     push_loop positional True False (map Some pre @ rest)"
proof (induction pre arbitrary: positional)
  case (Cons w pre)
  have w: "\<not> starts_with w ''-''" "w \<noteq> ''--''" "\<not> starts_with w ''--''"
    using Cons.prems(1) by (cases w; auto simp: option_word_def starts_with_def)+
  have pre: "\<forall>x \<in> set pre. \<not> option_word x" using Cons.prems(1) by simp
  show ?case using w Cons.IH [OF pre Cons.prems(2)] by simp
qed simp

text \<open>A push with a force or delete option is recognised in every spelling: any
  abbreviation git accepts, with or without a value, in a group of short options, after any global
  options of git and any number of plain words.\<close>

lemma force_push_detected:
  assumes "literal_at args (git_options_end args) = Some ''push''"
    and "drop (git_options_end args + 1) args = map Some pre @ Some w # rest"
    and "\<forall>x \<in> set pre. \<not> option_word x" and "forcing_word w"
  shows "force_push args"
  using assms push_loop_positional [OF assms(3) push_loop_forcing [OF assms(4)]]
  by (simp add: force_push_def Let_def)

lemma force_push_detected_witness:
  "force_push (map Some [''-C'', ''sub'', ''push'', ''origin'', ''--force-w=x:abc'', ''x''])"
proof -
  let ?args = "map Some [''-C'', ''sub'', ''push'', ''origin'', ''--force-w=x:abc'', ''x'']"
  have "literal_at ?args (git_options_end ?args) = Some ''push''" by code_simp
  moreover have "drop (git_options_end ?args + 1) ?args = map Some [''origin''] @ Some ''--force-w=x:abc'' # map Some [''x'']"
    by code_simp
  moreover have "\<forall>x \<in> set [''origin'']. \<not> option_word x" by code_simp
  moreover have "forcing_long ''force-w'' ''=x:abc''" by code_simp
  then have "forcing_word ''--force-w=x:abc''" unfolding forcing_word_def
    by (intro disjI1 exI [of _ "''force-w''"] exI [of _ "''=x:abc''"]) simp
  ultimately show ?thesis by (rule force_push_detected)
qed

section \<open>Stops behind wrappers\<close>

definition bare_command :: "string list \<Rightarrow> simple_command" where
  "bare_command av = \<lparr>sc_argv = map Some av, sc_redirects = [], sc_raw_redirects = [], sc_assignments = [],
     sc_nested = False\<rparr>"

lemma judge_argv:
  assumes "judge (bare_command av) home credentials \<noteq> None" and "sc_argv c = map Some av"
  shows "judge c home credentials \<noteq> None"
proof -
  have same: "sc_program c = sc_program (bare_command av)" "sc_args c = sc_args (bare_command av)"
    using assms(2) by (simp_all add: sc_program_def sc_args_def bare_command_def)
  have "judge_program c home p = judge_program (bare_command av) home p" for p
    unfolding judge_program_def same(2) ..
  moreover have "literals (sc_redirects (bare_command av)) = []" "sc_argv (bare_command av) = sc_argv c"
    using assms(2) by (simp_all add: bare_command_def literals_def)
  ultimately have "judge c home credentials = judge (bare_command av) home credentials"
    if "\<not> list_ex (\<lambda>w. names_credentials w home credentials) (literals (sc_redirects c))"
      "\<not> list_ex disk_device (literals (sc_redirects c))"
    using that same(1) by (simp add: judge_def cong: option.case_cong)
  then show ?thesis using assms(1) by (cases "list_ex disk_device (literals (sc_redirects c))") (auto simp: judge_def)
qed


text \<open>The tree of \<open>env A=b sudo ls\<close>.\<close>

definition sudo_command :: node where
  "sudo_command = Node ''command'' True 0 15
     [Node ''command_name'' True 0 3 [leaf ''word'' 0 3], leaf ''word'' 4 7, leaf ''word'' 8 12, leaf ''word'' 13 15]"

definition sudo_parse :: parser where
  "sudo_parse s =
     (if s = ''env A=b sudo ls'' then Some (Node ''program'' True 0 15 [sudo_command], False) else None)"


end
