(* ===== verification/Ask.thy ===== *)
theory Ask
  imports Tool_Output
begin

text \<open>
  The questions of the \<open>ask_user\<close> tool (\<^verbatim>\<open>crates/qq-core/src/tools/ask.rs\<close>): their validation and the
  text of the answers. The JSON decoder is the parameter \<open>decode\<close>: the questions of a text, or the
  message of its error.
\<close>

definition MAX_QUESTIONS :: nat where "MAX_QUESTIONS = 4"
definition MIN_OPTIONS :: nat where "MIN_OPTIONS = 2"
definition MAX_OPTIONS :: nat where "MAX_OPTIONS = 6"
definition MAX_QUESTION_BYTES :: nat where "MAX_QUESTION_BYTES = 512"
definition MAX_OPTION_BYTES :: nat where "MAX_OPTION_BYTES = 128"
definition MAX_ANSWER_BYTES :: nat where "MAX_ANSWER_BYTES = 4096"

lemmas ask_limits = MAX_QUESTIONS_def MIN_OPTIONS_def MAX_OPTIONS_def MAX_QUESTION_BYTES_def MAX_OPTION_BYTES_def
  MAX_ANSWER_BYTES_def

record question_args =
  qa_prompt :: string
  qa_options :: "string list"
  qa_free_text :: bool

record question =
  q_prompt :: string
  q_options :: "string list"
  q_free_text :: bool

datatype ask_error =
    AskArguments string
  | QuestionCount nat
  | AskPrompt nat
  | OptionCount nat nat
  | AskOption nat nat

fun ask_error_text :: "ask_error \<Rightarrow> string" where
  "ask_error_text (AskArguments e) = ''invalid arguments: '' @ e"
| "ask_error_text (QuestionCount n) = ''ask_user needs 1-4 questions, got '' @ nat_to_string n"
| "ask_error_text (AskPrompt i) = ''question '' @ nat_to_string i @ '' is empty or longer than 512 bytes''"
| "ask_error_text (OptionCount i c) = ''question '' @ nat_to_string i @
     '' needs 2-6 options (or free_text with no options), got '' @ nat_to_string c"
| "ask_error_text (AskOption i p) = ''question '' @ nat_to_string i @ '' option '' @ nat_to_string p @
     '' is empty or longer than 128 bytes''"

text \<open>The options of question \<open>index\<close>, from number \<open>i\<close> on.\<close>

fun parse_options :: "nat \<Rightarrow> nat \<Rightarrow> string list \<Rightarrow> (ask_error, string list) result" where
  "parse_options index i [] = Ok []"
| "parse_options index i (opt # opts) =
     (let t = trim opt in
      if t = [] \<or> length t > MAX_OPTION_BYTES then Err (AskOption index i)
      else case parse_options index (i + 1) opts of Inl e \<Rightarrow> Err e | Inr ts \<Rightarrow> Ok (t # ts))"

definition parse_question :: "nat \<Rightarrow> question_args \<Rightarrow> (ask_error, question) result" where
  "parse_question index q =
     (let prompt = trim (qa_prompt q); count = length (qa_options q) in
      if prompt = [] \<or> length prompt > MAX_QUESTION_BYTES then Err (AskPrompt index)
      else if count \<noteq> 0 \<and> \<not> (MIN_OPTIONS \<le> count \<and> count \<le> MAX_OPTIONS) then Err (OptionCount index count)
      else case parse_options index 1 (qa_options q) of
             Inl e \<Rightarrow> Err e
           | Inr opts \<Rightarrow> Ok \<lparr>q_prompt = prompt, q_options = opts, q_free_text = (qa_free_text q \<or> count = 0)\<rparr>)"

fun parse_questions :: "nat \<Rightarrow> question_args list \<Rightarrow> (ask_error, question list) result" where
  "parse_questions index [] = Ok []"
| "parse_questions index (q # qs) =
     (case parse_question index q of
        Inl e \<Rightarrow> Err e
      | Inr x \<Rightarrow> (case parse_questions (index + 1) qs of Inl e \<Rightarrow> Err e | Inr xs \<Rightarrow> Ok (x # xs)))"

definition ask_parse :: "(string \<Rightarrow> (string, question_args list) result) \<Rightarrow> string \<Rightarrow> (ask_error, question list) result" where
  "ask_parse decode arguments =
     (case decode arguments of
        Inl e \<Rightarrow> Err (AskArguments e)
      | Inr qs \<Rightarrow>
          if qs = [] \<or> length qs > MAX_QUESTIONS then Err (QuestionCount (length qs))
          else parse_questions 1 qs)"

section \<open>Answers\<close>

definition ELLIPSIS :: string where "ELLIPSIS = [CHR 0xE2, CHR 0x80, CHR 0xA6]"

definition answered :: "string \<Rightarrow> bool" where "answered a \<longleftrightarrow> trim a \<noteq> []"

text \<open>The trimmed answer, cut at a character boundary.\<close>

definition answer_line :: "string option \<Rightarrow> string option" where
  "answer_line answer =
     (case answer of
        Some a \<Rightarrow>
          (let t = trim a; e = char_floor t (min (length t) MAX_ANSWER_BYTES)
           in map_option (\<lambda>s. ''A: '' @ s @ (if e < length t then ELLIPSIS else []) @ [CHR 0x0A]) (str_slice t 0 e))
      | None \<Rightarrow> Some (''A: (unanswered)'' @ [CHR 0x0A]))"

fun answer_lines :: "nat \<Rightarrow> question list \<Rightarrow> string list \<Rightarrow> string option" where
  "answer_lines index [] answers = Some []"
| "answer_lines index (q # qs) answers =
     (let answer = (case answers of [] \<Rightarrow> None | a # _ \<Rightarrow> if answered a then Some a else None) in
      case answer_line answer of
        None \<Rightarrow> None
      | Some line \<Rightarrow>
          map_option (\<lambda>rest. ''Q'' @ nat_to_string index @ '': '' @ q_prompt q @ [CHR 0x0A] @ line @ rest)
            (answer_lines (index + 1) qs (drop 1 answers)))"

text \<open>\<open>None\<close> is a panic.\<close>

definition render_answers :: "question list \<Rightarrow> string list \<Rightarrow> string option" where
  "render_answers questions answers =
     map_option (\<lambda>body.
         ''ask_user answered='' @ nat_to_string (min (length (filter answered answers)) (length questions))
         @ ''/'' @ nat_to_string (length questions) @ [CHR 0x0A] @ body)
       (answer_lines 1 questions answers)"

section \<open>Which questions are accepted\<close>

definition short_text :: "nat \<Rightarrow> string \<Rightarrow> bool" where
  "short_text m t \<longleftrightarrow> trim t \<noteq> [] \<and> length (trim t) \<le> m"

definition question_ok :: "question_args \<Rightarrow> bool" where
  "question_ok q \<longleftrightarrow> short_text MAX_QUESTION_BYTES (qa_prompt q)
     \<and> (qa_options q = [] \<or> MIN_OPTIONS \<le> length (qa_options q) \<and> length (qa_options q) \<le> MAX_OPTIONS)
     \<and> list_all (short_text MAX_OPTION_BYTES) (qa_options q)"

definition asked :: "question_args \<Rightarrow> question" where
  "asked q = \<lparr>q_prompt = trim (qa_prompt q), q_options = map trim (qa_options q),
     q_free_text = (qa_free_text q \<or> qa_options q = [])\<rparr>"

lemma parse_options_spec:
  "list_all (short_text MAX_OPTION_BYTES) opts \<Longrightarrow> parse_options index i opts = Ok (map trim opts)"
  "parse_options index i opts = Err e \<Longrightarrow>
     \<exists>k < length opts. e = AskOption index (i + k) \<and> \<not> short_text MAX_OPTION_BYTES (opts ! k)
       \<and> list_all (short_text MAX_OPTION_BYTES) (take k opts)"
proof (induction opts arbitrary: i)
  case (Cons opt opts)
  {
    case 1
    then show ?case using Cons.IH(1) by (simp add: short_text_def)
  next
    case 2
    show ?case
    proof (cases "short_text MAX_OPTION_BYTES opt")
      case False
      then have "e = AskOption index i" using 2 by (auto simp: short_text_def Let_def)
      then show ?thesis using False by (intro exI [of _ 0]) simp
    next
      case True
      then have "parse_options index (i + 1) opts = Err e"
        using 2 by (auto simp: short_text_def Let_def split: sum.splits if_splits)
      from Cons.IH(2) [OF this] obtain k where "k < length opts" "e = AskOption index (i + 1 + k)"
        "\<not> short_text MAX_OPTION_BYTES (opts ! k)" "list_all (short_text MAX_OPTION_BYTES) (take k opts)" by blast
      then show ?thesis using True by (intro exI [of _ "k + 1"]) simp
    qed
  }
qed simp_all

text \<open>The error that question number \<open>index\<close> gives.\<close>

definition question_error :: "nat \<Rightarrow> question_args \<Rightarrow> ask_error \<Rightarrow> bool" where
  "question_error index q e \<longleftrightarrow>
     (let opts = qa_options q; n = length opts in
      if \<not> short_text MAX_QUESTION_BYTES (qa_prompt q) then e = AskPrompt index
      else if n \<noteq> 0 \<and> (n < MIN_OPTIONS \<or> MAX_OPTIONS < n) then e = OptionCount index n
      else \<exists>k < n. e = AskOption index (k + 1) \<and> \<not> short_text MAX_OPTION_BYTES (opts ! k)
             \<and> list_all (short_text MAX_OPTION_BYTES) (take k opts))"

lemma parse_question_spec:
  "case parse_question index q of
     Inr x \<Rightarrow> question_ok q \<and> x = asked q
   | Inl e \<Rightarrow> \<not> question_ok q \<and> question_error index q e"
proof (cases "short_text MAX_QUESTION_BYTES (qa_prompt q)
    \<and> (qa_options q = [] \<or> MIN_OPTIONS \<le> length (qa_options q) \<and> length (qa_options q) \<le> MAX_OPTIONS)")
  case False
  then show ?thesis
    by (auto simp: parse_question_def question_ok_def question_error_def short_text_def Let_def)
next
  case True
  let ?opts = "qa_options q"
  have parse: "parse_question index q = (case parse_options index 1 ?opts of Inl e \<Rightarrow> Err e
      | Inr opts \<Rightarrow> Ok \<lparr>q_prompt = trim (qa_prompt q), q_options = opts, q_free_text = (qa_free_text q \<or> ?opts = [])\<rparr>)"
    using True by (auto simp: parse_question_def short_text_def Let_def split: sum.splits)
  show ?thesis
  proof (cases "list_all (short_text MAX_OPTION_BYTES) ?opts")
    case ok: True
    then show ?thesis using True parse_options_spec(1) [OF ok, of index 1]
      by (simp add: parse question_ok_def asked_def)
  next
    case bad: False
    have "parse_options index i opts = Ok ts \<Longrightarrow> list_all (short_text MAX_OPTION_BYTES) opts" for i opts ts
      by (induction opts arbitrary: i ts) (auto simp: short_text_def Let_def split: sum.splits if_splits)
    then obtain e where e: "parse_options index 1 ?opts = Err e" using bad by (cases "parse_options index 1 ?opts") auto
    from parse_options_spec(2) [OF e] have "question_error index q e"
      using True by (auto simp: question_error_def Let_def)
    then show ?thesis using bad e by (simp add: parse question_ok_def)
  qed
qed

lemma parse_questions_spec:
  "case parse_questions index qs of
     Inr xs \<Rightarrow> list_all question_ok qs \<and> xs = map asked qs
   | Inl e \<Rightarrow> \<exists>k < length qs. list_all question_ok (take k qs) \<and> \<not> question_ok (qs ! k)
       \<and> question_error (index + k) (qs ! k) e"
proof (induction qs arbitrary: index)
  case (Cons q qs)
  note head = parse_question_spec [where index = index and q = q]
  show ?case
  proof (cases "parse_question index q")
    case (Inl e)
    then show ?thesis using head by (auto intro!: exI [of _ 0])
  next
    case (Inr x)
    then have q: "question_ok q" "x = asked q" using head by simp_all
    show ?thesis
    proof (cases "parse_questions (index + 1) qs")
      case err: (Inl e)
      then obtain k where "k < length qs" "list_all question_ok (take k qs)" "\<not> question_ok (qs ! k)"
        "question_error (index + 1 + k) (qs ! k) e" using Cons.IH [of "index + 1"] by auto
      then show ?thesis using Inr err q by (auto intro!: exI [of _ "k + 1"])
    next
      case ok: (Inr xs)
      then show ?thesis using Inr q Cons.IH [of "index + 1"] by simp
    qed
  qed
qed simp

text \<open>A call is accepted exactly when it has one to four questions, each with a prompt of
  at most 512 bytes and no options or two to six options of at most 128 bytes, all trimmed; otherwise
  the error names the first question that is at fault, and its first option that is.\<close>

lemma ask_parse_spec:
  "case ask_parse decode arguments of
     Inr xs \<Rightarrow> (\<exists>qs. decode arguments = Ok qs \<and> 1 \<le> length qs \<and> length qs \<le> 4
       \<and> list_all question_ok qs \<and> xs = map asked qs)
   | Inl e \<Rightarrow> (case decode arguments of
       Inl m \<Rightarrow> e = AskArguments m
     | Inr qs \<Rightarrow>
         if length qs < 1 \<or> 4 < length qs then e = QuestionCount (length qs)
         else \<exists>k < length qs. list_all question_ok (take k qs) \<and> \<not> question_ok (qs ! k)
           \<and> question_error (k + 1) (qs ! k) e)"
proof (cases "decode arguments")
  case (Inr qs)
  show ?thesis
  proof (cases "qs = [] \<or> length qs > MAX_QUESTIONS")
    case True
    then show ?thesis using Inr by (auto simp: ask_parse_def MAX_QUESTIONS_def)
  next
    case False
    then have n: "1 \<le> length qs" "length qs \<le> 4" by (cases qs; simp add: MAX_QUESTIONS_def)+
    have "ask_parse decode arguments = parse_questions 1 qs" using Inr False by (simp add: ask_parse_def)
    then show ?thesis using parse_questions_spec [where index = 1 and qs = qs] Inr n by (auto split: sum.splits)
  qed
qed (simp add: ask_parse_def)

section \<open>The answers never panic\<close>

lemma render_answers_total: "render_answers questions answers \<noteq> None"
proof -
  have floor: "char_floor t (min (length t) m) \<le> length t" for t m
    using char_floor_le [of t "min (length t) m"] by simp
  have "answer_line answer \<noteq> None" for answer
    using char_floor_boundary floor
    by (auto simp: answer_line_def str_slice_def is_char_boundary_def [of _ 0] Let_def split: option.splits)
  then have "answer_lines index qs as \<noteq> None" for index qs as
    by (induction qs arbitrary: index as) (auto simp: Let_def split: option.splits)
  then show ?thesis by (simp add: render_answers_def)
qed

end
