(* ===== verification/Approval.thy ===== *)
theory Approval
  imports Stops Fetch Ask
begin

text \<open>
  The approval policy (\<^verbatim>\<open>crates/qq-core/src/approval.rs\<close>): the class of a tool call, the decision of
  each mode, the texts of the denials and the previews of edits. The JSON decoders of the arguments,
  the parser of the shell and the environment are parameters.
\<close>

section \<open>Modes and classes\<close>

datatype approval_mode = ReadOnlyMode | AskMode | AutoMode | FullMode

text \<open>Modes are ordered by what they permit.\<close>

fun mode_rank :: "approval_mode \<Rightarrow> nat" where
  "mode_rank ReadOnlyMode = 0"
| "mode_rank AskMode = 1"
| "mode_rank AutoMode = 2"
| "mode_rank FullMode = 3"

lemma mode_rank_inj: "mode_rank a = mode_rank b \<longleftrightarrow> a = b"
  by (cases a; cases b) simp_all

instantiation approval_mode :: linorder
begin

definition less_eq_approval_mode :: "approval_mode \<Rightarrow> approval_mode \<Rightarrow> bool" where
  "less_eq_approval_mode a b \<longleftrightarrow> mode_rank a \<le> mode_rank b"

definition less_approval_mode :: "approval_mode \<Rightarrow> approval_mode \<Rightarrow> bool" where
  "less_approval_mode a b \<longleftrightarrow> mode_rank a < mode_rank b"

instance
  by standard (auto simp: less_eq_approval_mode_def less_approval_mode_def mode_rank_inj)

end

datatype effect_class = EffReadOnly | EffMutating | EffShell | EffExternal | EffInteractive | EffNetwork

datatype child_authority = AuthRead | AuthWrite

datatype tool_class =
    ClassReadOnly
  | ClassMutating
  | ClassShell string "string option" bool
  | ClassExternal
  | ClassInteractive "question list option"
  | ClassNetwork "string option" "host_refusal option"

datatype deny_reason = DenyMode | OutOfScope | HostBlocked host_refusal | DenyStop stop

datatype policy_decision = Execute | RequireApproval | AskUser "question list" | Deny deny_reason

record exec_arguments =
  ea_program :: string
  ea_args :: "string list"
  ea_cwd :: "string option"

record shell_arguments =
  sa_command :: string
  sa_cwd :: "string option"

text \<open>The decoders of the arguments: \<open>None\<close> when the text does not decode.\<close>

record 'v decoders =
  dec_spawn :: "string \<Rightarrow> child_authority option"
  dec_exec :: "string \<Rightarrow> exec_arguments option"
  dec_shell :: "string \<Rightarrow> shell_arguments option"
  dec_ask :: "string \<Rightarrow> (string, question_args list) result"
  dec_fetch :: "string \<Rightarrow> fetch_args option"
  dec_env :: "'v fetch_env"

definition spawn_class :: "'v decoders \<Rightarrow> string \<Rightarrow> tool_class" where
  "spawn_class d arguments = (if dec_spawn d arguments = Some AuthWrite then ClassMutating else ClassReadOnly)"

definition exec_bytes :: "exec_arguments \<Rightarrow> nat" where
  "exec_bytes a = sat_add u64_max (length (ea_program a))
     (sum_list (map (\<lambda>arg. sat_add u64_max (length arg) 1) (ea_args a)))"

definition shell_class :: "bool \<Rightarrow> 'v decoders \<Rightarrow> string \<Rightarrow> string \<Rightarrow> tool_class" where
  "shell_class windows d name arguments =
     (if name = ''exec'' then
        (case dec_exec d arguments of
           Some a \<Rightarrow>
             ClassShell (exec_command_line (ea_program a) (ea_args a)) (ea_cwd a)
               (length (ea_args a) < 128 \<and> exec_bytes a \<le> MAX_CLASSIFIED_BYTES
                \<and> read_only_argv (ea_program a) (ea_args a))
         | None \<Rightarrow> ClassShell [] None False)
      else
        (case dec_shell d arguments of
           Some a \<Rightarrow> ClassShell (sa_command a) (sa_cwd a) (read_only_shell_command windows (sa_command a))
         | None \<Rightarrow> ClassShell [] None False))"

definition SPAWN_AGENT_TOOL :: string where "SPAWN_AGENT_TOOL = ''spawn_agent''"

definition classify :: "bool \<Rightarrow> 'v decoders \<Rightarrow> effect_class \<Rightarrow> string \<Rightarrow> string \<Rightarrow> network_policy \<Rightarrow> tool_class" where
  "classify windows d effect name arguments network =
     (case effect of
        EffReadOnly \<Rightarrow> if name = SPAWN_AGENT_TOOL then spawn_class d arguments else ClassReadOnly
      | EffMutating \<Rightarrow> ClassMutating
      | EffShell \<Rightarrow> shell_class windows d name arguments
      | EffExternal \<Rightarrow> ClassExternal
      | EffInteractive \<Rightarrow>
          ClassInteractive (case ask_parse (dec_ask d) arguments of Inl _ \<Rightarrow> None | Inr q \<Rightarrow> Some q)
      | EffNetwork \<Rightarrow>
          (case target_host (dec_env d) (dec_fetch d) arguments network of
             Inr host \<Rightarrow> ClassNetwork (Some host) None
           | Inl refusal \<Rightarrow> ClassNetwork None refusal))"

section \<open>Decisions\<close>

definition class_stop :: "(string \<Rightarrow> string option) \<Rightarrow> parser \<Rightarrow> tool_class \<Rightarrow> stop option" where
  "class_stop env parse c = (case c of ClassShell command _ _ \<Rightarrow> fixed_stop env parse command | _ \<Rightarrow> None)"

definition class_refusal :: "tool_class \<Rightarrow> host_refusal option" where
  "class_refusal c = (case c of ClassNetwork _ refusal \<Rightarrow> refusal | _ \<Rightarrow> None)"

definition mode_decision :: "approval_mode \<Rightarrow> policy_decision" where
  "mode_decision mode =
     (case mode of
        ReadOnlyMode \<Rightarrow> Deny DenyMode
      | AskMode \<Rightarrow> RequireApproval
      | _ \<Rightarrow> Execute)"

definition evaluate :: "(string \<Rightarrow> string option) \<Rightarrow> parser \<Rightarrow> approval_mode \<Rightarrow> tool_class \<Rightarrow> policy_decision" where
  "evaluate env parse mode c =
     (case (if mode \<noteq> FullMode then class_stop env parse c else None) of
        Some s \<Rightarrow> Deny (DenyStop s)
      | None \<Rightarrow>
          (case class_refusal c of
             Some r \<Rightarrow> Deny (HostBlocked r)
           | None \<Rightarrow>
               (case c of
                  ClassReadOnly \<Rightarrow> Execute
                | ClassNetwork None _ \<Rightarrow> Execute
                | ClassInteractive (Some q) \<Rightarrow> AskUser q
                | ClassInteractive None \<Rightarrow> Execute
                | _ \<Rightarrow> mode_decision mode)))"

definition denial :: "string \<Rightarrow> string \<Rightarrow> string \<Rightarrow> string" where
  "denial who reason instead =
     ''permission_denied: '' @ who @ '': '' @ reason @ ''; '' @ instead @ ''. Do not retry it in another form.''"

definition POLICY_DENIED_RESULT :: string where
  "POLICY_DENIED_RESULT = denial ''mode'' ''this session is read-only, so only reads run''
     ''continue with reads, or tell the user what change is needed''"

definition deny_result :: "deny_reason \<Rightarrow> string" where
  "deny_result reason =
     (case reason of
        DenyMode \<Rightarrow> POLICY_DENIED_RESULT
      | OutOfScope \<Rightarrow> denial ''mode'' ''this action is outside the authority this run was given''
          ''use an operation within it, or tell the user what you need''
      | HostBlocked refusal \<Rightarrow> ''permission_denied: config: fetch refused: '' @ refusal_text refusal @
          ''; private, link-local and managed-denied hosts are unreachable in every mode, so use a public source or ask the user. Do not retry it in another form.''
      | DenyStop s \<Rightarrow> stop_result s)"

definition may_change_files ::
  "bool \<Rightarrow> 'v decoders \<Rightarrow> effect_class \<Rightarrow> string \<Rightarrow> string \<Rightarrow> network_policy \<Rightarrow> bool option \<Rightarrow> bool" where
  "may_change_files windows d effect name arguments network read_only_hint =
     (if name = ''spawn_agent'' \<or> name = ''wait_agents'' then True
      else case classify windows d effect name arguments network of
             ClassMutating \<Rightarrow> True
           | ClassExternal \<Rightarrow> read_only_hint \<noteq> Some True
           | ClassShell _ _ read_only \<Rightarrow> \<not> read_only
           | _ \<Rightarrow> False)"

section \<open>Previews of edits\<close>

definition MAX_PREVIEW_SIDE_BYTES :: nat where "MAX_PREVIEW_SIDE_BYTES = 32 * 1024"
definition PREVIEW_TRUNCATION_MARKER :: string where "PREVIEW_TRUNCATION_MARKER = ''[preview truncated]''"

text \<open>The signed lines of a side, up to its budget; \<open>None\<close> is a panic.\<close>

fun diff_lines :: "char \<Rightarrow> nat \<Rightarrow> string list \<Rightarrow> string option" where
  "diff_lines sign remaining [] = Some []"
| "diff_lines sign remaining (line # lines) =
     (if length line + 3 > remaining then
        map_option (\<lambda>part. sign # CHR '' '' # part @ PREVIEW_TRUNCATION_MARKER @ [CHR 0x0A])
          (str_slice line 0 (char_floor line (min (remaining - 3) (length line))))
      else map_option (\<lambda>rest. sign # CHR '' '' # line @ CHR 0x0A # rest)
             (diff_lines sign (remaining - (length line + 3)) lines))"

definition push_diff_lines :: "string \<Rightarrow> char \<Rightarrow> string \<Rightarrow> nat \<Rightarrow> string option" where
  "push_diff_lines diff sign content side_budget =
     map_option (\<lambda>added. diff @ added) (diff_lines sign side_budget (str_lines content))"

record edit_argument =
  ed_path :: string
  ed_old :: "string option"
  ed_new :: "string option"
  ed_insert_before :: "string option"
  ed_insert_after :: "string option"

record edit_preview =
  pv_path :: string
  pv_diff :: string

text \<open>The result of a preview: no preview, a preview, or (\<open>None\<close> outside) a panic.\<close>

definition nonempty :: "string option \<Rightarrow> string option" where
  "nonempty x = (case x of Some [] \<Rightarrow> None | _ \<Rightarrow> x)"

definition two_sides :: "string \<Rightarrow> char \<Rightarrow> string \<Rightarrow> char \<Rightarrow> string \<Rightarrow> string option" where
  "two_sides diff sign1 content1 sign2 content2 =
     Option.bind (push_diff_lines diff sign1 content1 MAX_PREVIEW_SIDE_BYTES)
       (\<lambda>d. push_diff_lines d sign2 content2 MAX_PREVIEW_SIDE_BYTES)"

fun edits_diff :: "bool \<Rightarrow> string option \<Rightarrow> string \<Rightarrow> edit_argument list \<Rightarrow> string option option" where
  "edits_diff many current_path diff [] = Some (Some diff)"
| "edits_diff many current_path diff (edit # edits) =
     (case ed_new edit of
        None \<Rightarrow> Some None
      | Some new \<Rightarrow>
          (let head = many \<and> current_path \<noteq> Some (ed_path edit);
               diff1 = (if head then diff @ ''=== '' @ ed_path edit @ [CHR 0x0A] else diff);
               current = (if head then Some (ed_path edit) else current_path)
           in case (case (nonempty (ed_old edit), nonempty (ed_insert_before edit), nonempty (ed_insert_after edit)) of
                      (Some old, None, None) \<Rightarrow> Some (two_sides diff1 (CHR ''-'') old (CHR ''+'') new)
                    | (None, Some anchor, None) \<Rightarrow> Some (two_sides diff1 (CHR ''+'') new (CHR '' '') anchor)
                    | (None, None, Some anchor) \<Rightarrow> Some (two_sides diff1 (CHR '' '') anchor (CHR ''+'') new)
                    | _ \<Rightarrow> None) of
                None \<Rightarrow> Some None
              | Some None \<Rightarrow> None
              | Some (Some diff2) \<Rightarrow> edits_diff many current diff2 edits))"

definition edit_preview_of ::
  "(string \<Rightarrow> edit_argument list option) \<Rightarrow> (string \<Rightarrow> (string \<times> string) option) \<Rightarrow> string \<Rightarrow> string
   \<Rightarrow> edit_preview option option" where
  "edit_preview_of dec_edits dec_write name arguments =
     (if name = ''edit_file'' then
        (case dec_edits arguments of
           None \<Rightarrow> Some None
         | Some [] \<Rightarrow> Some None
         | Some (first # rest) \<Rightarrow>
             map_option (map_option (\<lambda>diff. \<lparr>pv_path = ed_path first, pv_diff = diff\<rparr>))
               (edits_diff (length (first # rest) > 1) None [] (first # rest)))
      else if name = ''write_file'' then
        (case dec_write arguments of
           None \<Rightarrow> Some None
         | Some (path, content) \<Rightarrow>
             map_option (\<lambda>diff. Some \<lparr>pv_path = path, pv_diff = diff\<rparr>)
               (push_diff_lines [] (CHR ''+'') content MAX_PREVIEW_SIDE_BYTES))
      else Some None)"

section \<open>The decision table\<close>

fun decision_rank :: "policy_decision \<Rightarrow> nat" where
  "decision_rank (Deny _) = 0"
| "decision_rank RequireApproval = 1"
| "decision_rank (AskUser _) = 1"
| "decision_rank Execute = 2"

text \<open>Raising the mode never takes a permission away.\<close>

lemma evaluate_rank_mono:
  "mode \<le> mode' \<Longrightarrow> decision_rank (evaluate env parse mode c) \<le> decision_rank (evaluate env parse mode' c)"
  by (cases c; cases mode; cases mode'; cases "class_stop env parse c")
    (auto simp: less_eq_approval_mode_def evaluate_def class_refusal_def class_stop_def mode_decision_def
      split: option.splits)

definition changes :: "tool_class \<Rightarrow> bool" where
  "changes c = (case c of
     ClassReadOnly \<Rightarrow> False | ClassInteractive _ \<Rightarrow> False | ClassNetwork None _ \<Rightarrow> False | _ \<Rightarrow> True)"


section \<open>Previews are complete within their budget\<close>

definition signed_line :: "char \<Rightarrow> string \<Rightarrow> string" where
  "signed_line sign line = sign # CHR '' '' # line @ [CHR 0x0A]"

lemma diff_lines_spec:
  "\<exists>added. diff_lines sign remaining lines = Some added \<and> length added \<le> remaining + 22
     \<and> (sum_list (map (\<lambda>l. length l + 3) lines) \<le> remaining \<longrightarrow> added = concat (map (signed_line sign) lines))"
proof (induction lines arbitrary: remaining)
  case (Cons line lines)
  show ?case
  proof (cases "length line + 3 > remaining")
    case True
    define e where "e = char_floor line (min (remaining - 3) (length line))"
    have e: "e \<le> min (remaining - 3) (length line)" unfolding e_def by (rule char_floor_le)
    have "str_slice line 0 e = Some (take e line)"
      using e char_floor_boundary [of line] by (simp add: str_slice_def e_def is_char_boundary_def [of _ 0])
    then show ?thesis using True e unfolding e_def by (simp add: PREVIEW_TRUNCATION_MARKER_def)
  next
    case False
    then show ?thesis using Cons.IH [of "remaining - (length line + 3)"] by (auto simp: signed_line_def)
  qed
qed simp

text \<open>The preview of a file to be written always exists, shows at most 32 KiB of lines and one truncated
  line, and shows every line of the content when the signed lines fit.\<close>

lemma write_preview_complete:
  assumes "dec_write arguments = Some (path, content)"
  shows "\<exists>diff. edit_preview_of dec_edits dec_write ''write_file'' arguments = Some (Some \<lparr>pv_path = path, pv_diff = diff\<rparr>)
    \<and> length diff \<le> 32 * 1024 + 22
    \<and> (sum_list (map (\<lambda>l. length l + 3) (str_lines content)) \<le> 32 * 1024
         \<longrightarrow> diff = concat (map (signed_line (CHR ''+'')) (str_lines content)))"
  using diff_lines_spec [of "CHR ''+''" MAX_PREVIEW_SIDE_BYTES "str_lines content"] assms
  by (auto simp: edit_preview_of_def push_diff_lines_def MAX_PREVIEW_SIDE_BYTES_def)

text \<open>No preview panics.\<close>

lemma push_diff_lines_total [simp]: "push_diff_lines d sign content n \<noteq> None"
  using diff_lines_spec [of sign n "str_lines content"] by (auto simp: push_diff_lines_def)

lemma two_sides_total [simp]: "two_sides diff s1 c1 s2 c2 \<noteq> None"
  by (simp add: two_sides_def Option.bind_eq_None_conv)

lemma edits_diff_total: "edits_diff many path diff edits \<noteq> None"
proof (induction edits arbitrary: many path diff)
  case (Cons edit edits)
  show ?case using Cons two_sides_total
    by (simp add: Let_def del: not_None_eq split: option.split)
qed simp

lemma edit_preview_total: "edit_preview_of dec_edits dec_write name arguments \<noteq> None"
  using edits_diff_total by (simp add: edit_preview_of_def del: not_None_eq edits_diff.simps split: option.split list.split prod.split)

end
