(* ===== verification/Gate.thy ===== *)
theory Gate
  imports Approval
begin

text \<open>
  The tool gate of a session (\<^verbatim>\<open>crates/qq-core/src/sessions/approvals.rs\<close>, \<open>SessionToolGate::resolve\<close>):
  the decision on a call from the policy of its session and of every session above it, and the wait
  for the user. The replies of the store and the end of the wait are a parameter, \<open>replies\<close>; what the
  gate does to them is its trace.
\<close>

section \<open>Decisions, replies and effects\<close>

datatype run_failure_kind =
    InvalidCommand | Configuration | Authentication | Policy | Server | ContextSource
  | ProviderConfiguration | ProviderAuthentication | ProviderRateLimited | ProviderInvalidRequest
  | ProviderContextExceeded | ProviderUnavailable | ProviderTransport | ProviderApi | ProviderResponse
  | ProviderProtocol | ProviderOutputTruncated

datatype gate_decision =
    GateExecute
  | GateDeny string
  | GateAnswered string
  | GateFail run_failure_kind string

datatype session_error = OutputTooLarge | OtherError string

datatype shell_verdict = VerdictAllow | VerdictPrompt | VerdictForbidden

record shell_preview =
  sp_command :: string
  sp_cwd :: "string option"
  sp_verdict :: "shell_verdict option"
  sp_reasons :: "string list"

record approval_previews =
  ap_shell :: "shell_preview option"
  ap_edit :: "edit_preview option"
  ap_question :: "question list option"
  ap_fetch :: "fetch_preview option"

datatype concluded = Approved | Denied string | Answered string | StillWaiting

text \<open>How the wait for an answer ends: the run is cancelled, the approval is resolved, or its signal is
  lost or the deadline passes.\<close>

datatype wait_end = WaitCancelled | WaitResolved | WaitTimedOut

record replies =
  rp_policy :: "(session_error, approval_mode \<times> approval_mode list) result"
  rp_deny :: "string \<Rightarrow> (session_error, unit) result"
  rp_request :: "approval_previews \<Rightarrow> (session_error, unit) result"
  rp_wait :: wait_end
  rp_conclude :: "bool \<Rightarrow> (session_error, concluded) result"
  rp_admitted :: bool

datatype gate_effect =
    PersistDenial string
  | Register
  | Suspend
  | Request approval_previews
  | Unregister
  | Conclude bool
  | Resume
  | Reacquire

definition approval_persistence_failure :: "session_error \<Rightarrow> gate_decision" where
  "approval_persistence_failure e =
     (case e of
        OutputTooLarge \<Rightarrow> GateFail Policy (''the tool result would exceed the run'' @ [CHR 0x27] @ ''s context capacity'')
      | OtherError m \<Rightarrow> GateFail Server (''tool approval state could not be persisted: '' @ m))"

definition PARENT_DENIED_RESULT :: string where
  "PARENT_DENIED_RESULT = denial ''mode'' (''this child action is outside its parent'' @ [CHR 0x27] @ ''s permissions'')
     ''use an operation the parent allows, or report what you need''"

definition SHELL_PREFIX_DENIED_RESULT :: string where
  "SHELL_PREFIX_DENIED_RESULT = denial ''config'' ''the command matches a deny_shell_prefixes entry''
     ''continue with a command the configuration allows''"

definition UNATTENDED_QUESTION_RESULT :: string where
  "UNATTENDED_QUESTION_RESULT = ''No user is available to answer questions in this run; decide without asking.''"

section \<open>The wait for the user\<close>

text \<open>Denials are recorded before they are returned.\<close>

definition deny_call :: "replies \<Rightarrow> string \<Rightarrow> gate_decision \<times> gate_effect list" where
  "deny_call rp message =
     (case rp_deny rp message of
        Inr _ \<Rightarrow> GateDeny message
      | Inl e \<Rightarrow> approval_persistence_failure e,
      [PersistDenial message])"

definition conclude :: "replies \<Rightarrow> bool \<Rightarrow> gate_decision" where
  "conclude rp timed_out =
     (case rp_conclude rp timed_out of
        Inr Approved \<Rightarrow> GateExecute
      | Inr (Denied message) \<Rightarrow> GateDeny message
      | Inr (Answered result) \<Rightarrow> GateAnswered result
      | Inr StillWaiting \<Rightarrow> GateFail Server ''tool approval resolution disappeared before it could be applied''
      | Inl e \<Rightarrow> approval_persistence_failure e)"

text \<open>
  Registers the approval, gives up the permit of the run, asks, waits and concludes. The hold on the
  permit is dropped on every path, which resumes the run; on the paths that go on, the permit is
  acquired again first.
\<close>

definition await_answer :: "replies \<Rightarrow> approval_previews \<Rightarrow> string \<Rightarrow> gate_decision \<times> gate_effect list" where
  "await_answer rp previews stopped =
     (let hold = (if rp_admitted rp then [Suspend] else []);
          drop_hold = (if rp_admitted rp then [Resume] else []);
          asked = [Register] @ hold @ [Request previews]
      in case rp_request rp previews of
           Inl e \<Rightarrow> (approval_persistence_failure e, asked @ [Unregister] @ drop_hold)
         | Inr _ \<Rightarrow>
             if rp_wait rp = WaitCancelled then (GateDeny stopped, asked @ [Unregister] @ drop_hold)
             else (let timed_out = (rp_wait rp = WaitTimedOut)
                   in (conclude rp timed_out,
                       asked @ [Unregister, Conclude timed_out] @ drop_hold
                       @ (if rp_admitted rp then [Reacquire] else []))))"

definition STOPPED_QUESTION :: string where
  "STOPPED_QUESTION = ''The run stopped before this question was answered.''"

definition STOPPED_APPROVAL :: string where
  "STOPPED_APPROVAL = ''The run stopped before this approval was resolved.''"

section \<open>The decision\<close>

record tool_call =
  tc_effect :: effect_class
  tc_name :: string
  tc_arguments :: string

text \<open>What the gate is created with, and the parameters of the policy.\<close>

record 'v gate_context =
  gc_windows :: bool
  gc_decoders :: "'v decoders"
  gc_edits :: "string \<Rightarrow> edit_argument list option"
  gc_write :: "string \<Rightarrow> (string \<times> string) option"
  gc_env :: "string \<Rightarrow> string option"
  gc_parse :: parser
  gc_network :: network_policy
  gc_deny_prefixes :: "string list"

definition gate_class :: "'v gate_context \<Rightarrow> tool_call \<Rightarrow> tool_class" where
  "gate_class ctx call =
     classify (gc_windows ctx) (gc_decoders ctx) (tc_effect call) (tc_name call) (tc_arguments call) (gc_network ctx)"

abbreviation gate_evaluate :: "'v gate_context \<Rightarrow> approval_mode \<Rightarrow> tool_class \<Rightarrow> policy_decision" where
  "gate_evaluate ctx \<equiv> evaluate (gc_env ctx) (gc_parse ctx)"

definition prefix_denied :: "'v gate_context \<Rightarrow> tool_class \<Rightarrow> bool" where
  "prefix_denied ctx c =
     (case c of
        ClassShell command _ _ \<Rightarrow> shell_prefix_denied (gc_parse ctx) command (gc_deny_prefixes ctx)
      | _ \<Rightarrow> False)"

text \<open>The loop over the modes of the sessions above: the message of the first one that denies, or the mode
  that is left.\<close>

fun ancestors_loop ::
  "'v gate_context \<Rightarrow> tool_class \<Rightarrow> bool \<Rightarrow> approval_mode \<Rightarrow> approval_mode list \<Rightarrow> (string, approval_mode) result" where
  "ancestors_loop ctx c auto_ceiling mode [] = Ok mode"
| "ancestors_loop ctx c auto_ceiling mode (parent # parents) =
     (case gate_evaluate ctx parent c of
        Execute \<Rightarrow> ancestors_loop ctx c auto_ceiling mode parents
      | AskUser _ \<Rightarrow> ancestors_loop ctx c auto_ceiling mode parents
      | RequireApproval \<Rightarrow>
          if parent = AskMode \<and> \<not> auto_ceiling
          then ancestors_loop ctx c auto_ceiling (if mode \<noteq> ReadOnlyMode then AskMode else mode) parents
          else Err PARENT_DENIED_RESULT
      | Deny reason \<Rightarrow> Err (deny_result reason))"

text \<open>What the user is shown. The preview of an edit is total (\<open>edit_preview_total\<close>), so its panic branch is
  never taken.\<close>

definition approval_previews_of :: "'v gate_context \<Rightarrow> tool_call \<Rightarrow> tool_class \<Rightarrow> approval_previews" where
  "approval_previews_of ctx call c =
     \<lparr>ap_shell = (case c of 
          ClassShell command cwd _ \<Rightarrow>
            Some \<lparr>sp_command = command, sp_cwd = cwd, sp_verdict = None, sp_reasons = []\<rparr>
        | _ \<Rightarrow> None),
      ap_edit = (case edit_preview_of (gc_edits ctx) (gc_write ctx) (tc_name call) (tc_arguments call) of
          Some p \<Rightarrow> p | None \<Rightarrow> None),
      ap_question = None,
      ap_fetch = (case c of
          ClassNetwork (Some host) _ \<Rightarrow> preview (dec_fetch (gc_decoders ctx)) (tc_arguments call) host
        | _ \<Rightarrow> None)\<rparr>"

definition gate_resolve :: "'v gate_context \<Rightarrow> tool_call \<Rightarrow> replies \<Rightarrow> gate_decision \<times> gate_effect list" where
  "gate_resolve ctx call rp =
     (case rp_policy rp of
        Inl e \<Rightarrow> (approval_persistence_failure e, [])
      | Inr (mode, ancestors) \<Rightarrow>
          (let c = gate_class ctx call;
               auto_ceiling = (mode = AutoMode \<or> AutoMode \<in> set ancestors)
           in if prefix_denied ctx c then deny_call rp SHELL_PREFIX_DENIED_RESULT
              else if auto_ceiling \<and> (\<exists>q. c = ClassInteractive (Some q)) then deny_call rp UNATTENDED_QUESTION_RESULT
              else (case ancestors_loop ctx c auto_ceiling mode ancestors of
                      Inl message \<Rightarrow> deny_call rp message
                    | Inr mode' \<Rightarrow>
                        (case (case gate_evaluate ctx mode' c of
                                 RequireApproval \<Rightarrow> if auto_ceiling then Deny OutOfScope else RequireApproval
                               | d \<Rightarrow> d) of
                           Execute \<Rightarrow> (GateExecute, [])
                         | Deny reason \<Rightarrow> deny_call rp (deny_result reason)
                         | AskUser q \<Rightarrow>
                             await_answer rp \<lparr>ap_shell = None, ap_edit = None, ap_question = Some q, ap_fetch = None\<rparr>
                               STOPPED_QUESTION
                         | RequireApproval \<Rightarrow> await_answer rp (approval_previews_of ctx call c) STOPPED_APPROVAL))))"

section \<open>A child never does what its parents may not\<close>

lemma decision_rank_bounds [simp]:
  "decision_rank d \<le> 2" "decision_rank d = 0 \<longleftrightarrow> (\<exists>r. d = Deny r)" "2 \<le> decision_rank d \<longleftrightarrow> d = Execute"
  by (cases d; simp)+

lemma evaluate_question:
  assumes "evaluate env parse m c = AskUser q"
  shows "c = ClassInteractive (Some q)" and "evaluate env parse m' c = AskUser q"
  using assms
  by (auto simp: evaluate_def class_stop_def class_refusal_def mode_decision_def
      split: option.splits tool_class.splits approval_mode.splits if_splits)

text \<open>The mode the loop leaves permits no more than any of the modes it went over.\<close>

lemma ancestors_loop_lowers:
  "ancestors_loop ctx c auto_ceiling mode parents = Ok mode' \<Longrightarrow> mode' \<le> mode"
proof (induction parents arbitrary: mode)
  case (Cons parent parents)
  show ?case
  proof (cases "gate_evaluate ctx parent c")
    case RequireApproval
    then have "ancestors_loop ctx c auto_ceiling (if mode \<noteq> ReadOnlyMode then AskMode else mode) parents = Ok mode'"
      using Cons.prems by (simp split: if_splits)
    then have "mode' \<le> (if mode \<noteq> ReadOnlyMode then AskMode else mode)" by (rule Cons.IH)
    also have "\<dots> \<le> mode" by (cases mode) (simp_all add: less_eq_approval_mode_def)
    finally show ?thesis .
  qed (use Cons.prems in \<open>simp_all add: Cons.IH\<close>)
qed simp

lemma ancestors_loop_meet:
  "ancestors_loop ctx c auto_ceiling mode parents = Ok mode' \<Longrightarrow> m \<in> set parents
   \<Longrightarrow> decision_rank (gate_evaluate ctx mode' c) \<le> decision_rank (gate_evaluate ctx m c)
     \<and> 0 < decision_rank (gate_evaluate ctx m c)"
proof (induction parents arbitrary: mode)
  case (Cons parent parents)
  show ?case
  proof (cases "m \<in> set parents")
    case True
    then show ?thesis
      using Cons.prems(1) Cons.IH by (auto split: policy_decision.splits if_splits)
  next
    case False
    then have m: "m = parent" using Cons.prems(2) by simp
    show ?thesis
    proof (cases "gate_evaluate ctx parent c")
      case RequireApproval
      then have parent: "parent = AskMode"
        and "ancestors_loop ctx c auto_ceiling (if mode \<noteq> ReadOnlyMode then AskMode else mode) parents = Ok mode'"
        using Cons.prems(1) by (simp_all split: if_splits)
      then have "mode' \<le> (if mode \<noteq> ReadOnlyMode then AskMode else mode)"
        by (intro ancestors_loop_lowers)
      then have "mode' \<le> parent" by (auto simp: parent less_eq_approval_mode_def split: if_splits)
      then have "decision_rank (gate_evaluate ctx mode' c) \<le> decision_rank (gate_evaluate ctx parent c)"
        by (rule evaluate_rank_mono)
      then show ?thesis using RequireApproval by (simp add: m)
    next
      case (AskUser q)
      then show ?thesis using evaluate_question(2) [OF AskUser] by (simp add: m)
    qed (use Cons.prems(1) in \<open>simp_all add: m\<close>)
  qed
qed simp

text \<open>The call runs after a wait only when the store concluded that it was approved.\<close>

definition was_approved :: "replies \<Rightarrow> gate_effect list \<Rightarrow> bool" where
  "was_approved rp trace \<longleftrightarrow>
     (\<exists>timed_out. Conclude timed_out \<in> set trace \<and> rp_conclude rp timed_out = Ok Approved)"

lemma await_answer_approved:
  "await_answer rp previews stopped = (GateExecute, trace)
   \<Longrightarrow> Request previews \<in> set trace \<and> was_approved rp trace"
  by (auto simp: await_answer_def was_approved_def conclude_def approval_persistence_failure_def Let_def
      split: sum.splits concluded.splits session_error.splits if_splits)

lemma deny_call_not_executed [simp]: "deny_call rp message \<noteq> (GateExecute, trace)"
  by (auto simp: deny_call_def approval_persistence_failure_def split: sum.splits session_error.splits)

lemma gate_resolve_executed:
  assumes "gate_resolve ctx call rp = (GateExecute, trace)" and "rp_policy rp = Ok (mode, ancestors)"
  obtains mode' where
    "\<not> prefix_denied ctx (gate_class ctx call)"
    "ancestors_loop ctx (gate_class ctx call) (mode = AutoMode \<or> AutoMode \<in> set ancestors) mode ancestors = Ok mode'"
    "gate_evaluate ctx mode' (gate_class ctx call) = Execute \<and> trace = []
     \<or> decision_rank (gate_evaluate ctx mode' (gate_class ctx call)) = 1
       \<and> \<not> (mode = AutoMode \<or> AutoMode \<in> set ancestors) \<and> was_approved rp trace"
proof -
  define c where "c = gate_class ctx call"
  define auto where "auto = (mode = AutoMode \<or> AutoMode \<in> set ancestors)"
  note resolve = assms(1) [unfolded gate_resolve_def assms(2) Let_def sum.case prod.case,
      folded c_def, folded auto_def]
  from resolve have free: "\<not> prefix_denied ctx c" and asked: "\<not> (auto \<and> (\<exists>q. c = ClassInteractive (Some q)))"
    by (auto split: if_splits)
  note resolve' = resolve [unfolded if_not_P [OF free] if_not_P [OF asked]]
  obtain mode' where loop: "ancestors_loop ctx c auto mode ancestors = Ok mode'"
    using resolve' by (cases "ancestors_loop ctx c auto mode ancestors") simp_all
  have "gate_evaluate ctx mode' c = Execute \<and> trace = []
     \<or> decision_rank (gate_evaluate ctx mode' c) = 1 \<and> \<not> auto \<and> was_approved rp trace"
  proof (cases "gate_evaluate ctx mode' c")
    case (AskUser q)
    then have "\<not> auto" using asked evaluate_question(1) by blast
    then show ?thesis using resolve' loop AskUser by (simp add: await_answer_approved)
  next
    case RequireApproval
    then show ?thesis using resolve' loop by (auto dest: await_answer_approved split: if_splits)
  qed (use resolve' loop in simp_all)
  with free loop show thesis by (auto simp: c_def auto_def intro: that)
qed

text \<open>C38 (safety). A tool call runs only within the policy of its session and of every session above it:
  its command matches no denied prefix, no mode on the way up denies it, and where some mode on the way up
  would not run it unasked, the store concluded that it was approved. When one of the sessions is
  unattended (\<open>Auto\<close>), nothing is waited for: every mode runs the call by itself.\<close>

theorem gate_within_policy:
  assumes "gate_resolve ctx call rp = (GateExecute, trace)"
    and "rp_policy rp = Ok (mode, ancestors)" and "m \<in> set (mode # ancestors)"
  shows "\<not> prefix_denied ctx (gate_class ctx call)
    \<and> (\<forall>r. gate_evaluate ctx m (gate_class ctx call) \<noteq> Deny r)
    \<and> (gate_evaluate ctx m (gate_class ctx call) = Execute \<or> was_approved rp trace)
    \<and> (AutoMode \<in> set (mode # ancestors) \<longrightarrow>
         gate_evaluate ctx m (gate_class ctx call) = Execute \<and> trace = [])"
proof -
  let ?c = "gate_class ctx call"
  from assms(1,2) obtain mode' where
    free: "\<not> prefix_denied ctx ?c" and
    loop: "ancestors_loop ctx ?c (mode = AutoMode \<or> AutoMode \<in> set ancestors) mode ancestors = Ok mode'" and
    ran: "gate_evaluate ctx mode' ?c = Execute \<and> trace = []
      \<or> decision_rank (gate_evaluate ctx mode' ?c) = 1 \<and> \<not> (mode = AutoMode \<or> AutoMode \<in> set ancestors)
        \<and> was_approved rp trace"
    by (rule gate_resolve_executed)
  have "decision_rank (gate_evaluate ctx mode' ?c) \<le> decision_rank (gate_evaluate ctx m ?c)"
    using assms(3) ancestors_loop_lowers [OF loop] ancestors_loop_meet [OF loop]
    by (auto intro: evaluate_rank_mono)
  with ran have "0 < decision_rank (gate_evaluate ctx m ?c)"
    and "gate_evaluate ctx mode' ?c = Execute \<Longrightarrow> gate_evaluate ctx m ?c = Execute"
    by (cases "gate_evaluate ctx m ?c"; fastforce)+
  with free ran show ?thesis by auto
qed

text \<open>A child session in mode \<open>Full\<close> below one in mode \<open>Ask\<close> edits a file, and the user approves it.\<close>

definition demo_decoders :: "unit decoders" where
  "demo_decoders = \<lparr>dec_spawn = \<lambda>_. None, dec_exec = \<lambda>_. None, dec_shell = \<lambda>_. None,
     dec_ask = \<lambda>_. Inl [], dec_fetch = \<lambda>_. None, dec_env = demo_env\<rparr>"

definition demo_context :: "unit gate_context" where
  "demo_context = \<lparr>gc_windows = False, gc_decoders = demo_decoders, gc_edits = \<lambda>_. None,
     gc_write = \<lambda>_. Some (''a.txt'', ''b''), gc_env = \<lambda>_. None, gc_parse = sudo_parse,
     gc_network = NetworkPolicy_default, gc_deny_prefixes = []\<rparr>"

definition demo_call :: tool_call where
  "demo_call = \<lparr>tc_effect = EffMutating, tc_name = ''write_file'', tc_arguments = ''{}''\<rparr>"

definition demo_replies :: replies where
  "demo_replies = \<lparr>rp_policy = Ok (FullMode, [AskMode]), rp_deny = \<lambda>_. Ok (), rp_request = \<lambda>_. Ok (),
     rp_wait = WaitResolved, rp_conclude = \<lambda>_. Ok Approved, rp_admitted = True\<rparr>"

lemma demo_class: "gate_class demo_context demo_call = ClassMutating"
  by (simp add: gate_class_def demo_call_def classify_def)

lemma demo_evaluate:
  "gate_evaluate demo_context AskMode ClassMutating = RequireApproval"
  by (simp add: evaluate_def class_stop_def class_refusal_def mode_decision_def)

lemma demo_resolve:
  "gate_resolve demo_context demo_call demo_replies =
     (GateExecute,
      [Register, Suspend, Request (approval_previews_of demo_context demo_call ClassMutating), Unregister,
       Conclude False, Resume, Reacquire])"
proof -
  have "rp_policy demo_replies = Ok (FullMode, [AskMode])"
    and "await_answer demo_replies previews stopped = (GateExecute,
        [Register, Suspend, Request previews, Unregister, Conclude False, Resume, Reacquire])" for previews stopped
    by (simp_all add: demo_replies_def await_answer_def conclude_def)
  then show ?thesis
    by (simp add: gate_resolve_def Let_def demo_class demo_evaluate prefix_denied_def)
qed

theorem gate_within_policy_witness:
  "gate_evaluate demo_context AskMode ClassMutating = RequireApproval
   \<and> was_approved demo_replies (snd (gate_resolve demo_context demo_call demo_replies))"
proof -
  have "rp_policy demo_replies = Ok (FullMode, [AskMode])" by (simp add: demo_replies_def)
  from gate_within_policy [OF demo_resolve this, of AskMode] show ?thesis
    by (simp add: demo_class demo_evaluate demo_resolve)
qed

end
