(* ===== verification/Admission.thy ===== *)
theory Admission
  imports Main
begin

text \<open>
  The admission of runs (\<^verbatim>\<open>crates/qq-core/src/sessions/scheduler.rs\<close>, \<open>RunAdmission\<close>): a run holds a
  permit of its pool while it is active, gives it back while it waits for the user, and gets one again
  before it goes on. Every method runs under the lock of the admission, so a method is one step.

  The semaphore (tokio) is a parameter, the record of its operations; what its documentation promises
  is the locale \<open>semaphore\<close>. A waiting future is named by the run that owns it.
\<close>

section \<open>The semaphore\<close>

text \<open>
  \<open>sem_try\<close> takes a permit when one is free; \<open>sem_poll\<close> polls the acquire future of a run, creating it at
  the first poll, and tells whether it got its permit; \<open>sem_release\<close> drops a permit; \<open>sem_abandon\<close> drops
  the future of a run that has not got its permit.
\<close>

record ('r, 's) sem =
  sem_try :: "'s \<Rightarrow> 's option"
  sem_poll :: "'r \<Rightarrow> 's \<Rightarrow> 's \<times> bool"
  sem_release :: "'s \<Rightarrow> 's"
  sem_abandon :: "'r \<Rightarrow> 's \<Rightarrow> 's"

text \<open>\<open>held s\<close> permits are with callers, never more than the capacity.\<close>

locale semaphore =
  fixes ops :: "('r, 's) sem" and start :: 's and cap :: nat and held :: "'s \<Rightarrow> nat" and ok :: "'s \<Rightarrow> bool"
  assumes ok_start: "ok start" and held_start: "held start = 0"
    and ok_try: "ok s \<Longrightarrow> sem_try ops s = Some s' \<Longrightarrow> ok s'"
    and held_try: "ok s \<Longrightarrow> sem_try ops s = Some s' \<Longrightarrow> held s' = held s + 1"
    and ok_poll: "ok s \<Longrightarrow> sem_poll ops r s = (s', b) \<Longrightarrow> ok s'"
    and held_poll: "ok s \<Longrightarrow> sem_poll ops r s = (s', b) \<Longrightarrow> held s' = (if b then held s + 1 else held s)"
    and ok_release: "ok s \<Longrightarrow> 0 < held s \<Longrightarrow> ok (sem_release ops s)"
    and held_release: "ok s \<Longrightarrow> 0 < held s \<Longrightarrow> held (sem_release ops s) = held s - 1"
    and ok_abandon: "ok s \<Longrightarrow> ok (sem_abandon ops r s)"
    and held_abandon: "ok s \<Longrightarrow> held (sem_abandon ops r s) = held s"
    and held_bounded: "ok s \<Longrightarrow> held s \<le> cap"

section \<open>The admissions of a pool\<close>

datatype admission_state = Active | Waiting | Resuming

record ('r, 's) admissions =
  ad_pool :: 's
  ad_runs :: "'r \<Rightarrow> admission_state option"

definition initial :: "'s \<Rightarrow> ('r, 's) admissions" where
  "initial s = \<lparr>ad_pool = s, ad_runs = (\<lambda>_. None)\<rparr>"

text \<open>What the old state of an admission gives back when it is replaced.\<close>

definition drop_state :: "('r, 's) sem \<Rightarrow> 'r \<Rightarrow> admission_state option \<Rightarrow> 's \<Rightarrow> 's" where
  "drop_state ops r st s =
     (case st of
        Some Active \<Rightarrow> sem_release ops s
      | Some Resuming \<Rightarrow> sem_abandon ops r s
      | _ \<Rightarrow> s)"

definition set_run :: "'r \<Rightarrow> admission_state option \<Rightarrow> 's \<Rightarrow> ('r, 's) admissions \<Rightarrow> ('r, 's) admissions" where
  "set_run r st s a = a\<lparr>ad_pool := s, ad_runs := (ad_runs a)(r := st)\<rparr>"

text \<open>The scheduler takes a permit without waiting, reserves a run and registers it; a permit for which
  there is no run to reserve is dropped at once, which changes nothing.\<close>

definition admit_run :: "('r, 's) sem \<Rightarrow> 'r \<Rightarrow> ('r, 's) admissions \<Rightarrow> ('r, 's) admissions option" where
  "admit_run ops r a = map_option (\<lambda>s. set_run r (Some Active) s a) (sem_try ops (ad_pool a))"

definition suspend :: "('r, 's) sem \<Rightarrow> 'r \<Rightarrow> ('r, 's) admissions \<Rightarrow> ('r, 's) admissions" where
  "suspend ops r a = set_run r (Some Waiting) (drop_state ops r (ad_runs a r) (ad_pool a)) a"

definition poll_run :: "('r, 's) sem \<Rightarrow> 'r \<Rightarrow> ('r, 's) admissions \<Rightarrow> ('r, 's) admissions" where
  "poll_run ops r a =
     (let (s, got) = sem_poll ops r (ad_pool a) in set_run r (Some (if got then Active else Resuming)) s a)"

definition resume :: "('r, 's) sem \<Rightarrow> 'r \<Rightarrow> ('r, 's) admissions \<Rightarrow> ('r, 's) admissions" where
  "resume ops r a = (if ad_runs a r = Some Waiting then poll_run ops r a else a)"

text \<open>\<open>poll_ready\<close>: the new state and whether the run may be polled.\<close>

definition poll_ready :: "('r, 's) sem \<Rightarrow> 'r \<Rightarrow> ('r, 's) admissions \<Rightarrow> ('r, 's) admissions \<times> bool" where
  "poll_ready ops r a =
     (if ad_runs a r = Some Resuming
      then let a' = poll_run ops r a in (a', ad_runs a' r = Some Active)
      else (a, True))"

text \<open>The end of a run: its admission is removed and dropped.\<close>

definition finish :: "('r, 's) sem \<Rightarrow> 'r \<Rightarrow> ('r, 's) admissions \<Rightarrow> ('r, 's) admissions" where
  "finish ops r a = set_run r None (drop_state ops r (ad_runs a r) (ad_pool a)) a"

text \<open>The steps of a pool. A run is reserved once, so it is new when it is admitted.\<close>

inductive step :: "('r, 's) sem \<Rightarrow> ('r, 's) admissions \<Rightarrow> ('r, 's) admissions \<Rightarrow> bool" for ops where
  step_admit: "ad_runs a r = None \<Longrightarrow> admit_run ops r a = Some a' \<Longrightarrow> step ops a a'"
| step_suspend: "ad_runs a r \<noteq> None \<Longrightarrow> step ops a (suspend ops r a)"
| step_resume: "ad_runs a r \<noteq> None \<Longrightarrow> step ops a (resume ops r a)"
| step_poll: "ad_runs a r \<noteq> None \<Longrightarrow> step ops a (fst (poll_ready ops r a))"
| step_finish: "ad_runs a r \<noteq> None \<Longrightarrow> step ops a (finish ops r a)"

inductive_cases step_cases: "step ops a a'"

section \<open>The abstract pool\<close>

text \<open>What the scheduler promises of a pool, told by the set of the active runs alone: a run that is not
  active becomes active only while fewer than \<open>cap\<close> are, and an active one may stop at any time.\<close>

inductive pool_step :: "nat \<Rightarrow> 'r set \<Rightarrow> 'r set \<Rightarrow> bool" for cap where
  pool_stay: "pool_step cap A A"
| pool_enter: "r \<notin> A \<Longrightarrow> card A < cap \<Longrightarrow> pool_step cap A (insert r A)"
| pool_leave: "pool_step cap A (A - {r})"

section \<open>Permits and active runs\<close>

definition active :: "('r, 's) admissions \<Rightarrow> 'r set" where
  "active a = {r. ad_runs a r = Some Active}"

lemma active_set_run:
  "active (set_run r st s a) = (if st = Some Active then insert r (active a) else active a - {r})"
  by (auto simp: active_def set_run_def)

lemma pool_set_run [simp]: "ad_pool (set_run r st s a) = s"
  by (simp add: set_run_def)

context semaphore
begin

text \<open>Every permit a caller holds is with exactly one active run.\<close>

definition balanced :: "('r, 's) admissions \<Rightarrow> bool" where
  "balanced a \<longleftrightarrow> ok (ad_pool a) \<and> finite (active a) \<and> held (ad_pool a) = card (active a)"

lemma balanced_initial: "balanced (initial start)"
  by (simp add: balanced_def initial_def active_def ok_start held_start)

lemma drop_balanced:
  assumes "balanced a" and "st \<noteq> Some Active"
  shows "balanced (set_run r st (drop_state ops r (ad_runs a r) (ad_pool a)) a)"
proof (cases "ad_runs a r = Some Active")
  case True
  then have r: "r \<in> active a" by (simp add: active_def)
  then have pos: "0 < held (ad_pool a)" using assms(1) card_gt_0_iff by (auto simp: balanced_def)
  then show ?thesis
    using True r assms ok_release held_release
    by (simp add: balanced_def active_set_run drop_state_def)
next
  case False
  then have "r \<notin> active a" by (simp add: active_def)
  then show ?thesis
    using False assms ok_abandon held_abandon
    by (cases "ad_runs a r")
      (auto simp: balanced_def active_set_run drop_state_def split: admission_state.splits)
qed

lemma poll_balanced:
  assumes "balanced a" and "ad_runs a r \<noteq> Some Active"
  shows "balanced (poll_run ops r a)"
proof -
  have r: "r \<notin> active a" using assms(2) by (simp add: active_def)
  obtain s got where p: "sem_poll ops r (ad_pool a) = (s, got)" by (metis surj_pair)
  have "ok s" "held s = (if got then held (ad_pool a) + 1 else held (ad_pool a))"
    using ok_poll [OF _ p] held_poll [OF _ p] assms(1) by (auto simp: balanced_def)
  then show ?thesis
    using r assms(1) p by (auto simp: balanced_def poll_run_def active_set_run)
qed

lemma admit_balanced:
  assumes "balanced a" and "ad_runs a r = None" and "admit_run ops r a = Some a'"
  shows "balanced a'"
proof -
  obtain s where s: "sem_try ops (ad_pool a) = Some s" and a': "a' = set_run r (Some Active) s a"
    using assms(3) by (auto simp: admit_run_def)
  have "r \<notin> active a" using assms(2) by (simp add: active_def)
  then show ?thesis
    using assms(1) ok_try [OF _ s] held_try [OF _ s]
    by (auto simp: balanced_def a' active_set_run)
qed

lemma step_balanced: "step ops a a' \<Longrightarrow> balanced a \<Longrightarrow> balanced a'"
proof (induction rule: step.induct)
  case (step_poll a r)
  then show ?case using poll_balanced by (auto simp: poll_ready_def Let_def)
next
  case (step_resume a r)
  then show ?case using poll_balanced by (auto simp: resume_def)
qed (auto simp: suspend_def finish_def intro: drop_balanced admit_balanced)

lemma reachable_balanced: "(step ops)\<^sup>*\<^sup>* (initial start) a \<Longrightarrow> balanced a"
  by (induction rule: rtranclp_induct) (auto intro: balanced_initial step_balanced)

lemma balanced_room:
  assumes "balanced a'" and "active a' = insert r A" and "r \<notin> A"
  shows "card A < cap"
proof -
  have "finite (active a')" "card (active a') \<le> cap"
    using assms(1) held_bounded [of "ad_pool a'"] by (simp_all add: balanced_def)
  then show ?thesis using assms(2,3) by simp
qed

text \<open>A change of the state of one run is a step of the abstract pool, when permits stay balanced.\<close>

lemma set_run_refines:
  assumes "balanced (set_run r st s a)"
  shows "pool_step cap (active a) (active (set_run r st s a))"
proof (cases "st = Some Active \<and> r \<notin> active a")
  case True
  then have "active (set_run r st s a) = insert r (active a)" by (simp add: active_set_run)
  then show ?thesis using True balanced_room [OF assms] by (simp add: pool_enter)
next
  case False
  then show ?thesis by (auto simp: active_set_run insert_absorb intro: pool_stay pool_leave)
qed

lemma step_refines: "step ops a a' \<Longrightarrow> balanced a \<Longrightarrow> pool_step cap (active a) (active a')"
proof (frule (1) step_balanced, erule step_cases, goal_cases)
  case (1 r)
  then show ?case by (auto simp: admit_run_def intro: set_run_refines)
next
  case (3 r)
  then show ?case by (auto simp: resume_def poll_run_def Let_def intro: set_run_refines pool_stay split: prod.splits)
next
  case (4 r)
  then show ?case
    by (auto simp: poll_ready_def poll_run_def Let_def intro: set_run_refines pool_stay split: prod.splits)
qed (auto simp: suspend_def finish_def intro: set_run_refines)

lemma reachable_refines: "(step ops)\<^sup>*\<^sup>* (initial start) a \<Longrightarrow> (pool_step cap)\<^sup>*\<^sup>* {} (active a)"
proof (induction rule: rtranclp_induct)
  case base
  then show ?case by (simp add: initial_def active_def)
next
  case (step a a')
  then show ?case using step_refines reachable_balanced by (meson rtranclp.rtrancl_into_rtrancl)
qed

lemma reachable_bounded:
  "(step ops)\<^sup>*\<^sup>* (initial start) a \<Longrightarrow> card (active a) = held (ad_pool a) \<and> card (active a) \<le> cap"
  using reachable_balanced held_bounded by (force simp: balanced_def)

end

section \<open>A fair semaphore\<close>

text \<open>
  A semaphore that serves its waiters in order: free permits, the queue of waiting futures, the
  futures a permit is assigned to that have not been polled since, and the permits with callers.
\<close>

record 'r fifo =
  ff_free :: nat
  ff_queue :: "'r list"
  ff_assigned :: "'r list"
  ff_held :: nat

definition fifo_start :: "nat \<Rightarrow> 'r fifo" where
  "fifo_start cap = \<lparr>ff_free = cap, ff_queue = [], ff_assigned = [], ff_held = 0\<rparr>"

text \<open>A permit that comes back goes to the first waiter, or becomes free.\<close>

definition fifo_give :: "'r fifo \<Rightarrow> 'r fifo" where
  "fifo_give s =
     (case ff_queue s of
        [] \<Rightarrow> s\<lparr>ff_free := ff_free s + 1\<rparr>
      | r # rs \<Rightarrow> s\<lparr>ff_queue := rs, ff_assigned := ff_assigned s @ [r]\<rparr>)"

definition fifo_poll :: "'r \<Rightarrow> 'r fifo \<Rightarrow> 'r fifo \<times> bool" where
  "fifo_poll r s =
     (if r \<in> set (ff_assigned s)
      then (s\<lparr>ff_assigned := remove1 r (ff_assigned s), ff_held := ff_held s + 1\<rparr>, True)
      else if r \<in> set (ff_queue s) then (s, False)
      else if ff_free s > 0 then (s\<lparr>ff_free := ff_free s - 1, ff_held := ff_held s + 1\<rparr>, True)
      else (s\<lparr>ff_queue := ff_queue s @ [r]\<rparr>, False))"

definition fifo_try :: "'r fifo \<Rightarrow> 'r fifo option" where
  "fifo_try s = (if ff_free s > 0 then Some (s\<lparr>ff_free := ff_free s - 1, ff_held := ff_held s + 1\<rparr>) else None)"

definition fifo_release :: "'r fifo \<Rightarrow> 'r fifo" where
  "fifo_release s = fifo_give (s\<lparr>ff_held := ff_held s - 1\<rparr>)"

definition fifo_abandon :: "'r \<Rightarrow> 'r fifo \<Rightarrow> 'r fifo" where
  "fifo_abandon r s =
     (if r \<in> set (ff_assigned s) then fifo_give (s\<lparr>ff_assigned := remove1 r (ff_assigned s)\<rparr>)
      else s\<lparr>ff_queue := remove1 r (ff_queue s)\<rparr>)"

definition fifo_ops :: "('r, 'r fifo) sem" where
  "fifo_ops = \<lparr>sem_try = fifo_try, sem_poll = fifo_poll, sem_release = fifo_release, sem_abandon = fifo_abandon\<rparr>"

definition fifo_ok :: "nat \<Rightarrow> 'r fifo \<Rightarrow> bool" where
  "fifo_ok cap s \<longleftrightarrow> ff_free s + length (ff_assigned s) + ff_held s = cap"

lemma fifo_give_count:
  "ff_free (fifo_give s) + length (ff_assigned (fifo_give s)) = ff_free s + length (ff_assigned s) + 1"
  "ff_held (fifo_give s) = ff_held s"
  by (simp_all add: fifo_give_def split: list.splits)

lemma remove1_count: "r \<in> set xs \<Longrightarrow> Suc (length (remove1 r xs)) = length xs"
  by (simp add: length_remove1) (metis Suc_pred length_pos_if_in_set)

lemmas fifo_defs = fifo_ops_def fifo_ok_def fifo_try_def fifo_poll_def

interpretation fifo: semaphore fifo_ops "fifo_start cap" cap ff_held "fifo_ok cap" for cap
proof (unfold_locales, goal_cases)
  case (7 s)
  then show ?case
    using fifo_give_count [of "s\<lparr>ff_held := ff_held s - 1\<rparr>"] by (simp add: fifo_defs fifo_release_def)
next
  case (8 s)
  then show ?case using fifo_give_count [of "s\<lparr>ff_held := ff_held s - 1\<rparr>"] by (simp add: fifo_defs fifo_release_def)
next
  case (9 s r)
  then show ?case
    using fifo_give_count [of "s\<lparr>ff_assigned := remove1 r (ff_assigned s)\<rparr>"] remove1_count [of r "ff_assigned s"]
    by (auto simp: fifo_defs fifo_abandon_def)
next
  case (10 s r)
  then show ?case
    using fifo_give_count [of "s\<lparr>ff_assigned := remove1 r (ff_assigned s)\<rparr>"] by (simp add: fifo_defs fifo_abandon_def)
next
  case (5 s r s' b)
  then show ?case using remove1_count [of r "ff_assigned s"] by (auto simp: fifo_defs split: if_splits)
qed (auto simp: fifo_start_def fifo_defs split: if_splits)

text \<open>C40 (refinement). Whatever the order in which runs are admitted, suspended, resumed, polled and
  finished, the pool behaves like the abstract one, every permit that is out is with exactly one active
  run, and no more runs are active than the pool has permits.\<close>

theorem pool_refined:
  assumes "semaphore ops start cap held ok" and "(step ops)\<^sup>*\<^sup>* (initial start) a"
  shows "(pool_step cap)\<^sup>*\<^sup>* {} (active a) \<and> card (active a) = held (ad_pool a) \<and> card (active a) \<le> cap"
  using semaphore.reachable_refines [OF assms] semaphore.reachable_bounded [OF assms] by simp

theorem pool_refined_witness:
  "\<exists>a. (step fifo_ops)\<^sup>*\<^sup>* (initial (fifo_start 1)) a \<and> ad_runs a = [1 \<mapsto> Waiting, (2::nat) \<mapsto> Active]
     \<and> (pool_step 1)\<^sup>*\<^sup>* {} (active a) \<and> card (active a) = ff_held (ad_pool a) \<and> card (active a) \<le> 1"
proof -
  let ?a0 = "initial (fifo_start 1) :: (nat, nat fifo) admissions"
  define a1 where "a1 = set_run (1::nat) (Some Active) (fifo_start 1 \<lparr>ff_free := 0, ff_held := 1\<rparr>) ?a0"
  define a2 where "a2 = suspend fifo_ops 1 a1"
  define a3 where "a3 = set_run 2 (Some Active) (fifo_start 1 \<lparr>ff_free := 0, ff_held := 1\<rparr>) a2"
  have s1: "step fifo_ops ?a0 a1"
    by (rule step_admit [of _ 1]) (simp_all add: initial_def admit_run_def fifo_defs fifo_start_def a1_def)
  have s2: "step fifo_ops a1 a2"
    unfolding a2_def by (rule step_suspend) (simp add: a1_def set_run_def)
  have pool: "ad_pool a2 = fifo_start 1" "ad_runs a2 = [1 \<mapsto> Waiting]"
    by (simp_all add: a2_def a1_def suspend_def drop_state_def set_run_def initial_def fifo_ops_def fifo_release_def
        fifo_give_def fifo_start_def)
  have s3: "step fifo_ops a2 a3"
    by (rule step_admit [of _ 2]) (simp_all add: pool admit_run_def fifo_defs fifo_start_def a3_def)
  have reach: "(step fifo_ops)\<^sup>*\<^sup>* ?a0 a3"
    using s1 s2 s3 by (meson converse_rtranclp_into_rtranclp rtranclp.rtrancl_refl)
  have runs: "ad_runs a3 = [1 \<mapsto> Waiting, 2 \<mapsto> Active]" by (simp add: a3_def set_run_def pool)
  show ?thesis
    using pool_refined [OF fifo.semaphore_axioms reach] reach runs by blast
qed

end
