(* ===== verification/Journal.thy ===== *)
theory Journal
  imports Prelude
begin

text \<open>
  The event journal of the session store (\<^verbatim>\<open>crates/qq-core/src/sessions/events.rs\<close>): appending an event
  under the next sequence number of its workspace, the bounded retention, and reading a page after a
  cursor. Tables are records: \<open>jn_rows\<close> are the rows of \<open>events\<close> in the order of their rowids, \<open>jn_next\<close> is
  the column \<open>next_sequence\<close> of \<open>workspaces\<close>, \<open>jn_bytes\<close> and \<open>jn_count\<close> the single row of
  \<open>event_journal_usage\<close> that the triggers keep, and \<open>jn_runs\<close> the columns of \<open>runs\<close> an event touches.
  Encoding and decoding of JSON is a parameter. An operation that fails changes nothing: its unit of
  work is rolled back.
\<close>

section \<open>Events and tables\<close>

type_synonym ident = string

text \<open>The journal looks into two kinds of events only.\<close>

datatype 'e session_event = RunFinished ident 'e | Retired | OtherEvent 'e

record 'e envelope =
  en_store :: ident
  en_workspace :: ident
  en_sequence :: nat
  en_session :: ident
  en_run :: "ident option"
  en_caused_by :: "ident option"
  en_time :: nat
  en_event :: "'e session_event"

record event_context =
  cx_store :: ident
  cx_workspace :: ident
  cx_session :: ident
  cx_run :: "ident option"
  cx_caused_by :: "ident option"
  cx_time :: nat

record 'e published =
  pb_envelope :: "'e envelope"
  pb_json :: string

record 'e codec =
  cd_encode :: "'e envelope \<Rightarrow> string option"
  cd_decode :: "string \<Rightarrow> 'e envelope option"

text \<open>What is documented of the JSON of an event: what was written is read back.\<close>

definition codec_ok :: "'e codec \<Rightarrow> bool" where
  "codec_ok cd \<longleftrightarrow> (\<forall>e json. cd_encode cd e = Some json \<longrightarrow> cd_decode cd json = Some e)"

record journal_row =
  jr_workspace :: ident
  jr_sequence :: nat
  jr_json :: string

record run_row =
  rr_session :: ident
  rr_completion_sequence :: nat
  rr_completion_json :: "string option"

record journal =
  jn_next :: "ident \<Rightarrow> nat option"
  jn_rows :: "journal_row list"
  jn_bytes :: nat
  jn_count :: nat
  jn_runs :: "ident \<Rightarrow> run_row option"

datatype journal_error = WorkspaceNotFound | CursorExpired | EventTooLarge | Constraint | Encoding

section \<open>Retention\<close>

definition EVENT_JOURNAL_BYTES :: nat where "EVENT_JOURNAL_BYTES = 64 * 1024 * 1024"
definition EVENT_JOURNAL_ROWS :: nat where "EVENT_JOURNAL_ROWS = 65536"
definition MAX_PERSISTED_EVENT_BYTES :: nat where "MAX_PERSISTED_EVENT_BYTES = 1024 * 1024"

definition checked_sub :: "nat \<Rightarrow> nat \<Rightarrow> nat option" where
  "checked_sub a b = (if b \<le> a then Some (a - b) else None)"

definition row_bytes :: "journal_row list \<Rightarrow> nat" where
  "row_bytes rows = sum_list (map (\<lambda>r. length (jr_json r)) rows)"

text \<open>Deleting the first rows runs the trigger on each; a count below zero violates the check of the table.\<close>

definition delete_rows :: "nat \<Rightarrow> journal \<Rightarrow> (journal_error, journal) result" where
  "delete_rows n j =
     (case (checked_sub (jn_bytes j) (row_bytes (take n (jn_rows j))), checked_sub (jn_count j) (min n (length (jn_rows j)))) of
        (Some bytes, Some count) \<Rightarrow> Ok (j\<lparr>jn_rows := drop n (jn_rows j), jn_bytes := bytes, jn_count := count\<rparr>)
      | _ \<Rightarrow> Err Constraint)"

text \<open>The inner loop over one page of rows: what is left of both totals and how many rows go.\<close>

fun prune_rows ::
  "nat \<Rightarrow> nat \<Rightarrow> nat \<Rightarrow> nat \<Rightarrow> journal_row list \<Rightarrow> nat \<Rightarrow> (journal_error, nat \<times> nat \<times> nat) result" where
  "prune_rows max_bytes max_rows bytes count [] n = Ok (bytes, count, n)"
| "prune_rows max_bytes max_rows bytes count (r # rows) n =
     (if bytes > max_bytes \<or> count > max_rows then
        (case checked_sub bytes (length (jr_json r)) of
           None \<Rightarrow> Err Constraint
         | Some bytes' \<Rightarrow>
             (case checked_sub count 1 of
                None \<Rightarrow> Err Constraint
              | Some count' \<Rightarrow> prune_rows max_bytes max_rows bytes' count' rows (n + 1)))
      else Ok (bytes, count, n))"

lemma prune_rows_length: "prune_rows mb mr bytes count rows n = Ok (b, c, n') \<Longrightarrow> n' \<le> n + length rows"
  by (induction mb mr bytes count rows n rule: prune_rows.induct)
    (auto split: if_splits option.splits)

lemma delete_rows_rows: "delete_rows n j = Ok j' \<Longrightarrow> jn_rows j' = drop n (jn_rows j)"
  by (auto simp: delete_rows_def split: option.splits)

function prune_loop ::
  "nat \<Rightarrow> nat \<Rightarrow> nat \<Rightarrow> nat \<Rightarrow> journal \<Rightarrow> (journal_error, journal) result" where
  "prune_loop max_bytes max_rows bytes count j =
     (if bytes > max_bytes \<or> count > max_rows then
        (case prune_rows max_bytes max_rows bytes count (take 128 (jn_rows j)) 0 of
           Inl e \<Rightarrow> Err e
         | Inr (bytes', count', n) \<Rightarrow>
             if n = 0 then Err Constraint
             else (case delete_rows n j of
                     Inl e \<Rightarrow> Err e
                   | Inr j' \<Rightarrow> prune_loop max_bytes max_rows bytes' count' j'))
      else Ok j)"
  by pat_completeness auto
termination
proof (relation "measure (\<lambda>(_, _, _, _, j). length (jn_rows j))")
  fix mb mr bytes count j p b q c n j'
  assume "prune_rows mb mr bytes count (take 128 (jn_rows j)) 0 = Ok p" and "(b, q) = p"
    and "(c, n) = q" and "n \<noteq> 0" and "delete_rows n j = Ok j'"
  then show "((mb, mr, b, c, j'), mb, mr, bytes, count, j) \<in> measure (\<lambda>(_, _, _, _, j). length (jn_rows j))"
    using prune_rows_length [of mb mr bytes count "take 128 (jn_rows j)" 0 b c n] delete_rows_rows [of n j j']
    by auto
qed simp

declare prune_loop.simps [simp del]

definition prune :: "journal \<Rightarrow> nat \<Rightarrow> nat \<Rightarrow> (journal_error, journal) result" where
  "prune j max_bytes max_rows = prune_loop max_bytes max_rows (jn_bytes j) (jn_count j) j"

section \<open>Appending\<close>

definition insert_row :: "journal_row \<Rightarrow> journal \<Rightarrow> (journal_error, journal) result" where
  "insert_row r j =
     (if \<exists>r' \<in> set (jn_rows j). jr_workspace r' = jr_workspace r \<and> jr_sequence r' = jr_sequence r then Err Constraint
      else Ok (j\<lparr>jn_rows := jn_rows j @ [r], jn_bytes := jn_bytes j + length (jr_json r), jn_count := jn_count j + 1\<rparr>))"

text \<open>The end of a run is recorded with the run, once.\<close>

definition record_completion :: "'e envelope \<Rightarrow> string \<Rightarrow> journal \<Rightarrow> (journal_error, journal) result" where
  "record_completion env json j =
     (case en_event env of
        RunFinished run _ \<Rightarrow>
          if en_run env \<noteq> Some run then Err Constraint
          else (case jn_runs j run of
                  Some row \<Rightarrow>
                    if rr_session row = en_session env \<and> rr_completion_sequence row = 0
                    then Ok (j\<lparr>jn_runs := (jn_runs j)(run \<mapsto>
                           row\<lparr>rr_completion_sequence := en_sequence env, rr_completion_json := Some json\<rparr>)\<rparr>)
                    else Err Constraint
                | None \<Rightarrow> Err Constraint)
      | _ \<Rightarrow> Ok j)"

definition make_envelope :: "event_context \<Rightarrow> nat \<Rightarrow> 'e session_event \<Rightarrow> 'e envelope" where
  "make_envelope cx n event =
     \<lparr>en_store = cx_store cx, en_workspace = cx_workspace cx, en_sequence = n, en_session = cx_session cx,
      en_run = cx_run cx, en_caused_by = cx_caused_by cx, en_time = cx_time cx, en_event = event\<rparr>"

definition append_event ::
  "'e codec \<Rightarrow> event_context \<Rightarrow> 'e session_event \<Rightarrow> journal \<Rightarrow> (journal_error, journal \<times> 'e published) result" where
  "append_event cd cx event j =
     (case jn_next j (cx_workspace cx) of
        None \<Rightarrow> Err Constraint
      | Some newest \<Rightarrow>
          (let env = make_envelope cx (newest + 1) event;
               j1 = j\<lparr>jn_next := (jn_next j)(cx_workspace cx \<mapsto> newest + 1)\<rparr>
           in case cd_encode cd env of
                None \<Rightarrow> Err Encoding
              | Some json \<Rightarrow>
                  if length json > MAX_PERSISTED_EVENT_BYTES then Err EventTooLarge
                  else (case insert_row \<lparr>jr_workspace = cx_workspace cx, jr_sequence = newest + 1, jr_json = json\<rparr> j1 of
                          Inl e \<Rightarrow> Err e
                        | Inr j2 \<Rightarrow>
                            (case record_completion env json j2 of
                               Inl e \<Rightarrow> Err e
                             | Inr j3 \<Rightarrow>
                                 (case prune j3 EVENT_JOURNAL_BYTES EVENT_JOURNAL_ROWS of
                                    Inl e \<Rightarrow> Err e
                                  | Inr j4 \<Rightarrow> Ok (j4, \<lparr>pb_envelope = env, pb_json = json\<rparr>))))))"

section \<open>Reading\<close>

definition rows_of :: "ident \<Rightarrow> journal \<Rightarrow> journal_row list" where
  "rows_of w j = filter (\<lambda>r. jr_workspace r = w) (jn_rows j)"

definition decode_row :: "'e codec \<Rightarrow> journal_row \<Rightarrow> (journal_error, 'e published) result" where
  "decode_row cd r =
     (case cd_decode cd (jr_json r) of
        None \<Rightarrow> Err Encoding
      | Some env \<Rightarrow>
          (case en_event env of
             Retired \<Rightarrow>
               (case cd_encode cd env of
                  None \<Rightarrow> Err Encoding
                | Some json \<Rightarrow> Ok \<lparr>pb_envelope = env, pb_json = json\<rparr>)
           | _ \<Rightarrow> Ok \<lparr>pb_envelope = env, pb_json = jr_json r\<rparr>))"

fun decode_rows :: "'e codec \<Rightarrow> journal_row list \<Rightarrow> (journal_error, 'e published list) result" where
  "decode_rows cd [] = Ok []"
| "decode_rows cd (r # rows) =
     (case decode_row cd r of
        Inl e \<Rightarrow> Err e
      | Inr p \<Rightarrow> (case decode_rows cd rows of Inl e \<Rightarrow> Err e | Inr ps \<Rightarrow> Ok (p # ps)))"

definition read_published_event_page ::
  "'e codec \<Rightarrow> ident \<Rightarrow> nat \<Rightarrow> nat \<Rightarrow> journal \<Rightarrow> (journal_error, 'e published list) result" where
  "read_published_event_page cd w after limit j =
     (case jn_next j w of
        None \<Rightarrow> Err WorkspaceNotFound
      | Some newest \<Rightarrow>
          (let rows = rows_of w j;
               expired = (if rows = [] then after < newest else after < Min (jr_sequence ` set rows) - 1)
           in if expired then Err CursorExpired
              else decode_rows cd (take limit (sort_key jr_sequence (filter (\<lambda>r. after < jr_sequence r) rows)))))"

definition ensure_workspace :: "ident \<Rightarrow> journal \<Rightarrow> (journal_error, unit) result" where
  "ensure_workspace w j = (if jn_next j w = None then Err WorkspaceNotFound else Ok ())"

definition read_published_events ::
  "'e codec \<Rightarrow> ident \<Rightarrow> nat \<Rightarrow> nat \<Rightarrow> journal \<Rightarrow> (journal_error, 'e published list) result" where
  "read_published_events cd w after limit j =
     (case ensure_workspace w j of
        Inl e \<Rightarrow> Err e
      | Inr _ \<Rightarrow> read_published_event_page cd w after limit j)"

section \<open>Retention keeps the newest events that fit\<close>

definition fits :: "nat \<Rightarrow> nat \<Rightarrow> journal_row list \<Rightarrow> bool" where
  "fits max_bytes max_rows rows \<longleftrightarrow> row_bytes rows \<le> max_bytes \<and> length rows \<le> max_rows"

fun trim_rows :: "nat \<Rightarrow> nat \<Rightarrow> journal_row list \<Rightarrow> journal_row list" where
  "trim_rows max_bytes max_rows [] = []"
| "trim_rows max_bytes max_rows (r # rows) =
     (if fits max_bytes max_rows (r # rows) then r # rows else trim_rows max_bytes max_rows rows)"

definition set_rows :: "journal \<Rightarrow> journal_row list \<Rightarrow> journal" where
  "set_rows j rows = j\<lparr>jn_rows := rows, jn_bytes := row_bytes rows, jn_count := length rows\<rparr>"

definition counted :: "journal \<Rightarrow> bool" where
  "counted j \<longleftrightarrow> jn_bytes j = row_bytes (jn_rows j) \<and> jn_count j = length (jn_rows j)"

lemma row_bytes_simps [simp]:
  "row_bytes [] = 0" "row_bytes (r # rows) = length (jr_json r) + row_bytes rows"
  "row_bytes (xs @ ys) = row_bytes xs + row_bytes ys"
  by (simp_all add: row_bytes_def)

lemma row_bytes_split: "row_bytes rows = row_bytes (take n rows) + row_bytes (drop n rows)"
  by (metis append_take_drop_id row_bytes_simps(3))

lemma trim_rows_fits: "fits max_bytes max_rows (trim_rows max_bytes max_rows rows)"
  by (induction rows) (simp_all add: fits_def)

lemma trim_rows_id: "fits max_bytes max_rows rows \<Longrightarrow> trim_rows max_bytes max_rows rows = rows"
  by (cases rows) simp_all

lemma trim_rows_suffix: "\<exists>n. trim_rows max_bytes max_rows rows = drop n rows"
proof (induction rows)
  case (Cons r rows)
  then obtain n where "trim_rows max_bytes max_rows rows = drop n rows" by blast
  then show ?case by (cases "fits max_bytes max_rows (r # rows)") (auto intro: exI [of _ 0] exI [of _ "Suc n"])
qed simp

text \<open>One page of the inner loop removes rows that \<open>trim_rows\<close> removes, and stops early only when the rest fits.\<close>

lemma prune_rows_trim:
  "\<exists>m \<le> length rows.
     prune_rows mb mr (row_bytes (rows @ rest)) (length (rows @ rest)) rows n
       = Ok (row_bytes (drop m (rows @ rest)), length (drop m (rows @ rest)), n + m)
     \<and> trim_rows mb mr (drop m (rows @ rest)) = trim_rows mb mr (rows @ rest)
     \<and> (rows \<noteq> [] \<longrightarrow> \<not> fits mb mr (rows @ rest) \<longrightarrow> 0 < m)"
proof (induction rows arbitrary: n)
  case (Cons r rows)
  show ?case
  proof (cases "fits mb mr (r # rows @ rest)")
    case True
    then show ?thesis by (intro exI [of _ 0]) (simp add: fits_def)
  next
    case False
    obtain m where m: "m \<le> length rows"
      "prune_rows mb mr (row_bytes (rows @ rest)) (length (rows @ rest)) rows (n + 1)
       = Ok (row_bytes (drop m (rows @ rest)), length (drop m (rows @ rest)), n + 1 + m)"
      "trim_rows mb mr (drop m (rows @ rest)) = trim_rows mb mr (rows @ rest)"
      using Cons.IH [of "n + 1"] by blast
    show ?thesis
    proof (intro exI [of _ "Suc m"] conjI)
      show "prune_rows mb mr (row_bytes ((r # rows) @ rest)) (length ((r # rows) @ rest)) (r # rows) n
        = Ok (row_bytes (drop (Suc m) ((r # rows) @ rest)), length (drop (Suc m) ((r # rows) @ rest)), n + Suc m)"
        using False m(2) by (auto simp: fits_def checked_sub_def add.commute add.left_commute)
      show "trim_rows mb mr (drop (Suc m) ((r # rows) @ rest)) = trim_rows mb mr ((r # rows) @ rest)"
        using False m(3) by simp
    qed (use m(1) in simp_all)
  qed
qed simp

lemma delete_rows_counted:
  assumes "counted j"
  shows "delete_rows n j = Ok (set_rows j (drop n (jn_rows j)))"
  using assms row_bytes_split [of "jn_rows j" n]
  by (auto simp: delete_rows_def checked_sub_def counted_def set_rows_def)

lemma set_rows_simps [simp]:
  "jn_rows (set_rows j rows) = rows" "counted (set_rows j rows)" "set_rows (set_rows j rows') rows = set_rows j rows"
  "jn_next (set_rows j rows) = jn_next j" "jn_runs (set_rows j rows) = jn_runs j"
  "jn_bytes (set_rows j rows) = row_bytes rows" "jn_count (set_rows j rows) = length rows"
  by (simp_all add: set_rows_def counted_def)

lemma set_rows_same: "counted j \<Longrightarrow> set_rows j (jn_rows j) = j"
  by (simp add: set_rows_def counted_def)

lemma prune_loop_trim:
  "counted j \<Longrightarrow> prune_loop mb mr (row_bytes (jn_rows j)) (length (jn_rows j)) j = Ok (set_rows j (trim_rows mb mr (jn_rows j)))"
proof (induction "length (jn_rows j)" arbitrary: j rule: less_induct)
  case less
  let ?rows = "jn_rows j"
  show ?case
  proof (cases "fits mb mr ?rows")
    case True
    then show ?thesis
      using less.prems by (subst prune_loop.simps) (simp add: fits_def trim_rows_id set_rows_same)
  next
    case False
    then have ne: "?rows \<noteq> []" by (auto simp: fits_def)
    obtain m where m: "m \<le> length (take 128 ?rows)"
      "prune_rows mb mr (row_bytes ?rows) (length ?rows) (take 128 ?rows) 0 = Ok (row_bytes (drop m ?rows), length (drop m ?rows), m)"
      "trim_rows mb mr (drop m ?rows) = trim_rows mb mr ?rows" "0 < m"
      using prune_rows_trim [where rows = "take 128 ?rows" and rest = "drop 128 ?rows" and n = 0] False ne by auto
    let ?j = "set_rows j (drop m ?rows)"
    have "length (jn_rows ?j) < length ?rows" using m(4) ne by simp
    then have "prune_loop mb mr (row_bytes (drop m ?rows)) (length (drop m ?rows)) ?j = Ok (set_rows j (trim_rows mb mr ?rows))"
      using less.hyps [of ?j] m(3) by simp
    then show ?thesis
      using False m(2,4) delete_rows_counted [OF less.prems, of m]
      by (subst prune_loop.simps) (auto simp: fits_def)
  qed
qed

lemma prune_trim: "counted j \<Longrightarrow> prune j mb mr = Ok (set_rows j (trim_rows mb mr (jn_rows j)))"
  using prune_loop_trim by (simp add: prune_def counted_def)

section \<open>Units of work\<close>

text \<open>A unit of work appends its events one by one; the first error rolls all of them back.\<close>

fun append_events ::
  "'e codec \<Rightarrow> (event_context \<times> 'e session_event) list \<Rightarrow> journal \<Rightarrow> (journal_error, journal \<times> 'e published list) result" where
  "append_events cd [] j = Ok (j, [])"
| "append_events cd ((cx, event) # evs) j =
     (case append_event cd cx event j of
        Inl e \<Rightarrow> Err e
      | Inr (j1, p) \<Rightarrow> (case append_events cd evs j1 of Inl e \<Rightarrow> Err e | Inr (j2, ps) \<Rightarrow> Ok (j2, p # ps)))"

section \<open>The journal and the log of all events\<close>

text \<open>
  The log of a workspace is everything that was ever appended to it, the specification of the journal:
  the event at position \<open>i\<close> has the sequence number \<open>i + 1\<close>. The rows of a workspace are a suffix of its log.
\<close>

type_synonym 'e log = "ident \<Rightarrow> 'e published list"

definition row_of :: "'e published \<Rightarrow> journal_row" where
  "row_of p = \<lparr>jr_workspace = en_workspace (pb_envelope p), jr_sequence = en_sequence (pb_envelope p), jr_json = pb_json p\<rparr>"

definition log_ok :: "'e codec \<Rightarrow> 'e log \<Rightarrow> bool" where
  "log_ok cd lg \<longleftrightarrow> (\<forall>w i. i < length (lg w) \<longrightarrow>
     en_workspace (pb_envelope (lg w ! i)) = w \<and> en_sequence (pb_envelope (lg w ! i)) = i + 1
     \<and> cd_encode cd (pb_envelope (lg w ! i)) = Some (pb_json (lg w ! i)))"

definition journal_inv :: "'e codec \<Rightarrow> 'e log \<Rightarrow> journal \<Rightarrow> bool" where
  "journal_inv cd lg j \<longleftrightarrow> log_ok cd lg \<and> counted j
     \<and> (\<forall>w. case jn_next j w of None \<Rightarrow> lg w = [] | Some n \<Rightarrow> length (lg w) = n)
     \<and> (\<forall>w. \<exists>k. rows_of w j = drop k (map row_of (lg w)))"

lemma filter_drop_suffix: "\<exists>m. filter P (drop n xs) = drop m (filter P xs)"
proof
  have "filter P xs = filter P (take n xs) @ filter P (drop n xs)"
    by (metis append_take_drop_id filter_append)
  then show "filter P (drop n xs) = drop (length (filter P (take n xs))) (filter P xs)" by simp
qed

lemma rows_of_trim: "\<exists>m. rows_of w (set_rows j (trim_rows mb mr (jn_rows j))) = drop m (rows_of w j)"
  using trim_rows_suffix [of mb mr "jn_rows j"] filter_drop_suffix by (fastforce simp: rows_of_def)

lemma log_ok_append:
  assumes "log_ok cd lg" and "en_workspace (pb_envelope p) = w" and "en_sequence (pb_envelope p) = length (lg w) + 1"
    and "cd_encode cd (pb_envelope p) = Some (pb_json p)"
  shows "log_ok cd (lg(w := lg w @ [p]))"
  using assms by (auto simp: log_ok_def nth_append less_Suc_eq)

lemma record_completion_rows:
  "record_completion env json j = Ok j' \<Longrightarrow>
     jn_rows j' = jn_rows j \<and> jn_next j' = jn_next j \<and> jn_bytes j' = jn_bytes j \<and> jn_count j' = jn_count j"
  by (auto simp: record_completion_def split: session_event.splits option.splits if_splits)

lemma append_eventE:
  assumes "append_event cd cx event j = Ok (j', p)"
  obtains n json j2 j3 where "jn_next j (cx_workspace cx) = Some n"
    and "cd_encode cd (make_envelope cx (n + 1) event) = Some json"
    and "insert_row \<lparr>jr_workspace = cx_workspace cx, jr_sequence = n + 1, jr_json = json\<rparr>
           (j\<lparr>jn_next := (jn_next j)(cx_workspace cx \<mapsto> n + 1)\<rparr>) = Ok j2"
    and "record_completion (make_envelope cx (n + 1) event) json j2 = Ok j3"
    and "prune j3 EVENT_JOURNAL_BYTES EVENT_JOURNAL_ROWS = Ok j'"
    and "p = \<lparr>pb_envelope = make_envelope cx (n + 1) event, pb_json = json\<rparr>"
  using assms by (auto simp: append_event_def Let_def split: option.splits if_splits sum.splits)

lemma insert_row_counted: "insert_row r j = Ok j' \<Longrightarrow> counted j' \<longleftrightarrow> counted j"
  by (auto simp: insert_row_def counted_def split: if_splits)

lemma append_event_inv:
  assumes inv: "journal_inv cd lg j" and ok: "append_event cd cx event j = Ok (j', p)"
  shows "journal_inv cd (lg(cx_workspace cx := lg (cx_workspace cx) @ [p])) j'"
    and "en_workspace (pb_envelope p) = cx_workspace cx"
proof -
  let ?w = "cx_workspace cx"
  from ok obtain n json j2 j3 where n: "jn_next j ?w = Some n"
    and json: "cd_encode cd (make_envelope cx (n + 1) event) = Some json"
    and j2: "insert_row \<lparr>jr_workspace = ?w, jr_sequence = n + 1, jr_json = json\<rparr> (j\<lparr>jn_next := (jn_next j)(?w \<mapsto> n + 1)\<rparr>) = Ok j2"
    and j3: "record_completion (make_envelope cx (n + 1) event) json j2 = Ok j3"
    and j': "prune j3 EVENT_JOURNAL_BYTES EVENT_JOURNAL_ROWS = Ok j'"
    and p: "p = \<lparr>pb_envelope = make_envelope cx (n + 1) event, pb_json = json\<rparr>"
    by (rule append_eventE)
  have row: "row_of p = \<lparr>jr_workspace = ?w, jr_sequence = n + 1, jr_json = json\<rparr>"
    by (simp add: row_of_def p make_envelope_def)
  from j2 have rows3: "jn_rows j3 = jn_rows j @ [row_of p]" and next3: "jn_next j3 = (jn_next j)(?w \<mapsto> n + 1)"
    and c3: "counted j3"
    using record_completion_rows [OF j3] inv row
    by (auto simp: insert_row_def journal_inv_def counted_def split: if_splits)
  have len: "length (lg ?w) = n" using inv n by (auto simp: journal_inv_def split: option.splits)
  have eq: "j' = set_rows j3 (trim_rows EVENT_JOURNAL_BYTES EVENT_JOURNAL_ROWS (jn_rows j3))"
    using j' prune_trim [OF c3] by simp
  show "en_workspace (pb_envelope p) = ?w" by (simp add: p make_envelope_def)
  moreover have "log_ok cd (lg(?w := lg ?w @ [p]))"
    using inv json len
    by (intro log_ok_append) (auto simp: journal_inv_def p make_envelope_def)
  moreover have "\<exists>k. rows_of w j' = drop k (map row_of ((lg(?w := lg ?w @ [p])) w))" for w
  proof -
    obtain k where k: "rows_of w j = drop k (map row_of (lg w))" using inv by (auto simp: journal_inv_def)
    have "\<exists>k. rows_of w j3 = drop k (map row_of ((lg(?w := lg ?w @ [p])) w))"
    proof (cases "w = ?w")
      case True
      then have "rows_of w j3 = drop (min k n) (map row_of (lg w @ [p]))"
        using k len row by (cases "k \<le> n") (auto simp: rows_of_def rows3)
      then show ?thesis using True by auto
    next
      case False
      then show ?thesis using k row by (auto simp: rows_of_def rows3)
    qed
    then show ?thesis using rows_of_trim [where w = w and j = j3] eq by (metis drop_drop)
  qed
  moreover have "case jn_next j' w of None \<Rightarrow> (lg(?w := lg ?w @ [p])) w = [] | Some m \<Rightarrow> length ((lg(?w := lg ?w @ [p])) w) = m" for w
  proof -
    have "case jn_next j w of None \<Rightarrow> lg w = [] | Some m \<Rightarrow> length (lg w) = m"
      using inv by (simp add: journal_inv_def)
    then show ?thesis using next3 eq len by (cases "w = ?w") (simp_all split: option.splits)
  qed
  ultimately show "journal_inv cd (lg(?w := lg ?w @ [p])) j'"
    using eq by (simp add: journal_inv_def)
qed

section \<open>Reading is exact\<close>

lemma log_sequences: "log_ok cd lg \<Longrightarrow> map (jr_sequence \<circ> row_of) (lg w) = [1 ..< length (lg w) + 1]"
  by (rule nth_equalityI) (auto simp: log_ok_def row_of_def simp del: upt_Suc)

lemma decode_row_of:
  assumes "codec_ok cd" and "cd_encode cd (pb_envelope p) = Some (pb_json p)"
  shows "decode_row cd (row_of p) = Ok p"
  using assms by (auto simp: codec_ok_def decode_row_def row_of_def split: session_event.splits)

lemma decode_rows_of:
  assumes "codec_ok cd" and "\<forall>p \<in> set ps. cd_encode cd (pb_envelope p) = Some (pb_json p)"
  shows "decode_rows cd (map row_of ps) = Ok ps"
  using assms(2) by (induction ps) (simp_all add: decode_row_of [OF assms(1)])

text \<open>How many events of a workspace retention has removed.\<close>

definition pruned :: "'e log \<Rightarrow> journal \<Rightarrow> ident \<Rightarrow> nat" where
  "pruned lg j w = length (lg w) - length (rows_of w j)"

lemma rows_of_log: "journal_inv cd lg j \<Longrightarrow> rows_of w j = map row_of (drop (pruned lg j w) (lg w))"
proof -
  assume "journal_inv cd lg j"
  then obtain k where k: "rows_of w j = drop k (map row_of (lg w))" by (auto simp: journal_inv_def)
  then show ?thesis by (cases "k \<le> length (lg w)") (simp_all add: pruned_def drop_map)
qed

lemma page_rows:
  assumes "journal_inv cd lg j" and "pruned lg j w \<le> after"
  shows "sort_key jr_sequence (filter (\<lambda>r. after < jr_sequence r) (rows_of w j)) = map row_of (drop after (lg w))"
proof -
  let ?k = "pruned lg j w"
  have lk: "log_ok cd lg" using assms(1) by (simp add: journal_inv_def)
  have seq: "jr_sequence (row_of (lg w ! i)) = i + 1" if "i < length (lg w)" for i
    using lk that by (simp add: log_ok_def row_of_def)
  have "drop ?k (lg w) = take (after - ?k) (drop ?k (lg w)) @ drop after (lg w)"
    using assms(2) by (metis append_take_drop_id drop_drop le_add_diff_inverse2)
  moreover have "filter (\<lambda>r. after < jr_sequence r) (map row_of (take (after - ?k) (drop ?k (lg w)))) = []"
    using assms(2) seq by (auto simp: filter_empty_conv in_set_conv_nth)
  moreover have "filter (\<lambda>r. after < jr_sequence r) (map row_of (drop after (lg w))) = map row_of (drop after (lg w))"
    using seq by (auto simp: filter_id_conv in_set_conv_nth)
  ultimately have f: "filter (\<lambda>r. after < jr_sequence r) (rows_of w j) = map row_of (drop after (lg w))"
    using rows_of_log [OF assms(1), of w] by (metis filter_append map_append append_Nil)
  have "sorted (map jr_sequence (map row_of (drop after (lg w))))"
    using log_sequences [OF lk, of w] by (simp add: drop_map [symmetric] comp_def del: upt_Suc)
  then show ?thesis by (simp add: f sorted_sort_id sort_key_id_if_sorted)
qed

lemma read_page_log:
  assumes "codec_ok cd" and inv: "journal_inv cd lg j"
  shows "read_published_events cd w after limit j =
    (if jn_next j w = None then Err WorkspaceNotFound
     else if after < pruned lg j w then Err CursorExpired
     else Ok (take limit (drop after (lg w))))"
proof (cases "jn_next j w")
  case None
  then show ?thesis by (simp add: read_published_events_def ensure_workspace_def)
next
  case (Some n)
  let ?k = "pruned lg j w"
  have lk: "log_ok cd lg" and len: "length (lg w) = n"
    using inv Some by (auto simp: journal_inv_def split: option.splits)
  have rows: "rows_of w j = map row_of (drop ?k (lg w))" by (rule rows_of_log [OF inv])
  have expired: "(if rows_of w j = [] then after < n else after < Min (jr_sequence ` set (rows_of w j)) - 1)
     \<longleftrightarrow> after < ?k"
  proof (cases "rows_of w j = []")
    case True
    then show ?thesis using len by (simp add: pruned_def)
  next
    case False
    then have k: "?k < length (lg w)" using rows by simp
    have "jr_sequence ` set (rows_of w j) = set (drop ?k (map (jr_sequence \<circ> row_of) (lg w)))"
      by (simp add: rows drop_map image_image comp_def)
    also have "\<dots> = {?k + 1 ..< length (lg w) + 1}"
      using log_sequences [OF lk, of w] by (simp add: drop_upt del: upt_Suc)
    finally have "Min (jr_sequence ` set (rows_of w j)) = ?k + 1"
      using k by (simp add: Min_eq_iff)
    then show ?thesis using False by simp
  qed
  have "decode_rows cd (take limit (map row_of (drop after (lg w)))) = Ok (take limit (drop after (lg w)))"
    using lk by (subst take_map, intro decode_rows_of assms)
      (auto simp: log_ok_def in_set_conv_nth dest!: in_set_takeD)
  then show ?thesis
    using Some expired page_rows [OF inv, of w after]
    by (auto simp: read_published_events_def ensure_workspace_def read_published_event_page_def Let_def)
qed

definition log_of :: "'e published list \<Rightarrow> 'e log" where
  "log_of ps w = filter (\<lambda>p. en_workspace (pb_envelope p) = w) ps"

lemma log_of_append: "log_of (ps @ qs) w = log_of ps w @ log_of qs w"
  by (simp add: log_of_def)

lemma log_of_snoc: "log_of (ps @ [p]) = (log_of ps)(en_workspace (pb_envelope p) := log_of ps (en_workspace (pb_envelope p)) @ [p])"
  by (auto simp: log_of_def fun_eq_iff)

lemma append_events_inv:
  "journal_inv cd (log_of ps) j \<Longrightarrow> append_events cd evs j = Ok (j', qs) \<Longrightarrow> journal_inv cd (log_of (ps @ qs)) j'"
proof (induction cd evs j arbitrary: ps qs rule: append_events.induct)
  case (2 cd cx event evs j)
  from 2(3) obtain j1 p qs' where e: "append_event cd cx event j = Ok (j1, p)"
    and es: "append_events cd evs j1 = Ok (j', qs')" and qs: "qs = p # qs'"
    by (auto split: sum.splits)
  have "journal_inv cd (log_of (ps @ [p])) j1"
    using append_event_inv [OF 2(2) e] by (simp add: log_of_snoc)
  from 2(1) [OF e refl this es] show ?case by (simp add: qs)
qed simp

definition fresh_journal :: "journal \<Rightarrow> bool" where
  "fresh_journal j \<longleftrightarrow> jn_rows j = [] \<and> jn_bytes j = 0 \<and> jn_count j = 0 \<and> (\<forall>w n. jn_next j w = Some n \<longrightarrow> n = 0)"

lemma fresh_journal_inv: "fresh_journal j \<Longrightarrow> journal_inv cd (log_of []) j"
  by (auto simp: fresh_journal_def journal_inv_def log_ok_def counted_def log_of_def rows_of_def split: option.splits)

lemma append_event_fits:
  assumes "counted j" and "append_event cd cx event j = Ok (j', p)"
  shows "fits EVENT_JOURNAL_BYTES EVENT_JOURNAL_ROWS (jn_rows j') \<and> counted j'"
proof -
  from assms(2) obtain n json j2 j3 where
    j2: "insert_row \<lparr>jr_workspace = cx_workspace cx, jr_sequence = n + 1, jr_json = json\<rparr>
      (j\<lparr>jn_next := (jn_next j)(cx_workspace cx \<mapsto> n + 1)\<rparr>) = Ok j2"
    and j3: "record_completion (make_envelope cx (n + 1) event) json j2 = Ok j3"
    and j': "prune j3 EVENT_JOURNAL_BYTES EVENT_JOURNAL_ROWS = Ok j'"
    by (rule append_eventE)
  have "counted j2" using assms(1) insert_row_counted [OF j2] by (simp add: counted_def)
  then have "counted j3" using record_completion_rows [OF j3] by (simp add: counted_def)
  then show ?thesis using j' prune_trim [of j3] trim_rows_fits by auto
qed

lemma append_events_fits:
  "counted j \<Longrightarrow> fits EVENT_JOURNAL_BYTES EVENT_JOURNAL_ROWS (jn_rows j) \<Longrightarrow> append_events cd evs j = Ok (j', qs)
   \<Longrightarrow> fits EVENT_JOURNAL_BYTES EVENT_JOURNAL_ROWS (jn_rows j')"
proof (induction cd evs j arbitrary: qs rule: append_events.induct)
  case (2 cd cx event evs j)
  from 2(4) obtain j1 p qs' where e: "append_event cd cx event j = Ok (j1, p)"
    and es: "append_events cd evs j1 = Ok (j', qs')"
    by (auto split: sum.splits)
  show ?case using 2(1) [OF e refl _ _ es] append_event_fits [OF 2(2) e] by blast
qed simp

text \<open>C36 (error). Whatever was appended, the journal stays within its bounds and a read after a cursor is
  exact: it answers the events that follow the cursor, all of them in order up to the limit, as they
  were appended, or says that the cursor has expired, and that exactly when retention has removed an
  event that follows it.\<close>

theorem read_page_exact:
  assumes "codec_ok cd" and "fresh_journal j0" and "append_events cd evs j0 = Ok (j, ps)"
  shows "read_published_events cd w after limit j =
    (if jn_next j w = None then Err WorkspaceNotFound
     else if after < pruned (log_of ps) j w then Err CursorExpired
     else Ok (take limit (drop after (log_of ps w))))
    \<and> fits EVENT_JOURNAL_BYTES EVENT_JOURNAL_ROWS (jn_rows j)"
proof -
  have "journal_inv cd (log_of ps) j"
    using append_events_inv [OF fresh_journal_inv [OF assms(2)] assms(3)] by simp
  moreover have "fits EVENT_JOURNAL_BYTES EVENT_JOURNAL_ROWS (jn_rows j)"
    using assms(2) append_events_fits [OF _ _ assms(3)] by (simp add: fresh_journal_def counted_def fits_def)
  ultimately show ?thesis using read_page_log [OF assms(1)] by blast
qed

definition demo_event_context :: event_context where
  "demo_event_context = \<lparr>cx_store = ''s'', cx_workspace = ''w'', cx_session = ''a'', cx_run = None, cx_caused_by = None, cx_time = 7\<rparr>"

definition demo_envelope :: "unit envelope" where
  "demo_envelope = make_envelope demo_event_context 1 (OtherEvent ())"

definition demo_codec :: "unit codec" where
  "demo_codec = \<lparr>cd_encode = (\<lambda>e. if e = demo_envelope then Some ''{}'' else None),
     cd_decode = (\<lambda>s. if s = ''{}'' then Some demo_envelope else None)\<rparr>"

definition demo_journal :: journal where
  "demo_journal = \<lparr>jn_next = [''w'' \<mapsto> 0], jn_rows = [], jn_bytes = 0, jn_count = 0, jn_runs = (\<lambda>_. None)\<rparr>"

lemma demo_append:
  "append_events demo_codec [(demo_event_context, OtherEvent ())] demo_journal =
     Ok (\<lparr>jn_next = [''w'' \<mapsto> 1], jn_rows = [\<lparr>jr_workspace = ''w'', jr_sequence = 1, jr_json = ''{}''\<rparr>],
          jn_bytes = 2, jn_count = 1, jn_runs = (\<lambda>_. None)\<rparr>,
         [\<lparr>pb_envelope = demo_envelope, pb_json = ''{}''\<rparr>])"
  by (simp add: append_event_def demo_journal_def demo_event_context_def demo_codec_def demo_envelope_def make_envelope_def
      insert_row_def record_completion_def prune_def prune_loop.simps EVENT_JOURNAL_BYTES_def EVENT_JOURNAL_ROWS_def
      MAX_PERSISTED_EVENT_BYTES_def Let_def)

theorem read_page_exact_witness:
  "\<exists>j p. append_events demo_codec [(demo_event_context, OtherEvent ())] demo_journal = Ok (j, [p])
     \<and> read_published_events demo_codec ''w'' 0 128 j = Ok [p]"
proof -
  have "codec_ok demo_codec" by (simp add: codec_ok_def demo_codec_def)
  moreover have "fresh_journal demo_journal" by (simp add: fresh_journal_def demo_journal_def)
  ultimately show ?thesis
    using read_page_exact [OF _ _ demo_append, where w = "''w''" and after = 0 and limit = 128] demo_append
    by (simp add: pruned_def log_of_def rows_of_def demo_envelope_def make_envelope_def demo_event_context_def)
qed

end
