(* ===== verification/Feed.thy ===== *)
theory Feed
  imports Journal
begin

text \<open>
  The live feed of published events (\<^verbatim>\<open>crates/qq-core/src/sessions/feed.rs\<close>): one ring of recent events for
  each workspace somebody listens to. Every method runs under the lock of the rings, so a method is one
  step. The identity of the notifier of a ring is a number, \<open>rg_notify\<close>; numbers are handed out in order.
  Sequence numbers and cursors are natural numbers; the code adds one to a cursor, which is below the
  largest \<open>u64\<close>.
\<close>

section \<open>Rings\<close>

definition FEED_CAPACITY :: nat where "FEED_CAPACITY = 1024"
definition FEED_RETAINED_BYTES :: nat where "FEED_RETAINED_BYTES = 256 * 1024"

definition sequence_of :: "'e published \<Rightarrow> nat" where
  "sequence_of p = en_sequence (pb_envelope p)"

datatype 'e lookup = Ready "'e published" | Behind | CaughtUp

record 'e ring =
  rg_events :: "'e published list"
  rg_tail :: "nat option"
  rg_bytes :: nat
  rg_subscribers :: nat
  rg_notify :: nat

definition ring_new :: "nat \<Rightarrow> 'e ring" where
  "ring_new notify = \<lparr>rg_events = [], rg_tail = None, rg_bytes = 0, rg_subscribers = 0, rg_notify = notify\<rparr>"

definition covers :: "'e ring \<Rightarrow> nat \<Rightarrow> bool" where
  "covers r after =
     (case rg_tail r of
        None \<Rightarrow> False
      | Some newest \<Rightarrow>
          (case rg_events r of
             first # _ \<Rightarrow> sequence_of first \<le> after + 1 \<and> after \<le> newest
           | [] \<Rightarrow> after = newest))"

definition ring_lookup :: "'e ring \<Rightarrow> nat \<Rightarrow> 'e lookup" where
  "ring_lookup r after =
     (case rg_events r of
        first # _ \<Rightarrow>
          if after + 1 < sequence_of first then Behind
          else if after + 1 - sequence_of first < length (rg_events r)
          then Ready (rg_events r ! (after + 1 - sequence_of first)) else CaughtUp
      | [] \<Rightarrow> (case rg_tail r of Some newest \<Rightarrow> if after < newest then Behind else CaughtUp | None \<Rightarrow> CaughtUp))"

definition ring_page :: "'e ring \<Rightarrow> nat \<Rightarrow> nat \<Rightarrow> 'e published list" where
  "ring_page r after limit =
     (case rg_events r of
        [] \<Rightarrow> []
      | first # _ \<Rightarrow>
          if after + 1 < sequence_of first then []
          else let start = after + 1 - sequence_of first in
            if start \<ge> length (rg_events r) then [] else take limit (drop start (rg_events r)))"

text \<open>The loop that makes room: events and retained bytes that are left.\<close>

fun evict :: "'e published list \<Rightarrow> nat \<Rightarrow> 'e published list \<times> nat" where
  "evict [] bytes = ([], bytes)"
| "evict (p # ps) bytes =
     (if length (p # ps) > FEED_CAPACITY \<or> (bytes > FEED_RETAINED_BYTES \<and> length (p # ps) > 1)
      then evict ps (bytes - length (pb_json p)) else (p # ps, bytes))"

definition ring_push :: "'e published \<Rightarrow> 'e ring \<Rightarrow> 'e ring" where
  "ring_push p r =
     (let n = sequence_of p;
          gap = (rg_events r \<noteq> [] \<and> sequence_of (last (rg_events r)) + 1 \<noteq> n);
          kept = (if gap then [] else rg_events r);
          bytes = (if gap then 0 else rg_bytes r) + length (pb_json p);
          (events', bytes') = evict (kept @ [p]) bytes
      in r\<lparr>rg_events := events', rg_bytes := bytes', rg_tail := Some n\<rparr>)"

section \<open>The feed\<close>

record 'e feed =
  fd_rings :: "ident \<Rightarrow> 'e ring option"
  fd_fresh :: nat

record receiver =
  rc_workspace :: ident
  rc_notify :: nat

definition feed_new :: "'e feed" where
  "feed_new = \<lparr>fd_rings = (\<lambda>_. None), fd_fresh = 0\<rparr>"

text \<open>Publishing pushes each event to the ring of its workspace, if there is one, and wakes the rings it
  touched, each once.\<close>

fun publish_loop :: "'e published list \<Rightarrow> 'e feed \<Rightarrow> nat list \<Rightarrow> 'e feed \<times> nat list" where
  "publish_loop [] fd wake = (fd, wake)"
| "publish_loop (p # ps) fd wake =
     (case fd_rings fd (en_workspace (pb_envelope p)) of
        None \<Rightarrow> publish_loop ps fd wake
      | Some r \<Rightarrow>
          publish_loop ps (fd\<lparr>fd_rings := (fd_rings fd)(en_workspace (pb_envelope p) \<mapsto> ring_push p r)\<rparr>)
            (if rg_notify r \<in> set wake then wake else wake @ [rg_notify r]))"

definition publish :: "'e published list \<Rightarrow> 'e feed \<Rightarrow> 'e feed \<times> nat list" where
  "publish ps fd = publish_loop ps fd []"

definition attach_warm :: "ident \<Rightarrow> nat \<Rightarrow> nat \<Rightarrow> 'e feed \<Rightarrow> ('e feed \<times> receiver \<times> 'e published list) option" where
  "attach_warm w after limit fd =
     (case fd_rings fd w of
        None \<Rightarrow> None
      | Some r \<Rightarrow>
          if \<not> covers r after then None
          else Some (fd\<lparr>fd_rings := (fd_rings fd)(w \<mapsto> r\<lparr>rg_subscribers := rg_subscribers r + 1\<rparr>)\<rparr>,
                     \<lparr>rc_workspace = w, rc_notify = rg_notify r\<rparr>, ring_page r after limit))"

text \<open>A short page ends at the newest event, which tells the tail of the ring.\<close>

definition seed_tail :: "'e published list \<Rightarrow> bool \<Rightarrow> 'e ring \<Rightarrow> 'e ring" where
  "seed_tail page short r =
     (if short \<and> page \<noteq> []
      then r\<lparr>rg_tail := Some (case rg_tail r of
             None \<Rightarrow> sequence_of (last page) | Some newest \<Rightarrow> max newest (sequence_of (last page)))\<rparr>
      else r)"

definition attach_cold :: "ident \<Rightarrow> 'e published list \<Rightarrow> bool \<Rightarrow> 'e feed \<Rightarrow> 'e feed \<times> receiver" where
  "attach_cold w page short fd =
     (let (r, fresh) = (case fd_rings fd w of
            Some r \<Rightarrow> (r, fd_fresh fd) | None \<Rightarrow> (ring_new (fd_fresh fd), fd_fresh fd + 1));
          r1 = seed_tail page short r
      in (\<lparr>fd_rings = (fd_rings fd)(w \<mapsto> r1\<lparr>rg_subscribers := rg_subscribers r1 + 1\<rparr>), fd_fresh = fresh\<rparr>,
          \<lparr>rc_workspace = w, rc_notify = rg_notify r1\<rparr>))"

definition warm_page :: "ident \<Rightarrow> nat \<Rightarrow> nat \<Rightarrow> 'e feed \<Rightarrow> 'e published list option" where
  "warm_page w after limit fd =
     (case fd_rings fd w of
        None \<Rightarrow> None
      | Some r \<Rightarrow> if covers r after then Some (ring_page r after limit) else None)"

definition feed_lookup :: "ident \<Rightarrow> nat \<Rightarrow> 'e feed \<Rightarrow> 'e lookup option" where
  "feed_lookup w after fd = map_option (\<lambda>r. ring_lookup r after) (fd_rings fd w)"

text \<open>\<open>Drop\<close> of a receiver: the last one takes the ring of its workspace away.\<close>

definition drop_receiver :: "receiver \<Rightarrow> 'e feed \<Rightarrow> 'e feed" where
  "drop_receiver rc fd =
     (case fd_rings fd (rc_workspace rc) of
        Some r \<Rightarrow>
          if rg_notify r = rc_notify rc
          then fd\<lparr>fd_rings := (fd_rings fd)(rc_workspace rc :=
                 (if rg_subscribers r - 1 = 0 then None else Some (r\<lparr>rg_subscribers := rg_subscribers r - 1\<rparr>)))\<rparr>
          else fd
      | None \<Rightarrow> fd)"

section \<open>A ring holds the end of what was published\<close>

definition numbered :: "'e published list \<Rightarrow> bool" where
  "numbered ps \<longleftrightarrow> (\<forall>i < length ps. sequence_of (ps ! i) = i + 1)"

definition json_bytes :: "'e published list \<Rightarrow> nat" where
  "json_bytes ps = sum_list (map (\<lambda>p. length (pb_json p)) ps)"

definition ring_inv :: "'e published list \<Rightarrow> 'e ring \<Rightarrow> bool" where
  "ring_inv lw r \<longleftrightarrow> (\<exists>k. rg_events r = drop k lw) \<and> rg_bytes r = json_bytes (rg_events r)
     \<and> (rg_tail r = None \<and> rg_events r = [] \<or> rg_tail r = Some (length lw))"

lemma ring_inv_events: "ring_inv lw r \<Longrightarrow> rg_events r = drop (length lw - length (rg_events r)) lw"
proof -
  assume "ring_inv lw r"
  then obtain k where "rg_events r = drop k lw" by (auto simp: ring_inv_def)
  then show ?thesis by (cases "k \<le> length lw") simp_all
qed

lemma ring_front:
  assumes "numbered lw" and "ring_inv lw r" and "rg_events r \<noteq> []"
  shows "length (rg_events r) \<le> length lw"
    and "sequence_of (hd (rg_events r)) = length lw - length (rg_events r) + 1"
proof -
  obtain k where k: "rg_events r = drop k lw" using assms(2) by (auto simp: ring_inv_def)
  then have "k < length lw" using assms(3) by simp
  then show "length (rg_events r) \<le> length lw"
    "sequence_of (hd (rg_events r)) = length lw - length (rg_events r) + 1"
    using assms(1) by (simp_all add: k numbered_def hd_drop_conv_nth)
qed

lemma ring_lookup_exact:
  assumes "numbered lw" and "ring_inv lw r" and "rg_events r \<noteq> []"
  shows "ring_lookup r after =
    (if after < length lw - length (rg_events r) then Behind
     else if after < length lw then Ready (lw ! after) else CaughtUp)"
proof -
  note front = ring_front [OF assms]
  obtain first rest where ev: "rg_events r = first # rest" using assms(3) by (cases "rg_events r") auto
  have "rg_events r ! i = lw ! (length lw - length (rg_events r) + i)" for i
    using ring_inv_events [OF assms(2)] front(1) by (metis diff_le_self nth_drop)
  then show ?thesis
    using front assms(3) by (auto simp: ring_lookup_def ev Let_def split: list.split)
qed

lemma covers_page:
  assumes "numbered lw" and "ring_inv lw r" and "covers r after"
  shows "ring_page r after limit = take limit (drop after lw)" and "after \<le> length lw"
proof -
  have newest: "rg_tail r = Some (length lw)"
    using assms(2,3) by (auto simp: ring_inv_def covers_def)
  then show le: "after \<le> length lw" using assms(3) by (auto simp: covers_def split: list.splits)
  show "ring_page r after limit = take limit (drop after lw)"
  proof (cases "rg_events r = []")
    case True
    then show ?thesis using assms(3) newest by (simp add: covers_def ring_page_def)
  next
    case False
    note front = ring_front [OF assms(1,2) False]
    have "length lw - length (rg_events r) \<le> after"
      using assms(3) newest front(2) False by (auto simp: covers_def split: list.splits)
    then have "drop (after + 1 - sequence_of (hd (rg_events r))) (rg_events r) = drop after lw"
      using front by (subst ring_inv_events [OF assms(2)]) simp
    then show ?thesis
      using front False \<open>_ \<le> after\<close> by (auto simp: ring_page_def Let_def split: list.splits)
  qed
qed

lemma json_bytes_simps [simp]:
  "json_bytes [] = 0" "json_bytes (p # ps) = length (pb_json p) + json_bytes ps"
  "json_bytes (ps @ qs) = json_bytes ps + json_bytes qs"
  by (simp_all add: json_bytes_def)

lemma evict_spec:
  "ps \<noteq> [] \<Longrightarrow> \<exists>k < length ps. evict ps (json_bytes ps) = (drop k ps, json_bytes (drop k ps))
     \<and> length (drop k ps) \<le> FEED_CAPACITY
     \<and> (json_bytes (drop k ps) \<le> FEED_RETAINED_BYTES \<or> length (drop k ps) = 1)"
proof (induction ps)
  case (Cons p ps)
  show ?case
  proof (cases "length (p # ps) > FEED_CAPACITY \<or> (json_bytes (p # ps) > FEED_RETAINED_BYTES \<and> length (p # ps) > 1)")
    case True
    then have "ps \<noteq> []" by (auto simp: FEED_CAPACITY_def)
    then obtain k where "k < length ps" "evict ps (json_bytes ps) = (drop k ps, json_bytes (drop k ps))"
      "length (drop k ps) \<le> FEED_CAPACITY" "json_bytes (drop k ps) \<le> FEED_RETAINED_BYTES \<or> length (drop k ps) = 1"
      using Cons.IH by blast
    then show ?thesis using True by (intro exI [of _ "Suc k"]) simp
  next
    case False
    then show ?thesis by (intro exI [of _ 0]) (auto simp: not_less)
  qed
qed simp

lemma ring_push_inv:
  assumes "numbered lw" and inv: "ring_inv lw r" and "sequence_of p = length lw + 1"
  shows "ring_inv (lw @ [p]) (ring_push p r)" and "rg_events (ring_push p r) \<noteq> []"
    and "length (rg_events (ring_push p r)) \<le> FEED_CAPACITY"
    and "rg_bytes (ring_push p r) \<le> FEED_RETAINED_BYTES \<or> length (rg_events (ring_push p r)) = 1"
proof -
  obtain m where m: "rg_events r = drop m lw" using inv by (auto simp: ring_inv_def)
  have "sequence_of (last (rg_events r)) = length lw" if "rg_events r \<noteq> []"
    using that assms(1) by (auto simp: m numbered_def last_drop last_conv_nth)
  then have gap: "\<not> (rg_events r \<noteq> [] \<and> sequence_of (last (rg_events r)) + 1 \<noteq> sequence_of p)"
    using assms(3) by auto
  have bytes: "rg_bytes r + length (pb_json p) = json_bytes (rg_events r @ [p])"
    using inv by (simp add: ring_inv_def)
  obtain k where k: "k < length (rg_events r @ [p])"
    "evict (rg_events r @ [p]) (json_bytes (rg_events r @ [p])) =
       (drop k (rg_events r @ [p]), json_bytes (drop k (rg_events r @ [p])))"
    "length (drop k (rg_events r @ [p])) \<le> FEED_CAPACITY"
    "json_bytes (drop k (rg_events r @ [p])) \<le> FEED_RETAINED_BYTES \<or> length (drop k (rg_events r @ [p])) = 1"
    using evict_spec [of "rg_events r @ [p]"] by blast
  have push: "ring_push p r = r\<lparr>rg_events := drop k (rg_events r @ [p]),
      rg_bytes := json_bytes (drop k (rg_events r @ [p])), rg_tail := Some (sequence_of p)\<rparr>"
    unfolding ring_push_def Let_def if_not_P [OF gap] bytes k(2) by simp
  have "rg_events r @ [p] = drop (min m (length lw)) (lw @ [p])" by (simp add: m min_def)
  then have "drop k (rg_events r @ [p]) = drop (k + min m (length lw)) (lw @ [p])" by simp
  then show "ring_inv (lw @ [p]) (ring_push p r)"
    using assms(3) by (auto simp: ring_inv_def push)
  show "rg_events (ring_push p r) \<noteq> []" using k(1) by (simp add: push)
  show "length (rg_events (ring_push p r)) \<le> FEED_CAPACITY"
    "rg_bytes (ring_push p r) \<le> FEED_RETAINED_BYTES \<or> length (rg_events (ring_push p r)) = 1"
    using k(3,4) by (simp_all add: push)
qed

end
