(* ===== verification/Delivery.thy ===== *)
theory Delivery
  imports Feed
begin

text \<open>
  Subscriptions to the events of a workspace: \<open>subscribe_published\<close> of
  \<^verbatim>\<open>crates/qq-core/src/sessions/runtime.rs\<close>, \<open>attach_feed\<close> and \<open>published_events_after\<close> of
  \<^verbatim>\<open>sessions/store.rs\<close>, and the publication after a commit of \<^verbatim>\<open>sessions/store/worker.rs\<close>. The worker thread
  commits a unit of work and then publishes what it staged; reads of the store run on that thread, reads
  of the feed on any, so between a commit and its publication the feed lags behind the journal. The steps
  of the system are the steps of its threads, in any order.

  The log of everything that was published, \<open>sy_log\<close>, is there for the specification only.
\<close>

section \<open>Subscriptions\<close>

definition MAX_REPLAY_EVENTS :: nat where "MAX_REPLAY_EVENTS = 128"

text \<open>A stream hands out a page event by event, reads the next page, or waits for the feed.\<close>

datatype 'e phase = Yielding "'e published list" bool | Reading | Live

record 'e subscription =
  sb_receiver :: receiver
  sb_start :: nat
  sb_after :: nat
  sb_delivered :: "'e published list"
  sb_phase :: "'e phase"

definition yield_page :: "'e published list \<Rightarrow> 'e phase" where
  "yield_page page = Yielding page (length page < MAX_REPLAY_EVENTS)"

definition open_subscription :: "receiver \<Rightarrow> nat \<Rightarrow> 'e published list \<Rightarrow> 'e subscription" where
  "open_subscription rc after page =
     \<lparr>sb_receiver = rc, sb_start = after, sb_after = after, sb_delivered = [], sb_phase = yield_page page\<rparr>"

definition deliver :: "'e published \<Rightarrow> 'e phase \<Rightarrow> 'e subscription \<Rightarrow> 'e subscription" where
  "deliver p ph sub = sub\<lparr>sb_after := sequence_of p, sb_delivered := sb_delivered sub @ [p], sb_phase := ph\<rparr>"

record ('k, 'e) system =
  sy_journal :: journal
  sy_feed :: "'e feed"
  sy_log :: "'e published list"
  sy_outbox :: "'e published list"
  sy_subs :: "'k \<Rightarrow> 'e subscription option"

text \<open>\<open>attach_feed\<close>: from the ring, or from the store.\<close>

definition attach_from_ring :: "'k \<Rightarrow> ident \<Rightarrow> nat \<Rightarrow> ('k, 'e) system \<Rightarrow> ('k, 'e) system option" where
  "attach_from_ring k w after s =
     (case attach_warm w after MAX_REPLAY_EVENTS (sy_feed s) of
        None \<Rightarrow> None
      | Some (fd, rc, page) \<Rightarrow>
          Some (s\<lparr>sy_feed := fd, sy_subs := (sy_subs s)(k \<mapsto> open_subscription rc after page)\<rparr>))"

definition attach_from_store ::
  "'e codec \<Rightarrow> 'k \<Rightarrow> ident \<Rightarrow> nat \<Rightarrow> ('k, 'e) system \<Rightarrow> (journal_error, ('k, 'e) system) result" where
  "attach_from_store cd k w after s =
     (case read_published_events cd w after MAX_REPLAY_EVENTS (sy_journal s) of
        Inl e \<Rightarrow> Err e
      | Inr page \<Rightarrow>
          (let (fd, rc) = attach_cold w page (length page < MAX_REPLAY_EVENTS) (sy_feed s)
           in Ok (s\<lparr>sy_feed := fd, sy_subs := (sy_subs s)(k \<mapsto> open_subscription rc after page)\<rparr>)))"

definition set_sub :: "'k \<Rightarrow> 'e subscription \<Rightarrow> ('k, 'e) system \<Rightarrow> ('k, 'e) system" where
  "set_sub k sub s = s\<lparr>sy_subs := (sy_subs s)(k \<mapsto> sub)\<rparr>"

text \<open>The end of a stream, with an error or because the client has gone, drops its receiver.\<close>

definition end_sub :: "'k \<Rightarrow> 'e subscription \<Rightarrow> ('k, 'e) system \<Rightarrow> ('k, 'e) system" where
  "end_sub k sub s = s\<lparr>sy_feed := drop_receiver (sb_receiver sub) (sy_feed s), sy_subs := (sy_subs s)(k := None)\<rparr>"

text \<open>One round of the stream of a subscription: what it does next. With \<open>store\<close> the next page comes from the
  store, which the code asks when the ring did not cover the cursor a moment before. \<open>None\<close>: it has to
  wait, for the store or for the feed.\<close>

definition stream_step :: "'e codec \<Rightarrow> bool \<Rightarrow> 'k \<Rightarrow> 'e subscription \<Rightarrow> ('k, 'e) system \<Rightarrow> ('k, 'e) system option" where
  "stream_step cd store k sub s =
     (let w = rc_workspace (sb_receiver sub) in
      case sb_phase sub of
        Yielding (p # page) caught_up \<Rightarrow> Some (set_sub k (deliver p (Yielding page caught_up) sub) s)
      | Yielding [] caught_up \<Rightarrow> Some (set_sub k (sub\<lparr>sb_phase := (if caught_up then Live else Reading)\<rparr>) s)
      | Reading \<Rightarrow>
          if store then
            (case read_published_events cd w (sb_after sub) MAX_REPLAY_EVENTS (sy_journal s) of
               Inl e \<Rightarrow> Some (end_sub k sub s)
             | Inr page \<Rightarrow> Some (set_sub k (sub\<lparr>sb_phase := yield_page page\<rparr>) s))
          else
            (case warm_page w (sb_after sub) MAX_REPLAY_EVENTS (sy_feed s) of
               Some page \<Rightarrow> Some (set_sub k (sub\<lparr>sb_phase := yield_page page\<rparr>) s)
             | None \<Rightarrow> None)
      | Live \<Rightarrow>
          (case feed_lookup w (sb_after sub) (sy_feed s) of
             Some (Ready p) \<Rightarrow> Some (set_sub k (deliver p Live sub) s)
           | Some Behind \<Rightarrow> Some (set_sub k (sub\<lparr>sb_phase := Reading\<rparr>) s)
           | Some CaughtUp \<Rightarrow> None
           | None \<Rightarrow> Some (end_sub k sub s)))"

inductive delivery_step :: "'e codec \<Rightarrow> ('k, 'e) system \<Rightarrow> ('k, 'e) system \<Rightarrow> bool" for cd where
  workspace: "sy_outbox s = [] \<Longrightarrow> jn_next (sy_journal s) w = None
    \<Longrightarrow> delivery_step cd s (s\<lparr>sy_journal := (sy_journal s)\<lparr>jn_next := (jn_next (sy_journal s))(w \<mapsto> 0)\<rparr>\<rparr>)"
| commit: "sy_outbox s = [] \<Longrightarrow> append_events cd evs (sy_journal s) = Ok (j, staged)
    \<Longrightarrow> delivery_step cd s (s\<lparr>sy_journal := j, sy_outbox := staged\<rparr>)"
| publication: "delivery_step cd s (s\<lparr>sy_feed := fst (publish (sy_outbox s) (sy_feed s)),
    sy_log := sy_log s @ sy_outbox s, sy_outbox := []\<rparr>)"
| attach_ring: "sy_subs s k = None \<Longrightarrow> attach_from_ring k w after s = Some s' \<Longrightarrow> delivery_step cd s s'"
| attach_store: "sy_subs s k = None \<Longrightarrow> sy_outbox s = [] \<Longrightarrow> attach_from_store cd k w after s = Ok s'
    \<Longrightarrow> delivery_step cd s s'"
| stream: "sy_subs s k = Some sub \<Longrightarrow> store \<longrightarrow> sy_outbox s = [] \<Longrightarrow> stream_step cd store k sub s = Some s'
    \<Longrightarrow> delivery_step cd s s'"
| leave: "sy_subs s k = Some sub \<Longrightarrow> delivery_step cd s (end_sub k sub s)"

inductive_cases delivery_stepE: "delivery_step cd s s'"

definition system_start :: "journal \<Rightarrow> ('k, 'e) system" where
  "system_start j = \<lparr>sy_journal = j, sy_feed = feed_new, sy_log = [], sy_outbox = [], sy_subs = (\<lambda>_. None)\<rparr>"

section \<open>Publication\<close>

lemma publish_loop_rings:
  "fd_rings (fst (publish_loop ps fd wake)) w = map_option (fold ring_push (log_of ps w)) (fd_rings fd w)
   \<and> fd_fresh (fst (publish_loop ps fd wake)) = fd_fresh fd"
proof (induction ps fd wake rule: publish_loop.induct)
  case (2 p ps fd wake)
  show ?case
  proof (cases "fd_rings fd (en_workspace (pb_envelope p))")
    case None
    then show ?thesis using 2(1) by (auto simp: log_of_def)
  next
    case (Some r)
    then show ?thesis using 2(2) [OF Some] by (auto simp: log_of_def)
  qed
qed (simp add: log_of_def option.map_ident)

lemmas publish_rings = publish_loop_rings [where wake = "[]", folded publish_def]

text \<open>A ring that got an event is woken.\<close>

lemma publish_loop_wakes:
  "set wake \<subseteq> set (snd (publish_loop ps fd wake))
   \<and> (fd_rings fd w = Some r \<longrightarrow> log_of ps w \<noteq> [] \<longrightarrow> rg_notify r \<in> set (snd (publish_loop ps fd wake)))"
proof (induction ps fd wake arbitrary: r rule: publish_loop.induct)
  case (2 p ps fd wake)
  show ?case
  proof (cases "fd_rings fd (en_workspace (pb_envelope p))")
    case None
    then show ?thesis using 2(1) by (auto simp: log_of_def)
  next
    case (Some r')
    have notify: "rg_notify (ring_push p r') = rg_notify r'"
      by (simp add: ring_push_def Let_def split: prod.split)
    show ?thesis
      using Some 2(2) [OF Some, of r] 2(2) [OF Some, of "ring_push p r'"] notify
      by (cases "en_workspace (pb_envelope p) = w") (auto simp: log_of_def)
  qed
qed (simp add: log_of_def)

lemma ring_push_same [simp]:
  "rg_notify (ring_push p r) = rg_notify r" "rg_subscribers (ring_push p r) = rg_subscribers r"
  by (simp_all add: ring_push_def Let_def split: prod.split)

lemma fold_push_same [simp]:
  "rg_notify (fold ring_push ps r) = rg_notify r" "rg_subscribers (fold ring_push ps r) = rg_subscribers r"
  by (induction ps arbitrary: r) simp_all

lemma numbered_appendD: "numbered (xs @ ys) \<Longrightarrow> numbered xs"
  by (auto simp: numbered_def nth_append split: if_splits)

lemma fold_push_inv:
  "numbered (lw @ ps) \<Longrightarrow> ring_inv lw r \<Longrightarrow>
   ring_inv (lw @ ps) (fold ring_push ps r) \<and> (ps \<noteq> [] \<longrightarrow> rg_events (fold ring_push ps r) \<noteq> [])"
proof (induction ps arbitrary: lw r)
  case (Cons p ps)
  have n: "numbered lw" using Cons.prems(1) by (rule numbered_appendD)
  have "sequence_of p = length lw + 1"
    using Cons.prems(1) by (auto simp: numbered_def nth_append dest!: spec [of _ "length lw"])
  then have "ring_inv (lw @ [p]) (ring_push p r)" "rg_events (ring_push p r) \<noteq> []"
    using ring_push_inv [OF n Cons.prems(2)] by simp_all
  then show ?case using Cons.IH [of "lw @ [p]" "ring_push p r"] Cons.prems(1) by (cases ps) simp_all
qed simp

section \<open>The invariant\<close>

definition segment :: "'a list \<Rightarrow> nat \<Rightarrow> 'a list \<Rightarrow> bool" where
  "segment l n xs \<longleftrightarrow> xs = take (length xs) (drop n l)"

lemma segment_append: "segment l n xs \<Longrightarrow> segment (l @ ys) n xs"
proof -
  assume "segment l n xs"
  then have s: "xs = take (length xs) (drop n l)" by (simp add: segment_def)
  then have "length xs \<le> length (drop n l)" by (metis length_take min.absorb_iff1 min.commute)
  then have "take (length xs) (drop n (l @ ys)) = take (length xs) (drop n l)" by simp
  with s show ?thesis by (simp add: segment_def)
qed

lemma segment_take: "segment l n (take m (drop n l))"
  by (auto simp: segment_def min_def)

lemma segment_Cons: "segment l n (x # xs) \<longleftrightarrow> n < length l \<and> x = l ! n \<and> segment l (Suc n) xs"
  by (cases "n < length l") (auto simp: segment_def Cons_nth_drop_Suc [symmetric])

lemma segment_snoc: "segment l n xs \<Longrightarrow> n + length xs < length l \<Longrightarrow> segment l n (xs @ [l ! (n + length xs)])"
  by (simp add: segment_def take_Suc_conv_app_nth)

definition full_log :: "('k, 'e) system \<Rightarrow> 'e log" where
  "full_log s = log_of (sy_log s @ sy_outbox s)"

fun phase_ok :: "'e published list \<Rightarrow> 'e published list \<Rightarrow> 'e ring \<Rightarrow> nat \<Rightarrow> 'e phase \<Rightarrow> bool" where
  "phase_ok fl lw r after (Yielding page caught_up) \<longleftrightarrow>
     segment fl after page \<and> (caught_up \<longrightarrow> rg_events r = [] \<longrightarrow> length lw \<le> after + length page)"
| "phase_ok fl lw r after Reading \<longleftrightarrow> True"
| "phase_ok fl lw r after Live \<longleftrightarrow> (rg_events r = [] \<longrightarrow> length lw \<le> after)"

definition sub_ok :: "('k, 'e) system \<Rightarrow> 'e subscription \<Rightarrow> bool" where
  "sub_ok s sub \<longleftrightarrow>
     (let w = rc_workspace (sb_receiver sub) in
      sb_after sub = sb_start sub + length (sb_delivered sub) \<and> segment (full_log s w) (sb_start sub) (sb_delivered sub)
      \<and> (\<exists>r. fd_rings (sy_feed s) w = Some r \<and> rg_notify r = rc_notify (sb_receiver sub)
           \<and> phase_ok (full_log s w) (log_of (sy_log s) w) r (sb_after sub) (sb_phase sub)))"

definition listeners :: "('k, 'e) system \<Rightarrow> ident \<Rightarrow> 'k set" where
  "listeners s w = {k. \<exists>sub. sy_subs s k = Some sub \<and> rc_workspace (sb_receiver sub) = w}"

definition ring_ok :: "('k, 'e) system \<Rightarrow> ident \<Rightarrow> 'e ring \<Rightarrow> bool" where
  "ring_ok s w r \<longleftrightarrow> ring_inv (log_of (sy_log s) w) r \<and> rg_subscribers r = card (listeners s w)"

definition system_inv :: "'e codec \<Rightarrow> ('k, 'e) system \<Rightarrow> bool" where
  "system_inv cd s \<longleftrightarrow> journal_inv cd (full_log s) (sy_journal s) \<and> finite (dom (sy_subs s))
     \<and> (\<forall>w r. fd_rings (sy_feed s) w = Some r \<longrightarrow> ring_ok s w r)
     \<and> (\<forall>k sub. sy_subs s k = Some sub \<longrightarrow> sub_ok s sub)"

lemma full_log_update [simp]:
  "full_log (s\<lparr>sy_feed := fd\<rparr>) = full_log s" "full_log (s\<lparr>sy_subs := f\<rparr>) = full_log s"
  "full_log (s\<lparr>sy_journal := j\<rparr>) = full_log s"
  by (simp_all add: full_log_def)

lemma full_log_split: "full_log s w = log_of (sy_log s) w @ log_of (sy_outbox s) w"
  by (simp add: full_log_def log_of_append)

lemma system_numbered:
  assumes "system_inv cd s"
  shows "numbered (full_log s w)" and "numbered (log_of (sy_log s) w)"
proof -
  show "numbered (full_log s w)"
    using assms by (auto simp: system_inv_def journal_inv_def log_ok_def numbered_def sequence_of_def)
  then show "numbered (log_of (sy_log s) w)" unfolding full_log_split by (rule numbered_appendD)
qed

lemma finite_listeners: "finite (dom (sy_subs s)) \<Longrightarrow> finite (listeners s w)"
  by (rule finite_subset [rotated]) (auto simp: listeners_def)

lemma sub_ring:
  assumes "system_inv cd s" and "sy_subs s k = Some sub"
  obtains r where "fd_rings (sy_feed s) (rc_workspace (sb_receiver sub)) = Some r"
    and "rg_notify r = rc_notify (sb_receiver sub)" and "ring_ok s (rc_workspace (sb_receiver sub)) r"
    and "phase_ok (full_log s (rc_workspace (sb_receiver sub))) (log_of (sy_log s) (rc_workspace (sb_receiver sub))) r
      (sb_after sub) (sb_phase sub)"
proof -
  have "sub_ok s sub" and "\<forall>w r. fd_rings (sy_feed s) w = Some r \<longrightarrow> ring_ok s w r"
    using assms by (auto simp: system_inv_def)
  then show thesis using that by (auto simp: sub_ok_def Let_def)
qed

lemma sub_ok_transfer:
  assumes "sub_ok s sub" and "w = rc_workspace (sb_receiver sub)"
    and fl: "full_log s' w = full_log s w @ x"
    and ring: "\<And>r. fd_rings (sy_feed s) w = Some r \<Longrightarrow> \<exists>r'. fd_rings (sy_feed s') w = Some r' \<and> rg_notify r' = rg_notify r
      \<and> (rg_events r' = [] \<longrightarrow> rg_events r = [] \<and> length (log_of (sy_log s') w) = length (log_of (sy_log s) w))"
  shows "sub_ok s' sub"
proof -
  from assms(1,2) obtain r where r: "fd_rings (sy_feed s) w = Some r" "rg_notify r = rc_notify (sb_receiver sub)"
    "phase_ok (full_log s w) (log_of (sy_log s) w) r (sb_after sub) (sb_phase sub)"
    and d: "sb_after sub = sb_start sub + length (sb_delivered sub)" "segment (full_log s w) (sb_start sub) (sb_delivered sub)"
    by (auto simp: sub_ok_def Let_def)
  from ring [OF r(1)] obtain r' where r': "fd_rings (sy_feed s') w = Some r'" "rg_notify r' = rg_notify r"
    "rg_events r' = [] \<longrightarrow> rg_events r = [] \<and> length (log_of (sy_log s') w) = length (log_of (sy_log s) w)" by blast
  have "phase_ok (full_log s' w) (log_of (sy_log s') w) r' (sb_after sub) (sb_phase sub)"
    using r(3) r'(3) fl by (cases "sb_phase sub") (auto intro: segment_append)
  then show ?thesis
    using d r(2) r'(1,2) fl assms(2) by (auto simp: sub_ok_def Let_def intro: segment_append)
qed

section \<open>Every step keeps the invariant\<close>

lemma inv_workspace:
  assumes inv: "system_inv cd s" and "jn_next (sy_journal s) w = None"
  shows "system_inv cd (s\<lparr>sy_journal := (sy_journal s)\<lparr>jn_next := (jn_next (sy_journal s))(w \<mapsto> 0)\<rparr>\<rparr>)"
    (is "system_inv cd ?s")
proof -
  have "\<forall>v. case jn_next (sy_journal s) v of None \<Rightarrow> full_log s v = [] | Some n \<Rightarrow> length (full_log s v) = n"
    using inv by (simp add: system_inv_def journal_inv_def)
  then have "full_log s w = []" using assms(2) by (auto dest!: spec [of _ w])
  then have "journal_inv cd (full_log ?s) (sy_journal ?s)"
    using inv by (auto simp: system_inv_def journal_inv_def full_log_def counted_def rows_of_def)
  then show ?thesis
    using inv by (simp add: system_inv_def ring_ok_def sub_ok_def listeners_def full_log_def)
qed

lemma inv_commit:
  assumes inv: "system_inv cd s" and "sy_outbox s = []" and a: "append_events cd evs (sy_journal s) = Ok (j, staged)"
  shows "system_inv cd (s\<lparr>sy_journal := j, sy_outbox := staged\<rparr>)" (is "system_inv cd ?s")
proof -
  have "journal_inv cd (full_log ?s) j"
    using append_events_inv [OF _ a, of "sy_log s"] inv assms(2) by (simp add: system_inv_def full_log_def)
  moreover have "sub_ok ?s sub" if "sy_subs s k = Some sub" for k sub
  proof (rule sub_ok_transfer [OF _ refl])
    show "sub_ok s sub" using inv that by (auto simp: system_inv_def)
    show "full_log ?s (rc_workspace (sb_receiver sub))
       = full_log s (rc_workspace (sb_receiver sub)) @ log_of staged (rc_workspace (sb_receiver sub))"
      using assms(2) by (simp add: full_log_split log_of_def)
  qed simp
  ultimately show ?thesis
    using inv by (auto simp: system_inv_def ring_ok_def listeners_def)
qed

lemma inv_publication:
  assumes inv: "system_inv cd s"
  shows "system_inv cd (s\<lparr>sy_feed := fst (publish (sy_outbox s) (sy_feed s)), sy_log := sy_log s @ sy_outbox s, sy_outbox := []\<rparr>)"
    (is "system_inv cd ?s")
proof -
  have fl: "full_log ?s = full_log s" by (simp add: full_log_def)
  have rings: "fd_rings (sy_feed ?s) w = map_option (fold ring_push (log_of (sy_outbox s) w)) (fd_rings (sy_feed s) w)" for w
    by (simp add: publish_rings)
  have lw: "log_of (sy_log ?s) w = log_of (sy_log s) w @ log_of (sy_outbox s) w" for w by (simp add: log_of_append)
  have ring: "ring_ok ?s w (fold ring_push (log_of (sy_outbox s) w) r)
      \<and> (log_of (sy_outbox s) w \<noteq> [] \<longrightarrow> rg_events (fold ring_push (log_of (sy_outbox s) w) r) \<noteq> [])"
    if "fd_rings (sy_feed s) w = Some r" for w r
  proof -
    have "ring_inv (log_of (sy_log s) w) r" "rg_subscribers r = card (listeners s w)"
      using inv that by (auto simp: system_inv_def ring_ok_def)
    then show ?thesis
      using fold_push_inv [OF system_numbered(1) [OF inv, of w, unfolded full_log_split]]
      by (simp add: ring_ok_def lw listeners_def log_of_append)
  qed
  have "sub_ok ?s sub" if "sy_subs s k = Some sub" for k sub
  proof (rule sub_ok_transfer [OF _ refl, where x = "[]"])
    let ?w = "rc_workspace (sb_receiver sub)"
    show "sub_ok s sub" using inv that by (auto simp: system_inv_def)
    fix r
    assume r: "fd_rings (sy_feed s) ?w = Some r"
    show "\<exists>r'. fd_rings (sy_feed ?s) ?w = Some r' \<and> rg_notify r' = rg_notify r
      \<and> (rg_events r' = [] \<longrightarrow> rg_events r = [] \<and> length (log_of (sy_log ?s) ?w) = length (log_of (sy_log s) ?w))"
      using ring [OF r] by (cases "log_of (sy_outbox s) ?w = []") (simp_all add: publish_rings r log_of_append)
  qed (simp add: fl)
  moreover have "ring_ok ?s w r" if "fd_rings (sy_feed ?s) w = Some r" for w r
    using that ring unfolding rings by auto
  ultimately show ?thesis using inv fl by (auto simp: system_inv_def)
qed

text \<open>A new subscription: one more listener on a ring that holds the end of the log.\<close>

lemma inv_attach:
  assumes inv: "system_inv cd s" and "sy_subs s k = None"
    and rings: "fd_rings fd = (fd_rings (sy_feed s))(w \<mapsto> r1\<lparr>rg_subscribers := rg_subscribers r1 + 1\<rparr>)"
    and rc: "rc = \<lparr>rc_workspace = w, rc_notify = rg_notify r1\<rparr>"
    and r1: "ring_inv (log_of (sy_log s) w) r1"
    and old: "case fd_rings (sy_feed s) w of None \<Rightarrow> rg_subscribers r1 = 0
      | Some r \<Rightarrow> rg_notify r1 = rg_notify r \<and> rg_subscribers r1 = rg_subscribers r \<and> rg_events r1 = rg_events r"
    and page: "segment (full_log s w) after page"
    and short: "length page < MAX_REPLAY_EVENTS \<Longrightarrow> rg_events r1 = [] \<Longrightarrow> length (log_of (sy_log s) w) \<le> after + length page"
  shows "system_inv cd (s\<lparr>sy_feed := fd, sy_subs := (sy_subs s)(k \<mapsto> open_subscription rc after page)\<rparr>)"
    (is "system_inv cd ?s")
proof -
  have fl: "full_log ?s = full_log s" by (simp add: full_log_def)
  have fin: "finite (listeners s v)" for v using inv by (simp add: system_inv_def finite_listeners)
  have ls: "listeners ?s v = (if v = w then insert k (listeners s v) else listeners s v)" for v
    using assms(2) by (auto simp: listeners_def open_subscription_def rc)
  have none: "listeners s w = {}" if "fd_rings (sy_feed s) w = None"
    using that by (auto simp: listeners_def elim: sub_ring [OF inv])
  have card: "rg_subscribers r1 = card (listeners s w)"
    using inv old none by (cases "fd_rings (sy_feed s) w") (auto simp: system_inv_def ring_ok_def)
  have k: "k \<notin> listeners s w" using assms(2) by (simp add: listeners_def)
  have ring: "ring_ok ?s v r" if "fd_rings (sy_feed ?s) v = Some r" for v r
  proof (cases "v = w")
    case True
    then show ?thesis using that r1 rings card k fin by (auto simp: ring_ok_def ls ring_inv_def)
  next
    case False
    then show ?thesis using that inv rings by (auto simp: system_inv_def ring_ok_def ls)
  qed
  have "sub_ok ?s sub" if "sy_subs s k' = Some sub" for k' sub
  proof (rule sub_ok_transfer [OF _ refl, where x = "[]"])
    let ?v = "rc_workspace (sb_receiver sub)"
    show "sub_ok s sub" using inv that by (auto simp: system_inv_def)
    fix r
    assume "fd_rings (sy_feed s) ?v = Some r"
    then show "\<exists>r'. fd_rings (sy_feed ?s) ?v = Some r' \<and> rg_notify r' = rg_notify r
      \<and> (rg_events r' = [] \<longrightarrow> rg_events r = [] \<and> length (log_of (sy_log ?s) ?v) = length (log_of (sy_log s) ?v))"
      using old by (cases "?v = w") (auto simp: rings)
  qed (simp add: fl)
  moreover have "sub_ok ?s (open_subscription rc after page)"
    using page short by (auto simp: sub_ok_def open_subscription_def yield_page_def rc rings Let_def segment_def)
  ultimately show ?thesis using inv fl ring by (auto simp: system_inv_def)
qed

lemma inv_attach_ring:
  assumes inv: "system_inv cd s" and "sy_subs s k = None" and a: "attach_from_ring k w after s = Some s'"
  shows "system_inv cd s'"
proof -
  obtain r where r: "fd_rings (sy_feed s) w = Some r" and c: "covers r after"
    and s': "s' = s\<lparr>sy_feed := (sy_feed s)\<lparr>fd_rings := (fd_rings (sy_feed s))(w \<mapsto> r\<lparr>rg_subscribers := rg_subscribers r + 1\<rparr>)\<rparr>,
      sy_subs := (sy_subs s)(k \<mapsto> open_subscription \<lparr>rc_workspace = w, rc_notify = rg_notify r\<rparr> after
        (ring_page r after MAX_REPLAY_EVENTS))\<rparr>"
    using a by (auto simp: attach_from_ring_def attach_warm_def split: option.splits if_splits)
  have ri: "ring_inv (log_of (sy_log s) w) r" using inv r by (auto simp: system_inv_def ring_ok_def)
  note page = covers_page [OF system_numbered(2) [OF inv] ri c]
  show ?thesis unfolding s'
  proof (rule inv_attach [OF inv assms(2) _ refl ri])
    show "segment (full_log s w) after (ring_page r after MAX_REPLAY_EVENTS)"
      unfolding page(1) full_log_split by (intro segment_append segment_take)
    show "length (log_of (sy_log s) w) \<le> after + length (ring_page r after MAX_REPLAY_EVENTS)"
      if "length (ring_page r after MAX_REPLAY_EVENTS) < MAX_REPLAY_EVENTS"
      using that page(1) by (simp add: min_def split: if_splits)
  qed (simp_all add: r)
qed

lemma read_page:
  assumes "codec_ok cd" and "system_inv cd s"
    and "read_published_events cd w after MAX_REPLAY_EVENTS (sy_journal s) = Ok page"
  shows "page = take MAX_REPLAY_EVENTS (drop after (full_log s w))"
  using assms read_page_log [OF assms(1), of "full_log s" "sy_journal s" w after MAX_REPLAY_EVENTS]
  by (auto simp: system_inv_def split: if_splits)

lemma short_page: "length (take m (drop n xs)) < m \<Longrightarrow> take m (drop n xs) = drop n xs \<and> length xs \<le> n + length (take m (drop n xs))"
  by (auto simp: min_def split: if_splits)

lemma inv_attach_store:
  assumes "codec_ok cd" and inv: "system_inv cd s" and "sy_subs s k = None" and out: "sy_outbox s = []"
    and a: "attach_from_store cd k w after s = Ok s'"
  shows "system_inv cd s'"
proof -
  let ?lw = "log_of (sy_log s) w"
  obtain page where read: "read_published_events cd w after MAX_REPLAY_EVENTS (sy_journal s) = Ok page"
    using a by (auto simp: attach_from_store_def split: sum.splits)
  have fl: "full_log s w = ?lw" using out by (simp add: full_log_def)
  have page: "page = take MAX_REPLAY_EVENTS (drop after ?lw)"
    using read_page [OF assms(1) inv read] fl by simp
  define r where "r = (case fd_rings (sy_feed s) w of Some r \<Rightarrow> r | None \<Rightarrow> ring_new (fd_fresh (sy_feed s)))"
  define r1 where "r1 = seed_tail page (length page < MAX_REPLAY_EVENTS) r"
  obtain fresh where s': "s' = s\<lparr>sy_feed := \<lparr>fd_rings = (fd_rings (sy_feed s))(w \<mapsto> r1\<lparr>rg_subscribers := rg_subscribers r1 + 1\<rparr>),
      fd_fresh = fresh\<rparr>, sy_subs := (sy_subs s)(k \<mapsto> open_subscription \<lparr>rc_workspace = w, rc_notify = rg_notify r1\<rparr> after page)\<rparr>"
    using a read by (auto simp: attach_from_store_def attach_cold_def Let_def r_def r1_def split: option.splits)
  have "ring_inv ?lw r"
    using inv by (cases "fd_rings (sy_feed s) w") (auto simp: r_def system_inv_def ring_ok_def ring_inv_def ring_new_def)
  moreover have "sequence_of (last page) = length ?lw" if "length page < MAX_REPLAY_EVENTS" "page \<noteq> []"
  proof -
    have "page = drop after ?lw" using short_page that(1) page by metis
    then show ?thesis
      using that(2) system_numbered(2) [OF inv, of w] by (auto simp: numbered_def last_drop last_conv_nth)
  qed
  ultimately have ri: "ring_inv ?lw r1" by (auto simp: ring_inv_def r1_def seed_tail_def split: option.splits)
  show ?thesis unfolding s'
  proof (rule inv_attach [OF inv assms(3) _ refl ri])
    show "segment (full_log s w) after page" unfolding fl page by (rule segment_take)
    show "length ?lw \<le> after + length page" if "length page < MAX_REPLAY_EVENTS"
      using that short_page page by metis
  qed (auto simp: r1_def seed_tail_def r_def ring_new_def split: option.splits)
qed

lemma sub_ok_subs [simp]: "sub_ok (s\<lparr>sy_subs := f\<rparr>) sub = sub_ok s sub"
  by (simp add: sub_ok_def)

lemma inv_set_sub:
  assumes inv: "system_inv cd s" and "sy_subs s k = Some sub" and "sb_receiver sub' = sb_receiver sub" and "sub_ok s sub'"
  shows "system_inv cd (set_sub k sub' s)"
proof -
  have "listeners (set_sub k sub' s) w = listeners s w" for w
    using assms(2,3) by (auto simp: listeners_def set_sub_def)
  then show ?thesis
    using inv assms(4) by (auto simp: system_inv_def set_sub_def ring_ok_def)
qed

lemma inv_end_sub:
  assumes inv: "system_inv cd s" and k: "sy_subs s k = Some sub"
  shows "system_inv cd (end_sub k sub s)" (is "system_inv cd ?s")
proof -
  let ?w = "rc_workspace (sb_receiver sub)"
  obtain r where r: "fd_rings (sy_feed s) ?w = Some r" "rg_notify r = rc_notify (sb_receiver sub)" "ring_ok s ?w r"
    by (rule sub_ring [OF inv k])
  have fin: "finite (listeners s v)" for v using inv by (simp add: system_inv_def finite_listeners)
  have ls: "listeners ?s v = (if v = ?w then listeners s v - {k} else listeners s v)" for v
    using k by (auto simp: listeners_def end_sub_def)
  have "k \<in> listeners s ?w" using k by (simp add: listeners_def)
  then have card: "card (listeners ?s ?w) = rg_subscribers r - 1" using r(3) fin by (simp add: ring_ok_def ls)
  have rings: "fd_rings (sy_feed ?s) = (fd_rings (sy_feed s))(?w :=
      (if rg_subscribers r - 1 = 0 then None else Some (r\<lparr>rg_subscribers := rg_subscribers r - 1\<rparr>)))"
    using r by (simp add: end_sub_def drop_receiver_def)
  have "ring_ok ?s v r'" if v: "fd_rings (sy_feed ?s) v = Some r'" for v r'
  proof (cases "v = ?w")
    case True
    then show ?thesis
      using v r(3) card unfolding rings by (auto simp: ring_ok_def ring_inv_def end_sub_def split: if_splits)
  next
    case False
    then show ?thesis using v inv unfolding rings by (auto simp: system_inv_def ring_ok_def ls) (simp add: end_sub_def)
  qed
  moreover have "sub_ok ?s sub'" if s': "sy_subs ?s k' = Some sub'" for k' sub'
  proof (rule sub_ok_transfer [OF _ refl, where x = "[]"])
    let ?v = "rc_workspace (sb_receiver sub')"
    have k': "sy_subs s k' = Some sub'" "k' \<noteq> k" using s' by (auto simp: end_sub_def split: if_splits)
    then show "sub_ok s sub'" using inv by (auto simp: system_inv_def)
    have "rg_subscribers r - 1 \<noteq> 0" if "?v = ?w"
    proof -
      have "k' \<in> listeners ?s ?w" using k' that by (auto simp: listeners_def end_sub_def)
      then show ?thesis using card fin ls by (metis card_gt_0_iff empty_iff finite_Diff less_irrefl)
    qed
    then show "\<exists>r'. fd_rings (sy_feed ?s) ?v = Some r' \<and> rg_notify r' = rg_notify r0
      \<and> (rg_events r' = [] \<longrightarrow> rg_events r0 = [] \<and> length (log_of (sy_log ?s) ?v) = length (log_of (sy_log s) ?v))"
      if "fd_rings (sy_feed s) ?v = Some r0" for r0
      using that r(1) unfolding rings by (auto simp: end_sub_def)
  qed (simp add: end_sub_def full_log_def)
  ultimately show ?thesis using inv by (auto simp: system_inv_def end_sub_def full_log_def)
qed

text \<open>The next event of a subscription.\<close>

lemma deliver_ok:
  assumes inv: "system_inv cd s" and k: "sy_subs s k = Some sub"
    and p: "p = full_log s (rc_workspace (sb_receiver sub)) ! sb_after sub"
    and len: "sb_after sub < length (full_log s (rc_workspace (sb_receiver sub)))"
    and ph: "\<And>r. phase_ok (full_log s (rc_workspace (sb_receiver sub))) (log_of (sy_log s) (rc_workspace (sb_receiver sub))) r
        (sb_after sub) (sb_phase sub)
      \<Longrightarrow> phase_ok (full_log s (rc_workspace (sb_receiver sub))) (log_of (sy_log s) (rc_workspace (sb_receiver sub))) r
        (Suc (sb_after sub)) ph"
  shows "system_inv cd (set_sub k (deliver p ph sub) s)"
proof (rule inv_set_sub [OF inv k])
  let ?w = "rc_workspace (sb_receiver sub)"
  have "sub_ok s sub" using inv k by (auto simp: system_inv_def)
  then have d: "sb_after sub = sb_start sub + length (sb_delivered sub)"
    "segment (full_log s ?w) (sb_start sub) (sb_delivered sub)"
    by (simp_all add: sub_ok_def Let_def)
  have seq: "sequence_of p = Suc (sb_after sub)"
    using system_numbered(1) [OF inv, of ?w] p len by (simp add: numbered_def)
  have "segment (full_log s ?w) (sb_start sub) (sb_delivered sub @ [p])"
    using segment_snoc [OF d(2)] d(1) p len by simp
  moreover obtain r where "fd_rings (sy_feed s) ?w = Some r" "rg_notify r = rc_notify (sb_receiver sub)"
    "phase_ok (full_log s ?w) (log_of (sy_log s) ?w) r (Suc (sb_after sub)) ph"
    using ph by (metis sub_ring [OF inv k])
  ultimately show "sub_ok s (deliver p ph sub)"
    using d(1) seq by (auto simp: sub_ok_def deliver_def Let_def)
qed (simp add: deliver_def)

lemma page_ok:
  assumes inv: "system_inv cd s" and k: "sy_subs s k = Some sub"
    and page: "page = take MAX_REPLAY_EVENTS (drop (sb_after sub) l)"
    and l: "full_log s (rc_workspace (sb_receiver sub)) = l @ x"
      "length (log_of (sy_log s) (rc_workspace (sb_receiver sub))) \<le> length l"
  shows "system_inv cd (set_sub k (sub\<lparr>sb_phase := yield_page page\<rparr>) s)"
proof (rule inv_set_sub [OF inv k])
  have "segment (l @ x) (sb_after sub) page" unfolding page by (intro segment_append segment_take)
  moreover have "length l \<le> sb_after sub + length page" if "length page < MAX_REPLAY_EVENTS"
    using that short_page page by metis
  moreover have "sub_ok s sub" using inv k by (auto simp: system_inv_def)
  ultimately show "sub_ok s (sub\<lparr>sb_phase := yield_page page\<rparr>)"
    using l by (auto simp: sub_ok_def yield_page_def Let_def)
qed simp

lemma phase_change:
  assumes inv: "system_inv cd s" and k: "sy_subs s k = Some sub"
    and ph: "\<And>r. phase_ok (full_log s (rc_workspace (sb_receiver sub))) (log_of (sy_log s) (rc_workspace (sb_receiver sub))) r
        (sb_after sub) (sb_phase sub)
      \<Longrightarrow> phase_ok (full_log s (rc_workspace (sb_receiver sub))) (log_of (sy_log s) (rc_workspace (sb_receiver sub))) r
        (sb_after sub) ph"
  shows "system_inv cd (set_sub k (sub\<lparr>sb_phase := ph\<rparr>) s)"
proof (rule inv_set_sub [OF inv k])
  have "sub_ok s sub" using inv k by (auto simp: system_inv_def)
  then show "sub_ok s (sub\<lparr>sb_phase := ph\<rparr>)" using ph by (auto simp: sub_ok_def Let_def)
qed simp

lemma live_lookup:
  assumes inv: "system_inv cd s" and k: "sy_subs s k = Some sub" and "sb_phase sub = Live"
  defines "w \<equiv> rc_workspace (sb_receiver sub)"
  shows "feed_lookup w (sb_after sub) (sy_feed s) \<noteq> None"
    and "feed_lookup w (sb_after sub) (sy_feed s) = Some CaughtUp \<Longrightarrow> length (log_of (sy_log s) w) \<le> sb_after sub"
    and "feed_lookup w (sb_after sub) (sy_feed s) = Some (Ready p)
      \<Longrightarrow> sb_after sub < length (log_of (sy_log s) w) \<and> p = log_of (sy_log s) w ! sb_after sub"
proof -
  obtain r where r: "fd_rings (sy_feed s) w = Some r" "ring_ok s w r"
    "phase_ok (full_log s w) (log_of (sy_log s) w) r (sb_after sub) (sb_phase sub)"
    unfolding w_def by (rule sub_ring [OF inv k])
  have ri: "ring_inv (log_of (sy_log s) w) r" using r(2) by (simp add: ring_ok_def)
  note exact = ring_lookup_exact [OF system_numbered(2) [OF inv] ri, of "sb_after sub"]
  show "feed_lookup w (sb_after sub) (sy_feed s) \<noteq> None" using r(1) by (simp add: feed_lookup_def)
  show "length (log_of (sy_log s) w) \<le> sb_after sub" if "feed_lookup w (sb_after sub) (sy_feed s) = Some CaughtUp"
    using that r(1,3) exact assms(3) by (cases "rg_events r = []") (auto simp: feed_lookup_def split: if_splits)
  show "sb_after sub < length (log_of (sy_log s) w) \<and> p = log_of (sy_log s) w ! sb_after sub"
    if "feed_lookup w (sb_after sub) (sy_feed s) = Some (Ready p)"
    using that r(1) exact
    by (cases "rg_events r = []") (auto simp: feed_lookup_def ring_lookup_def split: if_splits option.splits)
qed

lemma inv_stream:
  assumes cd: "codec_ok cd" and inv: "system_inv cd s" and k: "sy_subs s k = Some sub"
    and out: "store \<longrightarrow> sy_outbox s = []" and st: "stream_step cd store k sub s = Some s'"
  shows "system_inv cd s'"
proof -
  let ?w = "rc_workspace (sb_receiver sub)"
  show ?thesis
  proof (cases "sb_phase sub")
    case (Yielding page caught_up)
    obtain r where "phase_ok (full_log s ?w) (log_of (sy_log s) ?w) r (sb_after sub) (sb_phase sub)"
      by (rule sub_ring [OF inv k])
    then have seg: "segment (full_log s ?w) (sb_after sub) page" by (simp add: Yielding)
    show ?thesis
    proof (cases page)
      case Nil
      then have "s' = set_sub k (sub\<lparr>sb_phase := (if caught_up then Live else Reading)\<rparr>) s"
        using st by (simp add: stream_step_def Yielding)
      then show ?thesis using Yielding Nil by (simp, intro phase_change [OF inv k] conjI impI) simp_all
    next
      case (Cons p page')
      then have "s' = set_sub k (deliver p (Yielding page' caught_up) sub) s"
        using st by (simp add: stream_step_def Yielding)
      then show ?thesis
        using seg Yielding Cons by (simp, intro deliver_ok [OF inv k]) (auto simp: segment_Cons)
    qed
  next
    case Reading
    show ?thesis
    proof (cases store)
      case True
      show ?thesis
      proof (cases "read_published_events cd ?w (sb_after sub) MAX_REPLAY_EVENTS (sy_journal s)")
        case (Inl e)
        then show ?thesis using st True Reading inv_end_sub [OF inv k] by (simp add: stream_step_def)
      next
        case (Inr page)
        then show ?thesis
          using st True Reading page_ok [OF inv k read_page [OF cd inv Inr], of "[]"] by (simp add: stream_step_def full_log_split)
      qed
    next
      case False
      obtain r where r: "fd_rings (sy_feed s) ?w = Some r" "ring_ok s ?w r" by (rule sub_ring [OF inv k])
      then have ri: "ring_inv (log_of (sy_log s) ?w) r" by (simp add: ring_ok_def)
      have "covers r (sb_after sub)" and s': "s' = set_sub k (sub\<lparr>sb_phase := yield_page (ring_page r (sb_after sub) MAX_REPLAY_EVENTS)\<rparr>) s"
        using st False Reading r(1) by (auto simp: stream_step_def warm_page_def split: if_splits)
      then show ?thesis unfolding s'
        using page_ok [OF inv k covers_page(1) [OF system_numbered(2) [OF inv] ri]] full_log_split by blast
    qed
  next
    case Live
    show ?thesis
    proof (cases "feed_lookup ?w (sb_after sub) (sy_feed s)")
      case None
      then show ?thesis using live_lookup(1) [OF inv k Live] by simp
    next
      case (Some look)
      show ?thesis
      proof (cases look)
        case (Ready p)
        then have "sb_after sub < length (log_of (sy_log s) ?w) \<and> p = log_of (sy_log s) ?w ! sb_after sub"
          using live_lookup(3) [OF inv k Live] Some by simp
        moreover have "s' = set_sub k (deliver p Live sub) s" using st Live Some Ready by (simp add: stream_step_def)
        ultimately show ?thesis
          using Live by (simp, intro deliver_ok [OF inv k]) (auto simp: full_log_split nth_append)
      next
        case Behind
        then have "s' = set_sub k (sub\<lparr>sb_phase := Reading\<rparr>) s" using st Live Some by (simp add: stream_step_def)
        then show ?thesis by (simp add: phase_change [OF inv k])
      next
        case CaughtUp
        then show ?thesis using st Live Some by (simp add: stream_step_def)
      qed
    qed
  qed
qed

lemma delivery_step_inv: "codec_ok cd \<Longrightarrow> delivery_step cd s s' \<Longrightarrow> system_inv cd s \<Longrightarrow> system_inv cd s'"
  by (erule delivery_stepE)
    (auto intro: inv_workspace inv_commit inv_publication inv_attach_ring inv_attach_store inv_stream inv_end_sub)

lemma system_start_inv: "fresh_journal j \<Longrightarrow> system_inv cd (system_start j)"
  using fresh_journal_inv [of j cd] by (simp add: system_inv_def system_start_def full_log_def feed_new_def)

lemma reachable_inv:
  assumes "codec_ok cd" and "fresh_journal j"
  shows "(delivery_step cd)\<^sup>*\<^sup>* (system_start j) s \<Longrightarrow> system_inv cd s"
  by (induction rule: rtranclp_induct) (auto intro: system_start_inv assms delivery_step_inv)

section \<open>Delivery is exact\<close>

text \<open>C27 (safety). Whatever the threads do in whatever order (commits, publications, subscriptions that come
  from the ring or from the store, evictions, retention, clients that leave), the events a subscription has
  handed out are the committed events of its workspace from its cursor on: each once, in order, without a
  gap, and its cursor stands behind the last of them.\<close>

theorem delivered_in_order:
  assumes "codec_ok cd" and "fresh_journal j" and "(delivery_step cd)\<^sup>*\<^sup>* (system_start j) s"
    and "sy_subs s k = Some sub"
  shows "sb_delivered sub = take (length (sb_delivered sub))
      (drop (sb_start sub) (log_of (sy_log s @ sy_outbox s) (rc_workspace (sb_receiver sub))))
    \<and> sb_after sub = sb_start sub + length (sb_delivered sub)"
proof -
  have "sub_ok s sub" using reachable_inv [OF assms(1-3)] assms(4) by (auto simp: system_inv_def)
  then show ?thesis by (simp add: sub_ok_def Let_def segment_def full_log_def)
qed


text \<open>One event is committed, somebody subscribes before it is published, and reads it from the store.\<close>

definition demo_published :: "unit published" where
  "demo_published = \<lparr>pb_envelope = demo_envelope, pb_json = ''{}''\<rparr>"

lemma demo_reaches:
  "\<exists>s :: (nat, unit) system. \<exists>sub. (delivery_step demo_codec)\<^sup>*\<^sup>* (system_start demo_journal) s \<and> sy_subs s 0 = Some sub
     \<and> sb_delivered sub = [demo_published] \<and> sb_start sub = 0 \<and> sb_phase sub = Live
     \<and> rc_workspace (sb_receiver sub) = ''w'' \<and> log_of (sy_log s) ''w'' = [demo_published]"
proof -
  let ?s0 = "system_start demo_journal :: (nat, unit) system"
  define j1 where "j1 = \<lparr>jn_next = [''w'' \<mapsto> 1], jn_rows = [\<lparr>jr_workspace = ''w'', jr_sequence = 1, jr_json = ''{}''\<rparr>],
    jn_bytes = 2, jn_count = 1, jn_runs = (\<lambda>_. None)\<rparr>"
  define s1 where "s1 = ?s0\<lparr>sy_journal := j1, sy_outbox := [demo_published]\<rparr>"
  define s2 where "s2 = s1\<lparr>sy_log := [demo_published], sy_outbox := []\<rparr>"
  have p: "en_workspace (pb_envelope demo_published) = ''w''" "sequence_of demo_published = 1" "pb_json demo_published = ''{}''"
    by (simp_all add: demo_published_def sequence_of_def demo_envelope_def make_envelope_def demo_event_context_def)
  have "append_events demo_codec [(demo_event_context, OtherEvent ())] (sy_journal ?s0) = Ok (j1, [demo_published])"
    using demo_append by (simp add: system_start_def j1_def demo_published_def del: append_events.simps)
  then have t1: "delivery_step demo_codec ?s0 s1"
    unfolding s1_def by (rule commit [rotated]) (simp add: system_start_def)
  have t2: "delivery_step demo_codec s1 s2"
    using publication [of demo_codec s1] by (simp add: s2_def s1_def system_start_def publish_def feed_new_def p)
  have read: "read_published_events demo_codec ''w'' 0 MAX_REPLAY_EVENTS j1 = Ok [demo_published]"
    by (simp add: read_published_events_def ensure_workspace_def read_published_event_page_def rows_of_def j1_def Let_def
        MAX_REPLAY_EVENTS_def decode_row_def demo_codec_def demo_published_def demo_envelope_def make_envelope_def)
  define sub where "sub = open_subscription \<lparr>rc_workspace = ''w'', rc_notify = 0\<rparr> 0 [demo_published]"
  define s3 where "s3 = s2\<lparr>sy_feed := \<lparr>fd_rings = [''w'' \<mapsto> (ring_new 0)\<lparr>rg_tail := Some 1, rg_subscribers := 1\<rparr>], fd_fresh = 1\<rparr>,
    sy_subs := [0 \<mapsto> sub]\<rparr>"
  have t3: "delivery_step demo_codec s2 s3"
  proof (rule attach_store [of _ 0 _ "''w''" 0])
    show "attach_from_store demo_codec 0 ''w'' 0 s2 = Ok s3"
      using read by (simp add: attach_from_store_def s3_def s2_def s1_def system_start_def feed_new_def attach_cold_def
          seed_tail_def ring_new_def Let_def MAX_REPLAY_EVENTS_def sub_def p)
  qed (simp_all add: s2_def s1_def system_start_def)
  define s4 where "s4 = set_sub 0 (deliver demo_published (Yielding [] True) sub) s3"
  define s5 where "s5 = set_sub 0 (deliver demo_published Live sub) s4"
  have t4: "delivery_step demo_codec s3 s4"
    by (rule stream [of _ 0 sub False])
      (simp_all add: s3_def s4_def sub_def open_subscription_def stream_step_def yield_page_def MAX_REPLAY_EVENTS_def)
  have t5: "delivery_step demo_codec s4 s5"
    by (rule stream [of _ 0 "deliver demo_published (Yielding [] True) sub" False])
      (simp_all add: s4_def s5_def set_sub_def stream_step_def deliver_def)
  have "(delivery_step demo_codec)\<^sup>*\<^sup>* ?s0 s5"
    using t1 t2 t3 t4 t5 by (meson converse_rtranclp_into_rtranclp rtranclp.rtrancl_refl)
  moreover have "sy_subs s5 0 = Some (deliver demo_published Live sub)" by (simp add: s5_def set_sub_def)
  moreover have "log_of (sy_log s5) ''w'' = [demo_published]"
    by (simp add: s5_def s4_def s3_def s2_def set_sub_def log_of_def p)
  ultimately show ?thesis
    by (intro exI [of _ s5] exI [of _ "deliver demo_published Live sub"])
      (simp add: deliver_def sub_def open_subscription_def)
qed

lemma demo_premises: "codec_ok demo_codec" "fresh_journal demo_journal"
  by (simp_all add: codec_ok_def demo_codec_def fresh_journal_def demo_journal_def)

theorem delivered_in_order_witness:
  "\<exists>s :: (nat, unit) system. \<exists>sub. sb_delivered sub = [demo_published] \<and> sy_subs s 0 = Some sub
     \<and> sb_after sub = 1 \<and> [demo_published] = take 1 (log_of (sy_log s @ sy_outbox s) ''w'')"
proof -
  obtain s :: "(nat, unit) system" and sub where s: "(delivery_step demo_codec)\<^sup>*\<^sup>* (system_start demo_journal) s"
    "sy_subs s 0 = Some sub" "sb_delivered sub = [demo_published]" "sb_start sub = 0" "rc_workspace (sb_receiver sub) = ''w''"
    using demo_reaches by blast
  show ?thesis
    using delivered_in_order [OF demo_premises s(1,2)] s(2-5) by (intro exI [of _ s] exI [of _ sub]) simp
qed


end
