(* ===== verification/Tool_Calls.thy ===== *)
theory Tool_Calls
  imports Gate Journal "HOL-Library.List_Lexorder" "HOL-Library.Char_ord" "HOL-Library.Product_Lexorder"
begin

text \<open>
  The tool calls of the session store (\<^verbatim>\<open>crates/qq-core/src/sessions/tool_calls.rs\<close>, and of
  \<^verbatim>\<open>sessions/commands.rs\<close> the answer to an approval, of \<^verbatim>\<open>sessions/streaming.rs\<close> the insertion of the
  calls of a turn, of \<^verbatim>\<open>sessions/settlement.rs\<close> the interruption of a run, of \<^verbatim>\<open>sessions/claim.rs\<close> the
  reservation of context capacity). A table is the list of its rows in the order of their rowids; a column
  that holds JSON holds the value it encodes. Every operation is a unit of work: it fails as a whole, or
  changes the tables and appends its events to the journal. The time is an argument.
\<close>

section \<open>Results\<close>

definition and_then :: "('e, 'a) result \<Rightarrow> ('a \<Rightarrow> ('e, 'b) result) \<Rightarrow> ('e, 'b) result" where
  "and_then r f = (case r of Inl e \<Rightarrow> Err e | Inr x \<Rightarrow> f x)"

definition ok_or :: "'a option \<Rightarrow> 'e \<Rightarrow> ('e, 'a) result" where
  "ok_or x e = (case x of None \<Rightarrow> Err e | Some y \<Rightarrow> Ok y)"

definition require :: "bool \<Rightarrow> 'e \<Rightarrow> ('e, unit) result" where
  "require b e = (if b then Ok () else Err e)"

lemma and_then_simps [simp]: "and_then (Ok x) f = f x" "and_then (Err e) f = Err e"
  by (simp_all add: and_then_def)

lemma and_then_Ok: "and_then r f = Ok y \<longleftrightarrow> (\<exists>x. r = Ok x \<and> f x = Ok y)"
  by (cases r) simp_all

lemma ok_or_Ok: "ok_or x e = Ok y \<longleftrightarrow> x = Some y"
  by (cases x) (simp_all add: ok_or_def)

lemma require_Ok: "require b e = Ok u \<longleftrightarrow> b"
  by (simp add: require_def)

lemmas result_simps = and_then_Ok ok_or_Ok require_Ok

section \<open>Tables\<close>

datatype tool_call_state = Requested | AwaitingApproval | Running | Completed | Failed | CallDenied | CallInterrupted

datatype approval_resolution = ApprovedOnce | ResDenied | DeniedTimeout | ResAnswered

datatype approval_decision = ApproveOnce | DenyOnce | Answer "string list"

datatype tool_execution = NotStarted | MayHaveRun

record call_row =
  tr_id :: ident
  tr_run :: ident
  tr_turn :: nat
  tr_ordinal :: nat
  tr_provider_id :: string
  tr_name :: string
  tr_arguments :: string
  tr_effect :: effect_class
  tr_state :: tool_call_state
  tr_result :: "string option"
  tr_is_error :: bool
  tr_display :: "string option"
  tr_resolution :: "approval_resolution option"
  tr_inputs :: "approval_previews option"
  tr_context :: "string option"
  tr_requested_at :: nat
  tr_started_at :: "nat option"
  tr_resolved_at :: "nat option"
  tr_finished_at :: "nat option"

datatype run_status = RunRunning | RunPreparing | RunOtherStatus

record run_info =
  ri_session :: ident
  ri_status :: run_status
  ri_base :: "nat option"
  ri_increment :: nat

record session_info =
  si_workspace :: ident
  si_mode :: approval_mode
  si_parent :: "ident option"

record spill_row =
  sl_call :: ident
  sl_session :: ident
  sl_run :: ident
  sl_tool :: string
  sl_digest :: string
  sl_content :: "string option"
  sl_bytes :: nat
  sl_omitted_from_line :: nat
  sl_created_at :: nat
  sl_evicted_at :: "nat option"

record file_row =
  sf_session :: ident
  sf_path :: string
  sf_hash :: string
  sf_updated_at :: nat

record store =
  st_journal :: journal
  st_calls :: "call_row list"
  st_runs :: "ident \<Rightarrow> run_info option"
  st_sessions :: "ident \<Rightarrow> session_info option"
  st_spills :: "spill_row list"
  st_files :: "file_row list"

datatype store_error =
    Unavailable | ToolCallNotFound | StoreConstraint | StoreCodec | StoreOutputTooLarge | ApprovalNotPending | SessionNotFound
  | JournalFailed journal_error

record run_identity =
  id_workspace :: ident
  id_session :: ident
  id_run :: ident
  id_command :: ident

text \<open>A snapshot of a call, as events carry it.\<close>

record tool_snapshot =
  ts_id :: ident
  ts_session :: ident
  ts_run :: ident
  ts_turn :: nat
  ts_ordinal :: nat
  ts_provider_id :: string
  ts_name :: string
  ts_arguments :: string
  ts_state :: tool_call_state
  ts_result :: "string option"
  ts_is_error :: bool
  ts_display :: "string option"
  ts_execution :: "tool_execution option"

datatype tool_event =
    ToolCallRequested tool_snapshot
  | ToolCallStarted tool_snapshot
  | ToolCallOutputDelta ident string
  | ToolApprovalRequested tool_snapshot approval_previews
  | ToolApprovalResolved tool_snapshot approval_resolution
  | ToolCallFinished tool_snapshot
  | RunInterrupted ident nat

type_synonym 'a unit_of_work = "(store_error, store \<times> tool_event published list \<times> 'a) result"

definition MAX_CONTEXT_BYTES :: nat where "MAX_CONTEXT_BYTES = 4 * 1024 * 1024"
definition CONTEXT_MESSAGE_FRAMING_BYTES :: nat where "CONTEXT_MESSAGE_FRAMING_BYTES = 16"
definition CONTEXT_BLOCK_FRAMING_BYTES :: nat where "CONTEXT_BLOCK_FRAMING_BYTES = 16"
definition MAX_SESSION_FILES :: nat where "MAX_SESSION_FILES = 4096"
definition MAX_SESSION_SPILL_BYTES :: nat where "MAX_SESSION_SPILL_BYTES = 64 * 1024 * 1024"
definition MAX_EXECUTION_CONTEXT_BYTES :: nat where "MAX_EXECUTION_CONTEXT_BYTES = 16 * 1024"
definition MAX_CHILD_DEPTH :: nat where "MAX_CHILD_DEPTH = 3"

definition INTERRUPTED_TOOL_RESULT :: string where
  "INTERRUPTED_TOOL_RESULT = ''Tool execution was interrupted before a durable result was recorded.''"

section \<open>Queries and updates\<close>

text \<open>The trigger \<open>tool_calls_clear_approval_inputs\<close>: inputs go when the hold they belong to ends.\<close>

definition clear_inputs :: "call_row \<Rightarrow> call_row \<Rightarrow> call_row" where
  "clear_inputs old new =
     (if tr_inputs old \<noteq> None \<and> (tr_state new \<noteq> AwaitingApproval \<or> tr_resolution new \<noteq> None)
      then new\<lparr>tr_inputs := None\<rparr> else new)"

text \<open>\<open>UPDATE tool_calls SET ... WHERE ...\<close> of a state or resolution column, and the number of rows it changed.\<close>

definition update_calls :: "(call_row \<Rightarrow> bool) \<Rightarrow> (call_row \<Rightarrow> call_row) \<Rightarrow> store \<Rightarrow> store" where
  "update_calls P f st = st\<lparr>st_calls := map (\<lambda>r. if P r then clear_inputs r (f r) else r) (st_calls st)\<rparr>"

definition count_calls :: "(call_row \<Rightarrow> bool) \<Rightarrow> store \<Rightarrow> nat" where
  "count_calls P st = length (filter P (st_calls st))"

definition select_call :: "(call_row \<Rightarrow> bool) \<Rightarrow> store \<Rightarrow> call_row option" where
  "select_call P st = find P (st_calls st)"

definition first_result_in_turn :: "call_row \<Rightarrow> store \<Rightarrow> bool" where
  "first_result_in_turn c st \<longleftrightarrow>
     \<not> list_ex (\<lambda>r. tr_run r = tr_run c \<and> tr_turn r = tr_turn c \<and> tr_result r \<noteq> None) (st_calls st)"

definition snapshot_of :: "ident \<Rightarrow> call_row \<Rightarrow> tool_snapshot" where
  "snapshot_of session r =
     \<lparr>ts_id = tr_id r, ts_session = session, ts_run = tr_run r, ts_turn = tr_turn r, ts_ordinal = tr_ordinal r,
      ts_provider_id = tr_provider_id r, ts_name = tr_name r, ts_arguments = tr_arguments r, ts_state = tr_state r,
      ts_result = tr_result r, ts_is_error = tr_is_error r, ts_display = tr_display r,
      ts_execution = (if tr_state r = CallInterrupted
        then Some (if tr_started_at r \<noteq> None then MayHaveRun else NotStarted) else None)\<rparr>"

definition load_tool_call :: "ident \<Rightarrow> store \<Rightarrow> (store_error, tool_snapshot) result" where
  "load_tool_call call st =
     and_then (ok_or (select_call (\<lambda>r. tr_id r = call) st) StoreConstraint) (\<lambda>r.
     and_then (ok_or (st_runs st (tr_run r)) StoreConstraint) (\<lambda>ri. Ok (snapshot_of (ri_session ri) r)))"

definition load_approval_preview :: "ident \<Rightarrow> store \<Rightarrow> (store_error, approval_previews option) result" where
  "load_approval_preview call st =
     and_then (ok_or (select_call (\<lambda>r. tr_id r = call \<and> tr_state r = AwaitingApproval \<and> tr_resolution r = None) st)
       StoreCodec) (\<lambda>r. Ok (tr_inputs r))"

definition for_run :: "ident \<Rightarrow> run_identity \<Rightarrow> nat \<Rightarrow> event_context" where
  "for_run store_id idn now = \<lparr>cx_store = store_id, cx_workspace = id_workspace idn, cx_session = id_session idn,
     cx_run = Some (id_run idn), cx_caused_by = Some (id_command idn), cx_time = now\<rparr>"

definition for_run_ids :: "ident \<Rightarrow> ident \<Rightarrow> ident \<Rightarrow> ident \<Rightarrow> ident option \<Rightarrow> nat \<Rightarrow> event_context" where
  "for_run_ids store_id w session run caused_by now = \<lparr>cx_store = store_id, cx_workspace = w, cx_session = session,
     cx_run = Some run, cx_caused_by = caused_by, cx_time = now\<rparr>"

definition uncaused :: "event_context \<Rightarrow> event_context" where
  "uncaused cx = cx\<lparr>cx_caused_by := None\<rparr>"

definition emit :: "tool_event codec \<Rightarrow> event_context \<Rightarrow> tool_event \<Rightarrow> store \<Rightarrow> (store_error, store \<times> tool_event published) result" where
  "emit cd cx event st =
     (case append_event cd cx (OtherEvent event) (st_journal st) of
        Inl e \<Rightarrow> Err (JournalFailed e)
      | Inr (j, p) \<Rightarrow> Ok (st\<lparr>st_journal := j\<rparr>, p))"

text \<open>The end of most operations: the snapshot of the call as it now is goes into an event.\<close>

definition emit_call ::
  "tool_event codec \<Rightarrow> event_context \<Rightarrow> (tool_snapshot \<Rightarrow> tool_event) \<Rightarrow> ident \<Rightarrow> 'a \<Rightarrow> store \<Rightarrow> 'a unit_of_work" where
  "emit_call cd cx event call x st =
     and_then (load_tool_call call st) (\<lambda>snap.
     and_then (emit cd cx (event snap) st) (\<lambda>(st', p). Ok (st', [p], x)))"

section \<open>Context capacity\<close>

definition reserve_context_capacity :: "ident \<Rightarrow> nat \<Rightarrow> store \<Rightarrow> (store_error, store) result" where
  "reserve_context_capacity run additional st =
     (if additional = 0 then Ok st
      else if additional > 9223372036854775807 then Err StoreOutputTooLarge
      else case st_runs st run of
             None \<Rightarrow> Err Unavailable
           | Some ri \<Rightarrow>
               (case ri_base ri of
                  None \<Rightarrow> Err Unavailable
                | Some base \<Rightarrow>
                    if ri_status ri \<noteq> RunRunning then Err Unavailable
                    else if base + ri_increment ri + additional \<le> MAX_CONTEXT_BYTES
                    then Ok (st\<lparr>st_runs := (st_runs st)(run \<mapsto> ri\<lparr>ri_increment := ri_increment ri + additional\<rparr>)\<rparr>)
                    else Err StoreOutputTooLarge))"

definition reserve_tool_result_capacity :: "ident \<Rightarrow> string \<Rightarrow> string \<Rightarrow> bool \<Rightarrow> store \<Rightarrow> (store_error, store) result" where
  "reserve_tool_result_capacity run provider_id result first st =
     (let framing = sat_add u64_max CONTEXT_BLOCK_FRAMING_BYTES (if first then CONTEXT_MESSAGE_FRAMING_BYTES else 0)
      in reserve_context_capacity run
           (sat_add u64_max (sat_add u64_max (length provider_id) (length result)) framing) st)"

section \<open>Requesting, starting and running\<close>

record new_call =
  nc_id :: ident
  nc_turn :: nat
  nc_ordinal :: nat
  nc_provider_id :: string
  nc_name :: string
  nc_arguments :: string
  nc_effect :: effect_class

definition requested_row :: "ident \<Rightarrow> nat \<Rightarrow> new_call \<Rightarrow> call_row" where
  "requested_row run now c =
     \<lparr>tr_id = nc_id c, tr_run = run, tr_turn = nc_turn c, tr_ordinal = nc_ordinal c, tr_provider_id = nc_provider_id c,
      tr_name = nc_name c, tr_arguments = nc_arguments c, tr_effect = nc_effect c, tr_state = Requested,
      tr_result = None, tr_is_error = False, tr_display = None, tr_resolution = None, tr_inputs = None,
      tr_context = None, tr_requested_at = now, tr_started_at = None, tr_resolved_at = None, tr_finished_at = None\<rparr>"

text \<open>The uniqueness constraints of the table.\<close>

definition call_conflicts :: "call_row \<Rightarrow> call_row \<Rightarrow> bool" where
  "call_conflicts a b \<longleftrightarrow> tr_id a = tr_id b
     \<or> tr_run a = tr_run b \<and> tr_turn a = tr_turn b \<and> (tr_provider_id a = tr_provider_id b \<or> tr_ordinal a = tr_ordinal b)"

definition insert_call :: "tool_event codec \<Rightarrow> ident \<Rightarrow> nat \<Rightarrow> run_identity \<Rightarrow> new_call \<Rightarrow> store \<Rightarrow> unit unit_of_work" where
  "insert_call cd sid now idn c st =
     (let row = requested_row (id_run idn) now c in
      and_then (require (\<not> list_ex (call_conflicts row) (st_calls st)) StoreConstraint) (\<lambda>_.
      emit_call cd (for_run sid idn now) ToolCallRequested (nc_id c) () (st\<lparr>st_calls := st_calls st @ [row]\<rparr>)))"

fun insert_calls :: "tool_event codec \<Rightarrow> ident \<Rightarrow> nat \<Rightarrow> run_identity \<Rightarrow> new_call list \<Rightarrow> store \<Rightarrow> unit unit_of_work" where
  "insert_calls cd sid now idn [] st = Ok (st, [], ())"
| "insert_calls cd sid now idn (c # cs) st =
     and_then (insert_call cd sid now idn c st) (\<lambda>(st1, ps, _).
     and_then (insert_calls cd sid now idn cs st1) (\<lambda>(st2, qs, _). Ok (st2, ps @ qs, ())))"

definition start_tool_call :: "tool_event codec \<Rightarrow> ident \<Rightarrow> nat \<Rightarrow> run_identity \<Rightarrow> ident \<Rightarrow> store \<Rightarrow> unit unit_of_work" where
  "start_tool_call cd sid now idn call st =
     (let P = (\<lambda>r. tr_id r = call \<and> tr_run r = id_run idn \<and> tr_state r = Requested) in
      and_then (require (count_calls P st = 1) Unavailable) (\<lambda>_.
      emit_call cd (for_run sid idn now) ToolCallStarted call ()
        (update_calls P (\<lambda>r. r\<lparr>tr_state := Running, tr_started_at := Some now\<rparr>) st)))"

definition append_tool_call_output ::
  "tool_event codec \<Rightarrow> ident \<Rightarrow> nat \<Rightarrow> run_identity \<Rightarrow> ident \<Rightarrow> string \<Rightarrow> store \<Rightarrow> unit unit_of_work" where
  "append_tool_call_output cd sid now idn call chunk st =
     and_then (ok_or (select_call (\<lambda>r. tr_id r = call \<and> tr_run r = id_run idn \<and> tr_state r = Running) st) ToolCallNotFound) (\<lambda>_.
     and_then (emit cd (for_run sid idn now) (ToolCallOutputDelta call chunk) st) (\<lambda>(st', p). Ok (st', [p], ())))"

text \<open>What the process of a call was started with; what a receipt vouches for is a parameter.\<close>

record receipt =
  re_json :: string
  re_valid :: bool
  re_bound_to :: "ident \<Rightarrow> string \<Rightarrow> string \<Rightarrow> bool"

definition check_receipt :: "receipt \<Rightarrow> call_row \<Rightarrow> (store_error, string) result" where
  "check_receipt re r =
     and_then (require (re_valid re \<and> re_bound_to re (tr_id r) (tr_name r) (tr_arguments r)) StoreConstraint) (\<lambda>_.
     and_then (require (length (re_json re) \<le> MAX_EXECUTION_CONTEXT_BYTES \<and> tr_context r \<in> {None, Some (re_json re)})
       StoreConstraint) (\<lambda>_. Ok (re_json re)))"

definition record_tool_process :: "run_identity \<Rightarrow> ident \<Rightarrow> receipt \<Rightarrow> store \<Rightarrow> unit unit_of_work" where
  "record_tool_process idn call re st =
     and_then (ok_or (select_call (\<lambda>r. tr_id r = call \<and> tr_run r = id_run idn \<and> tr_state r = Running) st) ToolCallNotFound) (\<lambda>r.
     and_then (check_receipt re r) (\<lambda>json.
     Ok (st\<lparr>st_calls := map (\<lambda>r. if tr_id r = call \<and> tr_run r = id_run idn then r\<lparr>tr_context := Some json\<rparr> else r)
          (st_calls st)\<rparr>, [], ())))"

section \<open>Files and spills\<close>

definition record_session_file :: "ident \<Rightarrow> nat \<Rightarrow> string \<times> string \<Rightarrow> store \<Rightarrow> store" where
  "record_session_file session now update st =
     (let (path, hash) = update;
          rows = (if list_ex (\<lambda>f. sf_session f = session \<and> sf_path f = path) (st_files st)
                  then map (\<lambda>f. if sf_session f = session \<and> sf_path f = path
                       then f\<lparr>sf_hash := hash, sf_updated_at := now\<rparr> else f) (st_files st)
                  else st_files st @ [\<lparr>sf_session = session, sf_path = path, sf_hash = hash, sf_updated_at = now\<rparr>]);
          own = filter (\<lambda>f. sf_session f = session) rows;
          kept = take MAX_SESSION_FILES (rev (sort_key sf_updated_at own))
      in st\<lparr>st_files := (if length own > MAX_SESSION_FILES
            then filter (\<lambda>f. sf_session f \<noteq> session \<or> f \<in> set kept) rows else rows)\<rparr>)"

text \<open>Spills of finished runs go, oldest first, until the session is within its bound.\<close>

fun evict_spills :: "nat \<Rightarrow> nat \<Rightarrow> spill_row list \<Rightarrow> spill_row list \<Rightarrow> spill_row list" where
  "evict_spills now excess [] spills = spills"
| "evict_spills now excess (c # cs) spills =
     (if excess = 0 then spills
      else evict_spills now (excess - sl_bytes c) cs
             (map (\<lambda>x. if sl_call x = sl_call c then x\<lparr>sl_content := None, sl_evicted_at := Some now\<rparr> else x) spills))"

definition finished_run :: "ident \<Rightarrow> store \<Rightarrow> bool" where
  "finished_run run st = (case st_runs st run of Some ri \<Rightarrow> ri_status ri = RunOtherStatus | None \<Rightarrow> False)"

definition held_bytes :: "ident \<Rightarrow> spill_row list \<Rightarrow> nat" where
  "held_bytes session spills =
     sum_list (map sl_bytes (filter (\<lambda>x. sl_session x = session \<and> sl_content x \<noteq> None) spills))"

definition store_tool_spill ::
  "run_identity \<Rightarrow> ident \<Rightarrow> string \<Rightarrow> spill_record \<Rightarrow> nat \<Rightarrow> store \<Rightarrow> (store_error, store) result" where
  "store_tool_spill idn call tool spill now st =
     and_then (require (\<not> list_ex (\<lambda>x. sl_call x = call) (st_spills st)) StoreConstraint) (\<lambda>_.
     (let row = \<lparr>sl_call = call, sl_session = id_session idn, sl_run = id_run idn, sl_tool = tool, sl_digest = sp_digest spill,
            sl_content = Some (sp_text spill), sl_bytes = length (sp_text spill),
            sl_omitted_from_line = sp_omitted_from_line spill, sl_created_at = now, sl_evicted_at = None\<rparr>;
          spills = st_spills st @ [row];
          held = held_bytes (id_session idn) spills;
          candidates = sort_key (\<lambda>x. (sl_created_at x, sl_call x))
            (filter (\<lambda>x. sl_session x = id_session idn \<and> sl_content x \<noteq> None \<and> finished_run (sl_run x) st) spills)
      in Ok (st\<lparr>st_spills := (if held > MAX_SESSION_SPILL_BYTES
               then evict_spills now (held - MAX_SESSION_SPILL_BYTES) candidates spills else spills)\<rparr>)))"

datatype spill_read = SpillFound string string nat | SpillEvicted | SpillForeignSession | SpillMissing

text \<open>A result by a prefix of the identifier of its call: the smallest identifier of the range, as the index
  of SQLite orders them.\<close>

definition in_range :: "string \<Rightarrow> ident \<Rightarrow> bool" where
  "in_range call_prefix call \<longleftrightarrow> call_prefix \<le> call \<and> call < call_prefix @ ''g''"

definition stored_result :: "(string \<Rightarrow> string) \<Rightarrow> ident \<Rightarrow> string \<Rightarrow> string \<Rightarrow> store \<Rightarrow> spill_read" where
  "stored_result hash session call_prefix digest_prefix st =
     (case sort_key tr_id (filter (\<lambda>r. in_range call_prefix (tr_id r) \<and> tr_result r \<noteq> None \<and> st_runs st (tr_run r) \<noteq> None)
             (st_calls st)) of
        [] \<Rightarrow> SpillMissing
      | r # _ \<Rightarrow>
          (case (tr_result r, st_runs st (tr_run r)) of
             (Some result, Some ri) \<Rightarrow>
               if \<not> starts_with (hash result) digest_prefix then SpillMissing
               else if ri_session ri \<noteq> session then SpillForeignSession
               else SpillFound (tr_name r) result 0
           | _ \<Rightarrow> SpillMissing))"

definition read_tool_spill :: "(string \<Rightarrow> string) \<Rightarrow> ident \<Rightarrow> string \<Rightarrow> string \<Rightarrow> store \<Rightarrow> spill_read" where
  "read_tool_spill hash session call_prefix digest_prefix st =
     (case sort_key sl_call (filter (\<lambda>x. in_range call_prefix (sl_call x)) (st_spills st)) of
        x # _ \<Rightarrow>
          if starts_with (sl_digest x) digest_prefix then
            (if sl_session x \<noteq> session then SpillForeignSession
             else case sl_content x of
                    None \<Rightarrow> SpillEvicted
                  | Some content \<Rightarrow> SpillFound (sl_tool x) content (sl_omitted_from_line x))
          else stored_result hash session call_prefix digest_prefix st
      | [] \<Rightarrow> stored_result hash session call_prefix digest_prefix st)"

section \<open>Finishing\<close>

text \<open>A result that does not fit the context is kept all the same; the caller is told.\<close>

definition reserve_or_exhaust :: "call_row \<Rightarrow> string \<Rightarrow> store \<Rightarrow> (store_error, store \<times> bool) result" where
  "reserve_or_exhaust r result st =
     (case reserve_tool_result_capacity (tr_run r) (tr_provider_id r) result (first_result_in_turn r st) st of
        Inr st' \<Rightarrow> Ok (st', False)
      | Inl StoreOutputTooLarge \<Rightarrow> Ok (st, True)
      | Inl e \<Rightarrow> Err e)"

definition receipt_json :: "receipt option \<Rightarrow> call_row \<Rightarrow> (store_error, string option) result" where
  "receipt_json re r = (case re of None \<Rightarrow> Ok None | Some x \<Rightarrow> and_then (check_receipt x r) (\<lambda>json. Ok (Some json)))"

definition finish_tool_call ::
  "tool_event codec \<Rightarrow> ident \<Rightarrow> nat \<Rightarrow> run_identity \<Rightarrow> ident \<Rightarrow> string \<Rightarrow> bool \<Rightarrow> (string \<times> string) list
   \<Rightarrow> string option \<Rightarrow> spill_record option \<Rightarrow> receipt option \<Rightarrow> store \<Rightarrow> bool unit_of_work" where
  "finish_tool_call cd sid now idn call result is_error files display spill re st =
     (let P = (\<lambda>r. tr_id r = call \<and> tr_run r = id_run idn \<and> tr_state r = Running) in
      and_then (ok_or (select_call P st) ToolCallNotFound) (\<lambda>r.
      and_then (reserve_or_exhaust r result st) (\<lambda>(st1, exhausted).
      and_then (receipt_json re r) (\<lambda>json.
      and_then (require (count_calls P st1 = 1) Unavailable) (\<lambda>_.
      (let st2 = update_calls P (\<lambda>r. r\<lparr>tr_state := (if is_error then Failed else Completed), tr_result := Some result,
                   tr_is_error := is_error, tr_finished_at := Some now, tr_display := display,
                   tr_context := (case json of Some j \<Rightarrow> Some j | None \<Rightarrow> tr_context r)\<rparr>) st1;
           st3 = fold (record_session_file (id_session idn) now) files st2
       in and_then (case spill of None \<Rightarrow> Ok st3 | Some x \<Rightarrow> store_tool_spill idn call (tr_name r) x now st3) (\<lambda>st4.
          emit_call cd (for_run sid idn now) ToolCallFinished call exhausted st4)))))))"

definition settle_unstarted_tool_call ::
  "tool_event codec \<Rightarrow> ident \<Rightarrow> nat \<Rightarrow> run_identity \<Rightarrow> ident \<Rightarrow> string \<Rightarrow> bool \<Rightarrow> store \<Rightarrow> unit unit_of_work" where
  "settle_unstarted_tool_call cd sid now idn call message interrupted st =
     (let P = (\<lambda>r. tr_id r = call \<and> tr_run r = id_run idn
                \<and> (tr_state r = Requested \<or> interrupted \<and> tr_state r = AwaitingApproval)) in
      and_then (ok_or (select_call P st) ToolCallNotFound) (\<lambda>r.
      and_then (reserve_tool_result_capacity (id_run idn) (tr_provider_id r) message (first_result_in_turn r st) st) (\<lambda>st1.
      and_then (require (count_calls P st1 = 1) Unavailable) (\<lambda>_.
      emit_call cd (for_run sid idn now) ToolCallFinished call ()
        (update_calls P (\<lambda>r. r\<lparr>tr_state := (if interrupted then CallInterrupted else CallDenied), tr_result := Some message,
           tr_is_error := True, tr_finished_at := Some now\<rparr>) st1)))))"

definition deny_tool_call :: "tool_event codec \<Rightarrow> ident \<Rightarrow> nat \<Rightarrow> run_identity \<Rightarrow> ident \<Rightarrow> string \<Rightarrow> store \<Rightarrow> unit unit_of_work" where
  "deny_tool_call cd sid now idn call message st = settle_unstarted_tool_call cd sid now idn call message False st"

section \<open>Approvals\<close>

definition load_approval_mode :: "ident \<Rightarrow> store \<Rightarrow> (store_error, approval_mode) result" where
  "load_approval_mode session st = and_then (ok_or (st_sessions st session) SessionNotFound) (\<lambda>si. Ok (si_mode si))"

definition session_parent :: "ident \<Rightarrow> store \<Rightarrow> (store_error, ident option) result" where
  "session_parent session st = and_then (ok_or (st_sessions st session) SessionNotFound) (\<lambda>si. Ok (si_parent si))"

text \<open>The modes of the sessions above, nearest first; a chain that is too long is an error.\<close>

fun ancestor_modes :: "nat \<Rightarrow> ident \<Rightarrow> store \<Rightarrow> (store_error, approval_mode list) result" where
  "ancestor_modes 0 session st = Err StoreConstraint"
| "ancestor_modes (Suc n) session st =
     and_then (session_parent session st) (\<lambda>parent.
     case parent of
       None \<Rightarrow> Ok []
     | Some p \<Rightarrow>
         and_then (load_approval_mode p st) (\<lambda>mode.
         and_then (ancestor_modes n p st) (\<lambda>modes. Ok (mode # modes))))"

definition load_ancestor_approval_modes :: "ident \<Rightarrow> store \<Rightarrow> (store_error, approval_mode list) result" where
  "load_ancestor_approval_modes session st = ancestor_modes (MAX_CHILD_DEPTH + 1) session st"

definition load_tool_approval_policy :: "ident \<Rightarrow> store \<Rightarrow> (store_error, approval_mode \<times> approval_mode list) result" where
  "load_tool_approval_policy session st =
     and_then (load_approval_mode session st) (\<lambda>mode.
     and_then (load_ancestor_approval_modes session st) (\<lambda>modes. Ok (mode, modes)))"

definition into_class :: "approval_previews \<Rightarrow> tool_class" where
  "into_class ap =
     (case ap_shell ap of
        Some x \<Rightarrow> ClassShell (sp_command x) (sp_cwd x) False
      | None \<Rightarrow>
          (case ap_fetch ap of
             Some f \<Rightarrow> ClassNetwork (Some (fp_host f)) None
           | None \<Rightarrow>
               (case ap_question ap of
                  Some q \<Rightarrow> ClassInteractive (Some q)
                | None \<Rightarrow> ClassMutating)))"

definition load_pending_approval_class ::
  "ident \<Rightarrow> ident \<Rightarrow> ident \<Rightarrow> ident \<Rightarrow> store \<Rightarrow> (store_error, tool_class) result" where
  "load_pending_approval_class w session run call st =
     and_then (ok_or (select_call (\<lambda>r. tr_id r = call \<and> tr_run r = run \<and> tr_state r = AwaitingApproval \<and> tr_resolution r = None
         \<and> (case st_runs st run of Some ri \<Rightarrow> ri_session ri = session | None \<Rightarrow> False)
         \<and> (case st_sessions st session of Some si \<Rightarrow> si_workspace si = w | None \<Rightarrow> False)) st) StoreCodec) (\<lambda>r.
     and_then (ok_or (tr_inputs r) StoreCodec) (\<lambda>inputs. Ok (into_class inputs)))"

text \<open>The inputs are stored as JSON; the check of the column bounds what the encoder made of them.\<close>

definition MAX_APPROVAL_INPUTS_BYTES :: nat where "MAX_APPROVAL_INPUTS_BYTES = 1048576"

definition request_tool_approval ::
  "tool_event codec \<Rightarrow> ident \<Rightarrow> nat \<Rightarrow> run_identity \<Rightarrow> ident \<Rightarrow> approval_previews \<Rightarrow> string \<Rightarrow> store \<Rightarrow> unit unit_of_work" where
  "request_tool_approval cd sid now idn call previews inputs_json st =
     (let P = (\<lambda>r. tr_id r = call \<and> tr_run r = id_run idn \<and> tr_state r = Requested) in
      and_then (require (count_calls P st = 1) Unavailable) (\<lambda>_.
      and_then (require (length inputs_json \<le> MAX_APPROVAL_INPUTS_BYTES) StoreConstraint) (\<lambda>_.
      emit_call cd (for_run sid idn now) (\<lambda>snap. ToolApprovalRequested snap previews) call ()
        (update_calls P (\<lambda>r. r\<lparr>tr_state := AwaitingApproval, tr_inputs := Some previews\<rparr>) st))))"

definition USER_DENIED_RESULT :: string where
  "USER_DENIED_RESULT = denial ''user'' ''the user denied this call'' ''find another way, or ask the user what they want''"

definition TIMEOUT_DENIED_RESULT :: string where
  "TIMEOUT_DENIED_RESULT = denial ''user'' ''no one answered this approval in time, so the call did not run''
     ''do not continue as if it ran; tell the user what is waiting on approval, or use a step that does not need it''"

definition AUTHORITY_CHANGED_RESULT :: string where
  "AUTHORITY_CHANGED_RESULT = denial ''mode''
     (''the session'' @ [CHR 0x27] @ ''s permissions changed while this call waited, so it did not run'')
     ''continue within the current permissions''"

definition DECLINED_QUESTION_RESULT :: string where
  "DECLINED_QUESTION_RESULT = ''The user declined to answer; proceed with your best judgement.''"

definition concluded_of :: "approval_resolution \<Rightarrow> string option \<Rightarrow> concluded" where
  "concluded_of resolution result =
     (case resolution of
        ApprovedOnce \<Rightarrow> Approved
      | ResDenied \<Rightarrow> Denied (case result of Some m \<Rightarrow> m | None \<Rightarrow> USER_DENIED_RESULT)
      | DeniedTimeout \<Rightarrow> Denied (case result of Some m \<Rightarrow> m | None \<Rightarrow> USER_DENIED_RESULT)
      | ResAnswered \<Rightarrow> Answered (case result of Some m \<Rightarrow> m | None \<Rightarrow> DECLINED_QUESTION_RESULT))"

definition conclude_tool_approval ::
  "tool_event codec \<Rightarrow> ident \<Rightarrow> nat \<Rightarrow> run_identity \<Rightarrow> ident \<Rightarrow> bool \<Rightarrow> store \<Rightarrow> concluded unit_of_work" where
  "conclude_tool_approval cd sid now idn call timed_out st =
     and_then (ok_or (select_call (\<lambda>r. tr_id r = call \<and> tr_run r = id_run idn) st) ToolCallNotFound) (\<lambda>r.
     case tr_resolution r of
       Some resolution \<Rightarrow> Ok (st, [], concluded_of resolution (tr_result r))
     | None \<Rightarrow>
         if \<not> timed_out \<or> tr_state r \<noteq> AwaitingApproval then Ok (st, [], StillWaiting)
         else
           and_then (reserve_tool_result_capacity (id_run idn) (tr_provider_id r) TIMEOUT_DENIED_RESULT
             (first_result_in_turn r st) st) (\<lambda>st1.
           emit_call cd (uncaused (for_run sid idn now)) (\<lambda>snap. ToolApprovalResolved snap DeniedTimeout) call
             (Denied TIMEOUT_DENIED_RESULT)
             (update_calls (\<lambda>r. tr_id r = call \<and> tr_state r = AwaitingApproval)
               (\<lambda>r. r\<lparr>tr_state := CallDenied, tr_result := Some TIMEOUT_DENIED_RESULT, tr_is_error := True,
                  tr_resolution := Some DeniedTimeout, tr_resolved_at := Some now, tr_finished_at := Some now\<rparr>) st1)))"

text \<open>Why an approval no longer holds: the loop over the modes of the sessions above.\<close>

fun refusal_loop :: "'v gate_context \<Rightarrow> tool_class \<Rightarrow> approval_mode list \<Rightarrow> string option" where
  "refusal_loop ctx c [] = None"
| "refusal_loop ctx c (mode # modes) =
     (case gate_evaluate ctx mode c of
        Execute \<Rightarrow> refusal_loop ctx c modes
      | AskUser _ \<Rightarrow> refusal_loop ctx c modes
      | RequireApproval \<Rightarrow> if mode = AskMode then refusal_loop ctx c modes else Some PARENT_DENIED_RESULT
      | Deny reason \<Rightarrow> Some (deny_result reason))"

definition approval_refusal ::
  "'v gate_context \<Rightarrow> ident \<Rightarrow> ident \<Rightarrow> ident \<Rightarrow> ident \<Rightarrow> approval_decision \<Rightarrow> store \<Rightarrow> (store_error, string option) result" where
  "approval_refusal ctx w session run call decision st =
     and_then (load_approval_mode session st) (\<lambda>own_mode.
     and_then (load_ancestor_approval_modes session st) (\<lambda>ancestors.
     if decision = ApproveOnce \<and> own_mode = ReadOnlyMode then Ok (Some AUTHORITY_CHANGED_RESULT)
     else if decision = ApproveOnce \<and> ancestors \<noteq> [] then
       and_then (load_pending_approval_class w session run call st) (\<lambda>c. Ok (refusal_loop ctx c ancestors))
     else Ok None))"

definition answer_result :: "question list \<Rightarrow> string list \<Rightarrow> string" where
  "answer_result questions answers =
     (if list_all (\<lambda>a. trim a = []) answers then DECLINED_QUESTION_RESULT
      else case render_answers questions answers of Some text \<Rightarrow> text | None \<Rightarrow> [])"

definition session_workspace :: "ident \<Rightarrow> store \<Rightarrow> (store_error, ident) result" where
  "session_workspace session st = and_then (ok_or (st_sessions st session) SessionNotFound) (\<lambda>si. Ok (si_workspace si))"

text \<open>The row of an answered approval; the second component is the result the call settles with.\<close>

definition respond_update ::
  "'v gate_context \<Rightarrow> nat \<Rightarrow> ident \<Rightarrow> call_row \<Rightarrow> approval_decision \<Rightarrow> string option \<Rightarrow> store
   \<Rightarrow> (store_error, store \<times> approval_resolution) result" where
  "respond_update ctx now run r decision refusal st =
     (let P = (\<lambda>x. tr_id x = tr_id r \<and> tr_state x = AwaitingApproval);
          denial_message = (case refusal of Some m \<Rightarrow> m | None \<Rightarrow> USER_DENIED_RESULT);
          reserve = (\<lambda>result. reserve_tool_result_capacity run (tr_provider_id r) result (first_result_in_turn r st) st)
      in case (if refusal \<noteq> None then DenyOnce else decision) of
           ApproveOnce \<Rightarrow>
             Ok (update_calls P (\<lambda>x. x\<lparr>tr_state := Requested, tr_resolution := Some ApprovedOnce, tr_resolved_at := Some now\<rparr>) st,
                 ApprovedOnce)
         | DenyOnce \<Rightarrow>
             and_then (reserve denial_message) (\<lambda>st1.
             Ok (update_calls P (\<lambda>x. x\<lparr>tr_state := CallDenied, tr_result := Some denial_message, tr_is_error := True,
                   tr_resolution := Some ResDenied, tr_resolved_at := Some now, tr_finished_at := Some now\<rparr>) st1, ResDenied))
         | Answer answers \<Rightarrow>
             (case ask_parse (dec_ask (gc_decoders ctx)) (tr_arguments r) of
                Inl _ \<Rightarrow> Err ApprovalNotPending
              | Inr questions \<Rightarrow>
                  and_then (reserve (answer_result questions answers)) (\<lambda>st1.
                  Ok (update_calls P (\<lambda>x. x\<lparr>tr_state := Completed, tr_result := Some (answer_result questions answers),
                        tr_is_error := False, tr_resolution := Some ResAnswered, tr_resolved_at := Some now,
                        tr_finished_at := Some now\<rparr>) st1, ResAnswered))))"

definition respond_tool_approval ::
  "'v gate_context \<Rightarrow> tool_event codec \<Rightarrow> ident \<Rightarrow> nat \<Rightarrow> ident \<Rightarrow> ident \<Rightarrow> ident \<Rightarrow> approval_decision \<Rightarrow> store
   \<Rightarrow> approval_resolution unit_of_work" where
  "respond_tool_approval ctx cd sid now command run call decision st =
     and_then (ok_or (select_call (\<lambda>r. tr_id r = call) st) ToolCallNotFound) (\<lambda>r.
     and_then (require (tr_run r = run) ToolCallNotFound) (\<lambda>_.
     and_then (ok_or (st_runs st run) StoreConstraint) (\<lambda>ri.
     and_then (session_workspace (ri_session ri) st) (\<lambda>w.
     case tr_resolution r of
       Some resolution \<Rightarrow> Ok (st, [], resolution)
     | None \<Rightarrow>
         and_then (require (tr_state r = AwaitingApproval) ApprovalNotPending) (\<lambda>_.
         and_then (approval_refusal ctx w (ri_session ri) run call decision st) (\<lambda>refusal.
         and_then (respond_update ctx now run r decision refusal st) (\<lambda>(st1, resolution).
         emit_call cd (for_run_ids sid w (ri_session ri) run (Some command) now)
           (\<lambda>snap. ToolApprovalResolved snap resolution) call resolution st1)))))))"

section \<open>The end of a run\<close>

datatype run_end_kind =
    EndCompleted | EndCancelled | EndInterrupted | EndBudgetExhausted | EndPausedRetry | EndPausedNoProgress | EndFailed

definition unsettled :: "call_row \<Rightarrow> bool" where
  "unsettled r \<longleftrightarrow> tr_state r \<in> {Requested, AwaitingApproval, Running}"

definition unsettled_calls :: "ident \<Rightarrow> store \<Rightarrow> call_row list" where
  "unsettled_calls run st =
     sort_key (\<lambda>r. (tr_turn r, tr_ordinal r)) (filter (\<lambda>r. tr_run r = run \<and> unsettled r) (st_calls st))"

definition not_executed_result :: "run_end_kind \<Rightarrow> string" where
  "not_executed_result e = ''Tool execution did not start before the run '' @
     (case e of
        EndCancelled \<Rightarrow> ''was cancelled.''
      | EndInterrupted \<Rightarrow> ''was interrupted.''
      | EndBudgetExhausted \<Rightarrow> ''exhausted its budget.''
      | EndPausedRetry \<Rightarrow> ''paused on a provider fault.''
      | EndPausedNoProgress \<Rightarrow> ''paused for no progress.''
      | _ \<Rightarrow> ''failed.'')"

text \<open>The calls are interrupted one after the other, each with its event. The statement of \<open>interrupt_active_tool_calls\<close> is
  guarded by the state, that of \<open>record_run_interrupted\<close> is not.\<close>

fun interrupt_loop ::
  "bool \<Rightarrow> tool_event codec \<Rightarrow> event_context \<Rightarrow> nat \<Rightarrow> (call_row \<Rightarrow> string) \<Rightarrow> call_row list \<Rightarrow> store \<Rightarrow> unit unit_of_work" where
  "interrupt_loop guarded cd cx now result [] st = Ok (st, [], ())"
| "interrupt_loop guarded cd cx now result (c # cs) st =
     and_then (emit_call cd cx ToolCallFinished (tr_id c) ()
       (update_calls (\<lambda>r. tr_id r = tr_id c \<and> (guarded \<longrightarrow> unsettled r))
         (\<lambda>r. r\<lparr>tr_state := CallInterrupted, tr_result := Some (result c), tr_is_error := True, tr_finished_at := Some now\<rparr>) st))
       (\<lambda>(st1, ps, _).
     and_then (interrupt_loop guarded cd cx now result cs st1) (\<lambda>(st2, qs, _). Ok (st2, ps @ qs, ())))"

definition interrupt_active_tool_calls ::
  "tool_event codec \<Rightarrow> ident \<Rightarrow> nat \<Rightarrow> run_identity \<Rightarrow> run_end_kind \<Rightarrow> ident option \<Rightarrow> store \<Rightarrow> unit unit_of_work" where
  "interrupt_active_tool_calls cd sid now idn outcome caused_by st =
     (let calls = unsettled_calls (id_run idn) st in
      if outcome = EndCompleted then (if calls = [] then Ok (st, [], ()) else Err StoreConstraint)
      else interrupt_loop True cd (for_run_ids sid (id_workspace idn) (id_session idn) (id_run idn) caused_by now) now
             (\<lambda>c. if tr_state c = Running then INTERRUPTED_TOOL_RESULT else not_executed_result outcome) calls st)"

definition record_run_interrupted :: "tool_event codec \<Rightarrow> ident \<Rightarrow> nat \<Rightarrow> run_identity \<Rightarrow> nat \<Rightarrow> store \<Rightarrow> unit unit_of_work" where
  "record_run_interrupted cd sid now idn turn st =
     and_then (interrupt_loop False cd (for_run sid idn now) now (\<lambda>_. INTERRUPTED_TOOL_RESULT)
       (unsettled_calls (id_run idn) st) st) (\<lambda>(st1, ps, _).
     and_then (emit cd (for_run sid idn now) (RunInterrupted (id_run idn) turn) st1) (\<lambda>(st2, p). Ok (st2, ps @ [p], ())))"

end
