(* ===== verification/Lifecycle.thy ===== *)
theory Lifecycle
  imports Tool_Calls
begin

text \<open>
  The life of a tool call: which states follow each other, that a settled call never changes, that rows
  stay well-formed, and that a client that applies the events of the journal knows what the store knows.
\<close>

section \<open>Well-formed rows and how they evolve\<close>

definition settled_state :: "tool_call_state \<Rightarrow> bool" where
  "settled_state s \<longleftrightarrow> s \<in> {Completed, Failed, CallDenied, CallInterrupted}"

definition call_ok :: "call_row \<Rightarrow> bool" where
  "call_ok r \<longleftrightarrow>
     (settled_state (tr_state r) \<longleftrightarrow> tr_result r \<noteq> None) \<and> (tr_result r = None \<longleftrightarrow> tr_finished_at r = None)
     \<and> (tr_state r = Running \<longrightarrow> tr_started_at r \<noteq> None)
     \<and> (tr_started_at r \<noteq> None \<longrightarrow> tr_state r \<in> {Running, Completed, Failed, CallInterrupted})
     \<and> (tr_inputs r \<noteq> None \<longrightarrow> tr_state r = AwaitingApproval)
     \<and> (tr_state r \<in> {Failed, CallDenied, CallInterrupted} \<longrightarrow> tr_is_error r)
     \<and> (tr_resolution r = None \<longleftrightarrow> tr_resolved_at r = None)
     \<and> (tr_resolution r \<in> {Some ResDenied, Some DeniedTimeout} \<longrightarrow> tr_state r = CallDenied)
     \<and> (tr_resolution r = Some ResAnswered \<longrightarrow> tr_state r = Completed)
     \<and> (tr_state r = Completed \<longrightarrow> tr_started_at r \<noteq> None \<or> tr_resolution r = Some ResAnswered)
     \<and> (tr_state r = Failed \<longrightarrow> tr_started_at r \<noteq> None)"

inductive life :: "tool_call_state \<Rightarrow> tool_call_state \<Rightarrow> bool" where
  life_stay: "life s s"
| life_requested: "s \<in> {AwaitingApproval, Running, CallDenied, CallInterrupted} \<Longrightarrow> life Requested s"
| life_awaiting: "s \<in> {Requested, CallDenied, Completed, CallInterrupted} \<Longrightarrow> life AwaitingApproval s"
| life_running: "s \<in> {Completed, Failed, CallInterrupted} \<Longrightarrow> life Running s"

text \<open>One unit of work moves a call one step along its life. What identifies it never changes, a settled
  call keeps its outcome, and an approval is resolved once.\<close>

definition evolves :: "call_row \<Rightarrow> call_row \<Rightarrow> bool" where
  "evolves r r' \<longleftrightarrow>
     (tr_id r', tr_run r', tr_turn r', tr_ordinal r', tr_provider_id r', tr_name r', tr_arguments r', tr_effect r', tr_requested_at r')
       = (tr_id r, tr_run r, tr_turn r, tr_ordinal r, tr_provider_id r, tr_name r, tr_arguments r, tr_effect r, tr_requested_at r)
     \<and> life\<^sup>*\<^sup>* (tr_state r) (tr_state r')
     \<and> (settled_state (tr_state r) \<longrightarrow>
          (tr_state r', tr_result r', tr_is_error r', tr_display r', tr_finished_at r')
            = (tr_state r, tr_result r, tr_is_error r, tr_display r, tr_finished_at r))
     \<and> (tr_resolution r \<noteq> None \<longrightarrow> tr_resolution r' = tr_resolution r)
     \<and> (tr_started_at r \<noteq> None \<longrightarrow> tr_started_at r' = tr_started_at r)"

lemma evolves_refl [simp]: "evolves r r"
  by (simp add: evolves_def)

lemma evolves_trans: "evolves r r' \<Longrightarrow> evolves r' r'' \<Longrightarrow> evolves r r''"
  by (auto simp: evolves_def)

lemma settled_dead: "life s s' \<Longrightarrow> settled_state s \<Longrightarrow> s' = s"
  by (induction rule: life.induct) (auto simp: settled_state_def)

section \<open>Units of work that touch one call\<close>

text \<open>Between \<open>st\<close> and \<open>st'\<close> only the row of \<open>call\<close> has moved, along its life.\<close>

definition advances :: "ident \<Rightarrow> store \<Rightarrow> store \<Rightarrow> bool" where
  "advances call st st' \<longleftrightarrow>
     (\<exists>g. st_calls st' = map g (st_calls st)
        \<and> (\<forall>r \<in> set (st_calls st). call_ok r \<longrightarrow> call_ok (g r) \<and> evolves r (g r) \<and> (tr_id r \<noteq> call \<longrightarrow> g r = r)))
     \<and> (\<forall>run. map_option ri_session (st_runs st' run) = map_option ri_session (st_runs st run))
     \<and> st_journal st' = st_journal st"

lemma advances_same:
  assumes "st_calls st' = st_calls st" and "st_journal st' = st_journal st"
    and "\<And>run. map_option ri_session (st_runs st' run) = map_option ri_session (st_runs st run)"
  shows "advances call st st'"
  unfolding advances_def using assms by (intro conjI exI [of _ id]) simp_all

lemma advances_refl [simp]: "advances call st st"
  by (rule advances_same) simp_all

lemma advances_trans:
  assumes a: "advances call st st1" and b: "advances call st1 st2"
  shows "advances call st st2"
proof -
  from a obtain g where g: "st_calls st1 = map g (st_calls st)"
    "\<And>r. r \<in> set (st_calls st) \<Longrightarrow> call_ok r \<Longrightarrow> call_ok (g r) \<and> evolves r (g r) \<and> (tr_id r \<noteq> call \<longrightarrow> g r = r)"
    by (auto simp: advances_def)
  from b obtain h where h: "st_calls st2 = map h (st_calls st1)"
    "\<And>r. r \<in> set (st_calls st1) \<Longrightarrow> call_ok r \<Longrightarrow> call_ok (h r) \<and> evolves r (h r) \<and> (tr_id r \<noteq> call \<longrightarrow> h r = r)"
    by (auto simp: advances_def)
  have "call_ok (h (g r)) \<and> evolves r (h (g r)) \<and> (tr_id r \<noteq> call \<longrightarrow> h (g r) = r)"
    if "r \<in> set (st_calls st)" "call_ok r" for r
  proof -
    have "g r \<in> set (st_calls st1)" using that(1) g(1) by simp
    then show ?thesis using g(2) [OF that] h(2) [of "g r"] evolves_trans by (auto simp: evolves_def)
  qed
  then show ?thesis
    using a b g(1) h(1) unfolding advances_def by (intro conjI exI [of _ "h \<circ> g"]) auto
qed

lemma advances_update:
  assumes "\<And>r. P r \<Longrightarrow> tr_id r = call"
    and "\<And>r. r \<in> set (st_calls st) \<Longrightarrow> P r \<Longrightarrow> call_ok r \<Longrightarrow>
      call_ok (clear_inputs r (f r)) \<and> evolves r (clear_inputs r (f r))"
  shows "advances call st (update_calls P f st)"
  unfolding advances_def update_calls_def
  using assms by (intro conjI exI [of _ "\<lambda>r. if P r then clear_inputs r (f r) else r"]) auto

lemma reserve_advances: "reserve_context_capacity run n st = Ok st' \<Longrightarrow> advances call st st'"
  by (rule advances_same) (auto simp: reserve_context_capacity_def split: if_splits option.splits)

lemma reserve_result_advances: "reserve_tool_result_capacity run pid result first st = Ok st' \<Longrightarrow> advances call st st'"
  by (auto simp: reserve_tool_result_capacity_def Let_def intro: reserve_advances)

lemma reserve_result_calls: "reserve_tool_result_capacity run pid result first st = Ok st' \<Longrightarrow> st_calls st' = st_calls st"
  by (auto simp: reserve_tool_result_capacity_def reserve_context_capacity_def Let_def split: if_splits option.splits)

lemma reserve_or_exhaust_advances: "reserve_or_exhaust r result st = Ok (st', b) \<Longrightarrow> advances call st st'"
  by (auto simp: reserve_or_exhaust_def split: sum.splits store_error.splits intro: reserve_result_advances)

lemma session_files_advance: "advances call st (fold (record_session_file session now) files st)"
proof (induction files arbitrary: st)
  case (Cons u us)
  have "advances call st (record_session_file session now u st)"
    by (rule advances_same) (simp_all add: record_session_file_def Let_def split: prod.split)
  from advances_trans [OF this Cons.IH] show ?case by simp
qed simp

lemma spill_advances: "store_tool_spill idn c tool spill now st = Ok st' \<Longrightarrow> advances call st st'"
  by (rule advances_same) (auto simp: store_tool_spill_def result_simps Let_def)

section \<open>What a client knows\<close>

text \<open>A client keeps the last snapshot of every call it has seen in an event.\<close>

fun event_snapshot :: "tool_event \<Rightarrow> tool_snapshot option" where
  "event_snapshot (ToolCallRequested s) = Some s"
| "event_snapshot (ToolCallStarted s) = Some s"
| "event_snapshot (ToolCallOutputDelta _ _) = None"
| "event_snapshot (ToolApprovalRequested s _) = Some s"
| "event_snapshot (ToolApprovalResolved s _) = Some s"
| "event_snapshot (ToolCallFinished s) = Some s"
| "event_snapshot (RunInterrupted _ _) = None"

definition snapshot_in :: "tool_event published \<Rightarrow> tool_snapshot option" where
  "snapshot_in p = (case en_event (pb_envelope p) of OtherEvent e \<Rightarrow> event_snapshot e | _ \<Rightarrow> None)"

definition learn :: "tool_event published \<Rightarrow> (ident \<Rightarrow> tool_snapshot option) \<Rightarrow> ident \<Rightarrow> tool_snapshot option" where
  "learn p view = (case snapshot_in p of Some s \<Rightarrow> view(ts_id s \<mapsto> s) | None \<Rightarrow> view)"

definition client_view :: "tool_event published list \<Rightarrow> ident \<Rightarrow> tool_snapshot option" where
  "client_view ps = fold learn ps (\<lambda>_. None)"

definition loaded :: "store \<Rightarrow> ident \<Rightarrow> tool_snapshot option" where
  "loaded st call = (case load_tool_call call st of Inr s \<Rightarrow> Some s | Inl _ \<Rightarrow> None)"

text \<open>The snapshots of a call all name the same session.\<close>

definition sessions_agree :: "tool_event published list \<Rightarrow> bool" where
  "sessions_agree ps \<longleftrightarrow>
     (\<forall>p \<in> set ps. \<forall>s. snapshot_in p = Some s \<longrightarrow> map_option ts_session (client_view ps (ts_id s)) = Some (ts_session s))"

definition store_inv :: "tool_event codec \<Rightarrow> tool_event published list \<Rightarrow> store \<Rightarrow> bool" where
  "store_inv cd ps st \<longleftrightarrow> distinct (map tr_id (st_calls st)) \<and> (\<forall>r \<in> set (st_calls st). call_ok r)
     \<and> client_view ps = loaded st \<and> sessions_agree ps \<and> journal_inv cd (log_of ps) (st_journal st)"

lemma client_view_snoc [simp]: "client_view (ps @ [p]) = learn p (client_view ps)"
  by (simp add: client_view_def)

lemma sessions_agree_snoc:
  assumes "sessions_agree ps"
    and "\<And>s. snapshot_in p = Some s \<Longrightarrow> client_view ps (ts_id s) = None
      \<or> map_option ts_session (client_view ps (ts_id s)) = Some (ts_session s)"
  shows "sessions_agree (ps @ [p])"
proof (cases "snapshot_in p")
  case None
  then show ?thesis using assms(1) by (simp add: sessions_agree_def learn_def)
next
  case (Some s)
  have "map_option ts_session (((client_view ps)(ts_id s \<mapsto> s)) (ts_id a)) = Some (ts_session a)" if q: "q \<in> set (ps @ [p])" "snapshot_in q = Some a" for q a
  proof (cases "q = p")
    case True
    then show ?thesis using q Some by simp
  next
    case False
    then have old: "map_option ts_session (client_view ps (ts_id a)) = Some (ts_session a)"
      using assms(1) q unfolding sessions_agree_def by simp
    then show ?thesis using assms(2) [OF Some] by (cases "ts_id a = ts_id s") auto
  qed
  then show ?thesis unfolding sessions_agree_def client_view_snoc learn_def Some option.case by blast
qed

lemma client_view_source:
  assumes "client_view ps i = Some s"
  shows "\<exists>p \<in> set ps. snapshot_in p = Some s \<and> ts_id s = i"
  using assms
proof (induction ps rule: rev_induct)
  case (snoc p ps)
  then show ?case by (auto simp: learn_def split: option.splits if_splits)
qed (simp add: client_view_def)

lemma find_map_same:
  "(\<And>r. r \<in> set rs \<Longrightarrow> tr_id (g r) = tr_id r) \<Longrightarrow>
   find (\<lambda>r. tr_id r = c) (map g rs) = map_option g (find (\<lambda>r. tr_id r = c) rs)"
  by (induction rs) simp_all

lemma find_mem: "find P rs = Some r \<Longrightarrow> r \<in> set rs \<and> P r"
  by (auto simp: find_Some_iff)

lemma loaded_other:
  assumes "advances call st st'" and "\<forall>r \<in> set (st_calls st). call_ok r" and "c \<noteq> call"
  shows "loaded st' c = loaded st c"
proof -
  obtain g where g: "st_calls st' = map g (st_calls st)"
    "\<And>r. r \<in> set (st_calls st) \<Longrightarrow> evolves r (g r) \<and> (tr_id r \<noteq> call \<longrightarrow> g r = r)"
    using assms(1,2) by (auto simp: advances_def)
  have "find (\<lambda>r. tr_id r = c) (st_calls st') = map_option g (find (\<lambda>r. tr_id r = c) (st_calls st))"
    unfolding g(1) using g(2) by (intro find_map_same) (simp add: evolves_def)
  also have "\<dots> = find (\<lambda>r. tr_id r = c) (st_calls st)"
    using g(2) assms(3) by (cases "find (\<lambda>r. tr_id r = c) (st_calls st)") (auto dest!: find_mem)
  finally have same: "select_call (\<lambda>r. tr_id r = c) st' = select_call (\<lambda>r. tr_id r = c) st"
    by (simp add: select_call_def)
  show ?thesis
  proof (cases "select_call (\<lambda>r. tr_id r = c) st")
    case None
    then show ?thesis by (simp add: loaded_def load_tool_call_def same ok_or_def)
  next
    case (Some r)
    have "map_option ri_session (st_runs st' (tr_run r)) = map_option ri_session (st_runs st (tr_run r))"
      using assms(1) by (simp add: advances_def)
    then show ?thesis
      using Some by (cases "st_runs st (tr_run r)"; cases "st_runs st' (tr_run r)")
        (simp_all add: loaded_def load_tool_call_def same ok_or_def)
  qed
qed

lemma loaded_session:
  "map_option ts_session (loaded st c)
     = Option.bind (find (\<lambda>r. tr_id r = c) (st_calls st)) (\<lambda>r. map_option ri_session (st_runs st (tr_run r)))"
  by (auto simp: loaded_def load_tool_call_def select_call_def ok_or_def snapshot_of_def split: option.split)

lemma evolves_run: "evolves r r' \<Longrightarrow> tr_run r' = tr_run r"
  by (simp add: evolves_def)

lemma advances_session:
  assumes "advances call st st'" and "\<forall>r \<in> set (st_calls st). call_ok r"
  shows "map_option ts_session (loaded st' c) = map_option ts_session (loaded st c)"
proof -
  obtain g where g: "st_calls st' = map g (st_calls st)" "\<And>r. r \<in> set (st_calls st) \<Longrightarrow> evolves r (g r)"
    and runs: "\<And>run. map_option ri_session (st_runs st' run) = map_option ri_session (st_runs st run)"
    using assms by (auto simp: advances_def)
  have "find (\<lambda>r. tr_id r = c) (st_calls st') = map_option g (find (\<lambda>r. tr_id r = c) (st_calls st))"
    unfolding g(1) using g(2) by (intro find_map_same) (simp add: evolves_def)
  then show ?thesis
    unfolding loaded_session using g(2) [THEN evolves_run] runs
    by (cases "find (\<lambda>r. tr_id r = c) (st_calls st)") (simp_all add: find_mem)
qed

lemma advances_rows:
  assumes "advances call st st'" and "distinct (map tr_id (st_calls st))" and "\<forall>r \<in> set (st_calls st). call_ok r"
  shows "distinct (map tr_id (st_calls st'))" and "\<forall>r \<in> set (st_calls st'). call_ok r"
    and "list_all2 evolves (st_calls st) (st_calls st')"
proof -
  obtain g where g: "st_calls st' = map g (st_calls st)"
    "\<And>r. r \<in> set (st_calls st) \<Longrightarrow> call_ok (g r) \<and> evolves r (g r)"
    using assms(1,3) by (auto simp: advances_def)
  have "map tr_id (st_calls st') = map tr_id (st_calls st)"
    using g by (auto simp: evolves_def)
  then show "distinct (map tr_id (st_calls st'))" using assms(2) by simp
  show "\<forall>r \<in> set (st_calls st'). call_ok r" using g by auto
  show "list_all2 evolves (st_calls st) (st_calls st')"
    using g by (auto simp: list_all2_conv_all_nth)
qed

text \<open>An event with the snapshot of the call that moved brings a client up to date.\<close>

lemma emit_simps:
  assumes "emit cd cx e st = Ok (st', p)"
  shows "st_calls st' = st_calls st" and "st_runs st' = st_runs st" and "en_event (pb_envelope p) = OtherEvent e"
  using assms by (auto simp: emit_def make_envelope_def split: sum.splits elim!: append_eventE)

lemma emit_journal:
  assumes "journal_inv cd (log_of ps) (st_journal st)" and "emit cd cx e st = Ok (st', p)"
  shows "journal_inv cd (log_of (ps @ [p])) (st_journal st')"
proof -
  obtain j where "append_event cd cx (OtherEvent e) (st_journal st) = Ok (j, p)" and "st' = st\<lparr>st_journal := j\<rparr>"
    using assms(2) by (auto simp: emit_def split: sum.splits)
  then show ?thesis using append_event_inv [OF assms(1)] by (simp add: log_of_snoc)
qed

lemma loaded_cong: "st_calls st' = st_calls st \<Longrightarrow> st_runs st' = st_runs st \<Longrightarrow> loaded st' = loaded st"
  by (simp add: loaded_def load_tool_call_def select_call_def fun_eq_iff)

lemma load_tool_call_id: "load_tool_call call st = Ok s \<Longrightarrow> ts_id s = call"
  by (auto simp: load_tool_call_def result_simps select_call_def snapshot_of_def dest: find_mem)

lemma emit_call_inv:
  assumes inv: "store_inv cd ps st" and adv: "advances call st st1"
    and e: "emit_call cd cx event call x st1 = Ok (st', qs, y)" and ev: "\<And>s. event_snapshot (event s) = Some s"
  shows "store_inv cd (ps @ qs) st'" and "list_all2 evolves (st_calls st) (st_calls st')"
proof -
  from e obtain s p where s: "load_tool_call call st1 = Ok s" and p: "emit cd cx (event s) st1 = Ok (st', p)" and qs: "qs = [p]"
    by (auto simp: emit_call_def result_simps)
  note em = emit_simps [OF p]
  have rows: "distinct (map tr_id (st_calls st))" "\<forall>r \<in> set (st_calls st). call_ok r" and view: "client_view ps = loaded st"
    using inv by (simp_all add: store_inv_def)
  note adv_rows = advances_rows [OF adv rows]
  have "loaded st' c = learn p (client_view ps) c" for c
    using s em view ev loaded_other [OF adv rows(2), of c] load_tool_call_id [OF s] loaded_cong [OF em(1,2)]
    by (cases "c = call") (simp_all add: learn_def snapshot_in_def loaded_def)
  moreover have "sessions_agree (ps @ [p])"
  proof (rule sessions_agree_snoc)
    fix s' assume "snapshot_in p = Some s'"
    then have "s' = s" using em(3) ev by (simp add: snapshot_in_def)
    then show "client_view ps (ts_id s') = None \<or> map_option ts_session (client_view ps (ts_id s')) = Some (ts_session s')"
      using s view advances_session [OF adv rows(2), of call] load_tool_call_id [OF s] by (simp add: loaded_def)
  qed (use inv in \<open>simp add: store_inv_def\<close>)
  moreover have "journal_inv cd (log_of (ps @ qs)) (st_journal st')"
    using inv adv emit_journal [OF _ p, of ps] by (simp add: store_inv_def advances_def qs)
  ultimately show "store_inv cd (ps @ qs) st'" using adv_rows em(1) by (simp add: store_inv_def qs fun_eq_iff)
  show "list_all2 evolves (st_calls st) (st_calls st')" using adv_rows(3) em(1) by simp
qed

section \<open>Every operation moves a call along its life\<close>

lemma life_step: "life s s' \<Longrightarrow> life\<^sup>*\<^sup>* s s'" by (rule r_into_rtranclp)

lemma clear_inputs_same [simp]:
  "tr_id (clear_inputs r r') = tr_id r'" "tr_run (clear_inputs r r') = tr_run r'" "tr_turn (clear_inputs r r') = tr_turn r'"
  "tr_ordinal (clear_inputs r r') = tr_ordinal r'" "tr_provider_id (clear_inputs r r') = tr_provider_id r'"
  "tr_name (clear_inputs r r') = tr_name r'" "tr_arguments (clear_inputs r r') = tr_arguments r'"
  "tr_effect (clear_inputs r r') = tr_effect r'" "tr_state (clear_inputs r r') = tr_state r'"
  "tr_result (clear_inputs r r') = tr_result r'" "tr_is_error (clear_inputs r r') = tr_is_error r'"
  "tr_display (clear_inputs r r') = tr_display r'" "tr_resolution (clear_inputs r r') = tr_resolution r'"
  "tr_requested_at (clear_inputs r r') = tr_requested_at r'" "tr_started_at (clear_inputs r r') = tr_started_at r'"
  "tr_resolved_at (clear_inputs r r') = tr_resolved_at r'" "tr_finished_at (clear_inputs r r') = tr_finished_at r'"
  by (simp_all add: clear_inputs_def)

lemma clear_inputs_inputs [simp]:
  "tr_inputs (clear_inputs r r') =
     (if tr_inputs r \<noteq> None \<and> (tr_state r' \<noteq> AwaitingApproval \<or> tr_resolution r' \<noteq> None) then None else tr_inputs r')"
  by (simp add: clear_inputs_def)

lemmas row_defs = call_ok_def evolves_def settled_state_def
lemmas life_steps = life_requested [THEN life_step] life_awaiting [THEN life_step] life_running [THEN life_step]

lemma start_row:
  assumes "tr_state r = Requested" and "call_ok r"
  shows "call_ok (clear_inputs r (r\<lparr>tr_state := Running, tr_started_at := Some now\<rparr>))
    \<and> evolves r (clear_inputs r (r\<lparr>tr_state := Running, tr_started_at := Some now\<rparr>))"
  using assms unfolding row_defs by (simp add: life_steps; auto)

lemma request_row:
  assumes "tr_state r = Requested" and "call_ok r"
  shows "call_ok (clear_inputs r (r\<lparr>tr_state := AwaitingApproval, tr_inputs := Some previews\<rparr>))
    \<and> evolves r (clear_inputs r (r\<lparr>tr_state := AwaitingApproval, tr_inputs := Some previews\<rparr>))"
  using assms unfolding row_defs by (simp add: life_steps; auto)

lemma finish_row:
  assumes "tr_state r = Running" and "call_ok r"
  shows "call_ok (clear_inputs r (r\<lparr>tr_state := (if is_error then Failed else Completed), tr_result := Some result,
        tr_is_error := is_error, tr_finished_at := Some now, tr_display := display, tr_context := context\<rparr>))
    \<and> evolves r (clear_inputs r (r\<lparr>tr_state := (if is_error then Failed else Completed), tr_result := Some result,
        tr_is_error := is_error, tr_finished_at := Some now, tr_display := display, tr_context := context\<rparr>))"
  using assms unfolding row_defs by (simp add: life_steps; auto)

lemma settle_row:
  assumes "tr_state r = Requested \<or> b \<and> tr_state r = AwaitingApproval" and "call_ok r"
  shows "call_ok (clear_inputs r (r\<lparr>tr_state := (if b then CallInterrupted else CallDenied), tr_result := Some message,
        tr_is_error := True, tr_finished_at := Some now\<rparr>))
    \<and> evolves r (clear_inputs r (r\<lparr>tr_state := (if b then CallInterrupted else CallDenied), tr_result := Some message,
        tr_is_error := True, tr_finished_at := Some now\<rparr>))"
  using assms unfolding row_defs by (cases "tr_state r"; simp add: life_steps; auto)

lemma interrupt_row:
  assumes "unsettled r" and "call_ok r"
  shows "call_ok (clear_inputs r (r\<lparr>tr_state := CallInterrupted, tr_result := Some message, tr_is_error := True, tr_finished_at := Some now\<rparr>))
    \<and> evolves r (clear_inputs r (r\<lparr>tr_state := CallInterrupted, tr_result := Some message, tr_is_error := True, tr_finished_at := Some now\<rparr>))"
  using assms unfolding row_defs unsettled_def by (cases "tr_state r"; simp add: life_steps; auto)

lemma deny_row:
  assumes "tr_state r = AwaitingApproval" and "tr_resolution r = None" and "call_ok r" and "d \<in> {ResDenied, DeniedTimeout}"
  shows "call_ok (clear_inputs r (r\<lparr>tr_state := CallDenied, tr_result := Some message, tr_is_error := True,
        tr_resolution := Some d, tr_resolved_at := Some now, tr_finished_at := Some now\<rparr>))
    \<and> evolves r (clear_inputs r (r\<lparr>tr_state := CallDenied, tr_result := Some message, tr_is_error := True,
        tr_resolution := Some d, tr_resolved_at := Some now, tr_finished_at := Some now\<rparr>))"
  using assms unfolding row_defs by (simp add: life_steps; auto)

lemma approve_row:
  assumes "tr_state r = AwaitingApproval" and "tr_resolution r = None" and "call_ok r"
  shows "call_ok (clear_inputs r (r\<lparr>tr_state := Requested, tr_resolution := Some ApprovedOnce, tr_resolved_at := Some now\<rparr>))
    \<and> evolves r (clear_inputs r (r\<lparr>tr_state := Requested, tr_resolution := Some ApprovedOnce, tr_resolved_at := Some now\<rparr>))"
  using assms unfolding row_defs by (simp add: life_steps; auto)

lemma answer_row:
  assumes "tr_state r = AwaitingApproval" and "tr_resolution r = None" and "call_ok r"
  shows "call_ok (clear_inputs r (r\<lparr>tr_state := Completed, tr_result := Some message, tr_is_error := False,
        tr_resolution := Some ResAnswered, tr_resolved_at := Some now, tr_finished_at := Some now\<rparr>))
    \<and> evolves r (clear_inputs r (r\<lparr>tr_state := Completed, tr_result := Some message, tr_is_error := False,
        tr_resolution := Some ResAnswered, tr_resolved_at := Some now, tr_finished_at := Some now\<rparr>))"
  using assms unfolding row_defs by (simp add: life_steps; auto)

section \<open>Every operation keeps rows and clients consistent\<close>

text \<open>All rows there were are still there, in order and evolved; new ones come after them.\<close>

definition rows_evolve :: "store \<Rightarrow> store \<Rightarrow> bool" where
  "rows_evolve st st' \<longleftrightarrow> list_all2 evolves (st_calls st) (take (length (st_calls st)) (st_calls st'))"

lemma rows_evolve_all: "list_all2 evolves (st_calls st) (st_calls st') \<Longrightarrow> rows_evolve st st'"
  unfolding rows_evolve_def by (metis list_all2_lengthD order_refl take_all)

lemma rows_evolve_refl [simp]: "rows_evolve st st"
  by (rule rows_evolve_all) (simp add: list_all2_refl)

lemma rows_evolve_trans:
  assumes "rows_evolve st st1" and "rows_evolve st1 st2"
  shows "rows_evolve st st2"
proof -
  let ?n = "length (st_calls st)" and ?m = "length (st_calls st1)"
  have len: "?n \<le> ?m" and a: "list_all2 evolves (st_calls st) (take ?n (st_calls st1))"
    using assms(1) by (auto simp: rows_evolve_def dest: list_all2_lengthD)
  have "list_all2 evolves (take ?n (st_calls st1)) (take ?n (take ?m (st_calls st2)))"
    using assms(2) unfolding rows_evolve_def by (rule list_all2_takeI)
  then have "list_all2 evolves (take ?n (st_calls st1)) (take ?n (st_calls st2))" using len by (simp add: min_def)
  then show ?thesis using list_all2_trans [OF evolves_trans a] by (simp add: rows_evolve_def)
qed

definition keeps :: "tool_event codec \<Rightarrow> tool_event published list \<Rightarrow> store \<Rightarrow> tool_event published list \<Rightarrow> store \<Rightarrow> bool" where
  "keeps cd ps st qs st' \<longleftrightarrow> store_inv cd (ps @ qs) st' \<and> rows_evolve st st'"

lemma keeps_same: "store_inv cd ps st \<Longrightarrow> keeps cd ps st [] st"
  by (simp add: keeps_def)

lemma keeps_inv: "keeps cd ps st qs st' \<Longrightarrow> store_inv cd (ps @ qs) st'"
  by (simp add: keeps_def)

lemma keeps_trans: "keeps cd ps st qs st1 \<Longrightarrow> keeps cd (ps @ qs) st1 rs st2 \<Longrightarrow> keeps cd ps st (qs @ rs) st2"
  by (auto simp: keeps_def intro: rows_evolve_trans)

lemma emit_call_keeps:
  assumes "store_inv cd ps st" and "advances call st st1"
    and "emit_call cd cx event call x st1 = Ok (st', qs, y)" and "\<And>s. event_snapshot (event s) = Some s"
  shows "keeps cd ps st qs st'"
  using emit_call_inv [OF assms] by (simp add: keeps_def rows_evolve_all)

lemma start_keeps: "store_inv cd ps st \<Longrightarrow> start_tool_call cd sid now idn call st = Ok (st', qs, x) \<Longrightarrow> keeps cd ps st qs st'"
  by (auto simp: start_tool_call_def result_simps Let_def
      elim!: emit_call_keeps [rotated 2] intro!: advances_update start_row)

lemma request_keeps:
  "store_inv cd ps st \<Longrightarrow> request_tool_approval cd sid now idn call previews inputs_json st = Ok (st', qs, x) \<Longrightarrow> keeps cd ps st qs st'"
  by (auto simp: request_tool_approval_def result_simps Let_def
      elim!: emit_call_keeps [rotated 2] intro!: advances_update request_row)

lemma settle_keeps:
  assumes inv: "store_inv cd ps st" and "settle_unstarted_tool_call cd sid now idn call message b st = Ok (st', qs, x)"
  shows "keeps cd ps st qs st'"
proof -
  obtain r st1 where st1: "reserve_tool_result_capacity (id_run idn) (tr_provider_id r) message (first_result_in_turn r st) st = Ok st1"
    and e: "emit_call cd (for_run sid idn now) ToolCallFinished call ()
      (update_calls (\<lambda>r. tr_id r = call \<and> tr_run r = id_run idn \<and> (tr_state r = Requested \<or> b \<and> tr_state r = AwaitingApproval))
        (\<lambda>r. r\<lparr>tr_state := (if b then CallInterrupted else CallDenied), tr_result := Some message, tr_is_error := True,
          tr_finished_at := Some now\<rparr>) st1) = Ok (st', qs, x)"
    using assms(2) by (auto simp: settle_unstarted_tool_call_def result_simps Let_def)
  show ?thesis
    by (rule emit_call_keeps [OF inv _ e], rule advances_trans [OF reserve_result_advances [OF st1]], rule advances_update,
        simp, rule settle_row, simp_all)
qed

lemma finish_keeps:
  assumes inv: "store_inv cd ps st"
    and "finish_tool_call cd sid now idn call result is_error files display spill re st = Ok (st', qs, x)"
  shows "keeps cd ps st qs st'"
proof -
  let ?P = "\<lambda>r. tr_id r = call \<and> tr_run r = id_run idn \<and> tr_state r = Running"
  obtain r st1 exhausted json st4 where st1: "reserve_or_exhaust r result st = Ok (st1, exhausted)"
    and st4: "(case spill of None \<Rightarrow> Ok (fold (record_session_file (id_session idn) now) files
        (update_calls ?P (\<lambda>r. r\<lparr>tr_state := (if is_error then Failed else Completed), tr_result := Some result,
           tr_is_error := is_error, tr_finished_at := Some now, tr_display := display,
           tr_context := (case json of Some j \<Rightarrow> Some j | None \<Rightarrow> tr_context r)\<rparr>) st1))
      | Some s \<Rightarrow> store_tool_spill idn call (tr_name r) s now (fold (record_session_file (id_session idn) now) files
        (update_calls ?P (\<lambda>r. r\<lparr>tr_state := (if is_error then Failed else Completed), tr_result := Some result,
           tr_is_error := is_error, tr_finished_at := Some now, tr_display := display,
           tr_context := (case json of Some j \<Rightarrow> Some j | None \<Rightarrow> tr_context r)\<rparr>) st1))) = Ok st4"
    and e: "emit_call cd (for_run sid idn now) ToolCallFinished call exhausted st4 = Ok (st', qs, x)"
    using assms(2) by (auto simp: finish_tool_call_def result_simps Let_def)
  define st2 where "st2 = update_calls ?P (\<lambda>r. r\<lparr>tr_state := (if is_error then Failed else Completed), tr_result := Some result,
           tr_is_error := is_error, tr_finished_at := Some now, tr_display := display,
           tr_context := (case json of Some j \<Rightarrow> Some j | None \<Rightarrow> tr_context r)\<rparr>) st1"
  have a1: "advances call st st1" using st1 by (rule reserve_or_exhaust_advances)
  have "advances call st1 st2"
    unfolding st2_def by (rule advances_update, simp, rule finish_row) simp_all
  moreover have "advances call st2 st4"
    using st4 session_files_advance [of call st2 "id_session idn" now files] unfolding st2_def [symmetric]
    by (cases spill) (auto intro: advances_trans spill_advances)
  ultimately have "advances call st st4" using a1 advances_trans by blast
  then show ?thesis by (rule emit_call_keeps [OF inv _ e]) simp
qed

lemma call_unique:
  "store_inv cd ps st \<Longrightarrow> r' \<in> set (st_calls st) \<Longrightarrow> r \<in> set (st_calls st) \<Longrightarrow> tr_id r' = c \<Longrightarrow> tr_id r = c \<Longrightarrow> r' = r"
  by (auto simp: store_inv_def distinct_map inj_on_def)

lemma conclude_keeps:
  assumes inv: "store_inv cd ps st" and c: "conclude_tool_approval cd sid now idn call timed_out st = Ok (st', qs, x)"
  shows "keeps cd ps st qs st'"
proof -
  obtain r where r: "find (\<lambda>r. tr_id r = call \<and> tr_run r = id_run idn) (st_calls st) = Some r"
    using c by (auto simp: conclude_tool_approval_def result_simps select_call_def)
  show ?thesis
  proof (cases "tr_resolution r \<noteq> None \<or> \<not> timed_out \<or> tr_state r \<noteq> AwaitingApproval")
    case True
    then have "st' = st" "qs = []"
      using c r by (auto simp: conclude_tool_approval_def result_simps select_call_def ok_or_def split: option.splits)
    then show ?thesis using inv by (simp add: keeps_same)
  next
    case False
    let ?P = "\<lambda>r. tr_id r = call \<and> tr_state r = AwaitingApproval"
    obtain st1 where st1: "reserve_tool_result_capacity (id_run idn) (tr_provider_id r) TIMEOUT_DENIED_RESULT (first_result_in_turn r st) st = Ok st1"
      and e: "emit_call cd (uncaused (for_run sid idn now)) (\<lambda>snap. ToolApprovalResolved snap DeniedTimeout) call
        (Denied TIMEOUT_DENIED_RESULT) (update_calls ?P (\<lambda>r. r\<lparr>tr_state := CallDenied, tr_result := Some TIMEOUT_DENIED_RESULT,
          tr_is_error := True, tr_resolution := Some DeniedTimeout, tr_resolved_at := Some now, tr_finished_at := Some now\<rparr>) st1)
        = Ok (st', qs, x)"
      using c r False by (auto simp: conclude_tool_approval_def result_simps select_call_def ok_or_def)
    have "tr_resolution r' = None" if "r' \<in> set (st_calls st1)" "tr_id r' = call" for r'
      using call_unique [OF inv, of r' r call] that reserve_result_calls [OF st1] find_mem [OF r] False by auto
    then show ?thesis
      by (intro emit_call_keeps [OF inv _ e] advances_trans [OF reserve_result_advances [OF st1]] advances_update deny_row) auto
  qed
qed

lemma respond_update_advances:
  assumes inv: "store_inv cd ps st" and r: "r \<in> set (st_calls st)" "tr_resolution r = None"
    and u: "respond_update ctx now run r decision refusal st = Ok (st1, resolution)"
  shows "advances (tr_id r) st st1"
proof -
  let ?d = "if refusal \<noteq> None then DenyOnce else decision"
  have none: "tr_resolution r' = None" if "r' \<in> set (st_calls st2)" "tr_id r' = tr_id r" "st_calls st2 = st_calls st" for r' st2
    using call_unique [OF inv, of r' r "tr_id r"] that r by auto
  show ?thesis
  proof (cases ?d)
    case ApproveOnce
    then have st1: "st1 = update_calls (\<lambda>x. tr_id x = tr_id r \<and> tr_state x = AwaitingApproval)
        (\<lambda>x. x\<lparr>tr_state := Requested, tr_resolution := Some ApprovedOnce, tr_resolved_at := Some now\<rparr>) st"
      using u by (simp add: respond_update_def Let_def)
    show ?thesis unfolding st1
      using none [of _ st] by (intro advances_update approve_row) auto
  next
    case DenyOnce
    then obtain message st2 where st2: "reserve_tool_result_capacity run (tr_provider_id r) message (first_result_in_turn r st) st = Ok st2"
      and st1: "st1 = update_calls (\<lambda>x. tr_id x = tr_id r \<and> tr_state x = AwaitingApproval)
        (\<lambda>x. x\<lparr>tr_state := CallDenied, tr_result := Some message, tr_is_error := True, tr_resolution := Some ResDenied,
           tr_resolved_at := Some now, tr_finished_at := Some now\<rparr>) st2"
      using u by (auto simp: respond_update_def Let_def result_simps)
    show ?thesis unfolding st1
      using none reserve_result_calls [OF st2]
      by (intro advances_trans [OF reserve_result_advances [OF st2]] advances_update deny_row) auto
  next
    case (Answer answers)
    then obtain message st2 where st2: "reserve_tool_result_capacity run (tr_provider_id r) message (first_result_in_turn r st) st = Ok st2"
      and st1: "st1 = update_calls (\<lambda>x. tr_id x = tr_id r \<and> tr_state x = AwaitingApproval)
        (\<lambda>x. x\<lparr>tr_state := Completed, tr_result := Some message, tr_is_error := False, tr_resolution := Some ResAnswered,
           tr_resolved_at := Some now, tr_finished_at := Some now\<rparr>) st2"
      using u by (auto simp: respond_update_def Let_def result_simps split: sum.splits)
    show ?thesis unfolding st1
      using none reserve_result_calls [OF st2]
      by (intro advances_trans [OF reserve_result_advances [OF st2]] advances_update answer_row) auto
  qed
qed

lemma respond_keeps:
  assumes inv: "store_inv cd ps st" and c: "respond_tool_approval ctx cd sid now command run call decision st = Ok (st', qs, x)"
  shows "keeps cd ps st qs st'"
proof -
  obtain r where f: "find (\<lambda>r. tr_id r = call) (st_calls st) = Some r"
    using c by (auto simp: respond_tool_approval_def result_simps select_call_def)
  then have r: "r \<in> set (st_calls st)" "tr_id r = call" by (auto dest: find_mem)
  show ?thesis
  proof (cases "tr_resolution r")
    case (Some resolution)
    then show ?thesis
      using c f inv by (auto simp: respond_tool_approval_def result_simps select_call_def keeps_same)
  next
    case None
    obtain w session refusal st1 resolution where u: "respond_update ctx now run r decision refusal st = Ok (st1, resolution)"
      and e: "emit_call cd (for_run_ids sid w session run (Some command) now) (\<lambda>snap. ToolApprovalResolved snap resolution)
        call resolution st1 = Ok (st', qs, x)"
      using c f None by (auto simp: respond_tool_approval_def result_simps select_call_def)
    show ?thesis
      using emit_call_keeps [OF inv _ e] respond_update_advances [OF inv r(1) None u] r(2) by simp
  qed
qed

text \<open>A new call is a new row with a new identifier, and its event tells the clients of it.\<close>

lemma requested_row_ok [simp]: "call_ok (requested_row run now c)"
  by (simp add: requested_row_def call_ok_def settled_state_def)

lemma requested_row_id [simp]: "tr_id (requested_row run now c) = nc_id c"
  by (simp add: requested_row_def)

lemma find_snoc_other: "tr_id row \<noteq> c \<Longrightarrow> find (\<lambda>r. tr_id r = c) (rs @ [row]) = find (\<lambda>r. tr_id r = c) rs"
  by (induction rs) simp_all

lemma loaded_snoc_other:
  "tr_id row \<noteq> c \<Longrightarrow> loaded (st\<lparr>st_calls := st_calls st @ [row]\<rparr>) c = loaded st c"
  by (simp add: loaded_def load_tool_call_def select_call_def find_snoc_other)

lemma insert_call_keeps:
  assumes inv: "store_inv cd ps st" and i: "insert_call cd sid now idn c st = Ok (st', qs, x)"
  shows "keeps cd ps st qs st'"
proof -
  let ?row = "requested_row (id_run idn) now c"
  let ?st1 = "st\<lparr>st_calls := st_calls st @ [?row]\<rparr>"
  obtain s p where new: "\<not> list_ex (call_conflicts ?row) (st_calls st)" and s: "load_tool_call (nc_id c) ?st1 = Ok s"
    and p: "emit cd (for_run sid idn now) (ToolCallRequested s) ?st1 = Ok (st', p)" and qs: "qs = [p]"
    using i by (auto simp: insert_call_def emit_call_def result_simps Let_def)
  note em = emit_simps [OF p]
  have fresh: "nc_id c \<notin> tr_id ` set (st_calls st)"
    using new by (auto simp: list_ex_iff call_conflicts_def)
  have view: "client_view ps = loaded st" and agree: "sessions_agree ps" using inv by (simp_all add: store_inv_def)
  have "client_view ps (nc_id c) = None"
  proof -
    have "find (\<lambda>r. tr_id r = nc_id c) (st_calls st) = None" unfolding find_None_iff using fresh by force
    then show ?thesis unfolding view by (simp add: loaded_def load_tool_call_def select_call_def ok_or_def)
  qed
  then have "sessions_agree (ps @ [p])"
    using load_tool_call_id [OF s] em(3) by (intro sessions_agree_snoc [OF agree]) (simp add: snapshot_in_def)
  moreover have "loaded st' k = learn p (client_view ps) k" for k
    using s em view load_tool_call_id [OF s] loaded_cong [OF em(1,2)] loaded_snoc_other [of ?row k st]
    by (cases "k = nc_id c") (simp_all add: learn_def snapshot_in_def loaded_def)
  moreover have "journal_inv cd (log_of (ps @ qs)) (st_journal st')"
    using inv emit_journal [OF _ p, of ps] by (simp add: store_inv_def qs)
  ultimately have "store_inv cd (ps @ qs) st'"
    using inv em(1) fresh by (auto simp: store_inv_def qs fun_eq_iff)
  moreover have "rows_evolve st st'" using em(1) by (simp add: rows_evolve_def list_all2_refl)
  ultimately show ?thesis by (simp add: keeps_def)
qed

lemma insert_calls_keeps:
  "store_inv cd ps st \<Longrightarrow> insert_calls cd sid now idn cs st = Ok (st', qs, x) \<Longrightarrow> keeps cd ps st qs st'"
proof (induction cs arbitrary: ps st qs)
  case (Cons c cs)
  from Cons.prems(2) obtain st1 qs1 qs2 where a: "insert_call cd sid now idn c st = Ok (st1, qs1, ())"
    and b: "insert_calls cd sid now idn cs st1 = Ok (st', qs2, ())" and qs: "qs = qs1 @ qs2"
    by (auto simp: result_simps)
  have k: "keeps cd ps st qs1 st1" using insert_call_keeps [OF Cons.prems(1) a] .
  have "keeps cd (ps @ qs1) st1 qs2 st'" using Cons.IH [OF keeps_inv [OF k]] b by simp
  then show ?case using k qs by (auto intro: keeps_trans)
qed (simp add: keeps_same)

text \<open>An event without a snapshot changes what nobody knows of a call.\<close>

lemma emit_quiet_keeps:
  assumes inv: "store_inv cd ps st" and p: "emit cd cx e st = Ok (st', p)" and e: "event_snapshot e = None"
  shows "keeps cd ps st [p] st'"
  using inv emit_simps [OF p] loaded_cong [OF emit_simps(1,2) [OF p]] emit_journal [OF _ p, of ps] e sessions_agree_snoc [of ps p]
  by (simp add: keeps_def store_inv_def learn_def snapshot_in_def rows_evolve_def list_all2_refl)

lemma append_output_keeps:
  "store_inv cd ps st \<Longrightarrow> append_tool_call_output cd sid now idn call chunk st = Ok (st', qs, x) \<Longrightarrow> keeps cd ps st qs st'"
  by (auto simp: append_tool_call_output_def result_simps intro: emit_quiet_keeps)

lemma context_row [simp]: "call_ok (r\<lparr>tr_context := c\<rparr>) = call_ok r" "evolves r (r\<lparr>tr_context := c\<rparr>)"
  "snapshot_of session (r\<lparr>tr_context := c\<rparr>) = snapshot_of session r"
  by (simp_all add: call_ok_def evolves_def snapshot_of_def)

lemma loaded_context:
  "loaded (st\<lparr>st_calls := map (\<lambda>r. if P r then r\<lparr>tr_context := c\<rparr> else r) (st_calls st)\<rparr>) = loaded st"
proof
  fix k
  have "find (\<lambda>r. tr_id r = k) (map (\<lambda>r. if P r then r\<lparr>tr_context := c\<rparr> else r) (st_calls st))
      = map_option (\<lambda>r. if P r then r\<lparr>tr_context := c\<rparr> else r) (find (\<lambda>r. tr_id r = k) (st_calls st))"
    by (rule find_map_same) simp
  then show "loaded (st\<lparr>st_calls := map (\<lambda>r. if P r then r\<lparr>tr_context := c\<rparr> else r) (st_calls st)\<rparr>) k = loaded st k"
    by (cases "find (\<lambda>r. tr_id r = k) (st_calls st)")
      (auto simp: loaded_def load_tool_call_def select_call_def ok_or_def split: option.splits)
qed

lemma record_tool_process_keeps:
  assumes inv: "store_inv cd ps st" and "record_tool_process idn call re st = Ok (st', qs, x)"
  shows "keeps cd ps st qs st'"
proof -
  let ?g = "\<lambda>json r. if tr_id r = call \<and> tr_run r = id_run idn then r\<lparr>tr_context := Some json\<rparr> else r"
  obtain json where st': "st' = st\<lparr>st_calls := map (?g json) (st_calls st)\<rparr>" and qs: "qs = []"
    using assms(2) by (auto simp: record_tool_process_def result_simps)
  have ids: "map tr_id (st_calls st') = map tr_id (st_calls st)" by (auto simp: st')
  have ok: "\<forall>r \<in> set (st_calls st'). call_ok r" using inv by (auto simp: st' store_inv_def)
  have "loaded st' = loaded st"
    unfolding st' by (rule loaded_context [where P = "\<lambda>r. tr_id r = call \<and> tr_run r = id_run idn"])
  moreover have "st_journal st' = st_journal st" by (simp add: st')
  ultimately have "store_inv cd ps st'" using inv ids ok by (simp add: store_inv_def)
  moreover have "rows_evolve st st'"
    by (rule rows_evolve_all) (simp add: st' list_all2_conv_all_nth)
  ultimately show ?thesis by (simp add: keeps_def qs)
qed

text \<open>The calls of the loop are still unsettled when their turn comes, guarded or not.\<close>

definition all_unsettled :: "call_row list \<Rightarrow> store \<Rightarrow> bool" where
  "all_unsettled cs st \<longleftrightarrow> distinct (map tr_id cs)
     \<and> (\<forall>c \<in> set cs. \<forall>r \<in> set (st_calls st). tr_id r = tr_id c \<longrightarrow> unsettled r)"

lemma unsettled_iff: "unsettled r \<longleftrightarrow> \<not> settled_state (tr_state r)"
  by (cases "tr_state r") (simp_all add: unsettled_def settled_state_def)

lemma interrupt_step:
  assumes inv: "store_inv cd ps st" and u: "all_unsettled (c # cs) st"
    and "interrupt_loop guarded cd cx now result (c # cs) st = Ok (st', qs, x)"
  obtains st1 qs1 qs2 where "interrupt_loop guarded cd cx now result cs st1 = Ok (st', qs2, ())" and "qs = qs1 @ qs2"
    and "store_inv cd (ps @ qs1) st1" and "list_all2 evolves (st_calls st) (st_calls st1)" and "all_unsettled cs st1"
    and "\<forall>r \<in> set (st_calls st1). tr_id r = tr_id c \<longrightarrow> settled_state (tr_state r)"
proof -
  let ?P = "\<lambda>r. tr_id r = tr_id c \<and> (guarded \<longrightarrow> unsettled r)"
  let ?st = "update_calls ?P
    (\<lambda>r. r\<lparr>tr_state := CallInterrupted, tr_result := Some (result c), tr_is_error := True, tr_finished_at := Some now\<rparr>) st"
  obtain st1 qs1 qs2 where a: "emit_call cd cx ToolCallFinished (tr_id c) () ?st = Ok (st1, qs1, ())"
    and b: "interrupt_loop guarded cd cx now result cs st1 = Ok (st', qs2, ())" and qs: "qs = qs1 @ qs2"
    using assms(3) by (auto simp: result_simps)
  have adv: "advances (tr_id c) st ?st"
    by (rule advances_update, simp, rule interrupt_row) (use u in \<open>simp_all add: all_unsettled_def\<close>)
  have calls: "st_calls st1 = st_calls ?st" using a emit_simps(1) by (auto simp: emit_call_def result_simps)
  have "all_unsettled cs st1" using u by (auto simp: all_unsettled_def calls update_calls_def split: if_splits)
  moreover have "\<forall>r \<in> set (st_calls st1). tr_id r = tr_id c \<longrightarrow> settled_state (tr_state r)"
    using u by (auto simp: all_unsettled_def calls update_calls_def settled_state_def split: if_splits)
  ultimately show thesis using that b qs emit_call_inv [OF inv adv a] by simp
qed

lemma list_all2_evolves_settled:
  assumes "list_all2 evolves rs rs'" and "\<forall>r \<in> set rs. tr_id r = k \<longrightarrow> settled_state (tr_state r)"
  shows "\<forall>r \<in> set rs'. tr_id r = k \<longrightarrow> settled_state (tr_state r)"
  using assms by (induction rule: list_all2_induct) (auto simp: evolves_def)

lemma interrupt_loop_settles:
  assumes "store_inv cd ps st" and "all_unsettled cs st" and "interrupt_loop guarded cd cx now result cs st = Ok (st', qs, x)"
  shows "store_inv cd (ps @ qs) st' \<and> list_all2 evolves (st_calls st) (st_calls st')
    \<and> (\<forall>c \<in> set cs. \<forall>r \<in> set (st_calls st'). tr_id r = tr_id c \<longrightarrow> settled_state (tr_state r))"
  using assms
proof (induction cs arbitrary: ps st qs)
  case (Cons c cs)
  from Cons.prems obtain st1 qs1 qs2 where b: "interrupt_loop guarded cd cx now result cs st1 = Ok (st', qs2, ())"
    and qs: "qs = qs1 @ qs2" and inv1: "store_inv cd (ps @ qs1) st1" and u1: "all_unsettled cs st1"
    and ev1: "list_all2 evolves (st_calls st) (st_calls st1)"
    and s1: "\<forall>r \<in> set (st_calls st1). tr_id r = tr_id c \<longrightarrow> settled_state (tr_state r)"
    by (rule interrupt_step)
  have IH: "store_inv cd ((ps @ qs1) @ qs2) st'" "list_all2 evolves (st_calls st1) (st_calls st')"
    "\<forall>c \<in> set cs. \<forall>r \<in> set (st_calls st'). tr_id r = tr_id c \<longrightarrow> settled_state (tr_state r)"
    using Cons.IH [OF inv1 u1] b by simp_all
  show ?case
    using IH qs list_all2_trans [OF evolves_trans ev1 IH(2)] list_all2_evolves_settled [OF IH(2) s1] by simp
qed (simp add: list_all2_refl)

lemma interrupt_loop_keeps:
  "store_inv cd ps st \<Longrightarrow> all_unsettled cs st \<Longrightarrow> interrupt_loop guarded cd cx now result cs st = Ok (st', qs, x)
   \<Longrightarrow> keeps cd ps st qs st'"
  using interrupt_loop_settles by (simp add: keeps_def rows_evolve_all)

lemma unsettled_calls_set: "set (unsettled_calls run st) = {r \<in> set (st_calls st). tr_run r = run \<and> unsettled r}"
  by (simp add: unsettled_calls_def)

lemma unsettled_calls_all:
  assumes inv: "store_inv cd ps st"
  shows "all_unsettled (unsettled_calls run st) st"
proof -
  have "distinct (st_calls st)" and inj: "inj_on tr_id (set (st_calls st))"
    using inv by (simp_all add: store_inv_def distinct_map)
  then have "distinct (map tr_id (unsettled_calls run st))"
    unfolding distinct_map by (auto simp: unsettled_calls_def intro: inj_on_subset)
  then show ?thesis
    using call_unique [OF inv] by (auto simp: all_unsettled_def unsettled_calls_set)
qed

lemma interrupt_active_keeps:
  "store_inv cd ps st \<Longrightarrow> interrupt_active_tool_calls cd sid now idn outcome caused st = Ok (st', qs, x) \<Longrightarrow> keeps cd ps st qs st'"
  by (auto simp: interrupt_active_tool_calls_def Let_def keeps_same intro: interrupt_loop_keeps unsettled_calls_all split: if_splits)

lemma record_run_interrupted_keeps:
  assumes inv: "store_inv cd ps st" and "record_run_interrupted cd sid now idn turn st = Ok (st', qs, x)"
  shows "keeps cd ps st qs st'"
proof -
  obtain st1 qs1 p where a: "interrupt_loop False cd (for_run sid idn now) now (\<lambda>_. INTERRUPTED_TOOL_RESULT)
      (unsettled_calls (id_run idn) st) st = Ok (st1, qs1, ())"
    and b: "emit cd (for_run sid idn now) (RunInterrupted (id_run idn) turn) st1 = Ok (st', p)" and qs: "qs = qs1 @ [p]"
    using assms(2) by (auto simp: record_run_interrupted_def result_simps)
  have k: "keeps cd ps st qs1 st1" using inv unsettled_calls_all [OF inv] a by (rule interrupt_loop_keeps)
  have "keeps cd (ps @ qs1) st1 [p] st'" using emit_quiet_keeps [OF keeps_inv [OF k] b] by simp
  then show ?thesis using k qs by (auto intro: keeps_trans)
qed

section \<open>Sequences of operations\<close>

text \<open>What the worker of the store is asked to do with tool calls. A unit of work that fails is rolled back: it
  leaves the tables as they were and publishes nothing.\<close>

datatype 'v store_op =
    OpInsert run_identity "new_call list"
  | OpStart run_identity ident
  | OpOutput run_identity ident string
  | OpProcess run_identity ident receipt
  | OpRequest run_identity ident approval_previews string
  | OpConclude run_identity ident bool
  | OpRespond "'v gate_context" ident ident ident approval_decision
  | OpFinish run_identity ident string bool "(string \<times> string) list" "string option" "spill_record option" "receipt option"
  | OpSettle run_identity ident string bool
  | OpEndRun run_identity run_end_kind "ident option"
  | OpRunInterrupted run_identity nat

definition effects :: "'a unit_of_work \<Rightarrow> (store_error, store \<times> tool_event published list) result" where
  "effects w = and_then w (\<lambda>(st, ps, _). Ok (st, ps))"

lemma effects_Ok: "effects w = Ok (st, ps) \<longleftrightarrow> (\<exists>x. w = Ok (st, ps, x))"
  by (auto simp: effects_def and_then_Ok)

fun run_op :: "tool_event codec \<Rightarrow> ident \<Rightarrow> nat \<Rightarrow> 'v store_op \<Rightarrow> store
  \<Rightarrow> (store_error, store \<times> tool_event published list) result" where
  "run_op cd sid now (OpInsert idn cs) st = effects (insert_calls cd sid now idn cs st)"
| "run_op cd sid now (OpStart idn call) st = effects (start_tool_call cd sid now idn call st)"
| "run_op cd sid now (OpOutput idn call chunk) st = effects (append_tool_call_output cd sid now idn call chunk st)"
| "run_op cd sid now (OpProcess idn call re) st = effects (record_tool_process idn call re st)"
| "run_op cd sid now (OpRequest idn call previews inputs_json) st =
     effects (request_tool_approval cd sid now idn call previews inputs_json st)"
| "run_op cd sid now (OpConclude idn call timed_out) st = effects (conclude_tool_approval cd sid now idn call timed_out st)"
| "run_op cd sid now (OpRespond ctx command run call decision) st =
     effects (respond_tool_approval ctx cd sid now command run call decision st)"
| "run_op cd sid now (OpFinish idn call result is_error files display spill re) st =
     effects (finish_tool_call cd sid now idn call result is_error files display spill re st)"
| "run_op cd sid now (OpSettle idn call message interrupted) st =
     effects (settle_unstarted_tool_call cd sid now idn call message interrupted st)"
| "run_op cd sid now (OpEndRun idn outcome caused_by) st =
     effects (interrupt_active_tool_calls cd sid now idn outcome caused_by st)"
| "run_op cd sid now (OpRunInterrupted idn turn) st = effects (record_run_interrupted cd sid now idn turn st)"

definition op_step :: "tool_event codec \<Rightarrow> ident \<Rightarrow> tool_event published list \<times> store \<Rightarrow> nat \<times> 'v store_op
  \<Rightarrow> tool_event published list \<times> store" where
  "op_step cd sid s item = (case run_op cd sid (fst item) (snd item) (snd s) of
     Inl _ \<Rightarrow> s
   | Inr (st, ps) \<Rightarrow> (fst s @ ps, st))"

definition log_inv :: "tool_event codec \<Rightarrow> tool_event published list \<times> store \<Rightarrow> bool" where
  "log_inv cd s \<longleftrightarrow> store_inv cd (fst s) (snd s)"

lemmas operation_keeps = insert_calls_keeps start_keeps append_output_keeps record_tool_process_keeps request_keeps
  conclude_keeps respond_keeps finish_keeps settle_keeps interrupt_active_keeps record_run_interrupted_keeps

lemma run_op_keeps: "store_inv cd ps st \<Longrightarrow> run_op cd sid now oper st = Ok (st', qs) \<Longrightarrow> keeps cd ps st qs st'"
  by (cases oper) (auto simp: effects_Ok intro: operation_keeps)

lemma op_step_keeps:
  assumes "log_inv cd s"
  shows "log_inv cd (op_step cd sid s item)" and "rows_evolve (snd s) (snd (op_step cd sid s item))"
  using assms run_op_keeps [of cd "fst s" "snd s" sid "fst item" "snd item"]
  by (auto simp: op_step_def log_inv_def keeps_def split: sum.split prod.split)

interpretation calls: state_machine "op_step cd sid" "log_inv cd" for cd sid
  by unfold_locales (rule op_step_keeps)

lemma op_steps_evolve: "log_inv cd s \<Longrightarrow> rows_evolve (snd s) (snd (foldl (op_step cd sid) s ops))"
proof (induction ops arbitrary: s)
  case (Cons item ops)
  show ?case
    using rows_evolve_trans [OF op_step_keeps(2) [OF Cons.prems] Cons.IH [OF op_step_keeps(1) [OF Cons.prems]]] by simp
qed simp

definition fresh_store :: "store \<Rightarrow> bool" where
  "fresh_store st \<longleftrightarrow> st_calls st = [] \<and> fresh_journal (st_journal st)"

lemma fresh_store_inv: "fresh_store st \<Longrightarrow> log_inv cd ([], st)"
  by (simp add: fresh_store_def log_inv_def store_inv_def fresh_journal_inv client_view_def sessions_agree_def loaded_def load_tool_call_def
      select_call_def ok_or_def fun_eq_iff)

lemma rows_evolveE:
  assumes "rows_evolve st st'" and "r \<in> set (st_calls st)"
  obtains r' where "r' \<in> set (st_calls st')" and "evolves r r'"
  using assms unfolding rows_evolve_def
  by (metis in_set_takeD list_all2_conv_all_nth in_set_conv_nth)

text \<open>C32 (type). Whatever operations run and whatever fails, every row of the table is well-formed: the call has a
  result and an end exactly when it is settled, it runs or has run only if it was started, an approval that
  was refused or answered has settled the call, and what an approval was asked with is kept only while it
  is pending. And whatever operations follow, each call is still there and has only moved along its life: what
  identifies it is unchanged, and once it is settled its state, its result, its display and its end are final.\<close>

theorem tool_calls_wellformed:
  assumes "fresh_store st0"
    and "foldl (op_step cd sid) ([], st0) ops = (log, st)" and "foldl (op_step cd sid) (log, st) later = (log', st')"
    and "r \<in> set (st_calls st)"
  shows "call_ok r \<and> (\<exists>r'. {x \<in> set (st_calls st'). tr_id x = tr_id r} = {r'} \<and> call_ok r' \<and> evolves r r')"
proof -
  have inv: "log_inv cd (log, st)"
    using calls.run_inv [OF fresh_store_inv [OF assms(1)]] assms(2) by metis
  have inv': "log_inv cd (log', st')" using calls.run_inv [OF inv] assms(3) by metis
  have "rows_evolve st st'" using op_steps_evolve [OF inv] assms(3) by (metis snd_conv)
  then obtain r1 where r1: "r1 \<in> set (st_calls st')" "evolves r r1" using assms(4) by (rule rows_evolveE)
  then have id1: "tr_id r1 = tr_id r" by (simp add: evolves_def)
  have uniq: "x = r1" if "x \<in> set (st_calls st')" "tr_id x = tr_id r" for x
    using call_unique [OF _ that(1) r1(1) that(2) id1] inv' by (simp add: log_inv_def)
  have "call_ok r" "call_ok r1" using inv inv' assms(4) r1 by (auto simp: log_inv_def store_inv_def)
  moreover have "{x \<in> set (st_calls st'). tr_id x = tr_id r} = {r1}" using r1(1) id1 uniq by blast
  ultimately show ?thesis using r1(2) by blast
qed

text \<open>The events refine the table: from an empty store, after any operations, the journal serves a client that stopped
  after some number of events the rest of them, and when it has applied them it holds for every call exactly the
  snapshot that the store would load for it, and nothing for a call that is not there.\<close>

lemma page_catches_up:
  assumes cd: "codec_ok cd" and "fresh_store st0" and "foldl (op_step cd sid) ([], st0) ops = (log, st)"
    and w: "\<forall>p \<in> set log. en_workspace (pb_envelope p) = w"
    and page: "read_published_events cd w after limit (st_journal st) = Ok page" and n: "length log \<le> after + limit"
  shows "page = drop after log" and "fold learn page (client_view (take after log)) = loaded st" and "sessions_agree log"
proof -
  have inv: "store_inv cd log st"
    using calls.run_inv [OF fresh_store_inv [OF assms(2)]] assms(3) unfolding log_inv_def by (metis fst_conv snd_conv)
  then have j: "journal_inv cd (log_of log) (st_journal st)" by (simp add: store_inv_def)
  have "log_of log w = log" using w by (simp add: log_of_def)
  then show p: "page = drop after log" using page n read_page_log [OF cd j, of w after limit] by (simp split: if_splits)
  then have "fold learn page (client_view (take after log)) = client_view (take after log @ drop after log)"
    by (simp only: client_view_def fold_append comp_apply)
  then show "fold learn page (client_view (take after log)) = loaded st" using inv by (simp add: store_inv_def)
  show "sessions_agree log" using inv by (simp add: store_inv_def)
qed

section \<open>The end of a run\<close>

lemma end_of_run_settles:
  assumes inv: "store_inv cd ps st" and e: "interrupt_active_tool_calls cd sid now idn outcome caused_by st = Ok (st', qs, x)"
    and r: "r \<in> set (st_calls st')" "tr_run r = id_run idn"
  shows "settled_state (tr_state r)"
proof -
  note mem = unsettled_calls_set [of "id_run idn" st] and settles = interrupt_loop_settles [OF inv unsettled_calls_all [OF inv]]
  show ?thesis
  proof (cases "outcome = EndCompleted")
    case True
    then show ?thesis using e r mem by (auto simp: interrupt_active_tool_calls_def Let_def unsettled_iff split: if_splits)
  next
    case False
    then obtain cx result where l: "interrupt_loop True cd cx now result (unsettled_calls (id_run idn) st) st = Ok (st', qs, x)"
      using e by (simp add: interrupt_active_tool_calls_def Let_def)
    obtain r0 where r0: "r0 \<in> set (st_calls st)" "evolves r0 r"
      using settles [OF l] r(1) by (metis list_all2_conv_all_nth in_set_conv_nth)
    show ?thesis
    proof (cases "unsettled r0")
      case True
      then have "r0 \<in> set (unsettled_calls (id_run idn) st)" using r0 r(2) mem by (simp add: evolves_def)
      then show ?thesis using settles [OF l] r r0 by (auto simp: evolves_def)
    next
      case False
      then show ?thesis using r0 by (auto simp: unsettled_iff evolves_def)
    qed
  qed
qed

text \<open>C13 (safety). A run that has ended leaves no call behind: after any operations, once the end of a run is recorded
  every call of the run is settled, and no later operation changes its state, its result or its end.\<close>

theorem ended_run_settled:
  assumes "fresh_store st0" and "foldl (op_step cd sid) ([], st0) ops = (log, st)"
    and "interrupt_active_tool_calls cd sid now idn outcome caused_by st = Ok (st1, ps, x)"
    and "foldl (op_step cd sid) (log @ ps, st1) later = (log', st')"
    and "r \<in> set (st_calls st1)" and "tr_run r = id_run idn"
  shows "settled_state (tr_state r) \<and> (\<exists>r' \<in> set (st_calls st'). tr_id r' = tr_id r
    \<and> (tr_state r', tr_result r', tr_finished_at r') = (tr_state r, tr_result r, tr_finished_at r))"
proof -
  have inv: "store_inv cd log st"
    using calls.run_inv [OF fresh_store_inv [OF assms(1)]] assms(2) unfolding log_inv_def by (metis fst_conv snd_conv)
  have s: "settled_state (tr_state r)" using end_of_run_settles [OF inv assms(3,5,6)] .
  have "log_inv cd (log @ ps, st1)" using interrupt_active_keeps [OF inv assms(3)] by (simp add: log_inv_def keeps_def)
  then have "rows_evolve st1 st'" using op_steps_evolve assms(4) by (metis snd_conv)
  then obtain r' where "r' \<in> set (st_calls st')" "evolves r r'" using assms(5) by (rule rows_evolveE)
  then show ?thesis using s by (intro conjI bexI [of _ r']) (auto simp: evolves_def)
qed

section \<open>A call that is requested and started\<close>

definition demo_identity :: run_identity where
  "demo_identity = \<lparr>id_workspace = ''w'', id_session = ''s'', id_run = ''r'', id_command = ''c''\<rparr>"

definition demo_new_call :: new_call where
  "demo_new_call = \<lparr>nc_id = ''t'', nc_turn = 0, nc_ordinal = 0, nc_provider_id = ''p'', nc_name = ''read'',
     nc_arguments = ''{}'', nc_effect = EffReadOnly\<rparr>"

definition demo_snapshot :: "tool_call_state \<Rightarrow> tool_snapshot" where
  "demo_snapshot s = snapshot_of ''s'' ((requested_row ''r'' 1 demo_new_call)\<lparr>tr_state := s\<rparr>)"

definition demo_published :: "nat \<Rightarrow> tool_event published" where
  "demo_published n = (if n = 1
     then \<lparr>pb_envelope = make_envelope (for_run ''i'' demo_identity 1) 1 (OtherEvent (ToolCallRequested (demo_snapshot Requested))), pb_json = ''1''\<rparr>
     else \<lparr>pb_envelope = make_envelope (for_run ''i'' demo_identity 2) 2 (OtherEvent (ToolCallStarted (demo_snapshot Running))), pb_json = ''2''\<rparr>)"

definition demo_tool_codec :: "tool_event codec" where
  "demo_tool_codec =
     \<lparr>cd_encode = (\<lambda>e. if e = pb_envelope (demo_published 1) then Some ''1''
                      else if e = pb_envelope (demo_published 2) then Some ''2'' else None),
      cd_decode = (\<lambda>s. if s = ''1'' then Some (pb_envelope (demo_published 1))
                      else if s = ''2'' then Some (pb_envelope (demo_published 2)) else None)\<rparr>"

definition demo_store :: store where
  "demo_store = \<lparr>st_journal = demo_journal, st_calls = [],
     st_runs = [''r'' \<mapsto> \<lparr>ri_session = ''s'', ri_status = RunRunning, ri_base = Some 0, ri_increment = 0\<rparr>],
     st_sessions = [''s'' \<mapsto> \<lparr>si_workspace = ''w'', si_mode = AskMode, si_parent = None\<rparr>], st_spills = [], st_files = []\<rparr>"

definition demo_row :: call_row where
  "demo_row = (requested_row ''r'' 1 demo_new_call)\<lparr>tr_state := Running, tr_started_at := Some 2\<rparr>"

definition demo_store_after :: "nat \<Rightarrow> store" where
  "demo_store_after n = demo_store\<lparr>
     st_calls := [if n = 1 then requested_row ''r'' 1 demo_new_call else demo_row],
     st_journal := \<lparr>jn_next = [''w'' \<mapsto> n], jn_rows = map (\<lambda>i. \<lparr>jr_workspace = ''w'', jr_sequence = i, jr_json = pb_json (demo_published i)\<rparr>) (if n = 1 then [1] else [1, 2]),
       jn_bytes = n, jn_count = n, jn_runs = (\<lambda>_. None)\<rparr>\<rparr>"

lemmas demo_defs = demo_identity_def demo_new_call_def demo_snapshot_def demo_published_def demo_tool_codec_def
  demo_store_def demo_journal_def demo_row_def demo_store_after_def

lemmas journal_eval = append_event_def make_envelope_def for_run_def insert_row_def record_completion_def prune_def prune_loop.simps
  EVENT_JOURNAL_BYTES_def EVENT_JOURNAL_ROWS_def MAX_PERSISTED_EVENT_BYTES_def

lemma demo_insert: "op_step demo_tool_codec ''i'' ([], demo_store) (1, OpInsert demo_identity [demo_new_call] :: unit store_op)
    = ([demo_published 1], demo_store_after 1)"
  by (simp add: op_step_def effects_def insert_call_def emit_call_def emit_def require_def ok_or_def load_tool_call_def
      select_call_def snapshot_of_def requested_row_def journal_eval demo_defs Let_def)

lemma demo_start: "op_step demo_tool_codec ''i'' ([demo_published 1], demo_store_after 1) (2, OpStart demo_identity ''t'' :: unit store_op)
    = ([demo_published 1, demo_published 2], demo_store_after 2)"
  by (simp add: op_step_def effects_def start_tool_call_def count_calls_def update_calls_def clear_inputs_def emit_call_def emit_def
      require_def ok_or_def load_tool_call_def select_call_def snapshot_of_def requested_row_def journal_eval demo_defs numeral_2_eq_2 Let_def)

lemma demo_codec_ok: "codec_ok demo_tool_codec"
  by (simp add: codec_ok_def demo_tool_codec_def)

lemma demo_fresh: "fresh_store demo_store"
  by (simp add: fresh_store_def fresh_journal_def demo_store_def demo_journal_def)

theorem tool_calls_wellformed_witness:
  "call_ok (requested_row ''r'' 1 demo_new_call) \<and> (\<exists>r'. {x \<in> set (st_calls (demo_store_after 2)). tr_id x = ''t''} = {r'}
     \<and> call_ok r' \<and> evolves (requested_row ''r'' 1 demo_new_call) r')"
proof -
  have "foldl (op_step demo_tool_codec ''i'') ([], demo_store) [(1, OpInsert demo_identity [demo_new_call] :: unit store_op)]
      = ([demo_published 1], demo_store_after 1)"
    and "foldl (op_step demo_tool_codec ''i'') ([demo_published 1], demo_store_after 1) [(2, OpStart demo_identity ''t'' :: unit store_op)]
      = ([demo_published 1, demo_published 2], demo_store_after 2)"
    using demo_insert demo_start by simp_all
  moreover have "requested_row ''r'' 1 demo_new_call \<in> set (st_calls (demo_store_after 1))" by (simp add: demo_store_after_def)
  ultimately have "call_ok (requested_row ''r'' 1 demo_new_call)
      \<and> (\<exists>r'. {x \<in> set (st_calls (demo_store_after 2)). tr_id x = tr_id (requested_row ''r'' 1 demo_new_call)} = {r'}
        \<and> call_ok r' \<and> evolves (requested_row ''r'' 1 demo_new_call) r')"
    by (rule tool_calls_wellformed [OF demo_fresh])
  then show ?thesis by (simp add: demo_new_call_def)
qed

lemma demo_read: "read_published_events demo_tool_codec ''w'' 1 1 (st_journal (demo_store_after 2)) = Ok [demo_published 2]"
  by (simp add: read_published_events_def ensure_workspace_def read_published_event_page_def rows_of_def decode_row_def
      make_envelope_def demo_store_after_def demo_tool_codec_def demo_published_def)

definition demo_plain_codec :: "tool_event codec" where
  "demo_plain_codec = \<lparr>cd_encode = (\<lambda>_. Some ''{}''), cd_decode = (\<lambda>_. None)\<rparr>"

definition demo_inserted :: store where
  "demo_inserted = demo_store\<lparr>st_calls := [requested_row ''r'' 1 demo_new_call],
        st_journal := \<lparr>jn_next = [''w'' \<mapsto> 1], jn_rows = [\<lparr>jr_workspace = ''w'', jr_sequence = 1, jr_json = ''{}''\<rparr>],
          jn_bytes = 2, jn_count = 1, jn_runs = (\<lambda>_. None)\<rparr>\<rparr>"

lemma demo_plain_insert:
  "\<exists>p. op_step demo_plain_codec ''i'' ([], demo_store) (1, OpInsert demo_identity [demo_new_call] :: unit store_op)
    = ([p], demo_inserted)"
  by (simp add: op_step_def effects_def insert_call_def emit_call_def emit_def require_def ok_or_def load_tool_call_def
      select_call_def requested_row_def journal_eval demo_plain_codec_def demo_identity_def demo_new_call_def
      demo_store_def demo_journal_def demo_inserted_def Let_def)

lemma demo_interrupt:
  "\<exists>st1 p r. interrupt_active_tool_calls demo_plain_codec ''i'' 3 demo_identity EndCancelled None
      demo_inserted = Ok (st1, [p], ())
    \<and> st_calls st1 = [r] \<and> tr_run r = ''r''"
  by (simp add: interrupt_active_tool_calls_def unsettled_calls_def unsettled_def update_calls_def clear_inputs_def emit_call_def
      emit_def ok_or_def load_tool_call_def select_call_def requested_row_def for_run_ids_def journal_eval
      demo_plain_codec_def demo_identity_def demo_new_call_def demo_store_def demo_journal_def demo_inserted_def Let_def)

theorem ended_run_settled_witness:
  "\<exists>log st st1 ps r. foldl (op_step demo_plain_codec ''i'') ([], demo_store)
       [(1, OpInsert demo_identity [demo_new_call] :: unit store_op)] = (log, st)
     \<and> interrupt_active_tool_calls demo_plain_codec ''i'' 3 demo_identity EndCancelled None st = Ok (st1, ps, ())
     \<and> r \<in> set (st_calls st1) \<and> tr_run r = ''r'' \<and> settled_state (tr_state r)"
proof -
  obtain q where run: "foldl (op_step demo_plain_codec ''i'') ([], demo_store)
      [(1, OpInsert demo_identity [demo_new_call] :: unit store_op)] = ([q], demo_inserted)"
    using demo_plain_insert by auto
  obtain st1 p r where i: "interrupt_active_tool_calls demo_plain_codec ''i'' 3 demo_identity EndCancelled None demo_inserted = Ok (st1, [p], ())"
    and r: "st_calls st1 = [r]" "tr_run r = ''r''"
    using demo_interrupt by blast
  have none: "foldl (op_step demo_plain_codec ''i'') ([q] @ [p], st1) ([] :: (nat \<times> unit store_op) list) = ([q] @ [p], st1)" by simp
  have "settled_state (tr_state r)"
    using ended_run_settled [OF demo_fresh run i none] r by (simp add: demo_identity_def)
  moreover have "r \<in> set (st_calls st1)" by (simp add: r)
  ultimately show ?thesis using run i r(2) by blast
qed

end
