(* ===== verification/Diff.thy ===== *)
theory Diff
  imports Rust_Str "HOL-Library.Sublist"
begin

text \<open>
  Longest common subsequences and diffs (\<^verbatim>\<open>lcs_len\<close> of \<^verbatim>\<open>tools/matching.rs\<close>, \<^verbatim>\<open>diff_ops\<close> and
  \<^verbatim>\<open>unified_diff\<close> of \<^verbatim>\<open>tools/edit.rs\<close>). Both tables of the code are shown to hold the length of a longest
  common subsequence, and a diff to turn the old lines into the new ones with the fewest changes.
\<close>

section \<open>Two rows: the length alone\<close>

definition lcs_cell :: "'a \<Rightarrow> nat list \<Rightarrow> nat list \<Rightarrow> nat \<times> 'a \<Rightarrow> nat list" where
  "lcs_cell item previous current entry =
     (let j = fst entry
      in current[j + 1 := (if item = snd entry then previous ! j + 1 else max (previous ! (j + 1)) (current ! j))])"

definition lcs_row :: "'a list \<Rightarrow> nat list \<times> nat list \<Rightarrow> 'a \<Rightarrow> nat list \<times> nat list" where
  "lcs_row b rows item =
     (let (previous, current) = rows
      in (foldl (lcs_cell item previous) current (enumerate 0 b), previous))"

definition lcs_len :: "'a list \<Rightarrow> 'a list \<Rightarrow> nat" where
  "lcs_len a b =
     fst (foldl (lcs_row b) (replicate (length b + 1) 0, replicate (length b + 1) 0) a) ! length b"

section \<open>A table: the diff\<close>

datatype 'a diff_op = Equal 'a | Remove 'a | Add 'a

text \<open>The rows of the table from the last one up; a row is filled from its right end.\<close>

fun diff_row :: "'a \<Rightarrow> 'a list \<Rightarrow> nat list \<Rightarrow> nat list" where
  "diff_row x [] below = [0]"
| "diff_row x (y # ys) below =
     (let right = diff_row x ys (tl below)
      in (if x = y then hd (tl below) + 1 else max (hd below) (hd right)) # right)"

fun diff_table :: "'a list \<Rightarrow> 'a list \<Rightarrow> nat list list" where
  "diff_table [] b = [replicate (length b + 1) 0]"
| "diff_table (x # a) b = (let below = diff_table a b in diff_row x b (hd below) # below)"

function diff_walk :: "'a list \<Rightarrow> 'a list \<Rightarrow> nat list list \<Rightarrow> nat \<Rightarrow> nat \<Rightarrow> 'a diff_op list" where
  "diff_walk a b table i j =
     (if i < length a \<and> j < length b then
        (if a ! i = b ! j then Equal (a ! i) # diff_walk a b table (i + 1) (j + 1)
         else if table ! (i + 1) ! j \<ge> table ! i ! (j + 1) then Remove (a ! i) # diff_walk a b table (i + 1) j
         else Add (b ! j) # diff_walk a b table i (j + 1))
      else map Remove (drop i a) @ map Add (drop j b))"
  by pat_completeness auto
termination by (relation "measure (\<lambda>(a, b, _, i, j). (length a - i) + (length b - j))") auto

declare diff_walk.simps [simp del]

definition MAX_CELLS :: nat where "MAX_CELLS = 4000000"

definition diff_ops :: "'a list \<Rightarrow> 'a list \<Rightarrow> 'a diff_op list" where
  "diff_ops a b =
     (if a = [] \<or> b = [] \<or> length a * length b > MAX_CELLS then map Remove a @ map Add b
      else diff_walk a b (diff_table a b) 0 0)"

section \<open>The unified diff\<close>

fun common_prefix :: "'a list \<Rightarrow> 'a list \<Rightarrow> nat" where
  "common_prefix (x # xs) (y # ys) = (if x = y then common_prefix xs ys + 1 else 0)"
| "common_prefix _ _ = 0"

definition common_suffix :: "'a list \<Rightarrow> 'a list \<Rightarrow> nat" where
  "common_suffix xs ys = common_prefix (rev xs) (rev ys)"

text \<open>The hunk: the line it starts at, the counts of its header and its lines, with three lines of context
  around what changed.\<close>

record 'a diff_hunk =
  h_start :: nat
  h_old :: nat
  h_new :: nat
  h_lines :: "'a diff_op list"

definition hunk :: "'a list \<Rightarrow> 'a list \<Rightarrow> 'a diff_hunk" where
  "hunk a b =
     (let pre = common_prefix a b;
          suf = common_suffix (drop pre a) (drop pre b);
          a_mid = drop pre (take (length a - suf) a);
          b_mid = drop pre (take (length b - suf) b);
          start = pre - 3;
          lead = pre - start;
          trail = min suf 3
      in \<lparr>h_start = start, h_old = lead + length a_mid + trail, h_new = lead + length b_mid + trail,
          h_lines = map Equal (drop start (take pre a)) @ diff_ops a_mid b_mid
            @ map Equal (take trail (drop (length a - suf) a))\<rparr>)"

fun old_side :: "'a diff_op list \<Rightarrow> 'a list" where
  "old_side [] = []"
| "old_side (Equal x # ops) = x # old_side ops"
| "old_side (Remove x # ops) = x # old_side ops"
| "old_side (Add x # ops) = old_side ops"

fun new_side :: "'a diff_op list \<Rightarrow> 'a list" where
  "new_side [] = []"
| "new_side (Equal x # ops) = x # new_side ops"
| "new_side (Remove x # ops) = new_side ops"
| "new_side (Add x # ops) = x # new_side ops"

fun op_line :: "string diff_op \<Rightarrow> char \<times> string" where
  "op_line (Equal l) = (CHR '' '', l)"
| "op_line (Remove l) = (CHR ''-'', l)"
| "op_line (Add l) = (CHR ''+'', l)"

text \<open>The closure \<open>push\<close>: nothing is added once the diff is over its limit.\<close>

definition push_op :: "nat \<Rightarrow> nat \<Rightarrow> string \<Rightarrow> string diff_op \<Rightarrow> string" where
  "push_op start max_bytes out d =
     (if length out - start > max_bytes then out
      else (let (sign, line) = op_line d
            in out @ [sign] @ (case strip_suffix line [CHR 0x0A] of Some l \<Rightarrow> l | None \<Rightarrow> line) @ [CHR 0x0A]))"

definition hunk_header :: "string diff_hunk \<Rightarrow> string" where
  "hunk_header h =
     ''@@ -'' @ nat_to_string (h_start h + 1) @ '','' @ nat_to_string (h_old h) @ '' +''
     @ nat_to_string (h_start h + 1) @ '','' @ nat_to_string (h_new h) @ '' @@'' @ [CHR 0x0A]"

definition unified_diff :: "string \<Rightarrow> string \<Rightarrow> string \<Rightarrow> string \<Rightarrow> nat \<Rightarrow> string" where
  "unified_diff out path before after max_bytes =
     (if before = after then out
      else (let start = length out;
                h = hunk (split_inclusive before) (split_inclusive after);
                out1 = out @ ''--- a/'' @ path @ [CHR 0x0A] @ ''+++ b/'' @ path @ [CHR 0x0A] @ hunk_header h;
                out2 = foldl (push_op start max_bytes) out1 (h_lines h)
            in if length out2 - start > max_bytes then out2 @ ''[diff truncated]'' @ [CHR 0x0A] else out2))"

section \<open>Longest common subsequences\<close>

fun lcs :: "'a list \<Rightarrow> 'a list \<Rightarrow> nat" where
  "lcs (x # xs) (y # ys) = (if x = y then lcs xs ys + 1 else max (lcs xs (y # ys)) (lcs (x # xs) ys))"
| "lcs _ _ = 0"

lemma lcs_Nil [simp]: "lcs xs [] = 0"
  by (cases xs) simp_all

lemma lcs_upper: "subseq s xs \<Longrightarrow> subseq s ys \<Longrightarrow> length s \<le> lcs xs ys"
proof (induction xs ys arbitrary: s rule: lcs.induct)
  case (1 x xs y ys)
  show ?case
  proof (cases "x = y")
    case True
    then show ?thesis using 1 by (cases s) (auto simp: subseq_Cons2_iff split: if_splits dest: subseq_Cons')
  next
    case False
    then consider "subseq s xs" | "subseq s ys"
      using 1(4,5) by (cases s) (auto split: if_splits)
    then show ?thesis using 1(2,3) [OF False] 1(4,5) False by cases fastforce+
  qed
qed (auto dest: list_emb_Nil2)

lemma lcs_attained: "\<exists>s. subseq s xs \<and> subseq s ys \<and> length s = lcs xs ys"
proof (induction xs ys rule: lcs.induct)
  case (1 x xs y ys)
  show ?case
  proof (cases "x = y")
    case True
    with 1(1) obtain s where "subseq s xs" "subseq s ys" "length s = lcs xs ys" by auto
    then show ?thesis using True by (intro exI [of _ "x # s"]) simp
  next
    case False
    with 1(2,3) obtain s t where "subseq s xs" "subseq s (y # ys)" "length s = lcs xs (y # ys)"
      and "subseq t (x # xs)" "subseq t ys" "length t = lcs (x # xs) ys" by blast
    then show ?thesis using False by (intro exI [of _ "if length t \<le> length s then s else t"]) (auto simp: max_def)
  qed
qed auto

lemma lcs_unique:
  assumes "\<exists>s. subseq s xs \<and> subseq s ys \<and> length s = k" and "\<And>s. subseq s xs \<Longrightarrow> subseq s ys \<Longrightarrow> length s \<le> k"
  shows "lcs xs ys = k"
  using assms lcs_attained [of xs ys] lcs_upper [of _ xs ys] by (metis le_antisym)

lemma subseq_rev: "subseq xs ys \<Longrightarrow> subseq (rev xs) (rev ys)"
  by (induction rule: list_emb.induct) (auto intro: subseq_rev_drop_many list_emb_append_mono)

lemma subseq_rev_iff: "subseq (rev xs) (rev ys) \<longleftrightarrow> subseq xs ys"
  using subseq_rev [of xs ys] subseq_rev [of "rev xs" "rev ys"] by auto

lemma lcs_rev: "lcs (rev xs) (rev ys) = lcs xs ys"
proof (rule lcs_unique)
  obtain s where "subseq s xs" "subseq s ys" "length s = lcs xs ys" using lcs_attained by blast
  then show "\<exists>s. subseq s (rev xs) \<and> subseq s (rev ys) \<and> length s = lcs xs ys"
    by (intro exI [of _ "rev s"]) (simp add: subseq_rev_iff)
next
  fix s
  assume "subseq s (rev xs)" "subseq s (rev ys)"
  then show "length s \<le> lcs xs ys"
    using lcs_upper [of "rev s" xs ys] subseq_rev_iff [of "rev s"] by simp
qed

lemma lcs_snoc:
  "lcs (xs @ [x]) (ys @ [y]) = (if x = y then lcs xs ys + 1 else max (lcs xs (ys @ [y])) (lcs (xs @ [x]) ys))"
  using lcs_rev [of "xs @ [x]" "ys @ [y]"] lcs_rev [of xs ys] lcs_rev [of xs "ys @ [y]"] lcs_rev [of "xs @ [x]" ys]
  by (cases "x = y") auto

section \<open>The two rows\<close>

text \<open>After some elements of \<open>a\<close> the row of the previous one holds the lengths for every beginning of \<open>b\<close>.\<close>

definition row_ok :: "'a list \<Rightarrow> 'a list \<Rightarrow> nat list \<Rightarrow> bool" where
  "row_ok a b row \<longleftrightarrow> length row = length b + 1 \<and> (\<forall>k \<le> length b. row ! k = lcs a (take k b))"

lemma take_Suc_snoc: "k < length b \<Longrightarrow> take (Suc k) b = take k b @ [b ! k]"
  by (rule take_Suc_conv_app_nth)

lemma lcs_cells:
  assumes prev: "row_ok a b previous" and cur: "length current = length b + 1" "current ! 0 = 0" and n: "n \<le> length b"
  shows "length (foldl (lcs_cell x previous) current (enumerate 0 (take n b))) = length b + 1
    \<and> (\<forall>k \<le> n. foldl (lcs_cell x previous) current (enumerate 0 (take n b)) ! k = lcs (a @ [x]) (take k b))"
  using n
proof (induction n)
  case 0
  then show ?case using cur by simp
next
  case (Suc n)
  let ?row = "foldl (lcs_cell x previous) current (enumerate 0 (take n b))"
  have n: "n < length b" and IH: "length ?row = length b + 1" "\<And>k. k \<le> n \<Longrightarrow> ?row ! k = lcs (a @ [x]) (take k b)"
    using Suc by auto
  have "enumerate 0 (take (Suc n) b) = enumerate 0 (take n b) @ [(n, b ! n)]"
    using n by (simp add: take_Suc_snoc enumerate_append_eq)
  then have row: "foldl (lcs_cell x previous) current (enumerate 0 (take (Suc n) b)) = lcs_cell x previous ?row (n, b ! n)"
    by simp
  have "previous ! n = lcs a (take n b)" "previous ! Suc n = lcs a (take n b @ [b ! n])"
    using prev n by (auto simp: row_ok_def simp flip: take_Suc_snoc)
  then have new: "lcs_cell x previous ?row (n, b ! n) = ?row[Suc n := lcs (a @ [x]) (take (Suc n) b)]"
    using IH(2) [of n] n by (simp add: lcs_cell_def take_Suc_snoc lcs_snoc)
  show ?case
    unfolding row new using IH n by (auto simp: nth_list_update le_Suc_eq)
qed

lemma lcs_rows:
  "row_ok a b (fst (foldl (lcs_row b) (replicate (length b + 1) 0, replicate (length b + 1) 0) a))
   \<and> length (snd (foldl (lcs_row b) (replicate (length b + 1) 0, replicate (length b + 1) 0) a)) = length b + 1
   \<and> snd (foldl (lcs_row b) (replicate (length b + 1) 0, replicate (length b + 1) 0) a) ! 0 = 0"
proof (induction a rule: rev_induct)
  case Nil
  then show ?case by (simp add: row_ok_def del: replicate_Suc)
next
  case (snoc x a)
  obtain previous current where rows: "foldl (lcs_row b) (replicate (length b + 1) 0, replicate (length b + 1) 0) a = (previous, current)"
    by (cases "foldl (lcs_row b) (replicate (length b + 1) 0, replicate (length b + 1) 0) a")
  have ok: "row_ok a b previous" "length current = length b + 1" "current ! 0 = 0" using snoc rows by simp_all
  have "previous ! 0 = 0" using ok(1) by (simp add: row_ok_def)
  moreover have "foldl (lcs_row b) (replicate (length b + 1) 0, replicate (length b + 1) 0) (a @ [x])
      = (foldl (lcs_cell x previous) current (enumerate 0 b), previous)"
    unfolding foldl_append rows by (simp add: lcs_row_def)
  ultimately show ?case
    using lcs_cells [OF ok, of "length b" x] ok(1) by (simp only: row_ok_def fst_conv snd_conv) simp
qed

lemma lcs_len_correct: "lcs_len a b = lcs a b"
  using lcs_rows [of a b] by (simp add: lcs_len_def row_ok_def)

section \<open>The table\<close>

lemma diff_row_correct:
  "below = map (\<lambda>j. lcs a (drop j b)) [0..<length b + 1] \<Longrightarrow>
   diff_row x b below = map (\<lambda>j. lcs (x # a) (drop j b)) [0..<length b + 1]"
proof (induction b arbitrary: below)
  case (Cons y ys)
  have shift: "map (\<lambda>j. f (drop j (y # ys))) [0..<length (y # ys) + 1] = f (y # ys) # map (\<lambda>j. f (drop j ys)) [0..<length ys + 1]"
    for f :: "'a list \<Rightarrow> nat"
    by (simp add: upt_conv_Cons map_Suc_upt [symmetric] comp_def del: upt_Suc)
  note below = Cons.prems [unfolded shift [of "lcs a"]]
  have "diff_row x ys (tl below) = map (\<lambda>j. lcs (x # a) (drop j ys)) [0..<length ys + 1]"
    by (rule Cons.IH) (simp add: below del: upt_Suc)
  moreover have "hd (tl below) = lcs a ys" "hd below = lcs a (y # ys)"
    by (simp_all add: below upt_conv_Cons del: upt_Suc)
  moreover have "hd (map (\<lambda>j. lcs (x # a) (drop j ys)) [0..<length ys + 1]) = lcs (x # a) ys"
    by (simp add: upt_conv_Cons del: upt_Suc)
  ultimately show ?case unfolding shift by (simp add: Let_def del: upt_Suc)
qed simp

lemma diff_table_correct:
  "diff_table a b = map (\<lambda>i. map (\<lambda>j. lcs (drop i a) (drop j b)) [0..<length b + 1]) [0..<length a + 1]"
proof (induction a)
  case Nil
  then show ?case by (simp add: map_replicate_const del: upt_Suc)
next
  case (Cons x a)
  have "hd (diff_table a b) = map (\<lambda>j. lcs a (drop j b)) [0..<length b + 1]"
    by (simp add: Cons upt_conv_Cons del: upt_Suc)
  from diff_row_correct [OF this] show ?case
    by (simp add: Let_def Cons upt_conv_Cons map_Suc_upt [symmetric] comp_def del: upt_Suc)
qed

lemma diff_table_nth: "i \<le> length a \<Longrightarrow> j \<le> length b \<Longrightarrow> diff_table a b ! i ! j = lcs (drop i a) (drop j b)"
  by (simp add: diff_table_correct del: upt_Suc)

fun kept :: "'a diff_op list \<Rightarrow> nat" where
  "kept [] = 0"
| "kept (Equal x # ops) = kept ops + 1"
| "kept (d # ops) = kept ops"

lemma side_append [simp]:
  "old_side (p @ q) = old_side p @ old_side q" "new_side (p @ q) = new_side p @ new_side q" "kept (p @ q) = kept p + kept q"
  by (induction p rule: kept.induct) simp_all

lemma side_map [simp]:
  "old_side (map Equal xs) = xs" "old_side (map Remove xs) = xs" "old_side (map Add xs) = []"
  "new_side (map Equal xs) = xs" "new_side (map Remove xs) = []" "new_side (map Add xs) = xs"
  "kept (map Equal xs) = length xs" "kept (map Remove xs) = 0" "kept (map Add xs) = 0"
  by (induction xs) simp_all

lemma diff_walk_correct:
  assumes "i \<le> length a" and "j \<le> length b"
  shows "old_side (diff_walk a b (diff_table a b) i j) = drop i a
    \<and> new_side (diff_walk a b (diff_table a b) i j) = drop j b
    \<and> kept (diff_walk a b (diff_table a b) i j) = lcs (drop i a) (drop j b)"
  using assms
proof (induction a b "diff_table a b" i j rule: diff_walk.induct)
  case (1 a b i j)
  show ?case
  proof (cases "i < length a \<and> j < length b")
    case True
    then have drops: "drop i a = a ! i # drop (i + 1) a" "drop j b = b ! j # drop (j + 1) b"
      by (simp_all add: Cons_nth_drop_Suc)
    have cells: "diff_table a b ! (i + 1) ! j = lcs (drop (i + 1) a) (drop j b)"
      "diff_table a b ! i ! (j + 1) = lcs (drop i a) (drop (j + 1) b)"
      using True by (simp_all add: diff_table_nth)
    consider "a ! i = b ! j"
      | "a ! i \<noteq> b ! j" "diff_table a b ! (i + 1) ! j \<ge> diff_table a b ! i ! (j + 1)"
      | "a ! i \<noteq> b ! j" "\<not> diff_table a b ! (i + 1) ! j \<ge> diff_table a b ! i ! (j + 1)" by blast
    then show ?thesis
    proof cases
      case 1
      then show ?thesis using "1.hyps"(1) True drops by (subst (1 2 3) diff_walk.simps) simp
    next
      case 2
      then show ?thesis using "1.hyps"(2) True drops cells by (subst (1 2 3) diff_walk.simps) (simp add: max_def)
    next
      case 3
      then show ?thesis using "1.hyps"(3) True drops cells by (subst (1 2 3) diff_walk.simps) (simp add: max_def)
    qed
  next
    case False
    then have "drop i a = [] \<or> drop j b = []" by auto
    then show ?thesis using False by (subst (1 2 3) diff_walk.simps) auto
  qed
qed

lemma diff_ops_sides: "old_side (diff_ops a b) = a" "new_side (diff_ops a b) = b"
  using diff_walk_correct [of 0 a 0 b] by (simp_all add: diff_ops_def)

lemma diff_ops_kept: "length a * length b \<le> MAX_CELLS \<Longrightarrow> kept (diff_ops a b) = lcs a b"
  using diff_walk_correct [of 0 a 0 b] by (auto simp: diff_ops_def)

lemma kept_le_lcs: "kept ops \<le> lcs (old_side ops) (new_side ops)"
proof -
  have "\<exists>s. subseq s (old_side ops) \<and> subseq s (new_side ops) \<and> length s = kept ops"
  proof (induction ops rule: kept.induct)
    case (2 x ops)
    then obtain s where "subseq s (old_side ops)" "subseq s (new_side ops)" "length s = kept ops" by blast
    then show ?case by (intro exI [of _ "x # s"]) simp
  qed auto
  then show ?thesis using lcs_upper by metis
qed

section \<open>The hunk\<close>

lemma common_prefix_take: "take (common_prefix xs ys) xs = take (common_prefix xs ys) ys"
  by (induction xs ys rule: common_prefix.induct) simp_all

lemma common_prefix_le: "common_prefix xs ys \<le> length xs" "common_prefix xs ys \<le> length ys"
  by (induction xs ys rule: common_prefix.induct) simp_all

lemma common_suffix_le: "common_suffix xs ys \<le> length xs" "common_suffix xs ys \<le> length ys"
  using common_prefix_le [of "rev xs" "rev ys"] by (simp_all add: common_suffix_def)

lemma common_suffix_drop:
  "drop (length xs - common_suffix xs ys) xs = drop (length ys - common_suffix xs ys) ys"
  using common_prefix_take [of "rev xs" "rev ys"] by (simp add: common_suffix_def take_rev)

lemma split3: "i \<le> j \<Longrightarrow> xs = take i xs @ drop i (take j xs) @ drop j xs"
proof -
  assume "i \<le> j"
  then have "take j xs = take i xs @ drop i (take j xs)" by (metis append_take_drop_id min.absorb1 take_take)
  then show ?thesis by (metis append.assoc append_take_drop_id)
qed

text \<open>Both sides of the hunk, between what it leaves out before and after.\<close>

lemma hunk_sides:
  fixes a b :: "'a list"
  defines "ops \<equiv> h_lines (hunk a b)" and "start \<equiv> h_start (hunk a b)"
  shows "\<exists>before after. length before = start \<and> a = before @ old_side ops @ after \<and> b = before @ new_side ops @ after"
    and "h_old (hunk a b) = length (old_side ops)" and "h_new (hunk a b) = length (new_side ops)"
proof -
  define pre where "pre = common_prefix a b"
  define suf where "suf = common_suffix (drop pre a) (drop pre b)"
  define a_mid where "a_mid = drop pre (take (length a - suf) a)"
  define b_mid where "b_mid = drop pre (take (length b - suf) b)"
  have p: "pre \<le> length a" "pre \<le> length b" by (simp_all add: pre_def common_prefix_le)
  have same: "take pre a = take pre b" unfolding pre_def by (rule common_prefix_take)
  have s: "suf \<le> length a - pre" "suf \<le> length b - pre"
    using common_suffix_le [of "drop pre a" "drop pre b"] by (simp_all add: suf_def)
  define rest where "rest = drop (length a - suf) a"
  have rest: "rest = drop (length b - suf) b"
    using common_suffix_drop [of "drop pre a" "drop pre b", folded suf_def] p s by (simp add: rest_def)
  have a: "a = take pre a @ a_mid @ rest"
    unfolding a_mid_def rest_def using p s by (intro split3) simp_all
  have b: "b = take pre a @ b_mid @ rest"
    unfolding b_mid_def rest same using p s by (intro split3) simp_all
  have start: "start = pre - 3" and ops: "ops = map Equal (drop start (take pre a)) @ diff_ops a_mid b_mid @ map Equal (take (min suf 3) rest)"
    by (simp_all add: ops_def start_def hunk_def Let_def pre_def suf_def a_mid_def b_mid_def rest_def)
  have split: "take pre a = take start (take pre a) @ drop start (take pre a)" "rest = take (min suf 3) rest @ drop (min suf 3) rest"
    by (rule append_take_drop_id [symmetric])+
  show "\<exists>before after. length before = start \<and> a = before @ old_side ops @ after \<and> b = before @ new_side ops @ after"
  proof (intro exI conjI)
    show "length (take start (take pre a)) = start" using p start by simp
    show "a = take start (take pre a) @ old_side ops @ drop (min suf 3) rest"
      using a split by (simp add: ops diff_ops_sides) (metis append.assoc)
    show "b = take start (take pre a) @ new_side ops @ drop (min suf 3) rest"
      using b split by (simp add: ops diff_ops_sides)
  qed
  have "length rest = suf" using s by (simp add: rest_def)
  then show "h_old (hunk a b) = length (old_side ops)" "h_new (hunk a b) = length (new_side ops)"
    using p by (simp_all add: ops start diff_ops_sides hunk_def Let_def a_mid_def b_mid_def flip: pre_def suf_def)
qed

text \<open>What \<open>patch\<close> does with a hunk: its old side has to be there, and its new side takes the place.\<close>

definition patch_lines :: "'a list \<Rightarrow> 'a diff_hunk \<Rightarrow> 'a list option" where
  "patch_lines a h =
     (if take (h_old h) (drop (h_start h) a) = old_side (h_lines h)
      then Some (take (h_start h) a @ new_side (h_lines h) @ drop (h_start h + h_old h) a) else None)"

lemma patch_append:
  "h_start h = length p \<Longrightarrow> h_old h = length (old_side (h_lines h)) \<Longrightarrow>
   patch_lines (p @ old_side (h_lines h) @ q) h = Some (p @ new_side (h_lines h) @ q)"
  by (simp add: patch_lines_def)



end
