(* ===== verification/Matching.thy ===== *)
theory Matching
  imports Diff
begin

text \<open>
  Where an edit applies (\<^verbatim>\<open>tools/matching.rs\<close>): the exact occurrence of a text, and a cascade of weaker
  comparisons line by line when there is none. Texts are bytes; the slices of the code lie on character
  boundaries (\<open>well_placed\<close>), so they are written with \<open>take\<close> and \<open>drop\<close>. The clock is a parameter:
  \<open>late n\<close> says whether the deadline of the cascade has passed at its n-th test. Scores are compared as
  fractions: with at most 20000 lines and 200 characters two scores that differ do so by far more than the
  precision of a double.
\<close>

section \<open>Data\<close>

datatype strategy =
    Exact | LineTrimmed | WhitespaceNormalized | IndentFlexible | Punctuation | BlockAnchor | LineNumbers

definition strategy_name :: "strategy \<Rightarrow> string" where
  "strategy_name v =
     (case v of
        Exact \<Rightarrow> ''exact''
      | LineTrimmed \<Rightarrow> ''line_trimmed''
      | WhitespaceNormalized \<Rightarrow> ''whitespace_normalized''
      | IndentFlexible \<Rightarrow> ''indent_flexible''
      | Punctuation \<Rightarrow> ''punctuation''
      | BlockAnchor \<Rightarrow> ''block_anchor''
      | LineNumbers \<Rightarrow> ''line_numbers_stripped'')"

record text_match =
  mt_start :: nat
  mt_end :: nat
  mt_replacement :: string
  mt_via :: strategy

text \<open>The score of the closest line is kept as a fraction; the code stores its distance in percent.\<close>

record closest =
  cl_line :: nat
  cl_score :: "nat \<times> nat"
  cl_excerpt :: string

datatype match_error =
    NotFound "closest option"
  | Ambiguous strategy nat "nat list"
  | Disproportionate strategy nat nat
  | MixedGutter

definition BLOCK_ANCHOR_MAX_LINES :: nat where "BLOCK_ANCHOR_MAX_LINES = 20000"
definition BLOCK_ANCHOR_MIN_LINES :: nat where "BLOCK_ANCHOR_MIN_LINES = 3"

abbreviation TAB :: char where "TAB \<equiv> CHR 0x09"

section \<open>Texts\<close>

text \<open>\<open>trim_end_matches\<close> and \<open>trim_start_matches\<close> with a set of ASCII characters.\<close>

definition trim_end_chars :: "char set \<Rightarrow> string \<Rightarrow> string" where
  "trim_end_chars cs s = rev (dropWhile (\<lambda>c. c \<in> cs) (rev s))"

definition trim_start_chars :: "char set \<Rightarrow> string \<Rightarrow> string" where
  "trim_start_chars cs s = dropWhile (\<lambda>c. c \<in> cs) s"

text \<open>\<open>chars()\<close>: each character as its bytes.\<close>

function str_chars :: "string \<Rightarrow> string list" where
  "str_chars s = (if s = [] then [] else (let n = max 1 (utf8_len s) in take n s # str_chars (drop n s)))"
  by pat_completeness auto
termination by (relation "measure length") (auto simp: Let_def)

declare str_chars.simps [simp del]

definition sub_text :: "string \<Rightarrow> nat \<Rightarrow> nat \<Rightarrow> string" where
  "sub_text s a b = drop a (take b s)"

definition line_of :: "string \<Rightarrow> nat \<Rightarrow> nat" where
  "line_of s offset = length (filter (\<lambda>c. c = LF) (take offset s)) + 1"

definition trim_line_end :: "string \<Rightarrow> nat \<Rightarrow> nat \<Rightarrow> nat" where
  "trim_line_end s a b = a + length (trim_end_chars {LF, CR} (sub_text s a b))"

definition leading_whitespace :: "string \<Rightarrow> string" where
  "leading_whitespace line = take (length line - length (trim_start_chars {CHR '' '', TAB} line)) line"

text \<open>The loop over the characters of the trimmed line. A byte that starts no white-space character is copied;
  the other bytes of a character start none.\<close>

function collapse :: "bool \<Rightarrow> string \<Rightarrow> string \<Rightarrow> string" where
  "collapse pending out s =
     (if s = [] then out
      else if white_len s > 0 then collapse True out (drop (white_len s) s)
      else collapse False (out @ (if pending \<and> out \<noteq> [] then '' '' else []) @ [hd s]) (tl s))"
  by pat_completeness auto
termination by (relation "measure (\<lambda>(_, _, s). length s)") auto

declare collapse.simps [simp del]

definition normalize_whitespace :: "string \<Rightarrow> string" where
  "normalize_whitespace line = collapse False [] (trim line)"

definition normalize_inner_whitespace :: "string \<Rightarrow> string" where
  "normalize_inner_whitespace line = leading_whitespace line @ normalize_whitespace line"

text \<open>Typographic quotes, dashes and the ellipsis, in UTF-8.\<close>

fun fold_punctuation :: "string \<Rightarrow> string" where
  "fold_punctuation (a # b # c # s) =
     (if a = CHR 0xE2 \<and> b = CHR 0x80 \<and> c \<in> {CHR 0x98, CHR 0x99, CHR 0x9A, CHR 0xB2} then CHR 0x27 # fold_punctuation s
      else if a = CHR 0xE2 \<and> b = CHR 0x80 \<and> c \<in> {CHR 0x9C, CHR 0x9D, CHR 0x9E, CHR 0xB3} then CHR 0x22 # fold_punctuation s
      else if a = CHR 0xE2 \<and> b = CHR 0x80 \<and> c \<in> {CHR 0x90, CHR 0x91, CHR 0x92, CHR 0x93, CHR 0x94, CHR 0x95}
        \<or> a = CHR 0xE2 \<and> b = CHR 0x88 \<and> c = CHR 0x92 then CHR ''-'' # fold_punctuation s
      else if a = CHR 0xE2 \<and> b = CHR 0x80 \<and> c = CHR 0xA6 then ''...'' @ fold_punctuation s
      else a # fold_punctuation (b # c # s))"
| "fold_punctuation s = s"

text \<open>The replacement follows the indentation of the file.\<close>

definition reindent_line :: "string \<Rightarrow> string \<Rightarrow> string \<Rightarrow> string" where
  "reindent_line old_indent file_indent line =
     (let content = trim_start_chars {CHR '' '', TAB} line;
          own = take (length line - length content) line
      in if trim_end_chars {LF, CR} content = [] then line
         else (case strip_prefix own old_indent of
                 Some extra \<Rightarrow> file_indent @ extra
               | None \<Rightarrow> take (length file_indent - (length old_indent - length own)) file_indent) @ content)"

definition reindent :: "string \<Rightarrow> string list \<Rightarrow> string \<Rightarrow> string" where
  "reindent new old_lines matched =
     (let old_indent = leading_whitespace (hd old_lines);
          file_indent = leading_whitespace matched
      in if old_indent = file_indent then new
         else concat (map (reindent_line old_indent file_indent) (split_inclusive new)))"

section \<open>Exact occurrences\<close>

text \<open>One step of the iterator: the next occurrence and the offset after its first character.\<close>

definition exact_next :: "string \<Rightarrow> string \<Rightarrow> nat \<Rightarrow> (nat \<times> nat) option" where
  "exact_next s old offset =
     (if offset \<le> length s \<and> is_char_boundary s offset then
        (case find_sub (drop offset s) old of
           None \<Rightarrow> None
         | Some i \<Rightarrow>
             (let start = offset + i
              in Some (start, start + (if drop start s = [] then 1 else utf8_len (drop start s)))))
      else None)"

text \<open>The first occurrences of \<open>exact_starts\<close>, as many as are asked for.\<close>

fun exact_take :: "string \<Rightarrow> string \<Rightarrow> nat \<Rightarrow> nat \<Rightarrow> nat list" where
  "exact_take s old 0 offset = []"
| "exact_take s old (Suc n) offset =
     (case exact_next s old offset of
        None \<Rightarrow> []
      | Some (start, offset') \<Rightarrow> start # exact_take s old n offset')"

section \<open>The closest line\<close>

definition better :: "nat \<times> nat \<Rightarrow> nat \<times> nat \<Rightarrow> bool" where
  "better p q \<longleftrightarrow> fst p * snd q > fst q * snd p"

definition closest_step :: "string list \<Rightarrow> (nat \<times> nat \<times> nat) option \<Rightarrow> nat \<times> string \<Rightarrow> (nat \<times> nat \<times> nat) option" where
  "closest_step target best entry =
     (let line = trim (snd entry)
      in if line = [] then best
         else (let cs = take 200 (str_chars line);
                   score = (lcs_len target cs, max (max (length target) (length cs)) 1)
               in case best of
                    None \<Rightarrow> Some (fst entry, score)
                  | Some (_, cur) \<Rightarrow> if better score cur then Some (fst entry, score) else best))"

definition excerpt_of :: "string list \<Rightarrow> nat \<Rightarrow> string" where
  "excerpt_of lines index =
     (let from = index - 1; upto = min (index + 2) (length lines)
      in concat (map (\<lambda>(number, line). ''L'' @ nat_to_string number @ '': '' @ line @ [LF])
           (enumerate (from + 1) (drop from (take upto lines)))))"

definition closest_line :: "string \<Rightarrow> string \<Rightarrow> closest option" where
  "closest_line s old =
     (case find (\<lambda>line. line \<noteq> []) (map trim (str_lines old)) of
        None \<Rightarrow> None
      | Some target \<Rightarrow>
          (case foldl (closest_step (take 200 (str_chars target))) None (take 50000 (enumerate 0 (str_lines s))) of
             None \<Rightarrow> None
           | Some (index, score) \<Rightarrow>
               if fst score > 0
               then Some \<lparr>cl_line = index + 1, cl_score = score, cl_excerpt = excerpt_of (str_lines s) index\<rparr>
               else None))"

section \<open>The cascade\<close>

fun line_spans :: "nat \<Rightarrow> string list \<Rightarrow> (nat \<times> nat) list" where
  "line_spans start [] = []"
| "line_spans start (l # ls) = (start, start + length l) # line_spans (start + length l) ls"

definition line_key :: "strategy \<Rightarrow> string \<Rightarrow> string" where
  "line_key v line =
     (case v of
        LineTrimmed \<Rightarrow> trim_end line
      | WhitespaceNormalized \<Rightarrow> normalize_inner_whitespace line
      | IndentFlexible \<Rightarrow> normalize_whitespace line
      | Punctuation \<Rightarrow> fold_punctuation (normalize_whitespace line)
      | _ \<Rightarrow> line)"

definition STRATEGIES :: "strategy list" where
  "STRATEGIES = [LineTrimmed, WhitespaceNormalized, IndentFlexible, Punctuation]"

definition windows :: "string \<Rightarrow> (nat \<times> nat) list \<Rightarrow> strategy \<Rightarrow> string list \<Rightarrow> nat list" where
  "windows s spans v old_lines =
     (let old_keys = map (line_key v) old_lines; n = length old_lines
      in filter (\<lambda>w. list_all (\<lambda>((a, b), expected). line_key v (sub_text s a b) = expected)
             (zip (take n (drop w spans)) old_keys)) [0..<length spans - n + 1])"

definition window_end :: "string \<Rightarrow> string \<Rightarrow> nat \<Rightarrow> nat \<Rightarrow> nat" where
  "window_end s old a b = (if ends_with old [LF] then b else trim_line_end s a b)"

text \<open>The loop over the strategies; \<open>None\<close> when none of them decides.\<close>

fun cascade :: "(nat \<Rightarrow> bool) \<Rightarrow> string \<Rightarrow> (nat \<times> nat) list \<Rightarrow> string \<Rightarrow> string \<Rightarrow> nat \<Rightarrow> strategy list
  \<Rightarrow> (match_error, text_match) result option" where
  "cascade late s spans old new k [] = None"
| "cascade late s spans old new k (v # vs) =
     (if late k then None
      else (let old_lines = split_inclusive old; n = length old_lines
            in case windows s spans v old_lines of
                 [] \<Rightarrow> cascade late s spans old new (k + 1) vs
               | [only] \<Rightarrow>
                   (let a = fst (spans ! only); b = window_end s old a (snd (spans ! (only + n - 1)))
                    in Some (Ok \<lparr>mt_start = a, mt_end = b,
                         mt_replacement = (if v \<in> {IndentFlexible, Punctuation}
                           then reindent new old_lines (sub_text s a b) else new), mt_via = v\<rparr>))
               | many \<Rightarrow> Some (Err (Ambiguous v (length many) (map (\<lambda>i. i + 1) many)))))"

definition similar_lines :: "string list \<Rightarrow> string list \<Rightarrow> bool" where
  "similar_lines expected actual \<longleftrightarrow>
     (if expected = [] \<and> actual = [] then True
      else if expected = [] \<or> actual = [] then False
      else 10 * lcs_len expected actual \<ge> 7 * max (length expected) (length actual))"

definition similar_size :: "nat \<Rightarrow> nat \<Rightarrow> bool" where
  "similar_size a b \<longleftrightarrow> a = 0 \<and> b = 0 \<or> 4 * (max a b - min a b) \<le> max (max a b) 1"

definition span_text :: "string \<Rightarrow> (nat \<times> nat) list \<Rightarrow> nat \<Rightarrow> string" where
  "span_text s spans i = sub_text s (fst (spans ! i)) (snd (spans ! i))"

definition anchor_step :: "string \<Rightarrow> (nat \<times> nat) list \<Rightarrow> string \<Rightarrow> string list
  \<Rightarrow> (nat \<times> nat) list \<times> nat option \<Rightarrow> nat \<Rightarrow> (nat \<times> nat) list \<times> nat option" where
  "anchor_step s spans old old_lines acc index =
     (let (found, disproportionate) = acc;
          n = length old_lines;
          old_middle = map normalize_whitespace (drop 1 (take (n - 1) old_lines));
          old_bytes = length (trim old)
      in if trim (span_text s spans index) \<noteq> trim (hd old_lines) then acc
         else case find (\<lambda>c. trim (span_text s spans c) = trim (last old_lines))
                     [index + BLOCK_ANCHOR_MIN_LINES - 1..<length spans] of
                None \<Rightarrow> acc
              | Some close \<Rightarrow>
                  (let span_lines = close - index + 1;
                       span_bytes = length (trim (sub_text s (fst (spans ! index)) (snd (spans ! close))))
                   in if span_lines > max (n + 3) (2 * n) \<or> span_bytes > max (old_bytes + 500) (4 * old_bytes)
                      then (found, if disproportionate = None then Some span_lines else disproportionate)
                      else (let middle = map (\<lambda>i. normalize_whitespace (span_text s spans i)) [index + 1..<close]
                            in if similar_lines old_middle middle \<and> similar_size (length old_middle) (length middle)
                               then (found @ [(index, close)], disproportionate) else acc)))"

definition block_anchor :: "string \<Rightarrow> (nat \<times> nat) list \<Rightarrow> string \<Rightarrow> string \<Rightarrow> (match_error, text_match) result option" where
  "block_anchor s spans old new =
     (let old_lines = split_inclusive old
      in case foldl (anchor_step s spans old old_lines) ([], None) [0..<length spans] of
           ([(opn, close)], _) \<Rightarrow>
             (let a = fst (spans ! opn)
              in Some (Ok \<lparr>mt_start = a, mt_end = window_end s old a (snd (spans ! close)),
                   mt_replacement = new, mt_via = BlockAnchor\<rparr>))
         | ([], Some span_lines) \<Rightarrow> Some (Err (Disproportionate BlockAnchor span_lines (length old_lines)))
         | ([], None) \<Rightarrow> None
         | (many, _) \<Rightarrow> Some (Err (Ambiguous BlockAnchor (length many) (map (\<lambda>(opn, _). opn + 1) many))))"

definition find_in :: "(nat \<Rightarrow> bool) \<Rightarrow> string \<Rightarrow> string \<Rightarrow> string \<Rightarrow> bool \<Rightarrow> (match_error, text_match) result" where
  "find_in late s old new fuzzy =
     (case exact_take s old 3 0 of
        [start] \<Rightarrow> Ok \<lparr>mt_start = start, mt_end = start + length old, mt_replacement = new, mt_via = Exact\<rparr>
      | start # second # rest \<Rightarrow>
          (let lines = map (line_of s) (start # second # rest)
           in Err (Ambiguous Exact (length lines) lines))
      | [] \<Rightarrow>
          if \<not> fuzzy \<or> trim old = [] then Err (NotFound (closest_line s old))
          else (let spans = line_spans 0 (split_inclusive s); n = length (split_inclusive old)
                in if n > length spans then Err (NotFound (closest_line s old))
                   else (case cascade late s spans old new 0 STRATEGIES of
                           Some r \<Rightarrow> r
                         | None \<Rightarrow>
                             (case (if n \<ge> BLOCK_ANCHOR_MIN_LINES \<and> length spans \<le> BLOCK_ANCHOR_MAX_LINES \<and> \<not> late 4
                                    then block_anchor s spans old new else None) of
                                Some r \<Rightarrow> r
                              | None \<Rightarrow> Err (NotFound (closest_line s old))))))"

section \<open>Copied line numbers\<close>

datatype gutter = NoGutter | AllGutter string | MixedLines

text \<open>One line of the loop: what is appended, and whether the line is numbered or plain.\<close>

definition gutter_line :: "string \<times> bool \<times> bool \<Rightarrow> string \<Rightarrow> string \<times> bool \<times> bool" where
  "gutter_line acc line =
     (let (out, numbered, plain) = acc; body = trim_end_chars {LF, CR} line
      in if trim body = [] then (out @ line, numbered, plain)
         else (let digits = trim_start_chars {CHR '' ''} body;
                   rest = dropWhile is_ascii_digit digits
               in case strip_prefix rest [TAB] of
                    Some content \<Rightarrow>
                      if length rest < length digits
                      then (out @ content @ drop (length body) line, True, plain)
                      else (out, numbered, True)
                  | None \<Rightarrow> (out, numbered, True)))"

definition gutter_of :: "string \<Rightarrow> gutter" where
  "gutter_of s =
     (case foldl gutter_line ([], False, False) (split_inclusive s) of
        (out, numbered, plain) \<Rightarrow>
          if numbered \<and> \<not> plain then AllGutter out else if numbered then MixedLines else NoGutter)"

definition crlf_replacement :: "string \<Rightarrow> text_match \<Rightarrow> text_match" where
  "crlf_replacement s found =
     (let crlf = (case position (\<lambda>c. c = LF) (drop (mt_start found) s) of
                    Some at \<Rightarrow> ends_with (take (mt_start found + at) s) [CR]
                  | None \<Rightarrow> False)
      in if mt_via found \<noteq> Exact \<and> crlf \<and> CR \<notin> set (mt_replacement found)
         then found\<lparr>mt_replacement := concat (map (\<lambda>c. if c = LF then [CR, LF] else [c]) (mt_replacement found))\<rparr>
         else found)"

definition find_match ::
  "(nat \<Rightarrow> bool) \<Rightarrow> (nat \<Rightarrow> bool) \<Rightarrow> string \<Rightarrow> string \<Rightarrow> string \<Rightarrow> bool \<Rightarrow> (match_error, text_match) result" where
  "find_match late late' s old new fuzzy =
     (case (case find_in late s old new fuzzy of
              Inl (NotFound c) \<Rightarrow>
                if \<not> fuzzy then Err (NotFound c)
                else (case gutter_of old of
                        AllGutter stripped \<Rightarrow>
                          (let (new', mixed) = (case gutter_of new of
                                  AllGutter stripped_new \<Rightarrow> (stripped_new, False)
                                | NoGutter \<Rightarrow> (new, False)
                                | MixedLines \<Rightarrow> (new, True))
                           in case find_in late' s stripped new' fuzzy of
                                Inr found \<Rightarrow> if mixed then Err MixedGutter else Ok (found\<lparr>mt_via := LineNumbers\<rparr>)
                              | Inl (NotFound _) \<Rightarrow> Err (NotFound c)
                              | Inl e \<Rightarrow> Err e)
                      | _ \<Rightarrow> Err (NotFound c))
            | r \<Rightarrow> r) of
        Inl e \<Rightarrow> Err e
      | Inr found \<Rightarrow> Ok (crlf_replacement s found))"

section \<open>Cutting valid texts\<close>

lemma utf8_len_prefix: "utf8_len s \<noteq> 0 \<Longrightarrow> utf8_len (s @ t) = utf8_len s"
  by (cases s; cases "tl s"; cases "tl (tl s)"; cases "tl (tl (tl s))") (simp_all add: utf8_len_def split: if_splits)

lemma utf8_len_take:
  assumes "utf8_len s \<noteq> 0" and "utf8_len s \<le> k"
  shows "utf8_len (take k s) = utf8_len s"
proof -
  have "utf8_len (take (utf8_len s) s) = utf8_len s"
    using assms(1) by (cases s; cases "tl s"; cases "tl (tl s)"; cases "tl (tl (tl s))")
      (simp_all add: utf8_len_def numeral_eq_Suc split: if_splits)
  moreover have "take k s = take (utf8_len s) s @ drop (utf8_len s) (take k s)"
    using assms(2) by (metis append_take_drop_id min.absorb1 take_take)
  ultimately show ?thesis using utf8_len_prefix assms(1) by metis
qed

lemma utf8_valid_step: "utf8_valid s \<longleftrightarrow> s = [] \<or> utf8_len s \<noteq> 0 \<and> utf8_valid (drop (utf8_len s) s)"
  by (subst utf8_valid.simps) auto

lemma utf8_valid_append: "utf8_valid s \<Longrightarrow> utf8_valid t \<Longrightarrow> utf8_valid (s @ t)"
proof (induction s rule: utf8_valid.induct)
  case (1 s)
  show ?case
  proof (cases "s = []")
    case False
    then have n: "utf8_len s \<noteq> 0" and rest: "utf8_valid (drop (utf8_len s) s)"
      using "1.prems"(1) utf8_valid_step by blast+
    have "utf8_valid (drop (utf8_len s) s @ t)" using "1.IH" False n rest "1.prems"(2) by blast
    then show ?thesis
      using n utf8_len_bounds [of s] by (subst utf8_valid_step) (simp add: utf8_len_prefix)
  qed (use "1.prems" in simp)
qed

lemma utf8_valid_cut:
  "utf8_valid s \<Longrightarrow> i \<le> length s \<Longrightarrow> is_char_boundary s i \<Longrightarrow> utf8_valid (take i s) \<and> utf8_valid (drop i s)"
proof (induction s arbitrary: i rule: utf8_valid.induct)
  case (1 s)
  let ?n = "utf8_len s"
  show ?case
  proof (cases "i = 0 \<or> i = length s")
    case False
    then have i: "0 < i" "i < length s" "\<not> cont (s ! i)" using "1.prems" by (auto simp: is_char_boundary_def)
    then have n: "?n \<noteq> 0" "s \<noteq> []" and rest: "utf8_valid (drop ?n s)"
      using "1.prems"(1) utf8_valid_step [of s] by auto
    have ge: "?n \<le> i" using utf8_len_shape(2) [OF n(1), of i] i by force
    have "is_char_boundary (drop ?n s) (i - ?n)" using i ge by (auto simp: is_char_boundary_def)
    then have IH: "utf8_valid (take (i - ?n) (drop ?n s)) \<and> utf8_valid (drop (i - ?n) (drop ?n s))"
      by (intro "1.IH") (use n rest i ge in auto)
    have "utf8_valid (take i s)"
      using IH n(1) ge i(1) by (subst utf8_valid_step) (simp add: utf8_len_take drop_take)
    then show ?thesis using IH ge by simp
  qed (use "1.prems" in auto)
qed

lemma boundary_after_char:
  assumes "utf8_valid s" and "i < length s" and "is_char_boundary s i"
  shows "0 < utf8_len (drop i s)" and "i + utf8_len (drop i s) \<le> length s" and "is_char_boundary s (i + utf8_len (drop i s))"
    and "\<And>k. i < k \<Longrightarrow> k < i + utf8_len (drop i s) \<Longrightarrow> cont (s ! k)"
proof -
  let ?n = "utf8_len (drop i s)"
  have v: "utf8_valid (drop i s)" using utf8_valid_cut assms by simp
  then have n: "?n \<noteq> 0" and rest: "utf8_valid (drop ?n (drop i s))"
    using assms(2) utf8_valid_step [of "drop i s"] by auto
  then show "0 < ?n" by simp
  show le: "i + ?n \<le> length s" using utf8_len_bounds [of "drop i s"] assms(2) by simp
  show "cont (s ! k)" if "i < k" "k < i + ?n" for k
    using utf8_len_shape(2) [OF n, of "k - i"] that le by simp
  have "\<not> cont (s ! (i + ?n))" if "i + ?n < length s"
    using rest that utf8_valid_step [of "drop ?n (drop i s)"] utf8_len_shape(1) [of "drop ?n (drop i s)"]
    by (simp add: add.commute)
  then show "is_char_boundary s (i + ?n)" using le by (auto simp: is_char_boundary_def)
qed

section \<open>Exact occurrences are found, all of them and in order\<close>

definition occurs :: "string \<Rightarrow> string \<Rightarrow> nat \<Rightarrow> bool" where
  "occurs s old i \<longleftrightarrow> i + length old \<le> length s \<and> starts_with (drop i s) old"

lemma utf8_head: "utf8_valid s \<Longrightarrow> s \<noteq> [] \<Longrightarrow> \<not> cont (s ! 0)"
  using utf8_valid_step utf8_len_shape(1) by blast

lemma starts_with_same: "starts_with s p \<Longrightarrow> k < length p \<Longrightarrow> s ! k = p ! k"
  unfolding starts_with_def by (metis nth_take)

lemma occurs_boundary:
  assumes s: "utf8_valid s" and old: "utf8_valid old" "old \<noteq> []" and "occurs s old i"
  shows "is_char_boundary s i" and "is_char_boundary s (i + length old)"
proof -
  have i: "i + length old \<le> length s" and p: "starts_with (drop i s) old" using assms(4) by (simp_all add: occurs_def)
  have "i < length s" using i old(2) by (cases old) auto
  moreover have "\<not> cont (s ! i)"
    using starts_with_same [OF p, of 0] utf8_head [OF old] old(2) i by simp
  ultimately show b: "is_char_boundary s i" by (simp add: is_char_boundary_def)
  obtain r where r: "drop i s = old @ r" using p starts_with_append by blast
  have "utf8_valid (old @ r)" using utf8_valid_cut [OF s _ b] i r by simp
  then have v: "utf8_valid r"
    using old(1)
  proof (induction old rule: utf8_valid.induct)
    case (1 t)
    show ?case
    proof (cases "t = []")
      case False
      then have n: "utf8_len t \<noteq> 0" "utf8_valid (drop (utf8_len t) t)" using "1.prems"(2) utf8_valid_step by blast+
      then have "utf8_valid (drop (utf8_len t) t @ r)"
        using "1.prems"(1) False utf8_len_bounds [of t] utf8_valid_step [of "t @ r"] by (simp add: utf8_len_prefix)
      then show ?thesis using "1.IH" False n by blast
    qed (use "1.prems" in simp)
  qed
  have "\<not> cont (s ! (i + length old))" if "i + length old < length s"
  proof -
    have "length (drop i s) = length old + length r" using r by simp
    then have "r \<noteq> []" using that by auto
    moreover have "s ! (i + length old) = drop i s ! length old" using i by simp
    then have "s ! (i + length old) = r ! 0" by (simp add: r nth_append)
    ultimately show ?thesis using utf8_head [OF v] by simp
  qed
  then show "is_char_boundary s (i + length old)" using i by (auto simp: is_char_boundary_def)
qed

text \<open>The iterator continues after the first character of an occurrence: no other one starts inside it.\<close>

lemma exact_next_None:
  assumes "offset \<le> length s" and "is_char_boundary s offset" and "exact_next s old offset = None" and "offset \<le> i"
  shows "\<not> occurs s old i"
proof -
  have "find_sub (drop offset s) old = None" using assms(1-3) by (simp add: exact_next_def Let_def split: option.splits)
  from find_sub_None [OF this, of "i - offset"] show ?thesis using assms(4) by (simp add: occurs_def)
qed

lemma exact_next_Some:
  assumes s: "utf8_valid s" and old: "utf8_valid old" "old \<noteq> []"
    and nx: "exact_next s old offset = Some (start, offset')"
  shows "occurs s old start" and "offset \<le> start" and "offset' \<le> length s" and "is_char_boundary s offset'" and "start < offset'"
    and "\<And>i. offset \<le> i \<Longrightarrow> i < offset' \<Longrightarrow> occurs s old i \<Longrightarrow> i = start"
proof -
  obtain k where k: "find_sub (drop offset s) old = Some k" "start = offset + k" and o: "offset \<le> length s"
    and o': "offset' = start + (if drop start s = [] then 1 else utf8_len (drop start s))"
    using nx by (auto simp: exact_next_def Let_def split: if_splits option.splits)
  have "k + length old \<le> length (drop offset s) \<and> starts_with (drop k (drop offset s)) old" using k(1) by (rule find_sub_Some)
  then show occ: "occurs s old start" using o k(2) by (auto simp: occurs_def add.commute)
  show "offset \<le> start" by (simp add: k)
  have start: "start < length s" using occ old(2) by (cases old) (auto simp: occurs_def)
  have b: "is_char_boundary s start" using occurs_boundary(1) [OF s old occ] .
  note char = boundary_after_char [OF s start b]
  have o'': "offset' = start + utf8_len (drop start s)" using o' start by simp
  then show "offset' \<le> length s" "is_char_boundary s offset'" "start < offset'" using char by simp_all
  show "i = start" if "offset \<le> i" "i < offset'" "occurs s old i" for i
  proof (rule ccontr)
    assume "i \<noteq> start"
    then consider "i < start" | "start < i" by linarith
    then show False
    proof cases
      case 1
      then have "\<not> starts_with (drop (i - offset) (drop offset s)) old"
        using find_sub_first [OF k(1), of "i - offset"] that(1) k(2) by simp
      then show False using that by (simp add: occurs_def)
    next
      case 2
      then have "cont (s ! i)" using char(4) that(2) o'' by simp
      moreover have "is_char_boundary s i" "i < length s"
        using occurs_boundary(1) [OF s old that(3)] that(3) old(2) by (cases old; auto simp: occurs_def)+
      ultimately show False using 2 by (simp add: is_char_boundary_def)
    qed
  qed
qed

text \<open>Up to three steps of the iterator tell none, one and several occurrences apart.\<close>

lemma exact_take_spec:
  assumes s: "utf8_valid s" and old: "utf8_valid old" "old \<noteq> []"
    and o: "offset \<le> length s" "is_char_boundary s offset"
  shows "exact_take s old (Suc n) offset = [] \<longleftrightarrow> (\<forall>i \<ge> offset. \<not> occurs s old i)"
    and "exact_take s old (Suc (Suc n)) offset = [start] \<longleftrightarrow> offset \<le> start \<and> (\<forall>i \<ge> offset. occurs s old i \<longleftrightarrow> i = start)"
proof -
  have none: "exact_take s old (Suc m) off = [] \<longleftrightarrow> (\<forall>i \<ge> off. \<not> occurs s old i)"
    if "off \<le> length s" "is_char_boundary s off" for off m
  proof (cases "exact_next s old off")
    case None
    then show ?thesis using exact_next_None [OF that None] by simp
  next
    case (Some p)
    then show ?thesis using exact_next_Some(1,2) [OF s old, of off "fst p" "snd p"] by (auto split: prod.splits)
  qed
  then show "exact_take s old (Suc n) offset = [] \<longleftrightarrow> (\<forall>i \<ge> offset. \<not> occurs s old i)" using o .
  show "exact_take s old (Suc (Suc n)) offset = [start] \<longleftrightarrow> offset \<le> start \<and> (\<forall>i \<ge> offset. occurs s old i \<longleftrightarrow> i = start)"
  proof (cases "exact_next s old offset")
    case None
    then show ?thesis using exact_next_None [OF o None] by auto
  next
    case (Some p)
    then obtain first offset' where nx: "exact_next s old offset = Some (first, offset')" by (cases p) simp
    note first = exact_next_Some [OF s old nx]
    have "exact_take s old (Suc (Suc n)) offset = [start] \<longleftrightarrow> first = start \<and> (\<forall>i \<ge> offset'. \<not> occurs s old i)"
      using nx none [OF first(3,4)] by auto
    also have "\<dots> \<longleftrightarrow> offset \<le> start \<and> (\<forall>i \<ge> offset. occurs s old i \<longleftrightarrow> i = start)"
      using first(1,2,5,6) by (metis leI le_less_trans less_le_not_le order_less_imp_le)
    finally show ?thesis .
  qed
qed

section \<open>Lines and their offsets\<close>

lemma line_spans_length [simp]: "length (line_spans k ls) = length ls"
  by (induction ls arbitrary: k) simp_all

lemma line_spans_nth:
  "i < length ls \<Longrightarrow> line_spans k ls ! i = (k + length (concat (take i ls)), k + length (concat (take (Suc i) ls)))"
proof (induction ls arbitrary: k i)
  case (Cons l ls)
  then show ?case by (cases i) simp_all
qed simp

lemma concat_cut: "take (length (concat (take i ls))) (concat ls) = concat (take i ls)"
  "drop (length (concat (take i ls))) (concat ls) = concat (drop i ls)"
  by (metis append_eq_conv_conj append_take_drop_id concat_append)+

lemma sub_text_lines:
  assumes "i \<le> j"
  shows "sub_text s (length (concat (take i (split_inclusive s)))) (length (concat (take j (split_inclusive s))))
    = concat (drop i (take j (split_inclusive s)))"
proof -
  let ?ls = "split_inclusive s"
  have "sub_text s (length (concat (take i ?ls))) (length (concat (take j ?ls)))
      = drop (length (concat (take i ?ls))) (concat (take j ?ls))"
    using concat_cut(1) [of j ?ls] by (simp add: sub_text_def)
  also have "\<dots> = concat (drop i (take j ?ls))"
    using concat_cut(2) [of i "take j ?ls"] assms by (simp add: min_def)
  finally show ?thesis .
qed

lemma split_inclusive_ends: "Suc i < length (split_inclusive s) \<Longrightarrow> last (split_inclusive s ! i) = LF \<and> split_inclusive s ! i \<noteq> []"
proof (induction s arbitrary: i)
  case (Cons c s)
  show ?case
    using Cons.IH [of i] Cons.IH [of "i - 1"] Cons.prems by (cases i) (auto split: list.splits if_splits)
qed simp

lemma line_start_boundary:
  assumes "utf8_valid s"
  shows "is_char_boundary s (length (concat (take i (split_inclusive s))))"
proof (cases "i = 0 \<or> length (split_inclusive s) \<le> i")
  case True
  then show ?thesis by (auto simp: is_char_boundary_def)
next
  case False
  let ?ls = "split_inclusive s"
  define k where "k = length (concat (take i ?ls))"
  have l: "last (?ls ! (i - 1)) = LF" "?ls ! (i - 1) \<noteq> []" using False split_inclusive_ends [of "i - 1" s] by auto
  have "take (Suc (i - 1)) ?ls = take (i - 1) ?ls @ [?ls ! (i - 1)]" using False by (intro take_Suc_conv_app_nth) auto
  then have "take i ?ls = take (i - 1) ?ls @ [?ls ! (i - 1)]" using False by simp
  then have c: "concat (take i ?ls) = concat (take (i - 1) ?ls) @ ?ls ! (i - 1)" by simp
  then have ne: "concat (take i ?ls) \<noteq> []" and lf: "last (concat (take i ?ls)) = LF" using l by simp_all
  have pre: "take k s = concat (take i ?ls)" using concat_cut(1) [of i ?ls] by (simp add: k_def)
  have "length (take k s) = k" using arg_cong [OF pre, of length] by (simp add: k_def [symmetric])
  then have k: "k \<le> length s" by simp
  have k0: "0 < k" unfolding k_def using ne by (rule length_greater_0_conv [THEN iffD2])
  have "last (take k s) = s ! (k - 1)" using k k0 by (subst last_conv_nth) auto
  then have "s ! (k - 1) = LF" using lf pre by simp
  then have "is_char_boundary s k" using boundary_after_ascii [OF assms k k0] by (simp add: is_ascii_def)
  then show ?thesis by (simp add: k_def)
qed

lemma trim_end_chars_split: "\<exists>r. s = trim_end_chars cs s @ r \<and> set r \<subseteq> cs"
proof -
  have "rev s = takeWhile (\<lambda>c. c \<in> cs) (rev s) @ dropWhile (\<lambda>c. c \<in> cs) (rev s)" by simp
  then have "s = trim_end_chars cs s @ rev (takeWhile (\<lambda>c. c \<in> cs) (rev s))"
    unfolding trim_end_chars_def by (metis rev_append rev_rev_ident)
  then show ?thesis by (metis set_rev set_takeWhileD subsetI)
qed

lemma trim_line_end_boundary:
  assumes "a \<le> b" and "b \<le> length s" and "is_char_boundary s b"
  shows "is_char_boundary s (trim_line_end s a b)" and "a \<le> trim_line_end s a b" and "trim_line_end s a b \<le> b"
    and "sub_text s a (trim_line_end s a b) = trim_end_chars {LF, CR} (sub_text s a b)"
proof -
  obtain r where r: "sub_text s a b = trim_end_chars {LF, CR} (sub_text s a b) @ r" "set r \<subseteq> {LF, CR}"
    using trim_end_chars_split by blast
  define k where "k = length (trim_end_chars {LF, CR} (sub_text s a b))"
  have len: "length (sub_text s a b) = b - a" using assms by (simp add: sub_text_def)
  then have k: "k + length r = b - a" using arg_cong [OF r(1), of length] by (simp add: k_def)
  have e: "trim_line_end s a b = a + k" by (simp add: trim_line_end_def k_def)
  show "a \<le> trim_line_end s a b" "trim_line_end s a b \<le> b" using e k assms(1) by simp_all
  have "take k (sub_text s a b) = trim_end_chars {LF, CR} (sub_text s a b)" using r(1) by (metis append_eq_conv_conj k_def)
  then show "sub_text s a (trim_line_end s a b) = trim_end_chars {LF, CR} (sub_text s a b)"
    unfolding e sub_text_def using k assms(1) by (simp add: drop_take)
  show "is_char_boundary s (trim_line_end s a b)"
  proof (cases "r = []")
    case True
    then show ?thesis using e k assms by simp
  next
    case False
    then have lt: "a + k < b" using k by (cases r) auto
    have "s ! (a + k) = sub_text s a b ! k" using lt assms(2) by (simp add: sub_text_def)
    also have "\<dots> = r ! 0" using r(1) False by (metis k_def nth_append_length_plus add.right_neutral)
    finally have "s ! (a + k) \<in> {LF, CR}" using r(2) False by (metis length_greater_0_conv nth_mem subsetD)
    then show ?thesis using boundary_at_ascii [of "a + k" s] lt assms(2) e by (auto simp: is_ascii_def)
  qed
qed

section \<open>A strategy decides only when one window matches\<close>

text \<open>The lines from line \<open>w\<close> on agree with those of \<open>old\<close> under the key of a strategy.\<close>

definition window_matches :: "strategy \<Rightarrow> string \<Rightarrow> string \<Rightarrow> nat \<Rightarrow> bool" where
  "window_matches v s old w \<longleftrightarrow>
     w + length (split_inclusive old) \<le> length (split_inclusive s)
     \<and> map (line_key v) (take (length (split_inclusive old)) (drop w (split_inclusive s))) = map (line_key v) (split_inclusive old)"

abbreviation spans_of :: "string \<Rightarrow> (nat \<times> nat) list" where
  "spans_of s \<equiv> line_spans 0 (split_inclusive s)"

lemma span_text_line: "i < length (split_inclusive s) \<Longrightarrow> span_text s (spans_of s) i = split_inclusive s ! i"
  unfolding span_text_def using sub_text_lines [of i "Suc i" s]
  by (simp add: line_spans_nth take_Suc_conv_app_nth)

lemma windows_set:
  assumes "length (split_inclusive old) \<le> length (split_inclusive s)"
  shows "w \<in> set (windows s (spans_of s) v (split_inclusive old)) \<longleftrightarrow> window_matches v s old w"
proof -
  let ?n = "length (split_inclusive old)" and ?ls = "split_inclusive s"
  have "list_all (\<lambda>((a, b), expected). line_key v (sub_text s a b) = expected)
        (zip (take ?n (drop w (spans_of s))) (map (line_key v) (split_inclusive old)))
      \<longleftrightarrow> map (line_key v) (take ?n (drop w ?ls)) = map (line_key v) (split_inclusive old)"
    if w: "w + ?n \<le> length ?ls"
  proof -
    have "line_key v (sub_text s (fst (spans_of s ! (w + i))) (snd (spans_of s ! (w + i)))) = line_key v (?ls ! (w + i))"
      if "i < ?n" for i
      using span_text_line [of "w + i" s] that w by (simp add: span_text_def)
    then show ?thesis
      using w by (auto simp: list_all_length list_eq_iff_nth_eq case_prod_beta)
  qed
  moreover have "w \<in> set [0..<length (spans_of s) - ?n + 1] \<longleftrightarrow> w + ?n \<le> length ?ls" using assms by (auto simp del: upt_Suc)
  ultimately show ?thesis by (auto simp: windows_def window_matches_def Let_def simp del: upt_Suc)
qed

lemma windows_one:
  assumes "length (split_inclusive old) \<le> length (split_inclusive s)"
    and "windows s (spans_of s) v (split_inclusive old) = [only]"
  shows "window_matches v s old i \<longleftrightarrow> i = only"
  using windows_set [OF assms(1), of i v] assms(2) by auto

text \<open>A match lies on lines \<open>w\<close> to \<open>w + n - 1\<close>, without the last line break when \<open>old\<close> has none.\<close>

definition covers_lines :: "string \<Rightarrow> string \<Rightarrow> nat \<Rightarrow> nat \<Rightarrow> text_match \<Rightarrow> bool" where
  "covers_lines s old w n m \<longleftrightarrow>
     w + n \<le> length (split_inclusive s) \<and> mt_start m = length (concat (take w (split_inclusive s)))
     \<and> sub_text s (mt_start m) (mt_end m) =
         (if ends_with old [LF] then concat (take n (drop w (split_inclusive s)))
          else trim_end_chars {LF, CR} (concat (take n (drop w (split_inclusive s)))))"

definition well_placed :: "string \<Rightarrow> text_match \<Rightarrow> bool" where
  "well_placed s m \<longleftrightarrow> mt_start m \<le> mt_end m \<and> mt_end m \<le> length s
     \<and> is_char_boundary s (mt_start m) \<and> is_char_boundary s (mt_end m)"

lemma concat_take_le: "length (concat (take i (split_inclusive s))) \<le> length s"
  using arg_cong [OF concat_cut(1) [of i "split_inclusive s"], of length] by simp

lemma concat_take_mono: "i \<le> j \<Longrightarrow> length (concat (take i ls)) \<le> length (concat (take j ls))"
  using concat_cut(1) [of i "take j ls"] by (metis length_take min.absorb1 min.cobounded2 nle_le take_take)

lemma window_placed:
  assumes s: "utf8_valid s" and w: "w + n \<le> length (split_inclusive s)" "0 < n"
    and m: "mt_start m = fst (spans_of s ! w)" "mt_end m = window_end s old (mt_start m) (snd (spans_of s ! (w + n - 1)))"
  shows "well_placed s m" and "covers_lines s old w n m"
proof -
  let ?ls = "split_inclusive s"
  define a where "a = length (concat (take w ?ls))"
  define b where "b = length (concat (take (w + n) ?ls))"
  have "w < length ?ls" "w + n - 1 < length ?ls" "Suc (w + n - 1) = w + n" using w by auto
  then have start: "mt_start m = a" and e: "mt_end m = window_end s old a b"
    using m by (simp_all add: line_spans_nth a_def b_def)
  have ab: "a \<le> b" "b \<le> length s" "is_char_boundary s a" "is_char_boundary s b"
    using concat_take_mono [of w "w + n" ?ls] concat_take_le [of "w + n" s] line_start_boundary [OF s]
    by (simp_all add: a_def b_def)
  have t: "sub_text s a b = concat (take n (drop w ?ls))"
    using sub_text_lines [of w "w + n" s] by (simp add: a_def b_def take_drop add.commute)
  show "well_placed s m"
    using ab trim_line_end_boundary [OF ab(1,2,4)] by (simp add: well_placed_def start e window_end_def)
  show "covers_lines s old w n m"
    using w(1) t trim_line_end_boundary(4) [OF ab(1,2,4)] by (simp add: covers_lines_def start e window_end_def flip: a_def)
qed

lemma cascade_sound:
  assumes s: "utf8_valid s" and old: "old \<noteq> []" "length (split_inclusive old) \<le> length (split_inclusive s)"
    and "cascade late s (spans_of s) old new k vs = Some (Ok m)"
  shows "well_placed s m \<and> mt_via m \<in> set vs
    \<and> (\<exists>w. (\<forall>i. window_matches (mt_via m) s old i \<longleftrightarrow> i = w) \<and> covers_lines s old w (length (split_inclusive old)) m)"
  using assms(4)
proof (induction vs arbitrary: k)
  case (Cons v vs)
  let ?ws = "windows s (spans_of s) v (split_inclusive old)" and ?n = "length (split_inclusive old)"
  consider "?ws = []" | only where "?ws = [only]" | x y zs where "?ws = x # y # zs" by (metis list.exhaust)
  then show ?case
  proof cases
    case 1
    then show ?thesis using Cons by (simp add: Let_def split: if_splits)
  next
    case (2 only)
    then have m: "mt_start m = fst (spans_of s ! only)" "mt_end m = window_end s old (mt_start m) (snd (spans_of s ! (only + ?n - 1)))"
      and v: "mt_via m = v"
      using Cons.prems by (auto simp: Let_def split: if_splits)
    have one: "window_matches v s old i \<longleftrightarrow> i = only" for i using windows_one [OF old(2) 2] .
    then have "only + ?n \<le> length (split_inclusive s)" by (metis window_matches_def)
    moreover have "0 < ?n" using old(1) by simp
    ultimately show ?thesis using window_placed [OF s _ _ m] one v by auto
  next
    case (3 x y zs)
    then show ?thesis using Cons.prems by (simp add: Let_def split: if_splits)
  qed
qed simp

section \<open>Anchors\<close>

definition anchored :: "string \<Rightarrow> string \<Rightarrow> nat \<Rightarrow> nat \<Rightarrow> bool" where
  "anchored s old opn close \<longleftrightarrow>
     opn + 2 \<le> close \<and> close < length (split_inclusive s)
     \<and> trim (split_inclusive s ! opn) = trim (hd (split_inclusive old))
     \<and> trim (split_inclusive s ! close) = trim (last (split_inclusive old))
     \<and> close - opn + 1 \<le> max (length (split_inclusive old) + 3) (2 * length (split_inclusive old))"

lemma found_in: "find P xs = Some x \<Longrightarrow> x \<in> set xs \<and> P x"
  by (induction xs) (auto split: if_splits)

lemma anchor_step_found:
  assumes "index < length (split_inclusive s)" and "p \<in> set (fst (anchor_step s (spans_of s) old (split_inclusive old) acc index))"
  shows "p \<in> set (fst acc) \<or> anchored s old (fst p) (snd p)"
proof -
  let ?f = "find (\<lambda>c. trim (span_text s (spans_of s) c) = trim (last (split_inclusive old)))
    [index + BLOCK_ANCHOR_MIN_LINES - 1..<length (spans_of s)]"
  obtain found d where acc: "acc = (found, d)" by (cases acc)
  show ?thesis
  proof (cases "p \<in> set found")
    case False
    then obtain close where f: "?f = Some close" and t: "trim (span_text s (spans_of s) index) = trim (hd (split_inclusive old))"
      and p: "p = (index, close)"
      and l: "close - index + 1 \<le> max (length (split_inclusive old) + 3) (2 * length (split_inclusive old))"
      using assms(2) unfolding acc anchor_step_def Let_def
      by (auto split: if_splits option.splits)
    from f have c: "close \<in> set [index + BLOCK_ANCHOR_MIN_LINES - 1..<length (spans_of s)]"
      "trim (span_text s (spans_of s) close) = trim (last (split_inclusive old))"
      using found_in by fastforce+
    then show ?thesis
      using t l assms(1) by (simp add: anchored_def p BLOCK_ANCHOR_MIN_LINES_def span_text_line)
  qed (simp add: acc)
qed

lemma anchors_found:
  "set is \<subseteq> {..<length (split_inclusive s)} \<Longrightarrow>
   p \<in> set (fst (foldl (anchor_step s (spans_of s) old (split_inclusive old)) acc is)) \<Longrightarrow>
   p \<in> set (fst acc) \<or> anchored s old (fst p) (snd p)"
proof (induction "is" arbitrary: acc)
  case (Cons i ks)
  let ?acc = "anchor_step s (spans_of s) old (split_inclusive old) acc i"
  have "p \<in> set (fst ?acc) \<or> anchored s old (fst p) (snd p)" using Cons.IH [of ?acc] Cons.prems by simp
  then show ?case using anchor_step_found [of i s p old acc] Cons.prems by auto
qed simp

lemma block_anchor_sound:
  assumes s: "utf8_valid s" and b: "block_anchor s (spans_of s) old new = Some (Ok m)"
  shows "well_placed s m \<and> mt_via m = BlockAnchor \<and> mt_replacement m = new
    \<and> (\<exists>opn close. anchored s old opn close \<and> covers_lines s old opn (close - opn + 1) m)"
proof -
  obtain opn close d where f: "foldl (anchor_step s (spans_of s) old (split_inclusive old)) ([], None) [0..<length (spans_of s)]
      = ([(opn, close)], d)"
    and m: "m = \<lparr>mt_start = fst (spans_of s ! opn), mt_end = window_end s old (fst (spans_of s ! opn)) (snd (spans_of s ! close)),
      mt_replacement = new, mt_via = BlockAnchor\<rparr>"
    using b by (auto simp: block_anchor_def Let_def split: prod.splits list.splits option.splits)
  have a: "anchored s old opn close"
    using anchors_found [of "[0..<length (spans_of s)]" s "(opn, close)" old "([], None)"] f by (auto simp: atLeast0LessThan)
  then have w: "opn + (close - opn + 1) \<le> length (split_inclusive s)" "opn + (close - opn + 1) - 1 = close"
    by (auto simp: anchored_def)
  have "well_placed s m" "covers_lines s old opn (close - opn + 1) m"
    using window_placed [OF s w(1), of m old] m w(2) by simp_all
  then show ?thesis using a m by auto
qed

section \<open>The search as a whole\<close>

text \<open>What a match under a strategy promises about where it lies.\<close>

definition placed_by :: "string \<Rightarrow> string \<Rightarrow> text_match \<Rightarrow> bool" where
  "placed_by s old m \<longleftrightarrow>
     (case mt_via m of
        Exact \<Rightarrow> mt_end m = mt_start m + length old \<and> (\<forall>i. occurs s old i \<longleftrightarrow> i = mt_start m)
      | BlockAnchor \<Rightarrow> \<exists>opn close. anchored s old opn close \<and> covers_lines s old opn (close - opn + 1) m
      | v \<Rightarrow> \<exists>w. (\<forall>i. window_matches v s old i \<longleftrightarrow> i = w) \<and> covers_lines s old w (length (split_inclusive old)) m)"

lemma find_in_exact:
  assumes "utf8_valid s" and "utf8_valid old" "old \<noteq> []"
  shows "exact_take s old 3 0 = [] \<longleftrightarrow> (\<forall>i. \<not> occurs s old i)"
    and "exact_take s old 3 0 = [start] \<longleftrightarrow> (\<forall>i. occurs s old i \<longleftrightarrow> i = start)"
  using exact_take_spec [OF assms, of 0 2] exact_take_spec [OF assms, of 0 1]
  by (simp_all add: is_char_boundary_def numeral_eq_Suc)

lemma find_in_sound:
  assumes s: "utf8_valid s" and old: "utf8_valid old" "old \<noteq> []" and f: "find_in late s old new fuzzy = Ok m"
  shows "well_placed s m \<and> placed_by s old m \<and> mt_via m \<noteq> LineNumbers
    \<and> (if mt_via m = Exact then mt_replacement m = new else fuzzy \<and> (\<forall>i. \<not> occurs s old i))"
proof -
  consider "exact_take s old 3 0 = []" | start where "exact_take s old 3 0 = [start]"
    | x y zs where "exact_take s old 3 0 = x # y # zs" by (metis list.exhaust)
  then show ?thesis
  proof cases
    case (2 start)
    then have m: "m = \<lparr>mt_start = start, mt_end = start + length old, mt_replacement = new, mt_via = Exact\<rparr>"
      using f by (simp add: find_in_def)
    have one: "occurs s old i \<longleftrightarrow> i = start" for i using find_in_exact(2) [OF s old, of start] 2 by blast
    then have "occurs s old start" by simp
    then have "well_placed s m"
      using occurs_boundary [OF s old] by (simp add: well_placed_def m occurs_def)
    then show ?thesis using one by (simp add: m placed_by_def)
  next
    case 1
    then have none: "\<forall>i. \<not> occurs s old i" using find_in_exact(1) [OF s old] by blast
    have fuzzy: "fuzzy" and n: "length (split_inclusive old) \<le> length (split_inclusive s)"
      using f 1 by (auto simp: find_in_def Let_def split: if_splits)
    have "cascade late s (spans_of s) old new 0 STRATEGIES = Some (Ok m) \<or> block_anchor s (spans_of s) old new = Some (Ok m)"
      using f 1 by (auto simp: find_in_def Let_def split: if_splits option.splits)
    then show ?thesis
    proof
      assume "cascade late s (spans_of s) old new 0 STRATEGIES = Some (Ok m)"
      from cascade_sound [OF s old(2) n this] show ?thesis
        using none fuzzy by (auto simp: placed_by_def STRATEGIES_def)
    next
      assume "block_anchor s (spans_of s) old new = Some (Ok m)"
      from block_anchor_sound [OF s this] show ?thesis using none fuzzy by (auto simp: placed_by_def)
    qed
  qed (use f in \<open>simp add: find_in_def Let_def\<close>)
qed

section \<open>Stripped line numbers\<close>

lemma boundary_take: "is_char_boundary s i \<Longrightarrow> i \<le> k \<Longrightarrow> is_char_boundary (take k s) i"
  by (auto simp: is_char_boundary_def)

lemma split_inclusive_valid:
  assumes "utf8_valid s" and "l \<in> set (split_inclusive s)"
  shows "utf8_valid l"
proof -
  let ?ls = "split_inclusive s"
  obtain i where i: "i < length ?ls" "l = ?ls ! i" using assms(2) by (metis in_set_conv_nth)
  define a where "a = length (concat (take i ?ls))"
  define b where "b = length (concat (take (Suc i) ?ls))"
  have ab: "a \<le> b" "b \<le> length s" "is_char_boundary s a" "is_char_boundary s b"
    using concat_take_mono [of i "Suc i" ?ls] concat_take_le line_start_boundary [OF assms(1)] by (simp_all add: a_def b_def)
  have "utf8_valid (take b s)" using utf8_valid_cut [OF assms(1) ab(2,4)] by simp
  then have "utf8_valid (drop a (take b s))"
    using utf8_valid_cut [of "take b s" a] boundary_take [OF ab(3,1)] ab(1,2) by simp
  then show ?thesis
    using span_text_line [OF i(1)] i by (simp add: span_text_def sub_text_def line_spans_nth a_def b_def)
qed

lemma drop_ascii_prefix: "utf8_valid (p @ c # t) \<Longrightarrow> is_ascii c \<Longrightarrow> utf8_valid t"
  using utf8_valid_cut [of "p @ c # t" "length p + 1"] boundary_after_ascii [of "p @ c # t" "length p + 1"]
  by (simp add: nth_append)

lemma gutter_line_valid:
  assumes "utf8_valid (fst acc)" and "utf8_valid line"
  shows "utf8_valid (fst (gutter_line acc line))"
proof -
  obtain out numbered plain where acc: "acc = (out, numbered, plain)" by (cases acc)
  define body where "body = trim_end_chars {LF, CR} line"
  define digits where "digits = trim_start_chars {CHR '' ''} body"
  define rest where "rest = dropWhile is_ascii_digit digits"
  show ?thesis
  proof (cases "trim body = []")
    case True
    then show ?thesis using assms by (simp add: gutter_line_def acc body_def [symmetric] utf8_valid_append)
  next
    case False
    show ?thesis
    proof (cases "strip_prefix rest [TAB]")
      case None
      then show ?thesis
        using False assms(1) by (simp add: gutter_line_def acc Let_def flip: body_def digits_def rest_def)
    next
      case (Some content)
      then have rest: "rest = [TAB] @ content" by (simp add: strip_prefix_Some_iff)
      have "body = takeWhile (\<lambda>c. c \<in> {CHR '' ''}) body @ takeWhile is_ascii_digit digits @ rest"
        by (simp add: rest_def digits_def trim_start_chars_def)
      moreover have "line = body @ drop (length body) line"
        using trim_end_chars_split [of line "{LF, CR}"] unfolding body_def by (metis append_eq_conv_conj)
      ultimately obtain pre where "line = pre @ TAB # (content @ drop (length body) line)"
        unfolding rest by (metis append.assoc append_Cons append_Nil)
      then have "utf8_valid (content @ drop (length body) line)"
        using assms(2) drop_ascii_prefix [of pre TAB] by (simp add: is_ascii_def)
      then show ?thesis
        using False Some assms(1)
        by (simp add: gutter_line_def acc Let_def utf8_valid_append flip: body_def digits_def rest_def)
    qed
  qed
qed

lemma gutter_valid:
  assumes "utf8_valid s" and "gutter_of s = AllGutter t"
  shows "utf8_valid t"
proof -
  have "utf8_valid (fst (foldl gutter_line acc ls))" if "utf8_valid (fst acc)" "\<forall>l \<in> set ls. utf8_valid l" for acc ls
    using that by (induction ls arbitrary: acc) (simp_all add: gutter_line_valid)
  from this [of "([], False, False)" "split_inclusive s"] show ?thesis
    using assms split_inclusive_valid by (auto simp: gutter_of_def split: prod.splits if_splits)
qed

lemma find_in_empty: "find_in late s [] new fuzzy = Ok m \<Longrightarrow> well_placed s m"
proof -
  assume f: "find_in late s [] new fuzzy = Ok m"
  have "exact_take s [] 3 0 = 0 # exact_take s [] 2 (if s = [] then 1 else utf8_len s)"
    by (cases s) (simp_all add: exact_next_def is_char_boundary_def numeral_eq_Suc)
  then show ?thesis
    using f by (auto simp: find_in_def well_placed_def is_char_boundary_def Let_def split: list.splits)
qed

lemma crlf_same [simp]:
  "mt_start (crlf_replacement s m) = mt_start m" "mt_end (crlf_replacement s m) = mt_end m"
  "mt_via (crlf_replacement s m) = mt_via m" "mt_via m = Exact \<Longrightarrow> crlf_replacement s m = m"
  by (simp_all add: crlf_replacement_def Let_def)

lemma placed_by_cong:
  "mt_start m' = mt_start m \<Longrightarrow> mt_end m' = mt_end m \<Longrightarrow> mt_via m' = mt_via m \<Longrightarrow> placed_by s old m' = placed_by s old m"
  "mt_start m' = mt_start m \<Longrightarrow> mt_end m' = mt_end m \<Longrightarrow> well_placed s m' = well_placed s m"
  by (cases "mt_via m"; simp add: placed_by_def covers_lines_def) (simp add: well_placed_def)

lemma find_match_Ok:
  assumes "find_match late late' s old new fuzzy = Ok m"
  obtains m0 where "find_in late s old new fuzzy = Ok m0" "m = crlf_replacement s m0"
  | m0 t new' where "gutter_of old = AllGutter t" "find_in late' s t new' fuzzy = Ok m0"
      "m = crlf_replacement s (m0\<lparr>mt_via := LineNumbers\<rparr>)" "new' = new \<or> gutter_of new = AllGutter new'"
  using assms by (auto simp: find_match_def split: match_error.splits gutter.splits sum.splits prod.splits if_splits)

lemma find_match_placed:
  assumes s: "utf8_valid s" and old: "utf8_valid old" "old \<noteq> []" and f: "find_match late late' s old new fuzzy = Ok m"
  shows "well_placed s m"
  using f
proof (cases rule: find_match_Ok)
  case (1 m0)
  then show ?thesis
    using find_in_sound [OF s old 1(1)] placed_by_cong(2) [of "crlf_replacement s m0" m0 s] by simp
next
  case (2 m0 t new')
  have "well_placed s m0"
    using find_in_sound [OF s gutter_valid [OF old(1) 2(1)] _ 2(2)] find_in_empty [of late' s new' fuzzy m0] 2(2) by blast
  then show ?thesis using placed_by_cong(2) [of m m0 s] 2(3) by simp
qed

lemma find_match_exact:
  assumes s: "utf8_valid s" and old: "utf8_valid old" "old \<noteq> []" and f: "find_match late late' s old new fuzzy = Ok m"
    and "mt_via m = Exact"
  shows "mt_replacement m = new"
  using f
proof (cases rule: find_match_Ok)
  case (1 m0)
  then show ?thesis using find_in_sound [OF s old 1(1)] assms(5) by simp
qed (use assms(5) in simp)

section \<open>Replacements are valid texts\<close>

lemma ascii_valid: "list_all is_ascii s \<Longrightarrow> utf8_valid s"
proof (induction s)
  case (Cons c s)
  then show ?case using utf8_valid_step [of "c # s"] by (simp add: utf8_len_def)
qed simp

lemma concat_valid: "\<forall>s \<in> set ss. utf8_valid s \<Longrightarrow> utf8_valid (concat ss)"
  by (induction ss) (simp_all add: utf8_valid_append)

lemma ascii_prefix_valid:
  assumes "utf8_valid (p @ t)" and "list_all is_ascii p"
  shows "utf8_valid t"
  using drop_ascii_prefix [of "butlast p" "last p" t] assms
  by (cases p rule: rev_cases) simp_all

lemma indent_ascii:
  "list_all is_ascii (leading_whitespace s)" "s = leading_whitespace s @ trim_start_chars {CHR '' '', TAB} s"
proof -
  have "leading_whitespace s = takeWhile (\<lambda>c. c \<in> {CHR '' '', TAB}) s"
    unfolding leading_whitespace_def trim_start_chars_def
    by (metis add_diff_cancel_right' append_eq_conv_conj length_append takeWhile_dropWhile_id)
  then show "list_all is_ascii (leading_whitespace s)" "s = leading_whitespace s @ trim_start_chars {CHR '' '', TAB} s"
    by (auto simp: list_all_iff is_ascii_def trim_start_chars_def dest!: set_takeWhileD)
qed

lemma reindent_line_valid:
  assumes "utf8_valid line" and "list_all is_ascii file_indent"
  shows "utf8_valid (reindent_line old_indent file_indent line)"
proof -
  define content where "content = trim_start_chars {CHR '' '', TAB} line"
  have own: "take (length line - length content) line = leading_whitespace line"
    by (simp add: leading_whitespace_def content_def)
  have c: "utf8_valid content"
    using ascii_prefix_valid [of "leading_whitespace line" content] indent_ascii [of line] assms(1) by (simp add: content_def)
  have "list_all is_ascii (take k file_indent)" for k using assms(2) by (metis append_take_drop_id list_all_append)
  moreover have "list_all is_ascii extra" if "strip_prefix (leading_whitespace line) old_indent = Some extra" for extra
    using that indent_ascii(1) [of line] by (simp add: strip_prefix_Some_iff)
  ultimately show ?thesis
    using assms c by (simp add: reindent_line_def own Let_def utf8_valid_append ascii_valid split: option.splits flip: content_def)
qed

lemma reindent_valid: "utf8_valid new \<Longrightarrow> utf8_valid (reindent new old_lines matched)"
  unfolding reindent_def Let_def
  using split_inclusive_valid by (auto intro!: concat_valid reindent_line_valid indent_ascii(1))

lemma crlf_line: "LF \<notin> set l \<Longrightarrow> concat (map (\<lambda>c. if c = LF then [CR, LF] else [c]) l) = l"
  by (induction l) auto

lemma crlf_valid: "utf8_valid s \<Longrightarrow> utf8_valid (concat (map (\<lambda>c. if c = LF then [CR, LF] else [c]) s))"
proof (induction "length s" arbitrary: s rule: less_induct)
  case less
  show ?case
  proof (cases "LF \<in> set s")
    case True
    then obtain p t where s: "s = p @ LF # t" "LF \<notin> set p" using split_list_first by metis
    have p: "utf8_valid p" using utf8_valid_cut [OF less.prems, of "length p"] boundary_at_ascii [of "length p" s]
      by (simp add: s is_ascii_def)
    have "utf8_valid t" using drop_ascii_prefix [of p LF t] less.prems by (simp add: s is_ascii_def)
    then have "utf8_valid (concat (map (\<lambda>c. if c = LF then [CR, LF] else [c]) t))" using less.hyps [of t] by (simp add: s)
    moreover have "utf8_valid [CR, LF]" by (rule ascii_valid) (simp add: is_ascii_def)
    ultimately have "utf8_valid (p @ [CR, LF] @ concat (map (\<lambda>c. if c = LF then [CR, LF] else [c]) t))"
      using p by (intro utf8_valid_append)
    then show ?thesis by (simp add: s(1) crlf_line [OF s(2)])
  qed (use less.prems crlf_line in simp)
qed

lemma cascade_replacement:
  "cascade late s spans old new k vs = Some (Ok m) \<Longrightarrow> utf8_valid new \<Longrightarrow> utf8_valid (mt_replacement m)"
  by (induction vs arbitrary: k) (auto simp: Let_def reindent_valid split: if_splits list.splits)

lemma find_in_replacement:
  "find_in late s old new fuzzy = Ok m \<Longrightarrow> utf8_valid new \<Longrightarrow> utf8_valid (mt_replacement m)"
  by (auto simp: find_in_def block_anchor_def Let_def dest: cascade_replacement
      split: list.splits if_splits option.splits prod.splits)

lemma find_match_replacement:
  assumes "find_match late late' s old new fuzzy = Ok m" and new: "utf8_valid new"
  shows "utf8_valid (mt_replacement m)"
proof -
  have "utf8_valid (mt_replacement (crlf_replacement s m0))" if "utf8_valid (mt_replacement m0)" for m0
    using that crlf_valid by (simp add: crlf_replacement_def Let_def)
  note crlf = this
  show ?thesis
    using assms(1)
  proof (cases rule: find_match_Ok)
    case (1 m0)
    then show ?thesis using crlf [OF find_in_replacement [OF 1(1) new]] by simp
  next
    case (2 m0 t new')
    then have "utf8_valid new'" using gutter_valid new by blast
    then show ?thesis using crlf [of "m0\<lparr>mt_via := LineNumbers\<rparr>"] find_in_replacement [OF 2(2)] 2(3) by simp
  qed
qed



end
