(* ===== verification/Edit.thy ===== *)
theory Edit
  imports Matching
begin

text \<open>
  One edit of a file in memory (\<^verbatim>\<open>Edit::form\<close>, \<^verbatim>\<open>apply_one\<close>, \<^verbatim>\<open>conflict_check\<close>, \<^verbatim>\<open>shift_written\<close> and the error
  texts of \<^verbatim>\<open>tools/edit.rs\<close>). A batch applies its edits one after the other to the text that the earlier ones left;
  the ranges an edit wrote are moved along, so that a later edit that would change them is refused. The percentage
  of a distance is computed in floating point by the code and is a parameter (\<open>percent\<close>), as are the clocks of
  the search.
\<close>

section \<open>Data\<close>

definition MAX_EDIT_FILE_BYTES :: nat where "MAX_EDIT_FILE_BYTES = 4 * 1024 * 1024"
definition MAX_EDITS :: nat where "MAX_EDITS = 32"
definition MAX_DIFF_BYTES :: nat where "MAX_DIFF_BYTES = 256 * 1024"

record edit =
  ed_path :: string
  ed_old :: "string option"
  ed_new :: "string option"
  ed_insert_before :: "string option"
  ed_insert_after :: "string option"
  ed_replace_all :: bool
  ed_if_hash :: "string option"

datatype edit_form =
    Replace string string
  | InsertBefore string string
  | InsertAfter string string

record change =
  ch_line :: nat
  ch_removed :: nat
  ch_added :: nat
  ch_via :: strategy
  ch_count :: nat
  ch_index :: nat
  ch_wrote :: "(nat \<times> nat) list"

text \<open>The part of \<open>Planned\<close> that an edit reads and changes.\<close>

record edited =
  pl_key :: string
  pl_text :: string
  pl_changes :: "change list"

section \<open>The form of an edit\<close>

definition nonempty_text :: "string option \<Rightarrow> string option" where
  "nonempty_text v = (case v of Some s \<Rightarrow> if s = [] then None else Some s | None \<Rightarrow> None)"

definition edit_form_of :: "edit \<Rightarrow> (string, edit_form option) result" where
  "edit_form_of e =
     (case (nonempty_text (ed_old e), nonempty_text (ed_insert_before e), nonempty_text (ed_insert_after e)) of
        (Some old, None, None) \<Rightarrow>
          (case ed_new e of
             None \<Rightarrow> Err ''invalid_edit: old requires new''
           | Some new \<Rightarrow> Ok (if old \<noteq> new then Some (Replace old new) else None))
      | (None, Some anchor, None) \<Rightarrow>
          if ed_replace_all e then Err ''invalid_edit: replace_all applies to old/new only''
          else (case ed_new e of
                  None \<Rightarrow> Err ''invalid_edit: insert_before requires new''
                | Some new \<Rightarrow> Ok (Some (InsertBefore anchor new)))
      | (None, None, Some anchor) \<Rightarrow>
          if ed_replace_all e then Err ''invalid_edit: replace_all applies to old/new only''
          else (case ed_new e of
                  None \<Rightarrow> Err ''invalid_edit: insert_after requires new''
                | Some new \<Rightarrow> Ok (Some (InsertAfter anchor new)))
      | (None, None, None) \<Rightarrow>
          if ed_old e \<noteq> None then Err ''invalid_edit: old must not be empty''
          else if ed_insert_before e \<noteq> None then Err ''invalid_edit: insert_before must not be empty''
          else if ed_insert_after e \<noteq> None then Err ''invalid_edit: insert_after must not be empty''
          else Err ''invalid_edit: give exactly one of old/new, insert_before/new, insert_after/new''
      | _ \<Rightarrow> Err ''invalid_edit: give exactly one of old/new, insert_before/new, insert_after/new'')"

section \<open>Replacing every occurrence\<close>

text \<open>\<open>match_indices\<close> and \<open>replace\<close> of the standard library: the occurrences from the left that do not
  overlap. A form never has an empty pattern, for which the recursion would not get ahead.\<close>

function match_starts :: "string \<Rightarrow> string \<Rightarrow> nat list" where
  "match_starts s p =
     (case find_sub s p of
        None \<Rightarrow> []
      | Some i \<Rightarrow>
          if p = [] then [i]
          else i # map (\<lambda>j. i + length p + j) (match_starts (drop (i + length p) s) p))"
  by pat_completeness auto
termination
proof (relation "measure (length \<circ> fst)")
  fix s p :: string and i
  assume "find_sub s p = Some i" "p \<noteq> []"
  then show "((drop (i + length p) s, p), s, p) \<in> measure (length \<circ> fst)"
    using find_sub_Some [of s p i] by (cases p) auto
qed simp

declare match_starts.simps [simp del]

function str_replace :: "string \<Rightarrow> string \<Rightarrow> string \<Rightarrow> string" where
  "str_replace s p new =
     (case find_sub s p of
        None \<Rightarrow> s
      | Some i \<Rightarrow>
          if p = [] then take i s @ new @ drop i s
          else take i s @ new @ str_replace (drop (i + length p) s) p new)"
  by pat_completeness auto
termination
proof (relation "measure (length \<circ> fst)")
  fix s p new :: string and i
  assume "find_sub s p = Some i" "p \<noteq> []"
  then show "((drop (i + length p) s, p, new), s, p, new) \<in> measure (length \<circ> fst)"
    using find_sub_Some [of s p i] by (cases p) auto
qed simp

declare str_replace.simps [simp del]

section \<open>Ranges that were written\<close>

text \<open>\<open>partition_point\<close> on a partitioned slice is the length of its first part. The ranges of a change are in order
  (\<open>ranges_ok\<close> below), or all empty, when no result of the search makes a conflict.\<close>

definition partition_point :: "('a \<Rightarrow> bool) \<Rightarrow> 'a list \<Rightarrow> nat" where
  "partition_point P xs = length (takeWhile P xs)"

definition conflicts :: "nat \<Rightarrow> nat \<Rightarrow> change \<Rightarrow> bool" where
  "conflicts a b c \<longleftrightarrow>
     (let k = partition_point (\<lambda>(_, e). e \<le> a) (ch_wrote c)
      in k < length (ch_wrote c) \<and> (let (s, e) = ch_wrote c ! k in s < e \<and> s < b))"

definition conflict_text :: "nat \<Rightarrow> change \<Rightarrow> string" where
  "conflict_text index c =
     ''conflicting_edits: a='' @ nat_to_string (ch_index c) @ '' b='' @ nat_to_string index
     @ ''; edit '' @ nat_to_string index @ '' matches inside text edit '' @ nat_to_string (ch_index c)
     @ '' wrote (L'' @ nat_to_string (ch_line c) @ ''); merge them into one edit''"

definition conflict_check :: "change list \<Rightarrow> nat \<Rightarrow> nat \<times> nat \<Rightarrow> (string, unit) result" where
  "conflict_check changes index span =
     (case find (conflicts (fst span) (snd span)) changes of
        Some c \<Rightarrow> Err (conflict_text index c)
      | None \<Rightarrow> Ok ())"

definition shift_range :: "nat \<Rightarrow> nat \<Rightarrow> nat \<Rightarrow> nat \<times> nat \<Rightarrow> nat \<times> nat" where
  "shift_range at removed added r =
     (let (s, e) = r
      in if s \<ge> at + removed then (s + added - removed, e + added - removed)
         else if removed = 0 \<and> at < e then (s, e + added)
         else (s, e))"

definition shift_written :: "change list \<Rightarrow> nat \<Rightarrow> nat \<Rightarrow> nat \<Rightarrow> change list" where
  "shift_written changes at removed added =
     map (\<lambda>c. c\<lparr>ch_wrote := map (shift_range at removed added) (ch_wrote c)\<rparr>) changes"

text \<open>The same for every occurrence at once.\<close>

definition shift_offset :: "nat list \<Rightarrow> nat \<Rightarrow> nat \<Rightarrow> nat \<Rightarrow> nat" where
  "shift_offset starts removed added offset =
     (let before = partition_point (\<lambda>at. at + removed \<le> offset) starts
      in offset - before * removed + before * added)"

definition shift_all :: "change list \<Rightarrow> nat list \<Rightarrow> nat \<Rightarrow> nat \<Rightarrow> change list" where
  "shift_all changes starts removed added =
     map (\<lambda>c. c\<lparr>ch_wrote := map (\<lambda>(s, e). (shift_offset starts removed added s, shift_offset starts removed added e))
        (ch_wrote c)\<rparr>) changes"

definition wrote_all :: "nat list \<Rightarrow> nat \<Rightarrow> nat \<Rightarrow> (nat \<times> nat) list" where
  "wrote_all starts removed added =
     map (\<lambda>(before, at). let start = at - before * removed + before * added in (start, start + added))
       (enumerate 0 starts)"

section \<open>Error texts\<close>

definition percent_text :: "nat \<Rightarrow> string" where
  "percent_text p = nat_to_string (p div 100) @ ''.'' @ nat_to_string (p mod 100 div 10) @ nat_to_string (p mod 10)"

definition join :: "string \<Rightarrow> string list \<Rightarrow> string" where
  "join sep xs = concat (case xs of [] \<Rightarrow> [] | y # ys \<Rightarrow> y # map (\<lambda>s. sep @ s) ys)"

definition describe_match :: "(nat \<times> nat \<Rightarrow> nat) \<Rightarrow> match_error \<Rightarrow> string" where
  "describe_match percent error =
     (case error of
        NotFound None \<Rightarrow> ''not_found: old was not found; re-read the file and match its current content''
      | NotFound (Some c) \<Rightarrow>
          ''not_found: old was not found; closest L'' @ nat_to_string (cl_line c) @ '' distance=''
          @ percent_text (percent (cl_score c)) @ [LF] @ trim_end (cl_excerpt c)
      | Ambiguous via count lines \<Rightarrow>
          ''ambiguous: '' @ (if via = Exact \<and> count = 3 then ''at least '' else []) @ nat_to_string count
          @ '' matches via '' @ strategy_name via @ '' at lines ''
          @ join '','' (map (\<lambda>line. ''L'' @ nat_to_string line) (take 8 lines))
          @ ''; extend old until it is unique, or set replace_all for an exact match''
      | Disproportionate via span_lines old_lines \<Rightarrow>
          ''disproportionate: '' @ strategy_name via @ '' matched a '' @ nat_to_string span_lines
          @ ''-line block for a '' @ nat_to_string old_lines @ ''-line old; give more of the block''
      | MixedGutter \<Rightarrow>
          ''invalid_edit: old matched only without its read_file line numbers, but new mixes numbered and unnumbered lines; remove the N<TAB> line-number prefixes from new'')"

definition not_found :: "(nat \<times> nat \<Rightarrow> nat) \<Rightarrow> string \<Rightarrow> string \<Rightarrow> string" where
  "not_found percent s old =
     describe_match percent (case find_match (\<lambda>_. False) (\<lambda>_. False) s old [] False of
        Inl e \<Rightarrow> e | Inr _ \<Rightarrow> NotFound None)"

definition too_large :: "string \<Rightarrow> string" where
  "too_large path =
     ''too_large: the edited '' @ path @ '' exceeds the '' @ nat_to_string (MAX_EDIT_FILE_BYTES div (1024 * 1024))
     @ '' MiB file size limit''"

section \<open>Applying one edit\<close>

text \<open>The size of the text after replacing every occurrence, checked for overflow.\<close>

definition replaced_size :: "nat \<Rightarrow> nat \<Rightarrow> nat \<Rightarrow> nat \<Rightarrow> nat option" where
  "replaced_size len count old new =
     (if count * new \<le> u64_max then checked_add u64_max (len - count * old) (count * new) else None)"

definition line_start :: "string \<Rightarrow> nat \<Rightarrow> nat" where
  "line_start s at = (case position (\<lambda>c. c = LF) (rev (take at s)) of Some i \<Rightarrow> at - i | None \<Rightarrow> 0)"

definition next_line :: "string \<Rightarrow> nat \<Rightarrow> nat" where
  "next_line s at = (case position (\<lambda>c. c = LF) (drop at s) of Some i \<Rightarrow> at + i + 1 | None \<Rightarrow> length s)"

definition inserted :: "string \<Rightarrow> nat \<Rightarrow> string \<Rightarrow> string" where
  "inserted s at new =
     (if at = length s \<and> s \<noteq> [] \<and> \<not> ends_with s [LF] then [LF] else []) @ new
     @ (if \<not> ends_with new [LF] \<and> at < length s then [LF] else [])"

definition replace_every :: "(nat \<times> nat \<Rightarrow> nat) \<Rightarrow> nat \<Rightarrow> string \<Rightarrow> string \<Rightarrow> 'a edited_scheme \<Rightarrow> (string, 'a edited_scheme) result" where
  "replace_every percent index old new f =
     (let s = pl_text f; starts = match_starts s old; n = length starts
      in case starts of
           [] \<Rightarrow> Err (not_found percent s old)
         | first # _ \<Rightarrow>
             if (case replaced_size (length s) n (length old) (length new) of
                   None \<Rightarrow> True | Some len \<Rightarrow> len > MAX_EDIT_FILE_BYTES)
             then Err (too_large (pl_key f))
             else (case find (\<lambda>r. r \<noteq> Ok ())
                       (map (\<lambda>at. conflict_check (pl_changes f) index (at, at + length old)) starts) of
                     Some (Inl e) \<Rightarrow> Err e
                   | _ \<Rightarrow>
                       Ok (f\<lparr>pl_text := str_replace s old new,
                             pl_changes := shift_all (pl_changes f) starts (length old) (length new)
                               @ [\<lparr>ch_line = line_of s first, ch_removed = max 1 (length (str_lines old)),
                                   ch_added = length (str_lines new), ch_via = Exact, ch_count = n, ch_index = index,
                                   ch_wrote = wrote_all starts (length old) (length new)\<rparr>]\<rparr>)))"

definition replace_one :: "(nat \<times> nat \<Rightarrow> nat) \<Rightarrow> (nat \<Rightarrow> bool) \<Rightarrow> (nat \<Rightarrow> bool) \<Rightarrow> nat \<Rightarrow> bool \<Rightarrow> string \<Rightarrow> string
  \<Rightarrow> 'a edited_scheme \<Rightarrow> (string, 'a edited_scheme) result" where
  "replace_one percent late late' index fuzzy old new f =
     (let s = pl_text f
      in case find_match late late' s old new fuzzy of
           Inl e \<Rightarrow> Err (describe_match percent e)
         | Inr m \<Rightarrow>
             (case conflict_check (pl_changes f) index (mt_start m, mt_end m) of
                Inl e \<Rightarrow> Err e
              | Inr _ \<Rightarrow>
                  (let n = length (mt_replacement m)
                   in Ok (f\<lparr>pl_text := take (mt_start m) s @ mt_replacement m @ drop (mt_end m) s,
                            pl_changes := shift_written (pl_changes f) (mt_start m) (mt_end m - mt_start m) n
                              @ [\<lparr>ch_line = line_of s (mt_start m),
                                  ch_removed = max 1 (length (str_lines (sub_text s (mt_start m) (mt_end m)))),
                                  ch_added = length (str_lines (mt_replacement m)), ch_via = mt_via m, ch_count = 1,
                                  ch_index = index, ch_wrote = [(mt_start m, mt_start m + n)]\<rparr>]\<rparr>))))"

definition insert_at :: "(nat \<times> nat \<Rightarrow> nat) \<Rightarrow> (nat \<Rightarrow> bool) \<Rightarrow> (nat \<Rightarrow> bool) \<Rightarrow> nat \<Rightarrow> bool \<Rightarrow> bool \<Rightarrow> string \<Rightarrow> string
  \<Rightarrow> 'a edited_scheme \<Rightarrow> (string, 'a edited_scheme) result" where
  "insert_at percent late late' index fuzzy before anchor new f =
     (let s = pl_text f
      in case find_match late late' s anchor [] fuzzy of
           Inl e \<Rightarrow> Err (describe_match percent e)
         | Inr m \<Rightarrow>
             (let at = (if before then line_start s (mt_start m) else next_line s (mt_end m));
                  s' = take at s @ inserted s at new @ drop at s;
                  n = length s' - length s
              in Ok (f\<lparr>pl_text := s',
                       pl_changes := shift_written (pl_changes f) at 0 n
                         @ [\<lparr>ch_line = line_of s' at, ch_removed = 0, ch_added = length (str_lines new),
                             ch_via = mt_via m, ch_count = 1, ch_index = index, ch_wrote = [(at, at + n)]\<rparr>]\<rparr>)))"

definition apply_one :: "(nat \<times> nat \<Rightarrow> nat) \<Rightarrow> (nat \<Rightarrow> bool) \<Rightarrow> (nat \<Rightarrow> bool) \<Rightarrow> 'a edited_scheme \<Rightarrow> nat \<Rightarrow> edit_form
  \<Rightarrow> bool \<Rightarrow> bool \<Rightarrow> (string, 'a edited_scheme) result" where
  "apply_one percent late late' f index form replace_all fuzzy =
     (case form of
        Replace old new \<Rightarrow>
          if replace_all then replace_every percent index old new f
          else replace_one percent late late' index fuzzy old new f
      | InsertBefore anchor new \<Rightarrow> insert_at percent late late' index fuzzy True anchor new f
      | InsertAfter anchor new \<Rightarrow> insert_at percent late late' index fuzzy False anchor new f)"

section \<open>The ranges of a change\<close>

text \<open>All ranges of a change are empty (it wrote nothing), or none is and they follow one another inside
  the text.\<close>

definition follows :: "nat \<times> nat \<Rightarrow> nat \<times> nat \<Rightarrow> bool" where
  "follows r r' \<longleftrightarrow> snd r \<le> fst r'"

definition in_text :: "nat \<Rightarrow> nat \<times> nat \<Rightarrow> bool" where
  "in_text n r \<longleftrightarrow> fst r < snd r \<and> snd r \<le> n"

definition ranges_ok :: "nat \<Rightarrow> (nat \<times> nat) list \<Rightarrow> bool" where
  "ranges_ok n rs \<longleftrightarrow> list_all (\<lambda>r. fst r = snd r) rs \<or> list_all (in_text n) rs \<and> sorted_wrt follows rs"

definition changes_ok :: "'a edited_scheme \<Rightarrow> bool" where
  "changes_ok f \<longleftrightarrow> list_all (\<lambda>c. ranges_ok (length (pl_text f)) (ch_wrote c)) (pl_changes f)"

definition apart :: "nat \<Rightarrow> nat \<Rightarrow> nat \<times> nat \<Rightarrow> bool" where
  "apart a b r \<longleftrightarrow> snd r \<le> a \<or> b \<le> fst r"

text \<open>The binary search of \<open>conflict_check\<close> finds a range that overlaps the span whenever there is one.\<close>

lemma no_conflict_apart:
  assumes "\<not> conflicts a b c" and "list_all (in_text n) (ch_wrote c)" and "sorted_wrt follows (ch_wrote c)"
  shows "list_all (apart a b) (ch_wrote c)"
proof -
  define rs where "rs = ch_wrote c"
  define k where "k = partition_point (\<lambda>(_, e). e \<le> a) rs"
  have pre: "snd (rs ! i) \<le> a" if "i < k" for i
    using that nth_mem [of i "takeWhile (\<lambda>(_, e). e \<le> a) rs"]
    by (auto simp: k_def partition_point_def takeWhile_nth dest!: set_takeWhileD split: prod.splits)
  have post: "b \<le> fst (rs ! i)" if i: "k \<le> i" "i < length rs" for i
  proof -
    have k: "k < length rs" using i by simp
    have "b \<le> fst (rs ! k)"
    proof -
      have "fst (rs ! k) < snd (rs ! k)" using assms(2) nth_mem [OF k] by (auto simp: rs_def list_all_iff in_text_def)
      then show ?thesis
        using assms(1) k by (auto simp: conflicts_def Let_def split: prod.splits simp flip: rs_def k_def)
    qed
    moreover have "fst (rs ! k) \<le> fst (rs ! i)"
    proof (cases "k = i")
      case False
      then have "snd (rs ! k) \<le> fst (rs ! i)"
        using assms(3) i sorted_wrt_nth_less [of follows rs k i] by (simp add: rs_def follows_def)
      moreover have "fst (rs ! k) < snd (rs ! k)"
        using assms(2) nth_mem [OF k] by (auto simp: rs_def list_all_iff in_text_def)
      ultimately show ?thesis by simp
    qed simp
    ultimately show ?thesis by simp
  qed
  show ?thesis
    unfolding list_all_length apart_def rs_def [symmetric] using pre post by (metis not_le)
qed

lemma conflict_check_Ok:
  "conflict_check cs index (a, b) = Ok () \<longleftrightarrow> list_all (\<lambda>c. \<not> conflicts a b c) cs"
  by (auto simp: conflict_check_def find_None_iff list_all_iff split: option.splits dest: found_in)

section \<open>Shifting\<close>

lemma shift_range_empty [simp]: "fst (shift_range at removed added (s, s)) = snd (shift_range at removed added (s, s))"
  by (simp add: shift_range_def)

lemma shift_range_keeps:
  assumes r: "in_text (length t) r" and "at + removed \<le> length t"
    and ap: "apart at (at + removed) r \<or> removed = 0"
    and r': "r' = shift_range at removed (length new) r" and t': "t' = take at t @ new @ drop (at + removed) t"
  shows "in_text (length t') r' \<and> subseq (sub_text t (fst r) (snd r)) (sub_text t' (fst r') (snd r'))
    \<and> (apart at (at + removed) r \<longrightarrow> sub_text t' (fst r') (snd r') = sub_text t (fst r) (snd r))"
proof -
  obtain a b where ab: "r = (a, b)" by (cases r)
  have b: "a < b" "b \<le> length t" using r by (simp_all add: in_text_def ab)
  consider (before) "b \<le> at" | (after) "at + removed \<le> a" "at < b" | (inside) "a < at" "at < b" "removed = 0"
    using ap b by (simp add: apart_def ab) linarith
  then show ?thesis
  proof cases
    case before
    then have "r' = r" using b by (simp add: r' ab shift_range_def)
    then show ?thesis using before b assms(2) by (simp add: ab t' in_text_def sub_text_def)
  next
    case after
    then have r'': "r' = (a + length new - removed, b + length new - removed)" by (simp add: r' ab shift_range_def)
    obtain i j where ij: "a = at + removed + i" "b = at + removed + j" using after b by (metis le_Suc_ex le_trans less_imp_le)
    have "sub_text t' (fst r') (snd r') = sub_text t a b"
      using assms(2) by (simp add: r'' t' sub_text_def ij min_absorb2 drop_take add.commute add.left_commute)
    moreover have "in_text (length t') r'" using ij b assms(2) by (simp add: r'' t' in_text_def)
    ultimately show ?thesis by (simp add: ab)
  next
    case inside
    then have r'': "r' = (a, b + length new)" by (simp add: r' ab shift_range_def)
    have "sub_text t a b = drop a (take at t) @ take (b - at) (drop at t)"
    proof -
      have "take b t = take at t @ take (b - at) (drop at t)" using inside by (metis less_imp_le le_add_diff_inverse take_add)
      then show ?thesis using inside b assms(2) by (simp add: sub_text_def)
    qed
    moreover have "sub_text t' (fst r') (snd r') = drop a (take at t) @ new @ take (b - at) (drop at t)"
      using inside b assms(2) by (simp add: r'' t' sub_text_def)
    ultimately show ?thesis
      using inside b assms(2) by (auto simp: r'' ab t' in_text_def apart_def intro!: list_emb_append_mono)
  qed
qed

lemma shift_range_mono:
  assumes "in_text n r" "in_text n r'" and "follows r r'"
    and "apart at (at + removed) r \<or> removed = 0" "apart at (at + removed) r' \<or> removed = 0"
  shows "follows (shift_range at removed added r) (shift_range at removed added r')"
  using assms by (cases r; cases r') (auto simp: shift_range_def in_text_def follows_def apart_def)

lemma sub_text_append:
  "b \<le> length u \<Longrightarrow> sub_text (u @ t) a b = sub_text u a b"
  "sub_text (u @ t) (length u + a) (length u + b) = sub_text t a b"
  by (simp_all add: sub_text_def)

lemma match_starts_None: "find_sub s p = None \<Longrightarrow> match_starts s p = []"
  by (simp add: match_starts.simps)

lemma match_starts_Some:
  "find_sub s p = Some i \<Longrightarrow> p \<noteq> [] \<Longrightarrow>
   match_starts s p = i # map (\<lambda>j. i + length p + j) (match_starts (drop (i + length p) s) p)"
  by (subst match_starts.simps) simp

lemma str_replace_None: "find_sub s p = None \<Longrightarrow> str_replace s p new = s"
  by (simp add: str_replace.simps)

lemma str_replace_Some:
  "find_sub s p = Some i \<Longrightarrow> p \<noteq> [] \<Longrightarrow>
   str_replace s p new = take i s @ new @ str_replace (drop (i + length p) s) p new"
  by (subst str_replace.simps) simp

lemma replace_induct [consumes 1, case_names None Some]:
  assumes "p \<noteq> []"
    and "\<And>s. find_sub s p = None \<Longrightarrow> P s"
    and "\<And>s i. find_sub s p = Some i \<Longrightarrow> i + length p \<le> length s \<Longrightarrow> P (drop (i + length p) s) \<Longrightarrow> P s"
  shows "P s"
proof (induction "length s" arbitrary: s rule: less_induct)
  case less
  show ?case
  proof (cases "find_sub s p")
    case (Some i)
    have "i + length p \<le> length s" using find_sub_Some [OF Some] by simp
    moreover have "0 < length p" using assms(1) by simp
    ultimately have "length (drop (i + length p) s) < length s" unfolding length_drop by linarith
    then show ?thesis using assms(3) [OF Some \<open>i + length p \<le> length s\<close> less] by simp
  qed (rule assms(2))
qed

lemma before_Some:
  "find_sub s p = Some i \<Longrightarrow> p \<noteq> [] \<Longrightarrow>
   partition_point (\<lambda>at. at + length p \<le> x) (match_starts s p) =
     (if i + length p \<le> x
      then Suc (partition_point (\<lambda>at. at + length p \<le> x - (i + length p)) (match_starts (drop (i + length p) s) p)) else 0)"
  by (auto simp: match_starts_Some partition_point_def takeWhile_map comp_def le_diff_conv2 add.commute add.left_commute
      intro!: arg_cong [where f = length] takeWhile_cong)

lemma before_le:
  assumes "p \<noteq> []"
  shows "partition_point (\<lambda>at. at + length p \<le> x) (match_starts s p) * length p \<le> x"
  using assms
proof (induction s arbitrary: x rule: replace_induct)
  case (Some s i)
  show ?case
    unfolding before_Some [OF Some.hyps(1) assms] using Some.IH [of "x - (i + length p)"] by (simp split: if_split) linarith
qed (simp_all add: match_starts_None partition_point_def)

lemma shift_offset_None: "find_sub s p = None \<Longrightarrow> shift_offset (match_starts s p) n m x = x"
  by (simp add: match_starts_None shift_offset_def partition_point_def)

lemma shift_offset_Some:
  assumes "find_sub s p = Some i" and "p \<noteq> []"
  shows "shift_offset (match_starts s p) (length p) m x =
    (if i + length p \<le> x
     then i + m + shift_offset (match_starts (drop (i + length p) s) p) (length p) m (x - (i + length p)) else x)"
proof (cases "i + length p \<le> x")
  case True
  then obtain y where x: "x = i + length p + y" by (metis le_Suc_ex)
  define k where "k = partition_point (\<lambda>at. at + length p \<le> y) (match_starts (drop (i + length p) s) p)"
  have "k * length p \<le> y" unfolding k_def by (rule before_le [OF assms(2)])
  moreover have "partition_point (\<lambda>at. at + length p \<le> x) (match_starts s p) = Suc k"
    using before_Some [OF assms, of x] x by (simp add: k_def)
  moreover have "x - (i + length p) = y" using x by simp
  ultimately show ?thesis using True by (simp add: shift_offset_def x Let_def flip: k_def)
qed (simp add: shift_offset_def before_Some [OF assms])

lemma replace_keeps:
  assumes "p \<noteq> []" "a < b" "b \<le> length s" "\<forall>at \<in> set (match_starts s p). apart at (at + length p) (a, b)"
    and "g = shift_offset (match_starts s p) (length p) (length new)"
  shows "g a < g b \<and> g b \<le> length (str_replace s p new) \<and> sub_text (str_replace s p new) (g a) (g b) = sub_text s a b"
  using assms
proof (induction s arbitrary: a b g rule: replace_induct)
  case (None s)
  then show ?case by (simp add: shift_offset_None str_replace_None)
next
  case (Some s i)
  let ?k = "i + length p" and ?r = "drop (i + length p) s"
  have i: "b \<le> i \<or> ?k \<le> a" and rest: "\<forall>at \<in> set (match_starts ?r p). apart (?k + at) (?k + at + length p) (a, b)"
    using Some.prems(3) by (auto simp: match_starts_Some [OF Some.hyps(1) assms(1)] apart_def)
  have g: "g x = (if ?k \<le> x then i + length new + shift_offset (match_starts ?r p) (length p) (length new) (x - ?k) else x)" for x
    using shift_offset_Some [OF Some.hyps(1) assms(1)] Some.prems(4) by simp
  show ?case
  proof (cases "b \<le> i")
    case True
    moreover have "0 < length p" using assms(1) by simp
    ultimately have "\<not> ?k \<le> a" "\<not> ?k \<le> b" using Some.prems(1) by linarith+
    then have "g a = a" "g b = b" using g by simp_all
    then show ?thesis
      using True Some.prems(1,2) Some.hyps(2) by (simp add: str_replace_Some [OF Some.hyps(1) assms(1)] sub_text_append sub_text_def)
  next
    case False
    then have k: "?k \<le> a" "?k \<le> b" using i Some.prems(1) by simp_all
    let ?g = "shift_offset (match_starts ?r p) (length p) (length new)"
    have "?g (a - ?k) < ?g (b - ?k) \<and> ?g (b - ?k) \<le> length (str_replace ?r p new)
        \<and> sub_text (str_replace ?r p new) (?g (a - ?k)) (?g (b - ?k)) = sub_text ?r (a - ?k) (b - ?k)"
      by (rule Some.IH) (use k Some.prems(1,2) rest in \<open>auto simp: apart_def\<close>)
    moreover have "sub_text ?r (a - ?k) (b - ?k) = sub_text s a b" using k by (simp add: sub_text_def take_drop)
    moreover have "str_replace s p new = (take i s @ new) @ str_replace ?r p new" "length (take i s @ new) = i + length new"
      using Some.hyps(2) by (simp_all add: str_replace_Some [OF Some.hyps(1) assms(1)])
    ultimately show ?thesis
      using sub_text_append(2) [of "take i s @ new" "str_replace ?r p new"] k by (simp add: g)
  qed
qed

lemma shift_offset_mono:
  assumes "p \<noteq> []" "x \<le> y" "\<forall>at \<in> set (match_starts s p). x \<le> at \<or> at + length p \<le> x"
  shows "shift_offset (match_starts s p) (length p) n x \<le> shift_offset (match_starts s p) (length p) n y"
  using assms
proof (induction s arbitrary: x y rule: replace_induct)
  case (Some s i)
  let ?k = "i + length p" and ?r = "drop (i + length p) s"
  have i: "x \<le> i \<or> ?k \<le> x" and rest: "\<forall>at \<in> set (match_starts ?r p). x \<le> ?k + at \<or> ?k + at + length p \<le> x"
    using Some.prems(2) by (auto simp: match_starts_Some [OF Some.hyps(1) assms(1)])
  have p: "0 < length p" using assms(1) by simp
  show ?case
  proof (cases "?k \<le> x")
    case True
    have "shift_offset (match_starts ?r p) (length p) n (x - ?k) \<le> shift_offset (match_starts ?r p) (length p) n (y - ?k)"
      by (rule Some.IH) (use True Some.prems(1) rest in auto)
    then show ?thesis using True Some.prems(1) by (simp add: shift_offset_Some [OF Some.hyps(1) assms(1)])
  next
    case False
    then show ?thesis using i Some.prems(1) by (simp add: shift_offset_Some [OF Some.hyps(1) assms(1)])
  qed
qed (simp add: shift_offset_None)

lemma starts_ge:
  assumes "p \<noteq> []" "j < length (match_starts s p)"
  shows "j * length p \<le> match_starts s p ! j"
  using assms
proof (induction s arbitrary: j rule: replace_induct)
  case (Some s i)
  then show ?case using match_starts_Some [OF Some.hyps(1) assms(1)] by (cases j) (simp_all add: trans_le_add2)
qed (simp add: match_starts_None)

lemma wrote_all_nth:
  "j < length starts \<Longrightarrow> wrote_all starts n m ! j = (starts ! j - j * n + j * m, starts ! j - j * n + j * m + m)"
  by (simp add: wrote_all_def enumerate_eq_zip Let_def)

lemma wrote_all_Some:
  assumes "find_sub s p = Some i" "p \<noteq> []"
  shows "wrote_all (match_starts s p) (length p) m =
    (i, i + m) # map (\<lambda>(a, b). (i + m + a, i + m + b)) (wrote_all (match_starts (drop (i + length p) s) p) (length p) m)"
proof (rule nth_equalityI)
  show "length (wrote_all (match_starts s p) (length p) m) =
      length ((i, i + m) # map (\<lambda>(a, b). (i + m + a, i + m + b)) (wrote_all (match_starts (drop (i + length p) s) p) (length p) m))"
    by (simp add: wrote_all_def match_starts_Some [OF assms])
  fix j assume "j < length (wrote_all (match_starts s p) (length p) m)"
  then have j: "j < length (match_starts s p)" by (simp add: wrote_all_def)
  show "wrote_all (match_starts s p) (length p) m ! j =
      ((i, i + m) # map (\<lambda>(a, b). (i + m + a, i + m + b)) (wrote_all (match_starts (drop (i + length p) s) p) (length p) m)) ! j"
  proof (cases j)
    case 0
    then show ?thesis using wrote_all_nth [OF j] by (simp add: match_starts_Some [OF assms])
  next
    case (Suc k)
    then have k: "k < length (match_starts (drop (i + length p) s) p)" using j by (simp add: match_starts_Some [OF assms])
    then have "length (wrote_all (match_starts (drop (i + length p) s) p) (length p) m) > k" by (simp add: wrote_all_def)
    then show ?thesis
      using wrote_all_nth [OF j] wrote_all_nth [OF k] starts_ge [OF assms(2) k] Suc k
      by (simp add: match_starts_Some [OF assms] ac_simps)
  qed
qed

lemma wrote_all_written:
  assumes "p \<noteq> []"
  shows "map (\<lambda>(a, b). sub_text (str_replace s p new) a b) (wrote_all (match_starts s p) (length p) (length new))
    = replicate (length (match_starts s p)) new"
  using assms
proof (induction s rule: replace_induct)
  case (Some s i)
  let ?r = "drop (i + length p) s" and ?u = "take i s @ new"
  have u: "str_replace s p new = ?u @ str_replace ?r p new" "length ?u = i + length new"
    using Some.hyps(2) by (simp_all add: str_replace_Some [OF Some.hyps(1) assms])
  have first: "sub_text (str_replace s p new) i (i + length new) = new"
    using Some.hyps(2) by (simp add: u(1) sub_text_def)
  have rest: "sub_text (str_replace s p new) (i + length new + a) (i + length new + b) = sub_text (str_replace ?r p new) a b" for a b
    using sub_text_append(2) [of ?u "str_replace ?r p new" a b] u by simp
  have "length (match_starts s p) = Suc (length (match_starts ?r p))" by (simp add: match_starts_Some [OF Some.hyps(1) assms])
  then show ?case
    unfolding wrote_all_Some [OF Some.hyps(1) assms] using Some.IH first rest by (simp add: comp_def case_prod_beta)
qed (simp add: match_starts_None wrote_all_def)

lemma follows_shift [simp]:
  "follows (case r of (a, b) \<Rightarrow> (k + a, k + b)) (case r' of (a, b) \<Rightarrow> (k + a, k + b)) = follows r r'"
  by (simp add: follows_def case_prod_beta)

lemma wrote_all_in_text:
  assumes "p \<noteq> []" "new \<noteq> []"
  shows "list_all (in_text (length (str_replace s p new))) (wrote_all (match_starts s p) (length p) (length new))
    \<and> sorted_wrt follows (wrote_all (match_starts s p) (length p) (length new))"
  using assms
proof (induction s rule: replace_induct)
  case (Some s i)
  have n: "length (str_replace s p new) = i + length new + length (str_replace (drop (i + length p) s) p new)"
    using Some.hyps(2) by (simp add: str_replace_Some [OF Some.hyps(1) assms(1)])
  show ?case
    unfolding wrote_all_Some [OF Some.hyps(1) assms(1)] n using Some.IH [OF assms(2)] assms(2)
    by (simp add: sorted_wrt_map) (auto simp: list_all_iff in_text_def follows_def)
qed (simp add: match_starts_None wrote_all_def)

lemma wrote_all_ok:
  assumes "p \<noteq> []"
  shows "ranges_ok (length (str_replace s p new)) (wrote_all (match_starts s p) (length p) (length new))"
proof (cases "new = []")
  case True
  then have "list_all (\<lambda>r. fst r = snd r) (wrote_all (match_starts s p) (length p) (length new))"
    by (simp add: wrote_all_def list_all_iff Let_def case_prod_beta)
  then show ?thesis by (simp add: ranges_ok_def)
qed (use wrote_all_in_text [OF assms] in \<open>simp add: ranges_ok_def\<close>)

section \<open>One edit keeps what the others wrote\<close>

definition written :: "string \<Rightarrow> change \<Rightarrow> string list" where
  "written t c = map (\<lambda>(a, b). sub_text t a b) (ch_wrote c)"

definition moved :: "(nat \<times> nat \<Rightarrow> nat \<times> nat) \<Rightarrow> change \<Rightarrow> change" where
  "moved g c = c\<lparr>ch_wrote := map g (ch_wrote c)\<rparr>"

lemma shift_moved:
  "shift_written cs at n m = map (moved (shift_range at n m)) cs"
  "shift_all cs starts n m = map (moved (\<lambda>(s, e). (shift_offset starts n m s, shift_offset starts n m e))) cs"
  by (simp_all add: shift_written_def shift_all_def moved_def)

text \<open>A way to move ranges that keeps the text of every range with \<open>P\<close>, up to \<open>R\<close>.\<close>

lemma moved_ok:
  assumes ok: "ranges_ok (length t) (ch_wrote c)"
    and P: "list_all (in_text (length t)) (ch_wrote c) \<Longrightarrow> sorted_wrt follows (ch_wrote c) \<Longrightarrow> list_all P (ch_wrote c)"
    and empty: "\<And>s. fst (g (s, s)) = snd (g (s, s))"
    and good: "\<And>r. in_text (length t) r \<Longrightarrow> P r \<Longrightarrow>
      in_text (length t') (g r) \<and> R (sub_text t (fst r) (snd r)) (sub_text t' (fst (g r)) (snd (g r)))"
    and mono: "\<And>r r'. in_text (length t) r \<Longrightarrow> in_text (length t) r' \<Longrightarrow> P r \<Longrightarrow> P r' \<Longrightarrow> follows r r' \<Longrightarrow> follows (g r) (g r')"
    and R: "R [] []"
  shows "ranges_ok (length t') (ch_wrote (moved g c))" and "list_all2 R (written t c) (written t' (moved g c))"
proof -
  let ?rs = "ch_wrote c"
  have "ranges_ok (length t') (map g ?rs)
    \<and> (\<forall>r \<in> set ?rs. R (sub_text t (fst r) (snd r)) (sub_text t' (fst (g r)) (snd (g r))))"
  proof (cases "list_all (\<lambda>r. fst r = snd r) ?rs")
    case True
    have e0: "fst r = snd r" if "r \<in> set ?rs" for r using that True by (simp add: list_all_iff)
    have e: "fst (g r) = snd (g r)" if "r \<in> set ?rs" for r using e0 [OF that] empty [of "fst r"] by (metis prod.collapse)
    have "sub_text u (snd r) (snd r) = []" for u :: string and r :: "nat \<times> nat" by (simp add: sub_text_def)
    then show ?thesis using e0 e R by (simp add: ranges_ok_def list_all_iff)
  next
    case False
    then have it: "list_all (in_text (length t)) ?rs" "sorted_wrt follows ?rs" using ok by (simp_all add: ranges_ok_def)
    note PP = P [OF it]
    have "sorted_wrt (\<lambda>r r'. follows (g r) (g r')) ?rs"
      by (rule sorted_wrt_mono_rel [OF _ it(2)]) (use mono it(1) PP in \<open>simp add: list_all_iff\<close>)
    then show ?thesis using good it(1) PP by (simp add: ranges_ok_def list_all_iff sorted_wrt_map)
  qed
  then show "ranges_ok (length t') (ch_wrote (moved g c))" "list_all2 R (written t c) (written t' (moved g c))"
    by (simp_all add: moved_def written_def list_all2_conv_all_nth case_prod_beta)
qed

definition keeps_written :: "(string \<Rightarrow> string \<Rightarrow> bool) \<Rightarrow> 'a edited_scheme \<Rightarrow> 'a edited_scheme \<Rightarrow> bool" where
  "keeps_written R f f' \<longleftrightarrow> length (pl_changes f) \<le> length (pl_changes f') \<and>
     (\<forall>i < length (pl_changes f). ch_index (pl_changes f' ! i) = ch_index (pl_changes f ! i) \<and>
        list_all2 R (written (pl_text f) (pl_changes f ! i)) (written (pl_text f') (pl_changes f' ! i)))"

text \<open>What the change of an edit may have written.\<close>

definition wrote_as :: "edit_form \<Rightarrow> strategy \<Rightarrow> string \<Rightarrow> bool" where
  "wrote_as form via w \<longleftrightarrow>
     (case form of
        Replace _ new \<Rightarrow> via = Exact \<longrightarrow> w = new
      | InsertBefore _ new \<Rightarrow> w \<in> {new, new @ [LF], LF # new}
      | InsertAfter _ new \<Rightarrow> w \<in> {new, new @ [LF], LF # new})"

definition is_insert :: "edit_form \<Rightarrow> bool" where
  "is_insert form \<longleftrightarrow> (case form of Replace _ _ \<Rightarrow> False | _ \<Rightarrow> True)"

definition form_ok :: "edit_form \<Rightarrow> bool" where
  "form_ok form \<longleftrightarrow>
     (case form of
        Replace old new \<Rightarrow> old \<noteq> [] \<and> utf8_valid old \<and> utf8_valid new
      | InsertBefore anchor new \<Rightarrow> anchor \<noteq> [] \<and> utf8_valid anchor \<and> utf8_valid new
      | InsertAfter anchor new \<Rightarrow> anchor \<noteq> [] \<and> utf8_valid anchor \<and> utf8_valid new)"

definition file_ok :: "'a edited_scheme \<Rightarrow> bool" where
  "file_ok f \<longleftrightarrow> utf8_valid (pl_text f) \<and> changes_ok f"

definition step_ok :: "edit_form \<Rightarrow> nat \<Rightarrow> 'a edited_scheme \<Rightarrow> 'a edited_scheme \<Rightarrow> bool" where
  "step_ok form index f f' \<longleftrightarrow> file_ok f' \<and> keeps_written (if is_insert form then subseq else (=)) f f'
     \<and> length (pl_changes f') = Suc (length (pl_changes f))
     \<and> (let c = last (pl_changes f')
        in ch_index c = index \<and> ch_wrote c \<noteq> [] \<and> list_all (wrote_as form (ch_via c)) (written (pl_text f') c))"

lemma stepI:
  assumes f': "pl_changes f' = map (moved g) (pl_changes f) @ [c]" and "file_ok f" "utf8_valid (pl_text f')"
    and P: "\<And>c. c \<in> set (pl_changes f) \<Longrightarrow> list_all (in_text (length (pl_text f))) (ch_wrote c) \<Longrightarrow>
      sorted_wrt follows (ch_wrote c) \<Longrightarrow> list_all P (ch_wrote c)"
    and empty: "\<And>s. fst (g (s, s)) = snd (g (s, s))"
    and good: "\<And>r. in_text (length (pl_text f)) r \<Longrightarrow> P r \<Longrightarrow> in_text (length (pl_text f')) (g r)
      \<and> (if is_insert form then subseq else (=)) (sub_text (pl_text f) (fst r) (snd r)) (sub_text (pl_text f') (fst (g r)) (snd (g r)))"
    and mono: "\<And>r r'. in_text (length (pl_text f)) r \<Longrightarrow> in_text (length (pl_text f)) r' \<Longrightarrow> P r \<Longrightarrow> P r' \<Longrightarrow> follows r r'
      \<Longrightarrow> follows (g r) (g r')"
    and c: "ranges_ok (length (pl_text f')) (ch_wrote c)" "ch_index c = index" "ch_wrote c \<noteq> []"
      "list_all (wrote_as form (ch_via c)) (written (pl_text f') c)"
  shows "step_ok form index f f'"
proof -
  have one: "ranges_ok (length (pl_text f')) (ch_wrote (moved g c'))
      \<and> list_all2 (if is_insert form then subseq else (=)) (written (pl_text f) c') (written (pl_text f') (moved g c'))"
    if "c' \<in> set (pl_changes f)" for c'
    by (intro conjI moved_ok [where P = P and t = "pl_text f"])
      (use that assms(2) P empty good mono in \<open>auto simp: file_ok_def changes_ok_def list_all_iff split: if_splits\<close>)
  then have "file_ok f'" using assms(3) c(1) by (simp add: file_ok_def changes_ok_def f' list_all_iff)
  moreover have "keeps_written (if is_insert form then subseq else (=)) f f'"
    using one by (simp add: keeps_written_def f' nth_append moved_def)
  ultimately show ?thesis using c by (simp add: step_ok_def f' Let_def)
qed

lemma written_ok: "utf8_valid s \<Longrightarrow> well_placed s m \<Longrightarrow> utf8_valid t \<Longrightarrow> utf8_valid (take (mt_start m) s @ t @ drop (mt_end m) s)"
  using utf8_valid_cut [of s "mt_start m"] utf8_valid_cut [of s "mt_end m"]
  by (simp add: well_placed_def utf8_valid_append)

lemma one_range_ok: "a + n \<le> k \<Longrightarrow> ranges_ok k [(a, a + n)]"
  by (cases "n = 0") (simp_all add: ranges_ok_def in_text_def)

lemma checked_apart:
  assumes "conflict_check cs index (a, b) = Ok ()" "c \<in> set cs" "list_all (in_text n) (ch_wrote c)" "sorted_wrt follows (ch_wrote c)"
  shows "list_all (apart a b) (ch_wrote c)"
  using no_conflict_apart [of a b c n] assms by (simp add: conflict_check_Ok list_all_iff)

lemma replace_one_step:
  assumes f: "file_ok f" and form: "form_ok (Replace old new)"
    and r: "replace_one percent late late' index fuzzy old new f = Ok f'"
  shows "step_ok (Replace old new) index f f'"
proof -
  obtain m where m: "find_match late late' (pl_text f) old new fuzzy = Ok m"
    and ck: "conflict_check (pl_changes f) index (mt_start m, mt_end m) = Ok ()"
    using r by (auto simp: replace_one_def Let_def split: sum.splits)
  define c where "c = \<lparr>ch_line = line_of (pl_text f) (mt_start m),
      ch_removed = max 1 (length (str_lines (sub_text (pl_text f) (mt_start m) (mt_end m)))),
      ch_added = length (str_lines (mt_replacement m)), ch_via = mt_via m, ch_count = 1,
      ch_index = index, ch_wrote = [(mt_start m, mt_start m + length (mt_replacement m))]\<rparr>"
  have f': "pl_text f' = take (mt_start m) (pl_text f) @ mt_replacement m @ drop (mt_end m) (pl_text f)"
    "pl_changes f' = map (moved (shift_range (mt_start m) (mt_end m - mt_start m) (length (mt_replacement m)))) (pl_changes f) @ [c]"
    using r m ck by (auto simp: replace_one_def c_def Let_def shift_moved)
  have v: "utf8_valid (pl_text f)" "old \<noteq> []" "utf8_valid old" "utf8_valid new"
    using f form by (simp_all add: file_ok_def form_ok_def)
  have w: "well_placed (pl_text f) m" by (rule find_match_placed [OF v(1,3,2) m])
  then have le: "mt_start m \<le> mt_end m" "mt_end m \<le> length (pl_text f)" by (simp_all add: well_placed_def)
  show ?thesis
  proof (rule stepI [OF f'(2) f, where P = "apart (mt_start m) (mt_end m)"])
    show "utf8_valid (pl_text f')"
      unfolding f'(1) by (rule written_ok [OF v(1) w find_match_replacement [OF m v(4)]])
    show "list_all (apart (mt_start m) (mt_end m)) (ch_wrote c')"
      if "c' \<in> set (pl_changes f)" "list_all (in_text (length (pl_text f))) (ch_wrote c')" "sorted_wrt follows (ch_wrote c')" for c'
      by (rule checked_apart [OF ck that])
    show "follows (shift_range (mt_start m) (mt_end m - mt_start m) (length (mt_replacement m)) r)
        (shift_range (mt_start m) (mt_end m - mt_start m) (length (mt_replacement m)) r')"
      if "in_text (length (pl_text f)) r" "in_text (length (pl_text f)) r'" "apart (mt_start m) (mt_end m) r"
        "apart (mt_start m) (mt_end m) r'" "follows r r'" for r r'
      by (rule shift_range_mono [OF that(1,2,5)]) (use that le in simp_all)
    show "ranges_ok (length (pl_text f')) (ch_wrote c)" using le by (simp add: c_def f' one_range_ok)
    have "written (pl_text f') c = [mt_replacement m]" using le by (simp add: c_def f' written_def sub_text_def)
    moreover have "mt_via m = Exact \<Longrightarrow> mt_replacement m = new" using find_match_exact [OF v(1,3,2) m] by simp
    ultimately show "list_all (wrote_as (Replace old new) (ch_via c)) (written (pl_text f') c)"
      by (simp add: wrote_as_def c_def)
    show "in_text (length (pl_text f')) (shift_range (mt_start m) (mt_end m - mt_start m) (length (mt_replacement m)) r)
      \<and> (if is_insert (Replace old new) then subseq else (=)) (sub_text (pl_text f) (fst r) (snd r))
          (sub_text (pl_text f') (fst (shift_range (mt_start m) (mt_end m - mt_start m) (length (mt_replacement m)) r))
            (snd (shift_range (mt_start m) (mt_end m - mt_start m) (length (mt_replacement m)) r)))"
      if "in_text (length (pl_text f)) r" "apart (mt_start m) (mt_end m) r" for r
      using shift_range_keeps [OF that(1) _ _ refl, of "mt_start m" "mt_end m - mt_start m" "pl_text f'" "mt_replacement m"]
        that le f'(1) by (simp add: is_insert_def)
  qed (simp_all add: c_def)
qed

lemma line_start_placed:
  assumes s: "utf8_valid s" and at: "at \<le> length s"
  shows "line_start s at \<le> at" and "is_char_boundary s (line_start s at)"
proof -
  consider "line_start s at = 0" | i where "position (\<lambda>c. c = LF) (rev (take at s)) = Some i" "line_start s at = at - i"
    unfolding line_start_def by (cases "position (\<lambda>c. c = LF) (rev (take at s))") auto
  then have "line_start s at \<le> at \<and> is_char_boundary s (line_start s at)"
  proof cases
    case (2 i)
    then have i: "i < at" "rev (take at s) ! i = LF" using at by (simp_all add: position_Some_iff min_absorb2)
    then have "s ! (at - Suc i) = LF" using at by (simp add: rev_nth min_absorb2)
    note i = i(1) this
    then show ?thesis
      using boundary_after_ascii [OF s, of "at - i"] at 2 by (simp add: is_ascii_def)
  qed (simp add: is_char_boundary_def)
  then show "line_start s at \<le> at" "is_char_boundary s (line_start s at)" by simp_all
qed

lemma next_line_placed:
  assumes s: "utf8_valid s" and at: "at \<le> length s"
  shows "next_line s at \<le> length s" and "is_char_boundary s (next_line s at)"
proof -
  consider "next_line s at = length s" | i where "position (\<lambda>c. c = LF) (drop at s) = Some i" "next_line s at = at + i + 1"
    unfolding next_line_def by (cases "position (\<lambda>c. c = LF) (drop at s)") auto
  then have "next_line s at \<le> length s \<and> is_char_boundary s (next_line s at)"
  proof cases
    case (2 i)
    then have i: "at + i < length s" "s ! (at + i) = LF" using at by (auto simp: position_Some_iff)
    then show ?thesis
      using boundary_after_ascii [OF s, of "at + i + 1"] 2 by (simp add: is_ascii_def)
  qed (simp add: is_char_boundary_def)
  then show "next_line s at \<le> length s" "is_char_boundary s (next_line s at)" by simp_all
qed

lemma inserted_valid: "utf8_valid new \<Longrightarrow> utf8_valid (inserted s at new)"
  by (simp add: inserted_def utf8_valid_append ascii_valid is_ascii_def)

lemma inserted_cases: "inserted s at new \<in> {new, new @ [LF], LF # new}"
  by (simp add: inserted_def)

lemma insert_at_step:
  assumes f: "file_ok f" and form: "form_ok form" "form = (if before then InsertBefore anchor new else InsertAfter anchor new)"
    and r: "insert_at percent late late' index fuzzy before anchor new f = Ok f'"
  shows "step_ok form index f f'"
proof -
  obtain m where m: "find_match late late' (pl_text f) anchor [] fuzzy = Ok m"
    using r by (auto simp: insert_at_def Let_def split: sum.splits)
  define s where "s = pl_text f"
  define at where "at = (if before then line_start s (mt_start m) else next_line s (mt_end m))"
  define t where "t = inserted s at new"
  define c where "c = \<lparr>ch_line = line_of (pl_text f') at, ch_removed = 0, ch_added = length (str_lines new),
      ch_via = mt_via m, ch_count = 1, ch_index = index, ch_wrote = [(at, at + length t)]\<rparr>"
  have v: "utf8_valid s" "anchor \<noteq> []" "utf8_valid anchor" "utf8_valid new" "is_insert form"
    using f form by (auto simp: file_ok_def form_ok_def s_def is_insert_def split: if_splits)
  have "well_placed s m" using find_match_placed [OF v(1,3,2)] m by (simp add: s_def)
  then have at: "at \<le> length s" "is_char_boundary s at"
    using line_start_placed [OF v(1), of "mt_start m"] next_line_placed [OF v(1), of "mt_end m"]
    by (auto simp: well_placed_def at_def)
  have f': "pl_text f' = take at s @ t @ drop at s" "pl_changes f' = map (moved (shift_range at 0 (length t))) (pl_changes f) @ [c]"
    using r m at(1) by (auto simp: insert_at_def c_def t_def Let_def shift_moved simp flip: s_def at_def)
  show ?thesis
  proof (rule stepI [OF f'(2) f, where P = "\<lambda>_. True"])
    have "utf8_valid t" unfolding t_def by (rule inserted_valid [OF v(4)])
    then show "utf8_valid (pl_text f')"
      using utf8_valid_cut [OF v(1) at] by (simp add: f' utf8_valid_append)
    show "follows (shift_range at 0 (length t) r) (shift_range at 0 (length t) r')"
      if "in_text (length (pl_text f)) r" "in_text (length (pl_text f)) r'" "follows r r'" for r r'
      by (rule shift_range_mono [OF that]) simp_all
    show "ranges_ok (length (pl_text f')) (ch_wrote c)" using at by (simp add: c_def f' one_range_ok)
    have "written (pl_text f') c = [t]" using at by (simp add: c_def f' written_def sub_text_def)
    then show "list_all (wrote_as form (ch_via c)) (written (pl_text f') c)"
      using inserted_cases [of s at new] form(2) by (auto simp: wrote_as_def t_def)
    show "in_text (length (pl_text f')) (shift_range at 0 (length t) r)
      \<and> (if is_insert form then subseq else (=)) (sub_text (pl_text f) (fst r) (snd r))
          (sub_text (pl_text f') (fst (shift_range at 0 (length t) r)) (snd (shift_range at 0 (length t) r)))"
      if "in_text (length (pl_text f)) r" for r
      using shift_range_keeps [OF that _ _ refl, of at 0 "pl_text f'" t] at f'(1) v(5) by (simp add: s_def)
  qed (simp_all add: c_def list_all_iff)
qed

lemma str_replace_valid:
  assumes old: "old \<noteq> []" "utf8_valid old" and new: "utf8_valid new" and s: "utf8_valid s"
  shows "utf8_valid (str_replace s old new)"
  using old(1) s
proof (induction s rule: replace_induct)
  case (Some s i)
  have occ: "occurs s old i" using find_sub_Some [OF Some.hyps(1)] by (simp add: occurs_def)
  note b = occurs_boundary [OF Some.prems old(2,1) occ]
  have "utf8_valid (take i s)" "utf8_valid (drop (i + length old) s)"
    using utf8_valid_cut [OF Some.prems _ b(1)] utf8_valid_cut [OF Some.prems Some.hyps(2) b(2)] Some.hyps(2) by simp_all
  then show ?case
    using Some.IH new by (simp add: str_replace_Some [OF Some.hyps(1) old(1)] utf8_valid_append)
qed (simp add: str_replace_None)

lemma replace_every_step:
  assumes f: "file_ok f" and form: "form_ok (Replace old new)"
    and r: "replace_every percent index old new f = Ok f'"
  shows "step_ok (Replace old new) index f f'"
proof -
  define s where "s = pl_text f"
  define starts where "starts = match_starts s old"
  define g where "g = (\<lambda>(a, b). (shift_offset starts (length old) (length new) a, shift_offset starts (length old) (length new) b))"
  define c where "c = \<lparr>ch_line = line_of s (hd starts), ch_removed = max 1 (length (str_lines old)),
      ch_added = length (str_lines new), ch_via = Exact, ch_count = length starts, ch_index = index,
      ch_wrote = wrote_all starts (length old) (length new)\<rparr>"
  have r': "starts \<noteq> []" "find (\<lambda>r. r \<noteq> Ok ()) (map (\<lambda>at. conflict_check (pl_changes f) index (at, at + length old)) starts) = None"
    "f' = f\<lparr>pl_text := str_replace s old new, pl_changes := map (moved g) (pl_changes f) @ [c]\<rparr>"
    using r by (auto simp: replace_every_def Let_def g_def c_def shift_moved simp flip: s_def starts_def
        split: list.splits if_splits option.splits sum.splits dest: found_in)
  have v: "utf8_valid s" "old \<noteq> []" "utf8_valid old" "utf8_valid new"
    using f form by (simp_all add: file_ok_def form_ok_def s_def)
  have ck: "conflict_check (pl_changes f) index (at, at + length old) = Ok ()" if "at \<in> set starts" for at
    using r'(2) that by (auto simp: find_None_iff)
  let ?P = "\<lambda>r. \<forall>at \<in> set starts. apart at (at + length old) r"
  have f': "pl_text f' = str_replace s old new" "pl_changes f' = map (moved g) (pl_changes f) @ [c]" by (simp_all add: r'(3))
  show ?thesis
  proof (rule stepI [OF f'(2) f, where P = ?P])
    show "utf8_valid (pl_text f')" unfolding f'(1) by (rule str_replace_valid [OF v(2,3,4,1)])
    show "list_all ?P (ch_wrote c')"
      if "c' \<in> set (pl_changes f)" "list_all (in_text (length (pl_text f))) (ch_wrote c')" "sorted_wrt follows (ch_wrote c')" for c'
      using checked_apart [OF ck that] by (auto simp: list_all_iff)
    show "in_text (length (pl_text f')) (g r)
      \<and> (if is_insert (Replace old new) then subseq else (=)) (sub_text (pl_text f) (fst r) (snd r)) (sub_text (pl_text f') (fst (g r)) (snd (g r)))"
      if "in_text (length (pl_text f)) r" "?P r" for r
      using replace_keeps [OF v(2), of "fst r" "snd r" s _ new] that
      by (cases r) (simp add: in_text_def f'(1) g_def is_insert_def s_def starts_def)
    show "follows (g r) (g r')"
      if "in_text (length (pl_text f)) r" "in_text (length (pl_text f)) r'" "?P r" "?P r'" "follows r r'" for r r'
    proof -
      have "\<forall>at \<in> set starts. snd r \<le> at \<or> at + length old \<le> snd r"
        using that(1,3) by (auto simp: apart_def in_text_def)
      then show ?thesis
        using shift_offset_mono [OF v(2), of "snd r" "fst r'" s "length new"] that(5)
        by (simp add: follows_def g_def starts_def case_prod_beta)
    qed
    show "ranges_ok (length (pl_text f')) (ch_wrote c)" using wrote_all_ok [OF v(2)] by (simp add: c_def f'(1) starts_def)
    show "list_all (wrote_as (Replace old new) (ch_via c)) (written (pl_text f') c)"
      using wrote_all_written [OF v(2), of s new] by (simp add: c_def written_def f'(1) starts_def wrote_as_def list_all_iff)
    show "ch_wrote c \<noteq> []" using r'(1) by (cases starts) (simp_all add: c_def wrote_all_def)
  qed (simp_all add: c_def g_def)
qed

lemma apply_one_step:
  assumes "file_ok f" "form_ok form" "apply_one percent late late' f index form replace_all fuzzy = Ok f'"
  shows "step_ok form index f f'"
  using assms replace_every_step replace_one_step insert_at_step [of f form True] insert_at_step [of f form False]
  by (cases form) (auto simp: apply_one_def split: if_splits)

section \<open>A text that occurs once\<close>

lemma find_match_unique:
  assumes "utf8_valid s" "utf8_valid old" "old \<noteq> []" and "\<forall>i. occurs s old i \<longleftrightarrow> i = at"
  shows "find_match late late' s old new fuzzy = Ok \<lparr>mt_start = at, mt_end = at + length old, mt_replacement = new, mt_via = Exact\<rparr>"
proof -
  have "exact_take s old 3 0 = [at]" using find_in_exact(2) [OF assms(1-3)] assms(4) by blast
  then show ?thesis by (simp add: find_match_def find_in_def)
qed

lemma str_replace_unique:
  assumes "old \<noteq> []" and one: "\<forall>i. occurs s old i \<longleftrightarrow> i = at"
  shows "str_replace s old new = take at s @ new @ drop (at + length old) s"
proof -
  have "occurs s old at" using one by simp
  then have at: "at + length old \<le> length s" "starts_with (drop at s) old" by (simp_all add: occurs_def)
  have "find_sub s old \<noteq> None" using at(2) find_sub_None by blast
  then obtain i where i: "find_sub s old = Some i" by blast
  then have "occurs s old i" using find_sub_Some by (simp add: occurs_def)
  then have "i = at" using one by blast
  moreover have "find_sub (drop (at + length old) s) old = None"
  proof (rule ccontr)
    assume "find_sub (drop (at + length old) s) old \<noteq> None"
    then obtain j where "find_sub (drop (at + length old) s) old = Some j" by blast
    note j = find_sub_Some [OF this]
    then have "at + length old + j + length old \<le> length s" using at(1) by simp linarith
    then have "occurs s old (at + length old + j)" using j by (simp add: occurs_def ac_simps)
    then have "at + length old + j = at" using one by blast
    then show False using assms(1) by simp
  qed
  ultimately show ?thesis using i assms(1) by (simp add: str_replace_Some str_replace_None)
qed

lemma apply_one_unique:
  assumes "utf8_valid (pl_text f)" "form_ok (Replace old new)" and one: "\<forall>i. occurs (pl_text f) old i \<longleftrightarrow> i = at"
    and "apply_one percent late late' f index (Replace old new) replace_all fuzzy = Ok f'"
  shows "pl_text f' = take at (pl_text f) @ new @ drop (at + length old) (pl_text f)"
proof -
  have v: "old \<noteq> []" "utf8_valid old" using assms(2) by (simp_all add: form_ok_def)
  show ?thesis
    using assms(4) find_match_unique [OF assms(1) v(2,1) one] str_replace_unique [OF v(1) one]
    by (auto simp: apply_one_def replace_every_def replace_one_def Let_def split: if_splits list.splits option.splits sum.splits)
qed

section \<open>A batch\<close>

text \<open>The edits of one file in a batch, each with its number, the clocks of its search and its switches.\<close>

record file_edit =
  fe_late :: "nat \<Rightarrow> bool"
  fe_late' :: "nat \<Rightarrow> bool"
  fe_index :: nat
  fe_form :: edit_form
  fe_replace_all :: bool
  fe_fuzzy :: bool

definition apply_edit :: "(nat \<times> nat \<Rightarrow> nat) \<Rightarrow> 'a edited_scheme \<Rightarrow> file_edit \<Rightarrow> (string, 'a edited_scheme) result" where
  "apply_edit percent f e =
     apply_one percent (fe_late e) (fe_late' e) f (fe_index e) (fe_form e) (fe_replace_all e) (fe_fuzzy e)"

fun apply_edits :: "(nat \<times> nat \<Rightarrow> nat) \<Rightarrow> 'a edited_scheme \<Rightarrow> file_edit list \<Rightarrow> (string, 'a edited_scheme) result" where
  "apply_edits percent f [] = Ok f"
| "apply_edits percent f (e # es) =
     (case apply_edit percent f e of Inl error \<Rightarrow> Err error | Inr f' \<Rightarrow> apply_edits percent f' es)"

lemma apply_edits_append:
  "apply_edits percent f (es @ es') =
     (case apply_edits percent f es of Inl error \<Rightarrow> Err error | Inr f' \<Rightarrow> apply_edits percent f' es')"
  by (induction es arbitrary: f) (auto split: sum.splits)

definition text_kept :: "file_edit list \<Rightarrow> string \<Rightarrow> string \<Rightarrow> bool" where
  "text_kept es = (if list_all (\<lambda>e. \<not> is_insert (fe_form e)) es then (=) else subseq)"

lemma keeps_written_refl: "(\<And>x. R x x) \<Longrightarrow> keeps_written R f f"
  by (simp add: keeps_written_def list.rel_refl)

lemma keeps_written_mono: "keeps_written R f f' \<Longrightarrow> (\<And>x y. R x y \<Longrightarrow> R' x y) \<Longrightarrow> keeps_written R' f f'"
  using list_all2_mono [of R _ _ R'] by (simp add: keeps_written_def)

lemma keeps_written_trans:
  assumes "keeps_written R f1 f2" "keeps_written R f2 f3" and R: "\<And>x y z. R x y \<Longrightarrow> R y z \<Longrightarrow> R x z"
  shows "keeps_written R f1 f3"
proof -
  have trans: "list_all2 R xs ys \<Longrightarrow> list_all2 R ys zs \<Longrightarrow> list_all2 R xs zs" for xs ys zs
    using list_all2_trans [of R R R] R by blast
  show ?thesis
    unfolding keeps_written_def
  proof (intro conjI allI impI)
    fix i assume i: "i < length (pl_changes f1)"
    then have "i < length (pl_changes f2)" using assms(1) by (simp add: keeps_written_def)
    then show "ch_index (pl_changes f3 ! i) = ch_index (pl_changes f1 ! i)"
      "list_all2 R (written (pl_text f1) (pl_changes f1 ! i)) (written (pl_text f3) (pl_changes f3 ! i))"
      using assms(1,2) i trans [of "written (pl_text f1) (pl_changes f1 ! i)" "written (pl_text f2) (pl_changes f2 ! i)"]
      by (simp_all add: keeps_written_def)
  qed (use assms(1,2) in \<open>simp add: keeps_written_def\<close>)
qed

lemma text_kept_step:
  assumes "keeps_written (if is_insert (fe_form e) then subseq else (=)) f f'" and "keeps_written (text_kept es) f' f''"
  shows "keeps_written (text_kept (e # es)) f f''"
proof (cases "list_all (\<lambda>e. \<not> is_insert (fe_form e)) (e # es)")
  case True
  then show ?thesis using assms keeps_written_trans [of "(=)" f f' f''] by (simp add: text_kept_def)
next
  case False
  have "keeps_written subseq f f'" "keeps_written subseq f' f''"
    using assms by (auto intro: keeps_written_mono simp: text_kept_def split: if_splits)
  then have "keeps_written subseq f f''" by (rule keeps_written_trans) (rule subseq_order.trans)
  then show ?thesis using False by (simp only: text_kept_def if_False)
qed

lemma apply_edits_kept:
  assumes "file_ok f" "list_all (\<lambda>e. form_ok (fe_form e)) es" "apply_edits percent f es = Ok f'"
  shows "file_ok f' \<and> keeps_written (text_kept es) f f' \<and> length (pl_changes f') = length (pl_changes f) + length es"
  using assms
proof (induction es arbitrary: f)
  case Nil
  then show ?case by (simp add: text_kept_def keeps_written_refl)
next
  case (Cons e es)
  obtain f1 where f1: "apply_edit percent f e = Ok f1" "apply_edits percent f1 es = Ok f'"
    using Cons.prems(3) by (auto split: sum.splits)
  then have st: "step_ok (fe_form e) (fe_index e) f f1"
    using apply_one_step [OF Cons.prems(1), of "fe_form e"] Cons.prems(2) by (simp add: apply_edit_def)
  then have "file_ok f' \<and> keeps_written (text_kept es) f1 f' \<and> length (pl_changes f') = length (pl_changes f1) + length es"
    using Cons.IH [OF _ _ f1(2)] Cons.prems(2) by (simp add: step_ok_def)
  then show ?case using st text_kept_step [of e f f1 es f'] by (simp add: step_ok_def)
qed

text \<open>C17 (invariant). In a batch of edits to a file that apply without error, no edit is lost to a later one. Each
  edit leaves one record; when it was applied its ranges held what the edit asks for (the new text, for an
  insertion at most a line feed around it). At the end the ranges recorded for it hold the same
  texts, in the same number, or the same texts with others inserted in them when a later edit inserts. The text
  stays valid UTF-8 throughout.\<close>

theorem edits_survive:
  assumes "utf8_valid (pl_text f)" "pl_changes f = []" "list_all (\<lambda>e. form_ok (fe_form e)) es"
    and "apply_edits percent f es = Ok f'"
  shows "utf8_valid (pl_text f') \<and> length (pl_changes f') = length es \<and>
    (\<forall>i < length es. \<exists>f1. apply_edits percent f (take (Suc i) es) = Ok f1 \<and>
       (let c = pl_changes f1 ! i; c' = pl_changes f' ! i
        in ch_index c' = fe_index (es ! i) \<and> ch_wrote c \<noteq> []
           \<and> list_all (wrote_as (fe_form (es ! i)) (ch_via c)) (written (pl_text f1) c)
           \<and> list_all2 (text_kept (drop (Suc i) es)) (written (pl_text f1) c) (written (pl_text f') c')))"
proof -
  have f: "file_ok f" using assms(1,2) by (simp add: file_ok_def changes_ok_def)
  have "\<exists>f1. apply_edits percent f (take (Suc i) es) = Ok f1 \<and>
       (let c = pl_changes f1 ! i; c' = pl_changes f' ! i
        in ch_index c' = fe_index (es ! i) \<and> ch_wrote c \<noteq> []
           \<and> list_all (wrote_as (fe_form (es ! i)) (ch_via c)) (written (pl_text f1) c)
           \<and> list_all2 (text_kept (drop (Suc i) es)) (written (pl_text f1) c) (written (pl_text f') c'))"
    if i: "i < length es" for i
  proof -
    have split: "apply_edits percent f (take i es @ es ! i # drop (Suc i) es) = Ok f'"
      using assms(4) by (simp only: id_take_nth_drop [OF i, symmetric])
    have forms: "list_all (\<lambda>e. form_ok (fe_form e)) (take i es)" "form_ok (fe_form (es ! i))"
      "list_all (\<lambda>e. form_ok (fe_form e)) (drop (Suc i) es)"
      using assms(3) i by (auto simp: list_all_iff dest: in_set_takeD in_set_dropD)
    obtain f0 f1 where f0: "apply_edits percent f (take i es) = Ok f0" and f1: "apply_edit percent f0 (es ! i) = Ok f1"
      and f': "apply_edits percent f1 (drop (Suc i) es) = Ok f'"
      using split by (auto simp: apply_edits_append split: sum.splits)
    have k0: "file_ok f0" "length (pl_changes f0) = i"
      using apply_edits_kept [OF f forms(1) f0] assms(2) i by simp_all
    have st: "step_ok (fe_form (es ! i)) (fe_index (es ! i)) f0 f1"
      using apply_one_step [OF k0(1) forms(2)] f1 by (simp add: apply_edit_def)
    then have len: "length (pl_changes f1) = Suc i" "last (pl_changes f1) = pl_changes f1 ! i"
      using k0(2) last_conv_nth [of "pl_changes f1"] by (force simp: step_ok_def)+
    have "keeps_written (text_kept (drop (Suc i) es)) f1 f'"
      using apply_edits_kept [OF _ forms(3) f'] st by (simp add: step_ok_def)
    then have "ch_index (pl_changes f' ! i) = ch_index (pl_changes f1 ! i)"
      "list_all2 (text_kept (drop (Suc i) es)) (written (pl_text f1) (pl_changes f1 ! i)) (written (pl_text f') (pl_changes f' ! i))"
      using len(1) by (simp_all add: keeps_written_def)
    moreover have "apply_edits percent f (take (Suc i) es) = Ok f1"
      using f0 f1 i by (simp add: take_Suc_conv_app_nth apply_edits_append)
    ultimately show ?thesis using st len(2) by (simp add: step_ok_def Let_def)
  qed
  then show ?thesis using apply_edits_kept [OF f assms(3,4)] assms(2) by (simp add: file_ok_def)
qed

definition example_file :: edited where
  "example_file = \<lparr>pl_key = ''f'', pl_text = ''aba'', pl_changes = []\<rparr>"

definition example_edits :: "file_edit list" where
  "example_edits =
     [\<lparr>fe_late = \<lambda>_. False, fe_late' = \<lambda>_. False, fe_index = 0, fe_form = Replace ''b'' ''cd'', fe_replace_all = False, fe_fuzzy = True\<rparr>,
      \<lparr>fe_late = \<lambda>_. False, fe_late' = \<lambda>_. False, fe_index = 1, fe_form = Replace ''a'' ''xyz'', fe_replace_all = True, fe_fuzzy = True\<rparr>]"

theorem edits_survive_witness:
  "\<exists>f'. apply_edits (\<lambda>_. 0) example_file example_edits = Ok f' \<and> pl_text f' = ''xyzcdxyz'' \<and> utf8_valid (pl_text f')
    \<and> map ch_wrote (pl_changes f') = [[(3, 5)], [(0, 3), (5, 8)]]"
proof -
  have find: "find_match (\<lambda>_. False) (\<lambda>_. False) ''aba'' ''b'' ''cd'' True = Ok \<lparr>mt_start = 1, mt_end = 2, mt_replacement = ''cd'', mt_via = Exact\<rparr>"
    by (simp add: find_match_def find_in_def exact_next_def starts_with_def is_char_boundary_def cont_def utf8_len_def is_ascii_def
        numeral_eq_Suc crlf_replacement_def)
  have starts: "match_starts ''acda'' ''a'' = [0, 3]" "str_replace ''acda'' ''a'' ''xyz'' = ''xyzcdxyz''"
    by code_simp+
  obtain f' where f': "apply_edits (\<lambda>_. 0) example_file example_edits = Ok f'" "pl_text f' = ''xyzcdxyz''"
    "map ch_wrote (pl_changes f') = [[(3, 5)], [(0, 3), (5, 8)]]"
    using find starts
    by (simp add: example_file_def example_edits_def apply_edit_def apply_one_def replace_one_def replace_every_def
        conflict_check_def conflicts_def partition_point_def shift_written_def shift_range_def shift_all_def shift_offset_def
        wrote_all_def replaced_size_def checked_add_def u64_max_def MAX_EDIT_FILE_BYTES_def Let_def)
  have "utf8_valid (pl_text f')"
    using edits_survive [OF _ _ _ f'(1)]
    by (simp add: example_file_def example_edits_def form_ok_def ascii_valid is_ascii_def)
  then show ?thesis by (intro exI [of _ f'] conjI f')
qed

end
