(* ===== verification/Workspace_Files.thy ===== *)
theory Workspace_Files
  imports Turn_Output
begin

text \<open>
  The workspace under the file tools (\<^verbatim>\<open>workspace/access.rs\<close>, \<^verbatim>\<open>workspace/atomic_write.rs\<close>,
  \<^verbatim>\<open>workspace/bounded_read.rs\<close>, \<^verbatim>\<open>workspace/file_state.rs\<close>): which paths a tool may name and write, how a file
  is read within its limit, and the replacement of a file through a temporary one. What the operating system
  answers is data: every call of the code reads its own field, so nothing is said of two answers agreeing. Paths are
  those of Unix; the branches for Windows are left out.
\<close>

section \<open>Paths\<close>

definition file_name :: "string \<Rightarrow> string option" where
  "file_name p = (if components p = [] then None else case last (components p) of Normal n \<Rightarrow> Some n | _ \<Rightarrow> None)"

datatype path_err =
    ProtectedMutation
  | EmptyPath
  | AbsolutePath
  | Resolve string
  | Escape

definition path_err_text :: "path_err \<Rightarrow> string" where
  "path_err_text e =
     (case e of
        ProtectedMutation \<Rightarrow>
          ''permission_denied: config: protected_path: agent file tools cannot change project configuration (.qq/config.ron, .qq/config.d, qq.ron), the task publication lock, or .git trust files; ask the user to change them. Do not retry it in another form.''
      | EmptyPath \<Rightarrow> ''path must not be empty''
      | AbsolutePath \<Rightarrow> ''path must be relative to the workspace''
      | Resolve source \<Rightarrow> ''path could not be resolved: '' @ source
      | Escape \<Rightarrow> ''path escapes the workspace'')"

definition path_error :: "string \<Rightarrow> path_err \<Rightarrow> string" where
  "path_error requested e =
     (if e = ProtectedMutation then path_err_text e
      else if (case e of
                 Escape \<Rightarrow> True
               | AbsolutePath \<Rightarrow> True
               | Resolve _ \<Rightarrow> ParentDir \<in> set (components requested)
               | _ \<Rightarrow> False)
      then ''path_escapes_workspace''
      else ''path_not_found: '' @ path_err_text e)"

definition contained_path :: "(string \<Rightarrow> (string, string) result) \<Rightarrow> string \<Rightarrow> (path_err, string) result" where
  "contained_path canonicalize requested =
     (if requested = [] then Err EmptyPath
      else if is_absolute requested then Err AbsolutePath
      else case canonicalize requested of
             Inl source \<Rightarrow> Err (Resolve source)
           | Inr canonical \<Rightarrow>
               if is_absolute canonical \<or> ParentDir \<in> set (components canonical) then Err Escape else Ok canonical)"

text \<open>The trusted parts of a project: a name anywhere in the path, and some names right below \<^verbatim>\<open>.qq\<close>.\<close>

fun protected :: "component list \<Rightarrow> bool" where
  "protected [] = False"
| "protected (Normal name # rest) =
     (eq_ignore_ascii_case name ''.git'' \<or> eq_ignore_ascii_case name ''qq.ron''
      \<or> eq_ignore_ascii_case name ''.qq''
        \<and> (case rest of
             [] \<Rightarrow> True
           | Normal n # _ \<Rightarrow>
               \<exists>p \<in> set [''config.ron'', ''config.d'', ''task-publication.lock'']. eq_ignore_ascii_case n p
           | _ \<Rightarrow> False)
      \<or> protected rest)"
| "protected (_ # rest) = protected rest"

definition check_write_path :: "string option \<Rightarrow> string \<Rightarrow> string \<Rightarrow> (path_err, unit) result" where
  "check_write_path capture requested resolved =
     (if protected (components requested) \<or> protected (components resolved) then Err ProtectedMutation
      else case capture of Some source \<Rightarrow> Err (Resolve source) | None \<Rightarrow> Ok ())"

section \<open>Reading a file\<close>

datatype bounded_read_error = TooLargeRead nat | ReadIo string

text \<open>\<open>content\<close> is what the reader would give up to its end, or the error before that.\<close>

definition read_bounded :: "(string, string) result \<Rightarrow> nat \<Rightarrow> (bounded_read_error, string) result" where
  "read_bounded content limit =
     (case content of
        Inl e \<Rightarrow> Err (ReadIo e)
      | Inr bytes \<Rightarrow>
          let got = take (sat_add u64_max limit 1) bytes
          in if length got > limit then Err (TooLargeRead limit) else Ok got)"

text \<open>What was read in the session, by path.\<close>

type_synonym file_state = "string \<Rightarrow> string option"

definition record_state :: "file_state \<Rightarrow> string \<Rightarrow> string \<Rightarrow> file_state" where
  "record_state st path hash = st(path \<mapsto> hash)"

definition recorded_hash :: "file_state \<Rightarrow> string \<Rightarrow> string option" where
  "recorded_hash st path = st path"

section \<open>Replacing a file\<close>

datatype atomic_write_error =
    DirectoryErr string | CreateErr string | WriteErr string | ChangedErr | InspectErr string | RenameErr string

definition write_error_text :: "atomic_write_error \<Rightarrow> string" where
  "write_error_text e =
     (case e of
        DirectoryErr s \<Rightarrow> ''could not validate write directory: '' @ s
      | CreateErr s \<Rightarrow> ''could not create a temporary file: '' @ s
      | WriteErr s \<Rightarrow> ''could not write the temporary file or preserve its permissions: '' @ s
      | ChangedErr \<Rightarrow> ''stale_file: destination changed while staging the replacement; read it again and retry''
      | InspectErr s \<Rightarrow> ''could not verify the destination before applying: '' @ s
      | RenameErr s \<Rightarrow> ''could not apply the change: '' @ s)"

text \<open>The metadata of a file, and what the system answers during one replacement. A read past the last chunk finds
  the end of the file.\<close>

record 'p metadata =
  md_is_file :: bool
  md_permissions :: 'p
  md_len :: nat

record 'p replace_answers =
  ra_validate :: "nat \<Rightarrow> string option"
  ra_create :: "string option"
  ra_write :: "string option"
  ra_set_permissions :: "string option"
  ra_sync :: "string option"
  ra_metadata :: "(bool \<times> string, 'p metadata) result"
  ra_open :: "string option"
  ra_open_metadata :: "(string, bool) result"
  ra_reads :: "(string, string) result list"
  ra_rename :: "string option"

fun compare_reads :: "string \<Rightarrow> nat \<Rightarrow> (string, string) result list \<Rightarrow> (string, bool) result" where
  "compare_reads expected offset [] = Ok (offset = length expected)"
| "compare_reads expected offset (Inl e # reads) = Err e"
| "compare_reads expected offset (Inr chunk # reads) =
     (if chunk = [] then Ok (offset = length expected)
      else if offset + length chunk \<le> length expected \<and> take (length chunk) (drop offset expected) = chunk
      then compare_reads expected (offset + length chunk) reads
      else Ok False)"

definition matches_expected :: "'p replace_answers \<Rightarrow> (string \<times> 'p) option \<Rightarrow> (string, bool) result" where
  "matches_expected os expected =
     (case ra_metadata os of
        Inl (missing, e) \<Rightarrow> if missing then Ok (expected = None) else Err e
      | Inr md \<Rightarrow>
          (case expected of
             None \<Rightarrow> Ok False
           | Some (bytes, permissions) \<Rightarrow>
               if \<not> md_is_file md \<or> md_permissions md \<noteq> permissions \<or> md_len md \<noteq> length bytes then Ok False
               else (case ra_open os of
                       Some e \<Rightarrow> Err e
                     | None \<Rightarrow>
                         (case ra_open_metadata os of
                            Inl e \<Rightarrow> Err e
                          | Inr is_file \<Rightarrow> if \<not> is_file then Ok False else compare_reads bytes 0 (ra_reads os)))))"

text \<open>What the replacement does to the directory, in order.\<close>

datatype 'p fs_action =
    CreateTemp | WriteTemp string | SetPermissions 'p | SyncTemp | RenameTemp | RemoveTemp

text \<open>The three writes to the temporary file; the first that fails ends them.\<close>

definition write_temp :: "'p replace_answers \<Rightarrow> string \<Rightarrow> 'p option \<Rightarrow> string option \<times> 'p fs_action list" where
  "write_temp os bytes permissions =
     (case ra_write os of
        Some e \<Rightarrow> (Some e, [])
      | None \<Rightarrow>
          (case (case permissions of Some _ \<Rightarrow> ra_set_permissions os | None \<Rightarrow> None) of
             Some e \<Rightarrow> (Some e, [WriteTemp bytes])
           | None \<Rightarrow>
               (let done = WriteTemp bytes # (case permissions of Some p \<Rightarrow> [SetPermissions p] | None \<Rightarrow> [])
                in case ra_sync os of Some e \<Rightarrow> (Some e, done) | None \<Rightarrow> (None, done @ [SyncTemp]))))"

definition rename_checked :: "'p replace_answers \<Rightarrow> (string \<times> 'p) option \<Rightarrow> (atomic_write_error, unit) result" where
  "rename_checked os expected =
     (case ra_validate os 1 of
        Some e \<Rightarrow> Err (DirectoryErr e)
      | None \<Rightarrow>
          (case matches_expected os expected of
             Inl e \<Rightarrow> Err (InspectErr e)
           | Inr same \<Rightarrow>
               if \<not> same then Err ChangedErr
               else (case ra_validate os 2 of
                       Some e \<Rightarrow> Err (DirectoryErr e)
                     | None \<Rightarrow> (case ra_rename os of Some e \<Rightarrow> Err (RenameErr e) | None \<Rightarrow> Ok ()))))"

definition apply_atomically :: "'p replace_answers \<Rightarrow> string \<Rightarrow> (string \<times> 'p) option \<Rightarrow> 'p option
  \<Rightarrow> (atomic_write_error, unit) result \<times> 'p fs_action list" where
  "apply_atomically os bytes expected permissions =
     (case ra_validate os 0 of
        Some e \<Rightarrow> (Err (DirectoryErr e), [])
      | None \<Rightarrow>
          (case ra_create os of
             Some e \<Rightarrow> (Err (CreateErr e), [])
           | None \<Rightarrow>
               (let (failed, acts) = write_temp os bytes permissions;
                    applied = (case failed of Some e \<Rightarrow> Err (WriteErr e) | None \<Rightarrow> rename_checked os expected)
                in (applied, CreateTemp # acts @ (case applied of Inl _ \<Rightarrow> [RemoveTemp] | Inr _ \<Rightarrow> [RenameTemp])))))"

section \<open>What a replacement guarantees\<close>

text \<open>The bytes the reads of a file gave, up to its end.\<close>

fun read_back :: "(string, string) result list \<Rightarrow> string option" where
  "read_back [] = Some []"
| "read_back (Inl e # reads) = None"
| "read_back (Inr chunk # reads) = (if chunk = [] then Some [] else map_option (\<lambda>s. chunk @ s) (read_back reads))"

lemma compare_reads_True:
  "compare_reads expected offset reads = Ok True \<Longrightarrow> offset \<le> length expected \<Longrightarrow> read_back reads = Some (drop offset expected)"
proof (induction expected offset reads rule: compare_reads.induct)
  case (3 expected offset chunk reads)
  show ?case
  proof (cases "chunk = []")
    case False
    then have c: "offset + length chunk \<le> length expected" "take (length chunk) (drop offset expected) = chunk"
      "compare_reads expected (offset + length chunk) reads = Ok True"
      using "3.prems" by (auto split: if_splits)
    have "drop offset expected = chunk @ drop (offset + length chunk) expected"
      using c(2) append_take_drop_id [of "length chunk" "drop offset expected"] by (simp add: add.commute)
    then show ?thesis using False "3.IH" [OF False _ c(3) c(1)] c(1,2) by simp
  qed (use "3.prems" in simp)
qed simp_all

text \<open>The destination as the last look at it found it.\<close>

definition found_as :: "'p replace_answers \<Rightarrow> string \<Rightarrow> 'p \<Rightarrow> bool" where
  "found_as os bytes permissions \<longleftrightarrow>
     ra_metadata os = Ok \<lparr>md_is_file = True, md_permissions = permissions, md_len = length bytes\<rparr>
     \<and> read_back (ra_reads os) = Some bytes"

lemma matches_expected_True: "matches_expected os (Some (bytes, permissions)) = Ok True \<Longrightarrow> found_as os bytes permissions"
  using compare_reads_True [of bytes 0 "ra_reads os"]
  by (auto simp: matches_expected_def found_as_def split: sum.splits if_splits option.splits)

lemma apply_atomically_Ok:
  assumes "apply_atomically os bytes (Some (before, permissions)) (Some permissions) = (Ok (), acts)"
  shows "acts = [CreateTemp, WriteTemp bytes, SetPermissions permissions, SyncTemp, RenameTemp] \<and> found_as os before permissions"
  using assms matches_expected_True [of os before permissions]
  by (auto simp: apply_atomically_def write_temp_def rename_checked_def Let_def split: option.splits sum.splits if_splits)

lemma apply_atomically_Err:
  assumes "apply_atomically os bytes expected permissions = (Err e, acts)"
  shows "RenameTemp \<notin> set acts \<and> (acts = [] \<or> hd acts = CreateTemp \<and> last acts = RemoveTemp)"
  using assms
  by (auto simp: apply_atomically_def write_temp_def Let_def split: option.splits sum.splits if_splits)

end
