(* ===== verification/Edit_File.thy ===== *)
theory Edit_File
  imports Edit Workspace_Files "HOL-Library.List_Lexorder" "HOL-Library.Char_ord"
begin

text \<open>
  The tool \<^verbatim>\<open>edit_file\<close> (\<^verbatim>\<open>tools/edit.rs\<close>): a batch of edits to several files is planned in memory, checked
  against the disk under the apply lock, and written file by file. The plan is the code's ordered map as a list
  of pairs in the order of its keys. The workspace and the system answer through the environment, by the number of
  the edit while the plan is made and by the place of the file while it is applied, so the disk may change in between.
  The value of a call is its output, the attempted replacements with what each did to the directory, and the files
  recorded as read.
\<close>

section \<open>Data\<close>

record edit_file_args =
  ea_edits :: "edit list"
  ea_fuzzy :: bool
  ea_dry_run :: bool

datatype freshness = Proven | Unread | ChangedSinceRead

record 'p editable_file =
  ef_bytes :: string
  ef_permissions :: 'p

record ('t, 'p) planned = edited +
  pl_target :: 't
  pl_original :: "'p editable_file"
  pl_before_hash :: string
  pl_freshness :: freshness
  pl_admitted :: freshness

datatype edit_output =
    EditError string
  | EditRefused string
  | EditInterrupted string
  | EditSuccess string "(string \<times> string) list" string string

text \<open>One opening of a file for reading: the error of the open, of its metadata, and the content.\<close>

record 'p open_answer =
  oa_open :: "string option"
  oa_metadata :: "(string, 'p metadata) result"
  oa_content :: "(string, string) result"

record ('t, 'p) edit_env =
  ee_sha256 :: "string \<Rightarrow> byte list"
  ee_lossy :: "string \<Rightarrow> string"
  ee_percent :: "nat \<times> nat \<Rightarrow> nat"
  ee_late :: "nat \<Rightarrow> nat \<Rightarrow> nat \<Rightarrow> bool"
  ee_cancelled :: "nat \<Rightarrow> bool"
  ee_recorded :: file_state
  ee_canonicalize :: "nat \<Rightarrow> string \<Rightarrow> (string, string) result"
  ee_capture :: "nat \<Rightarrow> string option"
  ee_write_target :: "nat \<Rightarrow> string \<Rightarrow> (string, 't) result"
  ee_open :: "nat \<Rightarrow> 't \<Rightarrow> 'p open_answer"
  ee_validate :: "nat \<Rightarrow> 't \<Rightarrow> string option"
  ee_reopen :: "nat \<Rightarrow> 't \<Rightarrow> 'p open_answer"
  ee_replace :: "nat \<Rightarrow> 't \<Rightarrow> 'p replace_answers"

section \<open>Planning an edit\<close>

definition SHORT_HASH_LEN :: nat where "SHORT_HASH_LEN = 12"

definition is_ascii_hexdigit :: "char \<Rightarrow> bool" where
  "is_ascii_hexdigit c \<longleftrightarrow> is_ascii_digit c \<or> (let b = (of_char c :: nat) in 65 \<le> b \<and> b \<le> 70 \<or> 97 \<le> b \<and> b \<le> 102)"

text \<open>A hash of zeros only stands for none.\<close>

definition short_hash :: "string option \<Rightarrow> (unit, string option) result" where
  "short_hash v =
     (case v of
        None \<Rightarrow> Ok None
      | Some h \<Rightarrow>
          (case strip_prefix h ''h:'' of
             Some hex \<Rightarrow>
               if length hex = SHORT_HASH_LEN \<and> list_all is_ascii_hexdigit hex
               then Ok (if list_ex (\<lambda>c. c \<noteq> CHR ''0'') hex then Some hex else None)
               else Err ()
           | None \<Rightarrow> Err ()))"

definition read_editable :: "'p open_answer \<Rightarrow> (string, 'p editable_file) result" where
  "read_editable os =
     (let large = ''too_large: file exceeds the '' @ nat_to_string (MAX_EDIT_FILE_BYTES div (1024 * 1024))
            @ '' MiB editable size limit''
      in case oa_open os of
           Some e \<Rightarrow> Err (''could not open file: '' @ e)
         | None \<Rightarrow>
             (case oa_metadata os of
                Inl e \<Rightarrow> Err (''could not inspect file: '' @ e)
              | Inr md \<Rightarrow>
                  if \<not> md_is_file md then Err ''not_a_file: path is not a regular file''
                  else if md_len md > MAX_EDIT_FILE_BYTES then Err large
                  else (case read_bounded (oa_content os) MAX_EDIT_FILE_BYTES of
                          Inl (TooLargeRead _) \<Rightarrow> Err large
                        | Inl (ReadIo e) \<Rightarrow> Err (''could not read file: '' @ e)
                        | Inr bytes \<Rightarrow> Ok \<lparr>ef_bytes = bytes, ef_permissions = md_permissions md\<rparr>)))"

definition edit_label :: "nat \<Rightarrow> string \<Rightarrow> string" where
  "edit_label index message = ''edit '' @ nat_to_string index @ '': '' @ message"

definition open_planned :: "('t, 'p) edit_env \<Rightarrow> nat \<Rightarrow> edit \<Rightarrow> string \<Rightarrow> (edit_output, ('t, 'p) planned) result" where
  "open_planned env index e path =
     (let key = ee_lossy env path
      in if file_name path = None then Err (EditError (edit_label index (''not_a_file: '' @ ed_path e)))
         else case ee_write_target env index path of
                Inl error \<Rightarrow> Err (EditRefused (edit_label index error))
              | Inr target \<Rightarrow>
                  (case read_editable (ee_open env index target) of
                     Inl error \<Rightarrow> Err (EditError (edit_label index error))
                   | Inr original \<Rightarrow>
                       (let before_hash = content_hash (ee_sha256 env) (ef_bytes original);
                            fresh = (case recorded_hash (ee_recorded env) key of
                                       Some h \<Rightarrow> if h = before_hash then Proven else ChangedSinceRead
                                     | None \<Rightarrow> Unread)
                        in if \<not> utf8_valid (ef_bytes original)
                           then Err (EditError (edit_label index (''not_utf8: '' @ ed_path e @ '' is not valid UTF-8'')))
                           else Ok \<lparr>pl_key = key, pl_text = ef_bytes original, pl_changes = [], pl_target = target,
                                   pl_original = original, pl_before_hash = before_hash, pl_freshness = fresh,
                                   pl_admitted = Proven\<rparr>)))"

text \<open>The ordered map.\<close>

fun btree_insert :: "string \<Rightarrow> 'v \<Rightarrow> (string \<times> 'v) list \<Rightarrow> (string \<times> 'v) list" where
  "btree_insert k v [] = [(k, v)]"
| "btree_insert k v ((k', v') # m) =
     (if k = k' then (k, v) # m else if k < k' then (k, v) # (k', v') # m else (k', v') # btree_insert k v m)"

definition once :: "string \<Rightarrow> string \<Rightarrow> bool" where
  "once s old \<longleftrightarrow> length (exact_take s old 2 0) = 1"

definition untouched :: "change list \<Rightarrow> string \<Rightarrow> string \<Rightarrow> bool" where
  "untouched changes s old =
     (case find_sub s old of
        None \<Rightarrow> False
      | Some start \<Rightarrow>
          (let stop = start + length old
           in list_all (\<lambda>(a, b). if b \<le> a then \<not> (start < a \<and> a < stop) else stop \<le> a \<or> b \<le> start)
                (concat (map ch_wrote changes))))"

definition unique_exact :: "('t, 'p) planned \<Rightarrow> edit_form \<Rightarrow> bool" where
  "unique_exact f form =
     (case form of
        Replace old _ \<Rightarrow>
          once (pl_text f) old
          \<and> (pl_changes f = []
             \<or> utf8_valid (ef_bytes (pl_original f)) \<and> once (ef_bytes (pl_original f)) old
               \<and> untouched (pl_changes f) (pl_text f) old)
      | _ \<Rightarrow> False)"

definition admit_unread :: "nat \<Rightarrow> string \<Rightarrow> edit_form \<Rightarrow> ('t, 'p) planned \<Rightarrow> (edit_output, ('t, 'p) planned) result" where
  "admit_unread index path form f =
     (case pl_freshness f of
        Proven \<Rightarrow> Ok f
      | Unread \<Rightarrow>
          if \<not> unique_exact f form
          then Err (EditError (edit_label index (''not_read: '' @ path @ '' has not been read in this session; an edit to an unread file applies only when its old matches exactly once (an anchor insert never does). Extend old until it is exact and unique, or read_file the lines around the edit'')))
          else Ok (f\<lparr>pl_admitted := pl_freshness f\<rparr>)
      | ChangedSinceRead \<Rightarrow>
          if \<not> unique_exact f form
          then Err (EditError (edit_label index (''stale_file: '' @ path @ '' changed since it was last read in this session; an edit to a changed file applies only when its old matches exactly once (an anchor insert never does). Extend old until it is exact and unique, or read_file the lines around the edit'')))
          else Ok (f\<lparr>pl_admitted := pl_freshness f\<rparr>))"

definition check_hash :: "nat \<Rightarrow> string \<Rightarrow> string option \<Rightarrow> ('t, 'p) planned \<Rightarrow> (edit_output, ('t, 'p) planned) result" where
  "check_hash index path if_hash f =
     (case if_hash of
        None \<Rightarrow> Ok f
      | Some h \<Rightarrow>
          if h \<noteq> take 12 (pl_before_hash f)
          then Err (EditError (edit_label index (''stale_file: '' @ path @ '' is not h:'' @ h @ '' now; read_file it again (or use an old that matches exactly once)'')))
          else Ok (f\<lparr>pl_freshness := Proven\<rparr>))"

text \<open>The body of the loop from the file on: its hash, its freshness, the edit itself and the size it leaves.\<close>

definition edit_planned :: "('t, 'p) edit_env \<Rightarrow> bool \<Rightarrow> nat \<Rightarrow> edit \<Rightarrow> string option \<Rightarrow> edit_form \<Rightarrow> ('t, 'p) planned
  \<Rightarrow> (edit_output, ('t, 'p) planned) result" where
  "edit_planned env fuzzy index e if_hash form f =
     (case check_hash index (ed_path e) if_hash f of
        Inl out \<Rightarrow> Err out
      | Inr f1 \<Rightarrow>
          (case admit_unread index (ed_path e) form f1 of
             Inl out \<Rightarrow> Err out
           | Inr f2 \<Rightarrow>
               (case apply_one (ee_percent env) (ee_late env index 0) (ee_late env index 1) f2 index form (ed_replace_all e) fuzzy of
                  Inl error \<Rightarrow> Err (EditError (edit_label index error))
                | Inr f3 \<Rightarrow>
                    if length (pl_text f3) > MAX_EDIT_FILE_BYTES
                    then Err (EditError (edit_label index (too_large (ed_path e))))
                    else Ok f3)))"

type_synonym ('t, 'p) plan = "(string \<times> ('t, 'p) planned) list"

definition plan_edit :: "('t, 'p) edit_env \<Rightarrow> bool \<Rightarrow> ('t, 'p) plan \<times> bool \<Rightarrow> nat \<times> edit
  \<Rightarrow> (edit_output, ('t, 'p) plan \<times> bool) result" where
  "plan_edit env fuzzy st entry =
     (let (plan, skipped) = st; (index, e) = entry
      in if ee_cancelled env index then Err (EditInterrupted ''tool execution was cancelled'')
         else case short_hash (ed_if_hash e) of
           Inl _ \<Rightarrow> Err (EditRefused (edit_label index ''invalid_if_hash: expected h:<12 hex digits>''))
         | Inr if_hash \<Rightarrow>
         (case edit_form_of e of
           Inl error \<Rightarrow> Err (EditRefused (edit_label index error))
         | Inr None \<Rightarrow> Ok (plan, True)
         | Inr (Some form) \<Rightarrow>
         (case contained_path (ee_canonicalize env index) (ed_path e) of
           Inl error \<Rightarrow> Err (EditError (edit_label index (path_error (ed_path e) error)))
         | Inr path \<Rightarrow>
         (case check_write_path (ee_capture env index) (ed_path e) path of
           Inl error \<Rightarrow> Err (EditRefused (edit_label index (path_err_text error)))
         | Inr _ \<Rightarrow>
         (let key = ee_lossy env path
          in case (case map_of plan key of Some f \<Rightarrow> Ok f | None \<Rightarrow> open_planned env index e path) of
               Inl out \<Rightarrow> Err out
             | Inr f \<Rightarrow>
                 (case edit_planned env fuzzy index e if_hash form f of
                    Inl out \<Rightarrow> Err out
                  | Inr f' \<Rightarrow> Ok (btree_insert key f' plan, skipped)))))))"

fun plan_edits :: "('t, 'p) edit_env \<Rightarrow> bool \<Rightarrow> ('t, 'p) plan \<times> bool \<Rightarrow> (nat \<times> edit) list
  \<Rightarrow> (edit_output, ('t, 'p) plan \<times> bool) result" where
  "plan_edits env fuzzy st [] = Ok st"
| "plan_edits env fuzzy st (entry # es) =
     (case plan_edit env fuzzy st entry of Inl out \<Rightarrow> Err out | Inr st' \<Rightarrow> plan_edits env fuzzy st' es)"

section \<open>Applying the plan\<close>

definition change_text :: "nat \<times> change \<Rightarrow> string" where
  "change_text entry =
     (let (k, c) = entry
      in (if k = 0 then '' '' else '' | '') @ ''L'' @ nat_to_string (ch_line c) @ '' -'' @ nat_to_string (ch_removed c)
         @ ''+'' @ nat_to_string (ch_added c)
         @ (if ch_count c > 1 then '' x'' @ nat_to_string (ch_count c) else [])
         @ (if ch_via c \<noteq> Exact then '' via='' @ strategy_name (ch_via c) else []))"

definition push_file_line :: "string \<Rightarrow> ('t, 'p) planned \<Rightarrow> string \<Rightarrow> string" where
  "push_file_line s f hash =
     s @ pl_key f @ '' h:'' @ take 12 hash @ concat (map change_text (enumerate 0 (pl_changes f))) @ [LF]"

definition edit_notes :: "edit list \<Rightarrow> bool \<Rightarrow> ('t, 'p) planned list \<Rightarrow> string" where
  "edit_notes edits skipped files =
     (let notes = (if list_ex (\<lambda>e. Some [] \<in> {ed_old e, ed_insert_before e, ed_insert_after e}) edits
                   then [''empty_form_ignored''] else [])
            @ (if skipped then [''identical_edit_skipped''] else [])
            @ (if list_ex (\<lambda>f. pl_admitted f = Unread) files then [''unread''] else [])
            @ (if list_ex (\<lambda>f. pl_admitted f = ChangedSinceRead) files then [''changed_since_read''] else [])
      in if notes = [] then [] else '' note='' @ join '','' notes)"

text \<open>The files as they are now, under the lock; the first that cannot be used is reported.\<close>

fun recheck :: "('t, 'p) edit_env \<Rightarrow> nat \<Rightarrow> ('t, 'p) planned list \<Rightarrow> edit_output option" where
  "recheck env k [] = None"
| "recheck env k (f # files) =
     (case ee_validate env k (pl_target f) of
        Some e \<Rightarrow> Some (EditError (''could not validate write directory: '' @ e))
      | None \<Rightarrow>
          (case read_editable (ee_reopen env k (pl_target f)) of
             Inl e \<Rightarrow> Some (EditError e)
           | Inr now \<Rightarrow>
               if content_hash (ee_sha256 env) (ef_bytes now) \<noteq> pl_before_hash f
               then Some (EditError (''stale_file: '' @ pl_key f @ '' changed since it was read; read it again and retry''))
               else recheck env (k + 1) files))"

text \<open>The loop over the files: the text of the report, what was applied so far, and what was attempted.\<close>

type_synonym ('t, 'p) attempts = "(('t, 'p) planned \<times> 'p fs_action list) list"

fun apply_files :: "('t, 'p) edit_env \<Rightarrow> nat \<Rightarrow> string \<Rightarrow> (string \<times> string) list \<Rightarrow> ('t, 'p) planned list
  \<Rightarrow> (string, string) result \<times> (string \<times> string) list \<times> ('t, 'p) attempts" where
  "apply_files env k s updates [] = (Ok s, updates, [])"
| "apply_files env k s updates (f # files) =
     (case apply_atomically (ee_replace env k (pl_target f)) (pl_text f)
             (Some (ef_bytes (pl_original f), ef_permissions (pl_original f))) (Some (ef_permissions (pl_original f))) of
        (Inl error, acts) \<Rightarrow>
          (Err (''partial_apply: applied=['' @ join '','' (map fst updates) @ ''] failed='' @ pl_key f @ '' ('' @ write_error_text error
             @ ''); the applied files are written, the rest are untouched''), updates, [(f, acts)])
      | (Inr _, acts) \<Rightarrow>
          (let hash = content_hash (ee_sha256 env) (pl_text f);
               (r, updates', attempts) = apply_files env (k + 1) (push_file_line s f hash) (updates @ [(pl_key f, hash)]) files
           in (r, updates', (f, acts) # attempts)))"

definition edit_file :: "('t, 'p) edit_env \<Rightarrow> edit_file_args \<Rightarrow> edit_output \<times> ('t, 'p) attempts \<times> (string \<times> string) list" where
  "edit_file env args =
     (let edits = ea_edits args
      in if edits = [] then (EditRefused ''invalid_edit: edits must not be empty'', [], [])
         else if length edits > MAX_EDITS
         then (EditRefused (''invalid_edit: at most '' @ nat_to_string MAX_EDITS @ '' edits per call''), [], [])
         else case plan_edits env (ea_fuzzy args) ([], False) (enumerate 0 edits) of
           Inl out \<Rightarrow> (out, [], [])
         | Inr (plan, skipped) \<Rightarrow>
         (let files = map snd plan;
              edits_total = sum_list (map (length \<circ> pl_changes) files)
          in if edits_total = 0
             then (EditRefused ''invalid_edit: old and new are identical in every edit; there is nothing to change'', [], [])
             else
             (let tail = '' files='' @ nat_to_string (length plan) @ '' edits='' @ nat_to_string edits_total
                    @ edit_notes edits skipped files @ [LF];
                  diff = foldl (\<lambda>out f. unified_diff out (pl_key f) (ef_bytes (pl_original f)) (pl_text f) MAX_DIFF_BYTES) [] files;
                  first_path = (case plan of [] \<Rightarrow> [] | (k, _) # _ \<Rightarrow> k)
              in if ea_dry_run args
                 then (EditSuccess (foldl (\<lambda>s f. push_file_line s f (content_hash (ee_sha256 env) (pl_text f)))
                         (''edit dry_run'' @ tail) files) [] first_path diff, [], [])
                 else if ee_cancelled env (length edits) then (EditInterrupted ''tool execution was cancelled'', [], [])
                 else case recheck env 0 files of
                        Some out \<Rightarrow> (out, [], [])
                      | None \<Rightarrow>
                          (case apply_files env 0 (''edit ok'' @ tail) [] files of
                             (Inl error, updates, attempts) \<Rightarrow> (EditError error, attempts, updates)
                           | (Inr s, updates, attempts) \<Rightarrow> (EditSuccess s updates first_path diff, attempts, updates)))))"

section \<open>The plan\<close>

text \<open>A file of the plan lies at a path inside the workspace that is not protected.\<close>

definition permitted :: "('t, 'p) edit_env \<Rightarrow> ('t, 'p) planned \<Rightarrow> bool" where
  "permitted env f \<longleftrightarrow>
     (\<exists>index requested path. contained_path (ee_canonicalize env index) requested = Ok path
        \<and> \<not> protected (components requested) \<and> \<not> protected (components path)
        \<and> pl_key f = ee_lossy env path \<and> ee_write_target env index path = Ok (pl_target f))"

definition planned_ok :: "('t, 'p) edit_env \<Rightarrow> ('t, 'p) planned \<Rightarrow> bool" where
  "planned_ok env f \<longleftrightarrow> file_ok f \<and> utf8_valid (ef_bytes (pl_original f)) \<and> permitted env f
     \<and> pl_before_hash f = content_hash (ee_sha256 env) (ef_bytes (pl_original f))
     \<and> (pl_changes f = [] \<longrightarrow> pl_text f = ef_bytes (pl_original f))"

definition plan_ok :: "('t, 'p) edit_env \<Rightarrow> ('t, 'p) plan \<Rightarrow> bool" where
  "plan_ok env plan \<longleftrightarrow> sorted_wrt (<) (map fst plan)
     \<and> (\<forall>(k, f) \<in> set plan. pl_key f = k \<and> planned_ok env f \<and> pl_changes f \<noteq> [] \<and> length (pl_text f) \<le> MAX_EDIT_FILE_BYTES)"

definition edit_valid :: "edit \<Rightarrow> bool" where
  "edit_valid e \<longleftrightarrow>
     (\<forall>s \<in> {ed_old e, ed_new e, ed_insert_before e, ed_insert_after e}. case s of None \<Rightarrow> True | Some t \<Rightarrow> utf8_valid t)"

lemma btree_insert_keys: "set (map fst (btree_insert k v m)) = insert k (set (map fst m))"
  by (induction k v m rule: btree_insert.induct) auto

lemma btree_insert_mem: "x \<in> set (btree_insert k v m) \<Longrightarrow> x = (k, v) \<or> x \<in> set m"
  by (induction k v m rule: btree_insert.induct) (auto split: if_splits)

lemma btree_insert_sorted: "sorted_wrt (<) (map fst m) \<Longrightarrow> sorted_wrt (<) (map fst (btree_insert k v m))"
proof (induction k v m rule: btree_insert.induct)
  case (2 k v k' v' m)
  then show ?case using btree_insert_keys [of k v m] by (auto simp: image_iff)
qed simp

lemma form_of_ok: "edit_form_of e = Ok (Some form) \<Longrightarrow> edit_valid e \<Longrightarrow> form_ok form"
  by (auto simp: edit_form_of_def edit_valid_def form_ok_def nonempty_text_def split: option.splits if_splits)

lemma apply_one_more:
  "apply_one percent late late' f index form replace_all fuzzy = Ok f' \<Longrightarrow> pl_key f' = pl_key f \<and> edited.more f' = edited.more f"
  by (auto simp: apply_one_def replace_every_def replace_one_def insert_at_def Let_def
      split: edit_form.splits if_splits list.splits sum.splits option.splits)

lemma planned_more:
  fixes f f' :: "('t, 'p) planned"
  assumes "edited.more f' = edited.more f"
  shows "pl_target f' = pl_target f" "pl_original f' = pl_original f" "pl_before_hash f' = pl_before_hash f"
    "pl_freshness f' = pl_freshness f"
  using assms by (cases f; cases f'; simp)+

lemma open_planned_ok:
  assumes "open_planned env index e path = Ok f" and "contained_path (ee_canonicalize env index) (ed_path e) = Ok path"
    and "check_write_path capture (ed_path e) path = Ok u"
  shows "planned_ok env f \<and> pl_key f = ee_lossy env path \<and> pl_changes f = []"
proof -
  have "permitted env f"
    using assms unfolding permitted_def
    by (intro exI [of _ index] exI [of _ "ed_path e"] exI [of _ path])
      (auto simp: open_planned_def check_write_path_def Let_def split: if_splits sum.splits)
  then show ?thesis
    using assms(1) by (auto simp: open_planned_def planned_ok_def file_ok_def changes_ok_def Let_def split: if_splits sum.splits)
qed

lemma check_hash_same: "check_hash index path if_hash f = Ok f' \<Longrightarrow> f' = f \<or> f' = f\<lparr>pl_freshness := Proven\<rparr>"
  by (auto simp: check_hash_def split: option.splits if_splits)

lemma admit_same: "admit_unread index path form f = Ok f' \<Longrightarrow> f' = f \<or> f' = f\<lparr>pl_admitted := pl_freshness f\<rparr>"
  by (auto simp: admit_unread_def split: freshness.splits if_splits)

lemma planned_ok_mark [simp]:
  "planned_ok env (f\<lparr>pl_freshness := x\<rparr>) = planned_ok env f" "planned_ok env (f\<lparr>pl_admitted := x\<rparr>) = planned_ok env f"
  by (simp_all add: planned_ok_def permitted_def file_ok_def changes_ok_def)

lemma edit_planned_parts:
  assumes "edit_planned env fuzzy index e if_hash form f = Ok f'"
  obtains f1 f2 where "check_hash index (ed_path e) if_hash f = Ok f1" "admit_unread index (ed_path e) form f1 = Ok f2"
    "apply_one (ee_percent env) (ee_late env index 0) (ee_late env index 1) f2 index form (ed_replace_all e) fuzzy = Ok f'"
    "length (pl_text f') \<le> MAX_EDIT_FILE_BYTES"
  using assms by (auto simp: edit_planned_def split: sum.splits if_splits)

lemma edit_planned_ok:
  assumes "edit_planned env fuzzy index e if_hash form f = Ok f'" "planned_ok env f" "form_ok form"
  shows "planned_ok env f' \<and> pl_key f' = pl_key f \<and> pl_changes f' \<noteq> [] \<and> length (pl_text f') \<le> MAX_EDIT_FILE_BYTES"
  using assms(1)
proof (cases rule: edit_planned_parts)
  case (1 f1 f2)
  have f2: "planned_ok env f2" "pl_key f2 = pl_key f"
    using check_hash_same [OF 1(1)] admit_same [OF 1(2)] assms(2) by auto
  have st: "step_ok form index f2 f'"
    by (rule apply_one_step [OF _ assms(3) 1(3)]) (use f2 in \<open>simp add: planned_ok_def\<close>)
  note m = apply_one_more [OF 1(3)] planned_more [OF conjunct2 [OF apply_one_more [OF 1(3)]]]
  show ?thesis using f2 st m 1(4) by (auto simp: planned_ok_def permitted_def step_ok_def)
qed

lemma plan_edit_parts:
  assumes "plan_edit env fuzzy (plan, skipped) (index, e) = Ok (plan', skipped')"
  obtains "plan' = plan"
  | if_hash form path f f' where "edit_form_of e = Ok (Some form)" "contained_path (ee_canonicalize env index) (ed_path e) = Ok path"
      "check_write_path (ee_capture env index) (ed_path e) path = Ok ()"
      "(case map_of plan (ee_lossy env path) of Some f \<Rightarrow> Ok f | None \<Rightarrow> open_planned env index e path) = Ok f"
      "edit_planned env fuzzy index e if_hash form f = Ok f'" "plan' = btree_insert (ee_lossy env path) f' plan"
  using assms by (auto simp: plan_edit_def Let_def split: sum.splits if_splits option.splits)

lemma plan_edit_ok:
  assumes "plan_edit env fuzzy (plan, skipped) (index, e) = Ok (plan', skipped')" "plan_ok env plan" "edit_valid e"
  shows "plan_ok env plan'"
  using assms(1)
proof (cases rule: plan_edit_parts)
  case (2 if_hash form path f f')
  have f: "planned_ok env f \<and> pl_key f = ee_lossy env path"
    using 2(4) assms(2) open_planned_ok [OF _ 2(2,3), of f]
    by (auto simp: plan_ok_def split: option.splits dest: map_of_SomeD)
  have "planned_ok env f' \<and> pl_key f' = pl_key f \<and> pl_changes f' \<noteq> [] \<and> length (pl_text f') \<le> MAX_EDIT_FILE_BYTES"
    using edit_planned_ok [OF 2(5)] f form_of_ok [OF 2(1) assms(3)] by blast
  then show ?thesis
    using f assms(2) btree_insert_sorted [of plan] unfolding 2(6) plan_ok_def by (auto dest!: btree_insert_mem)
qed (use assms(2) in simp)

lemma plan_edits_ok:
  "plan_edits env fuzzy st es = Ok st' \<Longrightarrow> plan_ok env (fst st) \<Longrightarrow> \<forall>(_, e) \<in> set es. edit_valid e \<Longrightarrow> plan_ok env (fst st')"
proof (induction es arbitrary: st)
  case (Cons entry es)
  obtain st1 where st1: "plan_edit env fuzzy st entry = Ok st1" "plan_edits env fuzzy st1 es = Ok st'"
    using Cons.prems(1) by (auto split: sum.splits)
  have "plan_ok env (fst st1)"
    using plan_edit_ok [of env fuzzy "fst st" "snd st" "fst entry" "snd entry" "fst st1" "snd st1"] st1(1) Cons.prems(2,3)
    by (simp add: case_prod_beta)
  then show ?case using Cons.IH [OF st1(2)] Cons.prems(3) by simp
qed simp

section \<open>Files that were not read\<close>

lemma once_iff:
  assumes "utf8_valid s" "utf8_valid old" "old \<noteq> []"
  shows "once s old \<longleftrightarrow> (\<exists>at. \<forall>i. occurs s old i \<longleftrightarrow> i = at)"
proof -
  have "exact_take s old 2 0 = [at] \<longleftrightarrow> (\<forall>i. occurs s old i \<longleftrightarrow> i = at)" for at
    using exact_take_spec(2) [OF assms, of 0 0 at] by (simp add: is_char_boundary_def numeral_eq_Suc)
  then show ?thesis unfolding once_def by (auto simp: length_Suc_conv)
qed

lemma admit_unique: "admit_unread index path form f = Ok f' \<Longrightarrow> pl_freshness f \<noteq> Proven \<Longrightarrow>
  unique_exact f form \<and> f' = f\<lparr>pl_admitted := pl_freshness f\<rparr>"
  by (auto simp: admit_unread_def split: freshness.splits if_splits)

text \<open>The change of an edit to a file whose content was not proven known.\<close>

definition exact_edit :: "edit \<Rightarrow> ('t, 'p) planned \<Rightarrow> ('t, 'p) planned \<Rightarrow> bool" where
  "exact_edit e f f' \<longleftrightarrow>
     (\<exists>old new at. edit_form_of e = Ok (Some (Replace old new)) \<and> (\<forall>i. occurs (pl_text f) old i \<longleftrightarrow> i = at)
        \<and> (\<exists>j. \<forall>i. occurs (ef_bytes (pl_original f)) old i \<longleftrightarrow> i = j)
        \<and> pl_text f' = take at (pl_text f) @ new @ drop (at + length old) (pl_text f)
        \<and> pl_original f' = pl_original f)"

lemma edit_planned_unique:
  assumes "edit_planned env fuzzy index e if_hash form f = Ok f'" "planned_ok env f" "edit_form_of e = Ok (Some form)"
    and "form_ok form" "pl_freshness f' \<noteq> Proven"
  shows "exact_edit e f f'"
  using assms(1)
proof (cases rule: edit_planned_parts)
  case (1 f1 f2)
  note more = planned_more [OF conjunct2 [OF apply_one_more [OF 1(3)]]]
  have "pl_freshness f1 \<noteq> Proven" using admit_same [OF 1(2)] more(4) assms(5) by auto
  then have f1: "f1 = f" using check_hash_same [OF 1(1)] by auto
  have u: "unique_exact f form" "f2 = f\<lparr>pl_admitted := pl_freshness f\<rparr>"
    using admit_unique [OF 1(2) \<open>pl_freshness f1 \<noteq> Proven\<close>] by (simp_all add: f1)
  then obtain old new where form: "form = Replace old new" and once: "once (pl_text f) old"
    "pl_changes f = [] \<or> once (ef_bytes (pl_original f)) old"
    by (auto simp: unique_exact_def split: edit_form.splits)
  have v: "utf8_valid (pl_text f)" "utf8_valid (ef_bytes (pl_original f))" "utf8_valid old" "old \<noteq> []"
    and same: "pl_changes f = [] \<Longrightarrow> pl_text f = ef_bytes (pl_original f)"
    using assms(2,4) by (simp_all add: planned_ok_def file_ok_def form_ok_def form)
  obtain at where at: "\<forall>i. occurs (pl_text f) old i \<longleftrightarrow> i = at" using once_iff [OF v(1,3,4)] once(1) by blast
  have "\<exists>j. \<forall>i. occurs (ef_bytes (pl_original f)) old i \<longleftrightarrow> i = j"
    using once(2) once_iff [OF v(2,3,4)] same at by auto
  moreover have "pl_text f' = take at (pl_text f) @ new @ drop (at + length old) (pl_text f)"
    using apply_one_unique [of f2 old new at] 1(3) v(1) at assms(4) by (simp add: form u(2))
  moreover have "edit_form_of e = Ok (Some (Replace old new))" "pl_original f' = pl_original f"
    using assms(3) more(2) by (simp_all add: form u(2))
  ultimately show ?thesis
    unfolding exact_edit_def using at by metis
qed


section \<open>Applying the plan keeps to it\<close>

definition replaced :: "'p fs_action list \<Rightarrow> bool" where
  "replaced acts \<longleftrightarrow> RenameTemp \<in> set acts"

text \<open>The k-th replacement: it goes through only if the destination was last seen as the file the plan was made
  from, and then it puts the planned text there under the old permissions; otherwise it leaves no temporary file.\<close>

definition attempt_ok :: "('t, 'p) edit_env \<Rightarrow> nat \<Rightarrow> ('t, 'p) planned \<times> 'p fs_action list \<Rightarrow> bool" where
  "attempt_ok env k attempt \<longleftrightarrow>
     (let (f, acts) = attempt; p = ef_permissions (pl_original f)
      in if replaced acts
         then acts = [CreateTemp, WriteTemp (pl_text f), SetPermissions p, SyncTemp, RenameTemp]
           \<and> found_as (ee_replace env k (pl_target f)) (ef_bytes (pl_original f)) p
         else acts = [] \<or> hd acts = CreateTemp \<and> last acts = RemoveTemp)"

definition reread_ok :: "('t, 'p) edit_env \<Rightarrow> nat \<Rightarrow> ('t, 'p) planned \<Rightarrow> bool" where
  "reread_ok env k f \<longleftrightarrow>
     ee_validate env k (pl_target f) = None
     \<and> (\<exists>now. read_editable (ee_reopen env k (pl_target f)) = Ok now
          \<and> content_hash (ee_sha256 env) (ef_bytes now) = content_hash (ee_sha256 env) (ef_bytes (pl_original f)))"

lemma recheck_None:
  "recheck env k files = None \<Longrightarrow> \<forall>f \<in> set files. planned_ok env f \<Longrightarrow> j < length files \<Longrightarrow> reread_ok env (k + j) (files ! j)"
proof (induction files arbitrary: k j)
  case (Cons f files)
  then have "reread_ok env k f" "recheck env (k + 1) files = None"
    by (auto simp: reread_ok_def planned_ok_def split: option.splits sum.splits if_splits)
  then show ?case using Cons.IH [of "k + 1" "j - 1"] Cons.prems(2,3) by (cases j) simp_all
qed simp

definition update_of :: "('t, 'p) edit_env \<Rightarrow> ('t, 'p) planned \<times> 'p fs_action list \<Rightarrow> string \<times> string" where
  "update_of env attempt = (pl_key (fst attempt), content_hash (ee_sha256 env) (pl_text (fst attempt)))"

lemma apply_files_spec:
  "apply_files env k s updates files = (r, updates', attempts) \<Longrightarrow>
     map fst attempts = take (length attempts) files
     \<and> updates' = updates @ map (update_of env) (filter (replaced \<circ> snd) attempts)
     \<and> (\<forall>j < length attempts. attempt_ok env (k + j) (attempts ! j) \<and> (replaced (snd (attempts ! j)) \<or> Suc j = length attempts \<and> isl r))
     \<and> (\<not> isl r \<longrightarrow> length attempts = length files)"
proof (induction files arbitrary: k s updates updates' attempts)
  case (Cons f files)
  let ?p = "ef_permissions (pl_original f)"
  obtain res acts where res: "apply_atomically (ee_replace env k (pl_target f)) (pl_text f)
      (Some (ef_bytes (pl_original f), ?p)) (Some ?p) = (res, acts)" by fastforce
  show ?case
  proof (cases res)
    case (Inl e)
    then have at: "attempts = [(f, acts)]" "updates' = updates" "isl r" using Cons.prems res by auto
    have "\<not> replaced acts \<and> (acts = [] \<or> hd acts = CreateTemp \<and> last acts = RemoveTemp)"
      using apply_atomically_Err [of "ee_replace env k (pl_target f)"] res Inl by (simp add: replaced_def)
    then show ?thesis using at by (simp add: attempt_ok_def)
  next
    case (Inr u)
    let ?hash = "content_hash (ee_sha256 env) (pl_text f)"
    obtain rest where rest: "apply_files env (k + 1) (push_file_line s f ?hash) (updates @ [(pl_key f, ?hash)]) files = (r, updates', rest)"
      and at: "attempts = (f, acts) # rest"
      using Cons.prems res Inr by (auto simp: Let_def split: prod.splits)
    have one: "attempt_ok env k (f, acts)" "replaced acts"
      using apply_atomically_Ok [OF res [unfolded Inr unit_eq [of u]]] by (simp_all add: attempt_ok_def replaced_def)
    note IH = Cons.IH [OF rest]
    have "attempt_ok env (k + j) (attempts ! j) \<and> (replaced (snd (attempts ! j)) \<or> Suc j = length attempts \<and> isl r)"
      if "j < length attempts" for j
      using that IH one by (cases j) (simp_all add: at)
    then show ?thesis using IH one(2) by (simp add: at update_of_def)
  qed
qed simp

lemma edit_file_cases:
  assumes "edit_file env args = (out, attempts, records)" and "attempts \<noteq> [] \<or> records \<noteq> []"
  obtains plan skipped s first_path diff r where "\<not> ea_dry_run args"
    "plan_edits env (ea_fuzzy args) ([], False) (enumerate 0 (ea_edits args)) = Ok (plan, skipped)"
    "recheck env 0 (map snd plan) = None" "apply_files env 0 s [] (map snd plan) = (r, records, attempts)"
    "out = (case r of Inl e \<Rightarrow> EditError e | Inr t \<Rightarrow> EditSuccess t records first_path diff)"
  using assms
  by (auto simp: edit_file_def Let_def split: if_splits sum.splits prod.splits option.splits)

text \<open>C23 (safety). A call of the tool replaces files only if it is no dry run, every edit of the batch could be
  planned and every file of the plan, read again under the lock, still has the content the plan was made from. The
  files are then replaced in the order of their paths, and only files at paths inside the workspace that are not
  protected. A replacement puts the planned text there, valid and at most 4 MiB long, under the old permissions,
  after the destination was seen unchanged; one that fails leaves no temporary file, ends the call
  with an error and leaves the later files alone. Exactly the replaced files are recorded as read, with the hash of
  the text they got, and a success reports all files of the plan.\<close>

theorem edit_file_safe:
  assumes "\<forall>e \<in> set (ea_edits args). edit_valid e" and "edit_file env args = (out, attempts, records)"
  shows "records = map (update_of env) (filter (replaced \<circ> snd) attempts)
    \<and> (attempts \<noteq> [] \<longrightarrow> \<not> ea_dry_run args
         \<and> (\<exists>plan skipped. plan_edits env (ea_fuzzy args) ([], False) (enumerate 0 (ea_edits args)) = Ok (plan, skipped)
              \<and> sorted_wrt (<) (map fst plan) \<and> map (pl_key \<circ> snd) plan = map fst plan
              \<and> (\<forall>k < length plan. reread_ok env k (snd (plan ! k)))
              \<and> map fst attempts = take (length attempts) (map snd plan)
              \<and> ((\<exists>s first_path diff. out = EditSuccess s records first_path diff \<and> length attempts = length plan)
                 \<or> (\<exists>e. out = EditError e))))
    \<and> (\<forall>k < length attempts. let (f, acts) = attempts ! k in
         attempt_ok env k (f, acts) \<and> permitted env f \<and> utf8_valid (pl_text f) \<and> length (pl_text f) \<le> MAX_EDIT_FILE_BYTES
         \<and> (replaced acts \<or> Suc k = length attempts \<and> (\<exists>e. out = EditError e)))"
proof (cases "attempts = [] \<and> records = []")
  case False
  then have "attempts \<noteq> [] \<or> records \<noteq> []" by simp
  with assms(2) show ?thesis
  proof (cases rule: edit_file_cases)
    case (1 plan skipped s first_path diff r)
    note spec = apply_files_spec [OF 1(4)]
    have ok: "plan_ok env plan"
      using plan_edits_ok [OF 1(2)] assms(1) by (force simp: plan_ok_def in_set_enumerate_eq)
    then have files: "planned_ok env f \<and> length (pl_text f) \<le> MAX_EDIT_FILE_BYTES" if "f \<in> set (map snd plan)" for f
      using that by (auto simp: plan_ok_def)
    have "fst (attempts ! k) \<in> set (map snd plan)" if "k < length attempts" for k
    proof -
      have "fst (attempts ! k) = map snd plan ! k" "k < length (map snd plan)"
        using spec that by (metis length_map nth_map nth_take, metis length_map length_take min_less_iff_conj)
      then show ?thesis by (metis nth_mem)
    qed
    then have at: "permitted env (fst (attempts ! k)) \<and> utf8_valid (pl_text (fst (attempts ! k)))
        \<and> length (pl_text (fst (attempts ! k))) \<le> MAX_EDIT_FILE_BYTES" if "k < length attempts" for k
      using that files by (simp add: planned_ok_def file_ok_def)
    have reread: "reread_ok env k (snd (plan ! k))" if "k < length plan" for k
      using recheck_None [OF 1(3), of k] files that by simp
    have keys: "sorted_wrt (<) (map fst plan)" "map (pl_key \<circ> snd) plan = map fst plan" using ok by (auto simp: plan_ok_def)
    have out: "(\<exists>s first_path diff. out = EditSuccess s records first_path diff \<and> length attempts = length plan) \<or> (\<exists>e. out = EditError e)"
      "isl r \<Longrightarrow> \<exists>e. out = EditError e"
      using 1(5) spec by (auto split: sum.splits)
    show ?thesis
      using spec at reread keys out 1(1,2) by (auto simp: case_prod_beta)
  qed
qed simp

section \<open>Example\<close>

text \<open>A workspace with one file, which was not read, and a system that does what it is asked.\<close>

definition example_open :: "unit open_answer" where
  "example_open = \<lparr>oa_open = None, oa_metadata = Ok \<lparr>md_is_file = True, md_permissions = (), md_len = 3\<rparr>, oa_content = Ok ''aba''\<rparr>"

definition example_replace :: "unit replace_answers" where
  "example_replace = \<lparr>ra_validate = \<lambda>_. None, ra_create = None, ra_write = None, ra_set_permissions = None, ra_sync = None,
     ra_metadata = Ok \<lparr>md_is_file = True, md_permissions = (), md_len = 3\<rparr>, ra_open = None, ra_open_metadata = Ok True,
     ra_reads = [Ok ''ab'', Ok ''a''], ra_rename = None\<rparr>"

definition example_env :: "(unit, unit) edit_env" where
  "example_env = \<lparr>ee_sha256 = \<lambda>_. [], ee_lossy = \<lambda>p. p, ee_percent = \<lambda>_. 0, ee_late = \<lambda>_ _ _. False, ee_cancelled = \<lambda>_. False,
     ee_recorded = \<lambda>_. None, ee_canonicalize = \<lambda>_. Ok, ee_capture = \<lambda>_. None, ee_write_target = \<lambda>_ _. Ok (),
     ee_open = \<lambda>_ _. example_open, ee_validate = \<lambda>_ _. None, ee_reopen = \<lambda>_ _. example_open, ee_replace = \<lambda>_ _. example_replace\<rparr>"

definition example_edit :: edit where
  "example_edit = \<lparr>ed_path = ''f'', ed_old = Some ''b'', ed_new = Some ''cd'', ed_insert_before = None, ed_insert_after = None,
     ed_replace_all = False, ed_if_hash = None\<rparr>"

definition example_args :: edit_file_args where
  "example_args = \<lparr>ea_edits = [example_edit], ea_fuzzy = True, ea_dry_run = False\<rparr>"

definition example_planned :: "(unit, unit) planned" where
  "example_planned =
     \<lparr>pl_key = ''f'', pl_text = ''acda'',
      pl_changes = [\<lparr>ch_line = 1, ch_removed = 1, ch_added = 1, ch_via = Exact, ch_count = 1, ch_index = 0, ch_wrote = [(1, 3)]\<rparr>],
      pl_target = (), pl_original = \<lparr>ef_bytes = ''aba'', ef_permissions = ()\<rparr>, pl_before_hash = [], pl_freshness = Unread,
      pl_admitted = Unread\<rparr>"

lemma example_read: "read_editable example_open = Ok \<lparr>ef_bytes = ''aba'', ef_permissions = ()\<rparr>"
  by (simp add: read_editable_def example_open_def read_bounded_def MAX_EDIT_FILE_BYTES_def sat_add_def u64_max_def Let_def)

lemma example_form: "edit_form_of example_edit = Ok (Some (Replace ''b'' ''cd''))"
  by (simp add: edit_form_of_def example_edit_def nonempty_text_def)

lemma example_path: "contained_path Ok ''f'' = Ok ''f''" "check_write_path None ''f'' ''f'' = Ok ()" "file_name ''f'' = Some ''f''"
  by (simp_all add: contained_path_def check_write_path_def file_name_def components_def part_component_def is_absolute_def
      starts_with_def split_char_def eq_ignore_ascii_case_def to_ascii_lowercase_def Let_def)

lemma example_find:
  "find_match (\<lambda>_. False) (\<lambda>_. False) ''aba'' ''b'' ''cd'' True = Ok \<lparr>mt_start = 1, mt_end = 2, mt_replacement = ''cd'', mt_via = Exact\<rparr>"
  "once ''aba'' ''b''" "utf8_valid ''aba''"
proof -
  show "find_match (\<lambda>_. False) (\<lambda>_. False) ''aba'' ''b'' ''cd'' True = Ok \<lparr>mt_start = 1, mt_end = 2, mt_replacement = ''cd'', mt_via = Exact\<rparr>"
    "once ''aba'' ''b''"
    by (simp_all add: find_match_def find_in_def exact_next_def starts_with_def is_char_boundary_def cont_def utf8_len_def is_ascii_def
        numeral_eq_Suc crlf_replacement_def once_def)
  show "utf8_valid ''aba''" by (rule ascii_valid) (simp add: is_ascii_def)
qed

lemma example_plan: "plan_edit example_env True ([], False) (0, example_edit) = Ok ([(''f'', example_planned)], False)"
proof -
  have e: "ed_path example_edit = ''f''" "ed_if_hash example_edit = None" "ed_replace_all example_edit = False"
    by (simp_all add: example_edit_def)
  show ?thesis
    by (simp add: plan_edit_def e example_form example_path example_read example_find example_env_def short_hash_def open_planned_def
        recorded_hash_def content_hash_def write_id_def edit_planned_def check_hash_def admit_unread_def unique_exact_def apply_one_def
        replace_one_def conflict_check_def shift_written_def line_of_def sub_text_def str_lines_def chomp_def strip_suffix_def
        example_planned_def MAX_EDIT_FILE_BYTES_def Let_def)
qed

lemma example_valid: "edit_valid example_edit"
  by (simp add: edit_valid_def example_edit_def ascii_valid is_ascii_def)

lemma example_replaced:
  "apply_atomically example_replace ''acda'' (Some (''aba'', ())) (Some ()) =
     (Ok (), [CreateTemp, WriteTemp ''acda'', SetPermissions (), SyncTemp, RenameTemp])"
  by (simp add: apply_atomically_def write_temp_def rename_checked_def matches_expected_def example_replace_def)

lemma example_run: "snd (edit_file example_env example_args) =
  ([(example_planned, [CreateTemp, WriteTemp ''acda'', SetPermissions (), SyncTemp, RenameTemp])], [(''f'', [])])"
proof -
  have plan: "plan_edits example_env True ([], False) (enumerate 0 [example_edit]) = Ok ([(''f'', example_planned)], False)"
    by (simp add: example_plan)
  have re: "recheck example_env 0 [example_planned] = None"
    by (simp add: example_env_def example_read content_hash_def write_id_def example_planned_def)
  have ap: "apply_files example_env 0 t [] [example_planned] =
      (Ok (push_file_line t example_planned []), [(''f'', [])], [(example_planned, [CreateTemp, WriteTemp ''acda'', SetPermissions (), SyncTemp, RenameTemp])])" for t
    using example_replaced by (simp add: example_env_def content_hash_def write_id_def example_planned_def)
  have "ee_cancelled example_env k = False" "pl_changes example_planned \<noteq> []" for k
    by (simp_all add: example_env_def example_planned_def)
  then show ?thesis
    using plan re by (simp add: edit_file_def example_args_def MAX_EDITS_def ap Let_def del: apply_files.simps recheck.simps plan_edits.simps enumerate_simps)
qed


theorem edit_file_safe_witness:
  "\<exists>out attempts. edit_file example_env example_args = (out, attempts, [(''f'', [])])
    \<and> map fst attempts = [example_planned] \<and> permitted example_env example_planned"
proof -
  obtain out where run: "edit_file example_env example_args =
      (out, [(example_planned, [CreateTemp, WriteTemp ''acda'', SetPermissions (), SyncTemp, RenameTemp])], [(''f'', [])])"
    using example_run by (metis prod.collapse)
  have "permitted example_env example_planned"
    using edit_file_safe [OF _ run] by (simp add: example_args_def example_valid)
  then show ?thesis using run by auto
qed

end
