(* ===== verification/Text_Search.thy ===== *)
theory Text_Search
  imports Matching
begin

text \<open>
  The search for a text without regard to case (\<^verbatim>\<open>find_case_insensitive\<close> and \<^verbatim>\<open>excerpt_around\<close> of
  \<^verbatim>\<open>runtime/history.rs\<close>): the algorithm of Knuth, Morris and Pratt over the lower-case forms of the characters, which
  may be several per character, with the offsets of the original text. The lower-case form of a character
  (\<open>char::to_lowercase\<close>) is a parameter.
\<close>

section \<open>The table of fallbacks\<close>

text \<open>The inner loop: from a matched prefix to its shorter ones until one can be extended. It runs at most
  as often as the prefix is long (\<open>descend_spec\<close>).\<close>

fun descend :: "nat \<Rightarrow> 'a list \<Rightarrow> nat list \<Rightarrow> 'a \<Rightarrow> nat \<Rightarrow> nat" where
  "descend 0 p fb v k = k"
| "descend (Suc n) p fb v k = (if k > 0 \<and> v \<noteq> p ! k then descend n p fb v (fb ! (k - 1)) else k)"

definition extend_match :: "'a list \<Rightarrow> nat list \<Rightarrow> 'a \<Rightarrow> nat \<Rightarrow> nat" where
  "extend_match p fb v k = (let k' = descend k p fb v k in if v = p ! k' then k' + 1 else k')"

definition fallback_table :: "'a list \<Rightarrow> nat list" where
  "fallback_table p =
     foldl (\<lambda>fb index. fb[index := extend_match p fb (p ! index) (fb ! (index - 1))]) (replicate (length p) 0) [1..<length p]"

section \<open>The scan\<close>

text \<open>The values of one character: the window of the last values with their offsets, and the length of the
  prefix they end in.\<close>

type_synonym scan_state = "(nat \<times> bool) list \<times> nat"

fun scan_char :: "'a list \<Rightarrow> nat list \<Rightarrow> nat \<Rightarrow> nat \<Rightarrow> bool \<Rightarrow> 'a list \<Rightarrow> scan_state \<Rightarrow> (nat \<times> nat, scan_state) result" where
  "scan_char p fb index stop first [] st = Inr st"
| "scan_char p fb index stop first (v # vs) st =
     (let (recent, matched) = st;
          recent' = (if length recent = length p then tl recent else recent) @ [(index, first)];
          matched' = extend_match p fb v matched
      in if matched' = length p
         then (if snd (hd recent') \<and> vs = [] then Inl (fst (hd recent'), stop)
               else scan_char p fb index stop False vs (recent', fb ! (matched' - 1)))
         else scan_char p fb index stop False vs (recent', matched'))"

fun scan_text :: "(string \<Rightarrow> string list) \<Rightarrow> string list \<Rightarrow> nat list \<Rightarrow> nat \<Rightarrow> string list \<Rightarrow> scan_state \<Rightarrow> (nat \<times> nat) option" where
  "scan_text lower p fb index [] st = None"
| "scan_text lower p fb index (c # cs) st =
     (case scan_char p fb index (index + length c) True (lower c) st of
        Inl r \<Rightarrow> Some r
      | Inr st' \<Rightarrow> scan_text lower p fb (index + length c) cs st')"

definition find_case_insensitive :: "(string \<Rightarrow> string list) \<Rightarrow> string \<Rightarrow> string \<Rightarrow> (nat \<times> nat) option" where
  "find_case_insensitive lower haystack needle =
     (if needle = [] then Some (0, 0)
      else if list_all is_ascii haystack
      then map_option (\<lambda>at. (at, at + length needle)) (find_sub (to_ascii_lowercase haystack) needle)
      else (let p = str_chars needle in scan_text lower p (fallback_table p) 0 (str_chars haystack) ([], 0)))"

section \<open>Excerpts\<close>

definition HISTORY_EXCERPT_BYTES :: nat where "HISTORY_EXCERPT_BYTES = 240"

fun align_down :: "string \<Rightarrow> nat \<Rightarrow> nat" where
  "align_down s 0 = 0"
| "align_down s (Suc i) = (if is_char_boundary s (Suc i) then Suc i else align_down s i)"

function align_up :: "string \<Rightarrow> nat \<Rightarrow> nat" where
  "align_up s i = (if i < length s \<and> \<not> is_char_boundary s i then align_up s (i + 1) else i)"
  by pat_completeness auto
termination by (relation "measure (\<lambda>(s, i). length s - i)") auto

declare align_up.simps [simp del]

abbreviation ellipsis :: string where "ellipsis \<equiv> [CHR 0xE2, CHR 0x80, CHR 0xA6]"

text \<open>\<open>None\<close> inside stands for a slice that panics.\<close>

definition excerpt_around :: "(string \<Rightarrow> string list) \<Rightarrow> string \<Rightarrow> string \<Rightarrow> string option option" where
  "excerpt_around lower haystack needle =
     (case find_case_insensitive lower haystack needle of
        None \<Rightarrow> Some None
      | Some (at, match_end) \<Rightarrow>
          (let half = HISTORY_EXCERPT_BYTES div 2;
               start = align_down haystack (at - half);
               stop = align_up haystack (min (match_end + half) (length haystack))
           in case str_slice haystack start stop of
                None \<Rightarrow> None
              | Some body \<Rightarrow>
                  Some (Some ((if start > 0 then ellipsis else []) @ trim body
                    @ (if stop < length haystack then ellipsis else [])))))"

section \<open>Prefixes that end a text\<close>

text \<open>\<open>k\<close> is the length of the longest prefix of \<open>p\<close>, of at most \<open>m\<close> elements, that ends \<open>w\<close>.\<close>

definition is_longest :: "'a list \<Rightarrow> nat \<Rightarrow> 'a list \<Rightarrow> nat \<Rightarrow> bool" where
  "is_longest p m w k \<longleftrightarrow> k \<le> m \<and> suffix (take k p) w \<and> (\<forall>j \<le> m. suffix (take j p) w \<longrightarrow> j \<le> k)"

definition fallback_ok :: "'a list \<Rightarrow> nat list \<Rightarrow> nat \<Rightarrow> bool" where
  "fallback_ok p fb n \<longleftrightarrow> (\<forall>i < n. is_longest p i (take (Suc i) p) (fb ! i))"

lemma suffix_take_Suc: "k < length p \<Longrightarrow> suffix (take (Suc k) p) (w @ [v]) \<longleftrightarrow> suffix (take k p) w \<and> p ! k = v"
  by (auto simp: take_Suc_conv_app_nth)

lemma suffix_take_below:
  assumes "suffix (take k p) w" "j \<le> k" "k \<le> length p"
  shows "suffix (take j p) w \<longleftrightarrow> suffix (take j p) (take k p)"
  using assms suffix_length_suffix [of "take j p" w "take k p"] suffix_order.trans by auto

lemma fallback_at:
  assumes "fallback_ok p fb n" "0 < k" "k \<le> n"
  shows "is_longest p (k - 1) (take k p) (fb ! (k - 1))"
  using assms by (cases k) (simp_all add: fallback_ok_def)

lemma descend_spec:
  assumes "fallback_ok p fb k" "k < length p" "k \<le> n" "suffix (take k p) w"
    and "\<forall>j \<le> m. suffix (take j p) w \<and> p ! j = v \<longrightarrow> j \<le> k" and "r = descend n p fb v k"
  shows "r \<le> k \<and> suffix (take r p) w \<and> (r = 0 \<or> p ! r = v) \<and> (\<forall>j \<le> m. suffix (take j p) w \<and> p ! j = v \<longrightarrow> j \<le> r)"
  using assms
proof (induction n arbitrary: k r)
  case (Suc n)
  show ?case
  proof (cases "k > 0 \<and> v \<noteq> p ! k")
    case True
    define k' where "k' = fb ! (k - 1)"
    have l: "is_longest p (k - 1) (take k p) k'"
      using fallback_at [OF Suc.prems(1)] True by (simp add: k'_def)
    then have k': "k' \<le> k - 1" "suffix (take k' p) (take k p)" by (simp_all add: is_longest_def)
    have w: "suffix (take k' p) w" using k'(2) Suc.prems(4) suffix_order.trans by blast
    have c: "j \<le> k'" if "j \<le> m" "suffix (take j p) w" "p ! j = v" for j
    proof -
      have "j \<le> k" "j \<noteq> k" using Suc.prems(5) that True by auto
      then have "j \<le> k - 1" "suffix (take j p) (take k p)"
        using suffix_take_below [OF Suc.prems(4), of j] that Suc.prems(2) by simp_all
      then show ?thesis using l by (simp add: is_longest_def)
    qed
    have fb: "fallback_ok p fb k'" using Suc.prems(1) k'(1) True by (simp add: fallback_ok_def)
    have "r = descend n p fb v k'" using Suc.prems(6) True by (simp add: k'_def)
    then have "r \<le> k' \<and> suffix (take r p) w \<and> (r = 0 \<or> p ! r = v) \<and> (\<forall>j \<le> m. suffix (take j p) w \<and> p ! j = v \<longrightarrow> j \<le> r)"
      using Suc.IH [OF fb _ _ w] k'(1) True Suc.prems(2,3) c by simp
    then show ?thesis using k'(1) by auto
  qed (use Suc.prems in auto)
qed simp

lemma extend_longest:
  assumes "is_longest p m w k" "m < length p" "fallback_ok p fb k"
  shows "is_longest p (Suc m) (w @ [v]) (extend_match p fb v k)"
proof -
  have k: "k \<le> m" "suffix (take k p) w" "\<forall>j \<le> m. suffix (take j p) w \<longrightarrow> j \<le> k"
    using assms(1) by (simp_all add: is_longest_def)
  define r where "r = descend k p fb v k"
  have ext: "extend_match p fb v k = (if v = p ! r then Suc r else r)" by (simp add: extend_match_def r_def Let_def)
  have r: "r \<le> k" "suffix (take r p) w" "r = 0 \<or> p ! r = v" "\<forall>j \<le> m. suffix (take j p) w \<and> p ! j = v \<longrightarrow> j \<le> r"
    using descend_spec [OF assms(3) _ order.refl k(2) _ r_def, of m] k assms(2) by auto
  have cand: "\<exists>i. j = Suc i \<and> i \<le> r \<and> p ! i = v" if "j \<le> Suc m" "suffix (take j p) (w @ [v])" "j \<noteq> 0" for j
  proof (cases j)
    case (Suc i)
    then show ?thesis using that(1,2) suffix_take_Suc [of i p w v] r(4) assms(2) by auto
  qed (use that(3) in simp)
  show ?thesis
  proof (cases "v = p ! r")
    case True
    then have "suffix (take (Suc r) p) (w @ [v])" using suffix_take_Suc [of r p w v] r k assms(2) by simp
    moreover have "\<forall>j \<le> Suc m. suffix (take j p) (w @ [v]) \<longrightarrow> j \<le> Suc r"
    proof (intro allI impI)
      fix j assume "j \<le> Suc m" "suffix (take j p) (w @ [v])"
      then show "j \<le> Suc r" using cand [of j] by (cases "j = 0") auto
    qed
    moreover have "extend_match p fb v k = Suc r" "Suc r \<le> Suc m" using True ext r(1) k(1) by simp_all
    ultimately show ?thesis unfolding is_longest_def by metis
  next
    case False
    then have "r = 0" using r(3) by simp
    then show ?thesis using False cand by (auto simp: is_longest_def ext)
  qed
qed

lemma fallback_table_ok: "length (fallback_table p) = length p \<and> fallback_ok p (fallback_table p) (length p)"
proof -
  define build where "build n = foldl (\<lambda>fb index. fb[index := extend_match p fb (p ! index) (fb ! (index - 1))])
    (replicate (length p) 0) [1..<n]" for n
  have "length (build n) = length p \<and> fallback_ok p (build n) n" if "n \<le> length p" for n
    using that
  proof (induction n)
    case (Suc n)
    show ?case
    proof (cases "n = 0")
      case True
      then show ?thesis
        using Suc.prems by (cases p) (simp_all add: build_def fallback_ok_def is_longest_def)
    next
      case False
      have IH: "length (build n) = length p" "fallback_ok p (build n) n" using Suc by simp_all
      have b: "build (Suc n) = (build n)[n := extend_match p (build n) (p ! n) (build n ! (n - 1))]"
        using False by (simp add: build_def)
      have l: "is_longest p (n - 1) (take n p) (build n ! (n - 1))"
        using fallback_at [OF IH(2)] False by simp
      then have "build n ! (n - 1) \<le> n - 1" by (simp add: is_longest_def)
      then have "fallback_ok p (build n) (build n ! (n - 1))" using IH(2) False by (simp add: fallback_ok_def)
      from extend_longest [OF l _ this, of "p ! n"] have "is_longest p n (take (Suc n) p) (build (Suc n) ! n)"
        using Suc.prems False IH(1) by (simp add: b take_Suc_conv_app_nth)
      then show ?thesis using IH by (auto simp: b fallback_ok_def less_Suc_eq)
    qed
  qed (simp add: build_def fallback_ok_def)
  then show ?thesis by (simp add: fallback_table_def build_def)
qed

section \<open>The scan of one character\<close>

text \<open>The values of a text, each with the offset of its character and whether it is its first.\<close>

fun entries :: "nat \<Rightarrow> bool \<Rightarrow> 'a list \<Rightarrow> (nat \<times> bool \<times> 'a) list" where
  "entries index first [] = []"
| "entries index first (v # vs) = (index, first, v) # entries index False vs"

abbreviation vals :: "(nat \<times> bool \<times> 'a) list \<Rightarrow> 'a list" where
  "vals w \<equiv> map (\<lambda>x. snd (snd x)) w"

definition scan_ok :: "'a list \<Rightarrow> (nat \<times> bool \<times> 'a) list \<Rightarrow> scan_state \<Rightarrow> bool" where
  "scan_ok p w st \<longleftrightarrow> fst st = map (\<lambda>x. (fst x, fst (snd x))) (drop (length w - length p) w)
     \<and> is_longest p (length p - 1) (vals w) (snd st)"

definition window_hit :: "'a list \<Rightarrow> (nat \<times> bool \<times> 'a) list \<Rightarrow> bool" where
  "window_hit p w \<longleftrightarrow> suffix p (vals w) \<and> fst (snd (w ! (length w - length p)))"

lemma longest_full:
  assumes "is_longest p (length p) w k"
  shows "k = length p \<longleftrightarrow> suffix p w" and "k \<noteq> length p \<Longrightarrow> is_longest p (length p - 1) w k"
proof -
  have k: "k \<le> length p" "suffix (take k p) w" "\<And>j. j \<le> length p \<Longrightarrow> suffix (take j p) w \<Longrightarrow> j \<le> k"
    using assms by (simp_all add: is_longest_def)
  show "k = length p \<longleftrightarrow> suffix p w"
  proof
    show "suffix p w" if "k = length p" using k(2) that by simp
    show "k = length p" if "suffix p w" using k(3) [of "length p"] k(1) that by simp
  qed
  show "is_longest p (length p - 1) w k" if "k \<noteq> length p"
    unfolding is_longest_def using k that by simp
qed

lemma longest_reset:
  assumes "p \<noteq> []" "suffix p w" "is_longest p (length p - 1) p k"
  shows "is_longest p (length p - 1) w k"
proof -
  have "suffix (take j p) w \<longleftrightarrow> suffix (take j p) p" if "j \<le> length p - 1" for j
    using suffix_take_below [of "length p" p w j] assms(2) that by simp
  then show ?thesis using assms(3) by (simp add: is_longest_def)
qed

lemma scan_step:
  assumes p: "p \<noteq> []" and ok: "scan_ok p w (recent, matched)" and fb: "fb = fallback_table p" and w': "w' = w @ [(i, f, v)]"
    and r': "recent' = (if length recent = length p then tl recent else recent) @ [(i, f)]" and m': "matched' = extend_match p fb v matched"
  shows "recent' = map (\<lambda>x. (fst x, fst (snd x))) (drop (length w' - length p) w')"
    and "matched' = length p \<longleftrightarrow> suffix p (vals w')"
    and "scan_ok p w' (recent', if matched' = length p then fb ! (matched' - 1) else matched')"
proof -
  have recent: "recent = map (\<lambda>x. (fst x, fst (snd x))) (drop (length w - length p) w)"
    and l: "is_longest p (length p - 1) (vals w) matched" using ok by (simp_all add: scan_ok_def)
  have tab: "fallback_ok p fb (length p)" using fallback_table_ok fb by blast
  have pl: "0 < length p" using p by simp
  show 1: "recent' = map (\<lambda>x. (fst x, fst (snd x))) (drop (length w' - length p) w')"
  proof (cases "length p \<le> length w")
    case True
    then have "length recent = length p" by (simp add: recent)
    moreover obtain n where n: "length p = Suc n" using pl by (cases p) simp_all
    moreover have "drop (length w - n) w = tl (drop (length w - Suc n) w)"
      using True n by (simp add: tl_drop drop_Suc [symmetric] Suc_diff_Suc)
    ultimately show ?thesis by (simp add: r' recent w' map_tl)
  next
    case False
    then have "length recent \<noteq> length p" by (simp add: recent)
    then show ?thesis using False by (simp add: r' recent w')
  qed
  have "matched \<le> length p - 1" using l by (simp add: is_longest_def)
  then have "fallback_ok p fb matched" using tab pl by (simp add: fallback_ok_def)
  then have full: "is_longest p (length p) (vals w') matched'"
    using extend_longest [OF l] pl by (simp add: m' w')
  show 2: "matched' = length p \<longleftrightarrow> suffix p (vals w')" by (rule longest_full(1) [OF full])
  have "is_longest p (length p - 1) (vals w') (if matched' = length p then fb ! (matched' - 1) else matched')"
  proof (cases "matched' = length p")
    case True
    have "is_longest p (length p - 1) p (fb ! (length p - 1))" using fallback_at [OF tab pl order.refl] by simp
    then show ?thesis using True 2 longest_reset [OF p, of "vals w'"] by simp
  next
    case False
    then show ?thesis using longest_full(2) [OF full] by simp
  qed
  then show "scan_ok p w' (recent', if matched' = length p then fb ! (matched' - 1) else matched')"
    using 1 by (simp add: scan_ok_def)
qed

lemma scan_char_spec:
  assumes p: "p \<noteq> []" and fb: "fb = fallback_table p"
  shows "vs \<noteq> [] \<Longrightarrow> scan_ok p w st \<Longrightarrow> w' = w @ entries index first vs \<Longrightarrow>
    (if window_hit p w' then scan_char p fb index stop first vs st = Inl (fst (w' ! (length w' - length p)), stop)
     else \<exists>st'. scan_char p fb index stop first vs st = Inr st' \<and> scan_ok p w' st')"
proof (induction vs arbitrary: w st first)
  case (Cons v vs)
  obtain recent matched where st: "st = (recent, matched)" by (cases st)
  define r where "r = (if length recent = length p then tl recent else recent) @ [(index, first)]"
  define m where "m = extend_match p fb v matched"
  define w1 where "w1 = w @ [(index, first, v)]"
  note step = scan_step [OF p Cons.prems(2) [unfolded st] fb w1_def r_def m_def]
  have hd: "hd r = (fst (w1 ! (length w1 - length p)), fst (snd (w1 ! (length w1 - length p))))" if "suffix p (vals w1)"
  proof -
    have "length p \<le> length w1" using that suffix_length_le by fastforce
    then have "length w1 - length p < length w1" using p by (cases p) simp_all
    then show ?thesis unfolding step(1) by (simp add: hd_drop_conv_nth hd_map)
  qed
  show ?case
  proof (cases "vs = []")
    case True
    then have w': "w' = w1" using Cons.prems(3) by (simp add: w1_def)
    show ?thesis
    proof (cases "window_hit p w1")
      case window_hit: True
      then have "m = length p" "snd (hd r)" "fst (hd r) = fst (w1 ! (length w1 - length p))"
        using step(2) hd by (simp_all add: window_hit_def)
      then show ?thesis using window_hit True by (simp add: w' st Let_def flip: r_def m_def)
    next
      case False
      then have "\<not> (m = length p \<and> snd (hd r))" using step(2) hd by (auto simp: window_hit_def)
      then show ?thesis using False True step(3) by (auto simp: w' st Let_def simp flip: r_def m_def)
    qed
  next
    case False
    have "scan_char p fb index stop first (v # vs) st = scan_char p fb index stop False vs (r, if m = length p then fb ! (m - 1) else m)"
      using False by (simp add: st Let_def flip: r_def m_def)
    note eq = this
    have "w' = w1 @ entries index False vs" using Cons.prems(3) by (simp add: w1_def)
    from Cons.IH [OF False step(3) this] show ?thesis unfolding eq .
  qed
qed simp

section \<open>The whole text\<close>

text \<open>The offset of the i-th character, and its values up to there.\<close>

definition offset_of :: "string list \<Rightarrow> nat \<Rightarrow> nat" where
  "offset_of cs i = length (concat (take i cs))"

definition lowered :: "(string \<Rightarrow> string list) \<Rightarrow> string list \<Rightarrow> nat \<Rightarrow> string list" where
  "lowered lower cs i = concat (map lower (take i cs))"

text \<open>The characters from \<open>i\<close> to \<open>j\<close> are the pattern, up to case.\<close>

definition matches_at :: "(string \<Rightarrow> string list) \<Rightarrow> string list \<Rightarrow> string list \<Rightarrow> nat \<Rightarrow> nat \<Rightarrow> bool" where
  "matches_at lower cs p i j \<longleftrightarrow> i < j \<and> j \<le> length cs \<and> concat (map lower (drop i (take j cs))) = p"

fun stream :: "(string \<Rightarrow> string list) \<Rightarrow> nat \<Rightarrow> string list \<Rightarrow> (nat \<times> bool \<times> string) list" where
  "stream lower index [] = []"
| "stream lower index (c # cs) = entries index True (lower c) @ stream lower (index + length c) cs"

lemma vals_entries [simp]: "vals (entries index first vs) = vs"
  by (induction vs arbitrary: first) simp_all

lemma vals_stream: "vals (stream lower index cs) = concat (map lower cs)"
  by (induction cs arbitrary: index) simp_all

lemma stream_append: "stream lower index (cs @ ds) = stream lower index cs @ stream lower (index + length (concat cs)) ds"
  by (induction cs arbitrary: index) (simp_all add: add.assoc)

lemma entries_flag: "k < length vs \<Longrightarrow> entries index first vs ! k = (index, first \<and> k = 0, vs ! k)"
  by (induction vs arbitrary: first k) (auto simp: nth_Cons split: nat.split)

lemma length_entries [simp]: "length (entries index first vs) = length vs"
  by (induction vs arbitrary: first) simp_all

lemma length_stream: "length (stream lower index cs) = length (concat (map lower cs))"
  by (induction cs arbitrary: index) simp_all

lemma lowered_Cons:
  "lowered lower (c # cs) (Suc i) = lower c @ lowered lower cs i" "lowered lower (c # cs) 0 = []"
  "offset_of (c # cs) (Suc i) = length c + offset_of cs i" "offset_of (c # cs) 0 = 0"
  by (simp_all add: lowered_def offset_of_def)

text \<open>A flag is set exactly at the first value of a character.\<close>

lemma stream_flag:
  assumes "\<forall>c \<in> set cs. lower c \<noteq> []" "k < length (stream lower index cs)"
  shows "fst (snd (stream lower index cs ! k)) \<longleftrightarrow> (\<exists>i < length cs. k = length (lowered lower cs i))"
  using assms
proof (induction cs arbitrary: index k)
  case (Cons c cs)
  have c: "lower c \<noteq> []" "\<forall>c \<in> set cs. lower c \<noteq> []" using Cons.prems by simp_all
  show ?case
  proof (cases "k < length (lower c)")
    case True
    then have "(\<exists>i < length (c # cs). k = length (lowered lower (c # cs) i)) \<longleftrightarrow> k = 0"
      using c(1) by (auto simp: less_Suc_eq_0_disj lowered_Cons)
    then show ?thesis using True by (simp add: nth_append entries_flag)
  next
    case False
    then have k: "k - length (lower c) < length (stream lower (index + length c) cs)" using Cons.prems(2) by simp
    have "(\<exists>i < length (c # cs). k = length (lowered lower (c # cs) i))
        \<longleftrightarrow> (\<exists>i < length cs. k - length (lower c) = length (lowered lower cs i))"
      using False c(1) by (auto simp: less_Suc_eq_0_disj lowered_Cons)
    then show ?thesis using False Cons.IH [OF c(2) k] by (simp add: nth_append)
  qed
qed simp

lemma stream_offset:
  assumes "\<forall>c \<in> set cs. lower c \<noteq> []" "i < length cs"
  shows "fst (stream lower index cs ! length (lowered lower cs i)) = index + offset_of cs i"
  using assms
proof (induction cs arbitrary: index i)
  case (Cons c cs)
  show ?case
  proof (cases i)
    case 0
    then show ?thesis using Cons.prems by (simp add: nth_append entries_flag lowered_Cons)
  next
    case (Suc j)
    then show ?thesis using Cons.IH [of j "index + length c"] Cons.prems by (simp add: nth_append lowered_Cons)
  qed
qed simp

lemma lowered_split: "i \<le> j \<Longrightarrow> lowered lower cs j = lowered lower cs i @ concat (map lower (drop i (take j cs)))"
  unfolding lowered_def by (metis append_take_drop_id concat_append map_append min.absorb1 take_take)

lemma lowered_mono:
  assumes "\<forall>c \<in> set cs. lower c \<noteq> []" "i < j" "j \<le> length cs"
  shows "length (lowered lower cs i) < length (lowered lower cs j)"
proof -
  have "cs ! i \<in> set (drop i (take j cs))" using assms(2,3) by (metis (no_types, lifting) Cons_nth_drop_Suc length_take list.set_intros(1) min.absorb2 nth_take)
  then have "concat (map lower (drop i (take j cs))) \<noteq> []" using assms by (auto dest: in_set_dropD in_set_takeD)
  then show ?thesis using lowered_split [of i j lower cs] assms(2) by simp
qed

lemma window_hit_iff:
  assumes low: "\<forall>c \<in> set cs. lower c \<noteq> []" and p: "p \<noteq> []" and j: "j \<le> length cs"
  shows "window_hit p (stream lower 0 (take j cs)) \<longleftrightarrow> (\<exists>i. matches_at lower cs p i j)"
    and "matches_at lower cs p i j \<Longrightarrow>
      fst (stream lower 0 (take j cs) ! (length (stream lower 0 (take j cs)) - length p)) = offset_of cs i"
proof -
  let ?w = "stream lower 0 (take j cs)"
  have lj: "\<forall>c \<in> set (take j cs). lower c \<noteq> []" using low by (auto dest: in_set_takeD)
  have len: "length ?w = length (lowered lower cs j)" by (simp add: length_stream lowered_def)
  have vals: "vals ?w = lowered lower cs j" by (simp add: vals_stream lowered_def)
  have li: "lowered lower (take j cs) i = lowered lower cs i" if "i \<le> j" for i using that by (simp add: lowered_def min_def)
  have at: "length ?w - length p = length (lowered lower cs i) \<and> i < length (take j cs) \<and> suffix p (vals ?w)"
    if "matches_at lower cs p i j" for i
    using that lowered_split [of i j lower cs] j by (auto simp: matches_at_def len vals suffix_def)
  have pos: "length ?w - length p < length ?w" if "suffix p (vals ?w)"
    using that suffix_length_le [OF that] p by (cases p) auto
  show "window_hit p ?w \<longleftrightarrow> (\<exists>i. matches_at lower cs p i j)"
  proof
    assume h: "window_hit p ?w"
    then have sx: "suffix p (lowered lower cs j)" by (simp add: window_hit_def vals)
    obtain i where i: "i < length (take j cs)" "length ?w - length p = length (lowered lower cs i)"
      using h stream_flag [OF lj pos] li by (auto simp: window_hit_def)
    have ij: "i < j" using i(1) by simp
    have "length p \<le> length ?w" using suffix_length_le [OF sx] by (simp add: len)
    then have "length (concat (map lower (drop i (take j cs)))) = length p"
      using i(2) lowered_split [of i j lower cs] ij by (simp add: len)
    then have "concat (map lower (drop i (take j cs))) = p"
      using sx lowered_split [of i j lower cs] ij by (auto simp: suffix_def)
    then show "\<exists>i. matches_at lower cs p i j" using ij j by (auto simp: matches_at_def)
  next
    assume "\<exists>i. matches_at lower cs p i j"
    then obtain i where m: "matches_at lower cs p i j" by blast
    note a = at [OF m]
    then have "fst (snd (?w ! (length ?w - length p)))"
      using stream_flag [OF lj pos] li [of i] by (metis length_take less_imp_le min_less_iff_conj)
    then show "window_hit p ?w" using a by (simp add: window_hit_def)
  qed
  show "fst (?w ! (length ?w - length p)) = offset_of cs i" if "matches_at lower cs p i j"
    using at [OF that] stream_offset [OF lj, of i 0] li [of i] by (simp add: offset_of_def min_def split: if_splits)
qed

lemma take_Suc_stream:
  "k < length cs \<Longrightarrow> stream lower 0 (take (Suc k) cs) = stream lower 0 (take k cs) @ entries (offset_of cs k) True (lower (cs ! k))"
  by (simp add: take_Suc_conv_app_nth stream_append offset_of_def)

lemma scan_spec:
  assumes low: "\<forall>c \<in> set cs. lower c \<noteq> []" and p: "p \<noteq> []"
    and "k \<le> length cs" "scan_ok p (stream lower 0 (take k cs)) st"
  shows "case scan_text lower p (fallback_table p) (offset_of cs k) (drop k cs) st of
      None \<Rightarrow> \<forall>i j. k < j \<longrightarrow> \<not> matches_at lower cs p i j
    | Some (a, b) \<Rightarrow> \<exists>i j. k < j \<and> matches_at lower cs p i j \<and> a = offset_of cs i \<and> b = offset_of cs j
        \<and> (\<forall>i' j'. k < j' \<and> matches_at lower cs p i' j' \<longrightarrow> j \<le> j')"
  using assms(3,4)
proof (induction "length cs - k" arbitrary: k st)
  case 0
  then show ?case by (simp add: matches_at_def)
next
  case (Suc n)
  then have k: "k < length cs" by simp
  let ?w = "stream lower 0 (take (Suc k) cs)" and ?fb = "fallback_table p"
  have nxt: "offset_of cs (Suc k) = offset_of cs k + length (cs ! k)"
    using k by (simp add: offset_of_def take_Suc_conv_app_nth)
  have d: "drop k cs = cs ! k # drop (Suc k) cs" using k by (simp add: Cons_nth_drop_Suc)
  have sc: "if window_hit p ?w then scan_char p ?fb (offset_of cs k) stop True (lower (cs ! k)) st = Inl (fst (?w ! (length ?w - length p)), stop)
      else \<exists>st'. scan_char p ?fb (offset_of cs k) stop True (lower (cs ! k)) st = Inr st' \<and> scan_ok p ?w st'" for stop
    by (rule scan_char_spec [OF p refl _ Suc.prems(2) take_Suc_stream [OF k]]) (use low k in simp)
  show ?case
  proof (cases "window_hit p ?w")
    case True
    then obtain i where m: "matches_at lower cs p i (Suc k)" using window_hit_iff(1) [OF low p] k by (metis Suc_leI)
    have "fst (?w ! (length ?w - length p)) = offset_of cs i" by (rule window_hit_iff(2) [OF low p _ m]) (use k in simp)
    then have "scan_text lower p ?fb (offset_of cs k) (drop k cs) st = Some (offset_of cs i, offset_of cs (Suc k))"
      using sc True by (simp add: d nxt)
    note found = this
    show ?thesis
      unfolding found option.case prod.case using m by (intro exI [of _ i] exI [of _ "Suc k"]) auto
  next
    case False
    then have none: "\<not> matches_at lower cs p i (Suc k)" for i using window_hit_iff(1) [OF low p] k by (metis Suc_leI)
    obtain st' where st': "scan_char p ?fb (offset_of cs k) (offset_of cs k + length (cs ! k)) True (lower (cs ! k)) st = Inr st'"
      "scan_ok p ?w st'"
      using sc False by metis
    then have rest: "scan_text lower p ?fb (offset_of cs k) (drop k cs) st = scan_text lower p ?fb (offset_of cs (Suc k)) (drop (Suc k) cs) st'"
      by (simp add: d nxt)
    have later: "Suc k < j" if "k < j" "matches_at lower cs p i j" for i j using none that by (metis Suc_lessI)
    have IH: "case scan_text lower p ?fb (offset_of cs (Suc k)) (drop (Suc k) cs) st' of
        None \<Rightarrow> \<forall>i j. Suc k < j \<longrightarrow> \<not> matches_at lower cs p i j
      | Some (a, b) \<Rightarrow> \<exists>i j. Suc k < j \<and> matches_at lower cs p i j \<and> a = offset_of cs i \<and> b = offset_of cs j
          \<and> (\<forall>i' j'. Suc k < j' \<and> matches_at lower cs p i' j' \<longrightarrow> j \<le> j')"
      by (rule Suc.hyps(1)) (use Suc.hyps(2) k st'(2) in simp_all)
    show ?thesis
    proof (cases "scan_text lower p ?fb (offset_of cs (Suc k)) (drop (Suc k) cs) st'")
      case None
      then show ?thesis using IH later unfolding rest None option.case by blast
    next
      case (Some r)
      obtain a b where r: "r = (a, b)" by (cases r)
      from IH obtain i j where "Suc k < j" "matches_at lower cs p i j" "a = offset_of cs i" "b = offset_of cs j"
        "\<And>i' j'. Suc k < j' \<Longrightarrow> matches_at lower cs p i' j' \<Longrightarrow> j \<le> j'"
        unfolding Some r option.case prod.case by blast
      then show ?thesis
        unfolding rest Some r option.case prod.case using later by (intro exI [of _ i] exI [of _ j]) auto
    qed
  qed
qed

text \<open>What the search promises: the first place where the characters of the text are those of the needle, up to case.\<close>

definition first_match :: "(string \<Rightarrow> string list) \<Rightarrow> string list \<Rightarrow> string list \<Rightarrow> (nat \<times> nat) option \<Rightarrow> bool" where
  "first_match lower cs p r =
     (case r of
        None \<Rightarrow> \<forall>i j. \<not> matches_at lower cs p i j
      | Some (a, b) \<Rightarrow> \<exists>i j. matches_at lower cs p i j \<and> a = offset_of cs i \<and> b = offset_of cs j
          \<and> (\<forall>i' j'. matches_at lower cs p i' j' \<longrightarrow> i \<le> i'))"

lemma scan_first:
  assumes low: "\<forall>c \<in> set cs. lower c \<noteq> []" and p: "p \<noteq> []"
  shows "first_match lower cs p (scan_text lower p (fallback_table p) 0 cs ([], 0))"
proof -
  have "is_longest p (length p - 1) [] 0" using p by (auto simp: is_longest_def)
  then have "scan_ok p (stream lower 0 (take 0 cs)) ([], 0)" by (simp add: scan_ok_def)
  note spec = scan_spec [OF low p _ this]
  show ?thesis
  proof (cases "scan_text lower p (fallback_table p) 0 cs ([], 0)")
    case None
    then have "\<forall>i j. 0 < j \<longrightarrow> \<not> matches_at lower cs p i j" using spec by (simp add: offset_of_def)
    then show ?thesis using None by (auto simp: first_match_def matches_at_def)
  next
    case (Some r)
    obtain a b where r: "r = (a, b)" by (cases r)
    then obtain i j where ij: "matches_at lower cs p i j" "a = offset_of cs i" "b = offset_of cs j"
      "\<And>i' j'. 0 < j' \<Longrightarrow> matches_at lower cs p i' j' \<Longrightarrow> j \<le> j'"
      using spec Some by (auto simp: offset_of_def)
    have "i \<le> i'" if m: "matches_at lower cs p i' j'" for i' j'
    proof (rule ccontr)
      assume "\<not> i \<le> i'"
      then have "length (lowered lower cs i') < length (lowered lower cs i)"
        using lowered_mono [OF low, of i' i] ij(1) by (simp add: matches_at_def)
      moreover have "length (lowered lower cs j) = length (lowered lower cs i) + length p"
        "length (lowered lower cs j') = length (lowered lower cs i') + length p"
        using lowered_split [of i j lower cs] lowered_split [of i' j' lower cs] ij(1) m by (simp_all add: matches_at_def)
      moreover have "j \<le> j'" using ij(4) [of j' i'] m by (simp add: matches_at_def)
      then have "length (lowered lower cs j) \<le> length (lowered lower cs j')"
        using lowered_mono [OF low, of j j'] m by (cases "j = j'") (auto simp: matches_at_def)
      ultimately show False by simp
    qed
    then show ?thesis
      unfolding first_match_def Some r option.case prod.case using ij(1-3) by (intro exI [of _ i] exI [of _ j]) auto
  qed
qed

section \<open>Texts in ASCII\<close>

lemma concat_str_chars [simp]: "concat (str_chars s) = s"
proof (induction s rule: str_chars.induct)
  case (1 s)
  then show ?case by (cases "s = []") (simp_all add: str_chars.simps [of s] str_chars.simps [of "[]"] Let_def)
qed

lemma str_chars_ascii: "list_all is_ascii s \<Longrightarrow> str_chars s = map (\<lambda>c. [c]) s"
proof (induction s)
  case (Cons c s)
  then show ?case by (simp add: str_chars.simps [of "c # s"] utf8_len_def Let_def)
qed (simp add: str_chars.simps)

lemma concat_singles [simp]: "concat (map (\<lambda>c. [f c]) s) = map f s"
  by (induction s) simp_all

lemma ascii_lower: "is_ascii c \<Longrightarrow> is_ascii (to_ascii_lower c)"
  by (simp add: is_ascii_def to_ascii_lower_def of_char_of)

lemma ascii_matches:
  assumes h: "list_all is_ascii h" and low: "\<And>c. is_ascii c \<Longrightarrow> lower [c] = [[to_ascii_lower c]]" and n: "n \<noteq> []"
  shows "matches_at lower (map (\<lambda>c. [c]) h) (str_chars n) i j \<longleftrightarrow> j = i + length n \<and> occurs (to_ascii_lowercase h) n i"
proof -
  let ?sub = "map to_ascii_lower (drop i (take j h))"
  have "\<forall>c \<in> set (drop i (take j h)). is_ascii c" using h by (auto simp: list_all_iff dest: in_set_dropD in_set_takeD)
  then have c: "concat (map lower (drop i (take j (map (\<lambda>c. [c]) h)))) = map (\<lambda>c. [c]) ?sub" "list_all is_ascii ?sub"
    using low ascii_lower by (simp_all add: take_map drop_map comp_def list_all_iff cong: map_cong)
  have "map (\<lambda>c. [c]) ?sub = str_chars n \<longleftrightarrow> ?sub = n"
  proof
    assume "map (\<lambda>c. [c]) ?sub = str_chars n"
    then have "concat (map (\<lambda>c. [c]) ?sub) = n" by simp
    then show "?sub = n" by (simp only: concat_singles list.map_ident)
  next
    assume "?sub = n"
    then show "map (\<lambda>c. [c]) ?sub = str_chars n" using c(2) str_chars_ascii by metis
  qed
  moreover have "i < j \<and> j \<le> length h \<and> ?sub = n \<longleftrightarrow> j = i + length n \<and> occurs (to_ascii_lowercase h) n i"
  proof
    assume a: "i < j \<and> j \<le> length h \<and> ?sub = n"
    have "length ?sub = min j (length h) - i" by simp
    then have "j = i + length n" using a by auto
    moreover have "take (length n) (drop i (to_ascii_lowercase h)) = n"
      using a calculation by (simp add: to_ascii_lowercase_def take_map drop_map drop_take)
    ultimately show "j = i + length n \<and> occurs (to_ascii_lowercase h) n i"
      using a by (simp add: occurs_def starts_with_def to_ascii_lowercase_def)
  next
    assume a: "j = i + length n \<and> occurs (to_ascii_lowercase h) n i"
    then have "take (length n) (drop i (to_ascii_lowercase h)) = n" "j \<le> length h"
      by (simp_all add: occurs_def starts_with_def to_ascii_lowercase_def)
    then show "i < j \<and> j \<le> length h \<and> ?sub = n"
      using a n by (simp add: to_ascii_lowercase_def take_map drop_map drop_take)
  qed
  ultimately show ?thesis by (simp add: matches_at_def c(1))
qed

lemma ascii_first:
  assumes h: "list_all is_ascii h" and low: "\<And>c. is_ascii c \<Longrightarrow> lower [c] = [[to_ascii_lower c]]" and n: "n \<noteq> []"
  shows "first_match lower (str_chars h) (str_chars n)
    (map_option (\<lambda>at. (at, at + length n)) (find_sub (to_ascii_lowercase h) n))"
proof -
  let ?cs = "map (\<lambda>c. [c]) h"
  note m = ascii_matches [OF h low n]
  have off: "i \<le> length h \<Longrightarrow> offset_of ?cs i = i" for i by (simp add: offset_of_def take_map)
  show ?thesis
  proof (cases "find_sub (to_ascii_lowercase h) n")
    case None
    then show ?thesis using m find_sub_None [OF None] by (simp add: first_match_def str_chars_ascii [OF h] occurs_def)
  next
    case (Some i)
    have i: "occurs (to_ascii_lowercase h) n i" "i + length n \<le> length h"
      using find_sub_Some [OF Some] by (simp_all add: occurs_def to_ascii_lowercase_def)
    have first: "i \<le> i'" if "occurs (to_ascii_lowercase h) n i'" for i'
      using find_sub_first [OF Some, of i'] that by (metis not_le occurs_def)
    have "matches_at lower ?cs (str_chars n) i (i + length n)" using m i(1) by simp
    moreover have "i \<le> i'" if "matches_at lower ?cs (str_chars n) i' j'" for i' j' using m that first by blast
    ultimately show ?thesis
      using i(2) off [of i] off [of "i + length n"]
      unfolding first_match_def str_chars_ascii [OF h] Some option.map option.case prod.case
      by (intro exI [of _ i] exI [of _ "i + length n"]) auto
  qed
qed

lemma find_case_insensitive_spec:
  assumes "\<And>c. lower c \<noteq> []" and "\<And>c. is_ascii c \<Longrightarrow> lower [c] = [[to_ascii_lower c]]" and "needle \<noteq> []"
  shows "first_match lower (str_chars haystack) (str_chars needle) (find_case_insensitive lower haystack needle)"
proof (cases "list_all is_ascii haystack")
  case True
  then show ?thesis using ascii_first [OF True assms(2,3)] assms(3) by (simp add: find_case_insensitive_def)
next
  case False
  have "str_chars needle \<noteq> []" using assms(3) concat_str_chars [of needle] by (metis concat.simps(1))
  then show ?thesis
    using scan_first [of "str_chars haystack" lower "str_chars needle"] assms(1,3) False
    by (simp add: find_case_insensitive_def Let_def)
qed

section \<open>Excerpts are cut between characters and stay small\<close>

lemma find_case_insensitive_range:
  assumes "\<And>c. lower c \<noteq> []" and "\<And>c. is_ascii c \<Longrightarrow> lower [c] = [[to_ascii_lower c]]"
    and "find_case_insensitive lower h n = Some (a, b)"
  shows "a \<le> b" and "b \<le> length h"
proof -
  have "a \<le> b \<and> b \<le> length h"
  proof (cases "n = []")
    case False
    then obtain i j where m: "matches_at lower (str_chars h) (str_chars n) i j"
      and o: "a = offset_of (str_chars h) i" "b = offset_of (str_chars h) j"
      using find_case_insensitive_spec [OF assms(1,2) False, of h] assms(3) by (auto simp: first_match_def)
    have j: "take j (str_chars h) = take i (str_chars h) @ drop i (take j (str_chars h))"
      using m by (metis append_take_drop_id matches_at_def min.absorb2 min.commute nless_le take_take)
    have "length (concat (str_chars h)) = length (concat (take j (str_chars h))) + length (concat (drop j (str_chars h)))"
      by (metis append_take_drop_id concat_append length_append)
    then have "b \<le> length h" by (simp add: o offset_of_def)
    moreover have "a \<le> b" using arg_cong [OF j, of "\<lambda>l. length (concat l)"] by (simp add: o offset_of_def)
    ultimately show ?thesis by simp
  qed (use assms(3) in \<open>simp add: find_case_insensitive_def\<close>)
  then show "a \<le> b" "b \<le> length h" by simp_all
qed

lemma align_down_boundary: "align_down s i \<le> i \<and> is_char_boundary s (align_down s i)"
  by (induction i) (auto simp: is_char_boundary_def)

lemma align_up_boundary: "i \<le> length s \<Longrightarrow> i \<le> align_up s i \<and> align_up s i \<le> length s \<and> is_char_boundary s (align_up s i)"
  by (induction s i rule: align_up.induct) (subst (1 2 3) align_up.simps, auto simp: is_char_boundary_def)

lemma excerpt_total:
  assumes "\<And>c. lower c \<noteq> []" and "\<And>c. is_ascii c \<Longrightarrow> lower [c] = [[to_ascii_lower c]]"
  shows "\<exists>r. excerpt_around lower h n = Some r \<and> (r = None \<longleftrightarrow> find_case_insensitive lower h n = None)"
proof (cases "find_case_insensitive lower h n")
  case (Some m)
  obtain a b where m: "m = (a, b)" by force
  let ?i = "align_down h (a - HISTORY_EXCERPT_BYTES div 2)" and ?j = "align_up h (min (b + HISTORY_EXCERPT_BYTES div 2) (length h))"
  have ab: "a \<le> b" "b \<le> length h" using find_case_insensitive_range [OF assms] Some m by blast+
  have i: "?i \<le> a - HISTORY_EXCERPT_BYTES div 2" "is_char_boundary h ?i" using align_down_boundary by blast+
  have j: "min (b + HISTORY_EXCERPT_BYTES div 2) (length h) \<le> ?j" "?j \<le> length h" "is_char_boundary h ?j"
    using align_up_boundary [of "min (b + HISTORY_EXCERPT_BYTES div 2) (length h)" h] by simp_all
  have "?i \<le> ?j" using i(1) j(1) ab by linarith
  then have "str_slice h ?i ?j = Some (drop ?i (take ?j h))" using i(2) j(2,3) by (simp add: str_slice_def)
  then show ?thesis using Some m by (simp add: excerpt_around_def Let_def)
qed (simp add: excerpt_around_def)

text \<open>A character has at most four bytes, so no offset is more than three bytes from the boundaries around it.\<close>

lemma boundaries_around:
  "utf8_valid s \<Longrightarrow> i \<le> length s \<Longrightarrow>
    \<exists>a b. is_char_boundary s a \<and> is_char_boundary s b \<and> a \<le> i \<and> i \<le> b \<and> i \<le> a + 3 \<and> b \<le> i + 3 \<and> b \<le> length s"
proof (induction s arbitrary: i rule: utf8_valid.induct)
  case (1 s)
  let ?n = "utf8_len s"
  show ?case
  proof (cases "s = []")
    case False
    then have n: "?n \<noteq> 0" and rest: "utf8_valid (drop ?n s)" using "1.prems"(1) utf8_valid_step by blast+
    have le: "?n \<le> length s" "?n \<le> 4" by (rule utf8_len_bounds) (auto simp: utf8_len_def split: list.splits)
    have shift: "is_char_boundary s (?n + k)" if k: "is_char_boundary (drop ?n s) k" for k
    proof (cases "k = 0")
      case True
      then show ?thesis using boundary_after_char(3) [OF "1.prems"(1), of 0] False by (simp add: is_char_boundary_def)
    qed (use k le(1) in \<open>auto simp: is_char_boundary_def\<close>)
    show ?thesis
    proof (cases "i < ?n")
      case True
      have "is_char_boundary s 0" "is_char_boundary s ?n" using shift [of 0] by (simp_all add: is_char_boundary_def)
      then show ?thesis using True le
        by (cases "i = 0") (intro exI [of _ 0], simp, intro exI [of _ 0] exI [of _ ?n], simp)
    next
      case ge: False
      then obtain a b where ab: "is_char_boundary (drop ?n s) a" "is_char_boundary (drop ?n s) b" "a \<le> i - ?n" "i - ?n \<le> b"
          "i - ?n \<le> a + 3" "b \<le> i - ?n + 3" "b \<le> length (drop ?n s)"
        using "1.IH" [OF False n rest, of "i - ?n"] diff_le_mono [OF "1.prems"(2), of ?n] length_drop [of ?n s] by metis
      show ?thesis using shift [OF ab(1)] shift [OF ab(2)] ab(3-) ge le by (intro exI [of _ "?n + a"] exI [of _ "?n + b"]) auto
    qed
  qed (use "1.prems" in \<open>simp add: is_char_boundary_def\<close>)
qed

lemma align_down_near: "is_char_boundary s a \<Longrightarrow> a \<le> i \<Longrightarrow> a \<le> align_down s i"
  by (induction i) (auto simp: le_Suc_eq)

lemma align_up_near: "is_char_boundary s b \<Longrightarrow> i \<le> b \<Longrightarrow> align_up s i \<le> b"
proof (induction s i rule: align_up.induct)
  case (1 s i)
  then have "i + 1 \<le> b" if "\<not> is_char_boundary s i" using that by (cases "i = b") auto
  then show ?case using 1 by (subst align_up.simps) auto
qed

lemma trim_start_length: "length (trim_start s) \<le> length s"
  by (induction s rule: trim_start.induct) (subst trim_start.simps, force)

lemma trim_rev_length: "length (trim_rev s) \<le> length s"
  by (induction s rule: trim_rev.induct) (subst trim_rev.simps, force)

lemma trim_length: "length (trim s) \<le> length s"
  using trim_start_length [of s] trim_rev_length [of "rev (trim_start s)"] by (simp add: trim_def trim_end_def)

lemma excerpt_bounded:
  assumes "find_case_insensitive lower h n = Some (a, b)" "a \<le> b" "b \<le> length h" "utf8_valid h"
    and "excerpt_around lower h n = Some (Some e)"
  shows "length e \<le> HISTORY_EXCERPT_BYTES + (b - a) + 12"
proof -
  let ?i = "align_down h (a - HISTORY_EXCERPT_BYTES div 2)" and ?j = "align_up h (min (b + HISTORY_EXCERPT_BYTES div 2) (length h))"
  have i: "a \<le> ?i + HISTORY_EXCERPT_BYTES div 2 + 3"
    using boundaries_around [OF assms(4), of "a - HISTORY_EXCERPT_BYTES div 2"] assms(2,3) align_down_near [of h]
    by (force simp: HISTORY_EXCERPT_BYTES_def)
  obtain j where "is_char_boundary h j" "min (b + HISTORY_EXCERPT_BYTES div 2) (length h) \<le> j"
      "j \<le> min (b + HISTORY_EXCERPT_BYTES div 2) (length h) + 3"
    using boundaries_around [OF assms(4), of "min (b + HISTORY_EXCERPT_BYTES div 2) (length h)"] by auto
  then have j: "?j \<le> b + HISTORY_EXCERPT_BYTES div 2 + 3" using align_up_near [of h j] by force
  obtain body where body: "str_slice h ?i ?j = Some body"
    and e: "e = (if ?i > 0 then ellipsis else []) @ trim body @ (if ?j < length h then ellipsis else [])"
    using assms(1,5) by (auto simp: excerpt_around_def Let_def split: option.splits)
  have "length body \<le> ?j - ?i" using body by (auto simp: str_slice_def split: if_splits)
  then have "length (trim body) \<le> ?j - ?i" using trim_length [of body] by linarith
  moreover have "length e \<le> length (trim body) + 6" using e by simp
  ultimately show ?thesis using i j assms(2) by (simp add: HISTORY_EXCERPT_BYTES_def)
qed

text \<open>C24 (equivalence). The search without regard to case, with its shortcut for ASCII and its table of fallbacks, finds
  exactly the first run of whole characters of the text whose lower-case form is the needle, and gives its
  byte offsets; it finds nothing exactly if there is no such run. The lower-case form of a character is
  never empty, and for ASCII that of ASCII.\<close>

theorem find_case_insensitive_first:
  assumes "\<And>c. lower c \<noteq> []" and "\<And>c. is_ascii c \<Longrightarrow> lower [c] = [[to_ascii_lower c]]" and "needle \<noteq> []"
  shows "first_match lower (str_chars haystack) (str_chars needle) (find_case_insensitive lower haystack needle)"
  using assms by (rule find_case_insensitive_spec)

theorem find_case_insensitive_first_witness:
  "first_match (\<lambda>c. [map to_ascii_lower c]) (str_chars ''aBc'') (str_chars ''b'') (Some (1, 2))"
proof -
  have "find_case_insensitive (\<lambda>c. [map to_ascii_lower c]) ''aBc'' ''b'' = Some (1, 2)" by code_simp
  then show ?thesis
    using find_case_insensitive_first [of "\<lambda>c. [map to_ascii_lower c]" "''b''" "''aBc''"] by simp
qed

end
