(* ===== verification/History.thy ===== *)
theory History
  imports Text_Search
begin

text \<open>
  The search of a session's history: the cursors and the rendering of \<^verbatim>\<open>runtime/history.rs\<close>, the walk over the
  store of \<^verbatim>\<open>sessions/history.rs\<close>, and the tool of the run loop around them. A search reads one unit of text at
  a time, newest first, and stops with a cursor to go on from. The lower-case form of texts and characters, the
  decoding of a stored turn and the quoted form of a text are parameters.
\<close>

section \<open>Cursors\<close>

definition i64_max :: nat where [arith_defs]: "i64_max = 9223372036854775807"

datatype history_cursor =
    CPrompt nat
  | CTurn nat nat
  | CResult nat nat nat
  | CAssistant nat nat

abbreviation colon :: string where "colon \<equiv> '':''"

fun print_cursor :: "history_cursor \<Rightarrow> string" where
  "print_cursor (CPrompt before) = ''u:'' @ nat_to_string before"
| "print_cursor (CTurn prompt before) = ''r:'' @ nat_to_string prompt @ colon @ nat_to_string before"
| "print_cursor (CResult prompt turn before) =
     ''t:'' @ nat_to_string prompt @ colon @ nat_to_string turn @ colon @ nat_to_string before"
| "print_cursor (CAssistant prompt turn) = ''a:'' @ nat_to_string prompt @ colon @ nat_to_string turn"

definition parse_ordinal :: "string \<Rightarrow> nat option" where
  "parse_ordinal s = (case parse_uint u64_max s of Some n \<Rightarrow> if n \<le> i64_max then Some n else None | None \<Rightarrow> None)"

definition parse_cursor :: "string \<Rightarrow> history_cursor option" where
  "parse_cursor s =
     (case take 5 (split_char s CHR '':'') of
        [k, a] \<Rightarrow> if k = ''u'' then map_option CPrompt (parse_ordinal a) else None
      | [k, a, b] \<Rightarrow>
          if k = ''r'' then
            (case parse_ordinal a of None \<Rightarrow> None | Some p \<Rightarrow> map_option (CTurn p) (parse_uint u32_max b))
          else if k = ''a'' then
            (case parse_ordinal a of None \<Rightarrow> None | Some p \<Rightarrow> map_option (CAssistant p) (parse_uint u32_max b))
          else None
      | [k, a, b, c] \<Rightarrow>
          if k = ''t'' then
            (case parse_ordinal a of None \<Rightarrow> None
             | Some p \<Rightarrow> (case parse_uint u32_max b of None \<Rightarrow> None
                | Some t \<Rightarrow> map_option (CResult p t) (parse_uint u16_max c)))
          else None
      | _ \<Rightarrow> None)"

definition default_cursor :: history_cursor where "default_cursor = CPrompt i64_max"

section \<open>The tables a search reads\<close>

record message_row =
  hm_id :: string
  hm_session :: string
  hm_run :: string
  hm_ordinal :: nat
  hm_role :: string
  hm_state :: string
  hm_steering :: bool
  hm_output :: string

record chunk_row =
  hk_message :: string
  hk_channel :: string
  hk_ordinal :: nat
  hk_text :: string

record turn_row =
  ht_run :: string
  ht_ordinal :: nat
  ht_content :: string

record result_row =
  hr_run :: string
  hr_turn :: nat
  hr_call :: nat
  hr_name :: string
  hr_result :: "string option"

record history_store =
  hs_messages :: "message_row list"
  hs_chunks :: "chunk_row list"
  hs_turns :: "turn_row list"
  hs_results :: "result_row list"

datatype history_error = HistoryStoreFailed | HistoryPanic

text \<open>\<open>ORDER BY k DESC LIMIT 1\<close>.\<close>

fun latest :: "('r \<Rightarrow> nat) \<Rightarrow> 'r list \<Rightarrow> 'r option" where
  "latest k [] = None"
| "latest k (r # rs) = (case latest k rs of None \<Rightarrow> Some r | Some b \<Rightarrow> Some (if k b < k r then r else b))"

text \<open>Reading a column as an unsigned integer fails beyond its width.\<close>

definition column :: "nat \<Rightarrow> nat \<Rightarrow> (history_error, nat) result" where
  "column m n = (if n \<le> m then Ok n else Err HistoryStoreFailed)"

definition user_text :: "history_store \<Rightarrow> message_row \<Rightarrow> string option" where
  "user_text st m =
     (if hm_role m = ''user''
         \<and> (\<not> hm_steering m \<and> hm_state m \<in> {''complete'', ''cancelled'', ''failed'', ''interrupted'', ''streaming''}
            \<or> hm_steering m \<and> hm_state m = ''complete'')
      then Some (hm_output m @ concat (map hk_text (sort_key hk_ordinal
        (filter (\<lambda>k. hk_message k = hm_id m \<and> hk_channel k = ''output'') (hs_chunks st)))))
      else None)"

definition prompt_run :: "history_store \<Rightarrow> string \<Rightarrow> nat \<Rightarrow> string option" where
  "prompt_run st session prompt =
     map_option hm_run (find (\<lambda>m. hm_session m = session \<and> hm_ordinal m = prompt \<and> hm_role m = ''user'' \<and> \<not> hm_steering m)
       (hs_messages st))"

section \<open>One step\<close>

datatype 'v content_block =
    TextBlock string
  | ToolCallBlock string string 'v
  | ToolResultBlock string string bool

definition SEARCH_HISTORY_TOOL :: string where "SEARCH_HISTORY_TOOL = ''search_history''"

definition is_history_tool :: "string \<Rightarrow> bool" where
  "is_history_tool name \<longleftrightarrow> name = ''search_history''"

fun block_piece :: "('v \<Rightarrow> string) \<Rightarrow> 'v content_block \<Rightarrow> string option" where
  "block_piece display (TextBlock s) = Some s"
| "block_piece display (ToolCallBlock i name arguments) =
     (if \<not> is_history_tool name then Some (name @ '' '' @ display arguments) else None)"
| "block_piece display (ToolResultBlock call content is_error) = None"

definition add_piece :: "('v \<Rightarrow> string) \<Rightarrow> string \<Rightarrow> 'v content_block \<Rightarrow> string" where
  "add_piece display acc block =
     (case block_piece display block of
        None \<Rightarrow> acc
      | Some piece \<Rightarrow> if acc = [] then piece else acc @ [LF] @ piece)"

definition turn_text :: "('v \<Rightarrow> string) \<Rightarrow> 'v content_block list \<Rightarrow> string" where
  "turn_text display content = foldl (add_piece display) [] content"

type_synonym history_unit = "string \<times> string"
type_synonym step_outcome = "history_cursor option \<times> history_unit option \<times> nat"

record 'v history_env =
  he_decode :: "string \<Rightarrow> 'v content_block list option"
  he_display :: "'v \<Rightarrow> string"
  he_lower :: "string \<Rightarrow> string list"
  he_lowercase :: "string \<Rightarrow> string"
  he_debug :: "string \<Rightarrow> string"
  he_error :: "history_error \<Rightarrow> string"

abbreviation (input) cite_user :: "nat \<Rightarrow> string" where
  "cite_user prompt \<equiv> ''user message #'' @ nat_to_string prompt"

definition step_prompt :: "history_store \<Rightarrow> string \<Rightarrow> nat \<Rightarrow> (history_error, step_outcome) result" where
  "step_prompt st session before =
     (case latest hm_ordinal (filter (\<lambda>m. hm_session m = session \<and> hm_ordinal m < before) (hs_messages st)) of
        None \<Rightarrow> Ok (None, None, 0)
      | Some m \<Rightarrow>
          (case column u64_max (hm_ordinal m) of
             Err e \<Rightarrow> Err e
           | Ok prompt \<Rightarrow>
               (case user_text st m of
                  None \<Rightarrow> Ok (Some (CPrompt prompt), None, 0)
                | Some text' \<Rightarrow>
                    Ok (Some (if hm_steering m then CPrompt prompt else CTurn prompt u32_max),
                        Some (cite_user prompt, text'), length text'))))"

definition step_turn :: "history_store \<Rightarrow> string \<Rightarrow> nat \<Rightarrow> nat \<Rightarrow> (history_error, step_outcome) result" where
  "step_turn st session prompt before =
     (case latest ht_ordinal (filter (\<lambda>t. Some (ht_run t) = prompt_run st session prompt \<and> ht_ordinal t < before) (hs_turns st)) of
        None \<Rightarrow> Ok (Some (CPrompt prompt), None, 0)
      | Some t \<Rightarrow>
          (case column u32_max (ht_ordinal t) of
             Err e \<Rightarrow> Err e
           | Ok turn \<Rightarrow> Ok (Some (CResult prompt turn u16_max), None, 0)))"

definition step_result :: "history_store \<Rightarrow> string \<Rightarrow> nat \<Rightarrow> nat \<Rightarrow> nat \<Rightarrow> (history_error, step_outcome) result" where
  "step_result st session prompt turn before =
     (case latest hr_call (filter (\<lambda>r. Some (hr_run r) = prompt_run st session prompt \<and> hr_turn r = turn \<and> hr_call r < before)
             (hs_results st)) of
        None \<Rightarrow> Ok (Some (CAssistant prompt turn), None, 0)
      | Some r \<Rightarrow>
          (case column u16_max (hr_call r) of
             Err e \<Rightarrow> Err e
           | Ok call \<Rightarrow>
               (case (if hr_name r = ''search_history'' then None else hr_result r) of
                  None \<Rightarrow> Ok (Some (CResult prompt turn call), None, 0)
                | Some text' \<Rightarrow>
                    Ok (Some (CResult prompt turn call),
                        (if \<not> is_history_tool (hr_name r)
                         then Some (hr_name r @ '' result, user message #'' @ nat_to_string prompt @ '' turn '' @ nat_to_string turn
                           @ '' call '' @ nat_to_string call, text') else None),
                        length text'))))"

definition step_assistant ::
  "'v history_env \<Rightarrow> history_store \<Rightarrow> string \<Rightarrow> nat \<Rightarrow> nat \<Rightarrow> (history_error, step_outcome) result" where
  "step_assistant env st session prompt turn =
     (case find (\<lambda>t. Some (ht_run t) = prompt_run st session prompt \<and> ht_ordinal t = turn) (hs_turns st) of
        None \<Rightarrow> Ok (Some (CTurn prompt turn), None, 0)
      | Some t \<Rightarrow>
          (case he_decode env (ht_content t) of
             None \<Rightarrow> Err HistoryStoreFailed
           | Some content \<Rightarrow>
               Ok (Some (CTurn prompt turn),
                   Some (''assistant, user message #'' @ nat_to_string prompt @ '' turn '' @ nat_to_string turn,
                     turn_text (he_display env) content),
                   length (ht_content t))))"

fun history_step :: "'v history_env \<Rightarrow> history_store \<Rightarrow> string \<Rightarrow> history_cursor \<Rightarrow> (history_error, step_outcome) result" where
  "history_step env st session (CPrompt before) = step_prompt st session before"
| "history_step env st session (CTurn prompt before) = step_turn st session prompt before"
| "history_step env st session (CResult prompt turn before) = step_result st session prompt turn before"
| "history_step env st session (CAssistant prompt turn) = step_assistant env st session prompt turn"

section \<open>A search\<close>

definition HISTORY_SCAN_STEPS :: nat where "HISTORY_SCAN_STEPS = 1024"
definition HISTORY_SCAN_BUDGET_BYTES :: nat where "HISTORY_SCAN_BUDGET_BYTES = 8 * 1024 * 1024"
definition MAX_HISTORY_MATCHES :: nat where "MAX_HISTORY_MATCHES = 20"
definition default_history_limit :: nat where "default_history_limit = 8"

record history_match =
  ma_citation :: string
  ma_excerpt :: string

record history_search =
  sr_matches :: "history_match list"
  sr_next :: "history_cursor option"

text \<open>The match of a unit, if it has one; the slicing of its excerpt may panic.\<close>

definition unit_match ::
  "(string \<Rightarrow> string list) \<Rightarrow> string \<Rightarrow> history_unit option \<Rightarrow> (history_error, history_match list) result" where
  "unit_match lower needle u =
     (case u of
        None \<Rightarrow> Ok []
      | Some (citation, text') \<Rightarrow>
          (case excerpt_around lower text' needle of
             None \<Rightarrow> Err HistoryPanic
           | Some None \<Rightarrow> Ok []
           | Some (Some excerpt) \<Rightarrow> Ok [\<lparr>ma_citation = citation, ma_excerpt = excerpt\<rparr>]))"

fun search_loop ::
  "'v history_env \<Rightarrow> history_store \<Rightarrow> string \<Rightarrow> string \<Rightarrow> nat \<Rightarrow> nat \<Rightarrow> history_cursor \<Rightarrow> history_match list \<Rightarrow> nat
    \<Rightarrow> (history_error, history_search) result" where
  "search_loop env st session needle limit 0 cursor matches scanned = Ok \<lparr>sr_matches = matches, sr_next = Some cursor\<rparr>"
| "search_loop env st session needle limit (Suc n) cursor matches scanned =
     (case history_step env st session cursor of
        Err e \<Rightarrow> Err e
      | Ok (following, u, bytes) \<Rightarrow>
          (case unit_match (he_lower env) needle u of
             Err e \<Rightarrow> Err e
           | Ok found \<Rightarrow>
               (let matches' = matches @ found; scanned' = sat_add u64_max scanned bytes
                in case following of
                     None \<Rightarrow> Ok \<lparr>sr_matches = matches', sr_next = None\<rparr>
                   | Some cursor' \<Rightarrow>
                       if limit \<le> length matches' \<or> HISTORY_SCAN_BUDGET_BYTES \<le> scanned'
                       then Ok \<lparr>sr_matches = matches', sr_next = Some cursor'\<rparr>
                       else search_loop env st session needle limit n cursor' matches' scanned')))"

definition search_session_history ::
  "'v history_env \<Rightarrow> history_store \<Rightarrow> string \<Rightarrow> string \<Rightarrow> nat \<Rightarrow> history_cursor option \<Rightarrow> (history_error, history_search) result" where
  "search_session_history env st session query limit cursor =
     search_loop env st session (he_lowercase env query) limit HISTORY_SCAN_STEPS
       (case cursor of None \<Rightarrow> default_cursor | Some c \<Rightarrow> c) [] 0"

section \<open>The tool\<close>

definition continuation :: "history_search \<Rightarrow> string" where
  "continuation search =
     (case sr_next search of
        None \<Rightarrow> []
      | Some cursor \<Rightarrow>
          [LF] @ ''[older history remains unexamined; continue with next_cursor: '' @ [CHR 0x22] @ print_cursor cursor @ [CHR 0x22]
            @ '']'' @ [LF])"

definition render_history_matches :: "'v history_env \<Rightarrow> string \<Rightarrow> history_search \<Rightarrow> string" where
  "render_history_matches env query search =
     (if sr_matches search = []
      then ''No history matches for '' @ he_debug env query @ ''.'' @ continuation search
      else nat_to_string (length (sr_matches search)) @ '' history match(es) for '' @ he_debug env query @ '':'' @ [LF]
        @ concat (map (\<lambda>hit. [LF] @ ''['' @ ma_citation hit @ '']'' @ [LF] @ ma_excerpt hit @ [LF]) (sr_matches search))
        @ continuation search)"

record history_args =
  ha_query :: string
  ha_limit :: nat
  ha_cursor :: "history_cursor option"

datatype history_outcome = HistoryRefused string | HistoryUnobserved string | HistoryText string | HistoryPanicked

text \<open>The arguments are already decoded; an error of decoding is its text.\<close>

definition search_history_call ::
  "'v history_env \<Rightarrow> history_store \<Rightarrow> string \<Rightarrow> (string, history_args) result \<Rightarrow> history_outcome" where
  "search_history_call env st session arguments =
     (case arguments of
        Err error \<Rightarrow> HistoryRefused (''invalid arguments: '' @ error)
      | Ok a \<Rightarrow>
          if trim (ha_query a) = [] then HistoryRefused ''query must not be empty''
          else (case search_session_history env st session (ha_query a) (min (max (ha_limit a) 1) MAX_HISTORY_MATCHES) (ha_cursor a) of
                  Ok search \<Rightarrow> HistoryText (render_history_matches env (ha_query a) search)
                | Err HistoryPanic \<Rightarrow> HistoryPanicked
                | Err e \<Rightarrow> HistoryUnobserved (he_error env e)))"

section \<open>Cursors survive printing\<close>

fun cursor_ok :: "history_cursor \<Rightarrow> bool" where
  "cursor_ok (CPrompt before) \<longleftrightarrow> before \<le> i64_max"
| "cursor_ok (CTurn prompt before) \<longleftrightarrow> prompt \<le> i64_max \<and> before \<le> u32_max"
| "cursor_ok (CResult prompt turn before) \<longleftrightarrow> prompt \<le> i64_max \<and> turn \<le> u32_max \<and> before \<le> u16_max"
| "cursor_ok (CAssistant prompt turn) \<longleftrightarrow> prompt \<le> i64_max \<and> turn \<le> u32_max"

lemma colon_free: "CHR '':'' \<notin> set (nat_to_string n)"
  by (rule nat_to_string_no_char) (simp add: is_ascii_digit_def)

lemma split_piece: "CHR '':'' \<notin> set a \<Longrightarrow> split_char (a @ CHR '':'' # r) CHR '':'' = a # split_char r CHR '':''"
  by (induction a) (auto simp: split_char_def)

lemma split_end: "CHR '':'' \<notin> set a \<Longrightarrow> split_char a CHR '':'' = [a]"
  by (induction a) (auto simp: split_char_def)

lemma parse_ordinal_print: "n \<le> i64_max \<Longrightarrow> parse_ordinal (nat_to_string n) = Some n"
  by (simp add: parse_ordinal_def parse_uint_nat_to_string arith_defs)

lemma split_tag:
  "split_char (CHR ''u'' # CHR '':'' # r) CHR '':'' = ''u'' # split_char r CHR '':''"
  "split_char (CHR ''r'' # CHR '':'' # r) CHR '':'' = ''r'' # split_char r CHR '':''"
  "split_char (CHR ''t'' # CHR '':'' # r) CHR '':'' = ''t'' # split_char r CHR '':''"
  "split_char (CHR ''a'' # CHR '':'' # r) CHR '':'' = ''a'' # split_char r CHR '':''"
  by (simp_all add: split_char_def)

lemma cursor_roundtrip: "cursor_ok c \<Longrightarrow> parse_cursor (print_cursor c) = Some c"
  by (cases c) (simp_all add: parse_cursor_def split_tag split_piece split_end colon_free parse_ordinal_print parse_uint_nat_to_string)

lemma parse_cursor_ok: "parse_cursor s = Some c \<Longrightarrow> cursor_ok c"
  by (auto simp: parse_cursor_def parse_ordinal_def parse_uint_def Let_def split: list.splits option.splits if_splits)

section \<open>What a session's history holds\<close>

text \<open>The rows of a table, greatest key first.\<close>

definition desc :: "('r \<Rightarrow> nat) \<Rightarrow> 'r list \<Rightarrow> 'r list" where
  "desc k rs = rev (sort_key k rs)"

definition user_units :: "history_store \<Rightarrow> message_row \<Rightarrow> history_unit list" where
  "user_units st m = (case user_text st m of None \<Rightarrow> [] | Some t \<Rightarrow> [(cite_user (hm_ordinal m), t)])"

definition result_units :: "nat \<Rightarrow> result_row \<Rightarrow> history_unit list" where
  "result_units prompt r =
     (case hr_result r of
        None \<Rightarrow> []
      | Some t \<Rightarrow>
          if is_history_tool (hr_name r) then []
          else [(hr_name r @ '' result, user message #'' @ nat_to_string prompt @ '' turn '' @ nat_to_string (hr_turn r)
                 @ '' call '' @ nat_to_string (hr_call r), t)])"

definition assistant_units :: "'v history_env \<Rightarrow> nat \<Rightarrow> turn_row \<Rightarrow> history_unit list" where
  "assistant_units env prompt t =
     (case he_decode env (ht_content t) of
        None \<Rightarrow> []
      | Some content \<Rightarrow>
          [(''assistant, user message #'' @ nat_to_string prompt @ '' turn '' @ nat_to_string (ht_ordinal t),
            turn_text (he_display env) content)])"

definition turn_units :: "'v history_env \<Rightarrow> history_store \<Rightarrow> nat \<Rightarrow> turn_row \<Rightarrow> history_unit list" where
  "turn_units env st prompt t =
     concat (map (result_units prompt) (desc hr_call
       (filter (\<lambda>r. hr_run r = ht_run t \<and> hr_turn r = ht_ordinal t) (hs_results st))))
     @ assistant_units env prompt t"

definition message_units :: "'v history_env \<Rightarrow> history_store \<Rightarrow> message_row \<Rightarrow> history_unit list" where
  "message_units env st m =
     user_units st m
     @ (if user_text st m = None \<or> hm_steering m then []
        else concat (map (turn_units env st (hm_ordinal m)) (desc ht_ordinal (filter (\<lambda>t. ht_run t = hm_run m) (hs_turns st)))))"

definition history_units :: "'v history_env \<Rightarrow> history_store \<Rightarrow> string \<Rightarrow> history_unit list" where
  "history_units env st session =
     concat (map (message_units env st) (desc hm_ordinal (filter (\<lambda>m. hm_session m = session) (hs_messages st))))"

text \<open>The unique keys of the schema, ordinals below the limits a walk starts from, and turns that decode.\<close>

definition history_ok :: "'v history_env \<Rightarrow> history_store \<Rightarrow> bool" where
  "history_ok env st \<longleftrightarrow>
     distinct (map (\<lambda>m. (hm_session m, hm_ordinal m)) (hs_messages st))
     \<and> distinct (map (\<lambda>t. (ht_run t, ht_ordinal t)) (hs_turns st))
     \<and> distinct (map (\<lambda>r. (hr_run r, hr_turn r, hr_call r)) (hs_results st))
     \<and> (\<forall>m \<in> set (hs_messages st). hm_ordinal m < i64_max)
     \<and> (\<forall>t \<in> set (hs_turns st). ht_ordinal t < u32_max \<and> he_decode env (ht_content t) \<noteq> None)
     \<and> (\<forall>r \<in> set (hs_results st). hr_call r < u16_max)"

section \<open>Rows below a key\<close>

lemma latest_last: "latest k rs = (if rs = [] then None else Some (last (sort_key k rs)))"
proof (induction rs)
  case (Cons r rs)
  show ?case
  proof (cases "rs = []")
    case False
    define L where "L = sort_key k rs"
    have L: "L \<noteq> []" using False length_sort [of k rs] unfolding L_def by (metis length_0_conv)
    have "last (insort_key k r L) = (if k (last L) < k r then r else last L)" if "sorted (map k L)" "L \<noteq> []" for L
      using that
    proof (induction L)
      case (Cons a L)
      show ?case
      proof (cases "L = []")
        case L: False
        have "k a \<le> k (last L)" using Cons.prems(1) last_in_set [OF L] by simp
        moreover have "last (insort_key k r L) = (if k (last L) < k r then r else last L)" using Cons L by simp
        ultimately show ?thesis using L by simp
      qed simp
    qed simp
    then show ?thesis using Cons.IH False L by (simp add: L_def)
  qed simp
qed simp

lemma desc_below:
  assumes dist: "inj_on k {r \<in> set rs. P r}" and m: "latest k (filter (\<lambda>r. P r \<and> k r < b) rs) = Some m" and d: "distinct rs"
  shows "desc k (filter (\<lambda>r. P r \<and> k r < b) rs) = m # desc k (filter (\<lambda>r. P r \<and> k r < k m) rs)"
    and "P m" and "m \<in> set rs" and "k m < b"
proof -
  let ?S = "sort_key k (filter (\<lambda>r. P r \<and> k r < b) rs)"
  have ne: "filter (\<lambda>r. P r \<and> k r < b) rs \<noteq> []" and l: "m = last ?S" using m by (auto simp: latest_last split: if_splits)
  then have "?S \<noteq> []" using length_sort [of k "filter (\<lambda>r. P r \<and> k r < b) rs"] by (metis length_0_conv)
  then obtain xs where S: "?S = xs @ [m]" using l append_butlast_last_id by metis
  then have "m \<in> set ?S" by simp
  then show mm: "P m" "m \<in> set rs" "k m < b" by auto
  have sub: "set (xs @ [m]) \<subseteq> {r \<in> set rs. P r}" unfolding S [symmetric] by auto
  have "distinct ?S" using d by simp
  moreover have "sorted (map k ?S)" by simp
  ultimately have sd: "distinct (xs @ [m])" "sorted (map k (xs @ [m]))" unfolding S by simp_all
  have lt: "k x < k m" if "x \<in> set xs" for x
  proof -
    have "k x \<le> k m" using sd(2) that by (auto simp: sorted_append)
    moreover have "k x \<noteq> k m" using dist sub sd(1) that by (auto simp: inj_on_def)
    ultimately show ?thesis by simp
  qed
  have "filter (\<lambda>r. P r \<and> k r < k m) rs = filter (\<lambda>r. k r < k m) (filter (\<lambda>r. P r \<and> k r < b) rs)"
    using mm(3) by (auto intro: filter_cong)
  then have "sort_key k (filter (\<lambda>r. P r \<and> k r < k m) rs) = filter (\<lambda>r. k r < k m) ?S" by (simp add: filter_sort)
  also have "\<dots> = xs" unfolding S using lt by simp
  finally show "desc k (filter (\<lambda>r. P r \<and> k r < b) rs) = m # desc k (filter (\<lambda>r. P r \<and> k r < k m) rs)"
    unfolding desc_def S by simp
qed

lemma latest_None: "latest k rs = None \<longleftrightarrow> rs = []"
  by (simp add: latest_last)

section \<open>A step reads the next unit\<close>

text \<open>The units a cursor has still before it.\<close>

definition rest_prompt :: "'v history_env \<Rightarrow> history_store \<Rightarrow> string \<Rightarrow> nat \<Rightarrow> history_unit list" where
  "rest_prompt env st session before =
     concat (map (message_units env st)
       (desc hm_ordinal (filter (\<lambda>m. hm_session m = session \<and> hm_ordinal m < before) (hs_messages st))))"

definition rest_turn :: "'v history_env \<Rightarrow> history_store \<Rightarrow> string \<Rightarrow> nat \<Rightarrow> nat \<Rightarrow> history_unit list" where
  "rest_turn env st session prompt before =
     concat (map (turn_units env st prompt)
       (desc ht_ordinal (filter (\<lambda>t. Some (ht_run t) = prompt_run st session prompt \<and> ht_ordinal t < before) (hs_turns st))))
     @ rest_prompt env st session prompt"

definition rest_assistant :: "'v history_env \<Rightarrow> history_store \<Rightarrow> string \<Rightarrow> nat \<Rightarrow> nat \<Rightarrow> history_unit list" where
  "rest_assistant env st session prompt turn =
     (case find (\<lambda>t. Some (ht_run t) = prompt_run st session prompt \<and> ht_ordinal t = turn) (hs_turns st) of
        None \<Rightarrow> [] | Some t \<Rightarrow> assistant_units env prompt t)
     @ rest_turn env st session prompt turn"

definition rest_result :: "'v history_env \<Rightarrow> history_store \<Rightarrow> string \<Rightarrow> nat \<Rightarrow> nat \<Rightarrow> nat \<Rightarrow> history_unit list" where
  "rest_result env st session prompt turn before =
     concat (map (result_units prompt) (desc hr_call
       (filter (\<lambda>r. (Some (hr_run r) = prompt_run st session prompt \<and> hr_turn r = turn) \<and> hr_call r < before) (hs_results st))))
     @ rest_assistant env st session prompt turn"

fun rest_units :: "'v history_env \<Rightarrow> history_store \<Rightarrow> string \<Rightarrow> history_cursor \<Rightarrow> history_unit list" where
  "rest_units env st session (CPrompt before) = rest_prompt env st session before"
| "rest_units env st session (CTurn prompt before) = rest_turn env st session prompt before"
| "rest_units env st session (CResult prompt turn before) = rest_result env st session prompt turn before"
| "rest_units env st session (CAssistant prompt turn) = rest_assistant env st session prompt turn"

text \<open>A walk ends: the place of a cursor, in lexicographic order, decreases with every step.\<close>

fun cursor_rank :: "history_cursor \<Rightarrow> nat \<times> nat \<times> nat \<times> nat \<times> nat" where
  "cursor_rank (CPrompt before) = (before, 0, 0, 0, 0)"
| "cursor_rank (CTurn prompt before) = (prompt, 1, before, 0, 0)"
| "cursor_rank (CResult prompt turn before) = (prompt, 1, turn, 2, before)"
| "cursor_rank (CAssistant prompt turn) = (prompt, 1, turn, 1, 0)"

definition earlier :: "(history_cursor \<times> history_cursor) set" where
  "earlier = inv_image (less_than <*lex*> less_than <*lex*> less_than <*lex*> less_than <*lex*> less_than) cursor_rank"

lemma wf_earlier: "wf earlier"
  unfolding earlier_def by (intro wf_inv_image wf_lex_prod wf_less_than)

lemma trans_earlier: "trans earlier"
  unfolding earlier_def by (intro trans_inv_image trans_lex_prod trans_less_than)

lemmas rank_simps = earlier_def in_inv_image in_lex_prod less_than_iff cursor_rank.simps

definition step_spec :: "'v history_env \<Rightarrow> history_store \<Rightarrow> string \<Rightarrow> history_cursor \<Rightarrow> step_outcome \<Rightarrow> bool" where
  "step_spec env st session c r =
     (case r of (following, u, bytes) \<Rightarrow>
        rest_units env st session c =
          (case u of None \<Rightarrow> [] | Some x \<Rightarrow> [x]) @ (case following of None \<Rightarrow> [] | Some c' \<Rightarrow> rest_units env st session c')
        \<and> (\<forall>c'. following = Some c' \<longrightarrow> (c', c) \<in> earlier \<and> (cursor_ok c \<longrightarrow> cursor_ok c')))"

lemma ok_keys:
  assumes "history_ok env st"
  shows "inj_on hm_ordinal {m \<in> set (hs_messages st). hm_session m = session}"
    and "inj_on ht_ordinal {t \<in> set (hs_turns st). Some (ht_run t) = run}"
    and "inj_on hr_call {r \<in> set (hs_results st). Some (hr_run r) = run \<and> hr_turn r = turn}"
    and "distinct (hs_messages st)" and "distinct (hs_turns st)" and "distinct (hs_results st)"
proof -
  have d: "distinct (map (\<lambda>m. (hm_session m, hm_ordinal m)) (hs_messages st))"
    "distinct (map (\<lambda>t. (ht_run t, ht_ordinal t)) (hs_turns st))"
    "distinct (map (\<lambda>r. (hr_run r, hr_turn r, hr_call r)) (hs_results st))"
    using assms by (simp_all add: history_ok_def)
  then show "distinct (hs_messages st)" "distinct (hs_turns st)" "distinct (hs_results st)" by (simp_all add: distinct_map)
  show "inj_on hm_ordinal {m \<in> set (hs_messages st). hm_session m = session}"
    using d(1) by (auto simp: distinct_map inj_on_def)
  show "inj_on ht_ordinal {t \<in> set (hs_turns st). Some (ht_run t) = run}"
    using d(2) by (auto simp: distinct_map inj_on_def)
  show "inj_on hr_call {r \<in> set (hs_results st). Some (hr_run r) = run \<and> hr_turn r = turn}"
    using d(3) by (auto simp: distinct_map inj_on_def)
qed

lemma ok_bounds:
  assumes "history_ok env st"
  shows "m \<in> set (hs_messages st) \<Longrightarrow> hm_ordinal m < i64_max"
    and "t \<in> set (hs_turns st) \<Longrightarrow> ht_ordinal t < u32_max"
    and "t \<in> set (hs_turns st) \<Longrightarrow> \<exists>content. he_decode env (ht_content t) = Some content"
    and "r \<in> set (hs_results st) \<Longrightarrow> hr_call r < u16_max"
  using assms by (auto simp: history_ok_def)

lemma find_unique:
  assumes "x \<in> set xs" "P x" "\<And>y. y \<in> set xs \<Longrightarrow> P y \<Longrightarrow> y = x"
  shows "find P xs = Some x"
proof (cases "find P xs")
  case (Some y)
  then have "y \<in> set xs \<and> P y" by (auto simp: find_Some_iff)
  then show ?thesis using Some assms(3) by simp
qed (use assms(1,2) in \<open>auto simp: find_None_iff\<close>)

lemma prompt_run_of:
  assumes "history_ok env st" "m \<in> set (hs_messages st)" "hm_session m = session" "hm_role m = ''user''" "\<not> hm_steering m"
  shows "prompt_run st session (hm_ordinal m) = Some (hm_run m)"
proof -
  have "find (\<lambda>x. hm_session x = session \<and> hm_ordinal x = hm_ordinal m \<and> hm_role x = ''user'' \<and> \<not> hm_steering x) (hs_messages st)
    = Some m"
    by (rule find_unique) (use assms ok_keys(1) [OF assms(1), of session] in \<open>auto simp: inj_on_def\<close>)
  then show ?thesis by (simp add: prompt_run_def)
qed

lemma user_text_role: "user_text st m = Some t \<Longrightarrow> hm_role m = ''user''"
  by (auto simp: user_text_def split: if_splits)

lemma step_prompt_spec:
  assumes ok: "history_ok env st"
  shows "\<exists>r. step_prompt st session before = Ok r \<and> step_spec env st session (CPrompt before) r"
proof (cases "latest hm_ordinal (filter (\<lambda>m. hm_session m = session \<and> hm_ordinal m < before) (hs_messages st))")
  case None
  then show ?thesis by (simp add: step_prompt_def step_spec_def rest_prompt_def latest_None desc_def)
next
  case (Some m)
  note d = desc_below [OF ok_keys(1) [OF ok] Some ok_keys(4) [OF ok]]
  have rest: "rest_prompt env st session before = message_units env st m @ rest_prompt env st session (hm_ordinal m)"
    using d(1) by (simp add: rest_prompt_def)
  have b: "hm_ordinal m < i64_max" "hm_ordinal m < before" using ok_bounds(1) [OF ok] d by auto
  have col: "column u64_max (hm_ordinal m) = Ok (hm_ordinal m)" using b(1) by (simp add: column_def arith_defs)
  show ?thesis
  proof (cases "user_text st m")
    case None
    then have "message_units env st m = []" by (simp add: message_units_def user_units_def)
    then show ?thesis using Some None col b rest
      by (simp add: step_prompt_def step_spec_def rank_simps)
  next
    case text': (Some x)
    have turns: "rest_turn env st session (hm_ordinal m) u32_max
      = concat (map (turn_units env st (hm_ordinal m)) (desc ht_ordinal (filter (\<lambda>t. ht_run t = hm_run m) (hs_turns st))))
        @ rest_prompt env st session (hm_ordinal m)" if "\<not> hm_steering m"
    proof -
      have "prompt_run st session (hm_ordinal m) = Some (hm_run m)"
        by (rule prompt_run_of [OF ok d(3) d(2) user_text_role [OF text'] that])
      then have "filter (\<lambda>t. Some (ht_run t) = prompt_run st session (hm_ordinal m) \<and> ht_ordinal t < u32_max) (hs_turns st)
        = filter (\<lambda>t. ht_run t = hm_run m) (hs_turns st)"
        using ok_bounds(2) [OF ok] by (auto intro: filter_cong)
      then show ?thesis by (simp add: rest_turn_def)
    qed
    show ?thesis using Some text' col b rest turns
      by (simp add: step_prompt_def step_spec_def rank_simps message_units_def user_units_def)
  qed
qed

lemma step_turn_spec:
  assumes ok: "history_ok env st"
  shows "\<exists>r. step_turn st session prompt before = Ok r \<and> step_spec env st session (CTurn prompt before) r"
proof (cases "latest ht_ordinal (filter (\<lambda>t. Some (ht_run t) = prompt_run st session prompt \<and> ht_ordinal t < before) (hs_turns st))")
  case None
  then show ?thesis by (simp add: step_turn_def step_spec_def rest_turn_def latest_None desc_def rank_simps)
next
  case (Some t)
  note d = desc_below [OF ok_keys(2) [OF ok] Some ok_keys(5) [OF ok]]
  have b: "ht_ordinal t < u32_max" "ht_ordinal t < before" using ok_bounds(2) [OF ok] d by auto
  have col: "column u32_max (ht_ordinal t) = Ok (ht_ordinal t)" using b(1) by (simp add: column_def)
  have "find (\<lambda>x. Some (ht_run x) = prompt_run st session prompt \<and> ht_ordinal x = ht_ordinal t) (hs_turns st) = Some t"
    by (rule find_unique) (use d ok_keys(2) [OF ok, of "prompt_run st session prompt"] in \<open>auto simp: inj_on_def\<close>)
  moreover have "filter (\<lambda>r. (Some (hr_run r) = prompt_run st session prompt \<and> hr_turn r = ht_ordinal t) \<and> hr_call r < u16_max) (hs_results st)
    = filter (\<lambda>r. hr_run r = ht_run t \<and> hr_turn r = ht_ordinal t) (hs_results st)"
    using ok_bounds(4) [OF ok] d(2) [symmetric] by (auto intro: filter_cong)
  ultimately have "rest_turn env st session prompt before = rest_result env st session prompt (ht_ordinal t) u16_max"
    using d(1) by (simp add: rest_turn_def rest_result_def rest_assistant_def turn_units_def)
  then show ?thesis using Some col b by (simp add: step_turn_def step_spec_def rank_simps)
qed

lemma step_result_spec:
  assumes ok: "history_ok env st"
  shows "\<exists>r. step_result st session prompt turn before = Ok r \<and> step_spec env st session (CResult prompt turn before) r"
proof (cases "latest hr_call (filter (\<lambda>r. (Some (hr_run r) = prompt_run st session prompt \<and> hr_turn r = turn) \<and> hr_call r < before)
    (hs_results st))")
  case None
  then show ?thesis
    by (simp add: step_result_def step_spec_def rest_result_def latest_None desc_def rank_simps conj_assoc)
next
  case (Some r)
  note d = desc_below [OF ok_keys(3) [OF ok] Some ok_keys(6) [OF ok]]
  have b: "hr_call r < u16_max" "hr_call r < before" using ok_bounds(4) [OF ok] d by auto
  have col: "column u16_max (hr_call r) = Ok (hr_call r)" using b(1) by (simp add: column_def)
  have "rest_result env st session prompt turn before = result_units prompt r @ rest_result env st session prompt turn (hr_call r)"
    using d(1) by (simp add: rest_result_def)
  then show ?thesis using Some col b d(2)
    by (cases "hr_result r"; cases "hr_name r = ''search_history''")
      (simp_all add: step_result_def step_spec_def rank_simps result_units_def is_history_tool_def conj_assoc)
qed

lemma step_assistant_spec:
  assumes ok: "history_ok env st"
  shows "\<exists>r. step_assistant env st session prompt turn = Ok r \<and> step_spec env st session (CAssistant prompt turn) r"
proof (cases "find (\<lambda>t. Some (ht_run t) = prompt_run st session prompt \<and> ht_ordinal t = turn) (hs_turns st)")
  case None
  then show ?thesis by (simp add: step_assistant_def step_spec_def rest_assistant_def rank_simps)
next
  case (Some t)
  then have t: "t \<in> set (hs_turns st)" "ht_ordinal t = turn" by (auto simp: find_Some_iff)
  then obtain content where "he_decode env (ht_content t) = Some content" using ok_bounds(3) [OF ok] by blast
  then show ?thesis using Some t(2)
    by (simp add: step_assistant_def step_spec_def rest_assistant_def rank_simps assistant_units_def)
qed

lemma history_step_spec:
  assumes "history_ok env st"
  shows "\<exists>r. history_step env st session c = Ok r \<and> step_spec env st session c r"
  using step_prompt_spec step_turn_spec step_result_spec step_assistant_spec assms by (cases c) fastforce+

section \<open>Following the cursors reads the whole history\<close>

definition unit_hits :: "(string \<Rightarrow> string list) \<Rightarrow> string \<Rightarrow> history_unit \<Rightarrow> history_match list" where
  "unit_hits lower needle u =
     (case excerpt_around lower (snd u) needle of
        Some (Some excerpt) \<Rightarrow> [\<lparr>ma_citation = fst u, ma_excerpt = excerpt\<rparr>]
      | _ \<Rightarrow> [])"

definition hits :: "(string \<Rightarrow> string list) \<Rightarrow> string \<Rightarrow> history_unit list \<Rightarrow> history_match list" where
  "hits lower needle us = concat (map (unit_hits lower needle) us)"

definition lower_ok :: "(string \<Rightarrow> string list) \<Rightarrow> bool" where
  "lower_ok lower \<longleftrightarrow> (\<forall>c. lower c \<noteq> []) \<and> (\<forall>c. is_ascii c \<longrightarrow> lower [c] = [[to_ascii_lower c]])"

lemma unit_match_hits:
  assumes "lower_ok lower"
  shows "unit_match lower needle u = Ok (hits lower needle (case u of None \<Rightarrow> [] | Some x \<Rightarrow> [x]))"
proof (cases u)
  case (Some x)
  obtain c t where x: "x = (c, t)" by force
  obtain r where "excerpt_around lower t needle = Some r"
    using excerpt_total [of lower t needle] assms by (auto simp: lower_ok_def)
  then show ?thesis using Some x by (cases r) (simp_all add: unit_match_def hits_def unit_hits_def)
qed (simp add: unit_match_def hits_def)

lemma unit_hits_length: "length (unit_hits lower needle u) \<le> 1"
  by (simp add: unit_hits_def split: option.splits)

text \<open>What a search from a cursor returns: the matches up to where it stops, and nothing after it unseen.\<close>

definition page_spec ::
  "'v history_env \<Rightarrow> history_store \<Rightarrow> string \<Rightarrow> string \<Rightarrow> nat \<Rightarrow> history_cursor \<Rightarrow> history_match list \<Rightarrow> history_search \<Rightarrow> bool" where
  "page_spec env st session needle limit c before s \<longleftrightarrow>
     before @ hits (he_lower env) needle (rest_units env st session c) =
       sr_matches s @ (case sr_next s of None \<Rightarrow> [] | Some c' \<Rightarrow> hits (he_lower env) needle (rest_units env st session c'))
     \<and> (length before < limit \<longrightarrow> length (sr_matches s) \<le> limit)
     \<and> (\<forall>c'. sr_next s = Some c' \<longrightarrow> (c' = c \<or> (c', c) \<in> earlier) \<and> (cursor_ok c \<longrightarrow> cursor_ok c'))"

lemma search_loop_spec:
  assumes ok: "history_ok env st" and low: "lower_ok (he_lower env)"
  shows "\<exists>s. search_loop env st session needle limit n c before scanned = Ok s \<and> page_spec env st session needle limit c before s
    \<and> (0 < n \<longrightarrow> sr_next s \<noteq> Some c)"
proof (induction n arbitrary: c before scanned)
  case 0
  then show ?case by (simp add: page_spec_def)
next
  case (Suc n)
  obtain following u bytes where st: "history_step env st session c = Ok (following, u, bytes)"
    and sp: "step_spec env st session c (following, u, bytes)"
    using history_step_spec [OF ok, of session c] by auto
  define found where "found = hits (he_lower env) needle (case u of None \<Rightarrow> [] | Some x \<Rightarrow> [x])"
  have um: "unit_match (he_lower env) needle u = Ok found" unfolding found_def by (rule unit_match_hits [OF low])
  have len: "length found \<le> 1" using unit_hits_length [of "he_lower env" needle] by (cases u) (simp_all add: found_def hits_def)
  have rest: "hits (he_lower env) needle (rest_units env st session c)
      = found @ (case following of None \<Rightarrow> [] | Some c' \<Rightarrow> hits (he_lower env) needle (rest_units env st session c'))"
    using sp by (cases following) (simp_all add: step_spec_def found_def hits_def)
  show ?case
  proof (cases following)
    case None
    then show ?thesis using st um rest len by (simp add: page_spec_def)
  next
    case (Some c')
    have c': "(c', c) \<in> earlier" "cursor_ok c \<longrightarrow> cursor_ok c'" using sp Some by (auto simp: step_spec_def)
    have irr: "(x, x) \<notin> earlier" for x using wf_earlier by (rule wf_not_refl)
    let ?stop = "limit \<le> length (before @ found) \<or> HISTORY_SCAN_BUDGET_BYTES \<le> sat_add u64_max scanned bytes"
    show ?thesis
    proof (cases ?stop)
      case True
      have "c' \<noteq> c" using c'(1) irr by auto
      then show ?thesis using st um rest len c' Some True by (simp add: page_spec_def)
    next
      case False
      obtain s where s: "search_loop env st session needle limit n c' (before @ found) (sat_add u64_max scanned bytes) = Ok s"
        and p: "page_spec env st session needle limit c' (before @ found) s"
        using Suc.IH [of c' "before @ found" "sat_add u64_max scanned bytes"] by auto
      have chain: "(c'', c) \<in> earlier" if "c'' = c' \<or> (c'', c') \<in> earlier" for c''
        using that c'(1) trans_earlier by (auto dest: transD)
      have "search_loop env st session needle limit (Suc n) c before scanned = Ok s"
        using st um Some False s by (simp add: Let_def)
      moreover have "page_spec env st session needle limit c before s"
        using p rest Some False c'(2) chain by (auto simp: page_spec_def)
      moreover have "sr_next s \<noteq> Some c" using p chain irr by (auto simp: page_spec_def)
      ultimately show ?thesis by blast
    qed
  qed
qed

text \<open>A reader that copies \<open>next_cursor\<close> from the text of every result until there is none.\<close>

fun follow ::
  "nat \<Rightarrow> 'v history_env \<Rightarrow> history_store \<Rightarrow> string \<Rightarrow> string \<Rightarrow> nat \<Rightarrow> history_cursor option \<Rightarrow> history_match list list option" where
  "follow 0 env st session query limit cursor = None"
| "follow (Suc n) env st session query limit cursor =
     (case search_session_history env st session query limit cursor of
        Err e \<Rightarrow> None
      | Ok s \<Rightarrow>
          (case sr_next s of
             None \<Rightarrow> Some [sr_matches s]
           | Some c \<Rightarrow>
               (case parse_cursor (print_cursor c) of
                  None \<Rightarrow> None
                | Some c' \<Rightarrow> map_option ((#) (sr_matches s)) (follow n env st session query limit (Some c')))))"

lemma follow_from:
  assumes ok: "history_ok env st" and low: "lower_ok (he_lower env)" and limit: "1 \<le> limit"
  shows "cursor_ok c \<Longrightarrow> (case cursor of None \<Rightarrow> default_cursor | Some x \<Rightarrow> x) = c \<Longrightarrow>
    \<exists>n pages. follow n env st session query limit cursor = Some pages
      \<and> concat pages = hits (he_lower env) (he_lowercase env query) (rest_units env st session c)
      \<and> (\<forall>page \<in> set pages. length page \<le> limit)"
  using wf_earlier
proof (induction c arbitrary: cursor rule: wf_induct_rule)
  case (less c)
  obtain s where s: "search_session_history env st session query limit cursor = Ok s"
    and p: "page_spec env st session (he_lowercase env query) limit c [] s" and moved: "sr_next s \<noteq> Some c"
    using search_loop_spec [OF ok low, of session "he_lowercase env query" limit HISTORY_SCAN_STEPS c "[]" 0] less.prems(2)
    by (auto simp: search_session_history_def HISTORY_SCAN_STEPS_def)
  have len: "length (sr_matches s) \<le> limit" using p limit by (simp add: page_spec_def)
  show ?case
  proof (cases "sr_next s")
    case None
    then show ?thesis using s p len by (intro exI [of _ "Suc 0"] exI [of _ "[sr_matches s]"]) (simp add: page_spec_def)
  next
    case (Some c')
    have c': "(c', c) \<in> earlier" "cursor_ok c'" using p Some moved less.prems(1) by (auto simp: page_spec_def)
    obtain n pages where f: "follow n env st session query limit (Some c') = Some pages"
      "concat pages = hits (he_lower env) (he_lowercase env query) (rest_units env st session c')"
      "\<forall>page \<in> set pages. length page \<le> limit"
      using less.IH [OF c', of "Some c'"] by auto
    show ?thesis using s p len Some cursor_roundtrip [OF c'(2)] f
      by (intro exI [of _ "Suc n"] exI [of _ "sr_matches s # pages"]) (simp add: page_spec_def)
  qed
qed

lemma rest_default: "history_ok env st \<Longrightarrow> rest_units env st session default_cursor = history_units env st session"
  using ok_bounds(1) [of env st]
  by (simp add: default_cursor_def rest_prompt_def history_units_def cong: filter_cong conj_cong)

text \<open>C9 (liveness). Copying the cursor of every result into the next search comes to an end, every result holds at most as
  many matches as asked for, and all of them together are exactly the excerpts of the history that
  match, in its order: prompts from the newest to the oldest, each followed by its turns from the last to the
  first, each with its tool results from the last to the first and then the reply. It holds although a single
  search stops after 1024 steps and eight megabytes. The keys of the tables are unique and stored turns
  decode.\<close>

theorem history_search_complete:
  assumes "history_ok env st" and "lower_ok (he_lower env)" and "1 \<le> limit"
  shows "\<exists>n pages. follow n env st session query limit None = Some pages
      \<and> concat pages = hits (he_lower env) (he_lowercase env query) (history_units env st session)
      \<and> (\<forall>page \<in> set pages. length page \<le> limit)"
  using follow_from [OF assms, of default_cursor None session query] rest_default [OF assms(1), of session]
  by (simp add: default_cursor_def)

abbreviation sample_env :: "unit history_env" where
  "sample_env \<equiv> \<lparr>he_decode = \<lambda>s. Some [TextBlock s], he_display = \<lambda>_. ''{}'', he_lower = \<lambda>c. [map to_ascii_lower c],
     he_lowercase = map to_ascii_lower, he_debug = id, he_error = \<lambda>_. ''failed''\<rparr>"

abbreviation sample_history :: history_store where
  "sample_history \<equiv>
     \<lparr>hs_messages = [\<lparr>hm_id = ''m'', hm_session = ''s'', hm_run = ''r'', hm_ordinal = 4, hm_role = ''user'', hm_state = ''complete'',
         hm_steering = False, hm_output = ''Fix''\<rparr>],
      hs_chunks = [\<lparr>hk_message = ''m'', hk_channel = ''output'', hk_ordinal = 1, hk_text = '' it''\<rparr>],
      hs_turns = [\<lparr>ht_run = ''r'', ht_ordinal = 1, ht_content = ''done''\<rparr>],
      hs_results = [\<lparr>hr_run = ''r'', hr_turn = 1, hr_call = 0, hr_name = ''shell'', hr_result = Some ''no fix''\<rparr>]\<rparr>"

theorem history_search_complete_witness:
  "\<exists>n pages. follow n sample_env sample_history ''s'' ''FIX'' 8 None = Some pages
      \<and> concat pages = [\<lparr>ma_citation = ''user message #4'', ma_excerpt = ''Fix it''\<rparr>,
          \<lparr>ma_citation = ''shell result, user message #4 turn 1 call 0'', ma_excerpt = ''no fix''\<rparr>]
      \<and> (\<forall>page \<in> set pages. length page \<le> 8)"
proof -
  have ok: "history_ok sample_env sample_history" by (simp add: history_ok_def arith_defs)
  have low: "lower_ok (he_lower sample_env)" by (simp add: lower_ok_def)
  have "hits (he_lower sample_env) (he_lowercase sample_env ''FIX'') (history_units sample_env sample_history ''s'') =
    [\<lparr>ma_citation = ''user message #4'', ma_excerpt = ''Fix it''\<rparr>,
     \<lparr>ma_citation = ''shell result, user message #4 turn 1 call 0'', ma_excerpt = ''no fix''\<rparr>]" by code_simp
  then show ?thesis using history_search_complete [OF ok low, of 8 "''s''" "''FIX''"] by simp
qed

text \<open>The query is put into lower case as a text, where a sigma at the end of a word becomes the final one, and the
  history character by character, where it does not: a query that ends in a capital sigma does not
  match the very same text.\<close>

abbreviation "capital_sigma \<equiv> [CHR 0xCE, CHR 0xA3] :: string"
abbreviation "small_sigma \<equiv> [CHR 0xCF, CHR 0x83] :: string"
abbreviation "final_sigma \<equiv> [CHR 0xCF, CHR 0x82] :: string"

lemma final_sigma_missed:
  assumes "lower capital_sigma = [small_sigma]" and "is_ascii c" and "lower [c] = [[to_ascii_lower c]]"
  shows "find_case_insensitive lower (c # capital_sigma) (to_ascii_lower c # final_sigma) = None"
proof -
  have l: "is_ascii (to_ascii_lower c)" using assms(2) by (rule ascii_lower)
  have u: "utf8_len capital_sigma = 2" "utf8_len final_sigma = 2" by (simp_all add: utf8_len_def is_ascii_def lead2_def cont_def)
  have s: "str_chars (c # capital_sigma) = [[c], capital_sigma]" "str_chars (to_ascii_lower c # final_sigma) = [[to_ascii_lower c], final_sigma]"
    using assms(2) l u by (simp_all add: str_chars.simps [of "_ # _ # _"] str_chars.simps [of "[]"] utf8_len_def [of "_ # _ # _ # _"])
  show ?thesis using assms(1,3) l
    by (simp add: find_case_insensitive_def s fallback_table_def extend_match_def is_ascii_def Let_def upt_rec)
qed

end
