(* ===== verification/Client_Index.thy ===== *)
theory Client_Index
  imports Journal "HOL-Library.List_Lexorder" "HOL-Library.Char_ord"
begin

text \<open>
  The tree of sessions a client shows (\<^verbatim>\<open>TreeIndex\<close> and \<^verbatim>\<open>SessionStore::index\<close> of \<^verbatim>\<open>qq-client/src/state.rs\<close>): the order of
  the threads, their depths, and which are listed or hidden, from the parents the server names. A parent may be
  unknown to the client, and nothing here rules out that parents form a cycle.
\<close>

section \<open>The rows of the tree\<close>

text \<open>What the index reads of a session. The list of rows stands in the order in which the map of sessions is
  iterated, which is arbitrary.\<close>

record tree_row =
  nd_session :: ident
  nd_parent :: "ident option"
  nd_spawned_by_call :: "ident option"
  nd_updated_at :: nat
  nd_title :: string
  nd_audit :: bool

type_synonym tree_rows = "(ident \<times> tree_row) list"

record tree_index =
  ix_order :: "ident list"
  ix_depth :: "ident \<Rightarrow> nat option"
  ix_children :: "ident option \<Rightarrow> ident list"
  ix_spawned_by_call :: "ident \<Rightarrow> ident option"
  ix_hidden :: "ident set"
  ix_listed :: "ident list"

text \<open>A stable sort by a comparison.\<close>

fun insort_by :: "('a \<Rightarrow> 'a \<Rightarrow> bool) \<Rightarrow> 'a \<Rightarrow> 'a list \<Rightarrow> 'a list" where
  "insort_by le x [] = [x]"
| "insort_by le x (y # ys) = (if le x y then x # y # ys else y # insort_by le x ys)"

definition sort_by :: "('a \<Rightarrow> 'a \<Rightarrow> bool) \<Rightarrow> 'a list \<Rightarrow> 'a list" where
  "sort_by le xs = foldr (insort_by le) xs []"

text \<open>Oldest first, and for the same time by the title, backwards.\<close>

definition sibling_le :: "tree_row \<Rightarrow> tree_row \<Rightarrow> bool" where
  "sibling_le a b \<longleftrightarrow> nd_updated_at a < nd_updated_at b \<or> nd_updated_at a = nd_updated_at b \<and> nd_title b \<le> nd_title a"

definition top_le :: "tree_row \<Rightarrow> tree_row \<Rightarrow> bool" where
  "top_le a b \<longleftrightarrow> nd_updated_at a < nd_updated_at b
     \<or> nd_updated_at a = nd_updated_at b \<and> (nd_title b < nd_title a \<or> nd_title a = nd_title b \<and> nd_session a \<le> nd_session b)"

text \<open>Sorting looks the sessions up by their identifiers, and panics (\<open>None\<close>) if one is not there.\<close>

definition rows_found :: "tree_rows \<Rightarrow> bool" where
  "rows_found ss \<longleftrightarrow> (\<forall>r \<in> snd ` set ss. map_of ss (nd_session r) \<noteq> None)"

definition children_index :: "tree_rows \<Rightarrow> ident option \<Rightarrow> ident list" where
  "children_index ss p =
     map nd_session (sort_by sibling_le
       (map (\<lambda>r. the (map_of ss (nd_session r))) (filter (\<lambda>r. nd_parent r = p) (map snd ss))))"

definition spawned_index :: "tree_rows \<Rightarrow> ident \<Rightarrow> ident option" where
  "spawned_index ss =
     foldl (\<lambda>m r. case nd_spawned_by_call r of Some call \<Rightarrow> m(call \<mapsto> nd_session r) | None \<Rightarrow> m) Map.empty (map snd ss)"

text \<open>The sessions a walk starts from: those without a parent, which are rooted, and those whose parent is unknown.\<close>

definition is_top :: "tree_rows \<Rightarrow> tree_row \<Rightarrow> bool" where
  "is_top ss r \<longleftrightarrow> (case nd_parent r of None \<Rightarrow> True | Some p \<Rightarrow> map_of ss p = None)"

definition tops :: "tree_rows \<Rightarrow> (ident \<times> bool) list" where
  "tops ss =
     map (\<lambda>r. (nd_session r, nd_parent r = None)) (sort_by top_le
       (map (\<lambda>r. the (map_of ss (nd_session r))) (filter (is_top ss) (map snd ss))))"

section \<open>The walk\<close>

record walk_entry =
  we_session :: ident
  we_depth :: nat
  we_under_audit :: bool
  we_rooted :: bool

definition visit :: "tree_row \<Rightarrow> walk_entry \<Rightarrow> tree_index \<Rightarrow> tree_index" where
  "visit r e ix =
     (let id' = we_session e;
          ix1 = (if we_rooted e then ix\<lparr>ix_order := ix_order ix @ [id'], ix_depth := (ix_depth ix)(id' \<mapsto> we_depth e)\<rparr> else ix)
      in if we_under_audit e \<or> nd_audit r then ix1\<lparr>ix_hidden := insert id' (ix_hidden ix1)\<rparr>
         else if we_depth e = 0 then ix1\<lparr>ix_listed := ix_listed ix1 @ [id']\<rparr> else ix1)"

definition kids :: "tree_index \<Rightarrow> tree_row \<Rightarrow> walk_entry \<Rightarrow> walk_entry list" where
  "kids ix r e =
     map (\<lambda>k. \<lparr>we_session = k, we_depth = we_depth e + 1, we_under_audit = we_under_audit e \<or> nd_audit r, we_rooted = we_rooted e\<rparr>)
       (ix_children ix (Some (we_session e)))"

text \<open>The loop over the stack, whose top is the head of the list here. It stops because no session is met
  twice: as many steps as there are sessions are enough (\<open>walk_spec\<close>).\<close>

fun walk :: "nat \<Rightarrow> tree_rows \<Rightarrow> walk_entry list \<Rightarrow> tree_index \<Rightarrow> tree_index option" where
  "walk n ss [] ix = Some ix"
| "walk 0 ss (e # es) ix = None"
| "walk (Suc n) ss (e # es) ix =
     (case map_of ss (we_session e) of
        None \<Rightarrow> None
      | Some r \<Rightarrow> walk n ss (kids ix r e @ es) (visit r e ix))"

definition empty_index :: "tree_rows \<Rightarrow> tree_index" where
  "empty_index ss =
     \<lparr>ix_order = [], ix_depth = Map.empty, ix_children = children_index ss, ix_spawned_by_call = spawned_index ss,
      ix_hidden = {}, ix_listed = []\<rparr>"

definition build_index :: "tree_rows \<Rightarrow> tree_index option" where
  "build_index ss =
     (if rows_found ss
      then walk (length ss) ss
             (map (\<lambda>(k, rooted). \<lparr>we_session = k, we_depth = 0, we_under_audit = False, we_rooted = rooted\<rparr>) (rev (tops ss)))
             (empty_index ss)
      else None)"

section \<open>Every session under a root once, after its parent\<close>

text \<open>The depth of a session: the number of parents up to a session that has none.\<close>

inductive rooted :: "tree_rows \<Rightarrow> ident \<Rightarrow> nat \<Rightarrow> bool" for ss where
  root: "map_of ss s = Some r \<Longrightarrow> nd_parent r = None \<Longrightarrow> rooted ss s 0"
| child: "map_of ss s = Some r \<Longrightarrow> nd_parent r = Some p \<Longrightarrow> rooted ss p d \<Longrightarrow> rooted ss s (Suc d)"

inductive_cases rooted_zeroE: "rooted ss s 0"
inductive_cases rooted_sucE: "rooted ss s (Suc d)"

text \<open>Every session stands under its own identifier, once.\<close>

definition rows_keyed :: "tree_rows \<Rightarrow> bool" where
  "rows_keyed ss \<longleftrightarrow> distinct (map fst ss) \<and> (\<forall>(k, r) \<in> set ss. nd_session r = k)"

lemma set_insort_by [simp]: "set (insort_by le x ys) = insert x (set ys)"
  by (induction ys) auto

lemma mset_insort_by: "distinct (insort_by le x ys) \<longleftrightarrow> x \<notin> set ys \<and> distinct ys"
  by (induction ys) auto

lemma set_sort_by [simp]: "set (sort_by le xs) = set xs"
  by (induction xs) (simp_all add: sort_by_def)

lemma distinct_sort_by [simp]: "distinct (sort_by le xs) \<longleftrightarrow> distinct xs"
  using set_sort_by [of le] by (induction xs) (simp_all add: sort_by_def mset_insort_by)

lemma keyed_row: "rows_keyed ss \<Longrightarrow> map_of ss k = Some r \<Longrightarrow> nd_session r = k"
  by (auto simp: rows_keyed_def dest: map_of_SomeD)

lemma keyed_map_of: "rows_keyed ss \<Longrightarrow> r \<in> snd ` set ss \<Longrightarrow> map_of ss (nd_session r) = Some r"
  by (auto simp: rows_keyed_def)

lemma keyed_rows: "rows_keyed ss \<Longrightarrow> r \<in> snd ` set ss \<and> nd_session r = k \<longleftrightarrow> map_of ss k = Some r"
  using keyed_row keyed_map_of by (metis image_eqI map_of_SomeD snd_conv)

lemma keyed_found: "rows_keyed ss \<Longrightarrow> rows_found ss"
  by (simp add: rows_found_def keyed_map_of)

lemma keyed_lookup: "rows_keyed ss \<Longrightarrow> map (\<lambda>r. the (map_of ss (nd_session r))) (filter P (map snd ss)) = filter P (map snd ss)"
  by (rule map_idI) (auto simp: keyed_map_of image_iff)

lemma keyed_distinct: "rows_keyed ss \<Longrightarrow> inj_on nd_session (snd ` set ss) \<and> distinct (map snd ss)"
proof -
  assume k: "rows_keyed ss"
  then have "map (nd_session \<circ> snd) ss = map fst ss" by (auto simp: rows_keyed_def)
  then have "distinct (map nd_session (map snd ss))" using k unfolding map_map by (simp only: rows_keyed_def)
  then show ?thesis using distinct_map [of nd_session "map snd ss"] by simp
qed

lemma children_index_set:
  assumes "rows_keyed ss"
  shows "distinct (children_index ss p)"
    and "k \<in> set (children_index ss p) \<longleftrightarrow> (\<exists>r. map_of ss k = Some r \<and> nd_parent r = p)"
proof -
  show "distinct (children_index ss p)"
    using keyed_distinct [OF assms] unfolding children_index_def keyed_lookup [OF assms]
    by (auto simp: distinct_map intro: inj_on_subset)
  have "k \<in> set (children_index ss p) \<longleftrightarrow> (\<exists>r \<in> snd ` set ss. nd_session r = k \<and> nd_parent r = p)"
    unfolding children_index_def keyed_lookup [OF assms] by auto
  then show "k \<in> set (children_index ss p) \<longleftrightarrow> (\<exists>r. map_of ss k = Some r \<and> nd_parent r = p)"
    using keyed_rows [OF assms] by blast
qed

lemma tops_set:
  assumes "rows_keyed ss"
  shows "distinct (map fst (tops ss))"
    and "(k, b) \<in> set (tops ss) \<longleftrightarrow> (\<exists>r. map_of ss k = Some r \<and> is_top ss r \<and> (b \<longleftrightarrow> nd_parent r = None))"
proof -
  show "distinct (map fst (tops ss))"
    using keyed_distinct [OF assms] unfolding tops_def keyed_lookup [OF assms]
    by (auto simp: distinct_map comp_def intro: inj_on_subset)
  have "(k, b) \<in> set (tops ss) \<longleftrightarrow> (\<exists>r \<in> snd ` set ss. nd_session r = k \<and> is_top ss r \<and> (b \<longleftrightarrow> nd_parent r = None))"
    unfolding tops_def keyed_lookup [OF assms] by auto
  then show "(k, b) \<in> set (tops ss) \<longleftrightarrow> (\<exists>r. map_of ss k = Some r \<and> is_top ss r \<and> (b \<longleftrightarrow> nd_parent r = None))"
    using keyed_rows [OF assms] by blast
qed

lemma rooted_unique: "rooted ss s d \<Longrightarrow> rooted ss s d' \<Longrightarrow> d' = d"
proof (induction arbitrary: d' rule: rooted.induct)
  case (root s r)
  then show ?case by (cases d') (auto elim: rooted_sucE)
next
  case (child s r p d)
  show ?case
  proof (cases d')
    case 0
    then show ?thesis using child.prems child.hyps by (auto elim: rooted_zeroE)
  next
    case (Suc n)
    then obtain r' p' where "map_of ss s = Some r'" "nd_parent r' = Some p'" "rooted ss p' n"
      using child.prems by (auto elim: rooted_sucE)
    then show ?thesis using child.hyps child.IH Suc by auto
  qed
qed

abbreviation is_rooted :: "tree_rows \<Rightarrow> ident \<Rightarrow> bool" where
  "is_rooted ss s \<equiv> \<exists>d. rooted ss s d"

lemma rooted_child_iff:
  assumes "map_of ss c = Some r" "nd_parent r = Some p"
  shows "rooted ss c d \<longleftrightarrow> (\<exists>d'. d = Suc d' \<and> rooted ss p d')"
  using assms by (cases d) (auto intro: rooted.child elim: rooted_zeroE rooted_sucE)

lemma rooted_top_iff:
  assumes "map_of ss c = Some r" "is_top ss r"
  shows "rooted ss c d \<longleftrightarrow> nd_parent r = None \<and> d = 0"
proof (cases "nd_parent r")
  case None
  then show ?thesis using assms rooted_unique [OF rooted.root [OF assms(1) None]] by (auto intro: rooted.root)
next
  case (Some p)
  then have "\<not> rooted ss p d'" for d' using assms(2) by (auto simp: is_top_def elim: rooted.cases)
  then show ?thesis using rooted_child_iff [OF assms(1) Some] Some by simp
qed

text \<open>What holds between two steps of the walk, \<open>V\<close> being the sessions visited so far.\<close>

definition walk_inv :: "tree_rows \<Rightarrow> ident list \<Rightarrow> walk_entry list \<Rightarrow> tree_index \<Rightarrow> bool" where
  "walk_inv ss V es ix \<longleftrightarrow>
     distinct (V @ map we_session es)
     \<and> (\<forall>x \<in> set V \<union> we_session ` set es. \<exists>r. map_of ss x = Some r \<and> (is_top ss r \<or> (\<exists>p \<in> set V. nd_parent r = Some p)))
     \<and> (\<forall>v \<in> set V. \<forall>c \<in> set (children_index ss (Some v)). c \<in> set V \<union> we_session ` set es)
     \<and> (\<forall>(k, b) \<in> set (tops ss). k \<in> set V \<union> we_session ` set es)
     \<and> (\<forall>e \<in> set es. \<forall>d. rooted ss (we_session e) d \<longleftrightarrow> we_rooted e \<and> d = we_depth e)
     \<and> ix_children ix = children_index ss
     \<and> ix_order ix = filter (is_rooted ss) V
     \<and> (\<forall>v d. ix_depth ix v = Some d \<longleftrightarrow> v \<in> set V \<and> rooted ss v d)
     \<and> (\<forall>i < length V. \<forall>r p. map_of ss (V ! i) = Some r \<longrightarrow> nd_parent r = Some p \<longrightarrow> map_of ss p \<noteq> None \<longrightarrow> p \<in> set (take i V))"

lemma visit_simps:
  "ix_children (visit r e ix) = ix_children ix"
  "ix_order (visit r e ix) = (if we_rooted e then ix_order ix @ [we_session e] else ix_order ix)"
  "ix_depth (visit r e ix) = (if we_rooted e then (ix_depth ix)(we_session e \<mapsto> we_depth e) else ix_depth ix)"
  by (simp_all add: visit_def Let_def)

lemma walk_inv_step:
  assumes k: "rows_keyed ss" and inv: "walk_inv ss V (e # es) ix" and r: "map_of ss (we_session e) = Some r"
  shows "walk_inv ss (V @ [we_session e]) (kids ix r e @ es) (visit r e ix)"
proof -
  let ?x = "we_session e" and ?C = "children_index ss (Some (we_session e))"
  have d: "distinct (V @ ?x # map we_session es)"
    and top: "\<forall>y \<in> set V \<union> insert ?x (we_session ` set es). \<exists>r. map_of ss y = Some r \<and> (is_top ss r \<or> (\<exists>p \<in> set V. nd_parent r = Some p))"
    and clo: "\<forall>v \<in> set V. \<forall>c \<in> set (children_index ss (Some v)). c \<in> set V \<union> insert ?x (we_session ` set es)"
    and tp: "\<forall>(k, b) \<in> set (tops ss). k \<in> set V \<union> insert ?x (we_session ` set es)"
    and en: "\<forall>f \<in> set (e # es). \<forall>d. rooted ss (we_session f) d \<longleftrightarrow> we_rooted f \<and> d = we_depth f"
    and ch: "ix_children ix = children_index ss" and ord: "ix_order ix = filter (is_rooted ss) V"
    and dep: "\<forall>v d. ix_depth ix v = Some d \<longleftrightarrow> v \<in> set V \<and> rooted ss v d"
    and par: "\<forall>i < length V. \<forall>r p. map_of ss (V ! i) = Some r \<longrightarrow> nd_parent r = Some p \<longrightarrow> map_of ss p \<noteq> None \<longrightarrow> p \<in> set (take i V)"
    using inv by (simp_all add: walk_inv_def)
  have C: "c \<in> set ?C \<longleftrightarrow> (\<exists>r. map_of ss c = Some r \<and> nd_parent r = Some ?x)" for c using children_index_set(2) [OF k] .
  have ks: "map we_session (kids ix r e) = ?C" by (simp add: kids_def ch comp_def)
  then have kset: "we_session ` set (kids ix r e) = set ?C" by (metis set_map)
  have fresh: "c \<notin> set V \<union> insert ?x (we_session ` set es)" if "c \<in> set ?C" for c
  proof
    assume "c \<in> set V \<union> insert ?x (we_session ` set es)"
    then obtain q where q: "map_of ss c = Some q" "is_top ss q \<or> (\<exists>p \<in> set V. nd_parent q = Some p)" using top by blast
    have "nd_parent q = Some ?x" using that C q(1) by auto
    moreover have "?x \<notin> set V" using d by simp
    ultimately show False using q(2) r by (auto simp: is_top_def)
  qed
  have "distinct ((V @ [?x]) @ map we_session (kids ix r e @ es))"
    unfolding map_append ks using d fresh children_index_set(1) [OF k, of "Some ?x"] by auto
  moreover have "\<forall>y \<in> set (V @ [?x]) \<union> we_session ` set (kids ix r e @ es).
      \<exists>r. map_of ss y = Some r \<and> (is_top ss r \<or> (\<exists>p \<in> set (V @ [?x]). nd_parent r = Some p))"
  proof
    fix y assume "y \<in> set (V @ [?x]) \<union> we_session ` set (kids ix r e @ es)"
    then consider "y \<in> set V \<union> insert ?x (we_session ` set es)" | "y \<in> set ?C" using kset by auto
    then show "\<exists>r. map_of ss y = Some r \<and> (is_top ss r \<or> (\<exists>p \<in> set (V @ [?x]). nd_parent r = Some p))"
      by cases (use top C in force)+
  qed
  moreover have "\<forall>v \<in> set (V @ [?x]). \<forall>c \<in> set (children_index ss (Some v)). c \<in> set (V @ [?x]) \<union> we_session ` set (kids ix r e @ es)"
    using clo kset by auto
  moreover have "\<forall>(k, b) \<in> set (tops ss). k \<in> set (V @ [?x]) \<union> we_session ` set (kids ix r e @ es)" using tp by auto
  moreover have "\<forall>f \<in> set (kids ix r e @ es). \<forall>d. rooted ss (we_session f) d \<longleftrightarrow> we_rooted f \<and> d = we_depth f"
  proof (intro ballI allI)
    fix f d assume "f \<in> set (kids ix r e @ es)"
    then consider "f \<in> set es" | "f \<in> set (kids ix r e)" by auto
    then show "rooted ss (we_session f) d \<longleftrightarrow> we_rooted f \<and> d = we_depth f"
    proof cases
      case 2
      then obtain c where c: "c \<in> set ?C" "we_session f = c" "we_depth f = we_depth e + 1" "we_rooted f = we_rooted e"
        by (auto simp: kids_def ch)
      then obtain q where "map_of ss c = Some q" "nd_parent q = Some ?x" using C by blast
      then show ?thesis using rooted_child_iff [of ss c q ?x d] en c by auto
    qed (use en in auto)
  qed
  moreover have "ix_children (visit r e ix) = children_index ss" by (simp add: visit_simps ch)
  moreover have "ix_order (visit r e ix) = filter (is_rooted ss) (V @ [?x])" using en by (auto simp: visit_simps ord)
  moreover have "\<forall>v d. ix_depth (visit r e ix) v = Some d \<longleftrightarrow> v \<in> set (V @ [?x]) \<and> rooted ss v d"
  proof (intro allI)
    fix v n
    have "?x \<notin> set V" using d by simp
    then show "ix_depth (visit r e ix) v = Some n \<longleftrightarrow> v \<in> set (V @ [?x]) \<and> rooted ss v n"
      using en dep by (cases "v = ?x") (auto simp: visit_simps)
  qed
  moreover have "\<forall>i < length (V @ [?x]). \<forall>r p. map_of ss ((V @ [?x]) ! i) = Some r \<longrightarrow> nd_parent r = Some p
      \<longrightarrow> map_of ss p \<noteq> None \<longrightarrow> p \<in> set (take i (V @ [?x]))"
  proof (intro allI impI)
    fix i r' p assume i: "i < length (V @ [?x])" "map_of ss ((V @ [?x]) ! i) = Some r'" "nd_parent r' = Some p" "map_of ss p \<noteq> None"
    show "p \<in> set (take i (V @ [?x]))"
    proof (cases "i < length V")
      case False
      then have "i = length V" using i(1) by simp
      then have "r' = r" using i(2) r by simp
      moreover have "\<not> is_top ss r'" using i(3,4) by (simp add: is_top_def)
      ultimately show ?thesis using top r i(3) \<open>i = length V\<close> by auto
    qed (use par i in \<open>auto simp: nth_append\<close>)
  qed
  ultimately show ?thesis unfolding walk_inv_def by blast
qed

lemma walk_spec:
  assumes k: "rows_keyed ss"
  shows "walk_inv ss V es ix \<Longrightarrow> length ss \<le> length V + n \<Longrightarrow> \<exists>V' ix'. walk n ss es ix = Some ix' \<and> walk_inv ss V' [] ix'"
proof (induction n arbitrary: V es ix)
  case 0
  show ?case
  proof (cases es)
    case (Cons e es')
    have "set (V @ map we_session es) \<subseteq> dom (map_of ss)" using 0(1) by (auto simp: walk_inv_def)
    then have "card (set (V @ map we_session es)) \<le> card (dom (map_of ss))" by (rule card_mono [OF finite_dom_map_of])
    also have "\<dots> \<le> length ss" using card_length [of "map fst ss"] by (simp add: dom_map_of_conv_image_fst)
    finally have "card (set (V @ map we_session es)) \<le> length ss" .
    moreover have "card (set (V @ map we_session es)) = length V + length es"
      using 0(1) distinct_card [of "V @ map we_session es"] by (simp add: walk_inv_def)
    ultimately show ?thesis using 0(2) Cons by simp
  qed (use 0 in auto)
next
  case (Suc n)
  show ?case
  proof (cases es)
    case (Cons e es')
    then obtain r where r: "map_of ss (we_session e) = Some r" using Suc.prems(1) by (auto simp: walk_inv_def)
    have "walk_inv ss (V @ [we_session e]) (kids ix r e @ es') (visit r e ix)"
      using walk_inv_step [OF k] Suc.prems(1) Cons r by blast
    then show ?thesis using Suc.IH [of "V @ [we_session e]"] Suc.prems(2) Cons r by simp
  qed (use Suc.prems in auto)
qed

lemma walk_start:
  assumes k: "rows_keyed ss"
    and es: "es = map (\<lambda>(k, rooted). \<lparr>we_session = k, we_depth = 0, we_under_audit = False, we_rooted = rooted\<rparr>) (rev (tops ss))"
  shows "walk_inv ss [] es (empty_index ss)"
proof -
  have m: "map we_session es = rev (map fst (tops ss))" by (simp add: es comp_def case_prod_unfold rev_map)
  then have s: "we_session ` set es = fst ` set (tops ss)" by (metis list.set_map set_rev)
  have top: "\<exists>r. map_of ss x = Some r \<and> is_top ss r" if "x \<in> fst ` set (tops ss)" for x
    using that tops_set(2) [OF k] by auto
  have entry: "rooted ss (we_session e) d \<longleftrightarrow> we_rooted e \<and> d = we_depth e" if e: "e \<in> set es" for e d
  proof -
    obtain b where b: "(we_session e, b) \<in> set (tops ss)" "we_rooted e = b" "we_depth e = 0" using e by (auto simp: es)
    have "\<exists>r. map_of ss (we_session e) = Some r \<and> is_top ss r \<and> (b \<longleftrightarrow> nd_parent r = None)"
      by (rule iffD1 [OF tops_set(2) [OF k] b(1)])
    then obtain r where r: "map_of ss (we_session e) = Some r" "is_top ss r" "b \<longleftrightarrow> nd_parent r = None" by (elim exE conjE)
    show ?thesis using rooted_top_iff [OF r(1,2), of d] r(3) b(2,3) by simp
  qed
  have c1: "distinct ([] @ map we_session es)" using tops_set(1) [OF k] by (simp add: m)
  have c2: "\<forall>x \<in> set [] \<union> we_session ` set es. \<exists>r. map_of ss x = Some r \<and> (is_top ss r \<or> (\<exists>p \<in> set []. nd_parent r = Some p))"
    unfolding s using top by simp
  have c3: "\<forall>(k, b) \<in> set (tops ss). k \<in> set [] \<union> we_session ` set es" unfolding s by force
  have c4: "\<forall>e \<in> set es. \<forall>d. rooted ss (we_session e) d \<longleftrightarrow> we_rooted e \<and> d = we_depth e" using entry by blast
  show ?thesis
    unfolding walk_inv_def by (intro conjI c1 c2 c3 c4) (simp_all add: empty_index_def)
qed

lemma filter_split:
  "i < length (filter P xs) \<Longrightarrow> \<exists>V1 V2. xs = V1 @ filter P xs ! i # V2 \<and> filter P V1 = take i (filter P xs)"
proof (induction xs arbitrary: i)
  case (Cons x xs)
  show ?case
  proof (cases "P x \<and> i = 0")
    case True
    then show ?thesis by (intro exI [of _ "[]"] exI [of _ xs]) simp
  next
    case False
    let ?i = "if P x then i - 1 else i"
    have "?i < length (filter P xs)" using Cons.prems False by auto
    then obtain V1 V2 where "xs = V1 @ filter P xs ! ?i # V2" "filter P V1 = take ?i (filter P xs)" using Cons.IH by blast
    then show ?thesis using False by (intro exI [of _ "x # V1"] exI [of _ V2]) (auto simp: nth_Cons' take_Cons')
  qed
qed simp

lemma build_index_spec:
  assumes k: "rows_keyed ss"
  shows "\<exists>ix. build_index ss = Some ix \<and> distinct (ix_order ix) \<and> set (ix_order ix) = {s. is_rooted ss s}
    \<and> (\<forall>s d. ix_depth ix s = Some d \<longleftrightarrow> rooted ss s d)
    \<and> (\<forall>i < length (ix_order ix). \<forall>r p. map_of ss (ix_order ix ! i) = Some r \<longrightarrow> nd_parent r = Some p \<longrightarrow> p \<in> set (take i (ix_order ix)))"
proof -
  obtain V ix where ix: "build_index ss = Some ix" and inv: "walk_inv ss V [] ix"
    using walk_spec [OF k walk_start [OF k refl], of "length ss"] keyed_found [OF k] by (auto simp: build_index_def)
  have d: "distinct V" and clo: "\<forall>v \<in> set V. \<forall>c \<in> set (children_index ss (Some v)). c \<in> set V" and tp: "\<forall>(k, b) \<in> set (tops ss). k \<in> set V"
    and ord: "ix_order ix = filter (is_rooted ss) V" and dep: "\<forall>v d. ix_depth ix v = Some d \<longleftrightarrow> v \<in> set V \<and> rooted ss v d"
    and par: "\<forall>i < length V. \<forall>r p. map_of ss (V ! i) = Some r \<longrightarrow> nd_parent r = Some p \<longrightarrow> map_of ss p \<noteq> None \<longrightarrow> p \<in> set (take i V)"
    using inv by (auto simp: walk_inv_def)
  have all: "s \<in> set V" if "rooted ss s n" for s n
    using that
  proof (induction rule: rooted.induct)
    case (root s r)
    then have "(s, True) \<in> set (tops ss)" using tops_set(2) [OF k] by (auto simp: is_top_def)
    then show ?case using tp by blast
  next
    case (child s r p d)
    then show ?case using clo children_index_set(2) [OF k] by blast
  qed
  have par': "p \<in> set (take i (ix_order ix))"
    if i: "i < length (ix_order ix)" "map_of ss (ix_order ix ! i) = Some r" "nd_parent r = Some p" for i r p
  proof -
    obtain V1 V2 where V: "V = V1 @ ix_order ix ! i # V2" "filter (is_rooted ss) V1 = take i (ix_order ix)"
      using filter_split i(1) unfolding ord by metis
    have "ix_order ix ! i \<in> set (filter (is_rooted ss) V)" using i(1) unfolding ord by (rule nth_mem)
    then obtain n where "rooted ss (ix_order ix ! i) n" by auto
    then have "is_rooted ss p" "map_of ss p \<noteq> None"
      using rooted_child_iff [OF i(2,3)] by (auto elim: rooted.cases)
    moreover have "map_of ss (V ! length V1) = Some r" using V(1) i(2) by simp
    moreover have "length V1 < length V" "take (length V1) V = V1" using V(1) by simp_all
    ultimately have "p \<in> set V1" using par i(3) by metis
    then show ?thesis using V(2) [symmetric] \<open>is_rooted ss p\<close> by simp
  qed
  show ?thesis using ix d all dep par' by (intro exI [of _ ix]) (auto simp: ord)
qed

end
