(* ===== verification/Client_State.thy ===== *)
theory Client_State
  imports Client_Index Text_Search Tool_Calls
begin

text \<open>
  The sessions a client holds (\<^verbatim>\<open>qq-client/src/state.rs\<close>): a view per session with its messages and tool calls while it is warm,
  what is live in it, and the cached index of the tree. A map is a function to an option, the map of sessions a list of
  pairs in its order of iteration. The usage of a run stands in its wire form; values the store only carries along (profiles, correlations, limits of runs and the
  like) are left out of the records.
\<close>

section \<open>What the protocol carries\<close>

datatype message_role = RoleUser | RoleAssistant

datatype message_state = MsgQueued | MsgStreaming | MsgComplete | MsgCancelled | MsgFailed | MsgInterrupted | MsgRewound

datatype text_channel = OutputChannel | RefusalChannel

datatype run_activity = WaitingForProvider | ActReasoning | GeneratingResponse | PreparingToolCall | Compacting

datatype session_purpose = TaskSession | AuditSession

datatype session_status = SessionIdle | SessionQueued | SessionRunning

datatype run_pause =
    ProviderRetry string string nat nat
  | NoProgress nat nat nat

datatype run_outcome =
    OutcomeCompleted
  | OutcomeCancelled
  | OutcomeInterrupted
  | OutcomeFailed string string
  | OutcomeBudgetExhausted string
  | OutcomePaused run_pause

datatype run_origin =
    OriginUserPrompt
  | OriginDelegated ident session_purpose
  | OriginManualCompaction
  | OriginAutoCompaction ident
  | OriginInRunCompaction ident

fun is_in_run_compaction :: "run_origin \<Rightarrow> bool" where
  "is_in_run_compaction (OriginInRunCompaction owner) = True"
| "is_in_run_compaction (OriginAutoCompaction owner) = False"
| "is_in_run_compaction OriginUserPrompt = False"
| "is_in_run_compaction (OriginDelegated owner purpose) = False"
| "is_in_run_compaction OriginManualCompaction = False"

datatype side_question_state = SideRunning | SideCompleted | SideFailed | SideCancelled | SideTimedOut | SideInterrupted

record side_question =
  sq_id :: ident
  sq_thread :: ident
  sq_session :: ident
  sq_question :: string
  sq_answer :: string
  sq_state :: side_question_state

record message_snapshot =
  mg_id :: ident
  mg_session :: ident
  mg_run :: ident
  mg_turn :: nat
  mg_role :: message_role
  mg_state :: message_state
  mg_steering :: bool
  mg_truncated :: bool
  mg_output :: string
  mg_refusal :: string
  mg_created_at :: nat

record spawn_origin =
  sg_run :: ident
  sg_tool_call :: "ident option"
  sg_depth :: nat

record session_summary =
  su_id :: ident
  su_workspace :: ident
  su_parent :: "ident option"
  su_spawned_by :: "spawn_origin option"
  su_purpose :: session_purpose
  su_title :: string
  su_status :: session_status
  su_active_run :: "ident option"
  su_activity :: "run_activity option"
  su_queued_prompts :: nat
  su_model :: "string option"
  su_context_tokens :: "nat option"
  su_inclusive_cost :: "nat option"
  su_cost :: "nat option"
  su_updated_at :: nat
  su_last_outcome :: "run_outcome option"
  su_holds :: "ident list"
  su_running_side :: "ident option"

datatype run_state =
    RunsQueued | RunsRunning | RunsCompleted | RunsCancelled | RunsFailed | RunsInterrupted | RunsBudgetExhausted | RunsPaused

record run_plan =
  rn_profile :: string
  rn_digest :: string

record run_snapshot =
  rs_id :: ident
  rs_origin :: "run_origin option"
  rs_status :: run_state
  rs_outcome :: "run_outcome option"
  rs_route :: "string option"
  rs_plan :: "run_plan option"
  rs_usage :: "string option"
  rs_cost :: "nat option"

record session_snapshot =
  sn_execution_root :: "string option"
  sn_previews :: "(ident \<times> approval_previews) list"
  sn_side_questions :: "side_question list"
  sn_summary :: session_summary
  sn_messages :: "message_snapshot list"
  sn_runs :: "run_snapshot list"
  sn_tool_calls :: "tool_snapshot list"
  sn_has_older_tool_calls :: bool
  sn_has_older_messages :: bool

record model_option =
  mo_provider :: string
  mo_model :: string
  mo_name :: "string option"
  mo_context_window :: "nat option"
  mo_efforts :: "string list"
  mo_selection :: "string option"

definition model_reasoning_efforts :: "model_option list \<Rightarrow> string option \<Rightarrow> string list" where
  "model_reasoning_efforts models model =
     (case find (\<lambda>m. mo_selection m = model) models of None \<Rightarrow> [] | Some m \<Rightarrow> mo_efforts m)"

definition model_context_window :: "model_option list \<Rightarrow> string option \<Rightarrow> nat option" where
  "model_context_window models model =
     (case find (\<lambda>m. mo_selection m = model) models of None \<Rightarrow> None | Some m \<Rightarrow> mo_context_window m)"

definition plan_label :: "run_plan \<Rightarrow> string \<times> string" where
  "plan_label p = (rn_profile p, take 8 (rn_digest p))"

section \<open>Bounds\<close>

definition WARM_BODY_LIMIT :: nat where "WARM_BODY_LIMIT = 8"
definition LIVE_TAIL_BYTES :: nat where "LIVE_TAIL_BYTES = 256"
definition MAX_REASONING_BYTES :: nat where "MAX_REASONING_BYTES = 16 * 1024"
definition MAX_LIVE_TOOL_OUTPUT_BYTES :: nat where "MAX_LIVE_TOOL_OUTPUT_BYTES = 4 * 1024"
definition MAX_PROMPT_HISTORY :: nat where "MAX_PROMPT_HISTORY = 100"
definition SNAPSHOT_SESSION_LIMIT :: nat where "SNAPSHOT_SESSION_LIMIT = 512"
definition SNAPSHOT_MESSAGE_LIMIT :: nat where "SNAPSHOT_MESSAGE_LIMIT = 256"
definition MAX_RECENT_TOOL_CALLS :: nat where "MAX_RECENT_TOOL_CALLS = 64"

lemmas client_limits = WARM_BODY_LIMIT_def LIVE_TAIL_BYTES_def MAX_REASONING_BYTES_def MAX_LIVE_TOOL_OUTPUT_BYTES_def
  MAX_PROMPT_HISTORY_def SNAPSHOT_MESSAGE_LIMIT_def MAX_RECENT_TOOL_CALLS_def

text \<open>A counter of 32 bits wraps around.\<close>

definition u32_succ :: "nat \<Rightarrow> nat" where
  [arith_defs]: "u32_succ n = (n + 1) mod 2 ^ 32"

text \<open>The end of a text of at most so many bytes, cut at a character boundary.\<close>

definition keep_tail :: "nat \<Rightarrow> string \<Rightarrow> string" where
  "keep_tail limit s = (if limit < length s then drop (align_up s (length s - limit)) s else s)"

section \<open>Live status\<close>

type_synonym text_sanitizer = "string \<Rightarrow> string option"

definition char_is_control :: "string \<Rightarrow> bool" where
  "char_is_control c =
     (case c of
        [a] \<Rightarrow> (of_char a :: nat) < 0x20 \<or> (of_char a :: nat) = 0x7F
      | [a, b] \<Rightarrow> (of_char a :: nat) = 0xC2 \<and> 0x80 \<le> (of_char b :: nat) \<and> (of_char b :: nat) < 0xA0
      | _ \<Rightarrow> False)"

definition char_is_whitespace :: "string \<Rightarrow> bool" where
  "char_is_whitespace c \<longleftrightarrow> white_len c \<noteq> 0"

definition char_is_direction :: "string \<Rightarrow> bool" where
  "char_is_direction c \<longleftrightarrow>
     c = [CHR 0xD8, CHR 0x9C]
     \<or> c \<in> {[CHR 0xE2, CHR 0x80, CHR 0x8E], [CHR 0xE2, CHR 0x80, CHR 0x8F]}
     \<or> c \<in> set (map (\<lambda>i. [CHR 0xE2, CHR 0x80, char_of (0xAA + i :: nat)]) [0..<5])
     \<or> c \<in> set (map (\<lambda>i. [CHR 0xE2, CHR 0x81, char_of (0xA6 + i :: nat)]) [0..<4])"

definition plain_text_character :: text_sanitizer where
  "plain_text_character c =
     (if char_is_control c then (if char_is_whitespace c then Some '' '' else None)
      else if char_is_direction c then None else Some c)"

record live_status =
  ls_tail :: string
  ls_space_pending :: bool
  ls_active_tool :: "string option"
  ls_awaiting :: "ident set"

definition live_default :: live_status where
  "live_default = \<lparr>ls_tail = [], ls_space_pending = False, ls_active_tool = None, ls_awaiting = {}\<rparr>"

definition push_character :: "text_sanitizer \<Rightarrow> live_status \<Rightarrow> string \<Rightarrow> live_status" where
  "push_character san live c =
     (if char_is_whitespace c then live\<lparr>ls_space_pending := ls_tail live \<noteq> []\<rparr>
      else (case san c of
              None \<Rightarrow> live
            | Some c' \<Rightarrow>
                live\<lparr>ls_tail := ls_tail live @ (if ls_space_pending live then '' '' else []) @ c',
                     ls_space_pending := False\<rparr>))"

definition push_collapsed :: "text_sanitizer \<Rightarrow> string \<Rightarrow> live_status \<Rightarrow> live_status" where
  "push_collapsed san text' live = foldl (push_character san) live (str_chars text')"

definition set_tail :: "text_sanitizer \<Rightarrow> string \<Rightarrow> live_status \<Rightarrow> live_status" where
  "set_tail san text' live =
     push_collapsed san (drop (align_up text' (length text' - LIVE_TAIL_BYTES)) text') (live\<lparr>ls_tail := [], ls_space_pending := False\<rparr>)"

definition append_tail :: "text_sanitizer \<Rightarrow> string \<Rightarrow> live_status \<Rightarrow> live_status" where
  "append_tail san text' live =
     (if LIVE_TAIL_BYTES \<le> length text' then set_tail san text' live
      else (let live' = push_collapsed san text' live in live'\<lparr>ls_tail := keep_tail LIVE_TAIL_BYTES (ls_tail live')\<rparr>))"

definition set_holds :: "ident list \<Rightarrow> live_status \<Rightarrow> live_status" where
  "set_holds holds live = live\<lparr>ls_awaiting := set holds\<rparr>"

fun tool_call_state_is_terminal :: "tool_call_state \<Rightarrow> bool" where
  "tool_call_state_is_terminal Completed = True"
| "tool_call_state_is_terminal Failed = True"
| "tool_call_state_is_terminal CallDenied = True"
| "tool_call_state_is_terminal CallInterrupted = True"
| "tool_call_state_is_terminal Requested = False"
| "tool_call_state_is_terminal AwaitingApproval = False"
| "tool_call_state_is_terminal Running = False"

definition note_tool_call :: "tool_snapshot \<Rightarrow> live_status \<Rightarrow> live_status" where
  "note_tool_call call live =
     (case ts_state call of
        AwaitingApproval \<Rightarrow> live\<lparr>ls_awaiting := insert (ts_id call) (ls_awaiting live), ls_active_tool := Some (ts_name call)\<rparr>
      | Running \<Rightarrow> live\<lparr>ls_awaiting := ls_awaiting live - {ts_id call}, ls_active_tool := Some (ts_name call)\<rparr>
      | Requested \<Rightarrow> live\<lparr>ls_awaiting := ls_awaiting live - {ts_id call}, ls_active_tool := Some (ts_name call)\<rparr>
      | _ \<Rightarrow> live\<lparr>ls_awaiting := ls_awaiting live - {ts_id call},
                ls_active_tool := if ls_active_tool live = Some (ts_name call) then None else ls_active_tool live\<rparr>)"

definition live_from_body :: "text_sanitizer \<Rightarrow> message_snapshot list \<Rightarrow> tool_snapshot list \<Rightarrow> live_status" where
  "live_from_body san messages tool_calls =
     (let live = (case find (\<lambda>m. mg_role m = RoleAssistant) (rev messages) of
                    None \<Rightarrow> live_default | Some m \<Rightarrow> set_tail san (mg_output m) live_default)
      in foldl (\<lambda>l c. note_tool_call c l) live tool_calls)"

section \<open>A session's view\<close>

record reasoning =
  rg_text :: string
  rg_streaming :: bool
  rg_ticks :: nat

definition reasoning_default :: reasoning where
  "reasoning_default = \<lparr>rg_text = [], rg_streaming = False, rg_ticks = 0\<rparr>"

definition reasoning_append :: "string \<Rightarrow> reasoning \<Rightarrow> reasoning" where
  "reasoning_append text' r = r\<lparr>rg_text := keep_tail MAX_REASONING_BYTES (rg_text r @ text')\<rparr>"

record run_stats =
  st_origin :: "run_origin option"
  st_owned_step :: bool
  st_started_at :: "nat option"
  st_first_token_at :: "nat option"
  st_finished_at :: "nat option"
  st_outcome :: "run_outcome option"
  st_usage :: "string option"
  st_tool_calls :: nat
  st_cost :: "nat option"
  st_turns :: nat
  st_plan :: "(string \<times> string) option"
  st_route :: "string option"
  st_live_cost :: "nat option"

definition stats_default :: run_stats where
  "stats_default = \<lparr>st_origin = None, st_owned_step = False, st_started_at = None, st_first_token_at = None,
     st_finished_at = None, st_outcome = None, st_usage = None, st_tool_calls = 0, st_cost = None, st_turns = 0,
     st_plan = None, st_route = None, st_live_cost = None\<rparr>"

record tool_timing =
  tt_started_at :: "nat option"
  tt_last_output_at :: "nat option"
  tt_finished_at :: "nat option"
  tt_settled :: "approval_resolution option"

definition timing_default :: tool_timing where
  "timing_default = \<lparr>tt_started_at = None, tt_last_output_at = None, tt_finished_at = None, tt_settled = None\<rparr>"

fun settlement_label :: "approval_resolution \<Rightarrow> string option" where
  "settlement_label ApprovedOnce = None"
| "settlement_label ResAnswered = None"
| "settlement_label ResDenied = Some ''denied by you''"
| "settlement_label DeniedTimeout = Some ''denied by timeout''"

record session_view =
  vw_execution_root :: "string option"
  vw_side_questions :: "side_question list"
  vw_summary :: session_summary
  vw_foreground_run :: "ident option"
  vw_messages :: "message_snapshot list option"
  vw_tool_calls :: "tool_snapshot list option"
  vw_context_window :: "nat option"
  vw_activity :: "(ident \<times> run_activity) option"
  vw_live :: live_status
  vw_reasoning :: "ident \<Rightarrow> reasoning option"
  vw_runs :: "ident \<Rightarrow> run_stats option"
  vw_last_focused :: nat
  vw_loaded_through :: nat
  vw_prompt_history :: "string list"
  vw_drafts :: "string list"
  vw_live_output :: "ident \<Rightarrow> string option"
  vw_live_truncated :: "ident set"
  vw_previews :: "ident \<Rightarrow> approval_previews option"
  vw_timing :: "ident \<Rightarrow> tool_timing option"
  vw_unread :: nat
  vw_finished_unread :: bool

text \<open>\<open>entry(key).or_default()\<close>, changed in place.\<close>

definition entry_or :: "'v \<Rightarrow> 'k \<Rightarrow> ('v \<Rightarrow> 'v) \<Rightarrow> ('k \<Rightarrow> 'v option) \<Rightarrow> 'k \<Rightarrow> 'v option" where
  "entry_or d k f m = m(k \<mapsto> f (case m k of None \<Rightarrow> d | Some v \<Rightarrow> v))"

definition retain :: "('k \<Rightarrow> 'v \<Rightarrow> bool) \<Rightarrow> ('k \<Rightarrow> 'v option) \<Rightarrow> 'k \<Rightarrow> 'v option" where
  "retain keep m = (\<lambda>k. case m k of None \<Rightarrow> None | Some v \<Rightarrow> if keep k v then Some v else None)"

definition summary_only :: "session_summary \<Rightarrow> nat option \<Rightarrow> nat \<Rightarrow> session_view" where
  "summary_only summary context_window loaded_through =
     \<lparr>vw_execution_root = None, vw_side_questions = [], vw_summary = summary, vw_foreground_run = su_active_run summary,
      vw_messages = None, vw_tool_calls = None, vw_context_window = context_window,
      vw_activity = (case (su_active_run summary, su_activity summary) of (Some r, Some a) \<Rightarrow> Some (r, a) | _ \<Rightarrow> None),
      vw_live = set_holds (su_holds summary) live_default, vw_reasoning = Map.empty, vw_runs = Map.empty,
      vw_last_focused = 0, vw_loaded_through = loaded_through, vw_prompt_history = [], vw_drafts = [],
      vw_live_output = Map.empty, vw_live_truncated = {}, vw_previews = Map.empty, vw_timing = Map.empty,
      vw_unread = 0, vw_finished_unread = False\<rparr>"

definition inclusive_cost :: "session_view \<Rightarrow> nat option" where
  "inclusive_cost v =
     (case (case su_inclusive_cost (vw_summary v) of Some c \<Rightarrow> Some c | None \<Rightarrow> su_cost (vw_summary v)) of
        Some c \<Rightarrow> if c > 0 then Some c else None | None \<Rightarrow> None)"

definition is_audit :: "session_view \<Rightarrow> bool" where
  "is_audit v \<longleftrightarrow> su_purpose (vw_summary v) = AuditSession"

datatype need = NeedApproval | NeedFailed | NeedFinishedUnread

definition view_need :: "session_view \<Rightarrow> need option" where
  "view_need v =
     (if ls_awaiting (vw_live v) \<noteq> {} then Some NeedApproval
      else if (case su_last_outcome (vw_summary v) of Some (OutcomeFailed _ _) \<Rightarrow> True | _ \<Rightarrow> False) \<and> vw_finished_unread v
      then Some NeedFailed
      else if vw_finished_unread v then Some NeedFinishedUnread
      else None)"

datatype group = NeedsYou | GroupWorking | GroupIdle | GroupDone

fun group_label :: "group \<Rightarrow> string" where
  "group_label NeedsYou = ''NEEDS YOU''"
| "group_label GroupWorking = ''WORKING''"
| "group_label GroupIdle = ''IDLE''"
| "group_label GroupDone = ''DONE''"

definition view_group :: "session_view \<Rightarrow> group" where
  "view_group v =
     (if view_need v \<noteq> None then NeedsYou
      else (case su_status (vw_summary v) of
              SessionRunning \<Rightarrow> GroupWorking
            | SessionQueued \<Rightarrow> GroupWorking
            | SessionIdle \<Rightarrow> if su_last_outcome (vw_summary v) \<noteq> None then GroupDone else GroupIdle))"

definition set_summary :: "session_summary \<Rightarrow> nat option \<Rightarrow> session_view \<Rightarrow> session_view" where
  "set_summary summary context_window v =
     v\<lparr>vw_foreground_run := (case su_active_run summary of Some r \<Rightarrow> Some r | None \<Rightarrow> vw_foreground_run v),
       vw_activity := (case (su_active_run summary, su_activity summary) of
           (Some r, Some a) \<Rightarrow> Some (r, a)
         | (Some r, None) \<Rightarrow> (case vw_activity v of Some (active, x) \<Rightarrow> if active \<noteq> r then None else vw_activity v | None \<Rightarrow> None)
         | (None, _) \<Rightarrow> None),
       vw_live := set_holds (su_holds summary) (vw_live v),
       vw_summary := summary,
       vw_context_window := context_window\<rparr>"

definition is_warm :: "session_view \<Rightarrow> bool" where
  "is_warm v \<longleftrightarrow> vw_messages v \<noteq> None"

definition append_live_tool_output :: "ident \<Rightarrow> string \<Rightarrow> session_view \<Rightarrow> session_view" where
  "append_live_tool_output call chunk v =
     (let buffer = (case vw_live_output v call of None \<Rightarrow> [] | Some b \<Rightarrow> b) @ chunk
      in v\<lparr>vw_live_output := (vw_live_output v)(call \<mapsto> keep_tail MAX_LIVE_TOOL_OUTPUT_BYTES buffer),
           vw_live_truncated := (if MAX_LIVE_TOOL_OUTPUT_BYTES < length buffer then insert call (vw_live_truncated v)
             else vw_live_truncated v)\<rparr>)"

definition finish_live_tool_output :: "ident \<Rightarrow> session_view \<Rightarrow> session_view" where
  "finish_live_tool_output call v =
     v\<lparr>vw_live_output := (vw_live_output v)(call := None), vw_live_truncated := vw_live_truncated v - {call}\<rparr>"

definition record_prompt :: "string \<Rightarrow> session_view \<Rightarrow> session_view" where
  "record_prompt prompt v =
     (let h = vw_prompt_history v
      in if h \<noteq> [] \<and> last h = prompt then v
         else v\<lparr>vw_prompt_history := drop (length h + 1 - MAX_PROMPT_HISTORY) (h @ [prompt])\<rparr>)"

definition evict_body :: "session_view \<Rightarrow> session_view" where
  "evict_body v =
     v\<lparr>vw_messages := None, vw_tool_calls := None, vw_side_questions := [], vw_live_output := Map.empty,
       vw_live_truncated := {}, vw_previews := Map.empty, vw_timing := Map.empty\<rparr>"

definition retain_recent_messages :: "message_snapshot list \<Rightarrow> message_snapshot list" where
  "retain_recent_messages messages = drop (length messages - SNAPSHOT_MESSAGE_LIMIT) messages"

text \<open>What is kept, and the identifiers of the calls that are dropped.\<close>

definition retain_recent_tool_calls :: "tool_snapshot list \<Rightarrow> tool_snapshot list \<times> ident list" where
  "retain_recent_tool_calls calls =
     (let excess = length calls - MAX_RECENT_TOOL_CALLS in (drop excess calls, map ts_id (take excess calls)))"

section \<open>The store of sessions\<close>

record client_store =
  cs_sessions :: "(ident \<times> session_view) list"
  cs_index :: "tree_index option"
  cs_sanitizer :: text_sanitizer

definition with_sanitizer :: "text_sanitizer \<Rightarrow> client_store" where
  "with_sanitizer san = \<lparr>cs_sessions = [], cs_index = None, cs_sanitizer = san\<rparr>"

definition get_view :: "ident \<Rightarrow> client_store \<Rightarrow> session_view option" where
  "get_view k st = map_of (cs_sessions st) k"

definition update_view :: "ident \<Rightarrow> (session_view \<Rightarrow> session_view) \<Rightarrow> (ident \<times> session_view) list \<Rightarrow> (ident \<times> session_view) list" where
  "update_view k f ss = map (\<lambda>(x, v). (x, if x = k then f v else v)) ss"

text \<open>Access to change a view: \<open>get_mut\<close> drops the cached index, \<open>body_mut\<close> keeps it.\<close>

definition get_mut :: "ident \<Rightarrow> (session_view \<Rightarrow> session_view) \<Rightarrow> client_store \<Rightarrow> client_store" where
  "get_mut k f st = st\<lparr>cs_index := None, cs_sessions := update_view k f (cs_sessions st)\<rparr>"

definition body_mut :: "ident \<Rightarrow> (session_view \<Rightarrow> session_view) \<Rightarrow> client_store \<Rightarrow> client_store" where
  "body_mut k f st = st\<lparr>cs_sessions := update_view k f (cs_sessions st)\<rparr>"

definition insert_view :: "ident \<Rightarrow> session_view \<Rightarrow> client_store \<Rightarrow> client_store" where
  "insert_view k v st =
     st\<lparr>cs_index := None,
        cs_sessions := (if get_view k st = None then cs_sessions st @ [(k, v)] else update_view k (\<lambda>_. v) (cs_sessions st))\<rparr>"

definition remove_view :: "ident \<Rightarrow> client_store \<Rightarrow> client_store" where
  "remove_view k st = st\<lparr>cs_index := None, cs_sessions := filter (\<lambda>(x, v). x \<noteq> k) (cs_sessions st)\<rparr>"

definition clear_views :: "client_store \<Rightarrow> client_store" where
  "clear_views st = st\<lparr>cs_index := None, cs_sessions := []\<rparr>"

definition values_mut :: "(session_view \<Rightarrow> session_view) \<Rightarrow> client_store \<Rightarrow> client_store" where
  "values_mut f st = st\<lparr>cs_index := None, cs_sessions := map (\<lambda>(x, v). (x, f v)) (cs_sessions st)\<rparr>"

text \<open>What the index is computed from.\<close>

definition tree_row_of :: "session_summary \<Rightarrow> tree_row" where
  "tree_row_of s =
     \<lparr>nd_session = su_id s, nd_parent = su_parent s,
      nd_spawned_by_call = (case su_spawned_by s of None \<Rightarrow> None | Some origin \<Rightarrow> sg_tool_call origin),
      nd_updated_at = su_updated_at s, nd_title = su_title s, nd_audit = (su_purpose s = AuditSession)\<rparr>"

definition rows_of_store :: "client_store \<Rightarrow> tree_rows" where
  "rows_of_store st = map (\<lambda>(k, v). (k, tree_row_of (vw_summary v))) (cs_sessions st)"

text \<open>The cached index, or a new one that is then cached.\<close>

definition get_index :: "client_store \<Rightarrow> (tree_index \<times> client_store) option" where
  "get_index st =
     (case cs_index st of
        Some ix \<Rightarrow> Some (ix, st)
      | None \<Rightarrow> map_option (\<lambda>ix. (ix, st\<lparr>cs_index := Some ix\<rparr>)) (build_index (rows_of_store st)))"

definition upsert_summary :: "session_summary \<Rightarrow> model_option list \<Rightarrow> nat \<Rightarrow> client_store \<Rightarrow> client_store" where
  "upsert_summary summary models loaded_through st =
     (let window = model_context_window models (su_model summary)
      in case get_view (su_id summary) st of
           Some v \<Rightarrow> get_mut (su_id summary) (set_summary summary window) st
         | None \<Rightarrow> insert_view (su_id summary) (summary_only summary window loaded_through) st)"

definition apply_models :: "model_option list \<Rightarrow> client_store \<Rightarrow> client_store" where
  "apply_models models st =
     values_mut (\<lambda>v. v\<lparr>vw_context_window := model_context_window models (su_model (vw_summary v))\<rparr>) st"

definition warm_empty :: "ident \<Rightarrow> client_store \<Rightarrow> client_store" where
  "warm_empty k st = body_mut k (\<lambda>v. if is_warm v then v else v\<lparr>vw_messages := Some [], vw_tool_calls := Some []\<rparr>) st"

definition mark_focused :: "ident \<Rightarrow> nat \<Rightarrow> client_store \<Rightarrow> client_store" where
  "mark_focused k clock st = body_mut k (\<lambda>v. v\<lparr>vw_last_focused := clock, vw_unread := 0, vw_finished_unread := False\<rparr>) st"

definition evict_cold_bodies :: "ident option \<Rightarrow> client_store \<Rightarrow> client_store" where
  "evict_cold_bodies pinned st =
     (let warm = map (\<lambda>v. (vw_last_focused v, su_id (vw_summary v)))
                   (filter (\<lambda>v. is_warm v \<and> Some (su_id (vw_summary v)) \<noteq> pinned) (map snd (cs_sessions st)));
          keep = WARM_BODY_LIMIT - (if pinned = None then 0 else 1)
      in if length warm \<le> keep then st
         else foldl (\<lambda>s (_, k). body_mut k evict_body s) st (take (length warm - keep) (sort warm)))"

text \<open>A new message goes after the last one of its run.\<close>

definition insert_message :: "message_snapshot \<Rightarrow> message_snapshot list \<Rightarrow> message_snapshot list" where
  "insert_message m messages =
     (if \<exists>c \<in> set messages. mg_id c = mg_id m then messages
      else (let position' = (case position (\<lambda>c. mg_run c = mg_run m) (rev messages) of
                               None \<Rightarrow> length messages | Some i \<Rightarrow> length messages - i)
            in retain_recent_messages (take position' messages @ m # drop position' messages)))"

definition push_message :: "message_snapshot \<Rightarrow> client_store \<Rightarrow> client_store" where
  "push_message m st = body_mut (mg_session m) (\<lambda>v. v\<lparr>vw_messages := map_option (insert_message m) (vw_messages v)\<rparr>) st"

text \<open>The last element that satisfies a test, changed in place.\<close>

definition update_last :: "('a \<Rightarrow> bool) \<Rightarrow> ('a \<Rightarrow> 'a) \<Rightarrow> 'a list \<Rightarrow> 'a list" where
  "update_last P f xs =
     (case position P (rev xs) of None \<Rightarrow> xs | Some i \<Rightarrow> xs[length xs - 1 - i := f (xs ! (length xs - 1 - i))])"

definition upsert_call :: "tool_snapshot \<Rightarrow> session_view \<Rightarrow> session_view" where
  "upsert_call call v =
     (case vw_tool_calls v of
        None \<Rightarrow> v
      | Some calls \<Rightarrow>
          if \<exists>c \<in> set calls. ts_id c = ts_id call
          then v\<lparr>vw_tool_calls := Some (update_last (\<lambda>c. ts_id c = ts_id call) (\<lambda>_. call) calls)\<rparr>
          else (let (kept, evicted) = retain_recent_tool_calls (calls @ [call])
                in v\<lparr>vw_tool_calls := Some kept, vw_timing := (\<lambda>k. if k \<in> set evicted then None else vw_timing v k)\<rparr>))"

definition upsert_tool_call :: "tool_snapshot \<Rightarrow> client_store \<Rightarrow> client_store" where
  "upsert_tool_call call st = body_mut (ts_session call) (upsert_call call) st"

definition map_messages :: "(message_snapshot list \<Rightarrow> message_snapshot list) \<Rightarrow> session_view \<Rightarrow> session_view" where
  "map_messages f v = v\<lparr>vw_messages := map_option f (vw_messages v)\<rparr>"

definition complete_streamed_turns :: "ident \<Rightarrow> ident \<Rightarrow> nat \<Rightarrow> client_store \<Rightarrow> client_store" where
  "complete_streamed_turns k run through_turn st =
     body_mut k (map_messages (map (\<lambda>m.
       if mg_run m = run \<and> mg_role m = RoleAssistant \<and> mg_state m = MsgStreaming \<and> mg_turn m \<le> through_turn
       then m\<lparr>mg_state := MsgComplete\<rparr> else m))) st"

section \<open>Installing a snapshot\<close>

definition stats_of_run :: "session_summary \<Rightarrow> run_snapshot \<Rightarrow> run_stats \<Rightarrow> run_stats" where
  "stats_of_run summary run stats =
     stats\<lparr>st_origin := rs_origin run,
       st_owned_step := (case rs_origin run of Some origin \<Rightarrow> is_in_run_compaction origin | None \<Rightarrow> False)
         \<or> rs_status run = RunsRunning \<and> su_active_run summary \<noteq> Some (rs_id run),
       st_outcome := rs_outcome run, st_usage := rs_usage run, st_cost := rs_cost run,
       st_plan := map_option plan_label (rs_plan run), st_route := rs_route run\<rparr>"

definition count_call :: "tool_snapshot \<Rightarrow> (ident \<Rightarrow> run_stats option) \<Rightarrow> ident \<Rightarrow> run_stats option" where
  "count_call call runs =
     (if ts_state call \<in> {Completed, Failed, CallDenied}
      then entry_or stats_default (ts_run call) (\<lambda>s. s\<lparr>st_tool_calls := u32_succ (st_tool_calls s)\<rparr>) runs
      else runs)"

definition observed_stats :: "run_stats \<Rightarrow> run_stats \<Rightarrow> run_stats" where
  "observed_stats observed stats =
     stats\<lparr>st_started_at := st_started_at observed, st_first_token_at := st_first_token_at observed,
       st_finished_at := st_finished_at observed, st_turns := st_turns observed, st_live_cost := st_live_cost observed,
       st_owned_step := st_owned_step stats \<or> st_owned_step observed,
       st_origin := (case st_origin stats of None \<Rightarrow> st_origin observed | Some x \<Rightarrow> Some x)\<rparr>"

definition prompt_history_of :: "message_snapshot list \<Rightarrow> string list" where
  "prompt_history_of messages =
     (let prompts = filter (\<lambda>p. trim p \<noteq> []) (map mg_output (filter (\<lambda>m. mg_role m = RoleUser) messages))
      in drop (length prompts - MAX_PROMPT_HISTORY) prompts)"

text \<open>What of the previous view survives a new body.\<close>

definition keep_previous :: "tool_snapshot list \<Rightarrow> session_view \<Rightarrow> session_view \<Rightarrow> session_view" where
  "keep_previous calls old v =
     (let live = retain (\<lambda>k _. \<exists>c \<in> set calls. ts_id c = k \<and> ts_state c = Running) (vw_live_output old)
      in v\<lparr>vw_foreground_run := (case vw_foreground_run v of None \<Rightarrow> vw_foreground_run old | Some r \<Rightarrow> Some r),
           vw_runs := (\<lambda>k. case (vw_runs v k, vw_runs old k) of
               (Some stats, Some observed) \<Rightarrow> Some (observed_stats observed stats) | _ \<Rightarrow> vw_runs v k),
           vw_unread := vw_unread old, vw_finished_unread := vw_finished_unread old,
           vw_last_focused := vw_last_focused old, vw_drafts := vw_drafts old,
           vw_live_output := live,
           vw_live_truncated := {k \<in> vw_live_truncated old. live k \<noteq> None}\<rparr>)"

definition fresh_body :: "text_sanitizer \<Rightarrow> session_snapshot \<Rightarrow> model_option list \<Rightarrow> nat \<Rightarrow> session_view \<times> tool_snapshot list" where
  "fresh_body san snapshot models loaded_through =
     (let messages = retain_recent_messages (sn_messages snapshot);
          calls = fst (retain_recent_tool_calls (sn_tool_calls snapshot));
          summary = sn_summary snapshot;
          v = summary_only summary (model_context_window models (su_model summary)) loaded_through;
          runs = foldl (\<lambda>m run. entry_or stats_default (rs_id run) (stats_of_run summary run) m) Map.empty (sn_runs snapshot)
      in (v\<lparr>vw_execution_root := sn_execution_root snapshot, vw_live := live_from_body san messages calls,
            vw_runs := foldl (\<lambda>m c. count_call c m) runs calls, vw_prompt_history := prompt_history_of messages,
            vw_messages := Some messages, vw_tool_calls := Some calls\<rparr>, calls))"

definition install_body :: "session_snapshot \<Rightarrow> model_option list \<Rightarrow> nat \<Rightarrow> bool \<Rightarrow> client_store \<Rightarrow> client_store" where
  "install_body snapshot models loaded_through isolated st =
     (let k = su_id (sn_summary snapshot)
      in if \<not> isolated \<and> (sn_has_older_messages snapshot \<or> sn_has_older_tool_calls snapshot)
         then body_mut k (\<lambda>v. (evict_body v)\<lparr>vw_loaded_through := loaded_through\<rparr>)
                (upsert_summary (sn_summary snapshot) models loaded_through st)
         else (let (v, calls) = fresh_body (cs_sanitizer st) snapshot models loaded_through;
                   v1 = (case get_view k st of None \<Rightarrow> v | Some old \<Rightarrow> keep_previous calls old v);
                   v2 = v1\<lparr>vw_previews := map_of (rev (sn_previews snapshot)),
                           vw_live := set_holds (su_holds (sn_summary snapshot)) (vw_live v1),
                           vw_side_questions := sn_side_questions snapshot\<rparr>
               in insert_view k v2 (remove_view k st)))"

section \<open>What the interface asks\<close>

fun root_steps :: "nat \<Rightarrow> ident \<Rightarrow> client_store \<Rightarrow> ident option" where
  "root_steps 0 k st = None"
| "root_steps (Suc n) k st =
     (case get_view k st of
        None \<Rightarrow> None
      | Some v \<Rightarrow> (case su_parent (vw_summary v) of Some p \<Rightarrow> root_steps n p st | None \<Rightarrow> Some k))"

definition thread_depth :: "tree_index \<Rightarrow> ident \<Rightarrow> nat" where
  "thread_depth ix k = (case ix_depth ix k of None \<Rightarrow> 0 | Some d \<Rightarrow> d)"

definition root_of :: "tree_index \<Rightarrow> ident \<Rightarrow> client_store \<Rightarrow> ident option" where
  "root_of ix k st = root_steps (thread_depth ix k + 1) k st"

text \<open>Up the parents the client knows, at most as often as there are sessions.\<close>

fun session_steps :: "nat \<Rightarrow> ident \<Rightarrow> client_store \<Rightarrow> ident option" where
  "session_steps 0 k st = None"
| "session_steps (Suc n) k st =
     (case get_view k st of
        None \<Rightarrow> None
      | Some v \<Rightarrow>
          (case su_parent (vw_summary v) of
             Some p \<Rightarrow> if get_view p st \<noteq> None then session_steps n p st else Some k
           | None \<Rightarrow> Some k))"

definition session_of :: "ident \<Rightarrow> client_store \<Rightarrow> ident option" where
  "session_of k st = session_steps (length (cs_sessions st) + 1) k st"

text \<open>The agents below a session, audits and what is under them left out. The walk ends where no parents form a
  cycle; the steps are bounded by the number of sessions.\<close>

fun agents_walk :: "nat \<Rightarrow> tree_index \<Rightarrow> client_store \<Rightarrow> ident list \<Rightarrow> ident list option" where
  "agents_walk n ix st [] = Some []"
| "agents_walk 0 ix st (k # ks) = None"
| "agents_walk (Suc n) ix st (k # ks) =
     (case get_view k st of
        None \<Rightarrow> agents_walk n ix st ks
      | Some v \<Rightarrow>
          if is_audit v then agents_walk n ix st ks
          else map_option ((#) k) (agents_walk n ix st (ix_children ix (Some k) @ ks)))"

definition agents_of :: "tree_index \<Rightarrow> client_store \<Rightarrow> ident \<Rightarrow> ident list option" where
  "agents_of ix st k = agents_walk (length (cs_sessions st) + 1) ix st (ix_children ix (Some k))"

datatype store_activity = StoreIdle | StoreWorking | StoreBlocked string

definition busy :: "session_view \<Rightarrow> bool" where
  "busy v \<longleftrightarrow> su_status (vw_summary v) \<in> {SessionRunning, SessionQueued}"

definition blocked_view :: "session_view option \<Rightarrow> session_view \<Rightarrow> session_view option" where
  "blocked_view blocked v =
     (case blocked of
        None \<Rightarrow> Some v
      | Some c \<Rightarrow>
          if su_updated_at (vw_summary c) < su_updated_at (vw_summary v)
             \<or> su_updated_at (vw_summary c) = su_updated_at (vw_summary v) \<and> su_id (vw_summary c) < su_id (vw_summary v)
          then Some v else Some c)"

definition activity_step :: "bool \<times> session_view option \<Rightarrow> session_view \<Rightarrow> bool \<times> session_view option" where
  "activity_step acc v =
     (if ls_awaiting (vw_live v) \<noteq> {} then (fst acc, blocked_view (snd acc) v)
      else (fst acc \<or> su_running_side (vw_summary v) \<noteq> None \<or> busy v, snd acc))"

definition store_activity_of :: "client_store \<Rightarrow> store_activity" where
  "store_activity_of st =
     (let (working, blocked) = foldl activity_step (False, None) (map snd (cs_sessions st))
      in case blocked of
           Some v \<Rightarrow> StoreBlocked (su_title (vw_summary v))
         | None \<Rightarrow> if working then StoreWorking else StoreIdle)"

definition awaiting_approval :: "tree_index \<Rightarrow> client_store \<Rightarrow> ident list" where
  "awaiting_approval ix st =
     filter (\<lambda>k. case get_view k st of Some v \<Rightarrow> ls_awaiting (vw_live v) \<noteq> {} | None \<Rightarrow> False) (ix_order ix)"

fun need_rank :: "need \<Rightarrow> nat" where
  "need_rank NeedApproval = 0"
| "need_rank NeedFailed = 1"
| "need_rank NeedFinishedUnread = 2"

text \<open>By the need, then the newest first.\<close>

definition needing_le :: "session_view \<Rightarrow> session_view \<Rightarrow> bool" where
  "needing_le a b =
     (let n = (\<lambda>v. case view_need v of Some x \<Rightarrow> need_rank x | None \<Rightarrow> 3); sa = vw_summary a; sb = vw_summary b
      in n a < n b \<or> n a = n b \<and> (su_updated_at sb < su_updated_at sa \<or> su_updated_at sb = su_updated_at sa \<and> su_id sb \<le> su_id sa))"

definition needing_attention :: "tree_index \<Rightarrow> client_store \<Rightarrow> ident list" where
  "needing_attention ix st =
     map (\<lambda>v. su_id (vw_summary v)) (sort_by needing_le
       (filter (\<lambda>v. su_id (vw_summary v) \<notin> ix_hidden ix \<and> view_need v \<noteq> None) (map snd (cs_sessions st))))"

record rail_row =
  rr_id :: ident
  rr_group :: group
  rr_agents :: nat
  rr_working :: nat
  rr_cost :: "nat option"

fun group_rank :: "group \<Rightarrow> nat" where
  "group_rank NeedsYou = 0"
| "group_rank GroupWorking = 1"
| "group_rank GroupIdle = 2"
| "group_rank GroupDone = 3"

definition rail_row_of :: "tree_index \<Rightarrow> client_store \<Rightarrow> ident \<Rightarrow> rail_row option" where
  "rail_row_of ix st k =
     (case (get_view k st, agents_of ix st k) of
        (Some v, Some agents) \<Rightarrow>
          (let views = List.map_filter (\<lambda>a. get_view a st) agents;
               working = length (filter busy views);
               waiting = (\<exists>a \<in> set views. view_need a \<noteq> None);
               own = view_group v
           in Some \<lparr>rr_id = k,
                rr_group = (if own = NeedsYou \<or> waiting then NeedsYou else if own = GroupWorking \<or> working > 0 then GroupWorking else GroupDone),
                rr_agents = length agents, rr_working = working, rr_cost = inclusive_cost v\<rparr>)
      | _ \<Rightarrow> None)"

definition rail_order :: "tree_index \<Rightarrow> client_store \<Rightarrow> rail_row list option" where
  "rail_order ix st =
     map_option (sort_by (\<lambda>a b. group_rank (rr_group a) \<le> group_rank (rr_group b))) (those (map (rail_row_of ix st) (ix_listed ix)))"

end
