(* ===== verification/Client_Reduce.thy ===== *)
theory Client_Reduce
  imports Client_State
begin

text \<open>
  How a client follows the events of the server (\<^verbatim>\<open>qq-client/src/state/reduce.rs\<close>): \<open>reduce_event\<close> changes the store and
  gives the effects for the interface; \<open>replay_event\<close> does the same for events that are caught up on, and keeps what is
  local to the client. \<open>None\<close> is a panic.
\<close>

section \<open>Events and effects\<close>

datatype audit_outcome = AuditPass | AuditRevised | AuditUnavailable

datatype client_event =
    EvSideQuestionUpdated side_question
  | EvSessionCreated session_summary
  | EvSessionUpdated session_summary
  | EvSessionDeleted ident
  | EvPromptQueued session_summary message_snapshot
  | EvRunStarted session_summary ident "run_plan option" "run_origin option"
  | EvSteeringQueued message_snapshot
  | EvSteeringApplied ident
  | EvSteeringSuperseded ident
  | EvRunOutputTruncated ident nat nat
  | EvRunTurnRetrying nat nat string
  | EvRunAuditStarted ident
  | EvRunAuditCompleted audit_outcome "string list"
  | EvRunActivityChanged ident run_activity
  | EvReasoningStarted ident
  | EvReasoningDelta ident string
  | EvReasoningCompleted ident
  | EvAssistantMessageStarted message_snapshot
  | EvTextAppended ident text_channel string
  | EvModelTurnCompleted ident nat "string option" "nat option"
  | EvSessionRewound "ident list"
  | EvTool tool_event
  | EvRetired
  | EvCancellationRequested session_summary
  | EvSessionCompacted session_summary "string option" nat nat
  | EvSessionCompactionRolledBack session_summary nat
  | EvRunContextUpdated ident nat
  | EvSessionContextUpdated "nat option"
  | EvRunFinished session_summary ident run_outcome "string option" "run_origin option"

record client_envelope =
  ce_session :: ident
  ce_run :: "ident option"
  ce_occurred_at :: nat
  ce_event :: client_event

datatype notice_level = NoticeInfo | NoticeWarning | NoticeError

datatype attention = AttendApproval string | AttendFinished string

fun attention_summary :: "attention \<Rightarrow> string" where
  "attention_summary (AttendApproval title) = ''qq: '' @ title @ '' needs approval''"
| "attention_summary (AttendFinished title) = ''qq: '' @ title @ '' finished''"

record snapshot_request =
  sr_workspace :: ident
  sr_focused :: "ident option"
  sr_include :: "ident list"
  sr_session_limit :: nat
  sr_message_limit :: nat

definition body_request :: "ident \<Rightarrow> ident \<Rightarrow> snapshot_request" where
  "body_request workspace session =
     \<lparr>sr_workspace = workspace, sr_focused = Some session, sr_include = [], sr_session_limit = SNAPSHOT_SESSION_LIMIT,
      sr_message_limit = SNAPSHOT_MESSAGE_LIMIT\<rparr>"

datatype state_effect =
    FxNotice "ident option" notice_level string
  | FxAttention attention
  | FxRequestSnapshot snapshot_request
  | FxRefocus "ident option"
  | FxAdoptCreated ident
  | FxSubmitDraft ident string
  | FxSessionRemoved ident "ident list"

record reduce_context =
  rc_focused :: "ident option"
  rc_attentive :: bool
  rc_workspace :: "ident option"
  rc_max_continuations :: "nat option"
  rc_models :: "model_option list"
  rc_caused_by_me :: bool

type_synonym reduced = "(client_store \<times> state_effect list) option"

section \<open>Texts of notices\<close>

definition MAX_COMPACTION_EXCERPT_CHARS :: nat where "MAX_COMPACTION_EXCERPT_CHARS = 96"
definition MAX_TURN_RETRIES :: nat where "MAX_TURN_RETRIES = 5"

text \<open>A 64-bit integer as a floating-point number of 53 bits, and a quotient printed with one decimal; both round
  to the nearest, and to even in the middle. The divisor is a power of two, so the division is exact.\<close>

definition round_even :: "nat \<Rightarrow> nat \<Rightarrow> nat" where
  "round_even a b =
     (let q = a div b; r = a mod b in if 2 * r < b \<or> 2 * r = b \<and> even q then q else q + 1)"

definition as_f64 :: "nat \<Rightarrow> nat" where
  "as_f64 n =
     (if n < 2 ^ 53 then n
      else (let e = length (takeWhile (\<lambda>i. 2 ^ (53 + i) \<le> n) [0..<12]) in round_even n (2 ^ e) * 2 ^ e))"

definition one_decimal :: "nat \<Rightarrow> nat \<Rightarrow> string" where
  "one_decimal bytes scale =
     (let tenths = round_even (10 * as_f64 bytes) scale in nat_to_string (tenths div 10) @ ''.'' @ nat_to_string (tenths mod 10))"

definition format_bytes :: "nat \<Rightarrow> string" where
  "format_bytes bytes =
     (if 1024 * 1024 * 1024 \<le> bytes then one_decimal bytes (1024 * 1024 * 1024) @ '' GiB''
      else if 1024 * 1024 \<le> bytes then one_decimal bytes (1024 * 1024) @ '' MiB''
      else if 1024 \<le> bytes then one_decimal bytes 1024 @ '' KiB''
      else nat_to_string bytes @ '' B'')"

fun join_words :: "string list \<Rightarrow> string" where
  "join_words [] = []"
| "join_words [w] = w"
| "join_words (w # ws) = w @ '' '' @ join_words ws"

definition excerpt :: "string \<Rightarrow> nat \<Rightarrow> string" where
  "excerpt text' width =
     (let plain = join_words (split_whitespace text')
      in if length (str_chars plain) \<le> width then plain
         else concat (take (width - 3) (str_chars plain)) @ ''...'')"

definition audit_text :: "audit_outcome \<Rightarrow> string list \<Rightarrow> string" where
  "audit_text outcome findings =
     (case outcome of
        AuditPass \<Rightarrow> ''audit passed''
      | AuditRevised \<Rightarrow> ''audit asked for a revision ('' @ nat_to_string (length findings) @ '' finding''
          @ (if length findings = 1 then [] else ''s'') @ '')''
      | AuditUnavailable \<Rightarrow> ''audit unavailable; answer stands'')"

definition truncated_text :: "nat option \<Rightarrow> nat \<Rightarrow> string" where
  "truncated_text limit continuation' =
     (case limit of
        Some cap \<Rightarrow>
          if cap > 0 then ''output limit reached; continuing ('' @ nat_to_string continuation' @ ''/'' @ nat_to_string cap @ '')''
          else ''output limit reached; continuing ('' @ nat_to_string continuation' @ '')''
      | None \<Rightarrow> ''output limit reached; continuing ('' @ nat_to_string continuation' @ '')'')"

definition retrying_text :: "nat \<Rightarrow> nat \<Rightarrow> string \<Rightarrow> string" where
  "retrying_text attempt delay_ms message =
     ''provider fault; retrying turn in '' @ nat_to_string ((delay_ms + 999) div 1000) @ ''s ('' @ nat_to_string attempt @ ''/''
     @ nat_to_string MAX_TURN_RETRIES @ ''): '' @ message"

definition compacted_text :: "string option \<Rightarrow> nat \<Rightarrow> nat \<Rightarrow> string" where
  "compacted_text summary before_bytes after_bytes =
     ''compacted: '' @ format_bytes before_bytes @ '' -> '' @ format_bytes after_bytes
     @ (case map_option trim summary of
          Some s \<Rightarrow> if s \<noteq> [] then ''; '' @ excerpt s MAX_COMPACTION_EXCERPT_CHARS else []
        | None \<Rightarrow> [])"

definition pause_text :: "run_pause \<Rightarrow> string" where
  "pause_text pause =
     (case pause of
        ProviderRetry fault message turn attempts \<Rightarrow>
          ''paused after '' @ nat_to_string attempts @ '' retries of turn '' @ nat_to_string turn @ '': '' @ message
      | NoProgress turn slices calls \<Rightarrow>
          ''paused for no progress at turn '' @ nat_to_string turn @ '' after '' @ nat_to_string calls
          @ '' eligible tool attempts across '' @ nat_to_string slices @ '' slices'')"

definition outcome_notice :: "ident \<Rightarrow> run_outcome \<Rightarrow> state_effect list" where
  "outcome_notice k outcome =
     (case outcome of
        OutcomeFailed fault message \<Rightarrow> [FxNotice (Some k) NoticeError message]
      | OutcomeBudgetExhausted message \<Rightarrow> [FxNotice (Some k) NoticeError message]
      | OutcomePaused pause \<Rightarrow> [FxNotice (Some k) NoticeWarning (pause_text pause @ ''; send a prompt to continue'')]
      | _ \<Rightarrow> [])"

section \<open>The parts of an event\<close>

definition side_summary :: "side_question \<Rightarrow> session_view \<Rightarrow> session_view" where
  "side_summary q v =
     (let s = vw_summary v
      in if sq_state q = SideRunning then v\<lparr>vw_summary := s\<lparr>su_running_side := Some (sq_id q)\<rparr>\<rparr>
         else if su_running_side s = Some (sq_id q) then v\<lparr>vw_summary := s\<lparr>su_running_side := None\<rparr>\<rparr>
         else v)"

text \<open>The first element that satisfies a test, changed in place.\<close>

fun update_first :: "('a \<Rightarrow> bool) \<Rightarrow> ('a \<Rightarrow> 'a) \<Rightarrow> 'a list \<Rightarrow> 'a list" where
  "update_first P f [] = []"
| "update_first P f (x # xs) = (if P x then f x # xs else x # update_first P f xs)"

definition side_body :: "side_question \<Rightarrow> session_view \<Rightarrow> session_view" where
  "side_body q v =
     (if \<not> is_warm v then v
      else if \<exists>x \<in> set (vw_side_questions v). sq_id x = sq_id q
      then v\<lparr>vw_side_questions := update_first (\<lambda>x. sq_id x = sq_id q) (\<lambda>_. q) (vw_side_questions v)\<rparr>
      else (let qs = vw_side_questions v @ [q] in v\<lparr>vw_side_questions := if 64 < length qs then tl qs else qs\<rparr>))"

definition owned_by_other :: "run_origin option \<Rightarrow> session_summary \<Rightarrow> ident \<Rightarrow> bool" where
  "owned_by_other origin summary run \<longleftrightarrow>
     (case origin of Some x \<Rightarrow> is_in_run_compaction x | None \<Rightarrow> False)
     \<or> (case su_active_run summary of Some active \<Rightarrow> active \<noteq> run | None \<Rightarrow> False)"

definition start_run :: "session_summary \<Rightarrow> ident \<Rightarrow> run_plan option \<Rightarrow> run_origin option \<Rightarrow> nat \<Rightarrow> session_view \<Rightarrow> session_view" where
  "start_run summary run plan origin now v =
     map_messages (map (\<lambda>m. if mg_run m = run \<and> mg_role m = RoleUser then m\<lparr>mg_state := MsgComplete\<rparr> else m))
       (v\<lparr>vw_runs := entry_or stats_default run (\<lambda>s. s\<lparr>st_started_at := Some now, st_origin := origin,
            st_owned_step := owned_by_other origin summary run, st_plan := map_option plan_label plan\<rparr>) (vw_runs v)\<rparr>)"

definition change_activity :: "ident \<Rightarrow> run_activity \<Rightarrow> session_view \<Rightarrow> session_view" where
  "change_activity run activity v =
     (case su_active_run (vw_summary v) of
        None \<Rightarrow> v\<lparr>vw_activity := Some (run, activity)\<rparr>
      | Some active \<Rightarrow> if active = run then v\<lparr>vw_activity := Some (run, activity)\<rparr> else v)"

definition reason :: "ident \<Rightarrow> (reasoning \<Rightarrow> reasoning) \<Rightarrow> session_view \<Rightarrow> session_view" where
  "reason run f v = (if is_warm v then v\<lparr>vw_reasoning := entry_or reasoning_default run f (vw_reasoning v)\<rparr> else v)"

definition stop_reasoning :: "ident \<Rightarrow> session_view \<Rightarrow> session_view" where
  "stop_reasoning run v =
     (case vw_reasoning v run of
        None \<Rightarrow> v | Some r \<Rightarrow> v\<lparr>vw_reasoning := (vw_reasoning v)(run \<mapsto> r\<lparr>rg_streaming := False\<rparr>)\<rparr>)"

definition begin_message :: "text_sanitizer \<Rightarrow> bool \<Rightarrow> message_snapshot \<Rightarrow> session_view \<Rightarrow> session_view" where
  "begin_message san shown m v =
     v\<lparr>vw_unread := if shown then vw_unread v else u32_succ (vw_unread v), vw_live := set_tail san (mg_output m) (vw_live v)\<rparr>"

definition append_text :: "text_sanitizer \<Rightarrow> ident option \<Rightarrow> nat \<Rightarrow> text_channel \<Rightarrow> string \<Rightarrow> session_view \<Rightarrow> session_view" where
  "append_text san run now channel text' v =
     (let v1 = (case run of
                  None \<Rightarrow> v
                | Some r \<Rightarrow> v\<lparr>vw_runs := entry_or stats_default r (\<lambda>s. if st_first_token_at s = None
                    then s\<lparr>st_first_token_at := Some now\<rparr> else s) (vw_runs v)\<rparr>)
      in if channel = OutputChannel then v1\<lparr>vw_live := append_tail san text' (vw_live v1)\<rparr> else v1)"

definition append_to_message :: "ident \<Rightarrow> text_channel \<Rightarrow> string \<Rightarrow> session_view \<Rightarrow> session_view" where
  "append_to_message message channel text' v =
     map_messages (update_last (\<lambda>m. mg_id m = message) (\<lambda>m. case channel of
         OutputChannel \<Rightarrow> m\<lparr>mg_output := mg_output m @ text'\<rparr>
       | RefusalChannel \<Rightarrow> m\<lparr>mg_refusal := mg_refusal m @ text'\<rparr>)) v"

definition set_message_state :: "ident \<Rightarrow> message_state \<Rightarrow> session_view \<Rightarrow> session_view" where
  "set_message_state message state v =
     map_messages (update_first (\<lambda>m. mg_id m = message) (\<lambda>m. m\<lparr>mg_state := state\<rparr>)) v"

definition mark_truncated :: "ident \<Rightarrow> nat \<Rightarrow> session_view \<Rightarrow> session_view" where
  "mark_truncated run turn v =
     map_messages (update_last (\<lambda>m. mg_run m = run \<and> mg_turn m = turn \<and> mg_role m = RoleAssistant) (\<lambda>m. m\<lparr>mg_truncated := True\<rparr>)) v"

definition rewind :: "ident list \<Rightarrow> session_view \<Rightarrow> session_view" where
  "rewind messages v = map_messages (map (\<lambda>m. if mg_id m \<in> set messages then m\<lparr>mg_state := MsgRewound\<rparr> else m)) v"

definition complete_turn :: "ident \<Rightarrow> nat \<Rightarrow> string option \<Rightarrow> nat option \<Rightarrow> session_view \<Rightarrow> session_view" where
  "complete_turn run turn route cost v =
     v\<lparr>vw_runs := entry_or stats_default run (\<lambda>s.
         s\<lparr>st_route := (case route of Some r \<Rightarrow> Some r | None \<Rightarrow> st_route s),
           st_live_cost := (case cost of
               Some c \<Rightarrow> if st_turns s < turn then Some (sat_add u64_max (case st_live_cost s of None \<Rightarrow> 0 | Some x \<Rightarrow> x) c) else st_live_cost s
             | None \<Rightarrow> st_live_cost s),
           st_turns := max (st_turns s) turn\<rparr>) (vw_runs v)\<rparr>"

section \<open>Tool calls\<close>

definition request_approval :: "tool_snapshot \<Rightarrow> approval_previews \<Rightarrow> session_view \<Rightarrow> session_view" where
  "request_approval call previews v =
     v\<lparr>vw_previews := (if ap_shell previews \<noteq> None \<or> ap_edit previews \<noteq> None \<or> ap_question previews \<noteq> None \<or> ap_fetch previews \<noteq> None
          then (vw_previews v)(ts_id call \<mapsto> previews) else vw_previews v),
       vw_live := note_tool_call call (vw_live v)\<rparr>"

definition output_delta :: "ident \<Rightarrow> string \<Rightarrow> nat \<Rightarrow> session_view \<Rightarrow> session_view" where
  "output_delta call chunk now v =
     (let v1 = append_live_tool_output call chunk v
      in v1\<lparr>vw_timing := entry_or timing_default call (\<lambda>t. t\<lparr>tt_last_output_at := Some now\<rparr>) (vw_timing v1)\<rparr>)"

text \<open>The times of a call, and the count of calls of its run.\<close>

definition time_call :: "tool_event \<Rightarrow> tool_snapshot \<Rightarrow> nat \<Rightarrow> session_view \<Rightarrow> session_view" where
  "time_call event call now v =
     v\<lparr>vw_timing := entry_or timing_default (ts_id call) (\<lambda>t. case event of
          ToolCallStarted _ \<Rightarrow> t\<lparr>tt_started_at := Some now\<rparr>
        | ToolCallFinished _ \<Rightarrow> t\<lparr>tt_finished_at := Some now\<rparr>
        | ToolApprovalResolved _ resolution \<Rightarrow> t\<lparr>tt_settled := Some resolution\<rparr>
        | _ \<Rightarrow> t) (vw_timing v),
       vw_runs := (case event of
          ToolCallFinished _ \<Rightarrow> entry_or stats_default (ts_run call) (\<lambda>s. s\<lparr>st_tool_calls := u32_succ (st_tool_calls s)\<rparr>) (vw_runs v)
        | _ \<Rightarrow> vw_runs v)\<rparr>"

definition settle_call_view :: "tool_snapshot \<Rightarrow> session_view \<Rightarrow> session_view" where
  "settle_call_view call v =
     (let v1 = (if ts_state call \<noteq> AwaitingApproval then v\<lparr>vw_previews := (vw_previews v)(ts_id call := None)\<rparr> else v);
          v2 = (if tool_call_state_is_terminal (ts_state call) then finish_live_tool_output (ts_id call) v1 else v1)
      in v2\<lparr>vw_live := note_tool_call call (vw_live v2)\<rparr>)"

definition follow_call :: "tool_event \<Rightarrow> tool_snapshot \<Rightarrow> ident \<Rightarrow> nat \<Rightarrow> client_store \<Rightarrow> client_store" where
  "follow_call event call k now st =
     (let st1 = body_mut k (time_call event call now) st;
          st2 = (case event of ToolCallRequested _ \<Rightarrow> complete_streamed_turns k (ts_run call) (ts_turn call) st1 | _ \<Rightarrow> st1)
      in upsert_tool_call call (get_mut k (settle_call_view call) st2))"

definition reduce_tool :: "reduce_context \<Rightarrow> ident \<Rightarrow> nat \<Rightarrow> tool_event \<Rightarrow> client_store \<Rightarrow> client_store \<times> state_effect list" where
  "reduce_tool ctx k now event st =
     (case event of
        ToolApprovalRequested call previews \<Rightarrow>
          (upsert_tool_call call (get_mut k (request_approval call previews) st),
           case get_view k st of
             Some v \<Rightarrow> if ts_state call = AwaitingApproval \<and> \<not> rc_attentive ctx
               then [FxAttention (AttendApproval (su_title (vw_summary v)))] else []
           | None \<Rightarrow> [])
      | ToolCallOutputDelta call chunk \<Rightarrow> (body_mut k (output_delta call chunk now) st, [])
      | ToolCallRequested call \<Rightarrow> (follow_call event call k now st, [])
      | ToolApprovalResolved call resolution \<Rightarrow> (follow_call event call k now st, [])
      | ToolCallStarted call \<Rightarrow> (follow_call event call k now st, [])
      | ToolCallFinished call \<Rightarrow> (follow_call event call k now st, [])
      | RunInterrupted run turn \<Rightarrow> (st, []))"

section \<open>The end of a run\<close>

definition finished_state :: "run_outcome \<Rightarrow> message_state" where
  "finished_state outcome =
     (case outcome of
        OutcomeCompleted \<Rightarrow> MsgComplete
      | OutcomeCancelled \<Rightarrow> MsgCancelled
      | OutcomeInterrupted \<Rightarrow> MsgInterrupted
      | OutcomeBudgetExhausted _ \<Rightarrow> MsgInterrupted
      | OutcomePaused _ \<Rightarrow> MsgInterrupted
      | OutcomeFailed _ _ \<Rightarrow> MsgFailed)"

definition finish_message :: "ident \<Rightarrow> message_state \<Rightarrow> message_snapshot \<Rightarrow> message_snapshot" where
  "finish_message run state m =
     (if mg_run m = run
         \<and> \<not> (mg_role m = RoleAssistant \<and> mg_state m \<notin> {MsgQueued, MsgStreaming})
         \<and> (mg_role m = RoleAssistant \<or> mg_state m = MsgQueued)
      then m\<lparr>mg_state := state\<rparr> else m)"

definition finish_stats :: "run_origin option \<Rightarrow> bool \<Rightarrow> nat \<Rightarrow> run_outcome \<Rightarrow> string option \<Rightarrow> run_stats \<Rightarrow> run_stats" where
  "finish_stats origin owned now outcome usage s =
     s\<lparr>st_origin := (case origin of Some x \<Rightarrow> Some x | None \<Rightarrow> st_origin s), st_owned_step := st_owned_step s \<or> owned,
       st_finished_at := Some now, st_outcome := Some outcome, st_usage := usage, st_cost := None\<rparr>"

definition finish_view ::
  "ident \<Rightarrow> run_outcome \<Rightarrow> string option \<Rightarrow> run_origin option \<Rightarrow> bool \<Rightarrow> bool \<Rightarrow> nat \<Rightarrow> session_view \<Rightarrow> session_view" where
  "finish_view run outcome usage origin owned shown now v =
     (let v1 = (if \<not> shown \<and> \<not> owned then v\<lparr>vw_finished_unread := True, vw_unread := u32_succ (vw_unread v)\<rparr> else v);
          v2 = v1\<lparr>vw_runs := entry_or stats_default run (finish_stats origin owned now outcome usage) (vw_runs v1),
                  vw_activity := (case vw_activity v1 of Some (active, x) \<Rightarrow> if active = run then None else vw_activity v1 | None \<Rightarrow> None)\<rparr>;
          v3 = (if owned then v2 else v2\<lparr>vw_live := (vw_live v2)\<lparr>ls_active_tool := None, ls_awaiting := {}\<rparr>\<rparr>);
          v4 = stop_reasoning run v3
      in case vw_messages v4 of
           None \<Rightarrow> v4
         | Some messages \<Rightarrow>
             (let retained = mg_run ` set messages
              in v4\<lparr>vw_reasoning := retain (\<lambda>r _. r \<in> retained) (vw_reasoning v4),
                    vw_runs := retain (\<lambda>r s. r \<in> retained \<or> st_owned_step s \<and> st_outcome s = None) (vw_runs v4),
                    vw_messages := Some (map (finish_message run (finished_state outcome)) messages)\<rparr>))"

text \<open>A run that belongs to another one is not the end of the session's work.\<close>

definition owned_step :: "session_summary \<Rightarrow> ident \<Rightarrow> run_origin option \<Rightarrow> session_view option \<Rightarrow> bool" where
  "owned_step summary run origin view \<longleftrightarrow>
     owned_by_other origin summary run
     \<or> (case view of
          None \<Rightarrow> False
        | Some v \<Rightarrow>
            (case vw_runs v run of Some s \<Rightarrow> st_owned_step s | None \<Rightarrow> False)
            \<or> \<not> su_queued_prompts summary < su_queued_prompts (vw_summary v)
              \<and> (case vw_foreground_run v of Some f \<Rightarrow> f \<noteq> run | None \<Rightarrow> False))"

definition reduce_finished ::
  "reduce_context \<Rightarrow> ident \<Rightarrow> nat \<Rightarrow> session_summary \<Rightarrow> ident \<Rightarrow> run_outcome \<Rightarrow> string option \<Rightarrow> run_origin option \<Rightarrow> client_store
    \<Rightarrow> client_store \<times> state_effect list" where
  "reduce_finished ctx k now summary run outcome usage origin st =
     (let shown = (rc_focused ctx = Some k);
          owned = owned_step summary run origin (get_view k st);
          st1 = upsert_summary summary (rc_models ctx) 0 st;
          attend = (if \<not> rc_attentive ctx \<and> \<not> owned then [FxAttention (AttendFinished (su_title summary))] else []);
          st2 = get_mut k (finish_view run outcome usage origin owned shown now) st1
      in case get_view k st2 of
           None \<Rightarrow> (st2, attend)
         | Some v \<Rightarrow>
             if owned then (st2, attend)
             else (let request = (case rc_workspace ctx of
                         Some w \<Rightarrow> if shown \<or> is_warm v
                           then [FxRequestSnapshot (if shown then body_request w k else (body_request w k)\<lparr>sr_focused := None, sr_include := [k]\<rparr>)]
                           else []
                       | None \<Rightarrow> []);
                       idle = (su_active_run summary = None \<and> su_queued_prompts summary = 0);
                       drafts = vw_drafts v
                   in (if idle \<and> drafts \<noteq> [] then get_mut k (\<lambda>v. v\<lparr>vw_drafts := tl (vw_drafts v)\<rparr>) st2 else st2,
                       attend @ request @ (if idle \<and> drafts \<noteq> [] then [FxSubmitDraft k (hd drafts)] else []) @ outcome_notice k outcome)))"

section \<open>The removal of a session\<close>

text \<open>The next thread in the order, or else the one before.\<close>

definition neighbour :: "ident \<Rightarrow> ident list \<Rightarrow> ident option" where
  "neighbour k order =
     (case position (\<lambda>x. x = k) order of
        None \<Rightarrow> None
      | Some i \<Rightarrow> if i + 1 < length order then Some (order ! (i + 1)) else if i \<ge> 1 then Some (order ! (i - 1)) else None)"

definition forget_parent :: "ident \<Rightarrow> session_view \<Rightarrow> session_view" where
  "forget_parent k v =
     (if su_parent (vw_summary v) = Some k then v\<lparr>vw_summary := (vw_summary v)\<lparr>su_parent := None\<rparr>\<rparr> else v)"

definition remove_session :: "reduce_context \<Rightarrow> ident \<Rightarrow> client_store \<Rightarrow> reduced" where
  "remove_session ctx k st =
     (case get_view k st of
        None \<Rightarrow> Some (st, [])
      | Some removed \<Rightarrow>
          (let showing = (rc_focused ctx = Some k)
           in case (if showing then map_option (\<lambda>(ix, st'). (neighbour k (ix_order ix), st')) (get_index st) else Some (None, st)) of
                None \<Rightarrow> None
              | Some (refocus, st1) \<Rightarrow>
                  (let st2 = values_mut (forget_parent k) (remove_view k st1);
                       gone = FxSessionRemoved k (case vw_tool_calls removed of None \<Rightarrow> [] | Some calls \<Rightarrow> map ts_id calls);
                       warm = (case refocus of None \<Rightarrow> False | Some x \<Rightarrow> (case get_view x st2 of None \<Rightarrow> False | Some v \<Rightarrow> is_warm v))
                   in Some (st2, gone # (if showing then FxRefocus refocus # (case (refocus, rc_workspace ctx) of
                        (Some x, Some w) \<Rightarrow> if warm then [] else [FxRequestSnapshot (body_request w x)] | _ \<Rightarrow> []) else [])))))"

section \<open>Events\<close>

definition silent :: "client_store \<Rightarrow> reduced" where
  "silent st = Some (st, [])"

definition reduce_event :: "reduce_context \<Rightarrow> client_envelope \<Rightarrow> client_store \<Rightarrow> reduced" where
  "reduce_event ctx env st =
     (let k = ce_session env; now = ce_occurred_at env; upsert = (\<lambda>summary. upsert_summary summary (rc_models ctx) 0 st)
      in case ce_event env of
           EvSideQuestionUpdated q \<Rightarrow> silent (get_mut k (side_body q) (body_mut k (side_summary q) st))
         | EvSessionCreated summary \<Rightarrow>
             Some (if rc_caused_by_me ctx then (warm_empty (su_id summary) (upsert summary), [FxAdoptCreated (su_id summary)])
                   else if rc_focused ctx = Some (su_id summary) then (warm_empty (su_id summary) (upsert summary), [])
                   else (upsert summary, []))
         | EvSessionUpdated summary \<Rightarrow> silent (upsert summary)
         | EvSessionDeleted session \<Rightarrow> remove_session ctx session st
         | EvPromptQueued summary message \<Rightarrow> silent (push_message message (upsert summary))
         | EvRunStarted summary run plan origin \<Rightarrow> silent (get_mut k (start_run summary run plan origin now) (upsert summary))
         | EvCancellationRequested summary \<Rightarrow> silent (upsert summary)
         | EvRunActivityChanged run activity \<Rightarrow> silent (body_mut k (change_activity run activity) st)
         | EvReasoningStarted run \<Rightarrow> silent (body_mut k (reason run (\<lambda>r. r\<lparr>rg_streaming := True\<rparr>)) st)
         | EvReasoningDelta run text' \<Rightarrow> silent (body_mut k (reason run (\<lambda>r. reasoning_append text' (r\<lparr>rg_streaming := True\<rparr>))) st)
         | EvReasoningCompleted run \<Rightarrow> silent (body_mut k (stop_reasoning run) st)
         | EvAssistantMessageStarted message \<Rightarrow>
             silent (push_message message (body_mut k (begin_message (cs_sanitizer st) (rc_focused ctx = Some k) message)
               (complete_streamed_turns k (mg_run message) (mg_turn message - 1) st)))
         | EvTextAppended message channel text' \<Rightarrow>
             silent (body_mut k (append_to_message message channel text')
               (body_mut k (append_text (cs_sanitizer st) (ce_run env) now channel text') st))
         | EvTool event \<Rightarrow> Some (reduce_tool ctx k now event st)
         | EvSteeringQueued message \<Rightarrow> silent (push_message message st)
         | EvSteeringApplied message \<Rightarrow> silent (body_mut k (set_message_state message MsgComplete) st)
         | EvSteeringSuperseded message \<Rightarrow> silent (body_mut k (set_message_state message MsgCancelled) st)
         | EvRunAuditStarted session \<Rightarrow> silent st
         | EvRunAuditCompleted outcome findings \<Rightarrow> Some (st, [FxNotice (Some k) NoticeInfo (audit_text outcome findings)])
         | EvRetired \<Rightarrow> silent st
         | EvRunOutputTruncated run turn continuation' \<Rightarrow>
             Some (body_mut k (mark_truncated run turn) st,
               [FxNotice (Some k) NoticeInfo (truncated_text (rc_max_continuations ctx) continuation')])
         | EvRunTurnRetrying attempt delay_ms message \<Rightarrow>
             Some (st, [FxNotice (Some k) NoticeWarning (retrying_text attempt delay_ms message)])
         | EvSessionCompacted summary note before_bytes after_bytes \<Rightarrow>
             Some (upsert summary, [FxNotice (Some k) NoticeInfo (compacted_text note before_bytes after_bytes)])
         | EvSessionRewound messages \<Rightarrow> silent (body_mut k (rewind messages) st)
         | EvSessionCompactionRolledBack summary remaining' \<Rightarrow>
             Some (upsert summary, [FxNotice (Some k) NoticeInfo (''compaction rolled back; '' @ nat_to_string remaining' @ '' retained'')])
         | EvModelTurnCompleted run turn route cost \<Rightarrow> silent (body_mut k (complete_turn run turn route cost) st)
         | EvRunContextUpdated run tokens \<Rightarrow> silent st
         | EvSessionContextUpdated tokens \<Rightarrow>
             silent (get_mut k (\<lambda>v. v\<lparr>vw_summary := (vw_summary v)\<lparr>su_context_tokens := tokens\<rparr>\<rparr>) st)
         | EvRunFinished summary run outcome usage origin \<Rightarrow>
             Some (reduce_finished ctx k now summary run outcome usage origin st))"

definition replayed_effect :: "state_effect \<Rightarrow> bool" where
  "replayed_effect fx =
     (case fx of FxRequestSnapshot _ \<Rightarrow> True | FxRefocus _ \<Rightarrow> True | FxSessionRemoved _ _ \<Rightarrow> True | _ \<Rightarrow> False)"

definition restore_local :: "nat \<Rightarrow> bool \<Rightarrow> string list \<Rightarrow> session_view \<Rightarrow> session_view" where
  "restore_local unread finished_unread drafts v =
     v\<lparr>vw_unread := unread, vw_finished_unread := finished_unread, vw_drafts := drafts\<rparr>"

definition replay_event :: "reduce_context \<Rightarrow> client_envelope \<Rightarrow> client_store \<Rightarrow> reduced" where
  "replay_event ctx env st =
     (let k = ce_session env
      in case reduce_event ctx env (get_mut k (\<lambda>v. v\<lparr>vw_drafts := []\<rparr>) st) of
           None \<Rightarrow> None
         | Some (st', effects) \<Rightarrow>
             Some ((case get_view k st of
                      None \<Rightarrow> st'
                    | Some v \<Rightarrow> get_mut k (restore_local (vw_unread v) (vw_finished_unread v) (vw_drafts v)) st'),
                   filter replayed_effect effects))"

end
