(* ===== verification/Client_Invariant.thy ===== *)
theory Client_Invariant
  imports Client_Reduce
begin

text \<open>
  What holds of a client's store over every sequence of its operations: nothing panics, the cached index of the tree is
  never stale, and what a view holds and how many bodies are warm is bounded.
\<close>

section \<open>Bounded texts\<close>

definition sanitizer_ok :: "text_sanitizer \<Rightarrow> bool" where
  "sanitizer_ok san \<longleftrightarrow> (\<forall>c c'. san c = Some c' \<longrightarrow> length c' \<le> length c)"

lemma plain_text_ok: "sanitizer_ok plain_text_character"
proof -
  have "1 \<le> length c" if "char_is_control c" for c using that by (cases c) (auto simp: char_is_control_def)
  then show ?thesis by (auto simp: sanitizer_ok_def plain_text_character_def split: if_splits)
qed

lemma keep_tail_length: "length (keep_tail n s) \<le> n"
proof (cases "n < length s")
  case True
  have "length s - n \<le> align_up s (length s - n)" using align_up_boundary [of "length s - n" s] by simp
  then show ?thesis using True by (simp add: keep_tail_def)
qed (simp add: keep_tail_def)

definition tail_weight :: "live_status \<Rightarrow> nat" where
  "tail_weight l = length (ls_tail l) + (if ls_space_pending l then 1 else 0)"

lemma whitespace_nonempty: "char_is_whitespace c \<Longrightarrow> 1 \<le> length c"
  by (cases c) (auto simp: char_is_whitespace_def)

lemma push_character_weight:
  assumes "sanitizer_ok san"
  shows "tail_weight (push_character san l c) \<le> tail_weight l + length c"
proof (cases "char_is_whitespace c")
  case True
  then show ?thesis using whitespace_nonempty [OF True] by (simp add: push_character_def tail_weight_def)
next
  case False
  show ?thesis
  proof (cases "san c")
    case (Some c')
    then have "length c' \<le> length c" using assms by (auto simp: sanitizer_ok_def)
    then show ?thesis using False Some by (simp add: push_character_def tail_weight_def)
  qed (use False in \<open>simp add: push_character_def\<close>)
qed

lemma push_collapsed_weight:
  assumes "sanitizer_ok san"
  shows "tail_weight (push_collapsed san s l) \<le> tail_weight l + length s"
proof -
  have "tail_weight (foldl (push_character san) l cs) \<le> tail_weight l + length (concat cs)" for cs
  proof (induction cs arbitrary: l)
    case (Cons c cs)
    show ?case using Cons.IH [of "push_character san l c"] push_character_weight [OF assms, of l c] by simp
  qed simp
  from this [of "str_chars s"] show ?thesis by (simp add: push_collapsed_def)
qed

lemma set_tail_length:
  assumes "sanitizer_ok san"
  shows "length (ls_tail (set_tail san s l)) \<le> LIVE_TAIL_BYTES"
proof -
  let ?s = "drop (align_up s (length s - LIVE_TAIL_BYTES)) s"
  have "length s - LIVE_TAIL_BYTES \<le> align_up s (length s - LIVE_TAIL_BYTES)"
    using align_up_boundary [of "length s - LIVE_TAIL_BYTES" s] by simp
  then have "length ?s \<le> LIVE_TAIL_BYTES" by simp
  then have "tail_weight (set_tail san s l) \<le> LIVE_TAIL_BYTES"
    using push_collapsed_weight [OF assms, of ?s "l\<lparr>ls_tail := [], ls_space_pending := False\<rparr>"]
    by (simp add: set_tail_def tail_weight_def)
  then show ?thesis by (simp add: tail_weight_def)
qed

lemma append_tail_length:
  assumes "sanitizer_ok san"
  shows "length (ls_tail (append_tail san s l)) \<le> LIVE_TAIL_BYTES"
  using set_tail_length [OF assms] keep_tail_length by (simp add: append_tail_def Let_def)

section \<open>Views\<close>

definition view_ok :: "ident \<Rightarrow> session_view \<Rightarrow> bool" where
  "view_ok k v \<longleftrightarrow>
     su_id (vw_summary v) = k
     \<and> (\<forall>ms. vw_messages v = Some ms \<longrightarrow> length ms \<le> SNAPSHOT_MESSAGE_LIMIT)
     \<and> (\<forall>cs. vw_tool_calls v = Some cs \<longrightarrow> length cs \<le> MAX_RECENT_TOOL_CALLS)
     \<and> length (vw_prompt_history v) \<le> MAX_PROMPT_HISTORY
     \<and> length (ls_tail (vw_live v)) \<le> LIVE_TAIL_BYTES
     \<and> (\<forall>run r. vw_reasoning v run = Some r \<longrightarrow> length (rg_text r) \<le> MAX_REASONING_BYTES)
     \<and> (\<forall>call b. vw_live_output v call = Some b \<longrightarrow> length b \<le> MAX_LIVE_TOOL_OUTPUT_BYTES)
     \<and> (\<forall>call \<in> vw_live_truncated v. vw_live_output v call \<noteq> None)"

text \<open>A change to a view: it stays well-formed; and one that leaves the index alone also keeps what the tree is built from.\<close>

definition keeps_view :: "(session_view \<Rightarrow> session_view) \<Rightarrow> bool" where
  "keeps_view f \<longleftrightarrow> (\<forall>k v. view_ok k v \<longrightarrow> view_ok k (f v))"

definition keeps_row :: "(session_view \<Rightarrow> session_view) \<Rightarrow> bool" where
  "keeps_row f \<longleftrightarrow> (\<forall>v. tree_row_of (vw_summary (f v)) = tree_row_of (vw_summary v))"

definition index_fresh :: "client_store \<Rightarrow> bool" where
  "index_fresh st \<longleftrightarrow> (\<forall>ix. cs_index st = Some ix \<longrightarrow> build_index (rows_of_store st) = Some ix)"

definition client_inv :: "client_store \<Rightarrow> bool" where
  "client_inv st \<longleftrightarrow>
     sanitizer_ok (cs_sanitizer st) \<and> distinct (map fst (cs_sessions st)) \<and> (\<forall>p \<in> set (cs_sessions st). view_ok (fst p) (snd p)) \<and> index_fresh st"

lemma update_view_keys [simp]: "map fst (update_view k f ss) = map fst ss"
  by (simp add: update_view_def comp_def case_prod_unfold)

lemma update_view_ok:
  assumes "\<forall>p \<in> set ss. view_ok (fst p) (snd p)" and "\<And>v. view_ok k v \<Longrightarrow> view_ok k (f v)"
  shows "\<forall>p \<in> set (update_view k f ss). view_ok (fst p) (snd p)"
proof
  fix p assume "p \<in> set (update_view k f ss)"
  then obtain q where q: "q \<in> set ss" "p = (fst q, if fst q = k then f (snd q) else snd q)" by (auto simp: update_view_def)
  then show "view_ok (fst p) (snd p)" using assms(1) assms(2) [of "snd q"] by (cases "fst q = k") auto
qed

lemma get_view_ok: "client_inv st \<Longrightarrow> get_view k st = Some v \<Longrightarrow> view_ok k v"
  by (auto simp: client_inv_def get_view_def dest: map_of_SomeD)

lemma get_mut_inv:
  assumes "client_inv st" and "\<And>v. view_ok k v \<Longrightarrow> view_ok k (f v)"
  shows "client_inv (get_mut k f st)"
  using assms(1) update_view_ok [of "cs_sessions st" k f] assms(2)
  by (simp add: client_inv_def get_mut_def index_fresh_def)

lemma rows_body_mut:
  assumes "keeps_row f"
  shows "rows_of_store (body_mut k f st) = rows_of_store st"
  using assms by (auto simp: rows_of_store_def body_mut_def update_view_def keeps_row_def)

lemma body_mut_inv:
  assumes "client_inv st" and "keeps_row f" and "\<And>v. view_ok k v \<Longrightarrow> view_ok k (f v)"
  shows "client_inv (body_mut k f st)"
  using assms(1) update_view_ok [of "cs_sessions st" k f] assms(3) rows_body_mut [OF assms(2), of k st]
  by (simp add: client_inv_def index_fresh_def) (simp add: body_mut_def)

lemma insert_view_inv:
  assumes "client_inv st" and "view_ok k v"
  shows "client_inv (insert_view k v st)"
proof (cases "get_view k st")
  case None
  then have "k \<notin> fst ` set (cs_sessions st)" by (simp add: get_view_def map_of_eq_None_iff)
  then show ?thesis using None assms by (simp add: client_inv_def insert_view_def index_fresh_def)
next
  case (Some old)
  then show ?thesis
    using assms update_view_ok [of "cs_sessions st" k "\<lambda>_. v"] by (simp add: client_inv_def insert_view_def index_fresh_def)
qed

lemma remove_view_inv: "client_inv st \<Longrightarrow> client_inv (remove_view k st)"
  by (auto simp: client_inv_def remove_view_def index_fresh_def distinct_map intro: inj_on_subset distinct_filter)

lemma values_mut_inv:
  assumes "client_inv st" and "\<And>k v. view_ok k v \<Longrightarrow> view_ok k (f v)"
  shows "client_inv (values_mut f st)"
  using assms by (auto simp: client_inv_def values_mut_def index_fresh_def comp_def case_prod_unfold)

lemma body_mut_sanitizer [simp]: "cs_sanitizer (body_mut k f st) = cs_sanitizer st"
  by (simp add: body_mut_def)

section \<open>Every change to a view keeps it well-formed\<close>

named_theorems view_keeps \<open>changes that keep a view well-formed\<close>
named_theorems row_keeps \<open>changes that keep what the tree is built from\<close>

lemma summary_only_ok: "view_ok (su_id s) (summary_only s w n)"
  by (simp add: view_ok_def summary_only_def set_holds_def live_default_def)

lemma set_summary_ok [view_keeps]: "view_ok (su_id s) v \<Longrightarrow> view_ok (su_id s) (set_summary s w v)"
  by (simp add: view_ok_def set_summary_def set_holds_def)

lemma evict_ok [view_keeps]: "view_ok k v \<Longrightarrow> view_ok k (evict_body v)"
  by (simp add: view_ok_def evict_body_def)

lemma evict_row [row_keeps]: "keeps_row evict_body"
  by (simp add: keeps_row_def evict_body_def)

lemma map_messages_ok:
  assumes "\<And>ms. length (f ms) \<le> max (length ms) SNAPSHOT_MESSAGE_LIMIT" and "view_ok k v"
  shows "view_ok k (map_messages f v)"
proof -
  have "length (f ms) \<le> SNAPSHOT_MESSAGE_LIMIT" if "vw_messages v = Some ms" for ms
    using assms(1) [of ms] assms(2) that by (simp add: view_ok_def)
  then show ?thesis using assms(2) by (auto simp: view_ok_def map_messages_def)
qed

lemma map_messages_row [row_keeps]: "keeps_row (map_messages f)"
  by (simp add: keeps_row_def map_messages_def)

lemma retain_messages_length: "length (retain_recent_messages ms) \<le> SNAPSHOT_MESSAGE_LIMIT"
  by (simp add: retain_recent_messages_def)

lemma insert_message_length: "length (insert_message m ms) \<le> max (length ms) SNAPSHOT_MESSAGE_LIMIT"
  using retain_messages_length by (simp add: insert_message_def Let_def le_max_iff_disj del: length_drop)

lemma update_last_length [simp]: "length (update_last P f xs) = length xs"
  by (simp add: update_last_def split: option.split)

lemma update_first_length [simp]: "length (update_first P f xs) = length xs"
  by (induction xs) auto

lemma push_message_eq: "push_message m st = body_mut (mg_session m) (map_messages (insert_message m)) st"
  by (simp add: push_message_def map_messages_def [abs_def])

lemma retain_calls_length: "length (fst (retain_recent_tool_calls cs)) \<le> MAX_RECENT_TOOL_CALLS"
  by (simp add: retain_recent_tool_calls_def Let_def)

lemma upsert_call_ok [view_keeps]: "view_ok k v \<Longrightarrow> view_ok k (upsert_call c v)"
  using retain_calls_length [of "the (vw_tool_calls v) @ [c]"]
  by (auto simp: view_ok_def upsert_call_def case_prod_unfold Let_def split: option.splits)

lemma upsert_call_row [row_keeps]: "keeps_row (upsert_call c)"
  by (simp add: keeps_row_def upsert_call_def case_prod_unfold Let_def split: option.split)

lemma side_summary_ok [view_keeps]: "view_ok k v \<Longrightarrow> view_ok k (side_summary q v)"
  by (simp add: view_ok_def side_summary_def Let_def)

lemma side_summary_row [row_keeps]: "keeps_row (side_summary q)"
  by (simp add: keeps_row_def side_summary_def tree_row_of_def Let_def)

lemma side_body_ok [view_keeps]: "view_ok k v \<Longrightarrow> view_ok k (side_body q v)"
  by (simp add: view_ok_def side_body_def Let_def)

lemma start_run_ok [view_keeps]: "view_ok k v \<Longrightarrow> view_ok k (start_run s run plan origin now v)"
  by (auto simp: view_ok_def start_run_def map_messages_def)

lemma change_activity_ok [view_keeps]: "view_ok k v \<Longrightarrow> view_ok k (change_activity run a v)"
  by (simp add: view_ok_def change_activity_def split: option.split)

lemma change_activity_row [row_keeps]: "keeps_row (change_activity run a)"
  by (simp add: keeps_row_def change_activity_def split: option.split)

lemma reason_ok:
  assumes "\<And>r. length (rg_text r) \<le> MAX_REASONING_BYTES \<Longrightarrow> length (rg_text (f r)) \<le> MAX_REASONING_BYTES" and "view_ok k v"
  shows "view_ok k (reason run f v)"
  using assms by (auto simp: view_ok_def reason_def entry_or_def reasoning_default_def client_limits split: option.splits)

lemma reason_row [row_keeps]: "keeps_row (reason run f)"
  by (simp add: keeps_row_def reason_def)

lemma stop_reasoning_ok [view_keeps]: "view_ok k v \<Longrightarrow> view_ok k (stop_reasoning run v)"
  by (auto simp: view_ok_def stop_reasoning_def split: option.split)

lemma stop_reasoning_row [row_keeps]: "keeps_row (stop_reasoning run)"
  by (simp add: keeps_row_def stop_reasoning_def split: option.split)

lemma begin_message_ok: "sanitizer_ok san \<Longrightarrow> view_ok k v \<Longrightarrow> view_ok k (begin_message san shown m v)"
  using set_tail_length [of san "mg_output m" "vw_live v"] by (simp add: view_ok_def begin_message_def)

lemma begin_message_row [row_keeps]: "keeps_row (begin_message san shown m)"
  by (simp add: keeps_row_def begin_message_def)

lemma append_text_ok: "sanitizer_ok san \<Longrightarrow> view_ok k v \<Longrightarrow> view_ok k (append_text san run now channel t v)"
  using append_tail_length [of san t "vw_live v"] by (simp add: view_ok_def append_text_def Let_def split: option.split)

lemma append_text_row [row_keeps]: "keeps_row (append_text san run now channel t)"
  by (simp add: keeps_row_def append_text_def Let_def split: option.split)

lemma complete_turn_ok [view_keeps]: "view_ok k v \<Longrightarrow> view_ok k (complete_turn run turn route cost v)"
  by (simp add: view_ok_def complete_turn_def)

lemma complete_turn_row [row_keeps]: "keeps_row (complete_turn run turn route cost)"
  by (simp add: keeps_row_def complete_turn_def)

lemma note_tool_call_tail [simp]: "ls_tail (note_tool_call c l) = ls_tail l"
  by (simp add: note_tool_call_def split: tool_call_state.split)

lemma request_approval_ok [view_keeps]: "view_ok k v \<Longrightarrow> view_ok k (request_approval c p v)"
  by (simp add: view_ok_def request_approval_def)

lemma output_delta_ok [view_keeps]: "view_ok k v \<Longrightarrow> view_ok k (output_delta c chunk now v)"
  using keep_tail_length by (auto simp: view_ok_def output_delta_def append_live_tool_output_def Let_def)

lemma output_delta_row [row_keeps]: "keeps_row (output_delta c chunk now)"
  by (simp add: keeps_row_def output_delta_def append_live_tool_output_def Let_def)

lemma time_call_ok [view_keeps]: "view_ok k v \<Longrightarrow> view_ok k (time_call e c now v)"
  by (simp add: view_ok_def time_call_def)

lemma time_call_row [row_keeps]: "keeps_row (time_call e c now)"
  by (simp add: keeps_row_def time_call_def)

lemma settle_call_view_ok [view_keeps]: "view_ok k v \<Longrightarrow> view_ok k (settle_call_view c v)"
  by (auto simp: view_ok_def settle_call_view_def finish_live_tool_output_def Let_def)

lemma record_prompt_ok [view_keeps]: "view_ok k v \<Longrightarrow> view_ok k (record_prompt p v)"
proof -
  have "length (drop (length h + 1 - MAX_PROMPT_HISTORY) (h @ [p])) \<le> MAX_PROMPT_HISTORY" for h by (simp only: length_drop length_append) simp
  then show "view_ok k v \<Longrightarrow> ?thesis" by (simp add: view_ok_def record_prompt_def Let_def del: length_drop drop_append)
qed

lemma retain_Some: "retain P m k = Some v \<Longrightarrow> m k = Some v"
  by (simp add: retain_def split: option.splits if_splits)

lemma finish_view_ok [view_keeps]: "view_ok k v \<Longrightarrow> view_ok k (finish_view run outcome usage origin owned shown now v)"
proof -
  assume v: "view_ok k v"
  let ?v1 = "if \<not> shown \<and> \<not> owned then v\<lparr>vw_finished_unread := True, vw_unread := u32_succ (vw_unread v)\<rparr> else v"
  let ?v2 = "?v1\<lparr>vw_runs := entry_or stats_default run (finish_stats origin owned now outcome usage) (vw_runs ?v1),
      vw_activity := (case vw_activity ?v1 of Some (active, x) \<Rightarrow> if active = run then None else vw_activity ?v1 | None \<Rightarrow> None)\<rparr>"
  let ?v3 = "if owned then ?v2 else ?v2\<lparr>vw_live := (vw_live ?v2)\<lparr>ls_active_tool := None, ls_awaiting := {}\<rparr>\<rparr>"
  have "view_ok k ?v3" using v by (simp add: view_ok_def)
  then have v4: "view_ok k (stop_reasoning run ?v3)" by (rule stop_reasoning_ok)
  have "view_ok k (case vw_messages w of None \<Rightarrow> w | Some messages \<Rightarrow>
      w\<lparr>vw_reasoning := retain P (vw_reasoning w), vw_runs := rs, vw_messages := Some (map g messages)\<rparr>)"
    if "view_ok k w" for w P rs g messages
    using that by (auto simp: view_ok_def dest: retain_Some split: option.splits)
  from this [OF v4] show ?thesis unfolding finish_view_def Let_def by (cases "vw_messages (stop_reasoning run ?v3)") auto
qed

section \<open>Every operation keeps the store well-formed\<close>

lemma rows_keyed_store: "client_inv st \<Longrightarrow> rows_keyed (rows_of_store st)"
  by (auto simp: client_inv_def rows_keyed_def rows_of_store_def view_ok_def tree_row_of_def comp_def case_prod_unfold)

lemma get_index_inv:
  assumes "client_inv st"
  shows "\<exists>ix st'. get_index st = Some (ix, st') \<and> client_inv st' \<and> build_index (rows_of_store st) = Some ix
    \<and> cs_sessions st' = cs_sessions st"
proof (cases "cs_index st")
  case None
  obtain ix where "build_index (rows_of_store st) = Some ix" using build_index_spec [OF rows_keyed_store [OF assms]] by blast
  then show ?thesis using None assms by (simp add: get_index_def client_inv_def index_fresh_def rows_of_store_def)
next
  case (Some ix)
  then show ?thesis using assms by (simp add: get_index_def client_inv_def index_fresh_def)
qed

lemma upsert_summary_inv: "client_inv st \<Longrightarrow> client_inv (upsert_summary s models n st)"
  using insert_view_inv summary_only_ok get_mut_inv set_summary_ok
  by (auto simp: upsert_summary_def Let_def split: option.split)

lemma apply_models_inv: "client_inv st \<Longrightarrow> client_inv (apply_models models st)"
  unfolding apply_models_def by (rule values_mut_inv) (simp_all add: view_ok_def)

lemma warm_empty_inv: "client_inv st \<Longrightarrow> client_inv (warm_empty k st)"
  unfolding warm_empty_def by (rule body_mut_inv) (auto simp: view_ok_def keeps_row_def)

lemma mark_focused_inv: "client_inv st \<Longrightarrow> client_inv (mark_focused k clock st)"
  unfolding mark_focused_def by (rule body_mut_inv) (auto simp: view_ok_def keeps_row_def)

lemma evict_all_inv: "client_inv st \<Longrightarrow> client_inv (foldl (\<lambda>s (_, k). body_mut k evict_body s) st ks)"
proof (induction ks arbitrary: st)
  case (Cons p ks)
  have "client_inv (body_mut (snd p) evict_body st)" by (rule body_mut_inv [OF Cons.prems evict_row evict_ok])
  then show ?case using Cons.IH by (simp add: case_prod_unfold)
qed simp

lemma evict_cold_inv: "client_inv st \<Longrightarrow> client_inv (evict_cold_bodies pinned st)"
  by (simp add: evict_cold_bodies_def Let_def evict_all_inv)

lemma map_messages_inv:
  assumes "client_inv st" and "\<And>ms. length (f ms) \<le> max (length ms) SNAPSHOT_MESSAGE_LIMIT"
  shows "client_inv (body_mut k (map_messages f) st)"
  by (rule body_mut_inv [OF assms(1) map_messages_row]) (rule map_messages_ok [OF assms(2)])

lemma push_message_inv: "client_inv st \<Longrightarrow> client_inv (push_message m st)"
  unfolding push_message_eq by (rule map_messages_inv [OF _ insert_message_length])

lemma complete_turns_inv: "client_inv st \<Longrightarrow> client_inv (complete_streamed_turns k run n st)"
  unfolding complete_streamed_turns_def by (rule map_messages_inv) simp_all

lemma upsert_tool_call_inv: "client_inv st \<Longrightarrow> client_inv (upsert_tool_call c st)"
  unfolding upsert_tool_call_def by (rule body_mut_inv [OF _ upsert_call_row upsert_call_ok])

lemma fold_notes_tail: "ls_tail (foldl (\<lambda>l c. note_tool_call c l) l cs) = ls_tail l"
  by (induction cs arbitrary: l) simp_all

lemma fresh_body_ok:
  assumes "sanitizer_ok san"
  shows "view_ok (su_id (sn_summary s)) (fst (fresh_body san s models n))"
proof -
  have "length (ls_tail (live_from_body san ms cs)) \<le> LIVE_TAIL_BYTES" for ms cs
    using set_tail_length [OF assms] by (simp add: live_from_body_def Let_def fold_notes_tail live_default_def split: option.split)
  moreover have "length (prompt_history_of ms) \<le> MAX_PROMPT_HISTORY" for ms by (simp add: prompt_history_of_def Let_def)
  ultimately show ?thesis
    using retain_messages_length retain_calls_length
    by (simp add: fresh_body_def Let_def view_ok_def summary_only_def)
qed

lemma keep_previous_ok: "view_ok k v \<Longrightarrow> view_ok k old \<Longrightarrow> view_ok k (keep_previous calls old v)"
  by (auto simp: view_ok_def keep_previous_def Let_def dest: retain_Some)

lemma install_body_inv:
  assumes "client_inv st"
  shows "client_inv (install_body s models n isolated st)"
proof (cases "\<not> isolated \<and> (sn_has_older_messages s \<or> sn_has_older_tool_calls s)")
  case True
  let ?k = "su_id (sn_summary s)" and ?f = "\<lambda>v. (evict_body v)\<lparr>vw_loaded_through := n\<rparr>"
  have "client_inv (upsert_summary (sn_summary s) models n st)" using upsert_summary_inv [OF assms] .
  moreover have "keeps_row ?f" by (simp add: keeps_row_def evict_body_def)
  moreover have "view_ok ?k v \<Longrightarrow> view_ok ?k (?f v)" for v using evict_ok [of ?k v] by (simp add: view_ok_def)
  ultimately have "client_inv (body_mut ?k ?f (upsert_summary (sn_summary s) models n st))" by (rule body_mut_inv)
  then show ?thesis using True by (simp add: install_body_def Let_def)
next
  case False
  let ?k = "su_id (sn_summary s)" and ?b = "fresh_body (cs_sanitizer st) s models n"
  let ?v1 = "case get_view ?k st of None \<Rightarrow> fst ?b | Some old \<Rightarrow> keep_previous (snd ?b) old (fst ?b)"
  have b: "view_ok ?k (fst ?b)" using fresh_body_ok assms by (simp add: client_inv_def)
  then have "view_ok ?k ?v1" using keep_previous_ok [OF b] get_view_ok [OF assms] by (simp split: option.split)
  then have "view_ok ?k (?v1\<lparr>vw_previews := map_of (rev (sn_previews s)), vw_live := set_holds (su_holds (sn_summary s)) (vw_live ?v1),
      vw_side_questions := sn_side_questions s\<rparr>)" by (simp add: view_ok_def set_holds_def)
  then show ?thesis
    using insert_view_inv [OF remove_view_inv [OF assms]] False by (auto simp: install_body_def Let_def case_prod_unfold)
qed

lemma follow_call_inv:
  assumes "client_inv st"
  shows "client_inv (follow_call e c k now st)"
proof -
  have "client_inv (body_mut k (time_call e c now) st)" by (rule body_mut_inv [OF assms time_call_row time_call_ok])
  then have "client_inv (case e of ToolCallRequested _ \<Rightarrow> complete_streamed_turns k (ts_run c) (ts_turn c) (body_mut k (time_call e c now) st)
      | _ \<Rightarrow> body_mut k (time_call e c now) st)"
    using complete_turns_inv by (cases e) simp_all
  from get_mut_inv [OF this settle_call_view_ok] show ?thesis unfolding follow_call_def Let_def by (rule upsert_tool_call_inv)
qed

lemma reduce_tool_inv: "client_inv st \<Longrightarrow> client_inv (fst (reduce_tool ctx k now e st))"
  using follow_call_inv upsert_tool_call_inv get_mut_inv [OF _ request_approval_ok] body_mut_inv [OF _ output_delta_row output_delta_ok]
  by (simp add: reduce_tool_def split: tool_event.split)

lemma reduce_finished_inv:
  assumes "client_inv st"
  shows "client_inv (fst (reduce_finished ctx k now s run outcome usage origin st))"
proof -
  let ?st2 = "get_mut k (finish_view run outcome usage origin (owned_step s run origin (get_view k st)) (rc_focused ctx = Some k) now)
    (upsert_summary s (rc_models ctx) 0 st)"
  have st2: "client_inv ?st2" by (rule get_mut_inv [OF upsert_summary_inv [OF assms] finish_view_ok])
  moreover have "client_inv (get_mut k (\<lambda>v. v\<lparr>vw_drafts := tl (vw_drafts v)\<rparr>) ?st2)" by (rule get_mut_inv [OF st2]) (simp add: view_ok_def)
  moreover have "fst (reduce_finished ctx k now s run outcome usage origin st) \<in> {?st2, get_mut k (\<lambda>v. v\<lparr>vw_drafts := tl (vw_drafts v)\<rparr>) ?st2}"
    by (cases "get_view k ?st2") (simp_all add: reduce_finished_def Let_def)
  ultimately show ?thesis by auto
qed

lemma remove_session_inv:
  assumes "client_inv st"
  shows "\<exists>st' fx. remove_session ctx k st = Some (st', fx) \<and> client_inv st'"
proof (cases "get_view k st")
  case None
  then show ?thesis using assms by (simp add: remove_session_def)
next
  case (Some removed)
  have gone: "client_inv (values_mut (forget_parent k) (remove_view k st'))" if "client_inv st'" for st'
    by (rule values_mut_inv [OF remove_view_inv [OF that]]) (simp add: view_ok_def forget_parent_def)
  show ?thesis
  proof (cases "rc_focused ctx = Some k")
    case True
    then show ?thesis using get_index_inv [OF assms] gone Some by (force simp: remove_session_def Let_def)
  next
    case False
    then show ?thesis using gone [OF assms] Some by (simp add: remove_session_def Let_def)
  qed
qed

definition good :: "reduced \<Rightarrow> bool" where
  "good r \<longleftrightarrow> (case r of None \<Rightarrow> False | Some (st, fx) \<Rightarrow> client_inv st)"

lemma good_simps [simp]: "good (Some r) \<longleftrightarrow> client_inv (fst r)" "good (silent st) \<longleftrightarrow> client_inv st" "\<not> good None"
  by (simp_all add: good_def silent_def case_prod_unfold)

lemma goodE:
  assumes "good r"
  obtains st fx where "r = Some (st, fx)" "client_inv st"
  using assms by (cases r) (auto simp: good_def)

lemma reduce_event_inv:
  assumes st: "client_inv st"
  shows "good (reduce_event ctx env st)"
proof -
  have san: "sanitizer_ok (cs_sanitizer st)" using st by (simp add: client_inv_def)
  have up: "client_inv (upsert_summary s (rc_models ctx) 0 st)" for s using upsert_summary_inv [OF st] .
  note msg = map_messages_inv [OF st]
  let ?k = "ce_session env" and ?now = "ce_occurred_at env"
  show ?thesis
  proof (cases "ce_event env")
    case (EvSideQuestionUpdated q)
    have "client_inv (body_mut ?k (side_summary q) st)" by (rule body_mut_inv [OF st side_summary_row side_summary_ok])
    then have "client_inv (get_mut ?k (side_body q) (body_mut ?k (side_summary q) st))" by (rule get_mut_inv [OF _ side_body_ok])
    then show ?thesis by (simp add: reduce_event_def EvSideQuestionUpdated Let_def)
  next
    case (EvSessionCreated s)
    then show ?thesis using up [of s] warm_empty_inv [OF up [of s]] by (simp add: reduce_event_def)
  next
    case (EvSessionDeleted x)
    then show ?thesis using remove_session_inv [OF st, of ctx x] by (auto simp: reduce_event_def good_def)
  next
    case (EvRunStarted s run plan origin)
    have "client_inv (get_mut ?k (start_run s run plan origin ?now) (upsert_summary s (rc_models ctx) 0 st))"
      by (rule get_mut_inv [OF up start_run_ok])
    then show ?thesis by (simp add: reduce_event_def EvRunStarted)
  next
    case (EvReasoningStarted run)
    have "client_inv (body_mut ?k (reason run (\<lambda>r. r\<lparr>rg_streaming := True\<rparr>)) st)"
      by (rule body_mut_inv [OF st reason_row]) (rule reason_ok, simp_all)
    then show ?thesis by (simp add: reduce_event_def EvReasoningStarted)
  next
    case (EvReasoningDelta run t)
    have "client_inv (body_mut ?k (reason run (\<lambda>r. reasoning_append t (r\<lparr>rg_streaming := True\<rparr>))) st)"
      by (rule body_mut_inv [OF st reason_row], rule reason_ok) (simp_all add: reasoning_append_def keep_tail_length)
    then show ?thesis by (simp add: reduce_event_def EvReasoningDelta)
  next
    case (EvAssistantMessageStarted m)
    have "client_inv (body_mut ?k (begin_message (cs_sanitizer st) (rc_focused ctx = Some ?k) m)
        (complete_streamed_turns ?k (mg_run m) (mg_turn m - 1) st))"
      by (rule body_mut_inv [OF complete_turns_inv [OF st] begin_message_row begin_message_ok [OF san]])
    from push_message_inv [OF this] show ?thesis by (simp add: reduce_event_def EvAssistantMessageStarted Let_def)
  next
    case (EvTextAppended x channel t)
    have "client_inv (body_mut ?k (append_text (cs_sanitizer st) (ce_run env) ?now channel t) st)"
      by (rule body_mut_inv [OF st append_text_row append_text_ok [OF san]])
    from map_messages_inv [OF this] show ?thesis
      by (simp add: reduce_event_def EvTextAppended append_to_message_def [abs_def] Let_def)
  next
    case (EvSessionContextUpdated tokens)
    have "client_inv (get_mut ?k (\<lambda>v. v\<lparr>vw_summary := (vw_summary v)\<lparr>su_context_tokens := tokens\<rparr>\<rparr>) st)"
      by (rule get_mut_inv [OF st]) (simp add: view_ok_def)
    then show ?thesis by (simp add: reduce_event_def EvSessionContextUpdated)
  qed (use st up push_message_inv msg reduce_tool_inv [OF st] reduce_finished_inv [OF st] body_mut_inv [OF st]
      in \<open>simp_all add: reduce_event_def Let_def row_keeps view_keeps
        set_message_state_def [abs_def] mark_truncated_def [abs_def] rewind_def [abs_def]\<close>)
qed

lemma replay_event_inv:
  assumes st: "client_inv st"
  shows "good (replay_event ctx env st)"
proof -
  let ?k = "ce_session env"
  have "client_inv (get_mut ?k (\<lambda>v. v\<lparr>vw_drafts := []\<rparr>) st)" by (rule get_mut_inv [OF st]) (simp add: view_ok_def)
  from reduce_event_inv [OF this, of ctx env] obtain st' fx
    where r: "reduce_event ctx env (get_mut ?k (\<lambda>v. v\<lparr>vw_drafts := []\<rparr>) st) = Some (st', fx)" "client_inv st'" by (rule goodE)
  have "client_inv (get_mut ?k (restore_local a b c) st')" for a b c
    by (rule get_mut_inv [OF r(2)]) (simp add: view_ok_def restore_local_def)
  then show ?thesis using r by (simp add: replay_event_def Let_def split: option.split)
qed

section \<open>Runs of a client\<close>

datatype client_op =
    OpEvent reduce_context client_envelope
  | OpReplay reduce_context client_envelope
  | OpInstall session_snapshot "model_option list" nat bool
  | OpUpsert session_summary "model_option list" nat
  | OpModels "model_option list"
  | OpWarm ident
  | OpFocus ident nat
  | OpEvict "ident option"
  | OpPrompt ident string
  | OpDraft ident string
  | OpIndex
  | OpRemove ident
  | OpClear

text \<open>One operation; a store that panicked is gone.\<close>

definition client_op_step :: "client_store \<Rightarrow> client_op \<Rightarrow> client_store option" where
  "client_op_step st operation =
     (case operation of
        OpEvent ctx env \<Rightarrow> map_option fst (reduce_event ctx env st)
      | OpReplay ctx env \<Rightarrow> map_option fst (replay_event ctx env st)
      | OpInstall s models n isolated \<Rightarrow> Some (install_body s models n isolated st)
      | OpUpsert s models n \<Rightarrow> Some (upsert_summary s models n st)
      | OpModels models \<Rightarrow> Some (apply_models models st)
      | OpWarm k \<Rightarrow> Some (warm_empty k st)
      | OpFocus k clock \<Rightarrow> Some (mark_focused k clock st)
      | OpEvict pinned \<Rightarrow> Some (evict_cold_bodies pinned st)
      | OpPrompt k prompt \<Rightarrow> Some (get_mut k (record_prompt prompt) st)
      | OpDraft k draft \<Rightarrow> Some (get_mut k (\<lambda>v. v\<lparr>vw_drafts := vw_drafts v @ [draft]\<rparr>) st)
      | OpIndex \<Rightarrow> map_option snd (get_index st)
      | OpRemove k \<Rightarrow> Some (remove_view k st)
      | OpClear \<Rightarrow> Some (clear_views st))"

definition client_run :: "client_store option \<Rightarrow> client_op \<Rightarrow> client_store option" where
  "client_run st operation = Option.bind st (\<lambda>s. client_op_step s operation)"

definition client_good :: "client_store option \<Rightarrow> bool" where
  "client_good st \<longleftrightarrow> (case st of None \<Rightarrow> False | Some s \<Rightarrow> client_inv s)"

lemma client_step_inv:
  assumes "client_inv st"
  shows "client_good (client_op_step st operation)"
proof (cases operation)
  case (OpEvent ctx env)
  from reduce_event_inv [OF assms, of ctx env] show ?thesis
    by (rule goodE) (simp add: OpEvent client_op_step_def client_good_def)
next
  case (OpReplay ctx env)
  from replay_event_inv [OF assms, of ctx env] show ?thesis
    by (rule goodE) (simp add: OpReplay client_op_step_def client_good_def)
next
  case (OpPrompt k prompt)
  from get_mut_inv [OF assms record_prompt_ok] show ?thesis by (simp add: OpPrompt client_op_step_def client_good_def)
next
  case (OpDraft k draft)
  have "client_inv (get_mut k (\<lambda>v. v\<lparr>vw_drafts := vw_drafts v @ [draft]\<rparr>) st)" by (rule get_mut_inv [OF assms]) (simp add: view_ok_def)
  then show ?thesis by (simp add: OpDraft client_op_step_def client_good_def)
next
  case OpIndex
  then show ?thesis using get_index_inv [OF assms] by (auto simp: client_op_step_def client_good_def)
next
  case OpClear
  then show ?thesis using assms by (simp add: client_op_step_def client_good_def clear_views_def client_inv_def index_fresh_def)
qed (use assms install_body_inv upsert_summary_inv apply_models_inv warm_empty_inv mark_focused_inv evict_cold_inv remove_view_inv
    in \<open>simp_all add: client_op_step_def client_good_def\<close>)

interpretation client: state_machine client_run client_good
proof
  fix st operation assume "client_good st"
  then obtain s where "st = Some s" "client_inv s" by (auto simp: client_good_def split: option.splits)
  then show "client_good (client_run st operation)" using client_step_inv by (simp add: client_run_def)
qed

lemma client_start: "sanitizer_ok san \<Longrightarrow> client_good (Some (with_sanitizer san))"
  by (simp add: client_good_def client_inv_def with_sanitizer_def index_fresh_def)

lemma client_reaches:
  assumes "sanitizer_ok san"
  obtains st where "foldl client_run (Some (with_sanitizer san)) ops = Some st" "client_inv st"
  using client.run_inv [OF client_start [OF assms], of ops]
  by (cases "foldl client_run (Some (with_sanitizer san)) ops") (auto simp: client_good_def)

section \<open>Warm bodies\<close>

definition warm_ids :: "client_store \<Rightarrow> ident set" where
  "warm_ids st = {k. \<exists>v. (k, v) \<in> set (cs_sessions st) \<and> is_warm v}"

lemma warm_evict: "warm_ids (body_mut k evict_body st) = warm_ids st - {k}"
proof -
  have "(x, v) \<in> set (cs_sessions (body_mut k evict_body st)) \<longleftrightarrow>
      (\<exists>w. (x, w) \<in> set (cs_sessions st) \<and> v = (if x = k then evict_body w else w))" for x v
    by (auto simp: body_mut_def update_view_def image_iff split: prod.splits)
  moreover have "\<not> is_warm (evict_body w)" for w by (simp add: is_warm_def evict_body_def)
  ultimately show ?thesis by (auto simp: warm_ids_def split: if_splits)
qed

lemma warm_evict_all: "warm_ids (foldl (\<lambda>s (_, k). body_mut k evict_body s) st ks) = warm_ids st - snd ` set ks"
  by (induction ks arbitrary: st) (auto simp: warm_evict)

lemma finite_warm: "finite (warm_ids st)"
  by (rule finite_subset [of _ "fst ` set (cs_sessions st)"]) (force simp: warm_ids_def)+

text \<open>The warm bodies that may be evicted, with when they were last in focus.\<close>

definition evictable :: "ident option \<Rightarrow> client_store \<Rightarrow> (nat \<times> ident) list" where
  "evictable pinned st =
     map (\<lambda>v. (vw_last_focused v, su_id (vw_summary v))) (filter (\<lambda>v. is_warm v \<and> Some (su_id (vw_summary v)) \<noteq> pinned) (map snd (cs_sessions st)))"

lemma evictable_iff:
  assumes "client_inv st"
  shows "(n, k) \<in> set (evictable pinned st) \<longleftrightarrow> Some k \<noteq> pinned \<and> (\<exists>v. get_view k st = Some v \<and> is_warm v \<and> vw_last_focused v = n)"
proof -
  have "get_view k st = Some v \<longleftrightarrow> (k, v) \<in> set (cs_sessions st)" for v
    using assms by (simp add: client_inv_def get_view_def)
  moreover have "su_id (vw_summary v) = x" if "(x, v) \<in> set (cs_sessions st)" for x v
    using assms that by (auto simp: client_inv_def view_ok_def)
  ultimately show ?thesis by (force simp: evictable_def)
qed

lemma warm_ids_iff: "client_inv st \<Longrightarrow> k \<in> warm_ids st \<longleftrightarrow> (\<exists>v. get_view k st = Some v \<and> is_warm v)"
  by (simp add: client_inv_def get_view_def warm_ids_def)

lemma evict_cold_split:
  obtains gone kept where "sort (evictable pinned st) = gone @ kept"
    and "length kept + (if pinned = None then 0 else 1) \<le> WARM_BODY_LIMIT"
    and "evict_cold_bodies pinned st = foldl (\<lambda>s (_, k). body_mut k evict_body s) st gone"
proof -
  let ?w = "evictable pinned st" and ?keep = "WARM_BODY_LIMIT - (if pinned = None then 0 else 1 :: nat)"
  let ?n = "length ?w - ?keep"
  have "evict_cold_bodies pinned st = foldl (\<lambda>s (_, k). body_mut k evict_body s) st (take ?n (sort ?w))"
    unfolding evict_cold_bodies_def evictable_def [symmetric] by (simp add: Let_def)
  moreover have "length (drop ?n (sort ?w)) + (if pinned = None then 0 else 1) \<le> WARM_BODY_LIMIT"
    by (simp add: client_limits)
  ultimately show ?thesis using that [of "take ?n (sort ?w)" "drop ?n (sort ?w)"] by simp
qed

lemma evict_cold_warm:
  assumes inv: "client_inv st"
  shows "card (warm_ids (evict_cold_bodies pinned st)) \<le> WARM_BODY_LIMIT"
    and "pinned = Some k \<Longrightarrow> k \<in> warm_ids st \<Longrightarrow> k \<in> warm_ids (evict_cold_bodies pinned st)"
    and "x \<in> warm_ids st - warm_ids (evict_cold_bodies pinned st) \<Longrightarrow> y \<in> warm_ids (evict_cold_bodies pinned st) \<Longrightarrow> Some y \<noteq> pinned
      \<Longrightarrow> get_view x st = Some u \<Longrightarrow> get_view y st = Some v \<Longrightarrow> vw_last_focused u \<le> vw_last_focused v"
proof -
  obtain gone kept where s: "sort (evictable pinned st) = gone @ kept" and n: "length kept + (if pinned = None then 0 else 1) \<le> WARM_BODY_LIMIT"
    and e: "evict_cold_bodies pinned st = foldl (\<lambda>s (_, k). body_mut k evict_body s) st gone" by (rule evict_cold_split)
  have w: "warm_ids (evict_cold_bodies pinned st) = warm_ids st - snd ` set gone" unfolding e by (rule warm_evict_all)
  have all: "set (evictable pinned st) = set gone \<union> set kept" using s by (metis set_append set_sort)
  have sub: "warm_ids (evict_cold_bodies pinned st) \<subseteq> snd ` set kept \<union> set_option pinned"
  proof
    fix k assume k: "k \<in> warm_ids (evict_cold_bodies pinned st)"
    then obtain v where "get_view k st = Some v" "is_warm v" using w warm_ids_iff [OF inv] by blast
    then have "Some k = pinned \<or> (vw_last_focused v, k) \<in> set gone \<union> set kept" using evictable_iff [OF inv] all by blast
    then show "k \<in> snd ` set kept \<union> set_option pinned" using k w by force
  qed
  then have "card (warm_ids (evict_cold_bodies pinned st)) \<le> card (snd ` set kept \<union> set_option pinned)" by (intro card_mono) simp_all
  also have "\<dots> \<le> card (set (map snd kept)) + card (set_option pinned)" using card_Un_le by simp
  also have "\<dots> \<le> WARM_BODY_LIMIT" using card_length [of "map snd kept"] n by (cases pinned) auto
  finally show "card (warm_ids (evict_cold_bodies pinned st)) \<le> WARM_BODY_LIMIT" .
  show "k \<in> warm_ids (evict_cold_bodies pinned st)" if "pinned = Some k" "k \<in> warm_ids st"
  proof -
    have "(t, k) \<notin> set gone" for t using evictable_iff [OF inv, of t k pinned] all that(1) by auto
    then show ?thesis using w that(2) by force
  qed
  show "vw_last_focused u \<le> vw_last_focused v"
    if x: "x \<in> warm_ids st - warm_ids (evict_cold_bodies pinned st)" and y: "y \<in> warm_ids (evict_cold_bodies pinned st)" "Some y \<noteq> pinned"
      and u: "get_view x st = Some u" and v: "get_view y st = Some v"
  proof -
    obtain t where t: "(t, x) \<in> set gone" using x w by force
    then have "t = vw_last_focused u" using evictable_iff [OF inv, of t x pinned] all u by auto
    moreover have "(vw_last_focused v, y) \<in> set kept"
      using y w v warm_ids_iff [OF inv, of y] evictable_iff [OF inv, of "vw_last_focused v" y pinned] all by force
    moreover have "sorted (gone @ kept)" using s sorted_sort by metis
    ultimately have "(vw_last_focused u, x) \<le> (vw_last_focused v, y)" using t unfolding sorted_append by blast
    then show ?thesis by auto
  qed
qed

lemma row_of_view: "get_view k st = Some v \<Longrightarrow> map_of (rows_of_store st) k = Some (tree_row_of (vw_summary v))"
  by (simp add: get_view_def rows_of_store_def map_of_map)

section \<open>What a client relies on\<close>

text \<open>C8 (invariant). Whatever a client does with its store, in whatever order (events and replays, snapshots, summaries,
  models, warming, focus and eviction, prompts and drafts, removals): nothing panics, and the index the store serves,
  cached or not, is that of its sessions now. It lists every session that descends from a root once, with its depth,
  and after its parent; a session whose parents form a cycle or lead to an unknown session is not listed.\<close>

theorem client_tree_current:
  assumes "sanitizer_ok san"
  shows "\<exists>st ix st'. foldl client_run (Some (with_sanitizer san)) ops = Some st \<and> get_index st = Some (ix, st')
    \<and> distinct (ix_order ix) \<and> set (ix_order ix) = {s. \<exists>d. rooted (rows_of_store st) s d}
    \<and> (\<forall>s d. ix_depth ix s = Some d \<longleftrightarrow> rooted (rows_of_store st) s d)
    \<and> (\<forall>i < length (ix_order ix). \<forall>v p. get_view (ix_order ix ! i) st = Some v \<and> su_parent (vw_summary v) = Some p
          \<longrightarrow> p \<in> set (take i (ix_order ix)))"
proof -
  obtain st where st: "foldl client_run (Some (with_sanitizer san)) ops = Some st" "client_inv st" using client_reaches [OF assms] .
  obtain ix st' where ix: "get_index st = Some (ix, st')" "build_index (rows_of_store st) = Some ix" using get_index_inv [OF st(2)] by blast
  note spec = build_index_spec [OF rows_keyed_store [OF st(2)], unfolded ix(2)]
  have "p \<in> set (take i (ix_order ix))"
    if "i < length (ix_order ix)" "get_view (ix_order ix ! i) st = Some v" "su_parent (vw_summary v) = Some p" for i v p
  proof -
    have "map_of (rows_of_store st) (ix_order ix ! i) = Some (tree_row_of (vw_summary v))" using that(2) by (rule row_of_view)
    then show ?thesis using spec that(1,3) by (auto simp: tree_row_of_def)
  qed
  moreover have "distinct (ix_order ix)" "set (ix_order ix) = {s. \<exists>d. rooted (rows_of_store st) s d}"
    "\<forall>s d. ix_depth ix s = Some d \<longleftrightarrow> rooted (rows_of_store st) s d"
    using spec by auto
  ultimately show ?thesis using st(1) ix(1) by blast
qed

text \<open>C25 (bounds). Whatever a client does with its store, each of its views stays bounded: at most 256 messages, 64 tool calls and 100
  prompts, 256 bytes of the text shown as live, 16 KiB of a run's reasoning and 4 KiB of a call's live output, with
  a mark of truncation only where there is output. After an eviction at most 8 bodies are warm, that of the
  session that is pinned among them, and no body that was evicted had been in focus later than one that is kept.\<close>

theorem client_bounded:
  assumes "sanitizer_ok san" and "foldl client_run (Some (with_sanitizer san)) ops = Some st" and "get_view k st = Some v"
  shows "(\<forall>ms. vw_messages v = Some ms \<longrightarrow> length ms \<le> 256) \<and> (\<forall>cs. vw_tool_calls v = Some cs \<longrightarrow> length cs \<le> 64)
    \<and> length (vw_prompt_history v) \<le> 100 \<and> length (ls_tail (vw_live v)) \<le> 256
    \<and> (\<forall>run r. vw_reasoning v run = Some r \<longrightarrow> length (rg_text r) \<le> 16384)
    \<and> (\<forall>call b. vw_live_output v call = Some b \<longrightarrow> length b \<le> 4096) \<and> (\<forall>call \<in> vw_live_truncated v. vw_live_output v call \<noteq> None)
    \<and> card (warm_ids (evict_cold_bodies pinned st)) \<le> 8
    \<and> (pinned = Some k \<and> is_warm v \<longrightarrow> k \<in> warm_ids (evict_cold_bodies pinned st))
    \<and> (\<forall>x u. get_view x st = Some u \<and> x \<in> warm_ids st - warm_ids (evict_cold_bodies pinned st)
          \<and> k \<in> warm_ids (evict_cold_bodies pinned st) \<and> pinned \<noteq> Some k \<longrightarrow> vw_last_focused u \<le> vw_last_focused v)"
proof -
  have inv: "client_inv st" using client_reaches [OF assms(1), of ops] assms(2) by auto
  have ok: "view_ok k v" using get_view_ok [OF inv assms(3)] .
  have "k \<in> warm_ids st \<longleftrightarrow> is_warm v" using warm_ids_iff [OF inv] assms(3) by simp
  moreover have "vw_last_focused u \<le> vw_last_focused v"
    if "get_view x st = Some u" "x \<in> warm_ids st - warm_ids (evict_cold_bodies pinned st)"
      "k \<in> warm_ids (evict_cold_bodies pinned st)" "pinned \<noteq> Some k" for x u
    using evict_cold_warm(3) [OF inv that(2,3) _ that(1) assms(3)] that(4) by blast
  ultimately show ?thesis
    using ok evict_cold_warm(1) [OF inv, of pinned] evict_cold_warm(2) [OF inv, of pinned k]
    unfolding view_ok_def client_limits by auto
qed

section \<open>A child that arrives before its parent\<close>

definition demo_summary :: "ident \<Rightarrow> ident option \<Rightarrow> session_summary" where
  "demo_summary k parent =
     \<lparr>su_id = k, su_workspace = ''w'', su_parent = parent, su_spawned_by = None, su_purpose = TaskSession, su_title = k,
      su_status = SessionIdle, su_active_run = None, su_activity = None, su_queued_prompts = 0, su_model = None,
      su_context_tokens = None, su_inclusive_cost = None, su_cost = None, su_updated_at = 0, su_last_outcome = None,
      su_holds = [], su_running_side = None\<rparr>"

definition demo_reduction :: reduce_context where
  "demo_reduction = \<lparr>rc_focused = None, rc_attentive = False, rc_workspace = None, rc_max_continuations = None, rc_models = [], rc_caused_by_me = False\<rparr>"

definition demo_client_ops :: "client_op list" where
  "demo_client_ops = [OpUpsert (demo_summary ''b'' (Some ''a'')) [] 0, OpUpsert (demo_summary ''a'' None) [] 0, OpWarm ''b'']"

definition demo_view :: session_view where
  "demo_view = (summary_only (demo_summary ''b'' (Some ''a'')) None 0)\<lparr>vw_messages := Some [], vw_tool_calls := Some []\<rparr>"

definition demo_views :: client_store where
  "demo_views = \<lparr>cs_sessions = [(''b'', demo_view), (''a'', summary_only (demo_summary ''a'' None) None 0)],
     cs_index = None, cs_sanitizer = plain_text_character\<rparr>"

lemma demo_client_run: "foldl client_run (Some (with_sanitizer plain_text_character)) demo_client_ops = Some demo_views"
  by (simp add: demo_client_ops_def client_run_def client_op_step_def demo_views_def demo_view_def upsert_summary_def insert_view_def
      warm_empty_def body_mut_def update_view_def is_warm_def summary_only_def with_sanitizer_def get_view_def demo_summary_def
      model_context_window_def Let_def)

lemma demo_rows: "map_of (rows_of_store demo_views)
    = [''b'' \<mapsto> tree_row_of (demo_summary ''b'' (Some ''a'')), ''a'' \<mapsto> tree_row_of (demo_summary ''a'' None)]"
  by (simp add: rows_of_store_def demo_views_def demo_view_def summary_only_def fun_upd_twist)

lemma demo_rooted: "rooted (rows_of_store demo_views) s d \<longleftrightarrow> s = ''a'' \<and> d = 0 \<or> s = ''b'' \<and> d = 1"
proof
  assume "rooted (rows_of_store demo_views) s d"
  then show "s = ''a'' \<and> d = 0 \<or> s = ''b'' \<and> d = 1"
    by induction (auto simp: demo_rows tree_row_of_def demo_summary_def split: if_splits)
next
  have a: "rooted (rows_of_store demo_views) ''a'' 0"
    by (rule rooted.root [of _ _ "tree_row_of (demo_summary ''a'' None)"]) (simp_all add: demo_rows tree_row_of_def demo_summary_def)
  have "rooted (rows_of_store demo_views) ''b'' (Suc 0)"
    by (rule rooted.child [of _ _ "tree_row_of (demo_summary ''b'' (Some ''a''))", OF _ _ a]) (simp_all add: demo_rows tree_row_of_def demo_summary_def)
  then show "s = ''a'' \<and> d = 0 \<or> s = ''b'' \<and> d = 1 \<Longrightarrow> rooted (rows_of_store demo_views) s d" using a by auto
qed

theorem client_tree_current_witness:
  "\<exists>ix st'. get_index demo_views = Some (ix, st') \<and> distinct (ix_order ix) \<and> set (ix_order ix) = {''a'', ''b''} \<and> ix_depth ix ''b'' = Some 1"
proof -
  obtain ix st' where "get_index demo_views = Some (ix, st')" "distinct (ix_order ix)"
    "set (ix_order ix) = {s. \<exists>d. rooted (rows_of_store demo_views) s d}" "\<forall>s d. ix_depth ix s = Some d \<longleftrightarrow> rooted (rows_of_store demo_views) s d"
    using client_tree_current [OF plain_text_ok, of demo_client_ops] unfolding demo_client_run by auto
  then show ?thesis unfolding demo_rooted by (intro exI [of _ ix] exI [of _ st']) auto
qed

theorem client_bounded_witness:
  "card (warm_ids (evict_cold_bodies (Some ''b'') demo_views)) \<le> 8 \<and> ''b'' \<in> warm_ids (evict_cold_bodies (Some ''b'') demo_views)"
proof -
  have "get_view ''b'' demo_views = Some demo_view" and "is_warm demo_view"
    by (simp_all add: get_view_def demo_views_def is_warm_def demo_view_def)
  then show ?thesis using client_bounded [OF plain_text_ok demo_client_run, of "''b''" demo_view "Some ''b''"] by simp
qed

end
