(* ===== verification/Client_Sync.thy ===== *)
theory Client_Sync
  imports Client_Invariant Lifecycle
begin

text \<open>
  The calls that a client shows for a session are those of the server's store: the store's operations, the journal's pages
  and the client's reduction of their events put together.
\<close>

section \<open>The calls a view shows\<close>

definition shown_calls :: "ident \<Rightarrow> client_store \<Rightarrow> tool_snapshot list option" where
  "shown_calls k st = (case get_view k st of None \<Rightarrow> None | Some v \<Rightarrow> vw_tool_calls v)"

definition upsert_shown :: "tool_snapshot \<Rightarrow> tool_snapshot list \<Rightarrow> tool_snapshot list" where
  "upsert_shown call calls =
     (if \<exists>c \<in> set calls. ts_id c = ts_id call then update_last (\<lambda>c. ts_id c = ts_id call) (\<lambda>_. call) calls
      else fst (retain_recent_tool_calls (calls @ [call])))"

lemma get_view_update:
  "get_view k (st\<lparr>cs_sessions := update_view x f (cs_sessions st)\<rparr>) = (if k = x then map_option f (get_view k st) else get_view k st)"
proof -
  have "map_of (update_view x f ss) k = (if k = x then map_option f (map_of ss k) else map_of ss k)" for ss
    by (induction ss) (auto simp: update_view_def)
  then show ?thesis by (simp add: get_view_def)
qed

lemma get_view_mut:
  "get_view k (get_mut x f st) = (if k = x then map_option f (get_view k st) else get_view k st)"
  "get_view k (body_mut x f st) = (if k = x then map_option f (get_view k st) else get_view k st)"
  using get_view_update [where k = k and st = st and x = x and f = f] by (simp_all add: get_mut_def body_mut_def get_view_def)

lemma shown_mut:
  assumes "\<And>v. vw_tool_calls (f v) = vw_tool_calls v"
  shows "shown_calls k (get_mut x f st) = shown_calls k st" and "shown_calls k (body_mut x f st) = shown_calls k st"
  using assms by (simp_all add: shown_calls_def get_view_mut split: option.split)

lemma shown_upsert:
  "shown_calls k (upsert_tool_call c st) = (if ts_session c = k then map_option (upsert_shown c) (shown_calls k st) else shown_calls k st)"
proof -
  have "vw_tool_calls (upsert_call c v) = map_option (upsert_shown c) (vw_tool_calls v)" for v
    by (simp add: upsert_call_def upsert_shown_def case_prod_unfold Let_def split: option.split)
  then show ?thesis by (simp add: shown_calls_def upsert_tool_call_def get_view_mut split: option.split)
qed

lemma untouched_calls:
  "vw_tool_calls (time_call e c now v) = vw_tool_calls v"
  "vw_tool_calls (settle_call_view c v) = vw_tool_calls v"
  "vw_tool_calls (request_approval c p v) = vw_tool_calls v"
  "vw_tool_calls (output_delta i chunk now v) = vw_tool_calls v"
  "vw_tool_calls (map_messages f v) = vw_tool_calls v"
  by (simp_all add: time_call_def settle_call_view_def finish_live_tool_output_def request_approval_def output_delta_def
      append_live_tool_output_def map_messages_def Let_def)

lemma shown_follow:
  "shown_calls k (follow_call e c x now st) = (if ts_session c = k then map_option (upsert_shown c) (shown_calls k st) else shown_calls k st)"
  by (cases e) (simp_all add: follow_call_def shown_upsert complete_streamed_turns_def shown_mut untouched_calls Let_def)

lemma shown_tool:
  "shown_calls k (fst (reduce_tool ctx x now e st)) =
     (case event_snapshot e of
        Some c \<Rightarrow> if ts_session c = k then map_option (upsert_shown c) (shown_calls k st) else shown_calls k st
      | None \<Rightarrow> shown_calls k st)"
  by (cases e) (simp_all add: reduce_tool_def shown_follow shown_upsert shown_mut untouched_calls)

text \<open>A published event as the client receives it.\<close>

definition envelope_of :: "tool_event published \<Rightarrow> client_envelope" where
  "envelope_of p =
     \<lparr>ce_session = en_session (pb_envelope p), ce_run = en_run (pb_envelope p), ce_occurred_at = en_time (pb_envelope p),
      ce_event = (case en_event (pb_envelope p) of OtherEvent e \<Rightarrow> EvTool e | _ \<Rightarrow> EvRetired)\<rparr>"

lemma shown_event:
  "\<exists>st' fx. reduce_event ctx (envelope_of p) st = Some (st', fx)
    \<and> shown_calls k st' = (case snapshot_in p of
        Some c \<Rightarrow> if ts_session c = k then map_option (upsert_shown c) (shown_calls k st) else shown_calls k st
      | None \<Rightarrow> shown_calls k st)"
proof (cases "en_event (pb_envelope p)")
  case (OtherEvent e)
  then show ?thesis
    using shown_tool [of k ctx "en_session (pb_envelope p)" "en_time (pb_envelope p)" e st]
    by (cases "reduce_tool ctx (en_session (pb_envelope p)) (en_time (pb_envelope p)) e st")
      (simp add: reduce_event_def envelope_of_def snapshot_in_def Let_def)
qed (simp_all add: reduce_event_def envelope_of_def snapshot_in_def silent_def Let_def)

text \<open>The snapshots of session \<open>k\<close> among those known, and a view that shows some of them, each once.\<close>

definition calls_of :: "ident \<Rightarrow> (ident \<Rightarrow> tool_snapshot option) \<Rightarrow> tool_snapshot set" where
  "calls_of k known = {c. known (ts_id c) = Some c \<and> ts_session c = k}"

definition shows_latest :: "ident \<Rightarrow> (ident \<Rightarrow> tool_snapshot option) \<Rightarrow> tool_snapshot list \<Rightarrow> bool" where
  "shows_latest k known calls \<longleftrightarrow> distinct (map ts_id calls) \<and> set calls \<subseteq> calls_of k known"

text \<open>A call belongs to one session.\<close>

definition owned :: "(ident \<Rightarrow> ident) \<Rightarrow> (ident \<Rightarrow> tool_snapshot option) \<Rightarrow> bool" where
  "owned own known \<longleftrightarrow> (\<forall>i s. known i = Some s \<longrightarrow> ts_id s = i \<and> ts_session s = own i)"

definition owns :: "(ident \<Rightarrow> ident) \<Rightarrow> tool_event published \<Rightarrow> bool" where
  "owns own p \<longleftrightarrow> (\<forall>s. snapshot_in p = Some s \<longrightarrow> ts_session s = own (ts_id s))"

lemma owned_learn: "owned own known \<Longrightarrow> owns own p \<Longrightarrow> owned own (learn p known)"
  by (simp add: owned_def owns_def learn_def split: option.split)

lemma inj_calls_of: "inj_on ts_id (calls_of k known)"
proof (rule inj_onI)
  fix x y assume "x \<in> calls_of k known" "y \<in> calls_of k known" "ts_id x = ts_id y"
  then have "Some x = Some y" unfolding calls_of_def mem_Collect_eq by metis
  then show "x = y" by simp
qed

lemma calls_of_other:
  assumes "owned own known" and "ts_session c = own (ts_id c)" and "ts_session c \<noteq> k"
  shows "calls_of k (known(ts_id c \<mapsto> c)) = calls_of k known"
  using assms by (auto simp: calls_of_def owned_def)

lemma calls_of_upsert:
  assumes "ts_session c = k"
  shows "calls_of k (known(ts_id c \<mapsto> c)) = insert c {x \<in> calls_of k known. ts_id x \<noteq> ts_id c}"
  using assms by (auto simp: calls_of_def split: if_splits)

lemma position_rev:
  assumes "\<exists>x \<in> set xs. P x"
  shows "\<exists>i < length xs. position P (rev xs) = Some (length xs - 1 - i) \<and> P (xs ! i)"
proof -
  obtain j where j: "position P (rev xs) = Some j" using assms position_None_iff [of P "rev xs"] by (cases "position P (rev xs)") auto
  then have "j < length xs" "P (rev xs ! j)" using position_Some_iff [of P "rev xs" j] by auto
  then show ?thesis using j by (intro exI [of _ "length xs - 1 - j"]) (auto simp: rev_nth)
qed

lemma upsert_replaces:
  assumes d: "distinct (map ts_id calls)" and e: "\<exists>x \<in> set calls. ts_id x = ts_id c"
  shows "upsert_shown c calls = map (\<lambda>x. if ts_id x = ts_id c then c else x) calls"
proof -
  obtain i where i: "i < length calls" "position (\<lambda>x. ts_id x = ts_id c) (rev calls) = Some (length calls - 1 - i)" "ts_id (calls ! i) = ts_id c"
    using position_rev [OF e] by blast
  have other: "ts_id (calls ! j) \<noteq> ts_id c" if "j < length calls" "j \<noteq> i" for j
    using d that i(1,3) by (metis distinct_conv_nth length_map nth_map)
  have "calls[i := c] = map (\<lambda>x. if ts_id x = ts_id c then c else x) calls"
  proof (rule nth_equalityI)
    fix j assume "j < length (calls[i := c])"
    then show "calls[i := c] ! j = map (\<lambda>x. if ts_id x = ts_id c then c else x) calls ! j"
      using i(3) other [of j] by (cases "j = i") simp_all
  qed simp
  then show ?thesis using e i(1,2) by (simp add: upsert_shown_def update_last_def)
qed

lemma map_replaced_ids: "map ts_id (map (\<lambda>x. if ts_id x = ts_id c then c else x) calls) = map ts_id calls"
  by simp

lemma upsert_appends:
  "\<not> (\<exists>x \<in> set calls. ts_id x = ts_id c) \<Longrightarrow> upsert_shown c calls = drop (length calls + 1 - MAX_RECENT_TOOL_CALLS) (calls @ [c])"
  by (simp add: upsert_shown_def retain_recent_tool_calls_def Let_def)

lemma upsert_shown_latest:
  assumes a: "shows_latest k known calls" and c: "ts_session c = k"
  shows "shows_latest k (known(ts_id c \<mapsto> c)) (upsert_shown c calls)"
proof -
  have d: "distinct (map ts_id calls)" and sub: "set calls \<subseteq> calls_of k known" using a by (simp_all add: shows_latest_def)
  show ?thesis
  proof (cases "\<exists>x \<in> set calls. ts_id x = ts_id c")
    case True
    have "distinct (map ts_id (map (\<lambda>x. if ts_id x = ts_id c then c else x) calls))" unfolding map_replaced_ids by (rule d)
    moreover have "set (map (\<lambda>x. if ts_id x = ts_id c then c else x) calls) \<subseteq> insert c {x \<in> calls_of k known. ts_id x \<noteq> ts_id c}"
      using sub by auto
    ultimately show ?thesis unfolding upsert_replaces [OF d True] shows_latest_def calls_of_upsert [OF c] by blast
  next
    case False
    let ?n = "length calls + 1 - MAX_RECENT_TOOL_CALLS"
    have "distinct (map ts_id (calls @ [c]))" using d False by auto
    then have "distinct (map ts_id (drop ?n (calls @ [c])))" by (metis distinct_drop drop_map)
    moreover have "set (drop ?n (calls @ [c])) \<subseteq> insert c {x \<in> calls_of k known. ts_id x \<noteq> ts_id c}"
      using sub False by (intro order_trans [OF set_drop_subset]) auto
    ultimately show ?thesis unfolding upsert_appends [OF False] shows_latest_def calls_of_upsert [OF c] by (rule conjI)
  qed
qed

lemma upsert_shown_ids:
  assumes d: "distinct (map ts_id calls)" and n: "card (insert (ts_id c) (ts_id ` set calls)) \<le> MAX_RECENT_TOOL_CALLS"
  shows "ts_id ` set (upsert_shown c calls) = insert (ts_id c) (ts_id ` set calls)"
proof (cases "\<exists>x \<in> set calls. ts_id x = ts_id c")
  case True
  then have "insert (ts_id c) (ts_id ` set calls) = ts_id ` set calls" by (metis imageI insert_absorb)
  then show ?thesis using arg_cong [OF map_replaced_ids, of set c calls] unfolding upsert_replaces [OF d True] set_map by simp
next
  case False
  have "card (ts_id ` set calls) = length calls" using d distinct_card [of "map ts_id calls"] by simp
  moreover have "ts_id c \<notin> ts_id ` set calls" using False by auto
  ultimately have "length calls + 1 \<le> MAX_RECENT_TOOL_CALLS" using n by simp
  then show ?thesis unfolding upsert_appends [OF False] by simp
qed

definition call_ids :: "ident \<Rightarrow> tool_event published list \<Rightarrow> ident set" where
  "call_ids k ps = {ts_id c | c p. p \<in> set ps \<and> snapshot_in p = Some c \<and> ts_session c = k}"

lemma finite_call_ids: "finite (call_ids k ps)"
  by (rule finite_subset [of _ "(\<lambda>p. ts_id (the (snapshot_in p))) ` set ps"]) (force simp: call_ids_def)+

lemma call_ids_Cons:
  "call_ids k (p # ps) = (case snapshot_in p of Some c \<Rightarrow> if ts_session c = k then {ts_id c} else {} | None \<Rightarrow> {}) \<union> call_ids k ps"
  by (auto simp: call_ids_def split: option.splits)

lemma learn_ids:
  assumes "owned own known" and "owns own p"
  shows "ts_id ` calls_of k (learn p known) = ts_id ` calls_of k known \<union> call_ids k [p]"
proof (cases "snapshot_in p")
  case None
  then show ?thesis by (simp add: learn_def call_ids_def)
next
  case (Some c)
  then have c: "ts_session c = own (ts_id c)" using assms(2) by (simp add: owns_def)
  have ids: "call_ids k [p] = (if ts_session c = k then {ts_id c} else {})" using Some by (simp add: call_ids_def)
  show ?thesis
  proof (cases "ts_session c = k")
    case True
    have "ts_id ` insert c {x \<in> S. ts_id x \<noteq> ts_id c} = ts_id ` S \<union> {ts_id c}" for S by auto
    then show ?thesis using Some True ids by (simp add: learn_def calls_of_upsert)
  next
    case False
    then show ?thesis using Some ids calls_of_other [OF assms(1) c False] by (simp add: learn_def)
  qed
qed

lemma learn_all_ids:
  "owned own known \<Longrightarrow> \<forall>p \<in> set ps. owns own p \<Longrightarrow> ts_id ` calls_of k (fold learn ps known) = ts_id ` calls_of k known \<union> call_ids k ps"
proof (induction ps arbitrary: known)
  case (Cons p ps)
  have "call_ids k (p # ps) = call_ids k [p] \<union> call_ids k ps" by (auto simp: call_ids_def)
  then show ?case using Cons.prems Cons.IH [OF owned_learn, of known p] learn_ids [of own known p k] by auto
qed (simp add: call_ids_def)

lemma learn_shown:
  assumes "owned own known" and "owns own p" and "shows_latest k known calls"
    and calls1: "calls1 = (case snapshot_in p of Some c \<Rightarrow> if ts_session c = k then upsert_shown c calls else calls | None \<Rightarrow> calls)"
  shows "shows_latest k (learn p known) calls1"
    and "card (ts_id ` set calls \<union> call_ids k [p]) \<le> MAX_RECENT_TOOL_CALLS \<Longrightarrow> ts_id ` set calls1 = ts_id ` set calls \<union> call_ids k [p]"
proof -
  have "shows_latest k (known(ts_id c \<mapsto> c)) calls" if "snapshot_in p = Some c" "ts_session c \<noteq> k" for c
    using calls_of_other [OF assms(1) _ that(2)] assms(2,3) that(1) by (simp add: owns_def shows_latest_def)
  then show "shows_latest k (learn p known) calls1"
    using assms(3) upsert_shown_latest unfolding calls1 learn_def by (auto split: option.split)
  have d: "distinct (map ts_id calls)" using assms(3) by (simp add: shows_latest_def)
  show "ts_id ` set calls1 = ts_id ` set calls \<union> call_ids k [p]" if "card (ts_id ` set calls \<union> call_ids k [p]) \<le> MAX_RECENT_TOOL_CALLS"
  proof (cases "\<exists>c. snapshot_in p = Some c \<and> ts_session c = k")
    case True
    then obtain c where c: "snapshot_in p = Some c" "ts_session c = k" by blast
    then have "call_ids k [p] = {ts_id c}" by (simp add: call_ids_def)
    then show ?thesis using that c upsert_shown_ids [OF d, of c] unfolding calls1 by simp
  next
    case False
    then have "call_ids k [p] = {}" by (auto simp: call_ids_def)
    then show ?thesis using False unfolding calls1 by (simp split: option.split)
  qed
qed

lemma client_follows:
  assumes "shown_calls k st = Some calls" and "shows_latest k known calls" and "owned own known" and "\<forall>p \<in> set ps. owns own p"
  shows "\<exists>st' calls'. foldl client_run (Some st) (map (\<lambda>p. OpEvent ctx (envelope_of p)) ps) = Some st'
    \<and> shown_calls k st' = Some calls' \<and> shows_latest k (fold learn ps known) calls'
    \<and> (card (ts_id ` set calls \<union> call_ids k ps) \<le> MAX_RECENT_TOOL_CALLS \<longrightarrow> ts_id ` set calls' = ts_id ` set calls \<union> call_ids k ps)"
  using assms
proof (induction ps arbitrary: st known calls)
  case Nil
  then show ?case by (simp add: call_ids_def)
next
  case (Cons p ps)
  define calls1 where "calls1 = (case snapshot_in p of Some c \<Rightarrow> if ts_session c = k then upsert_shown c calls else calls | None \<Rightarrow> calls)"
  obtain st1 fx where r: "reduce_event ctx (envelope_of p) st = Some (st1, fx)" and sh: "shown_calls k st1 = Some calls1"
    using shown_event [of ctx p st k] Cons.prems(1) by (auto simp: calls1_def split: option.splits if_splits)
  have own: "owns own p" "\<forall>p \<in> set ps. owns own p" using Cons.prems(4) by simp_all
  note step = learn_shown [OF Cons.prems(3) own(1) Cons.prems(2) calls1_def]
  obtain st' calls' where IH: "foldl client_run (Some st1) (map (\<lambda>p. OpEvent ctx (envelope_of p)) ps) = Some st'"
    "shown_calls k st' = Some calls'" "shows_latest k (fold learn ps (learn p known)) calls'"
    "card (ts_id ` set calls1 \<union> call_ids k ps) \<le> MAX_RECENT_TOOL_CALLS \<longrightarrow> ts_id ` set calls' = ts_id ` set calls1 \<union> call_ids k ps"
    using Cons.IH [OF sh step(1) owned_learn [OF Cons.prems(3) own(1)] own(2)] by blast
  have split: "ts_id ` set calls \<union> call_ids k (p # ps) = (ts_id ` set calls \<union> call_ids k [p]) \<union> call_ids k ps" by (auto simp: call_ids_def)
  have ids: "ts_id ` set calls' = ts_id ` set calls \<union> call_ids k (p # ps)"
    if n: "card (ts_id ` set calls \<union> call_ids k (p # ps)) \<le> MAX_RECENT_TOOL_CALLS"
  proof -
    have "card (ts_id ` set calls \<union> call_ids k [p]) \<le> card (ts_id ` set calls \<union> call_ids k (p # ps))"
      unfolding split using finite_call_ids by (intro card_mono) auto
    then show ?thesis using n step(2) IH(4) unfolding split by simp
  qed
  have "foldl client_run (Some st) (map (\<lambda>p. OpEvent ctx (envelope_of p)) (p # ps)) = Some st'"
    using r IH(1) by (simp add: client_run_def client_op_step_def)
  then show ?case using IH(2,3) ids by (intro exI [of _ st'] exI [of _ calls']) simp
qed

lemma log_owned:
  assumes "sessions_agree log"
  shows "owned (\<lambda>i. ts_session (the (client_view log i))) (client_view (take n log))"
    and "p \<in> set log \<Longrightarrow> owns (\<lambda>i. ts_session (the (client_view log i))) p"
proof -
  have own: "ts_session s = ts_session (the (client_view log (ts_id s)))" if "p \<in> set log" "snapshot_in p = Some s" for p s
    using assms that unfolding sessions_agree_def by force
  then show "p \<in> set log \<Longrightarrow> owns (\<lambda>i. ts_session (the (client_view log i))) p" by (simp add: owns_def)
  show "owned (\<lambda>i. ts_session (the (client_view log i))) (client_view (take n log))"
    using client_view_source [of "take n log"] own by (fastforce simp: owned_def dest: in_set_takeD)
qed

text \<open>C20 (refinement). Store, journal and client put together: from an empty store, after any operations of the server, the
  journal serves a client that stopped after some number of events the rest of them. When a client whose view of a session
  shows calls as they were then has reduced these events, without a panic, it shows each call once and
  exactly as the store would load it; and if it showed all calls of the session and the store has at most 64 of them,
  it again shows all of them and nothing else.\<close>

theorem client_shows_store:
  assumes "codec_ok cd" and "fresh_store st0" and "foldl (op_step cd sid) ([], st0) ops = (log, st)"
    and "\<forall>p \<in> set log. en_workspace (pb_envelope p) = w"
    and "read_published_events cd w after limit (st_journal st) = Ok page" and "length log \<le> after + limit"
    and "shown_calls k client = Some calls" and "shows_latest k (client_view (take after log)) calls"
  shows "\<exists>client' calls'. foldl client_run (Some client) (map (\<lambda>p. OpEvent ctx (envelope_of p)) page) = Some client'
    \<and> shown_calls k client' = Some calls' \<and> shows_latest k (loaded st) calls'
    \<and> (set calls = calls_of k (client_view (take after log)) \<and> card (calls_of k (loaded st)) \<le> 64 \<longrightarrow> set calls' = calls_of k (loaded st))"
proof -
  note page = page_catches_up [OF assms(1-6)]
  let ?own = "\<lambda>i. ts_session (the (client_view log i))" and ?known = "client_view (take after log)"
  have own: "owned ?own ?known" "\<forall>p \<in> set page. owns ?own p"
    using log_owned [OF page(3)] unfolding page(1) by (auto dest: in_set_dropD)
  obtain client' calls' where r: "foldl client_run (Some client) (map (\<lambda>p. OpEvent ctx (envelope_of p)) page) = Some client'"
    "shown_calls k client' = Some calls'" "shows_latest k (loaded st) calls'"
    and ids: "card (ts_id ` set calls \<union> call_ids k page) \<le> MAX_RECENT_TOOL_CALLS \<longrightarrow> ts_id ` set calls' = ts_id ` set calls \<union> call_ids k page"
    using client_follows [OF assms(7,8) own, of ctx] unfolding page(2) by blast
  have "set calls' = calls_of k (loaded st)" if all: "set calls = calls_of k ?known" and n: "card (calls_of k (loaded st)) \<le> 64"
  proof -
    have e: "ts_id ` calls_of k (loaded st) = ts_id ` set calls \<union> call_ids k page" using learn_all_ids [OF own, of k] unfolding page(2) all .
    then have "ts_id ` set calls' = ts_id ` calls_of k (loaded st)"
      using ids n card_image [OF inj_calls_of, of k "loaded st"] by (simp add: MAX_RECENT_TOOL_CALLS_def)
    moreover have "set calls' \<subseteq> calls_of k (loaded st)" using r(3) by (simp add: shows_latest_def)
    ultimately show ?thesis using inj_on_image_eq_iff [OF inj_calls_of] by blast
  qed
  then show ?thesis using r by blast
qed

section \<open>A view of the session of the call\<close>

definition demo_client :: client_store where
  "demo_client = \<lparr>cs_sessions = [(''s'', (summary_only (demo_summary ''s'' None) None 0)\<lparr>vw_messages := Some [], vw_tool_calls := Some [demo_snapshot Requested]\<rparr>)],
     cs_index = None, cs_sanitizer = plain_text_character\<rparr>"

lemma demo_calls:
  "calls_of ''s'' (client_view (take 1 [demo_published 1, demo_published 2])) = {demo_snapshot Requested}"
  "calls_of ''s'' (loaded (demo_store_after 2)) = {demo_snapshot Running}"
proof -
  have "client_view [demo_published 1] = [''t'' \<mapsto> demo_snapshot Requested]"
    by (simp add: client_view_def learn_def snapshot_in_def make_envelope_def demo_defs snapshot_of_def requested_row_def)
  then show "calls_of ''s'' (client_view (take 1 [demo_published 1, demo_published 2])) = {demo_snapshot Requested}"
    by (auto simp: calls_of_def demo_defs snapshot_of_def requested_row_def split: if_splits)
  have "loaded (demo_store_after 2) = [''t'' \<mapsto> demo_snapshot Running]"
    by (rule ext) (simp add: loaded_def load_tool_call_def select_call_def ok_or_def snapshot_of_def requested_row_def demo_defs)
  then show "calls_of ''s'' (loaded (demo_store_after 2)) = {demo_snapshot Running}"
    by (auto simp: calls_of_def demo_defs snapshot_of_def requested_row_def split: if_splits)
qed

theorem client_shows_store_witness:
  "\<exists>client' calls'. foldl client_run (Some demo_client) (map (\<lambda>p. OpEvent demo_reduction (envelope_of p)) [demo_published 2]) = Some client'
    \<and> shown_calls ''s'' client' = Some calls' \<and> set calls' = {demo_snapshot Running}"
proof -
  have run: "foldl (op_step demo_tool_codec ''i'') ([], demo_store)
      [(1, OpInsert demo_identity [demo_new_call] :: unit store_op), (2, OpStart demo_identity ''t'')]
      = ([demo_published 1, demo_published 2], demo_store_after 2)"
    using demo_insert demo_start by simp
  have w: "\<forall>p \<in> set [demo_published 1, demo_published 2]. en_workspace (pb_envelope p) = ''w''"
    by (simp add: demo_published_def make_envelope_def for_run_def demo_identity_def)
  have shown: "shown_calls ''s'' demo_client = Some [demo_snapshot Requested]"
    by (simp add: shown_calls_def get_view_def demo_client_def)
  have "shows_latest ''s'' (client_view (take 1 [demo_published 1, demo_published 2])) [demo_snapshot Requested]"
    unfolding shows_latest_def demo_calls by simp
  from client_shows_store [OF demo_codec_ok demo_fresh run w demo_read _ shown this, of demo_reduction] show ?thesis
    unfolding demo_calls by auto
qed

end
