(* ===== verification/Context_Plan.thy ===== *)
theory Context_Plan
  imports Rust_Str
begin

text \<open>
  Whether a request to a model fits (\<^verbatim>\<open>sessions/context.rs\<close>): an estimate of its tokens and bytes against the window of the
  model and the storage of a session, and what to do if it does not fit: compact the history to a target, or refuse.
  Sizes are 64-bit integers that saturate. \<open>None\<close> is a panic.
\<close>

section \<open>Estimates\<close>

definition STORAGE_CONTEXT_BYTES :: nat where "STORAGE_CONTEXT_BYTES = 4 * 1024 * 1024"
definition CONSERVATIVE_OUTPUT_BYTES_PER_TOKEN :: nat where "CONSERVATIVE_OUTPUT_BYTES_PER_TOKEN = 32"
definition MAX_OUTPUT_STORAGE_RESERVE_BYTES :: nat where
  "MAX_OUTPUT_STORAGE_RESERVE_BYTES = 16384 * CONSERVATIVE_OUTPUT_BYTES_PER_TOKEN"
definition ESTIMATED_BYTES_PER_TOKEN :: nat where "ESTIMATED_BYTES_PER_TOKEN = 4"
definition MIN_CALIBRATION_TOKENS :: nat where "MIN_CALIBRATION_TOKENS = 2000"
definition MIN_CALIBRATED_BYTES_PER_TOKEN :: nat where "MIN_CALIBRATED_BYTES_PER_TOKEN = 2"
definition MAX_CALIBRATED_BYTES_PER_TOKEN :: nat where "MAX_CALIBRATED_BYTES_PER_TOKEN = 6"
definition PROACTIVE_COMPACTION_HEADROOM_DIVISOR :: nat where "PROACTIVE_COMPACTION_HEADROOM_DIVISOR = 10"
definition COMPACTION_RECORD_BYTES :: nat where "COMPACTION_RECORD_BYTES = 64 * 1024"
definition COMPACTION_STORAGE_ENVELOPE_BYTES :: nat where
  "COMPACTION_STORAGE_ENVELOPE_BYTES = COMPACTION_RECORD_BYTES + 32"

lemmas context_limits = STORAGE_CONTEXT_BYTES_def CONSERVATIVE_OUTPUT_BYTES_PER_TOKEN_def MAX_OUTPUT_STORAGE_RESERVE_BYTES_def
  ESTIMATED_BYTES_PER_TOKEN_def MIN_CALIBRATION_TOKENS_def MIN_CALIBRATED_BYTES_PER_TOKEN_def MAX_CALIBRATED_BYTES_PER_TOKEN_def
  PROACTIVE_COMPACTION_HEADROOM_DIVISOR_def COMPACTION_RECORD_BYTES_def COMPACTION_STORAGE_ENVELOPE_BYTES_def

definition div_ceil :: "nat \<Rightarrow> nat \<Rightarrow> nat" where
  "div_ceil a b = (a + b - 1) div b"

definition sat_mul :: "nat \<Rightarrow> nat \<Rightarrow> nat \<Rightarrow> nat" where
  [arith_defs]: "sat_mul m a b = min m (a * b)"

definition estimate_tokens :: "nat \<Rightarrow> nat" where
  "estimate_tokens bytes = div_ceil bytes ESTIMATED_BYTES_PER_TOKEN"

definition summarizer_output_tokens :: "nat \<Rightarrow> nat option \<Rightarrow> nat" where
  "summarizer_output_tokens max_output_tokens context_window =
     (case context_window of
        Some window \<Rightarrow> min max_output_tokens (max (window div 8) 8192)
      | None \<Rightarrow> max_output_tokens)"

definition summarizer_message_byte_budget :: "nat option \<Rightarrow> nat \<Rightarrow> nat \<Rightarrow> nat \<Rightarrow> nat option" where
  "summarizer_message_byte_budget context_window max_output_tokens system_bytes tool_schema_bytes =
     map_option (\<lambda>window. sat_mul u64_max (window - max_output_tokens) ESTIMATED_BYTES_PER_TOKEN - system_bytes - tool_schema_bytes)
       context_window"

text \<open>The sum in \<open>calibrated_bytes_per_token\<close> is not checked: in a release build it wraps.\<close>

definition calibrated_bytes_per_token :: "nat \<Rightarrow> nat \<Rightarrow> nat" where
  "calibrated_bytes_per_token measured_tokens measured_bytes =
     (if measured_tokens < MIN_CALIBRATION_TOKENS \<or> measured_bytes = 0 then ESTIMATED_BYTES_PER_TOKEN
      else (let ratio = ((measured_bytes + measured_tokens div 2) mod 2 ^ 64) div measured_tokens
            in if ratio < MIN_CALIBRATED_BYTES_PER_TOKEN then MIN_CALIBRATED_BYTES_PER_TOKEN
               else if MAX_CALIBRATED_BYTES_PER_TOKEN < ratio then MAX_CALIBRATED_BYTES_PER_TOKEN
               else ratio))"

definition adjust_measured_tokens_at :: "nat \<Rightarrow> nat \<Rightarrow> nat \<Rightarrow> nat \<Rightarrow> nat" where
  "adjust_measured_tokens_at measured previous_bytes current_bytes bytes_per_token =
     (let ratio = (if bytes_per_token = 0 then ESTIMATED_BYTES_PER_TOKEN else bytes_per_token)
      in if previous_bytes \<le> current_bytes then sat_add u64_max measured (div_ceil (current_bytes - previous_bytes) ratio)
         else measured - div_ceil (previous_bytes - current_bytes) ratio)"

definition adjust_measured_tokens :: "nat \<Rightarrow> nat \<Rightarrow> nat \<Rightarrow> nat" where
  "adjust_measured_tokens measured previous_bytes current_bytes =
     adjust_measured_tokens_at measured previous_bytes current_bytes (calibrated_bytes_per_token measured previous_bytes)"

section \<open>The plan of a request\<close>

datatype context_constraint = ModelWindow | StorageBackstop | BothConstraints

record context_target =
  tg_tokens :: "nat option"
  tg_bytes :: nat

datatype compaction_exhaustion = ExAttempted nat | OversizedUnit nat

datatype context_reject_reason =
    Irreducible context_constraint
  | NoReducibleHistory context_constraint
  | Exhausted context_constraint compaction_exhaustion
  | SummarizerOverflow context_constraint
  | BetweenRunsOnly context_constraint
  | Unsupported context_constraint
  | ProviderReportedOverflow compaction_exhaustion

datatype compaction_disposition =
    DispEligible
  | DispExhausted compaction_exhaustion
  | DispBetweenRunsOnly
  | DispUnsupported
  | DispSummarizing

record context_estimate =
  es_input_bytes :: nat
  es_input_tokens :: nat
  es_output_reserve :: nat
  es_storage_reserve :: nat
  es_window :: "nat option"

datatype context_plan =
    PlanSend context_estimate
  | PlanCompact context_estimate context_constraint context_target
  | PlanReject context_estimate context_reject_reason

record context_input =
  ci_window :: "nat option"
  ci_max_output_tokens :: nat
  ci_system_bytes :: nat
  ci_tool_schema_bytes :: nat
  ci_reducible_bytes :: nat
  ci_irreducible_bytes :: nat
  ci_compatible_tokens :: "nat option"
  ci_compaction :: compaction_disposition

definition fixed_input :: "context_input \<Rightarrow> nat" where
  "fixed_input i = sat_add u64_max (sat_add u64_max (ci_system_bytes i) (ci_tool_schema_bytes i)) (ci_irreducible_bytes i)"

definition input_bytes :: "context_input \<Rightarrow> nat" where
  "input_bytes i = sat_add u64_max (fixed_input i) (ci_reducible_bytes i)"

definition estimated_input_tokens :: "context_input \<Rightarrow> nat" where
  "estimated_input_tokens i = (case ci_compatible_tokens i of Some n \<Rightarrow> n | None \<Rightarrow> estimate_tokens (input_bytes i))"

definition storage_reserve :: "context_input \<Rightarrow> nat" where
  "storage_reserve i =
     sat_add u64_max
       (min (sat_mul u64_max (ci_max_output_tokens i) CONSERVATIVE_OUTPUT_BYTES_PER_TOKEN) MAX_OUTPUT_STORAGE_RESERVE_BYTES)
       (if ci_compaction i = DispEligible then COMPACTION_STORAGE_ENVELOPE_BYTES else 0)"

definition fixed_tokens :: "context_input \<Rightarrow> nat" where
  "fixed_tokens i = sat_add u64_max (estimate_tokens (fixed_input i)) (ci_max_output_tokens i)"

definition required_tokens :: "context_input \<Rightarrow> nat" where
  "required_tokens i = sat_add u64_max (estimated_input_tokens i) (ci_max_output_tokens i)"

definition context_estimate_of :: "context_input \<Rightarrow> context_estimate" where
  "context_estimate_of i =
     \<lparr>es_input_bytes = input_bytes i, es_input_tokens = estimated_input_tokens i, es_output_reserve = ci_max_output_tokens i,
      es_storage_reserve = storage_reserve i, es_window = ci_window i\<rparr>"

definition over_window :: "nat \<Rightarrow> nat option \<Rightarrow> bool" where
  "over_window tokens window \<longleftrightarrow> (case window of Some w \<Rightarrow> w < tokens | None \<Rightarrow> False)"

definition exceeds_storage :: "context_input \<Rightarrow> bool" where
  "exceeds_storage i \<longleftrightarrow> STORAGE_CONTEXT_BYTES < sat_add u64_max (input_bytes i) (storage_reserve i)"

definition exceeds_window :: "context_input \<Rightarrow> bool" where
  "exceeds_window i \<longleftrightarrow> ci_compaction i \<noteq> DispSummarizing \<and> over_window (required_tokens i) (ci_window i)"

definition near_window :: "context_input \<Rightarrow> bool" where
  "near_window i \<longleftrightarrow> ci_compaction i = DispEligible \<and> ci_reducible_bytes i > 0
     \<and> over_window (required_tokens i) (map_option (\<lambda>w. w - w div PROACTIVE_COMPACTION_HEADROOM_DIVISOR) (ci_window i))"

definition irreducible_window_overflow :: "context_input \<Rightarrow> bool" where
  "irreducible_window_overflow i \<longleftrightarrow>
     ci_compatible_tokens i = None \<and> ci_compaction i \<noteq> DispSummarizing \<and> over_window (fixed_tokens i) (ci_window i)"

definition irreducible_storage_overflow :: "context_input \<Rightarrow> bool" where
  "irreducible_storage_overflow i \<longleftrightarrow> STORAGE_CONTEXT_BYTES < sat_add u64_max (fixed_input i) (storage_reserve i)"

text \<open>\<open>None\<close> is the branch \<open>unreachable!()\<close>.\<close>

definition constraint_of :: "bool \<Rightarrow> bool \<Rightarrow> context_constraint option" where
  "constraint_of window storage =
     (case (window, storage) of
        (True, True) \<Rightarrow> Some BothConstraints
      | (True, False) \<Rightarrow> Some ModelWindow
      | (False, True) \<Rightarrow> Some StorageBackstop
      | (False, False) \<Rightarrow> None)"

definition target_of :: "context_input \<Rightarrow> context_target" where
  "target_of i =
     \<lparr>tg_tokens = (case (ci_compatible_tokens i, ci_window i) of
          (None, Some w) \<Rightarrow> Some (w - ci_max_output_tokens i - estimate_tokens (fixed_input i))
        | _ \<Rightarrow> None),
      tg_bytes = STORAGE_CONTEXT_BYTES - storage_reserve i - fixed_input i\<rparr>"

definition dispose :: "context_input \<Rightarrow> context_constraint \<Rightarrow> context_plan" where
  "dispose i c =
     (if ci_reducible_bytes i = 0 then PlanReject (context_estimate_of i) (NoReducibleHistory c)
      else (case ci_compaction i of
              DispEligible \<Rightarrow> PlanCompact (context_estimate_of i) c (target_of i)
            | DispExhausted e \<Rightarrow> PlanReject (context_estimate_of i) (Exhausted c e)
            | DispSummarizing \<Rightarrow> PlanReject (context_estimate_of i) (SummarizerOverflow c)
            | DispBetweenRunsOnly \<Rightarrow> PlanReject (context_estimate_of i) (BetweenRunsOnly c)
            | DispUnsupported \<Rightarrow> PlanReject (context_estimate_of i) (Unsupported c)))"

definition plan :: "context_input \<Rightarrow> context_plan option" where
  "plan i =
     (if \<not> exceeds_storage i \<and> \<not> exceeds_window i \<and> \<not> near_window i then Some (PlanSend (context_estimate_of i))
      else if irreducible_window_overflow i \<or> irreducible_storage_overflow i
      then map_option (\<lambda>c. PlanReject (context_estimate_of i) (Irreducible c))
             (constraint_of (irreducible_window_overflow i) (irreducible_storage_overflow i))
      else map_option (dispose i) (constraint_of (exceeds_window i \<or> near_window i) (exceeds_storage i)))"

section \<open>What is said of a plan that is not sent\<close>

definition plural :: "nat \<Rightarrow> string" where
  "plural n = (if n = 1 then [] else ''s'')"

definition exhausted_detail :: "compaction_exhaustion \<Rightarrow> string" where
  "exhausted_detail e =
     (case e of
        ExAttempted steps \<Rightarrow> ''automatic compaction ran '' @ nat_to_string steps @ '' summarizer step'' @ plural steps
          @ '' for this prompt and reached its recovery limit while the request is still too large; all session history is preserved''
      | OversizedUnit bytes \<Rightarrow> ''one earlier prompt and its run measure '' @ nat_to_string bytes
          @ '' bytes, which automatic recovery could not reduce within the selected model'' @ [CHR 0x27]
          @ ''s window; use a larger context window; all session history is preserved'')"

definition overflow_why :: "compaction_exhaustion \<Rightarrow> string" where
  "overflow_why e =
     (case e of
        ExAttempted steps \<Rightarrow> nat_to_string steps @ '' automatic compaction step'' @ plural steps @ '' did not produce a usable smaller context''
      | OversizedUnit bytes \<Rightarrow> ''one earlier prompt and its run measure '' @ nat_to_string bytes
          @ '' bytes, which automatic recovery could not reduce within the model'' @ [CHR 0x27] @ ''s window'')"

definition overflow_message :: "context_estimate \<Rightarrow> compaction_exhaustion \<Rightarrow> string" where
  "overflow_message es e =
     ''the provider previously rejected an equivalent request for exceeding its context window, and '' @ overflow_why e
     @ ''; the current provider-neutral estimate is '' @ nat_to_string (es_input_tokens es) @ '' input tokens with a ''
     @ nat_to_string (es_output_reserve es) @ ''-token output reserve; all session history is preserved''"

definition target_detail :: "context_target \<Rightarrow> string" where
  "target_detail t =
     ''automatic compaction must reduce reducible history to at most '' @ (case tg_tokens t of None \<Rightarrow> ''unknown'' | Some n \<Rightarrow> nat_to_string n)
     @ '' estimated tokens and '' @ nat_to_string (tg_bytes t) @ '' bytes before this request can start''"

definition limit_message :: "context_estimate \<Rightarrow> context_constraint \<Rightarrow> string \<Rightarrow> string" where
  "limit_message es c detail =
     (let window = nat_to_string (case es_window es of None \<Rightarrow> 0 | Some w \<Rightarrow> w); mib = nat_to_string (STORAGE_CONTEXT_BYTES div (1024 * 1024))
      in case c of
           ModelWindow \<Rightarrow> ''context is estimated at '' @ nat_to_string (es_input_tokens es) @ '' input tokens ('' @ nat_to_string (es_input_bytes es)
             @ '' bytes) plus a '' @ nat_to_string (es_output_reserve es) @ ''-token output reserve, over the selected model'' @ [CHR 0x27] @ ''s ''
             @ window @ ''-token window; '' @ detail
         | StorageBackstop \<Rightarrow> ''context measures '' @ nat_to_string (es_input_bytes es) @ '' bytes and reserves '' @ nat_to_string (es_storage_reserve es)
             @ '' bytes for bounded output and compaction headroom, over the '' @ mib @ '' MiB per-session storage limit; '' @ detail
         | BothConstraints \<Rightarrow> ''context is estimated at '' @ nat_to_string (es_input_tokens es) @ '' input tokens plus a ''
             @ nat_to_string (es_output_reserve es) @ ''-token output reserve against the selected model'' @ [CHR 0x27] @ ''s '' @ window
             @ ''-token window and measures '' @ nat_to_string (es_input_bytes es) @ '' bytes with '' @ nat_to_string (es_storage_reserve es)
             @ '' bytes of bounded output and compaction headroom against the '' @ mib @ '' MiB per-session storage limit; '' @ detail)"

definition rejection_message :: "context_plan \<Rightarrow> string option" where
  "rejection_message p =
     (case p of
        PlanSend es \<Rightarrow> None
      | PlanCompact es c t \<Rightarrow> Some (limit_message es c (target_detail t))
      | PlanReject es r \<Rightarrow>
          (case r of
             Irreducible c \<Rightarrow> Some (limit_message es c (''the system prompt, tool schemas, and this run'' @ [CHR 0x27] @ ''s own messages alone exceed the limit; use a larger context window or shorten the task input; all session history is preserved''))
           | NoReducibleHistory c \<Rightarrow> Some (limit_message es c (''no earlier history remains to compact; use a larger context window or shorten the task input; all session history is preserved''))
           | Exhausted c e \<Rightarrow> Some (limit_message es c (exhausted_detail e))
           | SummarizerOverflow c \<Rightarrow> Some (limit_message es c (''the summarizer'' @ [CHR 0x27] @ ''s own request is over the limit; use a larger context window or reduce the configured instructions; all session history is preserved''))
           | BetweenRunsOnly c \<Rightarrow> Some (limit_message es c (''automatic recovery could not reduce this run'' @ [CHR 0x27] @ ''s context below the selected limit; all session history is preserved''))
           | Unsupported c \<Rightarrow> Some (limit_message es c (''the direct `qq ask` path has no session to compact; use a durable session (TUI or `qq run --session`) for long conversations''))
           | ProviderReportedOverflow e \<Rightarrow> Some (overflow_message es e)))"

section \<open>What the plan means\<close>

text \<open>The sizes without saturation, and whether the request fits.\<close>

definition real_bytes :: "context_input \<Rightarrow> nat" where
  "real_bytes i = ci_system_bytes i + ci_tool_schema_bytes i + ci_irreducible_bytes i + ci_reducible_bytes i"

definition real_tokens :: "context_input \<Rightarrow> nat" where
  "real_tokens i = (case ci_compatible_tokens i of Some n \<Rightarrow> n | None \<Rightarrow> (real_bytes i + 3) div 4) + ci_max_output_tokens i"

definition real_reserve :: "context_input \<Rightarrow> nat" where
  "real_reserve i = min (32 * ci_max_output_tokens i) 524288 + (if ci_compaction i = DispEligible then 65568 else 0)"

definition fits_storage :: "context_input \<Rightarrow> bool" where
  "fits_storage i \<longleftrightarrow> real_bytes i + real_reserve i \<le> 4194304"

definition fits_window :: "context_input \<Rightarrow> bool" where
  "fits_window i \<longleftrightarrow> (\<forall>w. ci_window i = Some w \<longrightarrow> real_tokens i \<le> w)"

text \<open>A window is a 32-bit integer.\<close>

definition window_ok :: "context_input \<Rightarrow> bool" where
  "window_ok i \<longleftrightarrow> (\<forall>w. ci_window i = Some w \<longrightarrow> w \<le> u32_max)"

lemma fixed_input_eq: "fixed_input i = min u64_max (ci_system_bytes i + ci_tool_schema_bytes i + ci_irreducible_bytes i)"
  by (simp add: fixed_input_def sat_add_def)

lemma input_bytes_eq: "input_bytes i = min u64_max (real_bytes i)"
  by (simp add: input_bytes_def fixed_input_eq sat_add_def real_bytes_def)

lemma storage_reserve_eq: "storage_reserve i = real_reserve i"
  by (simp add: storage_reserve_def real_reserve_def sat_add_def sat_mul_def context_limits u64_max_def)

lemma exceeds_storage_iff: "exceeds_storage i \<longleftrightarrow> \<not> fits_storage i"
  by (auto simp: exceeds_storage_def fits_storage_def input_bytes_eq storage_reserve_eq sat_add_def STORAGE_CONTEXT_BYTES_def u64_max_def)

lemma estimate_tokens_eq: "estimate_tokens n = (n + 3) div 4"
  by (simp add: estimate_tokens_def div_ceil_def ESTIMATED_BYTES_PER_TOKEN_def)

lemma estimate_tokens_add: "estimate_tokens (a + b) \<le> estimate_tokens a + estimate_tokens b"
  unfolding estimate_tokens_eq by linarith

lemma estimate_tokens_min: "w \<le> u32_max \<Longrightarrow> w < estimate_tokens (min u64_max n) + k \<longleftrightarrow> w < estimate_tokens n + k"
  by (auto simp: estimate_tokens_eq min_def u32_max_def u64_max_def)

lemma over_window_iff:
  assumes "window_ok i"
  shows "over_window (required_tokens i) (ci_window i) \<longleftrightarrow> \<not> fits_window i"
proof -
  have "w < sat_add u64_max a b \<longleftrightarrow> w < a + b" if "w \<le> u32_max" for w a b
    using that by (auto simp: sat_add_def u32_max_def u64_max_def)
  then show ?thesis
    using assms estimate_tokens_min [where n = "real_bytes i" and k = "ci_max_output_tokens i"]
    by (auto simp: over_window_def window_ok_def fits_window_def required_tokens_def estimated_input_tokens_def real_tokens_def
        input_bytes_eq estimate_tokens_eq [symmetric] not_le split: option.splits)
qed

lemma irreducible_window_iff:
  assumes "window_ok i"
  shows "irreducible_window_overflow i \<longleftrightarrow>
    ci_compatible_tokens i = None \<and> ci_compaction i \<noteq> DispSummarizing \<and> \<not> fits_window (i\<lparr>ci_reducible_bytes := 0\<rparr>)"
proof -
  let ?n = "ci_system_bytes i + ci_tool_schema_bytes i + ci_irreducible_bytes i"
  have "w < sat_add u64_max a b \<longleftrightarrow> w < a + b" if "w \<le> u32_max" for w a b
    using that by (auto simp: sat_add_def u32_max_def u64_max_def)
  then show ?thesis
    using assms estimate_tokens_min [where n = ?n and k = "ci_max_output_tokens i"]
    by (auto simp: irreducible_window_overflow_def over_window_def window_ok_def fits_window_def fixed_tokens_def real_tokens_def real_bytes_def
        fixed_input_eq estimate_tokens_eq [symmetric] not_le split: option.splits)
qed

lemma irreducible_storage_iff: "irreducible_storage_overflow i \<longleftrightarrow> \<not> fits_storage (i\<lparr>ci_reducible_bytes := 0\<rparr>)"
  by (auto simp: irreducible_storage_overflow_def fits_storage_def real_bytes_def fixed_input_eq storage_reserve_eq real_reserve_def
      sat_add_def STORAGE_CONTEXT_BYTES_def u64_max_def)

lemma fits_less:
  assumes "r \<le> ci_reducible_bytes i"
  shows "fits_storage i \<Longrightarrow> fits_storage (i\<lparr>ci_reducible_bytes := r\<rparr>)"
    and "fits_window i \<Longrightarrow> fits_window (i\<lparr>ci_reducible_bytes := r\<rparr>)"
proof -
  have "real_bytes (i\<lparr>ci_reducible_bytes := r\<rparr>) \<le> real_bytes i" using assms by (simp add: real_bytes_def)
  moreover from this have "real_tokens (i\<lparr>ci_reducible_bytes := r\<rparr>) \<le> real_tokens i"
    by (auto simp: real_tokens_def div_le_mono split: option.split)
  ultimately show "fits_storage i \<Longrightarrow> fits_storage (i\<lparr>ci_reducible_bytes := r\<rparr>)"
    and "fits_window i \<Longrightarrow> fits_window (i\<lparr>ci_reducible_bytes := r\<rparr>)"
    by (auto simp: fits_storage_def fits_window_def real_reserve_def)
qed

definition fits :: "context_input \<Rightarrow> bool" where
  "fits i \<longleftrightarrow> fits_storage i \<and> (ci_compaction i \<noteq> DispSummarizing \<longrightarrow> fits_window i)"

lemma exceeds_not_fits: "window_ok i \<Longrightarrow> exceeds_storage i \<or> exceeds_window i \<longleftrightarrow> \<not> fits i"
  by (auto simp: fits_def exceeds_window_def over_window_iff exceeds_storage_iff)

lemma irreducible_never_fits:
  assumes "window_ok i" and "irreducible_window_overflow i \<or> irreducible_storage_overflow i"
  shows "\<not> fits (i\<lparr>ci_reducible_bytes := n\<rparr>)"
  using assms fits_less [of 0 "i\<lparr>ci_reducible_bytes := n\<rparr>"]
  by (auto simp: fits_def irreducible_window_iff irreducible_storage_iff)

lemma irreducible_not_fits:
  assumes "window_ok i" and "irreducible_window_overflow i \<or> irreducible_storage_overflow i"
  shows "\<not> fits i"
  using irreducible_never_fits [OF assms, of "ci_reducible_bytes i"] by simp

lemma constraint_of_Some: "a \<or> b \<Longrightarrow> \<exists>c. constraint_of a b = Some c"
  by (cases a; cases b) (simp_all add: constraint_of_def)

lemma plan_cases:
  assumes w: "window_ok i"
  obtains (send) "fits i" "\<not> near_window i" "plan i = Some (PlanSend (context_estimate_of i))"
    | (irreducible) c where "irreducible_window_overflow i \<or> irreducible_storage_overflow i" "plan i = Some (PlanReject (context_estimate_of i) (Irreducible c))"
    | (dispose) c where "\<not> irreducible_window_overflow i" "\<not> irreducible_storage_overflow i" "\<not> fits i \<or> near_window i" "plan i = Some (dispose i c)"
proof -
  have e: "exceeds_storage i \<or> exceeds_window i \<longleftrightarrow> \<not> fits i" using exceeds_not_fits [OF w] .
  show thesis
  proof (cases "fits i \<and> \<not> near_window i")
    case True
    then show ?thesis using e by (intro send) (auto simp: plan_def)
  next
    case False
    then have go: "\<not> (\<not> exceeds_storage i \<and> \<not> exceeds_window i \<and> \<not> near_window i)" using e by blast
    show ?thesis
    proof (cases "irreducible_window_overflow i \<or> irreducible_storage_overflow i")
      case True
      then show ?thesis using irreducible go constraint_of_Some [OF True] by (auto simp: plan_def)
    next
      case no: False
      then show ?thesis
        using dispose go False constraint_of_Some [of "exceeds_window i \<or> near_window i" "exceeds_storage i"] by (auto simp: plan_def)
    qed
  qed
qed



section \<open>A history that is too long\<close>

definition demo_request :: context_input where
  "demo_request = \<lparr>ci_window = Some 100000, ci_max_output_tokens = 8000, ci_system_bytes = 20000, ci_tool_schema_bytes = 20000,
     ci_reducible_bytes = 500000, ci_irreducible_bytes = 0, ci_compatible_tokens = None, ci_compaction = DispEligible\<rparr>"

lemmas plan_eval = plan_def exceeds_storage_def exceeds_window_def near_window_def irreducible_window_overflow_def
  irreducible_storage_overflow_def over_window_def required_tokens_def fixed_tokens_def estimated_input_tokens_def input_bytes_def
  fixed_input_def storage_reserve_def estimate_tokens_def div_ceil_def sat_add_def sat_mul_def context_limits u64_max_def
  constraint_of_def dispose_def target_of_def context_estimate_of_def

lemma demo_plan: "plan demo_request = Some (PlanCompact (context_estimate_of demo_request) ModelWindow \<lparr>tg_tokens = Some 82000, tg_bytes = 3832736\<rparr>)"
  by (simp add: demo_request_def plan_eval)

lemma demo_window: "window_ok demo_request"
  by (simp add: window_ok_def demo_request_def u32_max_def)



end
