(* ===== verification/Read_File.thy ===== *)
theory Read_File
  imports Edit_File Fetch
begin

text \<open>
  The read tool (\<^verbatim>\<open>tools/read.rs\<close>): which lines are asked for, what of the file is loaded, and the window of numbered lines that
  is shown within the bounds of a result, with the offset to continue from. What the system answers is data, SHA-256, the
  items of an outline (found by regular expressions) and the debug form of a text are parameters. \<open>None\<close> is a panic.
\<close>

section \<open>Limits and arguments\<close>

definition MAX_READ_LINES :: nat where "MAX_READ_LINES = 2000"
definition MAX_READ_OFFSET :: nat where "MAX_READ_OFFSET = 100000"
definition MAX_READ_SCAN_BYTES :: nat where "MAX_READ_SCAN_BYTES = 4 * 1024 * 1024"
definition READ_BOUNDS :: bounds where "READ_BOUNDS = Bounds_new (32 * 1024) 4000"
definition MAX_RANGES :: nat where "MAX_RANGES = 8"
definition MAX_OUTLINE_ITEMS :: nat where "MAX_OUTLINE_ITEMS = 400"
definition MAX_IMAGE_BYTES :: nat where "MAX_IMAGE_BYTES = 5 * 1024 * 1024"
definition BINARY_SNIFF_BYTES :: nat where "BINARY_SNIFF_BYTES = 8 * 1024"

datatype read_mode = LinesMode | OutlineMode | InfoMode

record read_file_args =
  rf_path :: string
  rf_ranges :: "string list"
  rf_offset :: "nat option"
  rf_limit :: "nat option"
  rf_mode :: read_mode
  rf_if_changed_since :: "string option"

section \<open>The lines asked for\<close>

record read_range =
  lr_start :: nat
  lr_end :: nat

datatype range_error = TooManyRanges | InvalidOffset | InvalidLimit | InvalidRange string | TooManyLines nat

definition range_error_text :: "(string \<Rightarrow> string) \<Rightarrow> range_error \<Rightarrow> string" where
  "range_error_text debug e =
     (case e of
        TooManyRanges \<Rightarrow> ''invalid_ranges: at most '' @ nat_to_string MAX_RANGES @ '' ranges''
      | InvalidOffset \<Rightarrow> ''invalid_offset: offset must be between 1 and '' @ nat_to_string MAX_READ_OFFSET
      | InvalidLimit \<Rightarrow> ''invalid_limit: limit must be between 1 and '' @ nat_to_string MAX_READ_LINES
      | InvalidRange s \<Rightarrow> ''invalid_ranges: '' @ debug s @ '' is not <start>[-<end>]''
      | TooManyLines n \<Rightarrow> ''invalid_ranges: ranges cover '' @ nat_to_string n @ '' lines; at most ''
          @ nat_to_string MAX_READ_LINES @ '' per call'')"

definition offset_range :: "read_file_args \<Rightarrow> (range_error, read_range) result" where
  "offset_range args =
     (let offset = (case rf_offset args of None \<Rightarrow> 1 | Some n \<Rightarrow> n)
      in if offset = 0 \<or> MAX_READ_OFFSET < offset then Err InvalidOffset
         else (case rf_limit args of
                 None \<Rightarrow> Ok \<lparr>lr_start = offset, lr_end = u64_max\<rparr>
               | Some limit \<Rightarrow>
                   if 1 \<le> limit \<and> limit \<le> MAX_READ_LINES then Ok \<lparr>lr_start = offset, lr_end = sat_add u64_max offset (limit - 1)\<rparr>
                   else Err InvalidLimit))"

definition parse_range :: "string \<Rightarrow> (range_error, read_range) result" where
  "parse_range s =
     (let (first, fin) = (case position (\<lambda>c. c = CHR ''-'' \<or> c = CHR '','') s of
                            Some i \<Rightarrow> (take i s, Some (drop (i + 1) s))
                          | None \<Rightarrow> (s, None))
      in case parse_uint u64_max first of
           None \<Rightarrow> Err (InvalidRange s)
         | Some start \<Rightarrow>
             if 1 \<le> start \<and> start \<le> MAX_READ_OFFSET
             then (case fin of
                     None \<Rightarrow> Ok \<lparr>lr_start = start, lr_end = start\<rparr>
                   | Some t \<Rightarrow>
                       if t = [] then Ok \<lparr>lr_start = start, lr_end = u64_max\<rparr>
                       else (case parse_uint u64_max t of
                               Some n \<Rightarrow> if start \<le> n then Ok \<lparr>lr_start = start, lr_end = n\<rparr> else Err (InvalidRange s)
                             | None \<Rightarrow> Err (InvalidRange s)))
             else Err (InvalidRange s))"

fun parse_all :: "string list \<Rightarrow> (range_error, read_range list) result" where
  "parse_all [] = Ok []"
| "parse_all (s # ss) =
     (case parse_range s of
        Inl e \<Rightarrow> Err e
      | Inr r \<Rightarrow> (case parse_all ss of Inl e \<Rightarrow> Err e | Inr rs \<Rightarrow> Ok (r # rs)))"

text \<open>Ranges that overlap or touch become one. The head of the accumulator is the last range so far.\<close>

fun merge_ranges :: "read_range list \<Rightarrow> read_range list \<Rightarrow> read_range list" where
  "merge_ranges merged [] = rev merged"
| "merge_ranges [] (r # rs) = merge_ranges [r] rs"
| "merge_ranges (l # merged) (r # rs) =
     (if lr_start r \<le> sat_add u64_max (lr_end l) 1
      then merge_ranges (l\<lparr>lr_end := max (lr_end l) (lr_end r)\<rparr> # merged) rs
      else merge_ranges (r # l # merged) rs)"

definition requested_lines :: "read_range list \<Rightarrow> nat" where
  "requested_lines rs = foldl (sat_add u64_max) 0 (map (\<lambda>r. sat_add u64_max (lr_end r - lr_start r) 1) rs)"

definition parse_ranges :: "read_file_args \<Rightarrow> (range_error, read_range list) result" where
  "parse_ranges args =
     (if MAX_RANGES < length (rf_ranges args) then Err TooManyRanges
      else if rf_ranges args = [] then (case offset_range args of Inl e \<Rightarrow> Err e | Inr r \<Rightarrow> Ok [r])
      else (case parse_all (rf_ranges args) of
              Inl e \<Rightarrow> Err e
            | Inr rs \<Rightarrow>
                (let merged = merge_ranges [] (sort_key lr_start rs); n = requested_lines merged
                 in if MAX_READ_LINES < n \<and> (\<forall>r \<in> set merged. lr_end r \<noteq> u64_max) then Err (TooManyLines n) else Ok merged)))"

section \<open>Loading\<close>

record loaded_file =
  ld_path :: string
  ld_bytes :: string
  ld_size :: nat
  ld_hash :: "string option"
  ld_perms :: string

text \<open>The permissions are the mode of Unix, shown in octal.\<close>

fun nat_to_octal :: "nat \<Rightarrow> string" where
  "nat_to_octal n =
     (if n < 8 then [char_of (48 + n)] else nat_to_octal (n div 8) @ [char_of (48 + n mod 8)])"

declare nat_to_octal.simps [simp del]

definition permissions :: "nat \<Rightarrow> string" where
  "permissions mode = nat_to_octal (mode mod 512)"

text \<open>What the system answers to one read: the resolution of the path, its metadata, the opening, and the content.\<close>

record read_answers =
  rd_canonicalize :: "string \<Rightarrow> (string, string) result"
  rd_metadata :: "(string, nat metadata) result"
  rd_open :: "string option"
  rd_content :: "(string, string) result"

definition load :: "(string \<Rightarrow> byte list) \<Rightarrow> (string \<Rightarrow> string) \<Rightarrow> read_answers \<Rightarrow> string \<Rightarrow> (string, loaded_file) result" where
  "load sha256 lossy ans requested =
     (case contained_path (rd_canonicalize ans) requested of
        Inl e \<Rightarrow> Err (path_error requested e)
      | Inr path \<Rightarrow>
          (case rd_metadata ans of
             Inl e \<Rightarrow> Err (''path_not_found: '' @ e)
           | Inr md \<Rightarrow>
               if \<not> md_is_file md then Err (''not_a_file: '' @ requested)
               else (case rd_open ans of
                       Some e \<Rightarrow> Err (''could not open file: '' @ e)
                     | None \<Rightarrow>
                         (case rd_content ans of
                            Inl e \<Rightarrow> Err (''could not read file: '' @ e)
                          | Inr content \<Rightarrow>
                              (let bytes = take (MAX_READ_SCAN_BYTES + 1) content;
                                   scanned_all = (length bytes \<le> MAX_READ_SCAN_BYTES);
                                   kept = (if scanned_all then bytes else take MAX_READ_SCAN_BYTES bytes)
                               in Ok \<lparr>ld_path = lossy path, ld_bytes = kept, ld_size = max (md_len md) (length kept),
                                      ld_hash = (if scanned_all then Some (content_hash sha256 bytes) else None),
                                      ld_perms = permissions (md_permissions md)\<rparr>)))))"

definition looks_binary :: "string \<Rightarrow> bool" where
  "looks_binary bytes \<longleftrightarrow> CHR 0x00 \<in> set (take BINARY_SNIFF_BYTES bytes)"

definition count_file_lines :: "string \<Rightarrow> nat" where
  "count_file_lines bytes =
     (let newlines = length (filter (\<lambda>c. c = CHR 0x0A) bytes)
      in if bytes = [] \<or> ends_with bytes [CHR 0x0A] then newlines else newlines + 1)"

definition eol :: "string \<Rightarrow> string" where
  "eol bytes =
     (case position (\<lambda>c. c = CHR 0x0A) bytes of
        Some i \<Rightarrow> if i = 0 then ''lf'' else if bytes ! (i - 1) = CHR 0x0D then ''crlf'' else ''lf''
      | None \<Rightarrow> ''none'')"

definition extension :: "string \<Rightarrow> string" where
  "extension path =
     (let name = last (split_char path (CHR ''/''))
      in case position (\<lambda>c. c = CHR ''.'') (rev name) of
           None \<Rightarrow> []
         | Some i \<Rightarrow> drop (length name - i) name)"

definition is_image :: "string \<Rightarrow> bool" where
  "is_image path \<longleftrightarrow> to_ascii_lowercase (extension path) \<in> set [''png'', ''jpg'', ''jpeg'', ''gif'', ''webp'']"

definition image_mime :: "string \<Rightarrow> string" where
  "image_mime path =
     (let e = to_ascii_lowercase (extension path)
      in if e = ''png'' then ''image/png''
         else if e = ''jpg'' \<or> e = ''jpeg'' then ''image/jpeg''
         else if e = ''gif'' then ''image/gif''
         else if e = ''webp'' then ''image/webp''
         else ''application/octet-stream'')"

text \<open>\<open>valid_up_to\<close> of the UTF-8 validator, and whether what follows is only cut off (\<open>error_len\<close> is none).\<close>

function utf8_valid_up_to :: "string \<Rightarrow> nat" where
  "utf8_valid_up_to s = (if utf8_len s = 0 then 0 else utf8_len s + utf8_valid_up_to (drop (utf8_len s) s))"
  by pat_completeness auto
termination
proof (relation "measure length", goal_cases)
  case (2 s)
  then show ?case using utf8_len_bounds [of s] by (cases s) auto
qed simp

declare utf8_valid_up_to.simps [simp del]

definition cut_character :: "string \<Rightarrow> bool" where
  "cut_character s =
     (case s of
        [a] \<Rightarrow> 0xC2 \<le> (of_char a :: nat) \<and> (of_char a :: nat) \<le> 0xF4
      | [a, b] \<Rightarrow> lead3 a b \<or> lead4 a b
      | [a, b, c] \<Rightarrow> lead4 a b \<and> cont c
      | _ \<Rightarrow> False)"

definition text_of :: "loaded_file \<Rightarrow> string option" where
  "text_of ld =
     (let bytes = ld_bytes ld; n = utf8_valid_up_to bytes
      in if utf8_valid bytes then Some bytes
         else if cut_character (drop n bytes) \<and> ld_hash ld = None then Some (take n bytes)
         else None)"

section \<open>The window\<close>

record lines_state =
  rb_body :: string
  rb_identity :: string
  rb_lines :: nat
  rb_escaped :: nat
  rb_clipped :: nat
  rb_shown :: "(nat \<times> nat) list"
  rb_stopped :: bool
  rb_line_stopped :: bool

definition u64_le_bytes :: "nat \<Rightarrow> string" where
  "u64_le_bytes n = map (\<lambda>i. char_of (n div 256 ^ i mod 256)) [0..<8]"

definition row_identity :: "nat \<Rightarrow> string \<Rightarrow> string" where
  "row_identity n line = ''row'' @ [CHR 0x00] @ u64_le_bytes n @ u64_le_bytes (length line) @ line"

definition clipped_line :: "string \<Rightarrow> string \<times> bool" where
  "clipped_line content = (case push_line [] content MAX_LINE_BYTES u64_max of Some (out, _, cl) \<Rightarrow> (out, cl) | None \<Rightarrow> ([], False))"

definition pad_left :: "nat \<Rightarrow> string \<Rightarrow> string" where
  "pad_left width s = replicate (width - length s) CHR '' '' @ s"

definition row_text :: "nat \<Rightarrow> nat \<Rightarrow> string \<Rightarrow> string" where
  "row_text width n line = pad_left width (nat_to_string n) @ [CHR 0x09] @ fst (clipped_line (chomp line)) @ [CHR 0x0A]"

text \<open>The rows of one range: from the lines that are left, the first and last line shown.\<close>

fun read_rows ::
  "nat \<Rightarrow> nat \<Rightarrow> nat \<Rightarrow> read_range \<Rightarrow> (nat \<times> string) list \<Rightarrow> nat option \<times> nat \<Rightarrow> lines_state
    \<Rightarrow> (lines_state \<times> (nat option \<times> nat) \<times> (nat \<times> string) list) option" where
  "read_rows width line_budget budget r [] shown s = Some (s, shown, [])"
| "read_rows width line_budget budget r ((n, line) # rest) shown s =
     (if lr_end r < n then Some (s, shown, (n, line) # rest)
      else if n < lr_start r then read_rows width line_budget budget r rest shown s
      else (let s1 = s\<lparr>rb_identity := rb_identity s @ row_identity n line\<rparr>
            in if line_budget \<le> rb_lines s then Some (s1\<lparr>rb_stopped := True, rb_line_stopped := True\<rparr>, shown, rest)
               else (case masked_escaped_len (row_text width n line) of
                       None \<Rightarrow> None
                     | Some cost \<Rightarrow>
                         if budget < rb_escaped s + cost then Some (s1\<lparr>rb_stopped := True\<rparr>, shown, rest)
                         else read_rows width line_budget budget r rest
                                (Some (case fst shown of Some f \<Rightarrow> f | None \<Rightarrow> n), n)
                                (s1\<lparr>rb_body := rb_body s @ row_text width n line, rb_escaped := rb_escaped s + cost,
                                    rb_lines := rb_lines s + 1,
                                    rb_clipped := rb_clipped s + (if snd (clipped_line (chomp line)) then 1 else 0)\<rparr>))))"

text \<open>All ranges; \<open>Inl\<close> when the call was cancelled before a range.\<close>

fun read_windows ::
  "(nat \<Rightarrow> bool) \<Rightarrow> nat \<Rightarrow> nat \<Rightarrow> nat \<Rightarrow> nat \<Rightarrow> read_range list \<Rightarrow> (nat \<times> string) list \<Rightarrow> lines_state \<Rightarrow> (unit, lines_state) result option" where
  "read_windows cancelled width line_budget budget i [] rest s = Some (Ok s)"
| "read_windows cancelled width line_budget budget i (r # rs) rest s =
     (if cancelled i then Some (Err ())
      else (case read_rows width line_budget budget r rest (None, 0) s of
              None \<Rightarrow> None
            | Some (s1, (first, fin), rest1) \<Rightarrow>
                (let s2 = (case first of Some f \<Rightarrow> s1\<lparr>rb_shown := rb_shown s1 @ [(f, fin)]\<rparr> | None \<Rightarrow> s1)
                 in if rb_stopped s2 then Some (Ok s2)
                    else if rs \<noteq> [] \<and> rest1 \<noteq> []
                    then (if line_budget \<le> rb_lines s2 \<or> budget < rb_escaped s2 + 4
                          then Some (Ok (s2\<lparr>rb_stopped := True, rb_line_stopped := line_budget \<le> rb_lines s2\<rparr>))
                          else read_windows cancelled width line_budget budget (i + 1) rs rest1
                                 (s2\<lparr>rb_body := rb_body s2 @ ''--'' @ [CHR 0x0A], rb_escaped := rb_escaped s2 + 4,
                                     rb_lines := rb_lines s2 + 1\<rparr>))
                    else read_windows cancelled width line_budget budget (i + 1) rs rest1 s2)))"

section \<open>The output\<close>

text \<open>The display for the interface, which a read leaves empty, is left out.\<close>

record read_side_output =
  so_digest :: "byte list option"
  so_disposition :: disposition
  so_text :: string
  so_bounds :: bounds
  so_is_error :: bool
  so_file_states :: "(string \<times> string) list"

definition side_with_bounds :: "string \<Rightarrow> bounds \<Rightarrow> bool \<Rightarrow> read_side_output" where
  "side_with_bounds content b is_error =
     \<lparr>so_digest = None, so_disposition = Observed, so_text = content, so_bounds = b, so_is_error = is_error, so_file_states = []\<rparr>"

definition side_success :: "string \<Rightarrow> read_side_output" where
  "side_success content = side_with_bounds content Bounds_DEFAULT False"

definition side_error :: "string \<Rightarrow> read_side_output" where
  "side_error message = side_with_bounds message Bounds_DEFAULT True"

definition side_refused :: "string \<Rightarrow> read_side_output" where
  "side_refused message = (side_error message)\<lparr>so_disposition := Refused\<rparr>"

definition side_interrupted :: "string \<Rightarrow> read_side_output" where
  "side_interrupted message = (side_error message)\<lparr>so_disposition := Interrupted\<rparr>"

fun join_windows :: "('a \<Rightarrow> string) \<Rightarrow> 'a list \<Rightarrow> string" where
  "join_windows f [] = []"
| "join_windows f [x] = f x"
| "join_windows f (x # xs) = f x @ '','' @ join_windows f xs"

text \<open>The longest header the window could have, by which the body is bounded.\<close>

definition header_bound :: "loaded_file \<Rightarrow> string \<Rightarrow> nat \<Rightarrow> read_range list \<Rightarrow> string" where
  "header_bound ld short lines_total ranges =
     (let window = join_windows (\<lambda>r. let l = nat_to_string (min (lr_end r) lines_total) in l @ ''-'' @ l) ranges;
          h1 = Header_token (Header_new ''read'' (Some (ld_path ld))) (''L'' @ window @ ''/'' @ nat_to_string lines_total);
          h2 = Header_token h1 (''h:'' @ short);
          h3 = Header_field h2 ''clipped'' (nat_to_string (max_lines READ_BOUNDS));
          h4 = Header_field h3 ''truncated'' ''bytes'';
          h5 = Header_field h4 ''scanned'' (nat_to_string MAX_READ_SCAN_BYTES)
      in Header_into_line (Header_field h5 ''note'' ''offset_ignored''))"

definition shown_window :: "(nat \<times> nat) list \<Rightarrow> string" where
  "shown_window shown =
     (if shown = [] then ''0''
      else join_windows (\<lambda>(first, fin). if first = fin then nat_to_string first else nat_to_string first @ ''-'' @ nat_to_string fin) shown)"

definition lines_header :: "loaded_file \<Rightarrow> string \<Rightarrow> nat \<Rightarrow> bool \<Rightarrow> lines_state \<Rightarrow> string" where
  "lines_header ld short lines_total offset_ignored s =
     (let h1 = Header_token (Header_new ''read'' (Some (ld_path ld))) (''L'' @ shown_window (rb_shown s) @ ''/'' @ nat_to_string lines_total);
          h2 = Header_token h1 (''h:'' @ short);
          h3 = (if rb_clipped s > 0 then Header_field h2 ''clipped'' (nat_to_string (rb_clipped s)) else h2);
          h4 = (if rb_stopped s then Header_field h3 ''truncated'' (if rb_line_stopped s then ''lines'' else ''bytes'') else h3);
          h5 = (if ld_hash ld = None then Header_field h4 ''scanned'' (nat_to_string MAX_READ_SCAN_BYTES) else h4)
      in Header_into_line (if offset_ignored then Header_field h5 ''note'' ''offset_ignored'' else h5))"

text \<open>Whether there is more to read, and the line after the last that is shown.\<close>

definition more_lines :: "bool \<Rightarrow> nat \<Rightarrow> lines_state \<Rightarrow> bool" where
  "more_lines continue_to_eof lines_total s \<longleftrightarrow>
     rb_stopped s \<or> continue_to_eof \<and> rb_shown s \<noteq> [] \<and> snd (last (rb_shown s)) < lines_total"

definition next_offset :: "lines_state \<Rightarrow> nat" where
  "next_offset s = (if rb_shown s = [] then 0 else snd (last (rb_shown s)) + 1)"

text \<open>The offset to continue from, unless it is past the largest one.\<close>

definition continue_from :: "bool \<Rightarrow> nat \<Rightarrow> lines_state \<Rightarrow> nat option" where
  "continue_from continue_to_eof lines_total s =
     (if more_lines continue_to_eof lines_total s \<and> next_offset s \<le> MAX_READ_OFFSET then Some (next_offset s) else None)"

definition read_marker :: "loaded_file \<Rightarrow> nat \<Rightarrow> read_range list \<Rightarrow> bool \<Rightarrow> lines_state \<Rightarrow> string" where
  "read_marker ld lines_total ranges continue_to_eof s =
     (let mib = nat_to_string (MAX_READ_SCAN_BYTES div (1024 * 1024)); fin = '']'' @ ELLIPSIS @ [CHR 0x0A]
      in if more_lines continue_to_eof lines_total s
         then (case continue_from continue_to_eof lines_total s of
                 None \<Rightarrow> MARKER_PREFIX @ ''more lines; start-offset limit '' @ nat_to_string MAX_READ_OFFSET
                   @ '' reached; no later starting offset is supported'' @ fin
               | Some k \<Rightarrow>
                   if ld_hash ld = None then MARKER_PREFIX @ ''more lines (count unknown; '' @ mib @ '' MiB scan cap); continue from offset=''
                     @ nat_to_string k @ fin
                   else if rb_stopped s then MARKER_PREFIX @ ''output limit; continue from offset='' @ nat_to_string k @ fin
                   else MARKER_PREFIX @ nat_to_string (lines_total - k + 1) @ '' more lines; continue from offset='' @ nat_to_string k @ fin)
         else if ld_hash ld = None \<and> (\<exists>r \<in> set ranges. lr_end r = u64_max \<or> lines_total \<le> lr_end r)
         then MARKER_PREFIX @ ''file continues past the '' @ mib @ '' MiB scan cap'' @ fin
         else [])"

definition empty_body :: lines_state where
  "empty_body = \<lparr>rb_body = [], rb_identity = ''qq-read-lines-result-v1'' @ [CHR 0x00], rb_lines = 0, rb_escaped = 0, rb_clipped = 0,
     rb_shown = [], rb_stopped = False, rb_line_stopped = False\<rparr>"

definition number_width :: "nat \<Rightarrow> read_range list \<Rightarrow> nat" where
  "number_width lines_total ranges =
     length (nat_to_string (max (min (foldr max (map lr_end ranges) 0) lines_total) 1))"

text \<open>The bytes and lines that are left for the body, if the header leaves any.\<close>

definition body_room :: "loaded_file \<Rightarrow> string \<Rightarrow> nat \<Rightarrow> read_range list \<Rightarrow> nat \<Rightarrow> (unit, nat \<times> nat) result option" where
  "body_room ld short lines_total ranges note_bytes =
     (let bound = header_bound ld short lines_total ranges; note_row = (if note_bytes > 0 then 1 else 0)
      in map_option (\<lambda>cost.
           (let header_bytes = max (cost + note_bytes + note_row) 256; header_lines = length (str_lines bound) + note_row
            in if max_bytes READ_BOUNDS \<le> header_bytes + MARKER_RESERVE_BYTES \<or> max_lines READ_BOUNDS \<le> header_lines + 1
               then Err ()
               else Ok (max_bytes READ_BOUNDS - header_bytes - MARKER_RESERVE_BYTES, max_lines READ_BOUNDS - header_lines - 1)))
         (masked_escaped_len bound))"

text \<open>What is shown of a text, or why nothing is.\<close>

datatype lines_refusal = LinesOutOfBounds | LinesNoRoom | LinesCancelled | LinesNoRow

definition lines_body ::
  "(nat \<Rightarrow> bool) \<Rightarrow> loaded_file \<Rightarrow> string \<Rightarrow> nat \<Rightarrow> read_range list \<Rightarrow> nat \<Rightarrow> string \<Rightarrow> (lines_refusal, lines_state) result option" where
  "lines_body cancelled ld short lines_total ranges note_bytes content =
     (if (case ranges of r # _ \<Rightarrow> lines_total < lr_start r | [] \<Rightarrow> False) then Some (Err LinesOutOfBounds)
      else (case body_room ld short lines_total ranges note_bytes of
              None \<Rightarrow> None
            | Some (Inl _) \<Rightarrow> Some (Err LinesNoRoom)
            | Some (Inr (budget, line_budget)) \<Rightarrow>
                (case read_windows cancelled (number_width lines_total ranges) line_budget budget 0 ranges
                        (enumerate 1 (split_inclusive content)) empty_body of
                   None \<Rightarrow> None
                 | Some (Inl _) \<Rightarrow> Some (Err LinesCancelled)
                 | Some (Inr s) \<Rightarrow> Some (if rb_stopped s \<and> rb_shown s = [] then Err LinesNoRow else Ok s))))"

definition lines_refusal_output :: "loaded_file \<Rightarrow> nat \<Rightarrow> lines_refusal \<Rightarrow> read_side_output" where
  "lines_refusal_output ld lines_total e =
     (case e of
        LinesOutOfBounds \<Rightarrow> side_error (''range_out_of_bounds: '' @ ld_path ld @ '' has '' @ nat_to_string lines_total @ '' lines (last_line=''
          @ nat_to_string lines_total @ '')'')
      | LinesNoRoom \<Rightarrow> side_error ''output_limit: read header exceeds the output bound''
      | LinesCancelled \<Rightarrow> side_interrupted ''tool execution was cancelled''
      | LinesNoRow \<Rightarrow> side_error ''output_limit: first requested row cannot fit with the read header; select a nearer workspace root'')"

definition read_lines ::
  "(string \<Rightarrow> byte list) \<Rightarrow> (nat \<Rightarrow> bool) \<Rightarrow> loaded_file \<Rightarrow> string \<Rightarrow> nat \<Rightarrow> read_range list \<Rightarrow> bool \<Rightarrow> bool \<Rightarrow> nat \<Rightarrow> read_side_output option" where
  "read_lines sha256 cancelled ld short lines_total ranges continue_to_eof offset_ignored note_bytes =
     (case text_of ld of
        None \<Rightarrow> Some (side_error (''not_text: '' @ ld_path ld @ '' is not valid UTF-8''))
      | Some content \<Rightarrow>
          map_option (\<lambda>body.
            (case body of
               Inl e \<Rightarrow> lines_refusal_output ld lines_total e
             | Inr s \<Rightarrow>
                 (let out = lines_header ld short lines_total offset_ignored s @ rb_body s @ read_marker ld lines_total ranges continue_to_eof s
                  in (side_with_bounds out (READ_BOUNDS\<lparr>max_line_bytes := max_bytes READ_BOUNDS\<rparr>) False)
                       \<lparr>so_digest := Some (sha256 (rb_identity s @ ''rendered'' @ [CHR 0x00] @ out))\<rparr>)))
            (lines_body cancelled ld short lines_total ranges note_bytes content))"

section \<open>Outlines\<close>

record outline_item =
  oi_line :: nat
  oi_indent :: nat
  oi_kind :: string
  oi_name :: string

definition outline_name :: "string \<Rightarrow> string" where
  "outline_name name =
     (let n = (case strip_suffix name [CHR 0x0D] of Some m \<Rightarrow> m | None \<Rightarrow> name)
      in if 200 < length n then take (char_floor n 200) n @ ELLIPSIS else n)"

text \<open>The open indents, the rows so far, how many are shown and how many there are.\<close>

definition outline_step :: "nat list \<times> string \<times> nat \<times> nat \<Rightarrow> outline_item \<Rightarrow> nat list \<times> string \<times> nat \<times> nat" where
  "outline_step acc item =
     (let (stack, body, count, lines_total) = acc
      in if MAX_OUTLINE_ITEMS \<le> count then (stack, body, count, lines_total + 1)
         else (let open_items = dropWhile (\<lambda>i. oi_indent item \<le> i) stack;
                   row = ''L'' @ nat_to_string (oi_line item) @ '' '' @ concat (replicate (length open_items) ''  '') @ oi_kind item @ '' ''
                     @ outline_name (oi_name item) @ [CHR 0x0A]
               in (oi_indent item # open_items, body @ row, count + 1, lines_total + 1)))"

definition read_outline :: "outline_item list option \<Rightarrow> loaded_file \<Rightarrow> string \<Rightarrow> nat \<Rightarrow> bool \<Rightarrow> read_side_output" where
  "read_outline items ld short total_lines offset_ignored =
     (case items of
        None \<Rightarrow> side_error (''outline_unsupported: no outline table for '' @ ld_path ld @ ''; read it by lines'')
      | Some is \<Rightarrow>
          (let (_, body, count, n) = foldl outline_step ([], [], 0, 0) is;
               h1 = Header_token (Header_new ''read'' (Some (ld_path ld))) ''outline'';
               h2 = Header_field h1 ''items'' (nat_to_string count @ ''/'' @ nat_to_string n);
               h3 = Header_token (Header_field h2 ''lines'' (nat_to_string total_lines)) (''h:'' @ short);
               h4 = (if ld_hash ld = None then Header_field h3 ''scanned'' (nat_to_string MAX_READ_SCAN_BYTES) else h3)
           in side_with_bounds (Header_into_line (if offset_ignored then Header_field h4 ''note'' ''offset_ignored'' else h4) @ body) READ_BOUNDS False))"

section \<open>The tool\<close>

definition bool_text :: "bool \<Rightarrow> string" where
  "bool_text b = (if b then ''true'' else ''false'')"

definition note_ignored :: "bool \<Rightarrow> string \<Rightarrow> string" where
  "note_ignored offset_ignored h = Header_into_line (if offset_ignored then Header_field h ''note'' ''offset_ignored'' else h)"

definition read_info :: "loaded_file \<Rightarrow> string \<Rightarrow> nat \<Rightarrow> bool \<Rightarrow> read_side_output" where
  "read_info ld short lines_total offset_ignored =
     (let h1 = Header_field (Header_token (Header_new ''read'' (Some (ld_path ld))) ''info'') ''size'' (nat_to_string (ld_size ld));
          h2 = Header_token (Header_field h1 ''lines'' (nat_to_string lines_total)) (''h:'' @ short);
          h3 = Header_field h2 ''utf8'' (bool_text (utf8_valid (ld_bytes ld)));
          h4 = Header_field h3 ''eol'' (eol (ld_bytes ld));
          h5 = Header_field (Header_field h4 ''perms'' (ld_perms ld)) ''binary'' (bool_text (looks_binary (ld_bytes ld)));
          h6 = (if is_image (ld_path ld) then Header_field h5 ''mime'' (image_mime (ld_path ld)) else h5);
          h7 = (if MAX_READ_SCAN_BYTES < ld_size ld then Header_field h6 ''scanned'' (nat_to_string MAX_READ_SCAN_BYTES) else h6)
      in side_success (note_ignored offset_ignored h7))"

definition read_image :: "loaded_file \<Rightarrow> string \<Rightarrow> bool \<Rightarrow> read_side_output" where
  "read_image ld short offset_ignored =
     (let h1 = Header_field (Header_token (Header_new ''read'' (Some (ld_path ld))) ''info'') ''size'' (nat_to_string (ld_size ld));
          h2 = Header_field (Header_token h1 (''h:'' @ short)) ''mime'' (image_mime (ld_path ld));
          h3 = Header_field h2 ''hint'' (if MAX_IMAGE_BYTES < ld_size ld then ''image_too_large'' else ''image_unsupported_by_model'')
      in side_success (note_ignored offset_ignored h3))"

text \<open>What a call depends on besides its arguments. The call asks whether it is cancelled once after loading and
  then before every range.\<close>

record read_env =
  re_sha256 :: "string \<Rightarrow> byte list"
  re_lossy :: "string \<Rightarrow> string"
  re_debug :: "string \<Rightarrow> string"
  re_outline :: "string \<Rightarrow> string \<Rightarrow> outline_item list option"
  re_cancelled :: "nat \<Rightarrow> bool"
  re_answers :: read_answers

definition read_loaded :: "read_env \<Rightarrow> read_file_args \<Rightarrow> nat \<Rightarrow> read_range list \<Rightarrow> string option \<Rightarrow> loaded_file \<Rightarrow> read_side_output option" where
  "read_loaded env args note_bytes ranges since ld =
     (let short = (case ld_hash ld of None \<Rightarrow> ''-'' | Some h \<Rightarrow> take SHORT_HASH_LEN h);
          lines_total = count_file_lines (ld_bytes ld);
          offset_ignored = (rf_ranges args \<noteq> [] \<and> (rf_offset args \<noteq> None \<or> rf_limit args \<noteq> None))
      in if rf_mode args = InfoMode then Some (read_info ld short lines_total offset_ignored)
         else if is_image (ld_path ld) then Some (read_image ld short offset_ignored)
         else if looks_binary (ld_bytes ld)
         then Some (side_error (''not_text: '' @ ld_path ld @ '' is binary ('' @ nat_to_string (ld_size ld) @ '' bytes); use mode=info''))
         else if rf_mode args = OutlineMode then Some (read_outline (re_outline env (ld_path ld) (ld_bytes ld)) ld short lines_total offset_ignored)
         else if since \<noteq> None \<and> ld_hash ld \<noteq> None \<and> since = map_option (take SHORT_HASH_LEN) (ld_hash ld)
         then Some (side_success (note_ignored offset_ignored
                (Header_field (Header_token (Header_token (Header_new ''read'' (Some (ld_path ld))) ''unchanged'') (''h:'' @ short))
                  ''lines'' (nat_to_string lines_total))))
         else read_lines (re_sha256 env) (\<lambda>i. re_cancelled env (i + 1)) ld short lines_total ranges (rf_ranges args = []) offset_ignored note_bytes)"

definition read_file :: "read_env \<Rightarrow> file_state \<Rightarrow> read_file_args \<Rightarrow> nat \<Rightarrow> (read_side_output \<times> file_state) option" where
  "read_file env files args note_bytes =
     (case parse_ranges args of
        Inl e \<Rightarrow> Some (side_refused (range_error_text (re_debug env) e), files)
      | Inr ranges \<Rightarrow>
          (case short_hash (rf_if_changed_since args) of
             Inl _ \<Rightarrow> Some (side_refused ''invalid_if_changed_since: expected h:<12 hex digits>'', files)
           | Inr since \<Rightarrow>
               (case load (re_sha256 env) (re_lossy env) (re_answers env) (rf_path args) of
                  Inl e \<Rightarrow> Some (side_error e, files)
                | Inr ld \<Rightarrow>
                    if re_cancelled env 0 then Some (side_interrupted ''tool execution was cancelled'', files)
                    else map_option (\<lambda>out.
                           (case ld_hash ld of
                              Some h \<Rightarrow>
                                if so_is_error out then (out, files)
                                else (out\<lparr>so_file_states := so_file_states out @ [(ld_path ld, h)]\<rparr>, record_state files (ld_path ld) h)
                            | None \<Rightarrow> (out, files)))
                           (read_loaded env args note_bytes ranges since ld))))"

end
