(* ===== verification/Read_Spec.thy ===== *)
theory Read_Spec
  imports Read_File
begin

text \<open>
  What a read shows. The lines asked for are listed with a separator between two ranges; a read shows the longest
  beginning of this listing that fits, and the offset it names continues it.
\<close>

section \<open>Rows are valid texts\<close>

lemma prefix_valid: "utf8_valid (s @ c # t) \<Longrightarrow> is_ascii c \<Longrightarrow> utf8_valid s"
  using utf8_valid_cut [of "s @ c # t" "length s"] boundary_at_ascii [of "length s" "s @ c # t"] by simp

lemma chomp_valid: "utf8_valid l \<Longrightarrow> utf8_valid (chomp l)"
  by (auto simp: chomp_def strip_suffix_Some_iff is_ascii_def split: option.splits dest: prefix_valid)

lemma digits_ascii: "list_all is_ascii_digit s \<Longrightarrow> list_all is_ascii s"
  by (auto simp: list_all_iff is_ascii_digit_def is_ascii_def)

lemma number_valid: "utf8_valid (nat_to_string n)"
  using ascii_valid digits_ascii nat_to_string_digits by blast

lemma ascii_plus: "list_all is_ascii ''+''"
  by (simp add: is_ascii_def)

lemma clipped_valid:
  assumes "utf8_valid l"
  shows "utf8_valid (fst (clipped_line l))"
proof (cases "push_line [] l MAX_LINE_BYTES u64_max")
  case (Some x)
  obtain content newline where split: "(case strip_suffix l [CHR 0x0A] of Some c \<Rightarrow> (c, [CHR 0x0A]) | None \<Rightarrow> (l, [])) = (content, newline)"
    by (metis surj_pair)
  then have c: "utf8_valid content" and nl: "utf8_valid newline"
    using assms by (auto simp: strip_suffix_Some_iff is_ascii_def split: option.splits dest: prefix_valid intro: ascii_valid)
  define fin where "fin = char_floor content (clip_scan (u64_max - CLIP_SUFFIX_RESERVE_BYTES) 0 0 (take MAX_LINE_BYTES content))"
  have "utf8_valid (take fin content)"
    using utf8_valid_cut [OF c, of fin] char_floor_boundary [of content] c by (cases "fin \<le> length content") (auto simp: fin_def)
  moreover have "utf8_valid ELLIPSIS" by (simp add: ELLIPSIS_def utf8_valid.simps utf8_len_def is_ascii_def cont_def lead2_def lead3_def)
  ultimately have "utf8_valid (take fin content @ ELLIPSIS @ ''+'' @ nat_to_string (length content - fin) @ newline)"
    using nl number_valid ascii_valid [of "''+''"] utf8_valid_append by (metis append_Cons append_Nil ascii_plus)
  then show ?thesis
    using Some split assms by (auto simp: clipped_line_def push_line_def Let_def fin_def split: if_splits)
qed (simp add: clipped_line_def)

lemma row_valid:
  assumes "utf8_valid l"
  shows "utf8_valid (row_text width n l)"
proof -
  have "utf8_valid (replicate k CHR '' '')" for k by (simp add: ascii_valid list_all_iff is_ascii_def)
  moreover have "utf8_valid [CHR 0x09]" "utf8_valid [CHR 0x0A]" by (simp_all add: ascii_valid is_ascii_def)
  ultimately show ?thesis
    unfolding row_text_def pad_left_def
    using clipped_valid [OF chomp_valid [OF assms]] number_valid by (intro utf8_valid_append)
qed

lemma lines_valid:
  assumes "utf8_valid s" and "l \<in> set (split_inclusive s)"
  shows "utf8_valid l"
proof -
  obtain i where i: "i < length (split_inclusive s)" "l = split_inclusive s ! i" using assms(2) by (metis in_set_conv_nth)
  let ?ls = "split_inclusive s" and ?a = "length (concat (take i (split_inclusive s)))"
  have d: "drop ?a s = concat (drop i ?ls)" using concat_cut(2) [of i ?ls] by simp
  have "?a \<le> length s" by (rule concat_take_le)
  then have v: "utf8_valid (concat (drop i ?ls))" using utf8_valid_cut [OF assms(1) _ line_start_boundary [OF assms(1), of i]] d by simp
  have e: "drop i ?ls = l # drop (Suc i) ?ls" using i by (simp add: Cons_nth_drop_Suc)
  show ?thesis
  proof (cases "Suc i < length ?ls")
    case True
    then obtain m where m: "l = m @ [LF]" using split_inclusive_ends [of i s] i by (metis append_butlast_last_id)
    have "utf8_valid m" using v e m prefix_valid [of m LF] by (simp add: is_ascii_def)
    then show ?thesis using m by (simp add: utf8_valid_append ascii_valid is_ascii_def)
  next
    case False
    then show ?thesis using v e by simp
  qed
qed

section \<open>The listing of the lines asked for\<close>

datatype item = Row nat string | Separator

definition item_text :: "nat \<Rightarrow> item \<Rightarrow> string" where
  "item_text width x = (case x of Row n l \<Rightarrow> row_text width n l | Separator \<Rightarrow> ''--'' @ [CHR 0x0A])"

definition item_cost :: "nat \<Rightarrow> item \<Rightarrow> nat" where
  "item_cost width x = (case x of Row n l \<Rightarrow> escaped_len (mask_spec (row_text width n l) 0) | Separator \<Rightarrow> 4)"

definition covers :: "read_range \<Rightarrow> nat \<Rightarrow> bool" where
  "covers r n \<longleftrightarrow> lr_start r \<le> n \<and> n \<le> lr_end r"

definition rows_in :: "read_range \<Rightarrow> (nat \<times> string) list \<Rightarrow> item list" where
  "rows_in r rest = map (\<lambda>(n, l). Row n l) (filter (\<lambda>(n, l). covers r n) rest)"

fun listing :: "read_range list \<Rightarrow> (nat \<times> string) list \<Rightarrow> item list" where
  "listing [] rest = []"
| "listing (r # rs) rest =
     (let after = dropWhile (\<lambda>x. fst x \<le> lr_end r) rest
      in rows_in r rest @ (if rs \<noteq> [] \<and> after \<noteq> [] then [Separator] else []) @ listing rs after)"

text \<open>The longest beginning within a number of lines and a number of bytes.\<close>

fun admitted :: "nat \<Rightarrow> nat \<Rightarrow> nat \<Rightarrow> item list \<Rightarrow> item list" where
  "admitted width room budget [] = []"
| "admitted width room budget (x # xs) =
     (if room = 0 \<or> budget < item_cost width x then []
      else x # admitted width (room - 1) (budget - item_cost width x) xs)"

definition item_numbers :: "item list \<Rightarrow> nat list" where
  "item_numbers xs = concat (map (\<lambda>x. case x of Row n l \<Rightarrow> [n] | Separator \<Rightarrow> []) xs)"

definition costs :: "nat \<Rightarrow> item list \<Rightarrow> nat" where
  "costs width xs = sum_list (map (item_cost width) xs)"

definition texts :: "nat \<Rightarrow> item list \<Rightarrow> string" where
  "texts width xs = concat (map (item_text width) xs)"

lemma item_simps [simp]:
  "item_text width (Row n l) = row_text width n l" "item_text width Separator = ''--'' @ [CHR 0x0A]"
  "item_cost width (Row n l) = escaped_len (mask_spec (row_text width n l) 0)" "item_cost width Separator = 4"
  by (simp_all add: item_text_def item_cost_def)

lemma item_lists [simp]:
  "item_numbers [] = []" "item_numbers (Row n l # xs) = n # item_numbers xs" "item_numbers (Separator # xs) = item_numbers xs"
  "item_numbers (xs @ ys) = item_numbers xs @ item_numbers ys"
  "costs width [] = 0" "costs width (x # xs) = item_cost width x + costs width xs" "costs width (xs @ ys) = costs width xs + costs width ys"
  "texts width [] = []" "texts width (x # xs) = item_text width x @ texts width xs" "texts width (xs @ ys) = texts width xs @ texts width ys"
  by (simp_all add: item_numbers_def costs_def texts_def)

lemma rows_in_simps [simp]:
  "rows_in r [] = []"
  "rows_in r ((n, l) # rest) = (if covers r n then Row n l # rows_in r rest else rows_in r rest)"
  by (simp_all add: rows_in_def)

lemma admitted_fits:
  "costs width (admitted width room budget xs) \<le> budget \<and> length (admitted width room budget xs) \<le> room"
proof (induction xs arbitrary: room budget)
  case (Cons x xs)
  let ?rest = "admitted width (room - 1) (budget - item_cost width x) xs"
  have "costs width ?rest \<le> budget - item_cost width x" "length ?rest \<le> room - 1" using Cons.IH by blast+
  then show ?case by (cases "room = 0 \<or> budget < item_cost width x"; simp; linarith)
qed simp

lemma admitted_prefix: "\<exists>ys. xs = admitted width room budget xs @ ys"
  by (induction xs arbitrary: room budget) auto

lemma admitted_whole: "length (admitted width room budget xs) \<le> length xs"
  "length (admitted width room budget xs) = length xs \<longleftrightarrow> admitted width room budget xs = xs"
proof -
  obtain ys where "xs = admitted width room budget xs @ ys" using admitted_prefix by blast
  then show "length (admitted width room budget xs) \<le> length xs"
    "length (admitted width room budget xs) = length xs \<longleftrightarrow> admitted width room budget xs = xs"
    by (metis length_append le_add1, metis append_eq_conv_conj append_self_conv take_all_iff order_refl)
qed

lemma admitted_append:
  "admitted width room budget (xs @ ys) =
     (if admitted width room budget xs = xs then xs @ admitted width (room - length xs) (budget - costs width xs) ys
      else admitted width room budget xs)"
  by (induction xs arbitrary: room budget) auto

section \<open>One range\<close>

definition window :: "nat option \<times> nat \<Rightarrow> nat list" where
  "window w = (case fst w of None \<Rightarrow> [] | Some f \<Rightarrow> [f..<Suc (snd w)])"

lemma read_rows_spec:
  assumes "\<forall>l \<in> set ls. utf8_valid l" and "rb_lines s \<le> room" "rb_escaped s \<le> budget" "\<not> rb_stopped s"
    and "\<And>f. fst shown = Some f \<Longrightarrow> f \<le> snd shown \<and> Suc (snd shown) = m \<and> lr_start r \<le> m"
  shows "\<exists>s' shown' rest'. read_rows width room budget r (enumerate m ls) shown s = Some (s', shown', rest')
    \<and> (let new = admitted width (room - rb_lines s) (budget - rb_escaped s) (rows_in r (enumerate m ls))
       in rb_body s' = rb_body s @ texts width new \<and> rb_escaped s' = rb_escaped s + costs width new \<and> rb_lines s' = rb_lines s + length new
         \<and> rb_shown s' = rb_shown s \<and> window shown' = window shown @ item_numbers new
         \<and> (\<forall>f. fst shown' = Some f \<longrightarrow> f \<le> snd shown') \<and> (rb_stopped s' \<longleftrightarrow> new \<noteq> rows_in r (enumerate m ls))
         \<and> (\<not> rb_stopped s' \<longrightarrow> rest' = dropWhile (\<lambda>x. fst x \<le> lr_end r) (enumerate m ls)))"
  using assms
proof (induction ls arbitrary: m shown s)
  case Nil
  then show ?case by (simp add: Let_def)
next
  case (Cons l ls)
  have none: "rows_in r (enumerate k xs) = []" if "lr_end r < k" for k xs
    using that by (induction xs arbitrary: k) (auto simp: covers_def)
  consider (past) "lr_end r < m" | (before) "m \<le> lr_end r" "m < lr_start r" | (hit) "covers r m"
    by (cases "lr_end r < m"; cases "m < lr_start r") (auto simp: covers_def not_less)
  then show ?case
  proof cases
    case past
    then show ?thesis using none [of m "l # ls"] Cons.prems by (simp add: Let_def)
  next
    case before
    then have "fst shown = None" using Cons.prems(5) by (cases "fst shown") auto
    then show ?thesis using before Cons.prems Cons.IH [of s shown "Suc m"] by (auto simp: Let_def covers_def)
  next
    case hit
    let ?row = "row_text width m l"
    have cost: "masked_escaped_len ?row = Some (item_cost width (Row m l))"
      using masked_escaped_len_correct row_valid Cons.prems(1) by simp
    show ?thesis
    proof (cases "room \<le> rb_lines s \<or> budget < rb_escaped s + item_cost width (Row m l)")
      case True
      then show ?thesis using hit cost Cons.prems(2-5) by (cases shown) (auto simp: Let_def covers_def)
    next
      case False
      let ?s = "s\<lparr>rb_identity := rb_identity s @ row_identity m l, rb_body := rb_body s @ ?row,
          rb_escaped := rb_escaped s + item_cost width (Row m l), rb_lines := rb_lines s + 1,
          rb_clipped := rb_clipped s + (if snd (clipped_line (chomp l)) then 1 else 0)\<rparr>"
      let ?shown = "(Some (case fst shown of Some f \<Rightarrow> f | None \<Rightarrow> m), m)"
      have w: "window ?shown = window shown @ [m]" using Cons.prems(5) by (cases "fst shown") (auto simp: window_def)
      have step: "read_rows width room budget r (enumerate m (l # ls)) shown s = read_rows width room budget r (enumerate (Suc m) ls) ?shown ?s"
        using False hit cost by (simp add: covers_def Let_def)
      have new: "admitted width (room - rb_lines s) (budget - rb_escaped s) (rows_in r (enumerate m (l # ls)))
        = Row m l # admitted width (room - rb_lines ?s) (budget - rb_escaped ?s) (rows_in r (enumerate (Suc m) ls))"
        using False hit by (auto simp: not_less le_diff_conv2)
      have dw: "dropWhile (\<lambda>x. fst x \<le> lr_end r) (enumerate m (l # ls)) = dropWhile (\<lambda>x. fst x \<le> lr_end r) (enumerate (Suc m) ls)"
        using hit by (simp add: covers_def)
      have IH: "\<exists>s' shown' rest'. read_rows width room budget r (enumerate (Suc m) ls) ?shown ?s = Some (s', shown', rest')
        \<and> (let new = admitted width (room - rb_lines ?s) (budget - rb_escaped ?s) (rows_in r (enumerate (Suc m) ls))
           in rb_body s' = rb_body ?s @ texts width new \<and> rb_escaped s' = rb_escaped ?s + costs width new \<and> rb_lines s' = rb_lines ?s + length new
             \<and> rb_shown s' = rb_shown ?s \<and> window shown' = window ?shown @ item_numbers new
             \<and> (\<forall>f. fst shown' = Some f \<longrightarrow> f \<le> snd shown') \<and> (rb_stopped s' \<longleftrightarrow> new \<noteq> rows_in r (enumerate (Suc m) ls))
             \<and> (\<not> rb_stopped s' \<longrightarrow> rest' = dropWhile (\<lambda>x. fst x \<le> lr_end r) (enumerate (Suc m) ls)))"
        by (rule Cons.IH) (use False hit Cons.prems in \<open>auto simp: covers_def split: option.splits\<close>)
      then obtain s' shown' rest' where ind: "read_rows width room budget r (enumerate (Suc m) ls) ?shown ?s = Some (s', shown', rest')"
        "let new = admitted width (room - rb_lines ?s) (budget - rb_escaped ?s) (rows_in r (enumerate (Suc m) ls))
           in rb_body s' = rb_body ?s @ texts width new \<and> rb_escaped s' = rb_escaped ?s + costs width new \<and> rb_lines s' = rb_lines ?s + length new
             \<and> rb_shown s' = rb_shown ?s \<and> window shown' = window ?shown @ item_numbers new
             \<and> (\<forall>f. fst shown' = Some f \<longrightarrow> f \<le> snd shown') \<and> (rb_stopped s' \<longleftrightarrow> new \<noteq> rows_in r (enumerate (Suc m) ls))
             \<and> (\<not> rb_stopped s' \<longrightarrow> rest' = dropWhile (\<lambda>x. fst x \<le> lr_end r) (enumerate (Suc m) ls))" by (elim exE conjE)
      show ?thesis unfolding step new dw
        by (rule exI [of _ s'], rule exI [of _ shown'], rule exI [of _ rest']) (use ind hit w in \<open>simp add: Let_def\<close>)
    qed
  qed
qed

section \<open>All ranges\<close>

definition shown_numbers :: "lines_state \<Rightarrow> nat list" where
  "shown_numbers s = concat (map (\<lambda>(f, l). [f..<Suc l]) (rb_shown s))"

lemma dropWhile_enumerate:
  obtains k where "dropWhile P (enumerate m ls) = enumerate (m + k) (drop k ls)"
proof (induction ls arbitrary: m thesis)
  case Nil
  then show ?case by simp
next
  case (Cons l ls)
  show ?case
  proof (cases "P (m, l)")
    case True
    obtain k where "dropWhile P (enumerate (Suc m) ls) = enumerate (Suc m + k) (drop k ls)" using Cons.IH .
    then show ?thesis using Cons.prems [of "Suc k"] True by simp
  next
    case False
    then show ?thesis using Cons.prems [of 0] by simp
  qed
qed

text \<open>What a read body holds once a part of the listing was added to it.\<close>

definition extended :: "nat \<Rightarrow> lines_state \<Rightarrow> item list \<Rightarrow> lines_state \<Rightarrow> bool" where
  "extended width s new s' \<longleftrightarrow>
     rb_body s' = rb_body s @ texts width new \<and> rb_escaped s' = rb_escaped s + costs width new \<and> rb_lines s' = rb_lines s + length new
     \<and> shown_numbers s' = shown_numbers s @ item_numbers new \<and> (\<forall>(f, l) \<in> set (rb_shown s'). f \<le> l)"

lemma extended_trans: "extended width s xs t \<Longrightarrow> extended width t ys u \<Longrightarrow> extended width s (xs @ ys) u"
  by (simp add: extended_def)

lemma read_range_spec:
  assumes "\<forall>l \<in> set ls. utf8_valid l" and "rb_lines s \<le> room" "rb_escaped s \<le> budget" "\<not> rb_stopped s"
    and "\<forall>(f, l) \<in> set (rb_shown s). f \<le> l"
  obtains s1 first fin rest' where "read_rows width room budget r (enumerate m ls) (None, 0) s = Some (s1, (first, fin), rest')"
    and "extended width s (admitted width (room - rb_lines s) (budget - rb_escaped s) (rows_in r (enumerate m ls)))
      (case first of Some f \<Rightarrow> s1\<lparr>rb_shown := rb_shown s1 @ [(f, fin)]\<rparr> | None \<Rightarrow> s1)"
    and "rb_stopped s1 \<longleftrightarrow> admitted width (room - rb_lines s) (budget - rb_escaped s) (rows_in r (enumerate m ls)) \<noteq> rows_in r (enumerate m ls)"
    and "\<not> rb_stopped s1 \<longrightarrow> rest' = dropWhile (\<lambda>x. fst x \<le> lr_end r) (enumerate m ls)"
proof -
  obtain s1 first fin rest' where "read_rows width room budget r (enumerate m ls) (None, 0) s = Some (s1, (first, fin), rest')"
    and "let new = admitted width (room - rb_lines s) (budget - rb_escaped s) (rows_in r (enumerate m ls))
       in rb_body s1 = rb_body s @ texts width new \<and> rb_escaped s1 = rb_escaped s + costs width new \<and> rb_lines s1 = rb_lines s + length new
         \<and> rb_shown s1 = rb_shown s \<and> window (first, fin) = window (None, 0) @ item_numbers new
         \<and> (\<forall>f. first = Some f \<longrightarrow> f \<le> fin) \<and> (rb_stopped s1 \<longleftrightarrow> new \<noteq> rows_in r (enumerate m ls))
         \<and> (\<not> rb_stopped s1 \<longrightarrow> rest' = dropWhile (\<lambda>x. fst x \<le> lr_end r) (enumerate m ls))"
    using read_rows_spec [OF assms(1-4), where shown = "(None, 0)" and m = m and r = r and width = width] by auto
  then show thesis
    using that assms(5) by (cases first) (auto simp: Let_def extended_def shown_numbers_def window_def)
qed

lemma read_windows_spec:
  assumes "\<forall>l \<in> set ls. utf8_valid l" and "rb_lines s \<le> room" "rb_escaped s \<le> budget" "\<not> rb_stopped s"
    and "\<forall>(f, l) \<in> set (rb_shown s). f \<le> l" and "\<forall>j. \<not> cancelled j"
  shows "\<exists>s'. read_windows cancelled width room budget i rs (enumerate m ls) s = Some (Ok s')
    \<and> extended width s (admitted width (room - rb_lines s) (budget - rb_escaped s) (listing rs (enumerate m ls))) s'
    \<and> (rb_stopped s' \<longleftrightarrow> admitted width (room - rb_lines s) (budget - rb_escaped s) (listing rs (enumerate m ls)) \<noteq> listing rs (enumerate m ls))"
  using assms
proof (induction rs arbitrary: i m ls s)
  case Nil
  then show ?case by (simp add: extended_def)
next
  case (Cons r rs)
  let ?rows = "rows_in r (enumerate m ls)" and ?after = "dropWhile (\<lambda>x. fst x \<le> lr_end r) (enumerate m ls)"
  let ?adm = "\<lambda>s. admitted width (room - rb_lines s) (budget - rb_escaped s)"
  obtain s1 first fin rest' where rows: "read_rows width room budget r (enumerate m ls) (None, 0) s = Some (s1, (first, fin), rest')"
    and ext: "extended width s (?adm s ?rows) (case first of Some f \<Rightarrow> s1\<lparr>rb_shown := rb_shown s1 @ [(f, fin)]\<rparr> | None \<Rightarrow> s1)"
    and stop: "rb_stopped s1 \<longleftrightarrow> ?adm s ?rows \<noteq> ?rows" and rest: "\<not> rb_stopped s1 \<longrightarrow> rest' = ?after"
    using read_range_spec [OF Cons.prems(1-5)] .
  define s2 where "s2 = (case first of Some f \<Rightarrow> s1\<lparr>rb_shown := rb_shown s1 @ [(f, fin)]\<rparr> | None \<Rightarrow> s1)"
  have st2: "rb_stopped s2 = rb_stopped s1" by (simp add: s2_def split: option.split)
  have ext2: "extended width s (?adm s ?rows) s2" using ext by (simp add: s2_def)
  show ?case
  proof (cases "rb_stopped s1")
    case True
    then have "?adm s (listing (r # rs) (enumerate m ls)) = ?adm s ?rows" "?adm s ?rows \<noteq> listing (r # rs) (enumerate m ls)"
      using stop admitted_prefix [of ?rows width "room - rb_lines s" "budget - rb_escaped s"] by (auto simp: Let_def admitted_append)
    then show ?thesis using True rows ext2 st2 Cons.prems(6) by (simp add: s2_def)
  next
    case False
    then have all: "?adm s ?rows = ?rows" and r: "rest' = ?after" using stop rest by blast+
    obtain k where k: "?after = enumerate (m + k) (drop k ls)" using dropWhile_enumerate .
    have ext3: "extended width s ?rows s2" using ext2 all by simp
    then have fits: "rb_lines s2 = rb_lines s + length ?rows" "rb_escaped s2 = rb_escaped s + costs width ?rows" by (simp_all add: extended_def)
    have "costs width ?rows \<le> budget - rb_escaped s \<and> length ?rows \<le> room - rb_lines s"
      using admitted_fits [where width = width and room = "room - rb_lines s" and budget = "budget - rb_escaped s" and xs = ?rows] all by simp
    then have le: "rb_lines s2 \<le> room" "rb_escaped s2 \<le> budget" using fits Cons.prems(2,3) by linarith+
    have ok: "\<forall>(f, l) \<in> set (rb_shown s2). f \<le> l" using ext3 by (simp add: extended_def)
    have valid: "\<forall>l \<in> set (drop k ls). utf8_valid l" using Cons.prems(1) by (meson in_set_dropD)
    have adm: "?adm s (?rows @ xs) = ?rows @ ?adm s2 xs" for xs using all fits by (simp add: admitted_append)
    show ?thesis
    proof (cases "rs \<noteq> [] \<and> ?after \<noteq> []")
      case sep: True
      then have lst: "listing (r # rs) (enumerate m ls) = ?rows @ Separator # listing rs ?after" by (simp add: Let_def)
      show ?thesis
      proof (cases "room \<le> rb_lines s2 \<or> budget < rb_escaped s2 + 4")
        case True
        then have "?adm s2 (Separator # listing rs ?after) = []" using le by auto
        then have "?adm s (listing (r # rs) (enumerate m ls)) = ?rows" unfolding lst adm by simp
        moreover have "read_windows cancelled width room budget i (r # rs) (enumerate m ls) s
            = Some (Ok (s2\<lparr>rb_stopped := True, rb_line_stopped := room \<le> rb_lines s2\<rparr>))"
          using rows True sep False Cons.prems(6) r st2 by (simp add: s2_def [symmetric] Let_def)
        ultimately show ?thesis using ext3 lst by (simp add: extended_def shown_numbers_def)
      next
        case room: False
        let ?s = "s2\<lparr>rb_body := rb_body s2 @ ''--'' @ [CHR 0x0A], rb_escaped := rb_escaped s2 + 4, rb_lines := rb_lines s2 + 1\<rparr>"
        have step: "read_windows cancelled width room budget i (r # rs) (enumerate m ls) s
            = read_windows cancelled width room budget (i + 1) rs (enumerate (m + k) (drop k ls)) ?s"
          using rows room sep False Cons.prems(6) r st2 k by (simp add: s2_def [symmetric] Let_def)
        have e: "extended width s2 [Separator] ?s" using ok by (simp add: extended_def shown_numbers_def)
        have a: "?adm s2 (Separator # listing rs ?after) = Separator # ?adm ?s (listing rs ?after)" using room by (auto simp: not_less le_diff_conv2)
        have pre: "rb_lines ?s \<le> room" "rb_escaped ?s \<le> budget" "\<not> rb_stopped ?s" "\<forall>(f, l) \<in> set (rb_shown ?s). f \<le> l"
          using room False st2 ok by simp_all
        obtain s' where s': "read_windows cancelled width room budget (i + 1) rs (enumerate (m + k) (drop k ls)) ?s = Some (Ok s')"
          "extended width ?s (?adm ?s (listing rs ?after)) s'" "rb_stopped s' \<longleftrightarrow> ?adm ?s (listing rs ?after) \<noteq> listing rs ?after"
          using Cons.IH [OF valid pre Cons.prems(6), where i = "i + 1" and m = "m + k"] unfolding k by (elim exE conjE)
        have "extended width s (?rows @ [Separator] @ ?adm ?s (listing rs ?after)) s'"
          using extended_trans [OF ext3 extended_trans [OF e s'(2)]] .
        then show ?thesis unfolding step lst adm a using s'(1,3) by simp
      qed
    next
      case no: False
      then have lst: "listing (r # rs) (enumerate m ls) = ?rows @ listing rs ?after" by (auto simp: Let_def)
      have st3: "\<not> rb_stopped s2" using False st2 by simp
      have step: "read_windows cancelled width room budget i (r # rs) (enumerate m ls) s
          = read_windows cancelled width room budget (i + 1) rs (enumerate (m + k) (drop k ls)) s2"
        using rows no False Cons.prems(6) r st2 k by (auto simp: s2_def [symmetric] Let_def)
      obtain s' where s': "read_windows cancelled width room budget (i + 1) rs (enumerate (m + k) (drop k ls)) s2 = Some (Ok s')"
        "extended width s2 (?adm s2 (listing rs ?after)) s'" "rb_stopped s' \<longleftrightarrow> ?adm s2 (listing rs ?after) \<noteq> listing rs ?after"
        using Cons.IH [OF valid le st3 ok Cons.prems(6), where i = "i + 1" and m = "m + k"] unfolding k by (elim exE conjE)
      have "extended width s (?rows @ ?adm s2 (listing rs ?after)) s'" using extended_trans [OF ext3 s'(2)] .
      then show ?thesis unfolding step lst adm using s'(1,3) by simp
    qed
  qed
qed

section \<open>The lines asked for\<close>

definition range_ok :: "read_range \<Rightarrow> bool" where
  "range_ok r \<longleftrightarrow> 1 \<le> lr_start r \<and> lr_start r \<le> MAX_READ_OFFSET \<and> lr_start r \<le> lr_end r \<and> lr_end r \<le> u64_max"

definition separated :: "read_range list \<Rightarrow> bool" where
  "separated rs \<longleftrightarrow> sorted_wrt (\<lambda>a b. lr_end a < lr_start b) rs"

lemma parse_range_ok: "parse_range t = Ok r \<Longrightarrow> range_ok r"
proof -
  have u: "parse_uint u64_max d = Some n \<Longrightarrow> n \<le> u64_max" for d n
    by (auto simp: parse_uint_def Let_def split: if_splits)
  have m: "n \<le> MAX_READ_OFFSET \<Longrightarrow> n \<le> u64_max" for n by (simp add: MAX_READ_OFFSET_def u64_max_def)
  assume "parse_range t = Ok r"
  then show ?thesis
    by (auto simp: parse_range_def range_ok_def Let_def u m split: option.splits if_splits prod.splits)
qed

lemma parse_all_ok: "parse_all ts = Ok rs \<Longrightarrow> list_all2 (\<lambda>t r. parse_range t = Ok r) ts rs"
  by (induction ts arbitrary: rs) (auto split: sum.splits)

text \<open>The accumulator holds merged ranges that start before all that are left.\<close>

lemma merge_ranges_spec:
  assumes "sorted_wrt (\<lambda>a b. lr_start a \<le> lr_start b) rs" and "separated (rev merged)"
    and "\<forall>r \<in> set rs. range_ok r" "\<forall>r \<in> set merged. range_ok r"
    and "\<And>l r. merged \<noteq> [] \<Longrightarrow> r \<in> set rs \<Longrightarrow> lr_start (hd merged) \<le> lr_start r"
  shows "separated (merge_ranges merged rs) \<and> (\<forall>r \<in> set (merge_ranges merged rs). range_ok r)
    \<and> (merged \<noteq> [] \<or> rs \<noteq> [] \<longrightarrow> merge_ranges merged rs \<noteq> [])
    \<and> (\<forall>n. (\<exists>r \<in> set (merge_ranges merged rs). covers r n) \<longleftrightarrow> (\<exists>r \<in> set merged \<union> set rs. covers r n))"
  using assms
proof (induction merged rs rule: merge_ranges.induct)
  case (1 merged)
  then show ?case by simp
next
  case (2 r rs)
  show ?case using "2.IH" "2.prems" by (simp add: separated_def)
next
  case (3 l merged r rs)
  show ?case
  proof (cases "lr_start r \<le> sat_add u64_max (lr_end l) 1")
    case True
    let ?l = "l\<lparr>lr_end := max (lr_end l) (lr_end r)\<rparr>"
    have ok: "range_ok l" "range_ok r" and start: "lr_start l \<le> lr_start r" using "3.prems"(3-5) by simp_all
    have touch: "lr_start r \<le> lr_end l + 1" using True by (simp add: sat_add_def)
    have cover: "covers ?l n \<longleftrightarrow> covers l n \<or> covers r n" for n
      using start touch ok by (auto simp: covers_def range_ok_def)
    have "separated (merge_ranges (?l # merged) rs) \<and> (\<forall>r \<in> set (merge_ranges (?l # merged) rs). range_ok r)
      \<and> (?l # merged \<noteq> [] \<or> rs \<noteq> [] \<longrightarrow> merge_ranges (?l # merged) rs \<noteq> [])
      \<and> (\<forall>n. (\<exists>r \<in> set (merge_ranges (?l # merged) rs). covers r n) \<longleftrightarrow> (\<exists>r \<in> set (?l # merged) \<union> set rs. covers r n))"
      by (rule "3.IH"(1) [OF True]) (use "3.prems" ok in \<open>auto simp: separated_def sorted_wrt_append range_ok_def max_def\<close>)
    then show ?thesis using True cover by auto
  next
    case False
    then have "lr_end l < lr_start r" using "3.prems"(3,4) by (auto simp: sat_add_def range_ok_def min_def split: if_splits)
    moreover have "\<forall>a \<in> set merged. lr_end a < lr_start l" using "3.prems"(2) by (simp add: separated_def sorted_wrt_append)
    ultimately have "separated (rev (r # l # merged))"
      using "3.prems"(2,4,5) by (fastforce simp: separated_def sorted_wrt_append range_ok_def)
    then have "separated (merge_ranges (r # l # merged) rs) \<and> (\<forall>r \<in> set (merge_ranges (r # l # merged) rs). range_ok r)
      \<and> (r # l # merged \<noteq> [] \<or> rs \<noteq> [] \<longrightarrow> merge_ranges (r # l # merged) rs \<noteq> [])
      \<and> (\<forall>n. (\<exists>q \<in> set (merge_ranges (r # l # merged) rs). covers q n) \<longleftrightarrow> (\<exists>q \<in> set (r # l # merged) \<union> set rs. covers q n))"
      by (intro "3.IH"(2) [OF False]) (use "3.prems" in auto)
    then show ?thesis using False by auto
  qed
qed

text \<open>The lines a call asks for, from its arguments.\<close>

definition asked_line :: "read_file_args \<Rightarrow> nat \<Rightarrow> bool" where
  "asked_line args n \<longleftrightarrow>
     (if rf_ranges args = [] then
        (let offset = (case rf_offset args of None \<Rightarrow> 1 | Some k \<Rightarrow> k)
         in offset \<le> n \<and> (\<forall>limit. rf_limit args = Some limit \<longrightarrow> n < offset + limit))
      else \<exists>t \<in> set (rf_ranges args). \<exists>r. parse_range t = Ok r \<and> covers r n)"

lemma parse_ranges_spec:
  assumes "parse_ranges args = Ok rs"
  shows "separated rs" and "\<forall>r \<in> set rs. range_ok r" and "rs \<noteq> []"
    and "n \<le> u64_max \<Longrightarrow> (\<exists>r \<in> set rs. covers r n) \<longleftrightarrow> asked_line args n"
proof -
  have "separated rs \<and> (\<forall>r \<in> set rs. range_ok r) \<and> rs \<noteq> []
    \<and> (\<forall>n \<le> u64_max. (\<exists>r \<in> set rs. covers r n) \<longleftrightarrow> asked_line args n)"
  proof (cases "rf_ranges args = []")
    case True
    then obtain r where r: "offset_range args = Ok r" "rs = [r]"
      using assms by (auto simp: parse_ranges_def split: if_splits sum.splits)
    show ?thesis
      using r True by (auto simp: offset_range_def separated_def range_ok_def covers_def asked_line_def Let_def sat_add_def MAX_READ_OFFSET_def
          MAX_READ_LINES_def u64_max_def split: if_splits option.splits)
  next
    case False
    then obtain qs where qs: "parse_all (rf_ranges args) = Ok qs" and rs: "rs = merge_ranges [] (sort_key lr_start qs)"
      using assms by (auto simp: parse_ranges_def Let_def split: if_splits sum.splits)
    have l2: "list_all2 (\<lambda>t r. parse_range t = Ok r) (rf_ranges args) qs" using parse_all_ok [OF qs] .
    then have ok: "\<forall>r \<in> set qs. range_ok r"
      by (induction rule: list_all2_induct) (auto dest: parse_range_ok)
    have "qs \<noteq> []" using l2 False by auto
    have "sorted_wrt (\<lambda>a b. lr_start a \<le> lr_start b) (sort_key lr_start qs)" using sorted_sort_key [of lr_start qs] by (simp add: sorted_wrt_map)
    then have "separated rs \<and> (\<forall>r \<in> set rs. range_ok r) \<and> (sort_key lr_start qs \<noteq> [] \<longrightarrow> rs \<noteq> [])
      \<and> (\<forall>n. (\<exists>r \<in> set rs. covers r n) \<longleftrightarrow> (\<exists>r \<in> set qs. covers r n))"
      using merge_ranges_spec [of "sort_key lr_start qs" "[]"] ok unfolding rs by (simp add: separated_def)
    moreover have "(\<exists>r \<in> set qs. covers r n) \<longleftrightarrow> asked_line args n" for n
    proof -
      have "(\<exists>r \<in> set qs. covers r n) \<longleftrightarrow> (\<exists>t \<in> set (rf_ranges args). \<exists>r. parse_range t = Ok r \<and> covers r n)"
        using l2 by (induction rule: list_all2_induct) auto
      then show ?thesis using False by (simp add: asked_line_def)
    qed
    moreover have "sort_key lr_start qs \<noteq> []" using \<open>qs \<noteq> []\<close> by (metis length_0_conv length_sort)
    ultimately show ?thesis by blast
  qed
  then show "separated rs" and "\<forall>r \<in> set rs. range_ok r" and "rs \<noteq> []"
    and "n \<le> u64_max \<Longrightarrow> (\<exists>r \<in> set rs. covers r n) \<longleftrightarrow> asked_line args n" by blast+
qed

section \<open>The listing has the lines asked for\<close>

lemma upt_split: "i \<le> j \<Longrightarrow> j \<le> k \<Longrightarrow> [i..<k] = [i..<j] @ [j..<k]"
  using upt_add_eq_append [of i j "k - j"] by simp

lemma rows_numbers: "item_numbers (rows_in r (enumerate m ls)) = filter (covers r) [m..<m + length ls]"
proof (induction ls arbitrary: m)
  case (Cons l ls)
  have "[m..<m + length (l # ls)] = m # [Suc m..<Suc m + length ls]" by (simp add: upt_conv_Cons del: upt_Suc)
  then show ?case using Cons.IH [of "Suc m"] by simp
qed simp

lemma dropWhile_le:
  "dropWhile (\<lambda>x. fst x \<le> e) (enumerate m ls) = enumerate (m + (Suc e - m)) (drop (Suc e - m) ls)"
proof (induction ls arbitrary: m)
  case (Cons l ls)
  show ?case
  proof (cases "m \<le> e")
    case True
    then have "Suc e - m = Suc (Suc e - Suc m)" by simp
    then show ?thesis using Cons.IH [of "Suc m"] True by simp
  qed simp
qed simp

lemma listing_numbers:
  "separated rs \<Longrightarrow> item_numbers (listing rs (enumerate m ls)) = filter (\<lambda>n. \<exists>r \<in> set rs. covers r n) [m..<m + length ls]"
proof (induction rs arbitrary: m ls)
  case (Cons r rs)
  let ?e = "lr_end r" and ?len = "length ls"
  define p where "p = min (m + ?len) (max m (Suc ?e))"
  have later: "?e < lr_start q" if "q \<in> set rs" for q using Cons.prems that by (simp add: separated_def)
  have split: "[m..<m + ?len] = [m..<p] @ [p..<m + ?len]"
    unfolding p_def by (rule upt_split) auto
  have none: "\<not> covers q x" if "q \<in> set rs" "x \<in> set [m..<p]" for q x
    using later [OF that(1)] that(2) by (auto simp: p_def covers_def)
  have "filter (\<lambda>n. \<exists>q \<in> set (r # rs). covers q n) [m..<p] = filter (covers r) [m..<p]"
    using none by (intro filter_cong refl) auto
  moreover have "filter (covers r) [p..<m + ?len] = []" by (auto simp: p_def covers_def filter_empty_conv)
  moreover have "filter (\<lambda>n. \<exists>q \<in> set (r # rs). covers q n) [p..<m + ?len] = filter (\<lambda>n. \<exists>q \<in> set rs. covers q n) [p..<m + ?len]"
    by (intro filter_cong refl) (auto simp: p_def covers_def)
  ultimately have "filter (\<lambda>n. \<exists>q \<in> set (r # rs). covers q n) [m..<m + ?len]
      = filter (covers r) [m..<m + ?len] @ filter (\<lambda>n. \<exists>q \<in> set rs. covers q n) [p..<m + ?len]"
    unfolding split by simp
  moreover have "[m + (Suc ?e - m)..<m + (Suc ?e - m) + (?len - (Suc ?e - m))] = [p..<m + ?len]"
    by (cases "Suc ?e - m \<le> ?len") (auto simp: p_def min_def max_def)
  ultimately show ?case
    using Cons.IH [of "m + (Suc ?e - m)" "drop (Suc ?e - m) ls"] Cons.prems
    by (simp add: Let_def rows_numbers dropWhile_le separated_def)
qed simp

lemma count_file_lines_eq: "count_file_lines s = length (split_inclusive s)"
proof (induction s)
  case (Cons c s)
  then show ?case
    by (cases s) (auto simp: count_file_lines_def ends_with_def strip_suffix_def Let_def split: list.splits if_splits)
qed (simp add: count_file_lines_def)

section \<open>The body of a read\<close>

lemma join_valid: "(\<And>x. x \<in> set xs \<Longrightarrow> utf8_valid (f x)) \<Longrightarrow> utf8_valid (join_windows f xs)"
proof (induction f xs rule: join_windows.induct)
  case (3 f x y xs)
  have "utf8_valid '',''" by (simp add: ascii_valid is_ascii_def)
  then show ?case using 3 by (simp add: utf8_valid_append del: append_Cons append_Nil)
qed simp_all

lemma header_bound_valid:
  assumes "utf8_valid (ld_path ld)" "utf8_valid short"
  shows "utf8_valid (header_bound ld short n rs)"
proof -
  have dash: "utf8_valid (nat_to_string k @ ''-'' @ nat_to_string k)" for k
    by (intro utf8_valid_append number_valid) (simp add: ascii_valid is_ascii_def)
  have j: "utf8_valid (join_windows (\<lambda>r. let l = nat_to_string (min (lr_end r) n) in l @ ''-'' @ l) rs)"
    by (rule join_valid) (simp only: Let_def dash)
  have lit: "list_all is_ascii s \<Longrightarrow> utf8_valid s" for s by (rule ascii_valid)
  show ?thesis
    unfolding header_bound_def Let_def Header_into_line_def Header_field_def Header_token_def Header_new_def option.case
    using assms j [unfolded Let_def] number_valid by (intro utf8_valid_append) (simp_all add: lit is_ascii_def)
qed

lemma body_room_total:
  assumes "utf8_valid (ld_path ld)" "utf8_valid short"
  shows "\<exists>x. body_room ld short n rs note_bytes = Some x"
  using masked_escaped_len_correct [OF header_bound_valid [OF assms]] by (simp add: body_room_def Let_def)

lemma shown_numbers_Nil: "\<forall>(f, l) \<in> set (rb_shown s). f \<le> l \<Longrightarrow> shown_numbers s = [] \<longleftrightarrow> rb_shown s = []"
  by (cases "rb_shown s") (auto simp: shown_numbers_def)

lemma shown_numbers_last:
  assumes "\<forall>(f, l) \<in> set (rb_shown s). f \<le> l" and "rb_shown s \<noteq> []"
  shows "snd (last (rb_shown s)) = last (shown_numbers s)"
proof -
  obtain f l where l: "last (rb_shown s) = (f, l)" by (cases "last (rb_shown s)")
  then have e: "rb_shown s = butlast (rb_shown s) @ [(f, l)]" using append_butlast_last_id [OF assms(2)] by simp
  have "f \<le> l" using assms last_in_set [OF assms(2)] l by (metis (mono_tags, lifting) case_prod_conv)
  have "shown_numbers s = concat (map (\<lambda>(f, l). [f..<Suc l]) (butlast (rb_shown s))) @ [f..<Suc l]"
    unfolding shown_numbers_def by (subst e) simp
  then have "last (shown_numbers s) = l" using \<open>f \<le> l\<close> by simp
  then show ?thesis using l by simp
qed

lemma lines_body_cases:
  fixes ld short rs note_bytes
  defines "n \<equiv> count_file_lines (ld_bytes ld)" and "all \<equiv> listing rs (enumerate 1 (split_inclusive (ld_bytes ld)))"
  assumes "utf8_valid (ld_bytes ld)" "utf8_valid (ld_path ld)" "utf8_valid short" and nc: "\<forall>j. \<not> cancelled j" and "rs \<noteq> []"
  obtains (out) "n < lr_start (hd rs)" "lines_body cancelled ld short n rs note_bytes (ld_bytes ld) = Some (Err LinesOutOfBounds)"
  | (no_room) "lr_start (hd rs) \<le> n" "body_room ld short n rs note_bytes = Some (Err ())"
      "lines_body cancelled ld short n rs note_bytes (ld_bytes ld) = Some (Err LinesNoRoom)"
  | (no_row) budget room where "lr_start (hd rs) \<le> n" "body_room ld short n rs note_bytes = Some (Ok (budget, room))"
      "lines_body cancelled ld short n rs note_bytes (ld_bytes ld) = Some (Err LinesNoRow)"
      "admitted (number_width n rs) room budget all \<noteq> all" "item_numbers (admitted (number_width n rs) room budget all) = []"
  | (shown) budget room s where "lr_start (hd rs) \<le> n" "body_room ld short n rs note_bytes = Some (Ok (budget, room))"
      "lines_body cancelled ld short n rs note_bytes (ld_bytes ld) = Some (Ok s)"
      "extended (number_width n rs) empty_body (admitted (number_width n rs) room budget all) s"
      "rb_stopped s \<longleftrightarrow> admitted (number_width n rs) room budget all \<noteq> all" "rb_stopped s \<longrightarrow> shown_numbers s \<noteq> []"
proof -
  obtain r rs' where rs: "rs = r # rs'" using assms(7) by (cases rs) auto
  obtain x where x: "body_room ld short n rs note_bytes = Some x" using body_room_total assms(4,5) by blast
  consider "n < lr_start (hd rs)" | "lr_start (hd rs) \<le> n" "x = Err ()" | budget room where "lr_start (hd rs) \<le> n" "x = Ok (budget, room)"
    by (cases x) force+
  then show thesis
  proof cases
    case 1
    then show thesis by (intro out) (simp_all add: lines_body_def rs)
  next
    case 2
    then show thesis using x by (intro no_room) (simp_all add: lines_body_def rs)
  next
    case (3 budget room)
    have e: "rb_lines empty_body = 0" "rb_escaped empty_body = 0" "\<not> rb_stopped empty_body" "rb_shown empty_body = []" by (simp_all add: empty_body_def)
    obtain s where s: "read_windows cancelled (number_width n rs) room budget 0 rs (enumerate 1 (split_inclusive (ld_bytes ld))) empty_body = Some (Ok s)"
      "extended (number_width n rs) empty_body (admitted (number_width n rs) room budget all) s"
      "rb_stopped s \<longleftrightarrow> admitted (number_width n rs) room budget all \<noteq> all"
      using read_windows_spec [of "split_inclusive (ld_bytes ld)" empty_body room budget cancelled "number_width n rs" 0 rs 1] e nc
        lines_valid [OF assms(3)] unfolding all_def by auto
    have body: "lines_body cancelled ld short n rs note_bytes (ld_bytes ld) = Some (if rb_stopped s \<and> rb_shown s = [] then Err LinesNoRow else Ok s)"
      using 3 x s(1) by (simp add: lines_body_def rs)
    have num: "shown_numbers s = item_numbers (admitted (number_width n rs) room budget all)"
      and wf: "\<forall>(f, l) \<in> set (rb_shown s). f \<le> l"
      using s(2) e by (simp_all add: extended_def shown_numbers_def)
    show thesis
    proof (cases "rb_stopped s \<and> rb_shown s = []")
      case True
      then show thesis using no_row [OF 3(1)] 3(2) x body s(3) num shown_numbers_Nil [OF wf] by auto
    next
      case False
      show thesis
      proof (rule shown [OF 3(1)])
        show "body_room ld short n rs note_bytes = Some (Ok (budget, room))" using x 3(2) by simp
        show "lines_body cancelled ld short n rs note_bytes (ld_bytes ld) = Some (Ok s)" using body False by auto
        show "rb_stopped s \<longrightarrow> shown_numbers s \<noteq> []" using False shown_numbers_Nil [OF wf] by blast
      qed (use s in simp_all)
    qed
  qed
qed

definition wanted_lines :: "read_file_args \<Rightarrow> nat \<Rightarrow> nat list" where
  "wanted_lines args n = filter (asked_line args) [1..<Suc n]"

lemma wanted_listing:
  assumes "parse_ranges args = Ok rs" and "length ls \<le> u64_max"
  shows "item_numbers (listing rs (enumerate 1 ls)) = wanted_lines args (length ls)"
proof -
  have "item_numbers (listing rs (enumerate 1 ls)) = filter (\<lambda>n. \<exists>r \<in> set rs. covers r n) [1..<Suc (length ls)]"
    using listing_numbers [OF parse_ranges_spec(1) [OF assms(1)], of 1 ls] by simp
  also have "\<dots> = wanted_lines args (length ls)"
    unfolding wanted_lines_def by (rule filter_cong [OF refl], rule parse_ranges_spec(4) [OF assms(1)]) (use assms(2) in auto)
  finally show ?thesis .
qed

lemma wanted_Nil:
  assumes "parse_ranges args = Ok rs" and "n \<le> u64_max"
  shows "wanted_lines args n = [] \<longleftrightarrow> n < lr_start (hd rs)"
proof -
  obtain r rs' where rs: "rs = r # rs'" using parse_ranges_spec(3) [OF assms(1)] by (cases rs) auto
  have ok: "range_ok q" if "q \<in> set rs" for q using parse_ranges_spec(2) [OF assms(1)] that by blast
  have first: "lr_start r \<le> lr_start q" if "q \<in> set rs" for q
    using parse_ranges_spec(1) [OF assms(1)] that ok [of r] by (auto simp: rs separated_def range_ok_def)
  have asked: "asked_line args k \<longleftrightarrow> (\<exists>q \<in> set rs. covers q k)" if "k \<le> n" for k
    using parse_ranges_spec(4) [OF assms(1)] that assms(2) by simp
  show ?thesis
  proof
    assume none: "wanted_lines args n = []"
    have "\<not> asked_line args (lr_start r)" if "lr_start r \<le> n"
    proof -
      have "lr_start r \<in> set [1..<Suc n]" using that ok [of r] by (auto simp: rs range_ok_def)
      then show ?thesis using none unfolding wanted_lines_def filter_empty_conv by blast
    qed
    then show "n < lr_start (hd rs)" using asked [of "lr_start r"] ok [of r] by (force simp: rs covers_def range_ok_def)
  next
    assume "n < lr_start (hd rs)"
    then show "wanted_lines args n = []"
      using first asked by (fastforce simp: wanted_lines_def filter_empty_conv rs covers_def)
  qed
qed

section \<open>Claims\<close>


section \<open>Reading on\<close>

definition open_range :: "nat \<Rightarrow> read_range" where
  "open_range offset = \<lparr>lr_start = offset, lr_end = u64_max\<rparr>"

text \<open>A sequence of reads, each from the offset the one before named, until none is named.\<close>

inductive reads_on :: "loaded_file \<Rightarrow> string \<Rightarrow> nat \<Rightarrow> nat \<Rightarrow> lines_state list \<Rightarrow> bool" for ld short note_bytes where
  reads_last: "lines_body (\<lambda>_. False) ld short (count_file_lines (ld_bytes ld)) [open_range k] note_bytes (ld_bytes ld) = Some (Ok s)
    \<Longrightarrow> continue_from True (count_file_lines (ld_bytes ld)) s = None \<Longrightarrow> reads_on ld short note_bytes k [s]"
| reads_more: "lines_body (\<lambda>_. False) ld short (count_file_lines (ld_bytes ld)) [open_range k] note_bytes (ld_bytes ld) = Some (Ok s)
    \<Longrightarrow> continue_from True (count_file_lines (ld_bytes ld)) s = Some j \<Longrightarrow> reads_on ld short note_bytes j ss
    \<Longrightarrow> reads_on ld short note_bytes k (s # ss)"

definition rows_from :: "nat \<Rightarrow> string list \<Rightarrow> item list" where
  "rows_from k ls = map (\<lambda>(n, l). Row n l) (drop (k - 1) (enumerate 1 ls))"

lemma rows_from_open:
  assumes "1 \<le> k" and "length ls \<le> u64_max"
  shows "rows_in (open_range k) (enumerate 1 ls) = rows_from k ls"
proof -
  have "filter (\<lambda>(n, l). covers (open_range k) n) (enumerate m xs) = drop (k - m) (enumerate m xs)" if "m + length xs \<le> Suc u64_max" for m xs
    using that
  proof (induction xs arbitrary: m)
    case (Cons x xs)
    then show ?case
    proof (cases "k \<le> m")
      case True
      then have "filter (\<lambda>(n, l). covers (open_range k) n) (enumerate (Suc m) xs) = enumerate (Suc m) xs" using Cons by simp
      then show ?thesis using True Cons.prems by (simp add: covers_def open_range_def)
    next
      case False
      then have "k - m = Suc (k - Suc m)" by simp
      then show ?thesis using False Cons by (simp add: covers_def open_range_def)
    qed
  qed simp
  from this [of 1 ls] show ?thesis using assms(2) by (simp add: rows_in_def rows_from_def)
qed

lemma listing_open: "1 \<le> k \<Longrightarrow> length ls \<le> u64_max \<Longrightarrow> listing [open_range k] (enumerate 1 ls) = rows_from k ls"
  using rows_from_open [of k ls] by (simp add: Let_def)

lemma rows_from_numbers: "item_numbers (take j (rows_from k ls)) = take j (drop (k - 1) [1..<Suc (length ls)])"
proof -
  have "item_numbers (map (\<lambda>(n, l). Row n l) xs) = map fst xs" for xs by (induction xs) auto
  then have "item_numbers (take j (rows_from k ls)) = map fst (take j (drop (k - 1) (enumerate 1 ls)))"
    unfolding rows_from_def take_map by simp
  also have "\<dots> = take j (drop (k - 1) (map fst (enumerate 1 ls)))" by (simp only: take_map drop_map)
  also have "map fst (enumerate 1 ls) = [1..<Suc (length ls)]" by (simp add: enumerate_eq_zip del: upt_Suc)
  finally show ?thesis .
qed

lemma rows_from_drop: "1 \<le> k \<Longrightarrow> drop j (rows_from k ls) = rows_from (k + j) ls"
  by (simp add: rows_from_def drop_map add.commute)

lemma open_room:
  "body_room ld short n [open_range k] note_bytes = body_room ld short n [open_range 1] note_bytes"
  "number_width n [open_range k] = number_width n [open_range 1]"
  by (simp_all add: body_room_def header_bound_def number_width_def open_range_def)

lemma room_pos: "body_room ld short n rs note_bytes = Some (Ok (budget, room)) \<Longrightarrow> 0 < room"
  by (auto simp: body_room_def Let_def split: if_splits)

section \<open>A row always fits\<close>

text \<open>Masking makes a text at most seven times as long, escapes included.\<close>

lemma detect_long:
  assumes "detect bytes at = Some h" and "hit_kind h \<noteq> UrlCredentials"
  shows "8 \<le> hit_end h - hit_start h"
proof -
  consider "detect_aws bytes at = Some h" | "detect_github bytes at = Some h" | "detect_api_key bytes at = Some h" | "detect_slack bytes at = Some h"
    | "detect_bearer bytes at = Some h" | "detect_credential bytes at = Some h" | "detect_url bytes at = Some h"
    using assms(1) by (auto simp: detect_def Let_def split: if_splits)
  then show ?thesis
  proof cases
    case 6
    then show ?thesis by (auto simp: detect_credential_def Let_def split: if_splits)
  next
    case 7
    then show ?thesis using assms(2) by (auto simp: detect_url_def Let_def split: if_splits option.splits)
  qed (auto simp: detect_aws_def detect_github_def detect_api_key_def detect_slack_def detect_bearer_def Let_def split: if_splits option.splits)
qed

lemma detect_url_at:
  assumes "detect bytes at = Some h" and "hit_kind h = UrlCredentials"
  shows "hit_start h = at + 3" and "starts_with (drop at bytes) ''://''"
proof -
  have "detect_url bytes at = Some h \<and> starts_with (drop at bytes) ''://''"
    using assms by (auto simp: detect_def detect_aws_def detect_github_def detect_api_key_def detect_slack_def detect_bearer_def detect_credential_def
        Let_def split: if_splits option.splits)
  then show "hit_start h = at + 3" "starts_with (drop at bytes) ''://''"
    by (auto simp: detect_url_def Let_def split: if_splits option.splits)
qed

lemma secret_cost:
  assumes "first_secret s c c = Some h"
  shows "escaped_len (drop c (take (hit_start h) s)) + escaped_len (placeholder h) \<le> 7 * (hit_end h - c)"
proof -
  obtain j where j: "c \<le> j" "j < length s" "detect s j = Some h" and c: "c \<le> hit_start h" using first_secret_Some [OF assms] by blast
  have ok: "hit_start h < hit_end h" "hit_end h \<le> length s" using next_hit_advances [of s c h] assms by (simp_all add: next_hit_spec)
  show ?thesis
  proof (cases "hit_kind h = UrlCredentials")
    case True
    note at = detect_url_at [OF j(3) True]
    have u: "take 3 (drop j s) = ''://''" using at(2) by (simp add: starts_with_def numeral_eq_Suc)
    have "drop c (take (hit_start h) s) = drop c (take j s) @ take 3 (drop j s)" using at(1) j(1,2) by (simp add: take_add)
    then have "escaped_len (drop c (take (hit_start h) s)) = escaped_len (drop c (take j s)) + 3"
      using u by (simp add: escaped_byte_len_def Let_def)
    moreover have "escaped_len (drop c (take j s)) \<le> 6 * (j - c)" using escaped_len_bounds(2) [of "drop c (take j s)"] j(2) by simp
    moreover have "escaped_len (placeholder h) = 24" using True by (simp add: escaped_placeholder)
    ultimately show ?thesis using at(1) ok j(1) by simp
  next
    case False
    have "escaped_len (drop c (take (hit_start h) s)) \<le> 6 * (hit_start h - c)"
      using escaped_len_bounds(2) [of "drop c (take (hit_start h) s)"] ok by simp
    moreover have "escaped_len (placeholder h) \<le> 24" by (cases "hit_kind h") (simp_all add: escaped_placeholder)
    ultimately show ?thesis using detect_long [OF j(3) False] c ok by simp
  qed
qed

lemma mask_spec_bound: "c \<le> length s \<Longrightarrow> escaped_len (mask_spec s c) \<le> 7 * (length s - c)"
proof (induction s c rule: mask_spec.induct)
  case (1 s c)
  show ?case
  proof (cases "first_secret s c c")
    case None
    then show ?thesis using escaped_len_bounds(2) [of "drop c s"] by (simp add: mask_spec.simps [of s c])
  next
    case (Some h)
    have ok: "c \<le> hit_start h" "hit_start h < hit_end h" "hit_end h \<le> length s" using next_hit_advances [of s c h] Some by (simp_all add: next_hit_spec)
    have "escaped_len (mask_spec s (hit_end h)) \<le> 7 * (length s - hit_end h)" using "1.IH" [OF Some ok(3)] .
    then show ?thesis using secret_cost [OF Some] ok Some by (simp add: mask_spec.simps [of s c])
  qed
qed

lemma clipped_length:
  assumes "length l < 10 ^ 10"
  shows "length (fst (clipped_line l)) \<le> 2015"
proof (cases "push_line [] l MAX_LINE_BYTES u64_max")
  case (Some x)
  obtain content newline where split: "(case strip_suffix l [CHR 0x0A] of Some c \<Rightarrow> (c, [CHR 0x0A]) | None \<Rightarrow> (l, [])) = (content, newline)"
    by (metis surj_pair)
  then have nl: "length newline \<le> 1" "length content \<le> length l" "length l = length content + length newline"
    by (auto simp: strip_suffix_Some_iff split: option.splits)
  define scan where "scan = clip_scan (u64_max - CLIP_SUFFIX_RESERVE_BYTES) 0 0 (take MAX_LINE_BYTES content)"
  have "scan \<le> length (take MAX_LINE_BYTES content)"
    using clip_scan_fits [of 0 "u64_max - CLIP_SUFFIX_RESERVE_BYTES" 0 "take MAX_LINE_BYTES content"]
    unfolding scan_def [symmetric] add_0 diff_zero by blast
  then have fin: "char_floor content scan \<le> 2000" using char_floor_le [of content scan] by (simp add: MAX_LINE_BYTES_def)
  have "length (nat_to_string (length content - char_floor content scan)) \<le> 10"
    by (rule length_nat_to_string) (use assms nl in simp_all)
  then show ?thesis
    using Some split fin nl by (auto simp: clipped_line_def push_line_def Let_def scan_def MAX_LINE_BYTES_def ELLIPSIS_def split: if_splits)
qed (simp add: clipped_line_def)

lemma row_cost:
  assumes "length l < 10 ^ 10" and "width \<le> 6" and "n < 10 ^ 6"
  shows "item_cost width (Row n l) \<le> 14161"
proof -
  have "length (chomp l) \<le> length l" by (auto simp: chomp_def strip_suffix_Some_iff split: option.splits)
  then have "length (fst (clipped_line (chomp l))) \<le> 2015" using clipped_length assms(1) by (meson le_less_trans)
  moreover have "length (nat_to_string n) \<le> 6" using length_nat_to_string [of n 6] assms(3) by simp
  ultimately have "length (row_text width n l) \<le> 2023" using assms(2) by (simp add: row_text_def pad_left_def)
  then show ?thesis using mask_spec_bound [of 0 "row_text width n l"] by simp
qed

lemma open_width: "n < 10 ^ 6 \<Longrightarrow> number_width n [open_range 1] \<le> 6"
  unfolding number_width_def by (rule length_nat_to_string) (simp_all add: open_range_def)

lemma open_header_length:
  assumes "n < 10 ^ 6" and "length short \<le> 12" and "length (ld_path ld) \<le> 2048"
  shows "length (header_bound ld short n [open_range 1]) \<le> 2168"
proof -
  have num: "length (nat_to_string k) \<le> 6" if "k < 10 ^ 6" for k using length_nat_to_string [of k 6] that by simp
  have "min u64_max n = n" using assms(1) by (simp add: u64_max_def)
  then have "length (nat_to_string (min (lr_end (open_range 1)) n)) \<le> 6" using num assms(1) by (simp add: open_range_def)
  moreover have "length (nat_to_string (max_lines READ_BOUNDS)) \<le> 4"
    by (rule length_nat_to_string) (simp_all add: READ_BOUNDS_def Bounds_new_def)
  moreover have "length (nat_to_string MAX_READ_SCAN_BYTES) \<le> 7" by (rule length_nat_to_string) (simp_all add: MAX_READ_SCAN_BYTES_def)
  ultimately show ?thesis
    using num [OF assms(1)] assms(2,3)
    by (simp add: header_bound_def Let_def Header_into_line_def Header_field_def Header_token_def Header_new_def)
qed

lemma read_limits: "max_bytes READ_BOUNDS = 32768" "max_lines READ_BOUNDS = 4000"
  by (simp_all add: READ_BOUNDS_def Bounds_new_def MAX_MODEL_TEXT_BYTES_def MIN_MODEL_TEXT_BYTES_def MAX_MODEL_TEXT_LINES_def)

lemma open_budget:
  assumes "n < 10 ^ 6" and "utf8_valid short" "length short \<le> 12" and "utf8_valid (ld_path ld)" "length (ld_path ld) \<le> 2048" and "note_bytes \<le> 1024"
  obtains budget room where "body_room ld short n [open_range 1] note_bytes = Some (Ok (budget, room))" and "14161 \<le> budget"
proof -
  let ?h = "header_bound ld short n [open_range 1]"
  have len: "length ?h \<le> 2168" using open_header_length assms by blast
  have cost: "masked_escaped_len ?h = Some (escaped_len (mask_spec ?h 0))"
    using masked_escaped_len_correct [OF header_bound_valid] assms(2,4) by blast
  have small: "escaped_len (mask_spec ?h 0) \<le> 15176" using mask_spec_bound [of 0 ?h] len by simp
  have lines: "length (str_lines ?h) \<le> 2168" using length_split_inclusive [of ?h] len by (simp add: str_lines_def)
  define row where "row = (if 0 < note_bytes then 1 else 0 :: nat)"
  define used where "used = max (escaped_len (mask_spec ?h 0) + note_bytes + row) 256"
  have u: "used \<le> 16201" "row \<le> 1" using small assms(6) by (simp_all add: used_def row_def)
  have "body_room ld short n [open_range 1] note_bytes = Some (Ok (32768 - used - 224, 4000 - (length (str_lines ?h) + row) - 1))"
    using u lines
    unfolding body_room_def Let_def cost option.map read_limits MARKER_RESERVE_BYTES_def row_def [symmetric] used_def [symmetric] by simp
  then show thesis using that u by simp
qed

definition rows_fit :: "loaded_file \<Rightarrow> nat \<Rightarrow> bool" where
  "rows_fit ld budget \<longleftrightarrow>
     (\<forall>x \<in> set (rows_from 1 (split_inclusive (ld_bytes ld))).
        item_cost (number_width (count_file_lines (ld_bytes ld)) [open_range 1]) x \<le> budget)"

lemma rows_always_fit:
  assumes "length (ld_bytes ld) \<le> MAX_READ_SCAN_BYTES" and "count_file_lines (ld_bytes ld) \<le> MAX_READ_OFFSET" and "14161 \<le> budget"
  shows "rows_fit ld budget"
proof -
  let ?n = "count_file_lines (ld_bytes ld)" and ?ls = "split_inclusive (ld_bytes ld)"
  have "item_cost (number_width ?n [open_range 1]) (Row k l) \<le> 14161" if "(k, l) \<in> set (enumerate 1 ?ls)" for k l
  proof (rule row_cost)
    have "length l \<le> length (concat ?ls)" using that by (intro length_in_concat) (auto simp: enumerate_eq_zip dest: set_zip_rightD)
    then show "length l < 10 ^ 10" using assms(1) by (simp add: MAX_READ_SCAN_BYTES_def)
    show "number_width ?n [open_range 1] \<le> 6" by (rule open_width) (use assms(2) in \<open>simp add: MAX_READ_OFFSET_def\<close>)
    show "k < 10 ^ 6" using that assms(2) by (auto simp: enumerate_eq_zip count_file_lines_eq MAX_READ_OFFSET_def dest!: set_zip_leftD)
  qed
  then show ?thesis using assms(3) by (force simp: rows_fit_def rows_from_def)
qed

lemma open_read:
  fixes ld short note_bytes budget room k
  defines "n \<equiv> count_file_lines (ld_bytes ld)" and "rows \<equiv> rows_from k (split_inclusive (ld_bytes ld))"
    and "width \<equiv> number_width (count_file_lines (ld_bytes ld)) [open_range 1]"
  assumes "utf8_valid (ld_bytes ld)" "utf8_valid (ld_path ld)" "utf8_valid short" and k: "1 \<le> k" "k \<le> n" and n: "n \<le> MAX_READ_OFFSET"
    and room: "body_room ld short n [open_range 1] note_bytes = Some (Ok (budget, room))" and fit: "rows_fit ld budget"
  obtains s j where "lines_body (\<lambda>_. False) ld short n [open_range k] note_bytes (ld_bytes ld) = Some (Ok s)" and "1 \<le> j" "k + j \<le> Suc n"
    and "rb_body s = texts width (take j rows)" "shown_numbers s = [k..<k + j]"
    and "continue_from True n s = (if k + j \<le> n then Some (k + j) else None)"
proof -
  let ?ls = "split_inclusive (ld_bytes ld)"
  have len: "length ?ls = n" by (simp add: n_def count_file_lines_eq)
  have big: "length ?ls \<le> u64_max" using n len by (simp add: MAX_READ_OFFSET_def u64_max_def)
  have rlen: "length rows = Suc n - k" using k len by (simp add: rows_def rows_from_def)
  have all: "listing [open_range k] (enumerate 1 ?ls) = rows" using listing_open [OF k(1) big] by (simp add: rows_def)
  define new where "new = admitted width room budget rows"
  obtain x xs where x: "rows = x # xs" using rlen k by (cases rows) auto
  have "x \<in> set (drop (k - 1) (rows_from 1 ?ls))" using rows_from_drop [of 1 "k - 1" ?ls] k(1) x by (simp add: rows_def)
  then have "item_cost width x \<le> budget" using fit unfolding rows_fit_def width_def by (meson in_set_dropD)
  then have ne: "new \<noteq> []" using room_pos [OF room] by (simp add: new_def x)
  define j where "j = length new"
  have new: "new = take j rows" using admitted_prefix [of rows width room budget] by (metis append_eq_conv_conj j_def new_def)
  have j: "1 \<le> j" "k + j \<le> Suc n" using ne admitted_whole(1) [of width room budget rows] rlen k by (auto simp: j_def new_def Suc_le_eq)
  have nums: "item_numbers new = [k..<k + j]"
    unfolding new rows_def rows_from_numbers len using j k by (simp add: drop_upt take_upt del: upt_Suc)
  have b: "body_room ld short n [open_range k] note_bytes = Some (Ok (budget, room))" using open_room(1) room by (rule trans)
  have w: "number_width n [open_range k] = width" unfolding width_def n_def by (rule open_room(2))
  have pre: "\<forall>j :: nat. \<not> False" "[open_range k] \<noteq> []" by simp_all
  from assms(4-6) pre show thesis
  proof (cases rule: lines_body_cases [where rs = "[open_range k]" and note_bytes = note_bytes and cancelled = "\<lambda>_. False"])
    case out
    then show thesis using k by (simp add: n_def open_range_def)
  next
    case no_room
    then show thesis using b by (simp add: n_def)
  next
    case (no_row budget' room')
    moreover have "item_numbers new \<noteq> []" using nums j by simp
    ultimately show thesis using b unfolding n_def [symmetric] all w by (simp add: new_def)
  next
    case (shown budget' room' s)
    have eq: "budget' = budget" "room' = room" using shown(2) b by (simp_all add: n_def)
    have ext: "extended width empty_body new s" and stop: "rb_stopped s \<longleftrightarrow> new \<noteq> rows"
      using shown(4,5) unfolding n_def [symmetric] all w eq by (simp_all add: new_def)
    have body: "rb_body s = texts width new" and nums': "shown_numbers s = [k..<k + j]" and wf: "\<forall>(f, l) \<in> set (rb_shown s). f \<le> l"
      using ext nums by (simp_all add: extended_def empty_body_def shown_numbers_def)
    have some: "rb_shown s \<noteq> []" using shown_numbers_Nil [OF wf] nums' j by auto
    have last: "snd (last (rb_shown s)) = k + j - 1" using shown_numbers_last [OF wf some] nums' j by (cases j) auto
    have whole: "new = rows \<longleftrightarrow> k + j = Suc n" using new rlen j k by (cases "new = rows") (auto simp: j_def)
    have "continue_from True n s = (if k + j \<le> n then Some (k + j) else None)"
      using stop whole some last j n by (auto simp: continue_from_def more_lines_def next_offset_def)
    then show thesis using that [OF _ j] shown(3) body nums' new by (simp add: n_def)
  qed
qed


section \<open>Examples\<close>

definition demo_file :: loaded_file where
  "demo_file = \<lparr>ld_path = ''a.rs'', ld_bytes = ''use b;'' @ [CHR 0x0A] @ ''fn c'' @ [CHR 0x0A], ld_size = 12, ld_hash = None, ld_perms = ''644''\<rparr>"

definition demo_args :: read_file_args where
  "demo_args = \<lparr>rf_path = ''a.rs'', rf_ranges = [''2'', ''1-''], rf_offset = None, rf_limit = None, rf_mode = LinesMode, rf_if_changed_since = None\<rparr>"

lemma demo_ranges: "parse_ranges demo_args = Ok [open_range 1]"
  by (simp add: demo_args_def parse_ranges_def parse_range_def parse_uint_def digits_value_def digit_value_def is_ascii_digit_def
      MAX_RANGES_def MAX_READ_OFFSET_def MAX_READ_LINES_def u64_max_def open_range_def sat_add_def requested_lines_def Let_def)

lemma demo_lines: "count_file_lines (ld_bytes demo_file) = 2"
  by (simp add: demo_file_def count_file_lines_eq)

lemma demo_texts: "utf8_valid (ld_bytes demo_file)" "utf8_valid (ld_path demo_file)" "utf8_valid ''-''"
  by (simp_all add: demo_file_def ascii_valid is_ascii_def)



end
