(* ===== verification/Write_File.thy ===== *)
theory Write_File
  imports Read_File
begin

text \<open>
  The tool \<^verbatim>\<open>write_file\<close> (\<^verbatim>\<open>tools/write.rs\<close>): where a file that may not exist yet goes, which content may be overwritten, and
  the replacement. What the workspace and the system answer is data, by the number of the call where one is repeated.
  The value of a call is its output, what it did to the directory, and the hashes it recorded. \<open>edit_output\<close> of
  \<open>Edit_File\<close> is the output of a tool.
\<close>

section \<open>Where a file goes\<close>

definition MAX_CREATED_PARENTS :: nat where "MAX_CREATED_PARENTS = 8"
definition HINT_MAX_LINES :: nat where "HINT_MAX_LINES = 4000"
definition HINT_SHARED_PERCENT :: nat where "HINT_SHARED_PERCENT = 80"

record write_file_args =
  wa_path :: string
  wa_content :: string
  wa_create_only :: bool
  wa_if_hash :: "string option"

text \<open>\<open>Path::parent\<close>: the shortest beginning of the path with all components but the last. \<open>PathBuf::push\<close> of a relative path.\<close>

definition path_parent :: "string \<Rightarrow> string option" where
  "path_parent p =
     (if components p = [] \<or> last (components p) = RootDir then None
      else map_option (\<lambda>k. take k p) (find (\<lambda>k. components (take k p) = butlast (components p)) [0..<length p]))"

definition path_push :: "string \<Rightarrow> string \<Rightarrow> string" where
  "path_push p n = (if p = [] then n else if last p = CHR ''/'' then p @ n else p @ ''/'' @ n)"

lemma path_parent_shorter: "path_parent p = Some q \<Longrightarrow> length q < length p"
  by (auto simp: path_parent_def find_Some_iff split: if_splits)

text \<open>The nearest ancestor that exists, and the names of the directories that are missing below it, the deepest first. The
  error of the path as a whole is reported where an ancestor has no name.\<close>

function find_existing ::
  "(nat \<Rightarrow> string \<Rightarrow> (string, string) result) \<Rightarrow> (string \<Rightarrow> bool) \<Rightarrow> string \<Rightarrow> string option \<Rightarrow> string list \<Rightarrow> (string, string \<times> string list) result" where
  "find_existing canonicalize is_dir resolve_error ancestor missing =
     (case ancestor of
        None \<Rightarrow> Ok ([], missing)
      | Some parent \<Rightarrow>
          if parent = [] then Ok ([], missing)
          else (case contained_path (canonicalize (length missing + 1)) parent of
                  Inr resolved \<Rightarrow>
                    if is_dir resolved then Ok (resolved, missing) else Err ''not_a_directory: a parent path is not a directory''
                | Inl _ \<Rightarrow>
                    (case file_name parent of
                       None \<Rightarrow> Err resolve_error
                     | Some n \<Rightarrow>
                         if MAX_CREATED_PARENTS < length missing + 1
                         then Err (''too_deep: at most '' @ nat_to_string MAX_CREATED_PARENTS @ '' missing parent directories are created'')
                         else find_existing canonicalize is_dir resolve_error (path_parent parent) (missing @ [n]))))"
  by pat_completeness auto
termination
proof (relation "measure (\<lambda>(c, d, e, a, m). case a of None \<Rightarrow> 0 | Some p \<Rightarrow> length p)", goal_cases)
  case (2 c d e a m parent)
  then show ?case by (cases "path_parent parent") (auto dest: path_parent_shorter)
qed simp

declare find_existing.simps [simp del]

definition resolve_write_path :: "(nat \<Rightarrow> string \<Rightarrow> (string, string) result) \<Rightarrow> (string \<Rightarrow> bool) \<Rightarrow> string \<Rightarrow> (string, string) result" where
  "resolve_write_path canonicalize is_dir requested =
     (case contained_path (canonicalize 0) requested of
        Inr path \<Rightarrow> Ok path
      | Inl e \<Rightarrow>
          (let resolve_error = path_error requested e
           in if requested = [] \<or> is_absolute requested then Err resolve_error
              else if ParentDir \<in> set (components requested) then Err ''path_escapes_workspace''
              else (case file_name requested of
                      None \<Rightarrow> Err resolve_error
                    | Some n \<Rightarrow>
                        (case find_existing canonicalize is_dir resolve_error (path_parent requested) [] of
                           Inl e' \<Rightarrow> Err e'
                         | Inr (existing, missing) \<Rightarrow>
                             (let parent = foldl path_push existing (rev missing)
                              in Ok (if parent = [] \<or> components parent = [CurDir] then n else path_push parent n))))))"

section \<open>The tool\<close>

definition shares_most_lines :: "string \<Rightarrow> string \<Rightarrow> bool" where
  "shares_most_lines before after =
     (let a = str_lines before; b = str_lines after
      in if length a < 4 \<or> HINT_MAX_LINES < length a \<or> HINT_MAX_LINES < length b then False
         else max (length a) (length b) * HINT_SHARED_PERCENT \<le> lcs_len a b * 100)"

text \<open>The metadata of the target without following a link: whether it is missing and the error, or whether it is a file and a link.\<close>

record ('t, 'p) write_env =
  we_sha256 :: "string \<Rightarrow> byte list"
  we_lossy :: "string \<Rightarrow> string"
  we_cancelled :: bool
  we_canonicalize :: "nat \<Rightarrow> string \<Rightarrow> (string, string) result"
  we_is_dir :: "string \<Rightarrow> bool"
  we_capture :: "string option"
  we_write_target :: "string \<Rightarrow> (string, 't) result"
  we_lstat :: "'t \<Rightarrow> (bool \<times> string, bool \<times> bool) result"
  we_open :: "'t \<Rightarrow> 'p open_answer"
  we_replace :: "'t \<Rightarrow> 'p replace_answers"

text \<open>Whether the content of an existing file is known: by the hash the call names, or by what was read in the session.\<close>

definition check_known :: "string \<Rightarrow> string option \<Rightarrow> string option \<Rightarrow> string \<Rightarrow> string option" where
  "check_known path if_hash recorded current_hash =
     (case (if_hash, recorded) of
        (Some h, _) \<Rightarrow>
          if h \<noteq> take 12 current_hash then Some (''stale_file: '' @ path @ '' is not h:'' @ h @ '' now; read_file it again'') else None
      | (None, Some r) \<Rightarrow>
          if r \<noteq> current_hash then Some (''stale_file: '' @ path @ '' changed since it was last read in this session; read it again and retry'')
          else None
      | (None, None) \<Rightarrow> Some (''not_read: '' @ path @ '' already exists but has not been read in this session; call read_file on it first (or pass if_hash from its header)''))"

text \<open>The replacement or creation of the target: the content before, if there was one.\<close>

definition write_target_file ::
  "('t, 'p) write_env \<Rightarrow> file_state \<Rightarrow> write_file_args \<Rightarrow> string option \<Rightarrow> string \<Rightarrow> 't \<Rightarrow> (string, string option) result \<times> 'p fs_action list" where
  "write_target_file env files args if_hash key target =
     (case we_lstat env target of
        Inr (is_file, is_symlink) \<Rightarrow>
          if is_file then
            (if wa_create_only args then (Err (''exists: '' @ wa_path args @ '' already exists''), [])
             else (case read_editable (we_open env target) of
                     Inl e \<Rightarrow> (Err e, [])
                   | Inr now \<Rightarrow>
                       (case check_known (wa_path args) if_hash (recorded_hash files key) (content_hash (we_sha256 env) (ef_bytes now)) of
                          Some e \<Rightarrow> (Err e, [])
                        | None \<Rightarrow>
                            (case apply_atomically (we_replace env target) (wa_content args) (Some (ef_bytes now, ef_permissions now))
                                    (Some (ef_permissions now)) of
                               (Inl e, acts) \<Rightarrow> (Err (write_error_text e), acts)
                             | (Inr _, acts) \<Rightarrow> (Ok (Some (ef_bytes now)), acts)))))
          else if is_symlink then (Err ''not_a_file: path is a symlink; address its target directly'', [])
          else (Err ''not_a_file: path is not a regular file'', [])
      | Inl (missing, e) \<Rightarrow>
          if missing then
            (case apply_atomically (we_replace env target) (wa_content args) None None of
               (Inl e', acts) \<Rightarrow> (Err (write_error_text e'), acts)
             | (Inr _, acts) \<Rightarrow> (Ok None, acts))
          else (Err (''could not inspect path: '' @ e), []))"

definition write_report :: "('t, 'p) write_env \<Rightarrow> string \<Rightarrow> string \<Rightarrow> string option \<Rightarrow> edit_output" where
  "write_report env key content before =
     (let hash = content_hash (we_sha256 env) content;
          before_text = (case before of Some bytes \<Rightarrow> if utf8_valid bytes then Some bytes else None | None \<Rightarrow> None);
          h1 = Header_token (Header_new ''write'' (Some key)) (if before = None then ''created'' else ''replaced'');
          h2 = Header_field (Header_field h1 ''bytes'' (nat_to_string (length content))) ''lines'' (nat_to_string (length (str_lines content)));
          h3 = Header_token h2 (''h:'' @ take 12 hash);
          h4 = (case before_text of
                  Some b \<Rightarrow> if shares_most_lines b content then Header_field h3 ''hint'' ''use_edit_file'' else h3
                | None \<Rightarrow> h3)
      in EditSuccess (Header_into_line h4) [(key, hash)] key
           (unified_diff [] key (case before_text of Some b \<Rightarrow> b | None \<Rightarrow> []) content MAX_DIFF_BYTES))"

definition write_file ::
  "('t, 'p) write_env \<Rightarrow> file_state \<Rightarrow> write_file_args \<Rightarrow> edit_output \<times> 'p fs_action list \<times> file_state" where
  "write_file env files args =
     (if MAX_EDIT_FILE_BYTES < length (wa_content args)
      then (EditError (''too_large: content exceeds the '' @ nat_to_string (MAX_EDIT_FILE_BYTES div (1024 * 1024)) @ '' MiB file size limit''), [], files)
      else (case short_hash (wa_if_hash args) of
        Inl _ \<Rightarrow> (EditRefused ''invalid_if_hash: expected h:<12 hex digits>'', [], files)
      | Inr if_hash \<Rightarrow>
      (case resolve_write_path (we_canonicalize env) (we_is_dir env) (wa_path args) of
        Inl e \<Rightarrow> (EditError e, [], files)
      | Inr path \<Rightarrow>
      (case check_write_path (we_capture env) (wa_path args) path of
        Inl e \<Rightarrow> (EditRefused (path_err_text e), [], files)
      | Inr _ \<Rightarrow>
      if we_cancelled env then (EditInterrupted ''tool execution was cancelled'', [], files)
      else (case we_write_target env path of
        Inl e \<Rightarrow> (EditRefused (''could not validate write directory: '' @ e), [], files)
      | Inr target \<Rightarrow>
          (let key = we_lossy env path
           in case write_target_file env files args if_hash key target of
                (Inl e, acts) \<Rightarrow> (EditError e, acts, files)
              | (Inr before, acts) \<Rightarrow>
                  (write_report env key (wa_content args) before, acts,
                   record_state files key (content_hash (we_sha256 env) (wa_content args)))))))))"

end
