(* ===== verification/Write_Spec.thy ===== *)
theory Write_Spec
  imports Write_File
begin

text \<open>
  What a write may change: only a file inside the workspace, and there only content that the session knows. The second part follows
  the hashes of a session through reads and writes.
\<close>

section \<open>Resolved paths stay inside the workspace\<close>

definition inside :: "string \<Rightarrow> bool" where
  "inside p \<longleftrightarrow> \<not> is_absolute p \<and> ParentDir \<notin> set (components p)"

definition plain_name :: "string \<Rightarrow> bool" where
  "plain_name n \<longleftrightarrow> n \<noteq> [] \<and> n \<noteq> ''..'' \<and> CHR ''/'' \<notin> set n"

lemma split_by_pieces: "\<forall>s \<in> set (split_by P p). \<forall>c \<in> set s. \<not> P c"
  by (induction p) (auto split: list.splits)

lemma split_by_app: "P x \<Longrightarrow> split_by P (s @ x # t) = split_by P s @ split_by P t"
  by (induction s) (auto split: list.splits)

lemma file_name_plain: "file_name p = Some n \<Longrightarrow> plain_name n"
proof -
  assume "file_name p = Some n"
  then have "Normal n \<in> set (components p)"
    by (auto simp: file_name_def split: if_splits component.splits) (metis last_in_set)
  then have "n \<in> set (split_char p (CHR ''/''))" "n \<noteq> []" "n \<noteq> ''..''"
    by (auto simp: components_def part_component_def Let_def split: if_splits)
  then show ?thesis using split_by_pieces [of "\<lambda>c. c = CHR ''/''" p] by (auto simp: plain_name_def split_char_def)
qed

lemma parent_dir_iff: "ParentDir \<in> set (components p) \<longleftrightarrow> ''..'' \<in> set (split_char p (CHR ''/''))"
  by (auto simp: components_def part_component_def Let_def)

lemma plain_split: "plain_name n \<Longrightarrow> split_char n (CHR ''/'') = [n]"
  unfolding plain_name_def split_char_def by (rule split_by_no_sep) auto

lemma plain_inside: "plain_name n \<Longrightarrow> inside n"
  using plain_split [of n] by (cases n) (auto simp: inside_def parent_dir_iff is_absolute_def starts_with_def plain_name_def)

lemma push_inside:
  assumes "inside p" and "plain_name n"
  shows "inside (path_push p n)"
proof (cases "p = []")
  case True
  then show ?thesis using plain_inside [OF assms(2)] by (simp add: path_push_def)
next
  case False
  define q where "q = (if last p = CHR ''/'' then butlast p else p)"
  have e: "path_push p n = q @ CHR ''/'' # n"
  proof (cases "last p = CHR ''/''")
    case True
    then have "p = q @ [CHR ''/'']" using append_butlast_last_id [OF False] by (simp add: q_def)
    then show ?thesis using False True by (simp add: path_push_def)
  qed (use False in \<open>simp add: path_push_def q_def\<close>)
  have "split_char p (CHR ''/'') = split_char q (CHR ''/'') @ (if last p = CHR ''/'' then [[]] else [])"
    using split_by_app [of "\<lambda>c. c = CHR ''/''" "CHR ''/''" "butlast p" "[]"] append_butlast_last_id [OF False]
    by (auto simp: q_def split_char_def)
  then have "''..'' \<notin> set (split_char q (CHR ''/''))" using assms(1) by (auto simp: inside_def parent_dir_iff split: if_splits)
  moreover have "split_char (path_push p n) (CHR ''/'') = split_char q (CHR ''/'') @ [n]"
    unfolding e using split_by_app [of "\<lambda>c. c = CHR ''/''" "CHR ''/''" q n] plain_split [OF assms(2)] by (simp add: split_char_def)
  moreover have "\<not> is_absolute (path_push p n)" using assms(1) False by (cases p) (auto simp: path_push_def is_absolute_def starts_with_def inside_def)
  ultimately show ?thesis using assms(2) by (auto simp: inside_def parent_dir_iff plain_name_def)
qed

lemma contained_inside: "contained_path canonicalize requested = Ok p \<Longrightarrow> inside p"
  by (auto simp: contained_path_def inside_def split: if_splits sum.splits)

lemma find_existing_ok:
  "find_existing canonicalize is_dir err ancestor missing = Ok (existing, missing') \<Longrightarrow> \<forall>n \<in> set missing. plain_name n \<Longrightarrow>
   inside existing \<and> (\<forall>n \<in> set missing'. plain_name n) \<and> length missing' \<le> max (length missing) MAX_CREATED_PARENTS"
proof (induction canonicalize is_dir err ancestor missing rule: find_existing.induct)
  case (1 canonicalize is_dir err ancestor missing)
  have root: "inside []" by (simp add: inside_def is_absolute_def starts_with_def components_def split_char_def)
  show ?case
  proof (cases "ancestor = None \<or> ancestor = Some []")
    case True
    then show ?thesis using "1.prems" root by (subst (asm) find_existing.simps) auto
  next
    case False
    then obtain parent where p: "ancestor = Some parent" "parent \<noteq> []" by auto
    show ?thesis
    proof (cases "contained_path (canonicalize (length missing + 1)) parent")
      case (Inr resolved)
      then show ?thesis using "1.prems" p contained_inside [OF Inr] by (subst (asm) find_existing.simps) (auto split: if_splits)
    next
      case (Inl e)
      then obtain n where n: "file_name parent = Some n" "length missing + 1 \<le> MAX_CREATED_PARENTS"
        "find_existing canonicalize is_dir err (path_parent parent) (missing @ [n]) = Ok (existing, missing')"
        using "1.prems"(1) p by (subst (asm) find_existing.simps) (auto split: option.splits if_splits)
      have "\<not> MAX_CREATED_PARENTS < length missing + 1" using n(2) by simp
      from "1.IH" [OF p Inl n(1) this n(3)] show ?thesis using n(2) "1.prems"(2) file_name_plain [OF n(1)] by auto
    qed
  qed
qed

lemma foldl_push_inside: "inside p \<Longrightarrow> \<forall>n \<in> set ns. plain_name n \<Longrightarrow> inside (foldl path_push p ns)"
  by (induction ns arbitrary: p) (simp_all add: push_inside)

lemma resolve_inside: "resolve_write_path canonicalize is_dir requested = Ok p \<Longrightarrow> inside p"
  using contained_inside [of "canonicalize 0" requested] find_existing_ok [of canonicalize is_dir _ "path_parent requested" "[]"]
    file_name_plain [of requested]
  by (auto simp: resolve_write_path_def Let_def plain_inside intro!: push_inside foldl_push_inside split: sum.splits if_splits option.splits prod.splits)

section \<open>What is written\<close>

text \<open>The content that may be overwritten: the call names its hash, or the session has recorded it for this path.\<close>

definition known :: "(string \<Rightarrow> byte list) \<Rightarrow> string option \<Rightarrow> string option \<Rightarrow> string \<Rightarrow> bool" where
  "known sha256 if_hash recorded before \<longleftrightarrow>
     (if \<exists>h. short_hash if_hash = Ok (Some h) then if_hash = Some (''h:'' @ take 12 (content_hash sha256 before))
      else recorded = Some (content_hash sha256 before))"

lemma short_hash_Some: "short_hash v = Ok (Some h) \<Longrightarrow> v = Some (''h:'' @ h)"
  by (auto simp: short_hash_def strip_prefix_Some_iff split: option.splits if_splits)

lemma check_known_None:
  assumes "check_known path if_hash recorded (content_hash sha256 before) = None" and "short_hash v = Ok if_hash"
  shows "known sha256 v recorded before"
  using assms short_hash_Some [of v]
  by (cases if_hash; cases recorded) (auto simp: check_known_def known_def split: if_splits)

lemma apply_created:
  assumes "apply_atomically os bytes None None = (Ok u, acts)"
  shows "acts = [CreateTemp, WriteTemp bytes, SyncTemp, RenameTemp] \<and> (\<exists>e. ra_metadata os = Err (True, e))"
  using assms
  by (auto simp: apply_atomically_def write_temp_def rename_checked_def matches_expected_def Let_def split: option.splits sum.splits if_splits)

text \<open>What one write did to its target: it replaced known content, keeping the permissions, or created a file where there was none.\<close>

definition target_written :: "('t, 'p) write_env \<Rightarrow> file_state \<Rightarrow> write_file_args \<Rightarrow> string \<Rightarrow> 't \<Rightarrow> 'p fs_action list \<Rightarrow> bool" where
  "target_written env files args key target acts \<longleftrightarrow>
     (\<exists>before permissions. \<not> wa_create_only args \<and> found_as (we_replace env target) before permissions
        \<and> known (we_sha256 env) (wa_if_hash args) (files key) before
        \<and> acts = [CreateTemp, WriteTemp (wa_content args), SetPermissions permissions, SyncTemp, RenameTemp])
     \<or> (\<exists>e. ra_metadata (we_replace env target) = Err (True, e)) \<and> acts = [CreateTemp, WriteTemp (wa_content args), SyncTemp, RenameTemp]"

lemma write_target_Ok:
  assumes "write_target_file env files args if_hash key target = (Ok before, acts)" and "short_hash (wa_if_hash args) = Ok if_hash"
  shows "target_written env files args key target acts"
proof (cases "we_lstat env target")
  case (Inl x)
  then show ?thesis using assms(1) apply_created [of "we_replace env target" "wa_content args"]
    by (cases x) (auto simp: write_target_file_def target_written_def split: if_splits prod.splits sum.splits)
next
  case (Inr x)
  obtain now where now: "read_editable (we_open env target) = Ok now" "\<not> wa_create_only args"
      "check_known (wa_path args) if_hash (files key) (content_hash (we_sha256 env) (ef_bytes now)) = None"
      "apply_atomically (we_replace env target) (wa_content args) (Some (ef_bytes now, ef_permissions now)) (Some (ef_permissions now)) = (Ok (), acts)"
    using assms(1) Inr by (cases x) (auto simp: write_target_file_def recorded_hash_def split: if_splits prod.splits sum.splits option.splits)
  show ?thesis
    using apply_atomically_Ok [OF now(4)] check_known_None [OF now(3) assms(2)] now(2) unfolding target_written_def by blast
qed

lemma write_target_Err:
  assumes "write_target_file env files args if_hash key target = (Err e, acts)"
  shows "RenameTemp \<notin> set acts"
  using assms apply_atomically_Err [where os = "we_replace env target" and bytes = "wa_content args"]
  by (auto simp: write_target_file_def split: if_splits prod.splits sum.splits option.splits)

lemma write_file_cases:
  obtains (failed) out acts where "write_file env files args = (out, acts, files)" "RenameTemp \<notin> set acts" "\<And>t u k d. out \<noteq> EditSuccess t u k d"
  | (written) path target before acts where "length (wa_content args) \<le> MAX_EDIT_FILE_BYTES"
      "resolve_write_path (we_canonicalize env) (we_is_dir env) (wa_path args) = Ok path" "\<not> protected (components (wa_path args))" "\<not> protected (components path)"
      "we_write_target env path = Ok target" "target_written env files args (we_lossy env path) target acts"
      "write_file env files args = (write_report env (we_lossy env path) (wa_content args) before, acts,
         files(we_lossy env path \<mapsto> content_hash (we_sha256 env) (wa_content args)))"
proof (cases "write_file env files args")
  case (fields out acts files')
  show thesis
  proof (cases "\<exists>if_hash path target before. length (wa_content args) \<le> MAX_EDIT_FILE_BYTES \<and> short_hash (wa_if_hash args) = Ok if_hash
      \<and> resolve_write_path (we_canonicalize env) (we_is_dir env) (wa_path args) = Ok path
      \<and> check_write_path (we_capture env) (wa_path args) path = Ok () \<and> \<not> we_cancelled env \<and> we_write_target env path = Ok target
      \<and> write_target_file env files args if_hash (we_lossy env path) target = (Ok before, acts)")
    case True
    then obtain if_hash path target before where w: "length (wa_content args) \<le> MAX_EDIT_FILE_BYTES" "short_hash (wa_if_hash args) = Ok if_hash"
      "resolve_write_path (we_canonicalize env) (we_is_dir env) (wa_path args) = Ok path"
      "check_write_path (we_capture env) (wa_path args) path = Ok ()" "\<not> we_cancelled env" "we_write_target env path = Ok target"
      "write_target_file env files args if_hash (we_lossy env path) target = (Ok before, acts)" by blast
    have "\<not> protected (components (wa_path args))" "\<not> protected (components path)" using w(4) by (auto simp: check_write_path_def split: if_splits)
    moreover have "write_file env files args = (write_report env (we_lossy env path) (wa_content args) before, acts,
         files(we_lossy env path \<mapsto> content_hash (we_sha256 env) (wa_content args)))"
      using w by (simp add: write_file_def record_state_def Let_def)
    ultimately show thesis using written w(1,3,6) write_target_Ok [OF w(7,2)] by blast
  next
    case False
    then have "files' = files \<and> RenameTemp \<notin> set acts \<and> (\<forall>t u k d. out \<noteq> EditSuccess t u k d)"
      using fields by (auto simp: write_file_def Let_def dest: write_target_Err split: if_splits sum.splits prod.splits)
    then show thesis using failed fields by blast
  qed
qed


section \<open>Reads and writes of a session\<close>

text \<open>The files a read tool records: only what it loaded in full.\<close>

lemma load_Ok:
  assumes "load sha256 lossy ans requested = Ok ld"
  obtains path content where "contained_path (rd_canonicalize ans) requested = Ok path" "rd_content ans = Ok content" "ld_path ld = lossy path"
    and "ld_hash ld = None \<or> ld_bytes ld = content \<and> ld_hash ld = Some (content_hash sha256 content)"
  using assms by (auto simp: load_def Let_def split: sum.splits if_splits option.splits)

datatype ('t, 'p) file_op =
    ReadOp read_env read_file_args nat
  | WriteOp "('t, 'p) write_env" write_file_args

fun op_sha256 :: "('t, 'p) file_op \<Rightarrow> string \<Rightarrow> byte list" where
  "op_sha256 (ReadOp env args note_bytes) = re_sha256 env"
| "op_sha256 (WriteOp env args) = we_sha256 env"

fun file_step :: "file_state \<Rightarrow> ('t, 'p) file_op \<Rightarrow> file_state" where
  "file_step files (ReadOp env args note_bytes) =
     (case read_file env files args note_bytes of Some (_, files') \<Rightarrow> files' | None \<Rightarrow> files)"
| "file_step files (WriteOp env args) = snd (snd (write_file env files args))"

text \<open>The content of a file that an operation has seen or written, by its path.\<close>

fun op_saw :: "('t, 'p) file_op \<Rightarrow> string \<Rightarrow> string \<Rightarrow> bool" where
  "op_saw (ReadOp env args note_bytes) key bytes \<longleftrightarrow>
     (\<exists>path. contained_path (rd_canonicalize (re_answers env)) (rf_path args) = Ok path \<and> key = re_lossy env path
        \<and> rd_content (re_answers env) = Ok bytes)"
| "op_saw (WriteOp env args) key bytes \<longleftrightarrow>
     (\<exists>path. resolve_write_path (we_canonicalize env) (we_is_dir env) (wa_path args) = Ok path \<and> key = we_lossy env path
        \<and> bytes = wa_content args)"

lemma read_file_state:
  assumes "read_file env files args note_bytes = Some (out, files')"
  shows "files' = files \<or> (\<exists>key bytes. op_saw (ReadOp env args note_bytes :: ('t, 'p) file_op) key bytes
    \<and> files' = files(key \<mapsto> content_hash (re_sha256 env) bytes))"
proof (cases "load (re_sha256 env) (re_lossy env) (re_answers env) (rf_path args)")
  case (Inr ld)
  have same: "files' = files \<or> (\<exists>h. ld_hash ld = Some h \<and> files' = files(ld_path ld \<mapsto> h))"
    using assms Inr by (auto simp: read_file_def record_state_def split: sum.splits if_splits option.splits)
  from Inr show ?thesis
  proof (rule load_Ok)
    fix path content
    assume "contained_path (rd_canonicalize (re_answers env)) (rf_path args) = Ok path" "rd_content (re_answers env) = Ok content"
      "ld_path ld = re_lossy env path" "ld_hash ld = None \<or> ld_bytes ld = content \<and> ld_hash ld = Some (content_hash (re_sha256 env) content)"
    then show ?thesis using same by auto
  qed
qed (use assms in \<open>auto simp: read_file_def split: sum.splits\<close>)

lemma write_file_state:
  "file_step files (WriteOp env args :: ('t, 'p) file_op) = files \<or> (\<exists>key bytes. op_saw (WriteOp env args :: ('t, 'p) file_op) key bytes
    \<and> file_step files (WriteOp env args) = files(key \<mapsto> content_hash (we_sha256 env) bytes))"
  by (cases rule: write_file_cases [of env files args]) auto

text \<open>Every recorded hash is that of a content that some operation has seen or written.\<close>

definition states_seen :: "(string \<Rightarrow> byte list) \<Rightarrow> ('t, 'p) file_op list \<Rightarrow> file_state \<Rightarrow> bool" where
  "states_seen sha256 ops files \<longleftrightarrow>
     (\<forall>key h. files key = Some h \<longrightarrow> (\<exists>op \<in> set ops. \<exists>bytes. op_saw op key bytes \<and> h = content_hash sha256 bytes))"

lemma file_step_state:
  fixes op :: "('t, 'p) file_op"
  shows "file_step files op = files \<or> (\<exists>key bytes. op_saw op key bytes \<and> file_step files op = files(key \<mapsto> content_hash (op_sha256 op) bytes))"
proof (cases op)
  case (ReadOp env args n)
  show ?thesis
  proof (cases "read_file env files args n")
    case (Some x)
    then obtain out files' where x: "read_file env files args n = Some (out, files')" by (cases x) auto
    then show ?thesis using read_file_state [OF x, where 't = 't and 'p = 'p] ReadOp by auto
  qed (simp add: ReadOp)
next
  case (WriteOp env args)
  then show ?thesis using write_file_state [of files env args] by simp
qed

lemma states_seen_run:
  assumes "\<forall>op \<in> set ops. op_sha256 op = sha256"
  shows "states_seen sha256 ops (foldl file_step Map.empty ops)"
  using assms
proof (induction ops rule: rev_induct)
  case Nil
  then show ?case by (simp add: states_seen_def)
next
  case (snoc op ops)
  let ?files = "foldl file_step Map.empty ops"
  have IH: "states_seen sha256 ops ?files" using snoc by simp
  have sha: "op_sha256 op = sha256" using snoc.prems by simp
  have "file_step ?files op = ?files \<or> (\<exists>key bytes. op_saw op key bytes \<and> file_step ?files op = ?files(key \<mapsto> content_hash sha256 bytes))"
    using file_step_state [of ?files op] sha by simp
  then show ?case using IH by (fastforce simp: states_seen_def split: if_splits)
qed


section \<open>An example\<close>

text \<open>A file is created and then overwritten.\<close>

definition demo_write :: "(bool \<times> string, bool \<times> bool) result \<Rightarrow> (bool \<times> string, nat metadata) result \<Rightarrow> (unit, nat) write_env" where
  "demo_write lstat metadata =
     \<lparr>we_sha256 = (\<lambda>_. []), we_lossy = (\<lambda>p. p), we_cancelled = False, we_canonicalize = (\<lambda>_ p. Ok p), we_is_dir = (\<lambda>_. True), we_capture = None,
      we_write_target = (\<lambda>_. Ok ()), we_lstat = (\<lambda>_. lstat),
      we_open = (\<lambda>_. \<lparr>oa_open = None, oa_metadata = Ok \<lparr>md_is_file = True, md_permissions = 420, md_len = 1\<rparr>, oa_content = Ok ''x''\<rparr>),
      we_replace = (\<lambda>_. \<lparr>ra_validate = (\<lambda>_. None), ra_create = None, ra_write = None, ra_set_permissions = None, ra_sync = None,
         ra_metadata = metadata, ra_open = None, ra_open_metadata = Ok True, ra_reads = [Ok ''x''], ra_rename = None\<rparr>)\<rparr>"

definition demo_content :: "string \<Rightarrow> write_file_args" where
  "demo_content s = \<lparr>wa_path = ''a'', wa_content = s, wa_create_only = False, wa_if_hash = None\<rparr>"

abbreviation demo_first :: "(unit, nat) write_env" where "demo_first \<equiv> demo_write (Err (True, [])) (Err (True, []))"

abbreviation demo_second :: "(unit, nat) write_env" where
  "demo_second \<equiv> demo_write (Ok (True, False)) (Ok \<lparr>md_is_file = True, md_permissions = 420, md_len = 1\<rparr>)"

lemma demo_path: "components ''a'' = [Normal ''a'']" "resolve_write_path (\<lambda>_. Ok) (\<lambda>_. True) ''a'' = Ok ''a''"
  by (simp_all add: resolve_write_path_def contained_path_def components_def part_component_def is_absolute_def starts_with_def split_char_def)

lemmas write_demo_defs = demo_write_def demo_content_def demo_path write_file_def short_hash_def check_write_path_def eq_ignore_ascii_case_def
  to_ascii_lowercase_def to_ascii_lower_def Let_def write_target_file_def apply_atomically_def write_temp_def rename_checked_def matches_expected_def
  record_state_def MAX_EDIT_FILE_BYTES_def read_editable_def read_bounded_def check_known_def recorded_hash_def sat_add_def u64_max_def

lemma demo_created: "file_step Map.empty (WriteOp demo_first (demo_content ''x'')) = [''a'' \<mapsto> content_hash (\<lambda>_. []) ''x'']"
  by (simp add: write_demo_defs)

lemma demo_replaced:
  "RenameTemp \<in> set (fst (snd (write_file demo_second [''a'' \<mapsto> content_hash (\<lambda>_. []) ''x''] (demo_content ''y''))))"
  by (simp add: write_demo_defs)


end
