(* ===== verification/Summarize.thy ===== *)
theory Summarize
  imports Tool_Calls Budget
begin

text \<open>
  The summarizer of a compaction (\<^verbatim>\<open>summarize\<close> of \<^verbatim>\<open>lib.rs\<close> with \<^verbatim>\<open>SummaryFold\<close> of \<^verbatim>\<open>runtime/compaction.rs\<close>): a transcript is sent to a
  model; where it exceeds the window it is cut in half, and the halves are summarized one after the other, each together with
  the summary of what precedes it. The provider is a parameter: the events with which it answers a request, by the number of the
  request, as a list that ends where the stream ends. The retained text of a JSON value is a parameter too.
  The value of a call is the list of its requests, with what was sent and what was yielded.
\<close>

section \<open>Messages\<close>

datatype role = UserRole | AssistantRole

datatype model_block =
    TextBlock string
  | ToolCallBlock string string string
  | ToolResultBlock string string bool

record message =
  ms_role :: role
  ms_content :: "model_block list"
  ms_replay :: "string option"

definition Message_new :: "role \<Rightarrow> model_block list \<Rightarrow> message" where
  "Message_new r blocks = \<lparr>ms_role = r, ms_content = blocks, ms_replay = None\<rparr>"

definition Message_user :: "string \<Rightarrow> message" where
  "Message_user t = \<lparr>ms_role = UserRole, ms_content = [TextBlock t], ms_replay = None\<rparr>"

definition Message_assistant :: "string \<Rightarrow> message" where
  "Message_assistant t = \<lparr>ms_role = AssistantRole, ms_content = [TextBlock t], ms_replay = None\<rparr>"

definition Message_tool_results :: "model_block list \<Rightarrow> message" where
  "Message_tool_results results = \<lparr>ms_role = UserRole, ms_content = results, ms_replay = None\<rparr>"

definition with_replay :: "string option \<Rightarrow> message \<Rightarrow> message" where
  "with_replay replay m = (case replay of Some data \<Rightarrow> m\<lparr>ms_replay := Some data\<rparr> | None \<Rightarrow> m)"

definition block_bytes :: "model_block \<Rightarrow> nat" where
  "block_bytes b =
     (case b of
        TextBlock t \<Rightarrow> length t
      | ToolCallBlock i n a \<Rightarrow> sat_add u64_max (sat_add u64_max (length i) (length n)) (length a)
      | ToolResultBlock i c _ \<Rightarrow> sat_add u64_max (length i) (length c))"

definition measure_message :: "message \<Rightarrow> nat" where
  "measure_message m =
     foldl (\<lambda>n b. sat_add u64_max (sat_add u64_max n CONTEXT_BLOCK_FRAMING_BYTES) (block_bytes b))
       (sat_add u64_max CONTEXT_MESSAGE_FRAMING_BYTES (case ms_replay m of Some r \<Rightarrow> length r | None \<Rightarrow> 0)) (ms_content m)"

definition measure_messages :: "message list \<Rightarrow> nat" where
  "measure_messages ms = foldl (\<lambda>n m. sat_add u64_max n (measure_message m)) 0 ms"

section \<open>Cutting a transcript\<close>

record summary_fold =
  sf_pending :: "message list list"
  sf_splits :: nat
  sf_instruction_at :: nat

definition SummaryFold_new :: "nat \<Rightarrow> summary_fold" where
  "SummaryFold_new at = \<lparr>sf_pending = [], sf_splits = 0, sf_instruction_at = at\<rparr>"

definition role_debug :: "role \<Rightarrow> string" where
  "role_debug r = (case r of UserRole \<Rightarrow> ''User'' | AssistantRole \<Rightarrow> ''Assistant'')"

definition block_text :: "model_block \<Rightarrow> string" where
  "block_text b =
     (case b of
        TextBlock t \<Rightarrow> t
      | ToolCallBlock _ n a \<Rightarrow> ''[Tool call '' @ n @ ''] '' @ a
      | ToolResultBlock i c e \<Rightarrow> ''[Tool result '' @ i @ ''; error='' @ (if e then ''true'' else ''false'') @ ''] '' @ c)
     @ [CHR 0x0A]"

definition message_text :: "message \<Rightarrow> string" where
  "message_text m = [CHR 0x0A] @ ''['' @ role_debug (ms_role m) @ '']'' @ [CHR 0x0A] @ concat (map block_text (ms_content m))"

definition transcript_text :: "message list \<Rightarrow> string" where
  "transcript_text ms = concat (map message_text ms)"

text \<open>The pending portions are a stack; its top is the head of the list.\<close>

definition fold_split :: "summary_fold \<Rightarrow> message list \<Rightarrow> (summary_fold \<times> message list) option" where
  "fold_split f messages =
     (if 32 \<le> sf_splits f then None
      else if length messages \<le> sf_instruction_at f then None
      else (let instruction = messages ! sf_instruction_at f
            in if ms_role instruction \<noteq> UserRole then None
               else (let content = transcript_text (take (sf_instruction_at f) messages);
                         half = char_floor content (length content div 2)
                     in if half < 1024 then None
                        else (let portion = [Message_user (take half content), instruction]
                              in if measure_messages messages \<le> measure_messages portion then None
                                 else Some (f\<lparr>sf_splits := sf_splits f + 1,
                                              sf_pending := [Message_user (drop half content), instruction] # sf_pending f,
                                              sf_instruction_at := 1\<rparr>, portion)))))"

datatype summarize_error =
    RejectedBeforeWork run_failure_kind string "nat option"
  | TransientFault run_failure_kind string "nat option"
  | SummaryRejected string

definition PRECEDING :: string where
  "PRECEDING = ''Summary of the preceding portion; fold it together with the following evidence:'' @ [CHR 0x0A]"

definition fold_advance :: "summary_fold \<Rightarrow> string \<Rightarrow> (summarize_error, (summary_fold \<times> message list) option) result" where
  "fold_advance f summary =
     (case sf_pending f of
        [] \<Rightarrow> Ok None
      | portion # rest \<Rightarrow>
          if trim summary = []
          then Err (SummaryRejected ''compaction produced an empty summary before all portions were incorporated'')
          else (let messages = Message_user (PRECEDING @ summary) # portion
                in Ok (Some (f\<lparr>sf_pending := rest, sf_instruction_at := length messages - 1\<rparr>, messages))))"

section \<open>What a provider answers\<close>

datatype provider_error_kind =
    KConfiguration | KAuthentication | KRateLimited | KInvalidRequest | KContextExceeded | KUnavailable | KTransport | KApi | KResponse | KProtocol

text \<open>A duration is a number of nanoseconds.\<close>

datatype model_error =
    ErrConfiguration string
  | ErrCredentialsUnavailable string
  | ErrTransport string
  | ErrApi nat string
  | ErrRetryAfter nat string nat
  | ErrResponseFailed provider_error_kind string
  | ErrResponseIncomplete string
  | ErrProtocol string

definition provider_error_text :: "model_error \<Rightarrow> string" where
  "provider_error_text e =
     (case e of
        ErrConfiguration m \<Rightarrow> ''provider configuration is invalid: '' @ m
      | ErrCredentialsUnavailable m \<Rightarrow> ''provider credentials are unavailable: '' @ m
      | ErrTransport m \<Rightarrow> ''provider request failed: '' @ m
      | ErrApi status m \<Rightarrow> ''provider returned HTTP '' @ nat_to_string status @ '': '' @ m
      | ErrRetryAfter status m _ \<Rightarrow> ''provider returned HTTP '' @ nat_to_string status @ '': '' @ m
      | ErrResponseFailed _ m \<Rightarrow> ''provider response failed: '' @ m
      | ErrResponseIncomplete m \<Rightarrow> ''provider response was incomplete: '' @ m
      | ErrProtocol m \<Rightarrow> ''provider stream was invalid: '' @ m)"

definition provider_retry_after :: "model_error \<Rightarrow> nat option" where
  "provider_retry_after e = (case e of ErrRetryAfter _ _ d \<Rightarrow> Some d | _ \<Rightarrow> None)"

definition status_kind :: "nat \<Rightarrow> provider_error_kind" where
  "status_kind status =
     (if status \<in> {400, 404, 409, 422} then KInvalidRequest
      else if status \<in> {401, 403} then KAuthentication
      else if status = 429 then KRateLimited
      else if status = 408 \<or> 500 \<le> status \<and> status \<le> 599 then KUnavailable
      else KApi)"

definition provider_kind :: "model_error \<Rightarrow> provider_error_kind" where
  "provider_kind e =
     (case e of
        ErrConfiguration _ \<Rightarrow> KConfiguration
      | ErrCredentialsUnavailable _ \<Rightarrow> KAuthentication
      | ErrTransport _ \<Rightarrow> KTransport
      | ErrApi status _ \<Rightarrow> status_kind status
      | ErrRetryAfter status _ _ \<Rightarrow> status_kind status
      | ErrResponseFailed k _ \<Rightarrow> k
      | ErrResponseIncomplete _ \<Rightarrow> KResponse
      | ErrProtocol _ \<Rightarrow> KProtocol)"

definition failure_kind_of :: "provider_error_kind \<Rightarrow> run_failure_kind" where
  "failure_kind_of k =
     (case k of
        KConfiguration \<Rightarrow> ProviderConfiguration
      | KAuthentication \<Rightarrow> ProviderAuthentication
      | KRateLimited \<Rightarrow> ProviderRateLimited
      | KInvalidRequest \<Rightarrow> ProviderInvalidRequest
      | KContextExceeded \<Rightarrow> ProviderContextExceeded
      | KUnavailable \<Rightarrow> ProviderUnavailable
      | KTransport \<Rightarrow> ProviderTransport
      | KApi \<Rightarrow> ProviderApi
      | KResponse \<Rightarrow> ProviderResponse
      | KProtocol \<Rightarrow> ProviderProtocol)"

definition recoverable_turn_fault :: "run_failure_kind \<Rightarrow> bool" where
  "recoverable_turn_fault k \<longleftrightarrow> k \<in> {ProviderUnavailable, ProviderRateLimited, ProviderTransport}"

datatype incomplete_reason = StoppedOutputTokens | StoppedPaused

text \<open>The usage of a provider has the fields of \<open>token_usage\<close>. The kind of a reasoning and what is refused are not looked at.\<close>

datatype provider_event =
    EvReplay string
  | EvOutputText string
  | EvRefusal
  | EvReasoning
  | EvCallStarted string string
  | EvCallArguments string string
  | EvCallCompleted string
  | EvCompleted "token_usage option"
  | EvIncomplete "token_usage option" incomplete_reason

section \<open>One turn of the summarizer\<close>

definition MAX_ADMITTED_TOOL_CALLS_PER_TURN :: nat where "MAX_ADMITTED_TOOL_CALLS_PER_TURN = 4 * 16"
definition MAX_TOOL_ARGUMENT_BYTES :: nat where "MAX_TOOL_ARGUMENT_BYTES = 64 * 1024"
definition MAX_TOOL_CALL_ID_BYTES :: nat where "MAX_TOOL_CALL_ID_BYTES = 1024"
definition MAX_TOOL_NAME_BYTES :: nat where "MAX_TOOL_NAME_BYTES = 128"
definition MAX_RUN_MODEL_TEXT_BYTES :: nat where "MAX_RUN_MODEL_TEXT_BYTES = 16 * 1024 * 1024"
definition MAX_OUTPUT_CONTINUATIONS :: nat where "MAX_OUTPUT_CONTINUATIONS = 3"

record summarizer_call =
  sc_id :: string
  sc_name :: string
  sc_arguments :: string

record summarizer_turn =
  sn_text :: string
  sn_reasoning_seen :: bool
  sn_calls :: "summarizer_call list"
  sn_replay :: "string option"
  sn_emitted :: nat

definition empty_turn :: "nat \<Rightarrow> summarizer_turn" where
  "empty_turn emitted = \<lparr>sn_text = [], sn_reasoning_seen = False, sn_calls = [], sn_replay = None, sn_emitted = emitted\<rparr>"

datatype turn_end =
    TurnDone "token_usage option" "incomplete_reason option"
  | TurnRefused summarize_error
  | TurnFault model_error

definition malformed_call :: "summarizer_call list \<Rightarrow> string \<Rightarrow> string \<Rightarrow> bool" where
  "malformed_call calls i n \<longleftrightarrow>
     MAX_ADMITTED_TOOL_CALLS_PER_TURN \<le> length calls \<or> i = [] \<or> MAX_TOOL_CALL_ID_BYTES < length i \<or> n = [] \<or> MAX_TOOL_NAME_BYTES < length n
     \<or> list_ex (\<lambda>c. sc_id c = i) calls"

text \<open>The identifiers of the calls differ, so arguments go to one call.\<close>

fun read_turn :: "bool \<Rightarrow> summarizer_turn \<Rightarrow> (model_error, provider_event) result list \<Rightarrow> summarizer_turn \<times> turn_end" where
  "read_turn rejected_call_turn t [] =
     (t, TurnRefused (TransientFault ProviderTransport ''summarizer stream ended without completing'' None))"
| "read_turn rejected_call_turn t (Inl e # events) = (t, TurnFault e)"
| "read_turn rejected_call_turn t (Inr (EvReplay data) # events) = read_turn rejected_call_turn (t\<lparr>sn_replay := Some data\<rparr>) events"
| "read_turn rejected_call_turn t (Inr (EvOutputText delta) # events) =
     (let emitted = sat_add u64_max (sn_emitted t) (length delta)
      in if MAX_RUN_MODEL_TEXT_BYTES < emitted
         then (t\<lparr>sn_emitted := emitted\<rparr>, TurnRefused (SummaryRejected ''summarizer output exceeded the run text bound''))
         else read_turn rejected_call_turn (t\<lparr>sn_emitted := emitted, sn_text := sn_text t @ delta\<rparr>) events)"
| "read_turn rejected_call_turn t (Inr EvReasoning # events) = read_turn rejected_call_turn (t\<lparr>sn_reasoning_seen := True\<rparr>) events"
| "read_turn rejected_call_turn t (Inr EvRefusal # events) = (t, TurnRefused (SummaryRejected ''summarizer refused''))"
| "read_turn rejected_call_turn t (Inr (EvCallStarted i n) # events) =
     (if rejected_call_turn then (t, TurnRefused (SummaryRejected ''summarizer called a tool on two turns''))
      else if malformed_call (sn_calls t) i n then (t, TurnRefused (SummaryRejected ''summarizer streamed a malformed tool call''))
      else read_turn rejected_call_turn (t\<lparr>sn_calls := sn_calls t @ [\<lparr>sc_id = i, sc_name = n, sc_arguments = []\<rparr>]\<rparr>) events)"
| "read_turn rejected_call_turn t (Inr (EvCallArguments i json) # events) =
     (case find (\<lambda>c. sc_id c = i) (sn_calls t) of
        None \<Rightarrow> (t, TurnRefused (SummaryRejected ''summarizer streamed arguments for an unknown call''))
      | Some c \<Rightarrow>
          if MAX_TOOL_ARGUMENT_BYTES < sat_add u64_max (length (sc_arguments c)) (length json)
          then (t, TurnRefused (SummaryRejected ''summarizer tool arguments exceeded their bound''))
          else read_turn rejected_call_turn
                 (t\<lparr>sn_calls := map (\<lambda>c. if sc_id c = i then c\<lparr>sc_arguments := sc_arguments c @ json\<rparr> else c) (sn_calls t)\<rparr>) events)"
| "read_turn rejected_call_turn t (Inr (EvCallCompleted i) # events) = read_turn rejected_call_turn t events"
| "read_turn rejected_call_turn t (Inr (EvCompleted usage) # events) = (t, TurnDone usage None)"
| "read_turn rejected_call_turn t (Inr (EvIncomplete usage reason) # events) = (t, TurnDone usage (Some reason))"

section \<open>One request\<close>

definition SUMMARIZER_TOOL_REJECTION :: string where
  "SUMMARIZER_TOOL_REJECTION = ''not executed: this is a compaction request and tools are unavailable; reply with the summary only''"

definition OUTPUT_TRUNCATED_CONTINUE_NOTICE :: string where
  "OUTPUT_TRUNCATED_CONTINUE_NOTICE = ''[QQ runtime notice; not a user instruction]'' @ [CHR 0x0A] @ ''The previous response was cut off at the output token limit. Continue exactly from where it stopped; do not repeat what was already written.''"

record summarizer =
  su_messages :: "message list"
  su_summary :: string
  su_emitted :: nat
  su_usage :: "token_usage option"
  su_ordinal :: nat
  su_continuations :: nat
  su_fold :: summary_fold
  su_rejected_call_turn :: bool

datatype summarize_step =
    StepRequestStarting
  | StepTurnCompleted nat message "token_usage option" bool
  | StepSummary string

fun is_summary :: "summarize_step \<Rightarrow> bool" where
  "is_summary (StepSummary _) = True"
| "is_summary _ = False"

text \<open>How a request ends: the transcript was cut and is tried again, the calls of the model were turned down, a text that was cut off
  is continued, the next portion follows, or the loop ends.\<close>

datatype outcome =
    CutInHalf summarizer
  | CallsTurnedDown summarizer
  | Continued summarizer
  | NextPortion summarizer
  | SummaryDone string
  | SummaryFailed summarize_error

record summarize_env =
  se_respond :: "nat \<Rightarrow> message list \<Rightarrow> (model_error, provider_event) result list"
  se_raw_json :: "string \<Rightarrow> string option"
  se_max_output_tokens :: nat

definition no_usage :: token_usage where
  "no_usage = \<lparr>u_input_tokens = 0, u_cache_read_input_tokens = 0, u_cache_write_input_tokens = 0, u_output_tokens = 0, u_reasoning_tokens = None\<rparr>"

definition add_usage :: "token_usage \<Rightarrow> token_usage \<Rightarrow> token_usage option" where
  "add_usage l r =
     (case (checked_add u64_max (u_input_tokens l) (u_input_tokens r),
            checked_add u64_max (u_cache_read_input_tokens l) (u_cache_read_input_tokens r),
            checked_add u64_max (u_cache_write_input_tokens l) (u_cache_write_input_tokens r),
            checked_add u64_max (u_output_tokens l) (u_output_tokens r),
            (case (u_reasoning_tokens l, u_reasoning_tokens r) of
               (Some a, Some b) \<Rightarrow> map_option Some (checked_add u64_max a b)
             | _ \<Rightarrow> Some None)) of
        (Some i, Some cr, Some cw, Some out, Some re) \<Rightarrow>
          Some \<lparr>u_input_tokens = i, u_cache_read_input_tokens = cr, u_cache_write_input_tokens = cw, u_output_tokens = out, u_reasoning_tokens = re\<rparr>
      | _ \<Rightarrow> None)"

definition rejected_before_work :: "model_error \<Rightarrow> summarizer_turn \<Rightarrow> bool" where
  "rejected_before_work e t \<longleftrightarrow>
     (case e of
        ErrApi _ _ \<Rightarrow> True
      | ErrRetryAfter _ _ _ \<Rightarrow> True
      | ErrResponseFailed k _ \<Rightarrow> k = KContextExceeded
      | ErrConfiguration _ \<Rightarrow> True
      | ErrCredentialsUnavailable _ \<Rightarrow> True
      | _ \<Rightarrow> False)
     \<and> sn_text t = [] \<and> sn_calls t = [] \<and> sn_replay t = None \<and> \<not> sn_reasoning_seen t"

definition turn_fault :: "summarizer \<Rightarrow> summarizer_turn \<Rightarrow> model_error \<Rightarrow> summarize_step list \<times> outcome" where
  "turn_fault s t e =
     (let kind = failure_kind_of (provider_kind e); message = provider_error_text e;
          cut_again = (if rejected_before_work e t \<and> kind = ProviderContextExceeded then fold_split (su_fold s) (su_messages s) else None)
      in case cut_again of
           Some (f, messages) \<Rightarrow>
             ([StepTurnCompleted (su_ordinal s + 1) (Message_assistant []) (Some no_usage) False],
              CutInHalf (s\<lparr>su_messages := messages, su_summary := [], su_emitted := sn_emitted t, su_ordinal := su_ordinal s + 1,
                           su_continuations := 0, su_fold := f\<rparr>))
         | None \<Rightarrow>
             ([], SummaryFailed
               (if rejected_before_work e t then RejectedBeforeWork kind message (provider_retry_after e)
                else if recoverable_turn_fault kind then TransientFault kind message (provider_retry_after e)
                else SummaryRejected message)))"

definition encoded_arguments :: "summarizer_call \<Rightarrow> string" where
  "encoded_arguments c = (if trim (sc_arguments c) = [] then ''{}'' else sc_arguments c)"

definition text_blocks :: "summarizer_turn \<Rightarrow> model_block list" where
  "text_blocks t = (if sn_text t = [] then [] else [TextBlock (sn_text t)])"

definition call_block :: "summarize_env \<Rightarrow> summarizer_call \<Rightarrow> model_block" where
  "call_block env c =
     (case se_raw_json env (encoded_arguments c) of
        Some a \<Rightarrow> ToolCallBlock (sc_id c) (sc_name c) a
      | None \<Rightarrow> TextBlock (''[Malformed summarizer call '' @ sc_id c @ '' '' @ sc_name c @ '': '' @ sc_arguments c @ '']''))"

definition total_usage :: "token_usage option \<Rightarrow> token_usage option \<Rightarrow> (unit, token_usage option) result" where
  "total_usage all turn =
     (case (all, turn) of
        (Some a, Some b) \<Rightarrow> (case add_usage a b of Some u \<Rightarrow> Ok (Some u) | None \<Rightarrow> Err ())
      | _ \<Rightarrow> Ok None)"

text \<open>The calls of a turn are turned down, and the model is asked again.\<close>

definition turn_down :: "summarize_env \<Rightarrow> summarizer \<Rightarrow> summarizer_turn \<Rightarrow> bool \<Rightarrow> outcome" where
  "turn_down env s t cut_short =
     (if cut_short then SummaryFailed (SummaryRejected ''summarizer called a tool and was cut off'')
      else if \<exists>c \<in> set (sn_calls t). se_raw_json env (encoded_arguments c) = None
      then SummaryFailed (SummaryRejected ''summarizer streamed tool arguments that are not JSON'')
      else CallsTurnedDown
        (s\<lparr>su_rejected_call_turn := True, su_summary := [], su_continuations := 0,
           su_messages := su_messages s
             @ [with_replay (sn_replay t) (Message_new AssistantRole (text_blocks t @ map (call_block env) (sn_calls t))),
                Message_tool_results (map (\<lambda>c. ToolResultBlock (sc_id c) SUMMARIZER_TOOL_REJECTION True) (sn_calls t))]\<rparr>))"

text \<open>A turn without calls: its text belongs to the summary of the portion, which is done or cut off.\<close>

definition finish_turn :: "summarize_env \<Rightarrow> summarizer \<Rightarrow> summarizer_turn \<Rightarrow> incomplete_reason option \<Rightarrow> outcome" where
  "finish_turn env s t cut_short =
     (let summary = su_summary s @ sn_text t; limit = nat_to_string (se_max_output_tokens env)
      in case cut_short of
           None \<Rightarrow>
             (case fold_advance (su_fold s) summary of
                Inl e \<Rightarrow> SummaryFailed e
              | Inr (Some (f, messages)) \<Rightarrow> NextPortion (s\<lparr>su_summary := [], su_fold := f, su_messages := messages, su_continuations := 0\<rparr>)
              | Inr None \<Rightarrow> SummaryDone summary)
         | Some reason \<Rightarrow>
             if trim (sn_text t) = [] \<and> reason = StoppedOutputTokens
             then SummaryFailed (SummaryRejected (''summarizer output was cut off at the output token limit ('' @ limit
               @ '' tokens) without producing any visible text; the limit was spent on reasoning. Lower `reasoning_effort` or raise `max_output_tokens`''))
             else if MAX_OUTPUT_CONTINUATIONS \<le> su_continuations s
             then SummaryFailed (SummaryRejected (''summarizer output was cut off at the output token limit ('' @ limit @ '' tokens) on ''
               @ nat_to_string (MAX_OUTPUT_CONTINUATIONS + 1) @ '' consecutive turns''))
             else Continued (s\<lparr>su_summary := summary, su_continuations := su_continuations s + 1,
                    su_messages := su_messages s @ [Message_assistant (sn_text t), Message_user OUTPUT_TRUNCATED_CONTINUE_NOTICE]\<rparr>))"

definition summarize_request :: "summarize_env \<Rightarrow> nat \<Rightarrow> summarizer \<Rightarrow> summarize_step list \<times> outcome" where
  "summarize_request env k s =
     (let (t, fin) = read_turn (su_rejected_call_turn s) (empty_turn (su_emitted s)) (se_respond env k (su_messages s))
      in case fin of
           TurnRefused e \<Rightarrow> ([StepRequestStarting], SummaryFailed e)
         | TurnFault e \<Rightarrow> (let (steps, out) = turn_fault s t e in (StepRequestStarting # steps, out))
         | TurnDone usage cut_short \<Rightarrow>
             (let completed = with_replay (sn_replay t) (Message_new AssistantRole (text_blocks t @ map (call_block env) (sn_calls t)));
                  steps = [StepRequestStarting, StepTurnCompleted (su_ordinal s + 1) completed usage (cut_short \<noteq> None)]
              in case total_usage (su_usage s) usage of
                   Inl _ \<Rightarrow> (steps, SummaryFailed (SummaryRejected ''summarizer usage overflowed''))
                 | Inr all \<Rightarrow>
                     (let s' = s\<lparr>su_ordinal := su_ordinal s + 1, su_usage := all, su_emitted := sn_emitted t\<rparr>;
                          out = (if sn_calls t \<noteq> [] then turn_down env s' t (cut_short \<noteq> None) else finish_turn env s' t cut_short)
                      in (steps @ (case out of SummaryDone summary \<Rightarrow> [StepSummary summary] | _ \<Rightarrow> []), out))))"

section \<open>The loop\<close>

fun next_state :: "outcome \<Rightarrow> summarizer option" where
  "next_state (CutInHalf s) = Some s"
| "next_state (CallsTurnedDown s) = Some s"
| "next_state (Continued s) = Some s"
| "next_state (NextPortion s) = Some s"
| "next_state (SummaryDone _) = None"
| "next_state (SummaryFailed _) = None"

text \<open>How many requests are left at most, besides the current one.\<close>

definition requests_left :: "summarizer \<Rightarrow> nat" where
  "requests_left s =
     4 * (2 * (32 - sf_splits (su_fold s)) + length (sf_pending (su_fold s)) + (if su_rejected_call_turn s then 0 else 1))
     + (MAX_OUTPUT_CONTINUATIONS - su_continuations s)"

lemma read_turn_no_calls: "sn_calls t = [] \<Longrightarrow> sn_calls (fst (read_turn True t events)) = []"
  by (induction "True" t events rule: read_turn.induct) (auto simp: Let_def)

lemma split_measure:
  assumes "fold_split f messages = Some (f', messages')"
  shows "sf_splits f < 32 \<and> sf_splits f' = sf_splits f + 1 \<and> length (sf_pending f') = length (sf_pending f) + 1"
  using assms by (auto simp: fold_split_def Let_def split: if_splits)

lemma advance_measure:
  assumes "fold_advance f summary = Ok (Some (f', messages'))"
  shows "sf_splits f' = sf_splits f \<and> length (sf_pending f) = length (sf_pending f') + 1"
  using assms by (auto simp: fold_advance_def Let_def split: list.splits if_splits)

lemma request_decreases:
  assumes "next_state (snd (summarize_request env k s)) = Some s'"
  shows "requests_left s' < requests_left s"
proof -
  obtain t fin where t: "read_turn (su_rejected_call_turn s) (empty_turn (su_emitted s)) (se_respond env k (su_messages s)) = (t, fin)"
    by (metis surj_pair)
  show ?thesis
  proof (cases fin)
    case (TurnRefused e)
    then show ?thesis using assms t by (simp add: summarize_request_def)
  next
    case (TurnFault e)
    then obtain f ms where "fold_split (su_fold s) (su_messages s) = Some (f, ms)"
      "s' = s\<lparr>su_messages := ms, su_summary := [], su_emitted := sn_emitted t, su_ordinal := su_ordinal s + 1, su_continuations := 0, su_fold := f\<rparr>"
      using assms t by (auto simp: summarize_request_def turn_fault_def Let_def split: option.splits if_splits)
    then show ?thesis using split_measure [of "su_fold s" "su_messages s" f ms] by (auto simp: requests_left_def MAX_OUTPUT_CONTINUATIONS_def)
  next
    case (TurnDone usage cut_short)
    obtain all where all: "total_usage (su_usage s) usage = Ok all"
      using assms t TurnDone by (auto simp: summarize_request_def Let_def split: sum.splits)
    let ?s = "s\<lparr>su_ordinal := su_ordinal s + 1, su_usage := all, su_emitted := sn_emitted t\<rparr>"
    have out: "next_state (if sn_calls t \<noteq> [] then turn_down env ?s t (cut_short \<noteq> None) else finish_turn env ?s t cut_short) = Some s'"
      using assms t TurnDone all by (cases "sn_calls t = []") (simp_all add: summarize_request_def Let_def)
    show ?thesis
    proof (cases "sn_calls t = []")
      case False
      have "\<not> su_rejected_call_turn s"
        using False t read_turn_no_calls [of "empty_turn (su_emitted s)" "se_respond env k (su_messages s)"] by (auto simp: empty_turn_def)
      then show ?thesis using out False by (auto simp: turn_down_def requests_left_def MAX_OUTPUT_CONTINUATIONS_def split: if_splits)
    next
      case True
      then show ?thesis
        using out advance_measure [of "su_fold s"]
        by (auto simp: finish_turn_def requests_left_def MAX_OUTPUT_CONTINUATIONS_def Let_def split: option.splits sum.splits if_splits)
    qed
  qed
qed

text \<open>A request as it was made: the state before it, what was yielded and how it ended.\<close>

record exchange =
  ex_before :: summarizer
  ex_steps :: "summarize_step list"
  ex_outcome :: outcome

function summarize_loop :: "summarize_env \<Rightarrow> nat \<Rightarrow> summarizer \<Rightarrow> exchange list" where
  "summarize_loop env k s =
     \<lparr>ex_before = s, ex_steps = fst (summarize_request env k s), ex_outcome = snd (summarize_request env k s)\<rparr>
     # (case next_state (snd (summarize_request env k s)) of None \<Rightarrow> [] | Some s' \<Rightarrow> summarize_loop env (k + 1) s')"
  by pat_completeness auto
termination
  by (relation "measure (\<lambda>(env, k, s). requests_left s)") (simp_all add: request_decreases)

declare summarize_loop.simps [simp del]

definition summarize :: "summarize_env \<Rightarrow> message list \<Rightarrow> exchange list" where
  "summarize env messages =
     summarize_loop env 0
       \<lparr>su_messages = messages, su_summary = [], su_emitted = 0, su_usage = Some no_usage, su_ordinal = 0, su_continuations = 0,
        su_fold = SummaryFold_new (length messages - 1), su_rejected_call_turn = False\<rparr>"

section \<open>The loop ends\<close>

lemma loop_cases:
  obtains (last) x where "next_state (snd (summarize_request env k s)) = None" "summarize_loop env k s = [x]"
      "x = \<lparr>ex_before = s, ex_steps = fst (summarize_request env k s), ex_outcome = snd (summarize_request env k s)\<rparr>"
  | (step) s' x where "next_state (snd (summarize_request env k s)) = Some s'" "summarize_loop env k s = x # summarize_loop env (k + 1) s'"
      "x = \<lparr>ex_before = s, ex_steps = fst (summarize_request env k s), ex_outcome = snd (summarize_request env k s)\<rparr>"
  using summarize_loop.simps [of env k s] by (cases "next_state (snd (summarize_request env k s))") auto

lemma loop_length: "length (summarize_loop env k s) \<le> requests_left s + 1"
proof (induction "requests_left s" arbitrary: k s rule: less_induct)
  case less
  show ?case
  proof (cases rule: loop_cases [of env k s])
    case (step s' x)
    then show ?thesis using less [OF request_decreases [OF step(1)], of "k + 1"] request_decreases [OF step(1)] by simp
  qed simp
qed

lemma loop_not_Nil [simp]: "summarize_loop env k s \<noteq> []"
  by (subst summarize_loop.simps) simp

lemma loop_last: "next_state (ex_outcome (last (summarize_loop env k s))) = None"
proof (induction "requests_left s" arbitrary: k s rule: less_induct)
  case less
  show ?case
  proof (cases rule: loop_cases [of env k s])
    case (step s' x)
    then show ?thesis using less [OF request_decreases [OF step(1)], of "k + 1"] by simp
  qed simp
qed

section \<open>Nothing of the transcript is left out\<close>

text \<open>The evidence of a request is its transcript as text. A portion of the transcript is a piece of the whole text that is
  contained in the evidence.\<close>

definition evidence :: "message list \<Rightarrow> nat \<Rightarrow> string" where
  "evidence messages at = transcript_text (take at messages)"

definition contains :: "string \<Rightarrow> string \<Rightarrow> bool" where
  "contains whole piece \<longleftrightarrow> (\<exists>a b. whole = a @ piece @ b)"

lemma contains_cut:
  assumes "contains (l @ r) piece"
  obtains p q where "piece = p @ q" "contains l p" "contains r q"
proof -
  obtain a b where e: "l @ r = a @ piece @ b" using assms by (auto simp: contains_def)
  show thesis
  proof (cases "length l \<le> length a")
    case True
    then obtain u where "a = l @ u" "r = u @ piece @ b" using e by (auto simp: append_eq_append_conv2)
    then show thesis using that [of "[]" piece] by (auto simp: contains_def)
  next
    case False
    then obtain u where u: "l = a @ u" "piece @ b = u @ r" using e by (auto simp: append_eq_append_conv2)
    show thesis
    proof (cases "length piece \<le> length u")
      case True
      then obtain v where "u = piece @ v" using u(2) by (auto simp: append_eq_append_conv2)
      then show thesis using that [of piece "[]"] u(1) by (auto simp: contains_def)
    next
      case False
      then obtain v where "piece = u @ v" "r = v @ b" using u(2) by (auto simp: append_eq_append_conv2)
      then show thesis using that [of u v] u(1) unfolding contains_def by (metis append_Nil append_Nil2)
    qed
  qed
qed

lemma contains_user: "contains t piece \<Longrightarrow> contains (transcript_text [Message_user t]) piece"
  unfolding contains_def transcript_text_def message_text_def Message_user_def block_text_def by (simp, metis append.assoc append_Cons)

lemma contains_append: "contains r piece \<Longrightarrow> contains (l @ r) piece"
  unfolding contains_def by (metis append.assoc)

definition covered_state :: "summarizer \<Rightarrow> string \<Rightarrow> bool" where
  "covered_state s rest \<longleftrightarrow>
     (\<exists>piece pieces. rest = piece @ concat pieces
        \<and> sf_instruction_at (su_fold s) \<le> length (su_messages s)
        \<and> contains (evidence (su_messages s) (sf_instruction_at (su_fold s))) piece
        \<and> list_all2 (\<lambda>ms p. length ms = 2 \<and> contains (evidence ms 1) p) (sf_pending (su_fold s)) pieces)"

lemma covered_more:
  assumes "covered_state s rest" and "su_messages s' = su_messages s @ ms" and "su_fold s' = su_fold s"
  shows "covered_state s' rest"
  using assms by (fastforce simp: covered_state_def evidence_def)

lemma covered_split:
  assumes "covered_state s rest" and "fold_split (su_fold s) (su_messages s) = Some (f, ms)" and "su_messages s' = ms" and "su_fold s' = f"
  shows "covered_state s' rest"
proof -
  obtain piece pieces where c: "rest = piece @ concat pieces"
    "contains (evidence (su_messages s) (sf_instruction_at (su_fold s))) piece"
    "list_all2 (\<lambda>ms p. length ms = 2 \<and> contains (evidence ms 1) p) (sf_pending (su_fold s)) pieces"
    using assms(1) by (auto simp: covered_state_def)
  define ev where "ev = evidence (su_messages s) (sf_instruction_at (su_fold s))"
  define half where "half = char_floor ev (length ev div 2)"
  obtain instruction where f: "ms = [Message_user (take half ev), instruction]" "sf_instruction_at f = 1"
      "sf_pending f = [Message_user (drop half ev), instruction] # sf_pending (su_fold s)"
    using assms(2) by (auto simp: fold_split_def Let_def ev_def half_def evidence_def split: if_splits)
  have "contains (take half ev @ drop half ev) piece" using c(2) by (simp add: ev_def)
  then obtain p q where pq: "piece = p @ q" "contains (take half ev) p" "contains (drop half ev) q" by (rule contains_cut)
  have "contains (evidence ms 1) p" "contains (evidence [Message_user (drop half ev), instruction] 1) q"
    using pq contains_user by (simp_all add: f(1) evidence_def)
  then show ?thesis
    unfolding covered_state_def assms(3,4) f(2,3) using c(1,3) pq(1) f(1)
    by (intro exI [of _ p] exI [of _ "q # pieces"]) (simp add: evidence_def)
qed

lemma covered_advance:
  assumes "covered_state s rest" and "fold_advance (su_fold s) summary = Ok (Some (f, ms))" and "su_messages s' = ms" and "su_fold s' = f"
  obtains piece rest' where "rest = piece @ rest'" "contains (evidence (su_messages s) (sf_instruction_at (su_fold s))) piece" "covered_state s' rest'"
proof -
  obtain piece pieces where c: "rest = piece @ concat pieces"
    "contains (evidence (su_messages s) (sf_instruction_at (su_fold s))) piece"
    "list_all2 (\<lambda>ms p. length ms = 2 \<and> contains (evidence ms 1) p) (sf_pending (su_fold s)) pieces"
    using assms(1) by (auto simp: covered_state_def)
  obtain portion more_portions where p: "sf_pending (su_fold s) = portion # more_portions" "sf_pending f = more_portions"
      "ms = Message_user (PRECEDING @ summary) # portion" "sf_instruction_at f = length portion"
    using assms(2) by (auto simp: fold_advance_def Let_def split: list.splits if_splits)
  obtain q qs where q: "pieces = q # qs" "length portion = 2" "contains (evidence portion 1) q"
      "list_all2 (\<lambda>ms p. length ms = 2 \<and> contains (evidence ms 1) p) more_portions qs"
    using c(3) unfolding p(1) by (auto simp: list_all2_Cons1)
  have "evidence ms 2 = message_text (Message_user (PRECEDING @ summary)) @ evidence portion 1"
    by (simp add: p(3) evidence_def transcript_text_def numeral_2_eq_2)
  then have "contains (evidence ms 2) q" using contains_append [OF q(3)] by simp
  then have "covered_state s' (concat pieces)"
    unfolding covered_state_def assms(3,4) p(2,4) using q p(3) by (intro exI [of _ q] exI [of _ qs]) simp
  then show thesis using that c(1,2) by blast
qed

text \<open>A portion is done when its summary is.\<close>

definition portion_done :: "exchange \<Rightarrow> bool" where
  "portion_done x \<longleftrightarrow> (case ex_outcome x of NextPortion _ \<Rightarrow> True | SummaryDone _ \<Rightarrow> True | _ \<Rightarrow> False)"

definition evidence_of :: "exchange \<Rightarrow> string" where
  "evidence_of x = evidence (su_messages (ex_before x)) (sf_instruction_at (su_fold (ex_before x)))"

definition covered_outcome :: "summarizer \<Rightarrow> string \<Rightarrow> outcome \<Rightarrow> bool" where
  "covered_outcome s rest out \<longleftrightarrow>
     (case out of
        CutInHalf s' \<Rightarrow> covered_state s' rest
      | CallsTurnedDown s' \<Rightarrow> covered_state s' rest
      | Continued s' \<Rightarrow> covered_state s' rest
      | NextPortion s' \<Rightarrow> (\<exists>piece rest'. rest = piece @ rest' \<and> contains (evidence (su_messages s) (sf_instruction_at (su_fold s))) piece \<and> covered_state s' rest')
      | SummaryDone _ \<Rightarrow> contains (evidence (su_messages s) (sf_instruction_at (su_fold s))) rest
      | SummaryFailed _ \<Rightarrow> True)"

lemma finished_covered:
  assumes c: "covered_state s rest"
  shows "covered_outcome s rest (finish_turn env s t None)"
proof (cases "fold_advance (su_fold s) (su_summary s @ sn_text t)")
  case (Inl e)
  then show ?thesis by (simp add: covered_outcome_def finish_turn_def)
next
  case (Inr x)
  show ?thesis
  proof (cases x)
    case None
    then have adv: "fold_advance (su_fold s) (su_summary s @ sn_text t) = Ok None" using Inr by simp
    then have "sf_pending (su_fold s) = []" by (auto simp: fold_advance_def Let_def split: list.splits if_splits)
    then have "contains (evidence (su_messages s) (sf_instruction_at (su_fold s))) rest" using c by (auto simp: covered_state_def)
    then show ?thesis using adv by (simp add: covered_outcome_def finish_turn_def)
  next
    case (Some y)
    obtain f ms where "y = (f, ms)" by (cases y)
    then have adv: "fold_advance (su_fold s) (su_summary s @ sn_text t) = Ok (Some (f, ms))" using Inr Some by simp
    define s1 where "s1 = s\<lparr>su_summary := [], su_fold := f, su_messages := ms, su_continuations := 0\<rparr>"
    have out: "finish_turn env s t None = NextPortion s1" using adv by (simp add: finish_turn_def s1_def)
    have "su_messages s1 = ms" "su_fold s1 = f" by (simp_all add: s1_def)
    from covered_advance [OF c adv this]
    obtain piece rest' where "rest = piece @ rest'" "contains (evidence (su_messages s) (sf_instruction_at (su_fold s))) piece" "covered_state s1 rest'" .
    then show ?thesis by (auto simp: out covered_outcome_def)
  qed
qed

lemma request_covered:
  assumes "covered_state s rest" and "summarize_request env k s = (steps, out)"
  shows "covered_outcome s rest out"
proof -
  obtain t fin where t: "read_turn (su_rejected_call_turn s) (empty_turn (su_emitted s)) (se_respond env k (su_messages s)) = (t, fin)"
    by (metis surj_pair)
  show ?thesis
  proof (cases fin)
    case (TurnRefused e)
    then show ?thesis using assms(2) t by (auto simp: covered_outcome_def summarize_request_def)
  next
    case (TurnFault e)
    then have "out = snd (turn_fault s t e)" using assms(2) t by (simp add: summarize_request_def case_prod_beta)
    then show ?thesis using covered_split [OF assms(1)] by (auto simp: covered_outcome_def turn_fault_def Let_def split: option.splits)
  next
    case (TurnDone usage cut_short)
    show ?thesis
    proof (cases "total_usage (su_usage s) usage")
      case (Inl e)
      then show ?thesis using assms(2) t TurnDone by (auto simp: covered_outcome_def summarize_request_def Let_def)
    next
      case (Inr all)
      define s0 where "s0 = s\<lparr>su_ordinal := su_ordinal s + 1, su_usage := all, su_emitted := sn_emitted t\<rparr>"
      have same: "su_messages s0 = su_messages s" "su_fold s0 = su_fold s" by (simp_all add: s0_def)
      have c: "covered_state s0 rest" using covered_more [OF assms(1), of s0 "[]"] same by simp
      have out: "out = (if sn_calls t \<noteq> [] then turn_down env s0 t (cut_short \<noteq> None) else finish_turn env s0 t cut_short)"
        using assms(2) t TurnDone Inr by (auto simp: summarize_request_def Let_def s0_def)
      show ?thesis
      proof (cases "sn_calls t = []")
        case False
        then show ?thesis using covered_more [OF c] by (auto simp: covered_outcome_def out turn_down_def)
      next
        case calls: True
        then have out': "out = finish_turn env s0 t cut_short" by (simp add: out)
        show ?thesis
        proof (cases cut_short)
          case (Some reason)
          then show ?thesis using covered_more [OF c] by (auto simp: covered_outcome_def out' finish_turn_def Let_def)
        next
          case whole: None
          have "covered_outcome s0 rest out" using finished_covered [OF c] by (simp add: out' whole)
          then show ?thesis unfolding covered_outcome_def same .
        qed
      qed
    qed
  qed
qed

lemma loop_covers:
  "covered_state s rest \<Longrightarrow> ex_outcome (last (summarize_loop env k s)) = SummaryDone summary \<Longrightarrow>
   \<exists>pieces. concat pieces = rest \<and> list_all2 (\<lambda>x piece. contains (evidence_of x) piece) (filter portion_done (summarize_loop env k s)) pieces"
proof (induction "requests_left s" arbitrary: k s rest rule: less_induct)
  case less
  obtain steps out where o: "summarize_request env k s = (steps, out)" by (metis surj_pair)
  note r = request_covered [OF less.prems(1) o, unfolded covered_outcome_def]
  show ?case
  proof (cases rule: loop_cases [of env k s])
    case (last x)
    then have "out = SummaryDone summary" using less.prems(2) o by simp
    then show ?thesis using r last o by (intro exI [of _ "[rest]"]) (simp add: portion_done_def evidence_of_def)
  next
    case (step s' x)
    have l: "ex_outcome (List.last (summarize_loop env (k + 1) s')) = SummaryDone summary" using less.prems(2) step(2) by simp
    show ?thesis
    proof (cases "portion_done x")
      case True
      then have "out = NextPortion s'" using step(1,3) o by (cases out) (auto simp: portion_done_def)
      then obtain piece rest' where p: "rest = piece @ rest'" "contains (evidence_of x) piece" "covered_state s' rest'"
        using r step(3) by (auto simp: evidence_of_def)
      obtain pieces where "concat pieces = rest'"
        "list_all2 (\<lambda>x piece. contains (evidence_of x) piece) (filter portion_done (summarize_loop env (k + 1) s')) pieces"
        using less.hyps [OF request_decreases [OF step(1)] p(3) l] by blast
      then show ?thesis using step(2) True p by (intro exI [of _ "piece # pieces"]) simp
    next
      case False
      then have "covered_state s' rest" using r step(1,3) o by (cases out) (auto simp: portion_done_def)
      then show ?thesis using less.hyps [OF request_decreases [OF step(1)] _ l] step(2) False by simp
    qed
  qed
qed

text \<open>C34 (safety). A summary covers the whole transcript, however often the transcript had to be cut and whatever the provider answers: the
  requests whose answers went into the summary were sent texts that contain, in order, pieces that together are the
  transcript without a gap.\<close>

theorem summary_covers_transcript:
  assumes "ex_outcome (last (summarize env messages)) = SummaryDone summary"
  shows "\<exists>pieces. concat pieces = transcript_text (take (length messages - 1) messages)
    \<and> list_all2 (\<lambda>x piece. contains (evidence_of x) piece) (filter portion_done (summarize env messages)) pieces"
proof -
  let ?s = "\<lparr>su_messages = messages, su_summary = [], su_emitted = 0, su_usage = Some no_usage, su_ordinal = 0, su_continuations = 0,
        su_fold = SummaryFold_new (length messages - 1), su_rejected_call_turn = False\<rparr>"
  let ?whole = "transcript_text (take (length messages - 1) messages)"
  have "contains ?whole ?whole" unfolding contains_def by (metis append_Nil append_Nil2)
  then have "covered_state ?s ?whole"
    unfolding covered_state_def by (intro exI [of _ ?whole] exI [of _ "[]"]) (simp add: SummaryFold_new_def evidence_def)
  then show ?thesis using loop_covers [of ?s ?whole env 0 summary] assms by (simp add: summarize_def)
qed

text \<open>The first answer is cut off at the output limit, the second one continues it.\<close>

definition two_part_env :: summarize_env where
  "two_part_env = \<lparr>
     se_respond = (\<lambda>k ms. if k = 0 then [Ok (EvOutputText ''a''), Ok (EvIncomplete None StoppedOutputTokens)] else [Ok (EvOutputText ''b''), Ok (EvCompleted None)]),
     se_raw_json = (\<lambda>t. Some t), se_max_output_tokens = 100\<rparr>"

theorem summary_covers_transcript_witness:
  "\<exists>pieces. concat pieces = transcript_text [Message_user ''x'']
    \<and> list_all2 (\<lambda>x piece. contains (evidence_of x) piece) (filter portion_done (summarize two_part_env [Message_user ''x'', Message_user ''go''])) pieces"
proof -
  have "trim ''a'' \<noteq> []" by code_simp
  then have "ex_outcome (last (summarize two_part_env [Message_user ''x'', Message_user ''go''])) = SummaryDone ''ab''"
    by (simp add: summarize_def summarize_loop.simps summarize_request_def two_part_env_def empty_turn_def Let_def sat_add_def u64_max_def
        MAX_RUN_MODEL_TEXT_BYTES_def MAX_OUTPUT_CONTINUATIONS_def finish_turn_def total_usage_def fold_advance_def SummaryFold_new_def)
  from summary_covers_transcript [OF this] show ?thesis by simp
qed

lemma request_summary:
  assumes "summarize_request env k s = (steps, out)"
  shows "length (filter (\<lambda>x. x = StepRequestStarting) steps) = 1
    \<and> filter is_summary steps = (case out of SummaryDone t \<Rightarrow> [StepSummary t] | _ \<Rightarrow> [])"
  using assms
  by (auto simp: summarize_request_def turn_fault_def Let_def
      split: turn_end.splits sum.splits option.splits prod.splits outcome.splits if_splits)

definition summary_of :: "outcome \<Rightarrow> summarize_step list" where
  "summary_of out = (case out of SummaryDone t \<Rightarrow> [StepSummary t] | _ \<Rightarrow> [])"

lemma loop_summary:
  "filter is_summary (concat (map ex_steps (summarize_loop env k s))) = summary_of (ex_outcome (last (summarize_loop env k s)))
   \<and> length (filter (\<lambda>x. x = StepRequestStarting) (concat (map ex_steps (summarize_loop env k s)))) = length (summarize_loop env k s)"
proof (induction "requests_left s" arbitrary: k s rule: less_induct)
  case less
  obtain steps out where o: "summarize_request env k s = (steps, out)" by (metis surj_pair)
  show ?case
  proof (cases rule: loop_cases [of env k s])
    case (last x)
    then show ?thesis using request_summary [OF o] o by (simp add: summary_of_def)
  next
    case (step s' x)
    then have "summary_of out = []" using o by (cases out) (simp_all add: summary_of_def)
    then show ?thesis
      using less [OF request_decreases [OF step(1)], of "k + 1"] step(2,3) request_summary [OF o] o by (simp add: summary_of_def)
  qed
qed

text \<open>C3 (termination). Whatever a provider answers, the summarizer ends after at most 264 requests, each of which it announces: with
  a summary, which it yields once, or with an error and without a summary.\<close>

theorem summarize_ends:
  "length (summarize env messages) \<le> 264
   \<and> length (filter (\<lambda>x. x = StepRequestStarting) (concat (map ex_steps (summarize env messages)))) = length (summarize env messages)
   \<and> ((\<exists>t. ex_outcome (last (summarize env messages)) = SummaryDone t
           \<and> filter is_summary (concat (map ex_steps (summarize env messages))) = [StepSummary t])
      \<or> (\<exists>e. ex_outcome (last (summarize env messages)) = SummaryFailed e
           \<and> filter is_summary (concat (map ex_steps (summarize env messages))) = []))"
proof -
  define s :: summarizer where "s = \<lparr>su_messages = messages, su_summary = [], su_emitted = 0, su_usage = Some no_usage, su_ordinal = 0,
    su_continuations = 0, su_fold = SummaryFold_new (length messages - 1), su_rejected_call_turn = False\<rparr>"
  have s: "summarize env messages = summarize_loop env 0 s" by (simp add: summarize_def s_def)
  have "requests_left s = 263" by (simp add: s_def requests_left_def SummaryFold_new_def MAX_OUTPUT_CONTINUATIONS_def)
  then have "length (summarize_loop env 0 s) \<le> 264" using loop_length [of env 0 s] by simp
  moreover have "next_state (ex_outcome (last (summarize_loop env 0 s))) = None" by (rule loop_last)
  ultimately show ?thesis
    unfolding s using loop_summary [of env 0 s]
    by (cases "ex_outcome (last (summarize_loop env 0 s))") (simp_all add: summary_of_def)
qed

end
