(* ===== verification/Spec2Isabelle.thy ===== *)
theory Spec2Isabelle
  imports Prelude Rust_Str Loop_Guard Sse Budget Stall Tool_Output Ids Turn_Output Secrets Network Fetch
    Posix_Shell Shell_Commands Command_Policy Stops Ask Approval Gate Admission Journal Feed Delivery
    Tool_Calls Lifecycle Diff Matching Edit Workspace_Files Edit_File Text_Search History
    Client_Index Client_State Client_Reduce Client_Invariant Client_Sync Context_Plan Read_File Read_Spec
    Write_File Write_Spec Summarize
begin

text \<open>
  Verification library of the qq agent runtime.

  qq runs coding agents. A session store keeps sessions, runs and tool calls; a scheduler admits
  queued runs; the run loop of an admitted run asks a model for a turn, decodes the stream of the
  provider, and for every tool call of the turn asks a gate whether it may run, dispatches it,
  bounds its output and charges a budget. The library models the parts of that path that decide
  something, in \<^verbatim>\<open>crates/qq-core\<close>, \<^verbatim>\<open>crates/qq-provider\<close>, \<^verbatim>\<open>crates/qq-protocol\<close> and
  \<^verbatim>\<open>crates/qq-config\<close>, and the store of a client that follows the events, in \<^verbatim>\<open>crates/qq-client\<close>.

  \<^bold>\<open>The run loop.\<close>
  \<^item> \<open>Loop_Guard\<close>: \<^verbatim>\<open>runtime/loop_guard.rs\<close>, the windows of fingerprints that detect a run that repeats
    itself. Bounded memory (C1), every cycle of at most 256 calls is found (C2), the exact number of
    repetitions after which a call is refused. The locale \<open>state_machine\<close> of
    \<open>Prelude\<close> carries the proofs over runs.
  \<^item> \<open>Budget\<close>: \<^verbatim>\<open>runtime/budget.rs\<close> and the loop that drives the meter. Limits on turns and calls are
    respected, the branch marked unreachable is, an exceeded limit stays exceeded, the 128-bit cost
    computation is exact (C11), a child stays within the budget of its parent.
  \<^item> \<open>Stall\<close>: \<^verbatim>\<open>runtime/progress.rs\<close>, the reports of a stalled run and the bound on the turns of a
    stalled sub-agent.
  \<^item> \<open>Context_Plan\<close>: \<^verbatim>\<open>sessions/context.rs\<close>, whether the context of a turn is sent to the model, compacted first or refused.
    The plan is exact in spite of its saturating arithmetic (C14), and a history compacted to the target of the plan fits (C39).

  \<^item> \<open>Summarize\<close>: \<^verbatim>\<open>summarize\<close> of \<^verbatim>\<open>lib.rs\<close> with \<^verbatim>\<open>SummaryFold\<close> of \<^verbatim>\<open>runtime/compaction.rs\<close>, the requests of a compaction. It ends after at
    most 264 requests whatever a provider answers (C3), and a summary covers the whole transcript however often that was cut (C34).

  \<^bold>\<open>Streams and texts.\<close>
  \<^item> \<open>Sse\<close>: \<^verbatim>\<open>qq-provider/src/sse.rs\<close>. The chunking of a stream is irrelevant (C4), memory is bounded,
    and decoding inverts the wire format (C6).
  \<^item> \<open>Tool_Output\<close>, \<open>Turn_Output\<close>, \<open>Secrets\<close>: \<^verbatim>\<open>tools/output.rs\<close>. The size test, bounded texts
    (C16) and their accounts, the budget of a turn (C19), the masking of secrets against a specification that tries
    the detector at every offset (C21).
  \<^item> \<open>Ids\<close>: \<^verbatim>\<open>qq-protocol/src/ids.rs\<close>, parsing and printing of identifiers, inverse to each other.

  \<^bold>\<open>What a tool may do.\<close>
  \<^item> \<open>Network\<close>, \<open>Fetch\<close>: \<^verbatim>\<open>tools/network.rs\<close>, \<^verbatim>\<open>tools/fetch.rs\<close>. Which addresses and hosts are refused,
    that every request of a fetch is checked (C26), and its bounds.
  \<^item> \<open>Shell_Read\<close>, \<open>Posix_Shell\<close>: the commands that \<^verbatim>\<open>approval.rs\<close> takes for reads, against a model of how
    a shell splits a line (C29, C30).
  \<^item> \<open>Shell_Commands\<close>, \<open>Command_Policy\<close>, \<open>Stops\<close>: \<^verbatim>\<open>approval/classify.rs\<close> and \<^verbatim>\<open>approval/stops.rs\<close>, the walk
    over the syntax tree of a command line, the peeling of wrappers (C31, C33) and the fixed
    stops, with every spelling of a forced push (C35). The locale \<open>collector_invariant\<close> is proved once for the walk and interpreted
    for each of its invariants.
  \<^item> \<open>Ask\<close>: \<^verbatim>\<open>tools/ask.rs\<close>, the validation of questions: what is accepted, and which question an error names.
  \<^item> \<open>Approval\<close>: \<^verbatim>\<open>approval.rs\<close>, the class of a call and the decision of a mode (C37).
  \<^item> \<open>Gate\<close>: \<^verbatim>\<open>sessions/approvals.rs\<close>, the decision from the modes of a session and all sessions above
    it, and the wait for the user (C38).

  \<^bold>\<open>The edit tool.\<close>
  \<^item> \<open>Diff\<close>: the longest common subsequence of \<^verbatim>\<open>tools/matching.rs\<close> and the unified diff of \<^verbatim>\<open>tools/edit.rs\<close>. A diff
    patches the old text into the new one, and no other keeps more lines (C22).
  \<^item> \<open>Matching\<close>: \<^verbatim>\<open>tools/matching.rs\<close>, where an edit applies: exactly, by lines under weaker and weaker keys, by the
    first and last line of a block, or after stripping copied line numbers (C15). The deadline of the
    search is a parameter, scores are fractions.
  \<^item> \<open>Edit\<close>: one edit of a text in memory, and the ranges that keep a later edit of the batch from
    changing what an earlier one wrote (C17).
  \<^item> \<open>Workspace_Files\<close>: \<^verbatim>\<open>workspace/access.rs\<close>, \<^verbatim>\<open>atomic_write.rs\<close>, \<^verbatim>\<open>bounded_read.rs\<close>, \<^verbatim>\<open>file_state.rs\<close>: paths inside
    the workspace, protected paths, and the replacement of a file through a temporary one. What the system
    answers to each call is data, so any other process may act in between.
  \<^item> \<open>Edit_File\<close>: the tool as a whole. An unread file is edited only where its old text is unique (C10), and
    nothing is replaced that was not planned and seen unchanged (C23). It composes \<open>Edit\<close>, the search and the workspace.

  \<^bold>\<open>The read tool.\<close>
  \<^item> \<open>Read_File\<close>: \<^verbatim>\<open>tools/read.rs\<close>, the ranges of lines a call asks for, the loading of a file, the window of numbered lines
    within the bounds of a result, outlines, information and images, and what the call records of the state of the file.
  \<^item> \<open>Read_Spec\<close>: a read shows the longest beginning that fits of a listing of exactly the lines asked for (C7), and reading on
    from the offsets it names shows every line of a file once and never fails (C5), because masking makes a text at most seven
    times as long.

  \<^bold>\<open>The write tool.\<close>
  \<^item> \<open>Write_File\<close>: \<^verbatim>\<open>tools/write.rs\<close>, where a file goes whose directories may be missing, which content may be overwritten, and the
    replacement over \<open>Workspace_Files\<close>.
  \<^item> \<open>Write_Spec\<close>: a write changes only a file inside the workspace, and there only content that is known and still there (C12). Over
    every session of reads and writes, what a write replaces was read in full or written before (C18).

  \<^bold>\<open>The search of the history.\<close>
  \<^item> \<open>Text_Search\<close>: \<^verbatim>\<open>runtime/history.rs\<close>, the search without regard to case by the algorithm of Knuth, Morris and
    Pratt, against a specification over the characters of the text (C24), and excerpts, which are cut between
    characters and bounded.
  \<^item> \<open>History\<close>: the cursors, the walk of \<^verbatim>\<open>sessions/history.rs\<close> over the tables of the store, one unit of text per
    step, and the tool. Searches that follow the printed cursors end and together report every match of the
    history once and in order (C9).

  \<^bold>\<open>Scheduling.\<close>
  \<^item> \<open>Admission\<close>: \<^verbatim>\<open>sessions/scheduler.rs\<close>, the permits of a pool as a step relation that refines an
    abstract pool (C40). The semaphore of tokio is the locale \<open>semaphore\<close>, interpreted by a fair one.

  \<^bold>\<open>Events.\<close>
  \<^item> \<open>Journal\<close>: \<^verbatim>\<open>sessions/events.rs\<close>, the journal of a store with its retention; a read is exact or says that
    its cursor has expired (C36).
  \<^item> \<open>Feed\<close>: \<^verbatim>\<open>sessions/feed.rs\<close>, the rings of recent events.
  \<^item> \<open>Delivery\<close>: the streams of \<^verbatim>\<open>sessions/runtime.rs\<close> over both, as a step relation of the threads: every event
    once and in order (C27), and nothing withheld from a stream that waits (C28).

  \<^bold>\<open>The store of tool calls.\<close>
  \<^item> \<open>Tool_Calls\<close>: \<^verbatim>\<open>sessions/tool_calls.rs\<close>, with the answer to an approval of \<^verbatim>\<open>sessions/commands.rs\<close>, the
    insertion of the calls of a turn of \<^verbatim>\<open>sessions/streaming.rs\<close>, the interruption of a run of
    \<^verbatim>\<open>sessions/settlement.rs\<close> and the reservation of context of \<^verbatim>\<open>sessions/claim.rs\<close>. Each operation is the whole
    unit of work: queries, guarded updates, the trigger of the table, capacity, files, spills and events.
  \<^item> \<open>Lifecycle\<close>: over every sequence of these operations, rows stay well-formed and move along the life of a
    call only (C32), a run that has ended leaves no call unsettled (C13), and the events the journal serves say
    exactly what the store holds. One lemma per operation feeds the interpretation of \<open>state_machine\<close>.

  \<^bold>\<open>The client.\<close>
  \<^item> \<open>Client_Index\<close>: \<^verbatim>\<open>TreeIndex\<close> of \<^verbatim>\<open>qq-client/src/state.rs\<close>, the tree of sessions from the parents the server names, where a
    parent may be unknown and parents may form a cycle. The walk over the stack has as many steps as there are
    sessions; \<open>build_index_spec\<close> shows that they are enough, and what it lists, as reachability (\<open>rooted\<close>).
  \<^item> \<open>Client_State\<close>: the views of \<^verbatim>\<open>SessionStore\<close>, every operation on them, the installation of a snapshot and the
    queries of the interface.
  \<^item> \<open>Client_Reduce\<close>: \<^verbatim>\<open>qq-client/src/state/reduce.rs\<close>, the reduction and the replay of every event with their effects.
  \<^item> \<open>Client_Invariant\<close>: over every sequence of operations nothing panics and the cached tree is never stale (C8), and views and
    warm bodies are bounded (C25).
  \<^item> \<open>Client_Sync\<close>: the store of the server, \<open>Journal\<close> and the client put together: after the events that it missed a
    client shows each call as the store has it (C20).

  \<^bold>\<open>Conventions.\<close> A text is the list of its bytes (\<open>Rust_Str\<close>), with the panics of slicing inside a
  character written out as \<open>None\<close>; a machine integer that saturates or is checked is a natural number
  with its limit written out (\<open>Prelude\<close>), one that is used bitwise is a word; an error is the left
  side of a sum. Libraries are parameters with their documented laws as locales or hypotheses:
  SHA-256, JSON, URL parsing, DNS and HTTP, CIDR tests, the shell parser, the semaphore. A table of
  the store is a record, a unit of work a function that fails as a whole. The nesting
  of shells in \<open>Shell_Commands\<close> uses as fuel the limit of the code itself, and C31 shows that four
  levels are enough; that of the client's tree is the number of sessions, and every other loop is a terminating function.

  \<^bold>\<open>Not modelled.\<close> The terminal interface (\<^verbatim>\<open>qq-tui\<close>), the server and its transport (\<^verbatim>\<open>qq-server\<close>,
  and the connection of \<^verbatim>\<open>qq-client\<close>), sign-in (\<^verbatim>\<open>qq-auth\<close>), MCP (\<^verbatim>\<open>qq-mcp\<close>) and the build tools (\<^verbatim>\<open>xtask\<close>) are input and output
  around the core; the other tools that only touch files and processes (\<^verbatim>\<open>search.rs\<close>, \<^verbatim>\<open>shell.rs\<close>)
  and the rest of the SQL of the store (claims, settlement of a run, the installation of a compaction, projections, migrations) are
  left to later extensions.
\<close>

end
